(* ===== verification/V2_Prelude.thy ===== *)
theory V2_Prelude
  imports Main "HOL-Library.Word"
begin

text \<open>
  Shared vocabulary of the development: the machine types, the result codes of
  \<open>src/src/core/common/util/return.hpp\<close>, the fact collections the component theories fill,
  and the lemmas on lists, maps and modular indices that several components use.
\<close>

section \<open>Fact collections\<close>

named_theorems v2_defs "definitions of non-recursive operations, unfolded by the component proofs"
named_theorems v2_inv "introduction facts for the component invariants"

section \<open>Machine types and result codes\<close>

type_synonym u8 = "8 word"
type_synonym u16 = "16 word"
type_synonym u32 = "32 word"
type_synonym u64 = "64 word"
type_synonym addr = "64 word"

datatype result_code = Ok | Fail | InvalidArg | InvalidState | Timeout

fun result_value :: "result_code \<Rightarrow> int" where
  "result_value Ok = 0"
| "result_value Fail = -1"
| "result_value InvalidArg = -2"
| "result_value InvalidState = -3"
| "result_value Timeout = -4"

lemma result_value_inject [simp]: "result_value a = result_value b \<longleftrightarrow> a = b"
  by (cases a; cases b) simp_all

section \<open>Writing a block into a list\<close>

text \<open>\<open>mem_write b i d\<close> is \<open>memcpy(&b[i], d, length d)\<close> for a block that fits.\<close>

definition mem_write :: "'a list \<Rightarrow> nat \<Rightarrow> 'a list \<Rightarrow> 'a list" where
  "mem_write b i d = take i b @ d @ drop (i + length d) b"

lemma length_mem_write [simp]: "i + length d \<le> length b \<Longrightarrow> length (mem_write b i d) = length b"
  by (simp add: mem_write_def)

lemma nth_mem_write:
  assumes "i + length d \<le> length b" and "k < length b"
  shows "mem_write b i d ! k = (if i \<le> k \<and> k < i + length d then d ! (k - i) else b ! k)"
  using assms by (auto simp: mem_write_def nth_append min_def)

lemma mem_write_Nil [simp]: "mem_write b i [] = b"
  by (simp add: mem_write_def)

lemma set_list_update:
  assumes "i < length xs"
  shows "set (xs[i := v]) = insert v {xs ! j |j. j < length xs \<and> j \<noteq> i}"
proof -
  have "set (xs[i := v]) = {xs[i := v] ! j |j. j < length xs}" by (simp add: set_conv_nth)
  also have "\<dots> = insert v {xs ! j |j. j < length xs \<and> j \<noteq> i}"
  proof (rule set_eqI)
    fix y show "y \<in> {xs[i := v] ! j |j. j < length xs} \<longleftrightarrow> y \<in> insert v {xs ! j |j. j < length xs \<and> j \<noteq> i}"
      using assms by (cases "y = v") (auto simp: nth_list_update)
  qed
  finally show ?thesis .
qed

section \<open>Modular indices\<close>

lemma mod_less_double:
  fixes x n :: nat
  shows "x < 2 * n \<Longrightarrow> x mod n = (if x < n then x else x - n)"
  by (simp add: mod_if)

lemma mod_window_inj:
  fixes p q h n :: nat
  assumes "h \<le> p" "p < h + n" "h \<le> q" "q < h + n" "p mod n = q mod n"
  shows "p = q"
proof -
  have *: "a = b" if "a \<le> b" "b < a + n" "a mod n = b mod n" for a b :: nat
  proof -
    have "n dvd b - a" using that by (metis mod_eq_dvd_iff_nat)
    moreover have "b - a < n" using that by linarith
    ultimately have "b - a = 0" by (metis dvd_imp_le le_zero_eq not_gr_zero not_le)
    then show ?thesis using that by simp
  qed
  show ?thesis
  proof (cases "p \<le> q")
    case True
    then show ?thesis using * assms by simp
  next
    case False
    then show ?thesis using *[of q p] assms by simp
  qed
qed

section \<open>Sums over lists\<close>

lemma sum_list_update_nat:
  fixes xs :: "nat list"
  shows "i < length xs \<Longrightarrow> sum_list (xs[i := v]) + xs ! i = sum_list xs + v"
  by (induction xs arbitrary: i) (auto split: nat.splits)

end
