(* ===== verification/Timer_Base.thy ===== *)
theory Timer_Base
  imports V2_Prelude
begin

text \<open>
  \<open>TimerBase\<close> and \<open>Timer\<close> (\<open>src/src/core/common/timer\<close>): a pool of timer nodes with a free list, a map
  from timer id to pool index, a heap of pool indices ordered by expiry, and the thread that sleeps
  until the earliest expiry. Time is a natural number of ticks of the steady clock. The heap is the list
  of its indices in insertion order; its top is the first index of least expiry (the order of equal
  expiries is not fixed by the standard library, and no lemma here depends on it except through
  \<open>heap_top\<close>). Callbacks and payloads are opaque numbers; running a callback is whatever operations
  the callback performs on the timer between \<open>collect\<close> and \<open>finish\<close>.
  Two widths are left out: ids and ticks are unbounded here. The model is the code's as long as a timer has
  handed out fewer than \<open>2^31 - 1\<close> ids (\<open>nextId_\<close> is a 32-bit atomic that starts at 1 and would wrap) and
  expiry and delay, in nanoseconds, stay below \<open>2^63\<close>.
\<close>

section \<open>State\<close>

record tnode =
  tn_expiry :: nat
  tn_interval :: nat
  tn_cb :: nat
  tn_payload :: nat
  tn_id :: int
  tn_repeating :: bool
  tn_alive :: bool

definition fresh_node :: tnode where
  "fresh_node = \<lparr>tn_expiry = 0, tn_interval = 0, tn_cb = 0, tn_payload = 0, tn_id = -1, tn_repeating = False, tn_alive = True\<rparr>"

record timer =
  tm_next :: int
  tm_free :: "nat list"
  tm_pool :: "tnode list"
  tm_map :: "int \<rightharpoonup> nat"
  tm_heap :: "nat list"
  tm_sema :: nat

definition timer_new :: timer where
  "timer_new = \<lparr>tm_next = 1, tm_free = [], tm_pool = [], tm_map = Map.empty, tm_heap = [], tm_sema = 0\<rparr>"

definition expiry_at :: "timer \<Rightarrow> nat \<Rightarrow> nat" where
  "expiry_at t i = tn_expiry (tm_pool t ! i)"

definition least_by :: "(nat \<Rightarrow> nat) \<Rightarrow> nat list \<Rightarrow> nat option" where
  "least_by f xs = (case xs of [] \<Rightarrow> None | y # ys \<Rightarrow> Some (foldl (\<lambda>b z. if f z < f b then z else b) y ys))"

definition heap_top :: "timer \<Rightarrow> nat option" where
  "heap_top t = least_by (expiry_at t) (tm_heap t)"

section \<open>The least element of the heap\<close>

lemma foldl_least:
  "foldl (\<lambda>b z. if f z < f b then z else b) y ys \<in> set (y # ys) \<and>
   (\<forall>z \<in> set (y # ys). f (foldl (\<lambda>b z. if f z < f b then z else b) y ys) \<le> (f z :: nat))"
proof (induction ys arbitrary: y)
  case Nil
  then show ?case by simp
next
  case (Cons a ys)
  show ?case using Cons.IH[of "if f a < f y then a else y"] by (auto split: if_splits)
qed

lemma least_by_Some:
  assumes "least_by f xs = Some i"
  shows "i \<in> set xs" and "z \<in> set xs \<Longrightarrow> f i \<le> f z"
  using assms foldl_least[of f] by (auto simp: least_by_def split: list.splits)

lemma least_by_None [simp]: "least_by f xs = None \<longleftrightarrow> xs = []"
  by (simp add: least_by_def split: list.split)

lemma heap_top_Some:
  assumes "heap_top t = Some i"
  shows "i \<in> set (tm_heap t)" and "j \<in> set (tm_heap t) \<Longrightarrow> expiry_at t i \<le> expiry_at t j"
  using assms least_by_Some unfolding heap_top_def by blast+

lemma heap_top_None [simp]: "heap_top t = None \<longleftrightarrow> tm_heap t = []"
  by (simp add: heap_top_def)

lemma heap_pop_less: "heap_top t = Some i \<Longrightarrow> length (remove1 i (tm_heap t)) < length (tm_heap t)"
  using heap_top_Some(1)[of t i] length_pos_if_in_set[of i "tm_heap t"] by (auto simp: length_remove1)

section \<open>Operations\<close>

definition schedule_next :: "timer \<Rightarrow> timer" where
  "schedule_next t = t\<lparr>tm_sema := tm_sema t + 1\<rparr>"

definition alloc_node :: "timer \<Rightarrow> nat \<times> timer" where
  "alloc_node t =
     (if tm_free t \<noteq> []
      then let i = last (tm_free t) in
        (i, t\<lparr>tm_free := butlast (tm_free t), tm_pool := (tm_pool t)[i := fresh_node]\<rparr>)
      else (length (tm_pool t), t\<lparr>tm_pool := tm_pool t @ [fresh_node]\<rparr>))"

definition free_node :: "nat \<Rightarrow> timer \<Rightarrow> timer" where
  "free_node i t = t\<lparr>tm_pool := (tm_pool t)[i := fresh_node], tm_free := tm_free t @ [i]\<rparr>"

definition timer_add :: "nat \<Rightarrow> nat \<Rightarrow> bool \<Rightarrow> nat \<Rightarrow> nat \<Rightarrow> timer \<Rightarrow> int \<times> timer" where
  "timer_add now delay repeating cb payload t0 =
     (let (i, t) = alloc_node t0;
          ident = tm_next t;
          node = \<lparr>tn_expiry = now + delay, tn_interval = delay, tn_cb = cb, tn_payload = payload,
                  tn_id = ident, tn_repeating = repeating, tn_alive = True\<rparr>;
          t1 = t\<lparr>tm_pool := (tm_pool t)[i := node], tm_next := ident + 1\<rparr>;
          need = (case heap_top t1 of None \<Rightarrow> True | Some j \<Rightarrow> tn_expiry node < expiry_at t1 j);
          t2 = t1\<lparr>tm_heap := tm_heap t1 @ [i], tm_map := (tm_map t1)(ident \<mapsto> i)\<rparr>
      in (ident, if need then schedule_next t2 else t2))"

function purge_dead :: "timer \<Rightarrow> timer" where
  "purge_dead t =
     (case heap_top t of
        None \<Rightarrow> t
      | Some i \<Rightarrow>
          (if tn_alive (tm_pool t ! i) then t
           else purge_dead ((free_node i t)\<lparr>tm_heap := remove1 i (tm_heap t)\<rparr>)))"
  by pat_completeness auto
termination
  by (relation "measure (\<lambda>t. length (tm_heap t))")
    (auto simp: free_node_def heap_pop_less)

definition timer_cancel :: "int \<Rightarrow> timer \<Rightarrow> timer" where
  "timer_cancel ident t =
     (case tm_map t ident of
        None \<Rightarrow> t
      | Some i \<Rightarrow> purge_dead (t\<lparr>tm_pool := (tm_pool t)[i := (tm_pool t ! i)\<lparr>tn_alive := False\<rparr>],
                                tm_map := (tm_map t)(ident := None)\<rparr>))"

definition timer_clear :: "timer \<Rightarrow> timer" where
  "timer_clear t = schedule_next (t\<lparr>tm_heap := [], tm_pool := [], tm_free := [], tm_map := Map.empty\<rparr>)"

definition timer_isAlive :: "int \<Rightarrow> timer \<Rightarrow> bool" where
  "timer_isAlive ident t = (case tm_map t ident of None \<Rightarrow> False | Some i \<Rightarrow> tn_alive (tm_pool t ! i))"

definition timer_isRepeating :: "int \<Rightarrow> timer \<Rightarrow> bool" where
  "timer_isRepeating ident t = (case tm_map t ident of None \<Rightarrow> False | Some i \<Rightarrow> tn_repeating (tm_pool t ! i))"

definition has_live_top :: "timer \<Rightarrow> bool" where
  "has_live_top t = (case heap_top t of None \<Rightarrow> False | Some i \<Rightarrow> tn_alive (tm_pool t ! i))"

definition next_expiry :: "timer \<Rightarrow> nat" where
  "next_expiry t = (case heap_top t of None \<Rightarrow> 0 | Some i \<Rightarrow> expiry_at t i)"

text \<open>
  \<open>executeExpiredTimers\<close> has three phases: under the lock, pop everything that is due; without the
  lock, run the callbacks; under the lock again, re-arm or drop the timers that fired.
\<close>

type_synonym ready_node = "int \<times> nat \<times> nat"

function collect :: "nat \<Rightarrow> timer \<Rightarrow> ready_node list \<times> timer" where
  "collect now t =
     (case heap_top t of
        None \<Rightarrow> ([], t)
      | Some i \<Rightarrow>
          (if expiry_at t i > now then ([], t)
           else
             let t1 = t\<lparr>tm_heap := remove1 i (tm_heap t)\<rparr>;
                 n = tm_pool t ! i
             in if \<not> tn_alive n then collect now (free_node i t1)
                else (case collect now t1 of (rs, t2) \<Rightarrow> ((tn_id n, tn_cb n, tn_payload n) # rs, t2))))"
  by pat_completeness auto
termination
  by (relation "measure (\<lambda>(now, t). length (tm_heap t))")
    (auto simp: free_node_def heap_pop_less)

declare purge_dead.simps [simp del] collect.simps [simp del]

definition finish_one :: "ready_node \<Rightarrow> timer \<Rightarrow> timer" where
  "finish_one r t =
     (case tm_map t (fst r) of
        None \<Rightarrow> t
      | Some i \<Rightarrow>
          (let n = tm_pool t ! i in
           if tn_repeating n \<and> tn_alive n
           then t\<lparr>tm_pool := (tm_pool t)[i := n\<lparr>tn_expiry := tn_expiry n + tn_interval n\<rparr>],
                   tm_heap := tm_heap t @ [i]\<rparr>
           else free_node i (t\<lparr>tm_map := (tm_map t)(fst r := None)\<rparr>)))"

definition finish :: "ready_node list \<Rightarrow> timer \<Rightarrow> timer" where
  "finish rs t = schedule_next (fold finish_one rs t)"

definition execute_expired :: "nat \<Rightarrow> (ready_node \<Rightarrow> timer \<Rightarrow> timer) \<Rightarrow> timer \<Rightarrow> timer" where
  "execute_expired now run t =
     (case collect now t of (rs, t1) \<Rightarrow> finish rs (fold run rs t1))"

section \<open>Invariant\<close>

text \<open>
  \<open>R\<close> holds the pool indices that are neither free nor in the heap: nodes popped by \<open>collect\<close> whose
  callback is pending, and nodes leaked there. \<open>rdy\<close> are the ids whose callbacks are pending.
\<close>

definition timer_inv :: "nat set \<Rightarrow> int set \<Rightarrow> timer \<Rightarrow> bool" where
  "timer_inv R rdy t \<longleftrightarrow>
     distinct (tm_heap t) \<and> distinct (tm_free t) \<and>
     set (tm_heap t) \<inter> set (tm_free t) = {} \<and> R \<inter> set (tm_heap t) = {} \<and> R \<inter> set (tm_free t) = {} \<and>
     set (tm_heap t) \<union> set (tm_free t) \<union> R = {0..<length (tm_pool t)} \<and>
     (\<forall>d i. tm_map t d = Some i \<longrightarrow> i \<in> set (tm_heap t) \<union> R \<and> tn_id (tm_pool t ! i) = d \<and>
        tn_alive (tm_pool t ! i) \<and> d < tm_next t \<and> (i \<in> R \<longleftrightarrow> d \<in> rdy)) \<and>
     (\<forall>i \<in> set (tm_heap t) \<union> R. tn_alive (tm_pool t ! i) \<longrightarrow> tm_map t (tn_id (tm_pool t ! i)) = Some i) \<and>
     (\<forall>d \<in> rdy. d < tm_next t)"

lemma timer_invD:
  assumes "timer_inv R rdy t"
  shows "distinct (tm_heap t)" "distinct (tm_free t)" "set (tm_heap t) \<inter> set (tm_free t) = {}"
    "R \<inter> set (tm_heap t) = {}" "R \<inter> set (tm_free t) = {}"
    "set (tm_heap t) \<union> set (tm_free t) \<union> R = {0..<length (tm_pool t)}"
    "tm_map t d = Some i \<Longrightarrow> i \<in> set (tm_heap t) \<union> R \<and> tn_id (tm_pool t ! i) = d \<and> tn_alive (tm_pool t ! i) \<and>
      d < tm_next t \<and> (i \<in> R \<longleftrightarrow> d \<in> rdy)"
    "i \<in> set (tm_heap t) \<union> R \<Longrightarrow> tn_alive (tm_pool t ! i) \<Longrightarrow> tm_map t (tn_id (tm_pool t ! i)) = Some i"
    "d \<in> rdy \<Longrightarrow> d < tm_next t"
  using assms unfolding timer_inv_def by blast+

lemma inv_sema [simp]: "timer_inv R rdy (t\<lparr>tm_sema := k\<rparr>) = timer_inv R rdy t"
  by (simp add: timer_inv_def)

lemma timer_new_inv: "timer_inv {} {} timer_new"
  by (simp add: timer_inv_def timer_new_def)

lemma timer_clear_inv: "timer_inv R rdy t \<Longrightarrow> timer_inv {} rdy (timer_clear t)"
  by (simp add: timer_inv_def timer_clear_def schedule_next_def)

text \<open>What the client sees: the armed timers.\<close>

definition armed :: "timer \<Rightarrow> int \<rightharpoonup> tnode" where
  "armed t d = (case tm_map t d of None \<Rightarrow> None | Some i \<Rightarrow> Some (tm_pool t ! i))"

lemma armed_sema [simp]: "armed (t\<lparr>tm_sema := k\<rparr>) = armed t"
  by (simp add: armed_def fun_eq_iff split: option.split)

section \<open>Every operation keeps the invariant\<close>

lemma armed_Some: "armed t d = Some n \<longleftrightarrow> (\<exists>i. tm_map t d = Some i \<and> n = tm_pool t ! i)"
  by (auto simp: armed_def split: option.split)

lemma armed_dom: "armed t d = None \<longleftrightarrow> tm_map t d = None"
  by (simp add: armed_def split: option.split)

lemma armed_cong:
  assumes "tm_map t' = tm_map t" and "\<And>d i. tm_map t d = Some i \<Longrightarrow> tm_pool t' ! i = tm_pool t ! i"
  shows "armed t' = armed t"
  using assms by (auto simp: armed_def fun_eq_iff split: option.split)

text \<open>A dead node leaves the heap for the free list.\<close>

lemma free_dead_inv:
  assumes inv: "timer_inv R rdy t" and i: "i \<in> set (tm_heap t)" "\<not> tn_alive (tm_pool t ! i)"
  defines "t' \<equiv> (free_node i t)\<lparr>tm_heap := remove1 i (tm_heap t)\<rparr>"
  shows "timer_inv R rdy t'" and "armed t' = armed t"
proof -
  note D = timer_invD[OF inv]
  have len: "i < length (tm_pool t)" using D(6) i(1) by auto
  have nomap: "tm_map t d \<noteq> Some i" for d using D(7)[of d i] i(2) by auto
  have f: "tm_heap t' = remove1 i (tm_heap t)" "tm_free t' = tm_free t @ [i]" "tm_map t' = tm_map t"
    "tm_next t' = tm_next t" "tm_pool t' = (tm_pool t)[i := fresh_node]"
    by (simp_all add: t'_def free_node_def)
  have sh: "set (remove1 i (tm_heap t)) = set (tm_heap t) - {i}" using D(1) by (simp add: set_remove1_eq)
  have iR: "i \<notin> R" "i \<notin> set (tm_free t)" using D(3,4) i(1) by auto
  show "armed t' = armed t"
    by (rule armed_cong) (use nomap in \<open>auto simp: f intro: nth_list_update_neq\<close>)
  show "timer_inv R rdy t'"
    unfolding timer_inv_def f sh
  proof (intro conjI)
    show "set (tm_heap t) - {i} \<union> set (tm_free t @ [i]) \<union> R = {0..<length ((tm_pool t)[i := fresh_node])}"
      using D(6) i(1) by auto
    show "\<forall>d j. tm_map t d = Some j \<longrightarrow> j \<in> set (tm_heap t) - {i} \<union> R \<and> tn_id ((tm_pool t)[i := fresh_node] ! j) = d \<and>
        tn_alive ((tm_pool t)[i := fresh_node] ! j) \<and> d < tm_next t \<and> (j \<in> R \<longleftrightarrow> d \<in> rdy)"
    proof (intro allI impI)
      fix d j assume m: "tm_map t d = Some j"
      then have "j \<noteq> i" using nomap by auto
      then show "j \<in> set (tm_heap t) - {i} \<union> R \<and> tn_id ((tm_pool t)[i := fresh_node] ! j) = d \<and>
          tn_alive ((tm_pool t)[i := fresh_node] ! j) \<and> d < tm_next t \<and> (j \<in> R \<longleftrightarrow> d \<in> rdy)"
        using D(7)[OF m] by auto
    qed
    show "\<forall>j \<in> set (tm_heap t) - {i} \<union> R. tn_alive ((tm_pool t)[i := fresh_node] ! j) \<longrightarrow>
        tm_map t (tn_id ((tm_pool t)[i := fresh_node] ! j)) = Some j"
    proof (intro ballI impI)
      fix j assume j: "j \<in> set (tm_heap t) - {i} \<union> R" "tn_alive ((tm_pool t)[i := fresh_node] ! j)"
      then have "j \<noteq> i" using iR by auto
      then show "tm_map t (tn_id ((tm_pool t)[i := fresh_node] ! j)) = Some j" using D(8)[of j] j by auto
    qed
    show "\<forall>d \<in> rdy. d < tm_next t" using D(9) by blast
  qed (use D(1-5) iR i(1) in auto)
qed

lemma purge_dead_ok:
  "timer_inv R rdy t \<Longrightarrow> timer_inv R rdy (purge_dead t) \<and> armed (purge_dead t) = armed t \<and>
     tm_next (purge_dead t) = tm_next t \<and> tm_sema (purge_dead t) = tm_sema t \<and>
     (tm_heap (purge_dead t) \<noteq> [] \<longrightarrow> has_live_top (purge_dead t))"
proof (induction t rule: purge_dead.induct)
  case (1 t)
  show ?case
  proof (cases "heap_top t")
    case None
    then have "purge_dead t = t" by (subst purge_dead.simps) (simp only: option.case)
    then show ?thesis using 1(2) None by simp
  next
    case (Some i)
    show ?thesis
    proof (cases "tn_alive (tm_pool t ! i)")
      case True
      then show ?thesis using 1(2) Some by (simp add: purge_dead.simps[of t] has_live_top_def)
    next
      case False
      let ?t = "(free_node i t)\<lparr>tm_heap := remove1 i (tm_heap t)\<rparr>"
      have e: "purge_dead t = purge_dead ?t" using Some False by (simp add: purge_dead.simps[of t])
      note k = free_dead_inv[OF 1(2) heap_top_Some(1)[OF Some] False]
      show ?thesis unfolding e using 1(1)[OF Some False k(1)] k(2) by (simp add: free_node_def)
    qed
  qed
qed

lemma alloc_node_ok:
  assumes inv: "timer_inv R rdy t" and r: "alloc_node t = (i, t1)"
  shows "i < length (tm_pool t1)" "i \<notin> set (tm_heap t1) \<union> R \<union> set (tm_free t1)"
    "set (tm_heap t1) \<union> set (tm_free t1) \<union> R \<union> {i} = {0..<length (tm_pool t1)}"
    "distinct (tm_free t1)" "set (tm_free t1) \<subseteq> set (tm_free t)"
    "tm_heap t1 = tm_heap t" "tm_map t1 = tm_map t" "tm_next t1 = tm_next t" "tm_sema t1 = tm_sema t"
    "j \<in> set (tm_heap t) \<union> R \<Longrightarrow> tm_pool t1 ! j = tm_pool t ! j"
proof -
  note D = timer_invD[OF inv]
  have "i < length (tm_pool t1) \<and> i \<notin> set (tm_heap t1) \<union> R \<union> set (tm_free t1) \<and>
    set (tm_heap t1) \<union> set (tm_free t1) \<union> R \<union> {i} = {0..<length (tm_pool t1)} \<and>
    distinct (tm_free t1) \<and> set (tm_free t1) \<subseteq> set (tm_free t) \<and>
    tm_heap t1 = tm_heap t \<and> tm_map t1 = tm_map t \<and> tm_next t1 = tm_next t \<and> tm_sema t1 = tm_sema t \<and>
    (\<forall>j \<in> set (tm_heap t) \<union> R. tm_pool t1 ! j = tm_pool t ! j)"
  proof (cases "tm_free t = []")
    case True
    then have e: "i = length (tm_pool t)" "t1 = t\<lparr>tm_pool := tm_pool t @ [fresh_node]\<rparr>"
      using r by (simp_all add: alloc_node_def)
    have lt: "j < length (tm_pool t)" if "j \<in> set (tm_heap t) \<union> R" for j using D(6) that by auto
    have u: "set (tm_heap t) \<union> R = {0..<length (tm_pool t)}" using D(6) True by simp
    have keep: "\<forall>j \<in> set (tm_heap t) \<union> R. tm_pool t1 ! j = tm_pool t ! j"
      using lt by (simp add: e nth_append)
    have cover: "set (tm_heap t1) \<union> set (tm_free t1) \<union> R \<union> {i} = {0..<length (tm_pool t1)}"
    proof -
      have "{0..<length (tm_pool t1)} = insert i {0..<length (tm_pool t)}"
        by (simp add: e atLeast0_lessThan_Suc)
      then show ?thesis using u True by (simp add: e)
    qed
    have "i \<notin> set (tm_heap t1) \<union> R \<union> set (tm_free t1)" using u True by (simp add: e)
    then show ?thesis using keep cover by (simp add: e True)
  next
    case False
    obtain xs x where fr: "tm_free t = xs @ [x]" using False by (cases "tm_free t" rule: rev_cases) auto
    have e: "i = x" "t1 = t\<lparr>tm_free := xs, tm_pool := (tm_pool t)[x := fresh_node]\<rparr>"
      using r by (auto simp: alloc_node_def Let_def fr)
    have nd: "distinct xs" "x \<notin> set xs" using D(2) by (simp_all add: fr)
    have sf: "set (tm_free t) = set xs \<union> {x}" by (simp add: fr)
    then have ni: "x \<notin> set (tm_heap t) \<union> R" using D(3,5) by blast
    have "x < length (tm_pool t)" using D(6) sf by auto
    then have len: "x < length (tm_pool t1)" by (simp add: e)
    have keep: "\<forall>j \<in> set (tm_heap t) \<union> R. tm_pool t1 ! j = tm_pool t ! j"
    proof
      fix j assume "j \<in> set (tm_heap t) \<union> R"
      then have "j \<noteq> x" using ni by blast
      then show "tm_pool t1 ! j = tm_pool t ! j" by (simp add: e)
    qed
    have f: "tm_free t1 = xs" "tm_heap t1 = tm_heap t" "length (tm_pool t1) = length (tm_pool t)"
      by (simp_all add: e)
    have cover: "set (tm_heap t1) \<union> set (tm_free t1) \<union> R \<union> {i} = {0..<length (tm_pool t1)}"
      unfolding f e(1) using D(6) sf by blast
    have "i \<notin> set (tm_heap t1) \<union> R \<union> set (tm_free t1)" unfolding f e(1) using ni nd(2) by blast
    moreover have "set (tm_free t1) \<subseteq> set (tm_free t)" unfolding f using sf by blast
    ultimately show ?thesis using len keep cover nd(1) by (simp add: e)
  qed
  then show "i < length (tm_pool t1)" "i \<notin> set (tm_heap t1) \<union> R \<union> set (tm_free t1)"
    "set (tm_heap t1) \<union> set (tm_free t1) \<union> R \<union> {i} = {0..<length (tm_pool t1)}"
    "distinct (tm_free t1)" "set (tm_free t1) \<subseteq> set (tm_free t)"
    "tm_heap t1 = tm_heap t" "tm_map t1 = tm_map t" "tm_next t1 = tm_next t" "tm_sema t1 = tm_sema t"
    "j \<in> set (tm_heap t) \<union> R \<Longrightarrow> tm_pool t1 ! j = tm_pool t ! j"
    by - (elim conjE, (assumption | (erule bspec, assumption)))+
qed

definition new_node :: "nat \<Rightarrow> nat \<Rightarrow> bool \<Rightarrow> nat \<Rightarrow> nat \<Rightarrow> int \<Rightarrow> tnode" where
  "new_node now delay repeating cb payload d =
     \<lparr>tn_expiry = now + delay, tn_interval = delay, tn_cb = cb, tn_payload = payload,
      tn_id = d, tn_repeating = repeating, tn_alive = True\<rparr>"

lemma timer_add_ok:
  assumes inv: "timer_inv R rdy t" and r: "timer_add now delay rep cb pl t = (d, t')"
  shows "timer_inv R rdy t'" and "d = tm_next t" and "armed t d = None"
    and "armed t' = (armed t)(d \<mapsto> new_node now delay rep cb pl d)" and "tm_next t' = tm_next t + 1"
    and "tm_sema t \<le> tm_sema t'"
    and "(tm_sema t' = tm_sema t \<longrightarrow> (\<exists>j \<in> set (tm_heap t). expiry_at t j \<le> now + delay))"
    and "\<exists>i. tm_heap t' = tm_heap t @ [i] \<and> expiry_at t' i = now + delay \<and>
           (\<forall>j \<in> set (tm_heap t). expiry_at t' j = expiry_at t j \<and> tm_pool t' ! j = tm_pool t ! j)"
proof -
  note D = timer_invD[OF inv]
  obtain i t1 where a: "alloc_node t = (i, t1)" by (cases "alloc_node t")
  note A = alloc_node_ok[OF inv a]
  let ?n = "new_node now delay rep cb pl (tm_next t)"
  let ?t1 = "t1\<lparr>tm_pool := (tm_pool t1)[i := ?n], tm_next := tm_next t + 1\<rparr>"
  let ?need = "(case heap_top ?t1 of None \<Rightarrow> True | Some j \<Rightarrow> now + delay < expiry_at ?t1 j)"
  let ?t2 = "?t1\<lparr>tm_heap := tm_heap t @ [i], tm_map := (tm_map t)(tm_next t \<mapsto> i)\<rparr>"
  have d: "d = tm_next t" and t': "t' = (if ?need then schedule_next ?t2 else ?t2)"
  proof -
    have "timer_add now delay rep cb pl t = (tm_next t, if ?need then schedule_next ?t2 else ?t2)"
      unfolding timer_add_def a prod.case Let_def by (simp add: A(6-8) new_node_def cong: option.case_cong if_cong)
    then show "d = tm_next t" "t' = (if ?need then schedule_next ?t2 else ?t2)" using r by simp_all
  qed
  show "d = tm_next t" by (rule d)
  have nm: "tm_map t (tm_next t) = None"
  proof (cases "tm_map t (tm_next t)")
    case (Some j)
    then show ?thesis using D(7)[OF Some] by simp
  qed simp
  then show "armed t d = None" by (simp add: d armed_dom)
  have nr: "tm_next t \<notin> rdy" using D(9) by force
  have keep: "(tm_pool t1)[i := ?n] ! j = tm_pool t ! j" if "j \<in> set (tm_heap t) \<union> R" for j
    using A(2,6) A(10)[of j] that by (cases "j = i") auto
  have at: "(tm_pool t1)[i := ?n] ! i = ?n" using A(1) by simp
  have inv2: "timer_inv R rdy ?t2"
    unfolding timer_inv_def
  proof (intro conjI)
    show "\<forall>e j. tm_map ?t2 e = Some j \<longrightarrow> j \<in> set (tm_heap ?t2) \<union> R \<and> tn_id (tm_pool ?t2 ! j) = e \<and>
        tn_alive (tm_pool ?t2 ! j) \<and> e < tm_next ?t2 \<and> (j \<in> R \<longleftrightarrow> e \<in> rdy)"
    proof (intro allI impI)
      fix e j assume m: "tm_map ?t2 e = Some j"
      show "j \<in> set (tm_heap ?t2) \<union> R \<and> tn_id (tm_pool ?t2 ! j) = e \<and>
        tn_alive (tm_pool ?t2 ! j) \<and> e < tm_next ?t2 \<and> (j \<in> R \<longleftrightarrow> e \<in> rdy)"
      proof (cases "e = tm_next t")
        case True
        then show ?thesis using m at A(2) nr by (simp add: new_node_def)
      next
        case False
        then have m': "tm_map t e = Some j" using m by simp
        note dd = D(7)[OF m']
        show ?thesis using dd keep[of j] by auto
      qed
    qed
    show "\<forall>j \<in> set (tm_heap ?t2) \<union> R. tn_alive (tm_pool ?t2 ! j) \<longrightarrow> tm_map ?t2 (tn_id (tm_pool ?t2 ! j)) = Some j"
    proof (intro ballI impI)
      fix j assume j: "j \<in> set (tm_heap ?t2) \<union> R" "tn_alive (tm_pool ?t2 ! j)"
      show "tm_map ?t2 (tn_id (tm_pool ?t2 ! j)) = Some j"
      proof (cases "j = i")
        case True
        then show ?thesis using at by (simp add: new_node_def)
      next
        case False
        then have jj: "j \<in> set (tm_heap t) \<union> R" using j(1) by auto
        then have m: "tm_map t (tn_id (tm_pool t ! j)) = Some j" using D(8)[OF jj] keep[OF jj] j(2) by simp
        then show ?thesis using keep[OF jj] nm by auto
      qed
    qed
    show "set (tm_heap ?t2) \<union> set (tm_free ?t2) \<union> R = {0..<length (tm_pool ?t2)}"
      using A(3,6) by auto
    show "\<forall>d \<in> rdy. d < tm_next ?t2" using D(9) by force
  qed (use D(1-5) A(2,4-6) in auto)
  then show "timer_inv R rdy t'" by (simp add: t' schedule_next_def)
  have "armed ?t2 = (armed t)(d \<mapsto> new_node now delay rep cb pl d)"
  proof (rule ext)
    fix e show "armed ?t2 e = ((armed t)(d \<mapsto> new_node now delay rep cb pl d)) e"
    proof (cases "e = tm_next t")
      case True
      then show ?thesis using at by (simp add: armed_def d)
    next
      case False
      then show ?thesis using keep D(7)[of e] by (auto simp: armed_def d split: option.split)
    qed
  qed
  then show "armed t' = (armed t)(d \<mapsto> new_node now delay rep cb pl d)" by (simp add: t' schedule_next_def)
  show "tm_next t' = tm_next t + 1" "tm_sema t \<le> tm_sema t'" using A(9) by (simp_all add: t' schedule_next_def)
  have ke: "expiry_at ?t1 j = expiry_at t j" if "j \<in> set (tm_heap t)" for j
    using keep[of j] that by (simp add: expiry_at_def)
  show "tm_sema t' = tm_sema t \<longrightarrow> (\<exists>j \<in> set (tm_heap t). expiry_at t j \<le> now + delay)"
  proof
    assume "tm_sema t' = tm_sema t"
    then have "\<not> ?need" using A(9) by (auto simp: t' schedule_next_def split: if_splits)
    then obtain j where j: "heap_top ?t1 = Some j" "\<not> now + delay < expiry_at ?t1 j" by (auto split: option.splits)
    then have "j \<in> set (tm_heap t)" using heap_top_Some(1)[OF j(1)] A(6) by simp
    then show "\<exists>j \<in> set (tm_heap t). expiry_at t j \<le> now + delay" using j(2) ke by (auto simp: not_less)
  qed
  have "expiry_at t' i = now + delay" using at by (simp add: t' schedule_next_def expiry_at_def new_node_def)
  moreover have "expiry_at t' j = expiry_at t j \<and> tm_pool t' ! j = tm_pool t ! j" if "j \<in> set (tm_heap t)" for j
    using keep[of j] that by (simp add: t' schedule_next_def expiry_at_def)
  moreover have "tm_heap t' = tm_heap t @ [i]" by (simp add: t' schedule_next_def)
  ultimately show "\<exists>i. tm_heap t' = tm_heap t @ [i] \<and> expiry_at t' i = now + delay \<and>
           (\<forall>j \<in> set (tm_heap t). expiry_at t' j = expiry_at t j \<and> tm_pool t' ! j = tm_pool t ! j)" by blast
qed

lemma timer_cancel_ok:
  assumes inv: "timer_inv R rdy t"
  shows "timer_inv R rdy (timer_cancel d t)" and "armed (timer_cancel d t) = (armed t)(d := None)"
    and "tm_next (timer_cancel d t) = tm_next t" and "tm_sema (timer_cancel d t) = tm_sema t"
proof -
  have "timer_inv R rdy (timer_cancel d t) \<and> armed (timer_cancel d t) = (armed t)(d := None) \<and>
    tm_next (timer_cancel d t) = tm_next t \<and> tm_sema (timer_cancel d t) = tm_sema t"
  proof (cases "tm_map t d")
    case None
    then have "armed t d = None" by (simp add: armed_dom)
    then show ?thesis using None inv by (simp add: timer_cancel_def fun_upd_idem)
  next
    case (Some i)
    note D = timer_invD[OF inv]
    let ?n = "(tm_pool t ! i)\<lparr>tn_alive := False\<rparr>"
    let ?t = "t\<lparr>tm_pool := (tm_pool t)[i := ?n], tm_map := (tm_map t)(d := None)\<rparr>"
    have e: "timer_cancel d t = purge_dead ?t" using Some by (simp add: timer_cancel_def)
    have len: "i < length (tm_pool t)" using D(7)[OF Some] D(6) by auto
    have uniq: "e = d" if "tm_map t e = Some i" for e using D(7)[OF Some] D(7)[OF that] by simp
    have other: "(tm_pool t)[i := ?n] ! j = tm_pool t ! j" if "j \<noteq> i" for j using that by simp
    have "timer_inv R rdy ?t"
      unfolding timer_inv_def
    proof (intro conjI)
      show "\<forall>e j. tm_map ?t e = Some j \<longrightarrow> j \<in> set (tm_heap ?t) \<union> R \<and> tn_id (tm_pool ?t ! j) = e \<and>
          tn_alive (tm_pool ?t ! j) \<and> e < tm_next ?t \<and> (j \<in> R \<longleftrightarrow> e \<in> rdy)"
      proof (intro allI impI)
        fix e j assume "tm_map ?t e = Some j"
        then have m: "tm_map t e = Some j" "e \<noteq> d" by (auto split: if_splits)
        then have "j \<noteq> i" using uniq by auto
        then show "j \<in> set (tm_heap ?t) \<union> R \<and> tn_id (tm_pool ?t ! j) = e \<and>
          tn_alive (tm_pool ?t ! j) \<and> e < tm_next ?t \<and> (j \<in> R \<longleftrightarrow> e \<in> rdy)"
          using D(7)[OF m(1)] by auto
      qed
      show "\<forall>j \<in> set (tm_heap ?t) \<union> R. tn_alive (tm_pool ?t ! j) \<longrightarrow> tm_map ?t (tn_id (tm_pool ?t ! j)) = Some j"
      proof (intro ballI impI)
        fix j assume j: "j \<in> set (tm_heap ?t) \<union> R" "tn_alive (tm_pool ?t ! j)"
        then have ne: "j \<noteq> i" using len by auto
        then have m: "tm_map t (tn_id (tm_pool t ! j)) = Some j" using D(8)[of j] j by simp
        then have "tn_id (tm_pool t ! j) \<noteq> d" using Some ne by auto
        then show "tm_map ?t (tn_id (tm_pool ?t ! j)) = Some j" using m ne by simp
      qed
      show "\<forall>e \<in> rdy. e < tm_next ?t" using D(9) by simp
    qed (use D(1-6) in simp_all)
    moreover have "armed ?t = (armed t)(d := None)"
    proof (rule ext)
      fix e show "armed ?t e = ((armed t)(d := None)) e"
        using uniq by (cases "tm_map t e") (auto simp: armed_def intro!: nth_list_update_neq)
    qed
    ultimately show ?thesis unfolding e using purge_dead_ok[of R rdy ?t] by simp
  qed
  then show "timer_inv R rdy (timer_cancel d t)" "armed (timer_cancel d t) = (armed t)(d := None)"
    "tm_next (timer_cancel d t) = tm_next t" "tm_sema (timer_cancel d t) = tm_sema t" by simp_all
qed

text \<open>The ids that are due: armed, not already pending, expiry reached.\<close>

definition due :: "nat \<Rightarrow> int set \<Rightarrow> (int \<rightharpoonup> tnode) \<Rightarrow> int set" where
  "due now rdy m = {d. d \<notin> rdy \<and> (\<exists>n. m d = Some n \<and> tn_expiry n \<le> now)}"

lemma pop_alive_inv:
  assumes inv: "timer_inv R rdy t" and i: "i \<in> set (tm_heap t)" "tn_alive (tm_pool t ! i)"
  defines "d \<equiv> tn_id (tm_pool t ! i)"
  shows "timer_inv (insert i R) (insert d rdy) (t\<lparr>tm_heap := remove1 i (tm_heap t)\<rparr>)"
    and "armed (t\<lparr>tm_heap := remove1 i (tm_heap t)\<rparr>) = armed t"
    and "armed t d = Some (tm_pool t ! i)" and "d \<notin> rdy"
proof -
  note D = timer_invD[OF inv]
  have m: "tm_map t d = Some i" using D(8)[of i] i by (simp add: d_def)
  show "armed t d = Some (tm_pool t ! i)" using m by (simp add: armed_def)
  have iR: "i \<notin> R" using D(4) i(1) by blast
  then show dr: "d \<notin> rdy" using D(7)[OF m] by simp
  show "armed (t\<lparr>tm_heap := remove1 i (tm_heap t)\<rparr>) = armed t" by (rule armed_cong) simp_all
  have sh: "set (remove1 i (tm_heap t)) = set (tm_heap t) - {i}" using D(1) by (simp add: set_remove1_eq)
  have uniq: "e = d" if "tm_map t e = Some i" for e using D(7)[OF m] D(7)[OF that] by simp
  show "timer_inv (insert i R) (insert d rdy) (t\<lparr>tm_heap := remove1 i (tm_heap t)\<rparr>)"
    unfolding timer_inv_def
  proof (intro conjI)
    show "\<forall>e j. tm_map (t\<lparr>tm_heap := remove1 i (tm_heap t)\<rparr>) e = Some j \<longrightarrow>
        j \<in> set (tm_heap (t\<lparr>tm_heap := remove1 i (tm_heap t)\<rparr>)) \<union> insert i R \<and>
        tn_id (tm_pool (t\<lparr>tm_heap := remove1 i (tm_heap t)\<rparr>) ! j) = e \<and>
        tn_alive (tm_pool (t\<lparr>tm_heap := remove1 i (tm_heap t)\<rparr>) ! j) \<and>
        e < tm_next (t\<lparr>tm_heap := remove1 i (tm_heap t)\<rparr>) \<and> (j \<in> insert i R \<longleftrightarrow> e \<in> insert d rdy)"
    proof (intro allI impI)
      fix e j assume "tm_map (t\<lparr>tm_heap := remove1 i (tm_heap t)\<rparr>) e = Some j"
      then have me: "tm_map t e = Some j" by simp
      have "e = d" if "j = i" using uniq me that by blast
      moreover have "j = i" if "e = d" using me m that by simp
      ultimately have "j = i \<longleftrightarrow> e = d" by blast
      then show "j \<in> set (tm_heap (t\<lparr>tm_heap := remove1 i (tm_heap t)\<rparr>)) \<union> insert i R \<and>
        tn_id (tm_pool (t\<lparr>tm_heap := remove1 i (tm_heap t)\<rparr>) ! j) = e \<and>
        tn_alive (tm_pool (t\<lparr>tm_heap := remove1 i (tm_heap t)\<rparr>) ! j) \<and>
        e < tm_next (t\<lparr>tm_heap := remove1 i (tm_heap t)\<rparr>) \<and> (j \<in> insert i R \<longleftrightarrow> e \<in> insert d rdy)"
        using D(7)[OF me] by (auto simp: sh)
    qed
    show "\<forall>e \<in> insert d rdy. e < tm_next (t\<lparr>tm_heap := remove1 i (tm_heap t)\<rparr>)"
      using D(9) D(7)[OF m] by simp
    show "\<forall>j \<in> set (tm_heap (t\<lparr>tm_heap := remove1 i (tm_heap t)\<rparr>)) \<union> insert i R.
        tn_alive (tm_pool (t\<lparr>tm_heap := remove1 i (tm_heap t)\<rparr>) ! j) \<longrightarrow>
        tm_map (t\<lparr>tm_heap := remove1 i (tm_heap t)\<rparr>) (tn_id (tm_pool (t\<lparr>tm_heap := remove1 i (tm_heap t)\<rparr>) ! j)) = Some j"
    proof
      fix j assume "j \<in> set (tm_heap (t\<lparr>tm_heap := remove1 i (tm_heap t)\<rparr>)) \<union> insert i R"
      then have "j \<in> set (tm_heap t) \<union> R" using sh i(1) by auto
      from D(8)[OF this] show "tn_alive (tm_pool (t\<lparr>tm_heap := remove1 i (tm_heap t)\<rparr>) ! j) \<longrightarrow>
        tm_map (t\<lparr>tm_heap := remove1 i (tm_heap t)\<rparr>) (tn_id (tm_pool (t\<lparr>tm_heap := remove1 i (tm_heap t)\<rparr>) ! j)) = Some j"
        by simp
    qed
    show "set (tm_heap (t\<lparr>tm_heap := remove1 i (tm_heap t)\<rparr>)) \<union> set (tm_free (t\<lparr>tm_heap := remove1 i (tm_heap t)\<rparr>)) \<union>
        insert i R = {0..<length (tm_pool (t\<lparr>tm_heap := remove1 i (tm_heap t)\<rparr>))}"
      using D(6) i(1) by (simp add: sh) blast
    have ifr: "i \<notin> set (tm_free t)" using D(3) i(1) by blast
    show "insert i R \<inter> set (tm_heap (t\<lparr>tm_heap := remove1 i (tm_heap t)\<rparr>)) = {}" using D(4) by (simp add: sh) blast
    show "insert i R \<inter> set (tm_free (t\<lparr>tm_heap := remove1 i (tm_heap t)\<rparr>)) = {}" using D(5) ifr by simp
    show "set (tm_heap (t\<lparr>tm_heap := remove1 i (tm_heap t)\<rparr>)) \<inter> set (tm_free (t\<lparr>tm_heap := remove1 i (tm_heap t)\<rparr>)) = {}"
      using D(3) by (simp add: sh) blast
  qed (use D(1,2) in simp_all)
qed

text \<open>\<open>collect\<close> takes exactly the due timers, once each and in order of expiry.\<close>

lemma collect_ok:
  "timer_inv R rdy t \<Longrightarrow> collect now t = (rs, t') \<Longrightarrow>
     \<exists>R'. timer_inv R' (rdy \<union> fst ` set rs) t' \<and> armed t' = armed t \<and> tm_next t' = tm_next t \<and> tm_sema t' = tm_sema t \<and>
       fst ` set rs = due now rdy (armed t) \<and> distinct (map fst rs) \<and>
       sorted (map (\<lambda>r. tn_expiry (the (armed t (fst r)))) rs) \<and>
       (\<forall>(d, cb, pl) \<in> set rs. \<exists>n. armed t d = Some n \<and> tn_cb n = cb \<and> tn_payload n = pl)"
proof (induction now t arbitrary: R rdy rs t' rule: collect.induct)
  case (1 now t)
  note D = timer_invD[OF 1(3)]
  have inheap: "\<exists>i \<in> set (tm_heap t). expiry_at t i = tn_expiry n" if "armed t d = Some n" "d \<notin> rdy" for d n
    using that D(7)[of d] by (auto simp: armed_Some expiry_at_def)
  show ?case
  proof (cases "heap_top t")
    case None
    then have "tm_heap t = []" by simp
    moreover have "collect now t = ([], t)" using None by (subst collect.simps) (simp only: option.case)
    moreover have "due now rdy (armed t) = {}" using inheap \<open>tm_heap t = []\<close> by (fastforce simp: due_def)
    ultimately show ?thesis using 1(3,4) by auto
  next
    case (Some i)
    note top = heap_top_Some[OF Some]
    show ?thesis
    proof (cases "expiry_at t i > now")
      case True
      have "collect now t = ([], t)" using Some True by (subst collect.simps) simp
      moreover have "due now rdy (armed t) = {}"
      proof -
        have False if "armed t d = Some n" "d \<notin> rdy" "tn_expiry n \<le> now" for d n
          using inheap[OF that(1,2)] top(2) that(3) True by fastforce
        then show ?thesis by (auto simp: due_def)
      qed
      ultimately show ?thesis using 1(3,4) by auto
    next
      case False
      let ?t1 = "t\<lparr>tm_heap := remove1 i (tm_heap t)\<rparr>" and ?n = "tm_pool t ! i"
      show ?thesis
      proof (cases "tn_alive ?n")
        case dead: False
        note k = free_dead_inv[OF 1(3) top(1) dead]
        have fe: "free_node i ?t1 = (free_node i t)\<lparr>tm_heap := remove1 i (tm_heap t)\<rparr>"
          by (simp add: free_node_def)
        have e: "collect now t = collect now (free_node i ?t1)"
          using Some False dead by (subst collect.simps) (simp add: Let_def)
        have i1: "timer_inv R rdy (free_node i ?t1)" "armed (free_node i ?t1) = armed t" using k fe by simp_all
        have nx: "tm_next (free_node i ?t1) = tm_next t" "tm_sema (free_node i ?t1) = tm_sema t"
          by (simp_all add: free_node_def)
        have c: "collect now (free_node i ?t1) = (rs, t')" using 1(4) e by simp
        from 1(1)[OF Some False refl refl dead i1(1) c] show ?thesis unfolding i1(2) nx .
      next
        case alive: True
        note k = pop_alive_inv[OF 1(3) top(1) alive]
        let ?d = "tn_id ?n"
        obtain rs1 t2 where c: "collect now ?t1 = (rs1, t2)" by (cases "collect now ?t1")
        have r: "rs = (?d, tn_cb ?n, tn_payload ?n) # rs1" "t' = t2"
          using 1(4) Some False alive c by (simp_all add: collect.simps[of now t] Let_def)
        have "\<exists>R'. timer_inv R' (insert ?d rdy \<union> fst ` set rs1) t2 \<and> armed t2 = armed ?t1 \<and> tm_next t2 = tm_next ?t1 \<and>
            tm_sema t2 = tm_sema ?t1 \<and>
            fst ` set rs1 = due now (insert ?d rdy) (armed ?t1) \<and> distinct (map fst rs1) \<and>
            sorted (map (\<lambda>r. tn_expiry (the (armed ?t1 (fst r)))) rs1) \<and>
            (\<forall>(d, cb, pl) \<in> set rs1. \<exists>n. armed ?t1 d = Some n \<and> tn_cb n = cb \<and> tn_payload n = pl)"
          using 1(2)[OF Some False refl refl _ k(1) c] alive by blast
        then obtain R' where ih: "timer_inv R' (insert ?d rdy \<union> fst ` set rs1) t2" "armed t2 = armed t"
            "tm_next t2 = tm_next t" "tm_sema t2 = tm_sema t"
            "fst ` set rs1 = due now (insert ?d rdy) (armed t)" "distinct (map fst rs1)"
            "sorted (map (\<lambda>r. tn_expiry (the (armed t (fst r)))) rs1)"
            "\<forall>(d, cb, pl) \<in> set rs1. \<exists>n. armed t d = Some n \<and> tn_cb n = cb \<and> tn_payload n = pl"
          unfolding k(2) by auto
        have ex: "tn_expiry ?n \<le> now" using False by (simp add: expiry_at_def)
        have "fst ` set rs = due now rdy (armed t)"
          using ih(5) k(3,4) ex by (auto simp: r due_def)
        moreover have "?d \<notin> fst ` set rs1" using ih(5) by (simp add: due_def)
        moreover have "tn_expiry ?n \<le> tn_expiry (the (armed t (fst x)))" if x: "x \<in> set rs1" for x
        proof -
          have "fst x \<in> due now (insert ?d rdy) (armed t)" using ih(5) x by blast
          then obtain n where n: "armed t (fst x) = Some n" "fst x \<notin> rdy" by (auto simp: due_def)
          then obtain j where j: "j \<in> set (tm_heap t)" "expiry_at t j = tn_expiry n" using inheap[OF n] by blast
          then show ?thesis using top(2)[OF j(1)] n(1) by (simp add: expiry_at_def)
        qed
        moreover have "insert ?d rdy \<union> fst ` set rs1 = rdy \<union> fst ` set rs" by (auto simp: r)
        ultimately show ?thesis
          using ih(1-4,6-8) k(3) by (intro exI[of _ R'] conjI) (simp_all add: r)
      qed
    qed
  qed
qed

definition rearm :: "tnode \<Rightarrow> tnode" where
  "rearm n = n\<lparr>tn_expiry := tn_expiry n + tn_interval n\<rparr>"

definition spec_finish_one :: "int \<Rightarrow> (int \<rightharpoonup> tnode) \<Rightarrow> int \<rightharpoonup> tnode" where
  "spec_finish_one d m = (case m d of None \<Rightarrow> m
     | Some n \<Rightarrow> if tn_repeating n then m(d \<mapsto> rearm n) else m(d := None))"

lemma finish_one_ok:
  assumes inv: "timer_inv R rdy t" and d: "fst r \<in> rdy"
  shows "\<exists>R'. timer_inv R' (rdy - {fst r}) (finish_one r t) \<and> armed (finish_one r t) = spec_finish_one (fst r) (armed t) \<and>
    tm_next (finish_one r t) = tm_next t \<and> tm_sema (finish_one r t) = tm_sema t"
proof (cases "tm_map t (fst r)")
  case None
  have "timer_inv R (rdy - {fst r}) t"
    unfolding timer_inv_def
  proof (intro conjI)
    show "\<forall>e j. tm_map t e = Some j \<longrightarrow> j \<in> set (tm_heap t) \<union> R \<and> tn_id (tm_pool t ! j) = e \<and>
        tn_alive (tm_pool t ! j) \<and> e < tm_next t \<and> (j \<in> R \<longleftrightarrow> e \<in> rdy - {fst r})"
    proof (intro allI impI)
      fix e j assume m: "tm_map t e = Some j"
      then have "e \<noteq> fst r" using None by auto
      then show "j \<in> set (tm_heap t) \<union> R \<and> tn_id (tm_pool t ! j) = e \<and>
        tn_alive (tm_pool t ! j) \<and> e < tm_next t \<and> (j \<in> R \<longleftrightarrow> e \<in> rdy - {fst r})"
        using timer_invD(7)[OF inv m] by auto
    qed
  qed (use timer_invD(1-6,8,9)[OF inv] in simp_all)
  moreover have "armed t (fst r) = None" using None by (simp add: armed_dom)
  ultimately show ?thesis using None by (auto simp: finish_one_def spec_finish_one_def)
next
  case (Some i)
  note D = timer_invD[OF inv]
  let ?n = "tm_pool t ! i"
  note m = D(7)[OF Some]
  have iR: "i \<in> R" "i \<notin> set (tm_heap t)" "i \<notin> set (tm_free t)" using m d D(4,5) by blast+
  have len: "i < length (tm_pool t)" using D(6) iR(1) by auto
  have ar: "armed t (fst r) = Some ?n" using Some by (simp add: armed_def)
  have uniq: "e = fst r" if "tm_map t e = Some i" for e using m D(7)[OF that] by simp
  show ?thesis
  proof (cases "tn_repeating ?n")
    case True
    let ?m = "?n\<lparr>tn_expiry := tn_expiry ?n + tn_interval ?n\<rparr>"
    let ?t = "t\<lparr>tm_pool := (tm_pool t)[i := ?m], tm_heap := tm_heap t @ [i]\<rparr>"
    have e: "finish_one r t = ?t" using Some True m by (simp add: finish_one_def Let_def)
    have same: "tn_id ((tm_pool t)[i := ?m] ! j) = tn_id (tm_pool t ! j) \<and>
        tn_alive ((tm_pool t)[i := ?m] ! j) = tn_alive (tm_pool t ! j)" for j
      using len by (cases "j = i") simp_all
    have "timer_inv (R - {i}) (rdy - {fst r}) ?t"
      unfolding timer_inv_def
    proof (intro conjI)
      show "\<forall>e j. tm_map ?t e = Some j \<longrightarrow> j \<in> set (tm_heap ?t) \<union> (R - {i}) \<and> tn_id (tm_pool ?t ! j) = e \<and>
          tn_alive (tm_pool ?t ! j) \<and> e < tm_next ?t \<and> (j \<in> R - {i} \<longleftrightarrow> e \<in> rdy - {fst r})"
      proof (intro allI impI)
        fix e j assume "tm_map ?t e = Some j"
        then have me: "tm_map t e = Some j" by simp
        have "e = fst r" if "j = i" using uniq me that by blast
        moreover have "j = i" if "e = fst r" using me Some that by simp
        ultimately have "j = i \<longleftrightarrow> e = fst r" by blast
        then show "j \<in> set (tm_heap ?t) \<union> (R - {i}) \<and> tn_id (tm_pool ?t ! j) = e \<and>
          tn_alive (tm_pool ?t ! j) \<and> e < tm_next ?t \<and> (j \<in> R - {i} \<longleftrightarrow> e \<in> rdy - {fst r})"
          using D(7)[OF me] same[of j] by auto
      qed
      show "\<forall>j \<in> set (tm_heap ?t) \<union> (R - {i}). tn_alive (tm_pool ?t ! j) \<longrightarrow> tm_map ?t (tn_id (tm_pool ?t ! j)) = Some j"
        using D(8) same iR(1) by auto
      show "set (tm_heap ?t) \<union> set (tm_free ?t) \<union> (R - {i}) = {0..<length (tm_pool ?t)}"
        using D(6) iR(1) by auto
      show "set (tm_heap ?t) \<inter> set (tm_free ?t) = {}" using D(3) iR(3) by simp
      show "(R - {i}) \<inter> set (tm_heap ?t) = {}" using D(4) by auto
      show "(R - {i}) \<inter> set (tm_free ?t) = {}" using D(5) by auto
      show "\<forall>e \<in> rdy - {fst r}. e < tm_next ?t" using D(9) by simp
    qed (use D(1,2) iR(2) in simp_all)
    moreover have "armed ?t = spec_finish_one (fst r) (armed t)"
    proof (rule ext)
      fix e
      show "armed ?t e = spec_finish_one (fst r) (armed t) e"
      proof (cases "e = fst r")
        case True
        then show ?thesis using Some ar \<open>tn_repeating ?n\<close> len by (simp add: armed_def spec_finish_one_def rearm_def)
      next
        case False
        then have "(tm_pool t)[i := ?m] ! j = tm_pool t ! j" if "tm_map t e = Some j" for j
          using uniq that by (cases "j = i") auto
        then show ?thesis using False ar \<open>tn_repeating ?n\<close>
          by (cases "tm_map t e") (simp_all add: armed_def spec_finish_one_def)
      qed
    qed
    ultimately show ?thesis unfolding e by (intro exI[of _ "R - {i}"]) simp
  next
    case False
    let ?t = "free_node i (t\<lparr>tm_map := (tm_map t)(fst r := None)\<rparr>)"
    have e: "finish_one r t = ?t" using Some False by (simp add: finish_one_def Let_def)
    have f: "tm_heap ?t = tm_heap t" "tm_free ?t = tm_free t @ [i]" "tm_map ?t = (tm_map t)(fst r := None)"
      "tm_next ?t = tm_next t" "tm_pool ?t = (tm_pool t)[i := fresh_node]" "tm_sema ?t = tm_sema t"
      by (simp_all add: free_node_def)
    have "timer_inv (R - {i}) (rdy - {fst r}) ?t"
      unfolding timer_inv_def f
    proof (intro conjI)
      show "\<forall>e j. ((tm_map t)(fst r := None)) e = Some j \<longrightarrow> j \<in> set (tm_heap t) \<union> (R - {i}) \<and>
          tn_id ((tm_pool t)[i := fresh_node] ! j) = e \<and> tn_alive ((tm_pool t)[i := fresh_node] ! j) \<and>
          e < tm_next t \<and> (j \<in> R - {i} \<longleftrightarrow> e \<in> rdy - {fst r})"
      proof (intro allI impI)
        fix e j assume "((tm_map t)(fst r := None)) e = Some j"
        then have me: "tm_map t e = Some j" "e \<noteq> fst r" by (auto split: if_splits)
        then have "j \<noteq> i" using uniq by auto
        then show "j \<in> set (tm_heap t) \<union> (R - {i}) \<and>
          tn_id ((tm_pool t)[i := fresh_node] ! j) = e \<and> tn_alive ((tm_pool t)[i := fresh_node] ! j) \<and>
          e < tm_next t \<and> (j \<in> R - {i} \<longleftrightarrow> e \<in> rdy - {fst r})"
          using D(7)[OF me(1)] me(2) by auto
      qed
      show "\<forall>j \<in> set (tm_heap t) \<union> (R - {i}). tn_alive ((tm_pool t)[i := fresh_node] ! j) \<longrightarrow>
          ((tm_map t)(fst r := None)) (tn_id ((tm_pool t)[i := fresh_node] ! j)) = Some j"
      proof (intro ballI impI)
        fix j assume j: "j \<in> set (tm_heap t) \<union> (R - {i})" "tn_alive ((tm_pool t)[i := fresh_node] ! j)"
        then have ne: "j \<noteq> i" using iR(2) by auto
        then have mj: "tm_map t (tn_id (tm_pool t ! j)) = Some j" using D(8)[of j] j by auto
        then have "tn_id (tm_pool t ! j) \<noteq> fst r" using Some ne by auto
        then show "((tm_map t)(fst r := None)) (tn_id ((tm_pool t)[i := fresh_node] ! j)) = Some j" using mj ne by simp
      qed
      show "set (tm_heap t) \<union> set (tm_free t @ [i]) \<union> (R - {i}) = {0..<length ((tm_pool t)[i := fresh_node])}"
        using D(6) iR(1) by auto
      show "set (tm_heap t) \<inter> set (tm_free t @ [i]) = {}" using D(3) iR(2) by simp
      show "(R - {i}) \<inter> set (tm_heap t) = {}" using D(4) by auto
      show "(R - {i}) \<inter> set (tm_free t @ [i]) = {}" using D(5) by auto
      show "\<forall>e \<in> rdy - {fst r}. e < tm_next t" using D(9) by simp
    qed (use D(1,2) iR(3) in simp_all)
    moreover have "armed ?t = spec_finish_one (fst r) (armed t)"
    proof (rule ext)
      fix e
      show "armed ?t e = spec_finish_one (fst r) (armed t) e"
      proof (cases "e = fst r")
        case True
        then show ?thesis using ar False by (simp add: armed_def spec_finish_one_def f)
      next
        case ne: False
        then have "(tm_pool t)[i := fresh_node] ! j = tm_pool t ! j" if "tm_map t e = Some j" for j
          using uniq that by (cases "j = i") auto
        then show ?thesis using ne ar False
          by (cases "tm_map t e") (simp_all add: armed_def spec_finish_one_def f)
      qed
    qed
    ultimately show ?thesis unfolding e using f by (intro exI[of _ "R - {i}"]) simp
  qed
qed

lemma finish_ok:
  "timer_inv R rdy t \<Longrightarrow> distinct (map fst rs) \<Longrightarrow> fst ` set rs = rdy \<Longrightarrow>
     \<exists>R'. timer_inv R' {} (finish rs t) \<and> armed (finish rs t) = fold spec_finish_one (map fst rs) (armed t) \<and>
       tm_next (finish rs t) = tm_next t"
proof -
  have "\<exists>R'. timer_inv R' (rdy - fst ` set rs) (fold finish_one rs t) \<and>
      armed (fold finish_one rs t) = fold spec_finish_one (map fst rs) (armed t) \<and> tm_next (fold finish_one rs t) = tm_next t"
    if "timer_inv R rdy t" "distinct (map fst rs)" "fst ` set rs \<subseteq> rdy" for R rdy t
    using that
  proof (induction rs arbitrary: R rdy t)
    case Nil
    then show ?case by auto
  next
    case (Cons r rs)
    have d: "fst r \<in> rdy" using Cons.prems(3) by simp
    from finish_one_ok[OF Cons.prems(1) d] obtain R1 where
      o: "timer_inv R1 (rdy - {fst r}) (finish_one r t)" "armed (finish_one r t) = spec_finish_one (fst r) (armed t)"
        "tm_next (finish_one r t) = tm_next t" by blast
    have ds: "distinct (map fst rs)" "fst r \<notin> fst ` set rs" using Cons.prems(2) by simp_all
    have "fst ` set rs \<subseteq> rdy" using Cons.prems(3) by simp
    then have "fst ` set rs \<subseteq> rdy - {fst r}" using ds(2) by blast
    from Cons.IH[OF o(1) ds(1) this] obtain R' where
      "timer_inv R' (rdy - {fst r} - fst ` set rs) (fold finish_one rs (finish_one r t))"
      "armed (fold finish_one rs (finish_one r t)) = fold spec_finish_one (map fst rs) (armed (finish_one r t))"
      "tm_next (fold finish_one rs (finish_one r t)) = tm_next t" using o(3) by auto
    moreover have "rdy - {fst r} - fst ` set rs = rdy - fst ` set (r # rs)" by auto
    ultimately show ?case using o(2) by auto
  qed
  then show "timer_inv R rdy t \<Longrightarrow> distinct (map fst rs) \<Longrightarrow> fst ` set rs = rdy \<Longrightarrow> ?thesis"
    by (fastforce simp: finish_def schedule_next_def)
qed

section \<open>Refinement: the service the timers provide\<close>

text \<open>
  The specification is a counter and a map from id to timer. \<open>SExec\<close> fires everything due at \<open>now\<close>;
  its second argument is what the callbacks do to the timer, in any order.
\<close>

datatype timer_cmd =
    TAdd nat nat bool nat nat
  | TCancel int
  | TClear

fun timer_op :: "timer_cmd \<Rightarrow> timer \<Rightarrow> timer" where
  "timer_op (TAdd now delay rep cb pl) t = snd (timer_add now delay rep cb pl t)"
| "timer_op (TCancel d) t = timer_cancel d t"
| "timer_op TClear t = timer_clear t"

fun spec_op :: "timer_cmd \<Rightarrow> int \<times> (int \<rightharpoonup> tnode) \<Rightarrow> int \<times> (int \<rightharpoonup> tnode)" where
  "spec_op (TAdd now delay rep cb pl) (n, m) = (n + 1, m(n \<mapsto> new_node now delay rep cb pl n))"
| "spec_op (TCancel d) (n, m) = (n, m(d := None))"
| "spec_op TClear (n, m) = (n, Map.empty)"

definition timer_execute :: "nat \<Rightarrow> timer_cmd list \<Rightarrow> timer \<Rightarrow> timer" where
  "timer_execute now callbacks t =
     (case collect now t of (rs, t1) \<Rightarrow> finish rs (fold timer_op callbacks t1))"

definition spec_finish :: "int set \<Rightarrow> (int \<rightharpoonup> tnode) \<Rightarrow> int \<rightharpoonup> tnode" where
  "spec_finish ids m = (\<lambda>d. if d \<in> ids
     then (case m d of None \<Rightarrow> None | Some n \<Rightarrow> if tn_repeating n then Some (rearm n) else None) else m d)"

definition spec_execute :: "nat \<Rightarrow> timer_cmd list \<Rightarrow> int \<times> (int \<rightharpoonup> tnode) \<Rightarrow> int \<times> (int \<rightharpoonup> tnode)" where
  "spec_execute now callbacks s =
     (case fold spec_op callbacks s of (n, m) \<Rightarrow> (n, spec_finish (due now {} (snd s)) m))"

definition timer_abs :: "timer \<Rightarrow> int \<times> (int \<rightharpoonup> tnode)" where
  "timer_abs t = (tm_next t, armed t)"

lemma fold_spec_finish:
  "distinct ds \<Longrightarrow> fold spec_finish_one ds m = spec_finish (set ds) m"
proof (induction ds arbitrary: m)
  case Nil
  then show ?case by (simp add: spec_finish_def)
next
  case (Cons d ds)
  then show ?case
    by (auto simp: spec_finish_def spec_finish_one_def fun_eq_iff split: option.split)
qed

lemma timer_op_ok:
  assumes "timer_inv R rdy t"
  shows "\<exists>R'. timer_inv R' rdy (timer_op op t) \<and> timer_abs (timer_op op t) = spec_op op (timer_abs t)"
proof (cases op)
  case (TAdd now delay rep cb pl)
  obtain d t' where a: "timer_add now delay rep cb pl t = (d, t')" by (cases "timer_add now delay rep cb pl t")
  show ?thesis using TAdd a timer_add_ok[OF assms a] by (auto simp: timer_abs_def)
next
  case (TCancel d)
  then show ?thesis using timer_cancel_ok[OF assms, of d] by (auto simp: timer_abs_def)
next
  case TClear
  then show ?thesis using timer_clear_inv[OF assms]
    by (auto simp: timer_abs_def armed_def timer_clear_def schedule_next_def fun_eq_iff)
qed

lemma timer_ops_ok:
  "timer_inv R rdy t \<Longrightarrow> \<exists>R'. timer_inv R' rdy (fold timer_op ops t) \<and>
     timer_abs (fold timer_op ops t) = fold spec_op ops (timer_abs t)"
proof (induction ops arbitrary: R t)
  case Nil
  then show ?case by auto
next
  case (Cons op ops)
  obtain R1 where o: "timer_inv R1 rdy (timer_op op t)" "timer_abs (timer_op op t) = spec_op op (timer_abs t)"
    using timer_op_ok[OF Cons.prems] by blast
  show ?case using Cons.IH[OF o(1)] o(2) by simp
qed

text \<open>
  C6: \<open>TimerBase\<close> implements the map of armed timers: an execution at time \<open>now\<close> collects exactly
  the armed timers whose expiry is reached, each once, in order of expiry, with the callback and
  payload they were armed with; and after the callbacks - which may add, cancel and clear timers -
  a fired timer is re-armed by its interval if it is repeating and still armed, dropped otherwise.
\<close>

theorem timer_execute_refines:
  assumes inv: "timer_inv R {} t" and c: "collect now t = (rs, t1)"
  shows "fst ` set rs = due now {} (armed t) \<and> distinct (map fst rs) \<and>
    sorted (map (\<lambda>r. tn_expiry (the (armed t (fst r)))) rs) \<and>
    (\<forall>(d, cb, pl) \<in> set rs. \<exists>n. armed t d = Some n \<and> tn_cb n = cb \<and> tn_payload n = pl) \<and>
    timer_abs (timer_execute now callbacks t) = spec_execute now callbacks (timer_abs t) \<and>
    (\<exists>R'. timer_inv R' {} (timer_execute now callbacks t))"
proof -
  obtain R1 where k: "timer_inv R1 ({} \<union> fst ` set rs) t1" "armed t1 = armed t" "tm_next t1 = tm_next t"
    "fst ` set rs = due now {} (armed t)" "distinct (map fst rs)"
    "sorted (map (\<lambda>r. tn_expiry (the (armed t (fst r)))) rs)"
    "\<forall>(d, cb, pl) \<in> set rs. \<exists>n. armed t d = Some n \<and> tn_cb n = cb \<and> tn_payload n = pl"
    using collect_ok[OF inv c] by (elim exE conjE)
  let ?t2 = "fold timer_op callbacks t1"
  obtain R2 where o: "timer_inv R2 ({} \<union> fst ` set rs) ?t2" "timer_abs ?t2 = fold spec_op callbacks (timer_abs t1)"
    using timer_ops_ok[OF k(1)] by blast
  obtain R3 where f: "timer_inv R3 {} (finish rs ?t2)" "armed (finish rs ?t2) = fold spec_finish_one (map fst rs) (armed ?t2)"
    "tm_next (finish rs ?t2) = tm_next ?t2"
    using finish_ok[OF o(1) k(5)] by auto
  have e: "timer_execute now callbacks t = finish rs ?t2" by (simp add: timer_execute_def c)
  have "timer_abs (timer_execute now callbacks t) = spec_execute now callbacks (timer_abs t)"
    using f(2,3) o(2) k(2,3,4) fold_spec_finish[OF k(5)]
    by (cases "fold spec_op callbacks (tm_next t, armed t)")
      (simp add: e timer_abs_def spec_execute_def)
  then show ?thesis using k f(1) e by auto
qed

definition demo_timer :: timer where
  "demo_timer = timer_op (TAdd 0 20 True 7 70) (timer_op (TAdd 0 10 False 5 50) timer_new)"

lemma demo_timer_inv: "\<exists>R. timer_inv R {} demo_timer"
  using timer_ops_ok[OF timer_new_inv, of "[TAdd 0 10 False 5 50, TAdd 0 20 True 7 70]"]
  by (auto simp: demo_timer_def)

theorem timer_execute_refines_witness:
  "fst ` set (fst (collect 15 demo_timer)) = due 15 {} (armed demo_timer) \<and>
   timer_abs (timer_execute 15 [TCancel 2] demo_timer) = spec_execute 15 [TCancel 2] (timer_abs demo_timer)"
proof -
  obtain R where R: "timer_inv R {} demo_timer" using demo_timer_inv by blast
  obtain rs t1 where "collect 15 demo_timer = (rs, t1)" by (cases "collect 15 demo_timer")
  then show ?thesis using timer_execute_refines[OF R, of 15 rs t1 "[TCancel 2]"] by simp
qed

section \<open>Cancelling a timer from its own callback leaks its node\<close>

text \<open>One round: arm a timer, let it expire, and cancel it while its callback runs.\<close>

fun cancel_rounds :: "nat \<Rightarrow> timer \<Rightarrow> timer" where
  "cancel_rounds 0 t = t"
| "cancel_rounds (Suc n) t =
     (case timer_add 0 0 True 0 0 t of (d, t1) \<Rightarrow> cancel_rounds n (timer_execute 0 [TCancel d] t1))"

lemma cancel_round:
  assumes "tm_heap t = []" "tm_free t = []" "tm_map t = Map.empty"
  shows "\<exists>p s. (case timer_add 0 0 True 0 0 t of (d, t1) \<Rightarrow> timer_execute 0 [TCancel d] t1) =
    \<lparr>tm_next = tm_next t + 1, tm_free = [], tm_pool = tm_pool t @ [p], tm_map = Map.empty, tm_heap = [], tm_sema = s\<rparr>"
proof -
  let ?n = "\<lparr>tn_expiry = 0, tn_interval = 0, tn_cb = 0, tn_payload = 0, tn_id = tm_next t, tn_repeating = True, tn_alive = True\<rparr>"
  let ?i = "length (tm_pool t)"
  let ?t1 = "\<lparr>tm_next = tm_next t + 1, tm_free = [], tm_pool = tm_pool t @ [?n], tm_map = [tm_next t \<mapsto> ?i],
    tm_heap = [?i], tm_sema = tm_sema t + 1\<rparr>"
  have a: "timer_add 0 0 True 0 0 t = (tm_next t, ?t1)"
    using assms by (cases t) (simp add: timer_add_def alloc_node_def Let_def schedule_next_def heap_top_def least_by_def)
  have top: "heap_top ?t1 = Some ?i" by (simp add: heap_top_def least_by_def)
  have none: "heap_top (?t1\<lparr>tm_heap := []\<rparr>) = None" by simp
  have "collect 0 (?t1\<lparr>tm_heap := []\<rparr>) = ([], ?t1\<lparr>tm_heap := []\<rparr>)"
    using none by (subst collect.simps) (simp only: option.case)
  then have c: "collect 0 ?t1 = ([(tm_next t, 0, 0)], ?t1\<lparr>tm_heap := []\<rparr>)"
    using top by (subst collect.simps) (simp add: expiry_at_def Let_def)
  let ?t2 = "(?t1\<lparr>tm_heap := []\<rparr>)\<lparr>tm_pool := (tm_pool ?t1)[?i := ?n\<lparr>tn_alive := False\<rparr>], tm_map := Map.empty\<rparr>"
  have "heap_top ?t2 = None" by simp
  then have "purge_dead ?t2 = ?t2" by (subst purge_dead.simps) (simp only: option.case)
  then have x: "timer_cancel (tm_next t) (?t1\<lparr>tm_heap := []\<rparr>) = ?t2"
    by (simp add: timer_cancel_def)
  have "timer_execute 0 [TCancel (tm_next t)] ?t1 = schedule_next ?t2"
    unfolding timer_execute_def c prod.case using x by (simp add: finish_def finish_one_def)
  then show ?thesis unfolding a prod.case by (simp add: schedule_next_def)
qed

text \<open>A callback that cancels its own timer leaks the timer's pool node: after \<open>n\<close> such rounds no
  timer is armed and the heap is empty, yet the pool has grown to \<open>n\<close> nodes and none is on the free
  list, although one node would do.
\<close>

theorem cancel_in_callback_leaks:
  "length (tm_pool (cancel_rounds n timer_new)) = n \<and> tm_free (cancel_rounds n timer_new) = [] \<and>
   tm_heap (cancel_rounds n timer_new) = [] \<and> armed (cancel_rounds n timer_new) = Map.empty"
proof -
  have "length (tm_pool (cancel_rounds n t)) = length (tm_pool t) + n \<and> tm_free (cancel_rounds n t) = [] \<and>
      tm_heap (cancel_rounds n t) = [] \<and> tm_map (cancel_rounds n t) = Map.empty"
    if "tm_heap t = []" "tm_free t = []" "tm_map t = Map.empty" for t
    using that
  proof (induction n arbitrary: t)
    case 0
    then show ?case by simp
  next
    case (Suc n)
    obtain p s where e: "(case timer_add 0 0 True 0 0 t of (d, t1) \<Rightarrow> timer_execute 0 [TCancel d] t1) =
      \<lparr>tm_next = tm_next t + 1, tm_free = [], tm_pool = tm_pool t @ [p], tm_map = Map.empty, tm_heap = [], tm_sema = s\<rparr>"
      using cancel_round[OF Suc.prems] by blast
    have "cancel_rounds (Suc n) t = cancel_rounds n (case timer_add 0 0 True 0 0 t of (d, t1) \<Rightarrow> timer_execute 0 [TCancel d] t1)"
      by (simp split: prod.split)
    then show ?case unfolding e using Suc.IH by simp
  qed
  then show ?thesis by (simp add: timer_new_def armed_def fun_eq_iff)
qed

text \<open>A later expiry does not need a notification; an earlier one does.\<close>

lemma add_needs_schedule:
  assumes "timer_inv R rdy t" and "timer_add now delay rep cb pl t = (d, t')"
    and "\<forall>j \<in> set (tm_heap t). now + delay < expiry_at t j"
  shows "tm_sema t < tm_sema t'"
  using timer_add_ok(6,7)[OF assms(1,2)] assms(3) by force

end
