(* ===== verification/Timer_Loop.thy ===== *)
theory Timer_Loop
  imports Timer_Base
begin

text \<open>
  The timer thread (\<open>timer.cpp\<close>, \<open>Timer::runLoop\<close>) and its clients, interleaved. The thread sleeps
  on a semaphore, without deadline when no timer is armed and until the earliest expiry otherwise;
  clients add and cancel timers under the mutex and release the semaphore when the thread has to look
  again. The state machine below takes every critical section, every callback and every attempt to
  acquire the semaphore as one step. The permits of the semaphore are counted in \<open>tm_sema\<close>.
\<close>

section \<open>State and steps\<close>

datatype loop_pc =
    LRun
  | LSleep "nat option"
  | LExec "ready_node list" "ready_node list"
  | LEnd

record tloop =
  tl_timer :: timer
  tl_pc :: loop_pc
  tl_running :: bool

definition tl_new :: tloop where
  "tl_new = \<lparr>tl_timer = timer_new, tl_pc = LEnd, tl_running = False\<rparr>"

definition tl_start :: "tloop \<Rightarrow> tloop" where
  "tl_start l = (if tl_pc l \<noteq> LEnd then l else l\<lparr>tl_running := True, tl_pc := LRun\<rparr>)"

definition tl_stop_request :: "tloop \<Rightarrow> tloop" where
  "tl_stop_request l = l\<lparr>tl_running := False, tl_timer := schedule_next (tl_timer l)\<rparr>"

text \<open>\<open>loop_step now l\<close> also returns the callback it ran.\<close>

definition loop_step :: "nat \<Rightarrow> tloop \<Rightarrow> tloop \<times> ready_node option" where
  "loop_step now l =
     (let t = tl_timer l in
      case tl_pc l of
        LRun \<Rightarrow>
          (if \<not> tl_running l then (l\<lparr>tl_pc := LEnd\<rparr>, None)
           else
             let t1 = purge_dead t in
             if \<not> has_live_top t1 then (l\<lparr>tl_timer := t1, tl_pc := LSleep None\<rparr>, None)
             else (l\<lparr>tl_timer := t1, tl_pc := LSleep (Some (next_expiry t1))\<rparr>, None))
      | LSleep d \<Rightarrow>
          (if tm_sema t > 0 then (l\<lparr>tl_timer := t\<lparr>tm_sema := tm_sema t - 1\<rparr>, tl_pc := LRun\<rparr>, None)
           else
             (case d of
                None \<Rightarrow> (l, None)
              | Some e \<Rightarrow>
                  (if now < e then (l, None)
                   else (case collect now t of (rs, t1) \<Rightarrow> (l\<lparr>tl_timer := t1, tl_pc := LExec rs rs\<rparr>, None)))))
      | LExec (r # todo) rs \<Rightarrow> (l\<lparr>tl_pc := LExec todo rs\<rparr>, Some r)
      | LExec [] rs \<Rightarrow> (l\<lparr>tl_timer := finish rs t, tl_pc := LRun\<rparr>, None)
      | LEnd \<Rightarrow> (l, None))"

definition tl_add :: "nat \<Rightarrow> nat \<Rightarrow> bool \<Rightarrow> nat \<Rightarrow> nat \<Rightarrow> tloop \<Rightarrow> int \<times> tloop" where
  "tl_add now delay rep cb pl l =
     (case timer_add now delay rep cb pl (tl_timer l) of (d, t) \<Rightarrow> (d, l\<lparr>tl_timer := t\<rparr>))"

definition tl_cancel :: "int \<Rightarrow> tloop \<Rightarrow> tloop" where
  "tl_cancel d l = l\<lparr>tl_timer := timer_cancel d (tl_timer l)\<rparr>"

definition tl_clear :: "tloop \<Rightarrow> tloop" where
  "tl_clear l = l\<lparr>tl_timer := timer_clear (tl_timer l)\<rparr>"

definition tl_isAlive :: "int \<Rightarrow> tloop \<Rightarrow> bool" where
  "tl_isAlive d l = timer_isAlive d (tl_timer l)"

inductive tl_reach :: "tloop \<Rightarrow> bool" where
  tl_init: "tl_reach tl_new"
| tl_r_start: "tl_reach l \<Longrightarrow> tl_reach (tl_start l)"
| tl_r_stop: "tl_reach l \<Longrightarrow> tl_reach (tl_stop_request l)"
| tl_r_step: "tl_reach l \<Longrightarrow> tl_reach (fst (loop_step now l))"
| tl_r_add: "tl_reach l \<Longrightarrow> tl_reach (snd (tl_add now delay rep cb pl l))"
| tl_r_cancel: "tl_reach l \<Longrightarrow> tl_reach (tl_cancel d l)"
| tl_r_clear: "tl_reach l \<Longrightarrow> tl_reach (tl_clear l)"

section \<open>Invariant\<close>

definition pending :: "loop_pc \<Rightarrow> ready_node list" where
  "pending pc = (case pc of LExec _ rs \<Rightarrow> rs | _ \<Rightarrow> [])"

definition wakes_in_time :: "timer \<Rightarrow> loop_pc \<Rightarrow> bool" where
  "wakes_in_time t pc \<longleftrightarrow> (case pc of
      LSleep d \<Rightarrow> tm_sema t > 0 \<or> (\<forall>i \<in> set (tm_heap t). \<exists>e. d = Some e \<and> e \<le> expiry_at t i)
    | _ \<Rightarrow> True)"

definition tl_inv :: "tloop \<Rightarrow> bool" where
  "tl_inv l \<longleftrightarrow> (\<exists>R. timer_inv R (fst ` set (pending (tl_pc l))) (tl_timer l)) \<and>
     distinct (map fst (pending (tl_pc l))) \<and> wakes_in_time (tl_timer l) (tl_pc l)"

lemma free_pop_expiry:
  assumes "distinct (tm_heap t)" and "j \<in> set (remove1 i (tm_heap t))"
  shows "expiry_at ((free_node i t)\<lparr>tm_heap := remove1 i (tm_heap t)\<rparr>) j = expiry_at t j"
  using assms by (auto simp: expiry_at_def free_node_def)

lemma purge_heap:
  "distinct (tm_heap t) \<Longrightarrow> set (tm_heap (purge_dead t)) \<subseteq> set (tm_heap t) \<and>
     (\<forall>j \<in> set (tm_heap (purge_dead t)). expiry_at (purge_dead t) j = expiry_at t j)"
proof (induction t rule: purge_dead.induct)
  case (1 t)
  show ?case
  proof (cases "heap_top t")
    case None
    then have "purge_dead t = t" by (subst purge_dead.simps) (simp only: option.case)
    then show ?thesis by simp
  next
    case (Some i)
    show ?thesis
    proof (cases "tn_alive (tm_pool t ! i)")
      case True
      then show ?thesis using Some by (simp add: purge_dead.simps[of t])
    next
      case False
      let ?t = "(free_node i t)\<lparr>tm_heap := remove1 i (tm_heap t)\<rparr>"
      have e: "purge_dead t = purge_dead ?t" using Some False by (simp add: purge_dead.simps[of t])
      have h: "tm_heap ?t = remove1 i (tm_heap t)" by simp
      have "distinct (tm_heap ?t)" using 1(2) by simp
      note ih = 1(1)[OF Some False this]
      have ex: "expiry_at ?t j = expiry_at t j" if "j \<in> set (remove1 i (tm_heap t))" for j
        by (rule free_pop_expiry[OF 1(2) that])
      have sub: "set (remove1 i (tm_heap t)) \<subseteq> set (tm_heap t)" by (rule set_remove1_subset)
      show ?thesis unfolding e using ih ex sub unfolding h by auto
    qed
  qed
qed

lemma cancel_heap:
  assumes "distinct (tm_heap t)"
  shows "set (tm_heap (timer_cancel d t)) \<subseteq> set (tm_heap t) \<and>
     (\<forall>j \<in> set (tm_heap (timer_cancel d t)). expiry_at (timer_cancel d t) j = expiry_at t j)"
proof (cases "tm_map t d")
  case None
  then show ?thesis by (simp add: timer_cancel_def)
next
  case (Some i)
  let ?t = "t\<lparr>tm_pool := (tm_pool t)[i := (tm_pool t ! i)\<lparr>tn_alive := False\<rparr>], tm_map := (tm_map t)(d := None)\<rparr>"
  have ex: "expiry_at ?t j = expiry_at t j" for j
    by (cases "j = i"; cases "i < length (tm_pool t)") (simp_all add: expiry_at_def list_update_beyond)
  have "distinct (tm_heap ?t)" using assms by simp
  from purge_heap[OF this] show ?thesis using Some ex by (simp add: timer_cancel_def)
qed

lemma tl_step_inv:
  assumes inv: "tl_inv l"
  shows "tl_inv (fst (loop_step now l))"
proof -
  let ?t = "tl_timer l"
  obtain R where R: "timer_inv R (fst ` set (pending (tl_pc l))) ?t" using inv by (auto simp: tl_inv_def)
  have w: "wakes_in_time ?t (tl_pc l)" and ds: "distinct (map fst (pending (tl_pc l)))"
    using inv by (simp_all add: tl_inv_def)
  show ?thesis
  proof (cases "tl_pc l")
    case LRun
    have R': "timer_inv R {} ?t" using R LRun by (simp add: pending_def)
    note p = purge_dead_ok[OF R']
    have "wakes_in_time (purge_dead ?t) (LSleep (if has_live_top (purge_dead ?t) then Some (next_expiry (purge_dead ?t)) else None))"
    proof (cases "heap_top (purge_dead ?t)")
      case None
      then show ?thesis by (simp add: wakes_in_time_def)
    next
      case (Some i)
      then have "tm_heap (purge_dead ?t) \<noteq> []" using heap_top_Some(1)[OF Some] by auto
      then have "has_live_top (purge_dead ?t)" using p by blast
      then show ?thesis using heap_top_Some(2)[OF Some] Some
        by (auto simp: wakes_in_time_def next_expiry_def)
    qed
    then show ?thesis using LRun p R'
      by (auto simp: loop_step_def Let_def tl_inv_def pending_def wakes_in_time_def split: if_splits)
  next
    case (LSleep d)
    have R': "timer_inv R {} ?t" using R LSleep by (simp add: pending_def)
    show ?thesis
    proof (cases "tm_sema ?t > 0")
      case True
      then show ?thesis using LSleep R' by (auto simp: loop_step_def Let_def tl_inv_def pending_def wakes_in_time_def)
    next
      case no: False
      show ?thesis
      proof (cases d)
        case None
        then show ?thesis using LSleep no inv by (simp add: loop_step_def Let_def)
      next
        case (Some e)
        show ?thesis
        proof (cases "now < e")
          case True
          then show ?thesis using LSleep no Some inv by (simp add: loop_step_def Let_def)
        next
          case False
          obtain rs t1 where c: "collect now ?t = (rs, t1)" by (cases "collect now ?t")
          obtain R1 where "timer_inv R1 (fst ` set rs) t1" "distinct (map fst rs)"
            using collect_ok[OF R' c] by auto
          then show ?thesis using LSleep no Some False c
            by (auto simp: loop_step_def Let_def tl_inv_def pending_def wakes_in_time_def)
        qed
      qed
    qed
  next
    case (LExec todo rs)
    have R': "timer_inv R (fst ` set rs) ?t" "distinct (map fst rs)" using R ds LExec by (simp_all add: pending_def)
    show ?thesis
    proof (cases todo)
      case Nil
      obtain R1 where "timer_inv R1 {} (finish rs ?t)" using finish_ok[OF R'] by auto
      then show ?thesis using LExec Nil by (auto simp: loop_step_def Let_def tl_inv_def pending_def wakes_in_time_def)
    next
      case (Cons r todo')
      then show ?thesis using LExec R' by (auto simp: loop_step_def Let_def tl_inv_def pending_def wakes_in_time_def)
    qed
  next
    case LEnd
    then show ?thesis using inv by (simp add: loop_step_def Let_def)
  qed
qed

lemma tl_add_inv:
  assumes inv: "tl_inv l"
  shows "tl_inv (snd (tl_add now delay rep cb pl l))"
proof -
  let ?t = "tl_timer l"
  obtain R where R: "timer_inv R (fst ` set (pending (tl_pc l))) ?t" using inv by (auto simp: tl_inv_def)
  obtain d t' where a: "timer_add now delay rep cb pl ?t = (d, t')" by (cases "timer_add now delay rep cb pl ?t")
  note A = timer_add_ok[OF R a]
  have "wakes_in_time t' (tl_pc l)"
  proof (cases "tl_pc l")
    case (LSleep dl)
    show ?thesis
    proof (cases "tm_sema t' > 0")
      case True
      then show ?thesis using LSleep by (simp add: wakes_in_time_def)
    next
      case False
      then have s0: "tm_sema ?t = 0" "tm_sema t' = tm_sema ?t" using A(6) by simp_all
      then have w: "\<forall>i \<in> set (tm_heap ?t). \<exists>e. dl = Some e \<and> e \<le> expiry_at ?t i"
        using inv LSleep by (simp add: tl_inv_def wakes_in_time_def)
      obtain j where j: "j \<in> set (tm_heap ?t)" "expiry_at ?t j \<le> now + delay" using A(7) s0(2) by blast
      obtain i where i: "tm_heap t' = tm_heap ?t @ [i]" "expiry_at t' i = now + delay"
        "\<forall>j \<in> set (tm_heap ?t). expiry_at t' j = expiry_at ?t j" using A(8) by blast
      show ?thesis using LSleep w j i by (fastforce simp: wakes_in_time_def)
    qed
  qed (simp_all add: wakes_in_time_def)
  then show ?thesis using A(1) inv a by (auto simp: tl_add_def tl_inv_def)
qed

lemma tl_cancel_inv:
  assumes inv: "tl_inv l"
  shows "tl_inv (tl_cancel d l)"
proof -
  let ?t = "tl_timer l"
  obtain R where R: "timer_inv R (fst ` set (pending (tl_pc l))) ?t" using inv by (auto simp: tl_inv_def)
  note C = timer_cancel_ok[OF R, of d] and H = cancel_heap[OF timer_invD(1)[OF R], of d]
  have "wakes_in_time (timer_cancel d ?t) (tl_pc l)"
  proof (cases "tl_pc l")
    case (LSleep dl)
    then show ?thesis using inv C(4) H by (fastforce simp: tl_inv_def wakes_in_time_def)
  qed (simp_all add: wakes_in_time_def)
  then show ?thesis using C(1) inv by (auto simp: tl_cancel_def tl_inv_def)
qed

lemma tl_other_inv:
  assumes inv: "tl_inv l"
  shows "tl_inv (tl_clear l)" "tl_inv (tl_start l)" "tl_inv (tl_stop_request l)"
proof -
  obtain R where R: "timer_inv R (fst ` set (pending (tl_pc l))) (tl_timer l)" using inv by (auto simp: tl_inv_def)
  have "wakes_in_time (timer_clear (tl_timer l)) (tl_pc l)"
    by (simp add: wakes_in_time_def timer_clear_def schedule_next_def split: loop_pc.split)
  then show "tl_inv (tl_clear l)"
    using timer_clear_inv[OF R] inv by (auto simp: tl_clear_def tl_inv_def)
  show "tl_inv (tl_start l)"
    using inv by (auto simp: tl_start_def tl_inv_def pending_def wakes_in_time_def)
  show "tl_inv (tl_stop_request l)"
    using inv R by (auto simp: tl_stop_request_def tl_inv_def wakes_in_time_def schedule_next_def split: loop_pc.split)
qed

lemma tl_reach_inv: "tl_reach l \<Longrightarrow> tl_inv l"
proof (induction rule: tl_reach.induct)
  case tl_init
  show ?case using timer_new_inv by (auto simp: tl_inv_def tl_new_def pending_def wakes_in_time_def)
qed (simp_all add: tl_step_inv tl_add_inv tl_cancel_inv tl_other_inv)

section \<open>Properties\<close>

text \<open>
  C7: the timer thread never oversleeps. However clients add, cancel and clear timers while it runs:
  if it is asleep and no notification is pending, every armed timer expires no earlier than the
  deadline it sleeps until - in particular it never sleeps without deadline while a timer is armed.
\<close>

theorem timer_thread_never_oversleeps:
  assumes "tl_reach l" and "tl_pc l = LSleep dl" and "tm_sema (tl_timer l) = 0"
    and "armed (tl_timer l) d = Some n"
  shows "\<exists>e. dl = Some e \<and> e \<le> tn_expiry n"
proof -
  have inv: "tl_inv l" by (rule tl_reach_inv[OF assms(1)])
  then obtain R where R: "timer_inv R {} (tl_timer l)" using assms(2) by (auto simp: tl_inv_def pending_def)
  obtain i where i: "tm_map (tl_timer l) d = Some i" "n = tm_pool (tl_timer l) ! i"
    using assms(4) by (auto simp: armed_Some)
  then have "i \<in> set (tm_heap (tl_timer l))" using timer_invD(7)[OF R i(1)] by auto
  then show ?thesis using inv assms(2,3) i(2) by (auto simp: tl_inv_def wakes_in_time_def expiry_at_def)
qed

definition demo_loop :: tloop where
  "demo_loop = fst (loop_step 0 (fst (loop_step 0 (fst (loop_step 0
     (snd (tl_add 0 30 False 1 2 (tl_start tl_new))))))))"

lemma demo_loop_state:
  "tl_reach demo_loop \<and> tl_pc demo_loop = LSleep (Some 30) \<and> tm_sema (tl_timer demo_loop) = 0 \<and>
   armed (tl_timer demo_loop) 1 = Some (new_node 0 30 False 1 2 1)"
proof (intro conjI)
  show "tl_reach demo_loop" unfolding demo_loop_def by (intro tl_reach.intros)
  show "tl_pc demo_loop = LSleep (Some 30)" "tm_sema (tl_timer demo_loop) = 0"
    "armed (tl_timer demo_loop) 1 = Some (new_node 0 30 False 1 2 1)"
    unfolding demo_loop_def
    by (simp_all add: loop_step_def tl_add_def tl_start_def tl_new_def timer_new_def timer_add_def alloc_node_def
      Let_def schedule_next_def heap_top_def least_by_def purge_dead.simps has_live_top_def next_expiry_def
      expiry_at_def armed_def new_node_def)
qed

theorem timer_thread_never_oversleeps_witness:
  "\<exists>e. Some 30 = Some e \<and> e \<le> tn_expiry (new_node 0 30 False 1 2 1)"
  using timer_thread_never_oversleeps[of demo_loop "Some 30" 1 "new_node 0 30 False 1 2 1"] demo_loop_state by simp

text \<open>The notification semaphore is declared binary, but nothing keeps its count at one: two timers
  added with ever earlier expiries before the thread runs release it twice, which the precondition
  of \<open>std::binary_semaphore::release\<close> forbids.
\<close>

theorem binary_semaphore_overreleased:
  "\<exists>l. tl_reach l \<and> tm_sema (tl_timer l) = 2 \<and> tl_pc l = LRun"
proof (intro exI conjI)
  let ?l = "snd (tl_add 0 50 False 1 2 (snd (tl_add 0 100 False 1 2 (tl_start tl_new))))"
  show "tl_reach ?l" by (intro tl_reach.intros)
  show "tm_sema (tl_timer ?l) = 2" "tl_pc ?l = LRun"
    by (simp_all add: tl_add_def tl_start_def tl_new_def timer_new_def timer_add_def alloc_node_def
      Let_def schedule_next_def heap_top_def least_by_def expiry_at_def)
qed

end
