(* ===== verification/Scheduler_Model.thy ===== *)
theory Scheduler_Model
  imports Timer_Loop
begin

text \<open>
  The scheduler (\<open>src/src/core/actor_system/runtime/scheduler\<close>): it keeps the target and message of
  every timer it arms and, when the timer thread calls back with an id, enqueues a clone of that message
  at that target. It uses its timer only through the interface \<open>ITimer\<close>, here a record of functions; the
  locale \<open>timer_service\<close> states what it relies on, and the interpretation \<open>thread_timer\<close> shows that the
  timer thread of \<open>Timer_Loop\<close> provides it.
\<close>

section \<open>The interface of a timer\<close>

record 't timer_iface =
  ti_start :: "'t \<Rightarrow> 't"
  ti_add :: "nat \<Rightarrow> nat \<Rightarrow> bool \<Rightarrow> nat \<Rightarrow> nat \<Rightarrow> 't \<Rightarrow> int \<times> 't"
  ti_cancel :: "int \<Rightarrow> 't \<Rightarrow> 't"
  ti_clear :: "'t \<Rightarrow> 't"
  ti_alive :: "int \<Rightarrow> 't \<Rightarrow> bool"
  ti_stop :: "'t \<Rightarrow> 't"
  ti_step :: "nat \<Rightarrow> 't \<Rightarrow> 't \<times> ready_node option"
  ti_ended :: "'t \<Rightarrow> bool"

text \<open>\<open>ti_step\<close> is a step of the timer's thread, with the callback it makes; \<open>ti_ended\<close> that the thread has been joined.\<close>

section \<open>State and operations\<close>

record ('t, 'm) sched =
  sc_timer :: 't
  sc_ctxs :: "int \<rightharpoonup> nat \<times> 'm"

text \<open>\<open>timerCallback\<close> and \<open>this\<close>, the two pointers given to the timer.\<close>

definition timer_callback_fn :: nat where "timer_callback_fn = 1"
definition this_sched :: nat where "this_sched = 0"

definition sched_new :: "'t \<Rightarrow> ('t, 'm) sched" where
  "sched_new t = \<lparr>sc_timer = t, sc_ctxs = Map.empty\<rparr>"

definition sched_start :: "'t timer_iface \<Rightarrow> ('t, 'm) sched \<Rightarrow> ('t, 'm) sched" where
  "sched_start T s = s\<lparr>sc_timer := ti_start T (sc_timer s)\<rparr>"

definition cleanup_ctxs :: "'t timer_iface \<Rightarrow> ('t, 'm) sched \<Rightarrow> ('t, 'm) sched" where
  "cleanup_ctxs T s = s\<lparr>sc_ctxs := (\<lambda>d. if ti_alive T d (sc_timer s) then sc_ctxs s d else None)\<rparr>"

definition sched_addTimer :: "'t timer_iface \<Rightarrow> nat \<Rightarrow> nat \<Rightarrow> 'm \<Rightarrow> nat \<Rightarrow> bool \<Rightarrow> ('t, 'm) sched \<Rightarrow> int \<times> ('t, 'm) sched" where
  "sched_addTimer T now target msg delay repeating s0 =
     (let s = cleanup_ctxs T s0;
          (d, t) = ti_add T now delay repeating timer_callback_fn this_sched (sc_timer s)
      in (d, s\<lparr>sc_timer := t, sc_ctxs := (sc_ctxs s)(d \<mapsto> (target, msg))\<rparr>))"

definition sched_cancel :: "'t timer_iface \<Rightarrow> int \<Rightarrow> ('t, 'm) sched \<Rightarrow> ('t, 'm) sched" where
  "sched_cancel T d s = s\<lparr>sc_timer := ti_cancel T d (sc_timer s), sc_ctxs := (sc_ctxs s)(d := None)\<rparr>"

text \<open>
  \<open>stop\<close> in three parts, as other threads see them: ask the thread to stop; once it has been joined,
  clear the timers; then, under the scheduler's own mutex, forget the contexts.
\<close>

definition sched_stop_request :: "'t timer_iface \<Rightarrow> ('t, 'm) sched \<Rightarrow> ('t, 'm) sched" where
  "sched_stop_request T s = s\<lparr>sc_timer := ti_stop T (sc_timer s)\<rparr>"

definition sched_stop_timers :: "'t timer_iface \<Rightarrow> ('t, 'm) sched \<Rightarrow> ('t, 'm) sched" where
  "sched_stop_timers T s = s\<lparr>sc_timer := ti_clear T (sc_timer s)\<rparr>"

definition sched_stop_ctxs :: "('t, 'm) sched \<Rightarrow> ('t, 'm) sched" where
  "sched_stop_ctxs s = s\<lparr>sc_ctxs := Map.empty\<rparr>"

text \<open>
  What the callback does: nothing for an unknown id; otherwise enqueue a clone, where a clone that
  throws is logged and dropped.
\<close>

datatype 'm sched_event =
    Added int nat 'm
  | Cancelled int
  | Delivered int nat 'm
  | CloneFailed int
  | Ignored int
  | Stopped

definition timer_callback :: "('m \<Rightarrow> 'm option) \<Rightarrow> int \<Rightarrow> ('t, 'm) sched \<Rightarrow> 'm sched_event" where
  "timer_callback clone d s =
     (case sc_ctxs s d of
        None \<Rightarrow> Ignored d
      | Some (target, msg) \<Rightarrow> (case clone msg of None \<Rightarrow> CloneFailed d | Some m \<Rightarrow> Delivered d target m))"

section \<open>Runs\<close>

text \<open>A run of the scheduler and its timer thread, with the events so far, latest first.\<close>

inductive sched_reach :: "'t timer_iface \<Rightarrow> ('m \<Rightarrow> 'm option) \<Rightarrow> 't \<Rightarrow> ('t, 'm) sched \<Rightarrow> 'm sched_event list \<Rightarrow> bool"
  for T clone t0 where
  sr_init: "sched_reach T clone t0 (sched_new t0) []"
| sr_start: "sched_reach T clone t0 s tr \<Longrightarrow> sched_reach T clone t0 (sched_start T s) tr"
| sr_add: "sched_reach T clone t0 s tr \<Longrightarrow> sched_addTimer T now tg m dl rep s = (d, s') \<Longrightarrow>
    sched_reach T clone t0 s' (Added d tg m # tr)"
| sr_cancel: "sched_reach T clone t0 s tr \<Longrightarrow> sched_reach T clone t0 (sched_cancel T d s) (Cancelled d # tr)"
| sr_thread: "sched_reach T clone t0 s tr \<Longrightarrow> ti_step T now (sc_timer s) = (t, None) \<Longrightarrow>
    sched_reach T clone t0 (s\<lparr>sc_timer := t\<rparr>) tr"
| sr_fire: "sched_reach T clone t0 s tr \<Longrightarrow> ti_step T now (sc_timer s) = (t, Some r) \<Longrightarrow>
    sched_reach T clone t0 (s\<lparr>sc_timer := t\<rparr>) (timer_callback clone (fst r) s # tr)"
| sr_stop_request: "sched_reach T clone t0 s tr \<Longrightarrow> sched_reach T clone t0 (sched_stop_request T s) tr"
| sr_stop_timers: "sched_reach T clone t0 s tr \<Longrightarrow> ti_ended T (sc_timer s) \<Longrightarrow>
    sched_reach T clone t0 (sched_stop_timers T s) tr"
| sr_stop_ctxs: "sched_reach T clone t0 s tr \<Longrightarrow> sched_reach T clone t0 (sched_stop_ctxs s) (Stopped # tr)"

section \<open>Specification\<close>

text \<open>The registrations in force after a history of events, and when a history is right.\<close>

fun registered :: "'m sched_event list \<Rightarrow> int \<rightharpoonup> nat \<times> 'm" where
  "registered [] d = None"
| "registered (Added e tg m # tr) d = (if d = e then Some (tg, m) else registered tr d)"
| "registered (Cancelled e # tr) d = (if d = e then None else registered tr d)"
| "registered (Stopped # tr) d = None"
| "registered (_ # tr) d = registered tr d"

fun added_ids :: "'m sched_event list \<Rightarrow> int set" where
  "added_ids [] = {}"
| "added_ids (Added e tg m # tr) = insert e (added_ids tr)"
| "added_ids (_ # tr) = added_ids tr"

fun history_ok :: "('m \<Rightarrow> 'm option) \<Rightarrow> 'm sched_event list \<Rightarrow> bool" where
  "history_ok clone [] \<longleftrightarrow> True"
| "history_ok clone (Added d tg m # tr) \<longleftrightarrow> d \<notin> added_ids tr \<and> history_ok clone tr"
| "history_ok clone (Cancelled d # tr) \<longleftrightarrow> history_ok clone tr"
| "history_ok clone (Delivered d tg m # tr) \<longleftrightarrow>
     (\<exists>m0. registered tr d = Some (tg, m0) \<and> clone m0 = Some m) \<and> history_ok clone tr"
| "history_ok clone (CloneFailed d # tr) \<longleftrightarrow>
     (\<exists>tg m0. registered tr d = Some (tg, m0) \<and> clone m0 = None) \<and> history_ok clone tr"
| "history_ok clone (Ignored d # tr) \<longleftrightarrow> registered tr d = None \<and> history_ok clone tr"
| "history_ok clone (Stopped # tr) \<longleftrightarrow> history_ok clone tr"

lemma registered_added: "registered tr d \<noteq> None \<Longrightarrow> d \<in> added_ids tr"
  by (induction tr d rule: registered.induct) (auto split: if_splits)

section \<open>What the scheduler relies on\<close>

text \<open>
  \<open>live t\<close> are the ids of armed timers (armed also while their callback is pending), \<open>firing t\<close> the ids
  the thread is about to call back, \<open>bound t\<close> a bound above every id ever given out.
\<close>

locale timer_service =
  fixes T :: "'t timer_iface" and tinv :: "'t \<Rightarrow> bool" and live firing :: "'t \<Rightarrow> int set" and bound :: "'t \<Rightarrow> int"
  assumes firing_bound: "tinv t \<Longrightarrow> d \<in> firing t \<union> live t \<Longrightarrow> d < bound t"
    and start_ok: "tinv t \<Longrightarrow> tinv (ti_start T t) \<and> live (ti_start T t) = live t \<and> firing (ti_start T t) = firing t \<and>
      bound (ti_start T t) = bound t"
    and stop_ok: "tinv t \<Longrightarrow> tinv (ti_stop T t) \<and> live (ti_stop T t) = live t \<and> firing (ti_stop T t) = firing t \<and>
      bound (ti_stop T t) = bound t"
    and add_ok: "tinv t \<Longrightarrow> ti_add T now dl rep cb pl t = (d, t') \<Longrightarrow>
      d = bound t \<and> tinv t' \<and> live t' = insert d (live t) \<and> firing t' = firing t \<and> bound t' = bound t + 1"
    and cancel_ok: "tinv t \<Longrightarrow> tinv (ti_cancel T d t) \<and> live (ti_cancel T d t) = live t - {d} \<and>
      firing (ti_cancel T d t) = firing t \<and> bound (ti_cancel T d t) = bound t"
    and alive_ok: "tinv t \<Longrightarrow> ti_alive T d t \<longleftrightarrow> d \<in> live t"
    and clear_ok: "tinv t \<Longrightarrow> ti_ended T t \<Longrightarrow>
      tinv (ti_clear T t) \<and> live (ti_clear T t) = {} \<and> firing (ti_clear T t) = {} \<and> bound (ti_clear T t) = bound t"
    and step_ok: "tinv t \<Longrightarrow> ti_step T now t = (t', r) \<Longrightarrow>
      tinv t' \<and> live t' \<subseteq> live t \<and> firing t' \<subseteq> firing t \<union> live t' \<and> firing t' \<inter> live t \<subseteq> live t' \<and> bound t' = bound t \<and>
      (\<forall>x. r = Some x \<longrightarrow> fst x \<in> firing t)"

definition sched_inv :: "('t \<Rightarrow> int set) \<Rightarrow> ('t \<Rightarrow> int set) \<Rightarrow> ('t \<Rightarrow> int) \<Rightarrow> ('t, 'm) sched \<Rightarrow> 'm sched_event list \<Rightarrow> bool" where
  "sched_inv live firing bound s tr \<longleftrightarrow>
     sc_ctxs s \<subseteq>\<^sub>m registered tr \<and>
     (\<forall>d. registered tr d \<noteq> None \<longrightarrow> d \<in> live (sc_timer s) \<union> firing (sc_timer s) \<longrightarrow> sc_ctxs s d \<noteq> None) \<and>
     (\<forall>d. registered tr d \<noteq> None \<longrightarrow> d \<in> firing (sc_timer s) \<longrightarrow> d \<in> live (sc_timer s)) \<and>
     (\<forall>d \<in> added_ids tr. d < bound (sc_timer s))"

context timer_service
begin

lemma step_sched_inv:
  assumes ti: "tinv (sc_timer s)" and I: "sched_inv live firing bound s tr" and st: "ti_step T now (sc_timer s) = (t, r)"
  shows "sched_inv live firing bound (s\<lparr>sc_timer := t\<rparr>) tr"
proof -
  note S = step_ok[OF ti st]
  have i1: "\<And>d. registered tr d \<noteq> None \<Longrightarrow> d \<in> live (sc_timer s) \<union> firing (sc_timer s) \<Longrightarrow> sc_ctxs s d \<noteq> None"
    and i2: "\<And>d. registered tr d \<noteq> None \<Longrightarrow> d \<in> firing (sc_timer s) \<Longrightarrow> d \<in> live (sc_timer s)"
    using I unfolding sched_inv_def by blast+
  have s1: "live t \<subseteq> live (sc_timer s)" "firing t \<subseteq> firing (sc_timer s) \<union> live t" "firing t \<inter> live (sc_timer s) \<subseteq> live t"
    using S by blast+
  have c1: "sc_ctxs s d \<noteq> None" if "registered tr d \<noteq> None" "d \<in> live t \<union> firing t" for d
  proof -
    have "d \<in> live (sc_timer s) \<union> firing (sc_timer s)" using that(2) s1(1,2) by blast
    then show ?thesis by (rule i1[OF that(1)])
  qed
  have c2: "d \<in> live t" if "registered tr d \<noteq> None" "d \<in> firing t" for d
  proof (cases "d \<in> firing (sc_timer s)")
    case True
    then have "d \<in> live (sc_timer s)" by (rule i2[OF that(1)])
    then show ?thesis using that(2) s1(3) by blast
  next
    case False
    then show ?thesis using that(2) s1(2) by blast
  qed
  have "sc_ctxs s \<subseteq>\<^sub>m registered tr" "\<forall>d \<in> added_ids tr. d < bound t" using I S by (simp_all add: sched_inv_def)
  then show ?thesis using c1 c2 unfolding sched_inv_def by simp
qed

lemma sched_reach_inv:
  assumes "sched_reach T clone t0 s tr" and "tinv t0" and "live t0 = {}" and "firing t0 = {}"
  shows "tinv (sc_timer s) \<and> sched_inv live firing bound s tr \<and> history_ok clone tr"
  using assms(1)
proof (induction rule: sched_reach.induct)
  case sr_init
  then show ?case using assms by (simp add: sched_new_def sched_inv_def)
next
  case (sr_start s tr)
  then show ?case using start_ok[of "sc_timer s"] by (simp add: sched_start_def sched_inv_def)
next
  case (sr_add s tr now tg m dl rep d s')
  then have ti: "tinv (sc_timer s)" and I: "sched_inv live firing bound s tr" and h: "history_ok clone tr" by auto
  obtain t where a: "ti_add T now dl rep timer_callback_fn this_sched (sc_timer s) = (d, t)" and
    s': "s' = (cleanup_ctxs T s)\<lparr>sc_timer := t, sc_ctxs := (sc_ctxs (cleanup_ctxs T s))(d \<mapsto> (tg, m))\<rparr>"
    using sr_add(2) by (auto simp: sched_addTimer_def cleanup_ctxs_def Let_def split: prod.splits)
  note A = add_ok[OF ti a]
  have fresh: "d \<notin> added_ids tr" "d \<notin> firing (sc_timer s)" using A I firing_bound[OF ti] by (auto simp: sched_inv_def)
  then have reg: "registered tr d = None" using registered_added by blast
  have "sched_inv live firing bound s' (Added d tg m # tr)" unfolding sched_inv_def
  proof (intro conjI)
    show "sc_ctxs s' \<subseteq>\<^sub>m registered (Added d tg m # tr)"
      using I by (auto simp: s' cleanup_ctxs_def sched_inv_def map_le_def alive_ok[OF ti] split: if_splits)
    show "\<forall>e. registered (Added d tg m # tr) e \<noteq> None \<longrightarrow> e \<in> live (sc_timer s') \<union> firing (sc_timer s') \<longrightarrow> sc_ctxs s' e \<noteq> None"
      using I A by (auto simp: s' cleanup_ctxs_def sched_inv_def alive_ok[OF ti])
    show "\<forall>e. registered (Added d tg m # tr) e \<noteq> None \<longrightarrow> e \<in> firing (sc_timer s') \<longrightarrow> e \<in> live (sc_timer s')"
      using I A by (auto simp: s' sched_inv_def)
    show "\<forall>e \<in> added_ids (Added d tg m # tr). e < bound (sc_timer s')"
      using I A by (auto simp: s' sched_inv_def)
  qed
  then show ?case using A h fresh by (simp add: s')
next
  case (sr_cancel s tr d)
  then show ?case using cancel_ok[of "sc_timer s" d] by (auto simp: sched_cancel_def sched_inv_def map_le_def)
next
  case (sr_thread s tr now t)
  then show ?case using step_ok[of "sc_timer s" now t None] step_sched_inv[of s tr now t None] by simp
next
  case (sr_fire s tr now t r)
  then have ti: "tinv (sc_timer s)" and I: "sched_inv live firing bound s tr" and h: "history_ok clone tr" by auto
  note S = step_ok[OF ti sr_fire(2)]
  let ?e = "timer_callback clone (fst r) s"
  have reg: "registered (?e # tr) = registered tr" "added_ids (?e # tr) = added_ids tr"
    by (auto simp: timer_callback_def fun_eq_iff split: option.split)
  have "sched_inv live firing bound (s\<lparr>sc_timer := t\<rparr>) (?e # tr)"
    using step_sched_inv[OF ti I sr_fire(2)] unfolding sched_inv_def reg by simp
  moreover have "history_ok clone (?e # tr)"
  proof (cases "sc_ctxs s (fst r)")
    case None
    have "fst r \<in> live (sc_timer s) \<union> firing (sc_timer s)" using S by blast
    then have "registered tr (fst r) = None" using I None unfolding sched_inv_def by blast
    then show ?thesis using None h by (simp add: timer_callback_def)
  next
    case (Some c)
    moreover have "sc_ctxs s \<subseteq>\<^sub>m registered tr" using I by (simp add: sched_inv_def)
    ultimately have "registered tr (fst r) = Some c" unfolding map_le_def by force
    then show ?thesis using Some h by (cases c) (auto simp: timer_callback_def split: option.split)
  qed
  ultimately show ?case using S by simp
next
  case (sr_stop_request s tr)
  then show ?case using stop_ok[of "sc_timer s"] by (simp add: sched_stop_request_def sched_inv_def)
next
  case (sr_stop_timers s tr)
  then show ?case using clear_ok[of "sc_timer s"] by (auto simp: sched_stop_timers_def sched_inv_def)
next
  case (sr_stop_ctxs s tr)
  then show ?case by (auto simp: sched_stop_ctxs_def sched_inv_def)
qed

end

section \<open>The timer thread provides it\<close>

definition thread_timer_iface :: "tloop timer_iface" where
  "thread_timer_iface = \<lparr>ti_start = tl_start, ti_add = tl_add, ti_cancel = tl_cancel, ti_clear = tl_clear,
     ti_alive = tl_isAlive, ti_stop = tl_stop_request, ti_step = loop_step, ti_ended = (\<lambda>l. tl_pc l = LEnd)\<rparr>"

definition todo_ok :: "loop_pc \<Rightarrow> bool" where
  "todo_ok pc \<longleftrightarrow> (case pc of LExec todo rs \<Rightarrow> set todo \<subseteq> set rs | _ \<Rightarrow> True)"

definition thread_inv :: "tloop \<Rightarrow> bool" where
  "thread_inv l \<longleftrightarrow> tl_inv l \<and> todo_ok (tl_pc l)"

definition thread_live :: "tloop \<Rightarrow> int set" where
  "thread_live l = dom (armed (tl_timer l))"

definition thread_firing :: "tloop \<Rightarrow> int set" where
  "thread_firing l = fst ` set (pending (tl_pc l))"

lemma thread_bound:
  assumes "thread_inv l" and "d \<in> thread_firing l \<union> thread_live l"
  shows "d < tm_next (tl_timer l)"
proof -
  obtain R where R: "timer_inv R (thread_firing l) (tl_timer l)"
    using assms(1) by (auto simp: thread_inv_def tl_inv_def thread_firing_def)
  show ?thesis using assms(2) timer_invD(9)[OF R, of d] timer_invD(7)[OF R, of d]
    by (auto simp: thread_live_def armed_Some)
qed

lemma fold_spec_finish_dom: "dom (fold spec_finish_one ds m) \<subseteq> dom m"
proof (induction ds arbitrary: m)
  case (Cons d ds)
  have "dom (spec_finish_one d m) \<subseteq> dom m" by (auto simp: spec_finish_one_def split: option.splits if_splits)
  then show ?case using Cons.IH[of "spec_finish_one d m"] by simp
qed simp

lemma armed_clear: "armed (timer_clear t) = Map.empty"
  by (simp add: timer_clear_def schedule_next_def armed_def fun_eq_iff)

lemma thread_step:
  assumes inv: "thread_inv l" and st: "loop_step now l = (l', r)"
  shows "thread_inv l' \<and> thread_live l' \<subseteq> thread_live l \<and> thread_firing l' \<subseteq> thread_firing l \<union> thread_live l' \<and>
    thread_firing l' \<inter> thread_live l \<subseteq> thread_live l' \<and> tm_next (tl_timer l') = tm_next (tl_timer l) \<and>
    (\<forall>x. r = Some x \<longrightarrow> fst x \<in> thread_firing l)"
proof -
  have ti: "tl_inv l'" using tl_step_inv[of l now] inv st by (simp add: thread_inv_def)
  obtain R where R: "timer_inv R (fst ` set (pending (tl_pc l))) (tl_timer l)" and
    ds: "distinct (map fst (pending (tl_pc l)))" using inv by (auto simp: thread_inv_def tl_inv_def)
  show ?thesis
  proof (cases "tl_pc l")
    case LRun
    note P = purge_dead_ok[OF R]
    show ?thesis using ti st LRun P
      by (auto simp: loop_step_def Let_def thread_inv_def todo_ok_def thread_live_def thread_firing_def pending_def
          split: if_splits)
  next
    case (LSleep dl)
    show ?thesis
    proof (cases "tm_sema (tl_timer l) > 0 \<or> dl = None \<or> (\<exists>e. dl = Some e \<and> now < e)")
      case True
      let ?w = "l\<lparr>tl_timer := (tl_timer l)\<lparr>tm_sema := tm_sema (tl_timer l) - 1\<rparr>, tl_pc := LRun\<rparr>"
      have "l' = l \<or> l' = ?w" and r: "r = None"
        using st LSleep True by (auto simp: loop_step_def Let_def split: if_splits)
      then show ?thesis
      proof (elim disjE)
        assume "l' = l"
        then show ?thesis using inv r by auto
      next
        assume "l' = ?w"
        then show ?thesis using ti r LSleep
          by (auto simp: thread_inv_def todo_ok_def thread_live_def thread_firing_def pending_def)
      qed
    next
      case False
      obtain rs t1 where c: "collect now (tl_timer l) = (rs, t1)" by (cases "collect now (tl_timer l)")
      have l': "l' = l\<lparr>tl_timer := t1, tl_pc := LExec rs rs\<rparr>" "r = None"
        using False st LSleep c by (auto simp: loop_step_def Let_def)
      from collect_ok[OF R c] have C: "armed t1 = armed (tl_timer l)" "tm_next t1 = tm_next (tl_timer l)"
        "fst ` set rs = due now {} (armed (tl_timer l))" by (auto simp: LSleep pending_def)
      have "fst ` set rs \<subseteq> dom (armed t1)" unfolding C(3) C(1) due_def by auto
      then show ?thesis using ti LSleep C(1,2)
        by (auto simp: l' thread_inv_def todo_ok_def thread_live_def thread_firing_def pending_def)
    qed
  next
    case (LExec todo rs)
    show ?thesis
    proof (cases todo)
      case Nil
      have l': "l' = l\<lparr>tl_timer := finish rs (tl_timer l), tl_pc := LRun\<rparr>" "r = None"
        using st LExec Nil by (auto simp: loop_step_def)
      from finish_ok[OF R, of rs] ds LExec have F:
        "armed (finish rs (tl_timer l)) = fold spec_finish_one (map fst rs) (armed (tl_timer l))"
        "tm_next (finish rs (tl_timer l)) = tm_next (tl_timer l)" by (auto simp: pending_def)
      show ?thesis using ti fold_spec_finish_dom[of "map fst rs" "armed (tl_timer l)"] F
        by (auto simp: l' thread_inv_def todo_ok_def thread_live_def thread_firing_def pending_def)
    next
      case (Cons x xs)
      have l': "l' = l\<lparr>tl_pc := LExec xs rs\<rparr>" "r = Some x" using st LExec Cons by (auto simp: loop_step_def)
      have "todo_ok (tl_pc l)" using inv by (simp add: thread_inv_def)
      then have "set (x # xs) \<subseteq> set rs" using LExec Cons by (simp add: todo_ok_def)
      moreover have "pending (tl_pc l) = rs" "thread_live l' = thread_live l" "tl_timer l' = tl_timer l"
        using LExec by (auto simp: l' pending_def thread_live_def)
      moreover from this inv have "\<exists>R. timer_inv R (fst ` set rs) (tl_timer l)" by (auto simp: thread_inv_def tl_inv_def)
      ultimately show ?thesis using ti
        by (auto simp: l' thread_inv_def todo_ok_def thread_firing_def pending_def dom_def thread_live_def)
    qed
  next
    case LEnd
    then show ?thesis using st inv by (auto simp: loop_step_def thread_firing_def pending_def)
  qed
qed

interpretation thread_timer: timer_service thread_timer_iface thread_inv thread_live thread_firing "\<lambda>l. tm_next (tl_timer l)"
proof (unfold_locales, goal_cases)
  case (1 t d)
  then show ?case by (rule thread_bound)
next
  case (2 t)
  then show ?case using tl_other_inv(2)[of t]
    by (auto simp: thread_timer_iface_def thread_inv_def tl_start_def todo_ok_def thread_live_def thread_firing_def pending_def)
next
  case (3 t)
  then show ?case using tl_other_inv(3)[of t]
    by (auto simp: thread_timer_iface_def thread_inv_def tl_stop_request_def todo_ok_def thread_live_def thread_firing_def
      pending_def schedule_next_def)
next
  case (4 t now dl rep cb pl d t')
  obtain R where R: "timer_inv R (thread_firing t) (tl_timer t)"
    using 4(1) by (auto simp: thread_inv_def tl_inv_def thread_firing_def)
  obtain u where u: "timer_add now dl rep cb pl (tl_timer t) = (d, u)" "t' = t\<lparr>tl_timer := u\<rparr>"
    using 4(2) by (auto simp: thread_timer_iface_def tl_add_def split: prod.splits)
  note A = timer_add_ok[OF R u(1)]
  have "tl_inv t'" using tl_add_inv[of t now dl rep cb pl] 4 by (simp add: thread_timer_iface_def thread_inv_def)
  then show ?case using 4(1) A(2,4,5) u(2) by (auto simp: thread_inv_def thread_live_def thread_firing_def)
next
  case (5 t d)
  obtain R where R: "timer_inv R (thread_firing t) (tl_timer t)"
    using 5 by (auto simp: thread_inv_def tl_inv_def thread_firing_def)
  show ?case using 5 tl_cancel_inv[of t d] timer_cancel_ok(2,3)[OF R, of d]
    by (auto simp: thread_timer_iface_def thread_inv_def tl_cancel_def thread_live_def thread_firing_def)
next
  case (6 t d)
  obtain R where R: "timer_inv R (thread_firing t) (tl_timer t)"
    using 6 by (auto simp: thread_inv_def tl_inv_def thread_firing_def)
  show ?case using timer_invD(7)[OF R, of d]
    by (auto simp: thread_timer_iface_def tl_isAlive_def timer_isAlive_def thread_live_def armed_def split: option.splits)
next
  case (7 t)
  have "tm_next (timer_clear (tl_timer t)) = tm_next (tl_timer t)" by (simp add: timer_clear_def schedule_next_def)
  then show ?case using 7 tl_other_inv(1)[of t] armed_clear[of "tl_timer t"]
    by (auto simp: thread_timer_iface_def thread_inv_def tl_clear_def todo_ok_def thread_live_def thread_firing_def pending_def)
next
  case (8 t now t' r)
  then show ?case using thread_step[of t now t' r] by (simp add: thread_timer_iface_def)
qed

section \<open>Property\<close>

text \<open>The scheduler with the timer thread delivers what was registered.\<close>

theorem thread_scheduler_delivers_registered:
  assumes "sched_reach thread_timer_iface clone tl_new s tr"
  shows "history_ok clone tr"
proof -
  have "thread_inv tl_new" "thread_live tl_new = {}" "thread_firing tl_new = {}"
    using tl_reach_inv[OF tl_init]
    by (auto simp: thread_inv_def todo_ok_def thread_live_def thread_firing_def tl_new_def pending_def timer_new_def armed_def)
  then show ?thesis using thread_timer.sched_reach_inv[OF assms] by blast
qed

lemma demo_run:
  "\<exists>s. sched_reach thread_timer_iface Some tl_new s [Delivered 1 7 (42 :: nat), Added 1 7 42]"
proof -
  let ?R = "sched_reach thread_timer_iface Some tl_new :: (tloop, nat) sched \<Rightarrow> nat sched_event list \<Rightarrow> bool"
  note unf = thread_timer_iface_def sched_addTimer_def cleanup_ctxs_def sched_new_def sched_start_def loop_step_def tl_add_def
    tl_start_def tl_new_def timer_new_def timer_add_def alloc_node_def Let_def schedule_next_def heap_top_def least_by_def
    purge_dead.simps collect.simps has_live_top_def next_expiry_def expiry_at_def timer_callback_fn_def this_sched_def
  define s1 where "s1 = sched_start thread_timer_iface (sched_new tl_new :: (tloop, nat) sched)"
  have r1: "?R s1 []" unfolding s1_def by (intro sr_start sr_init)
  define s2 where "s2 = snd (sched_addTimer thread_timer_iface 0 7 42 30 False s1)"
  have r2: "?R s2 [Added 1 7 42]"
    by (rule sr_add[OF r1, of 0 7 42 30 False]) (simp add: s2_def s1_def unf)
  define s3 where "s3 = s2\<lparr>sc_timer := fst (loop_step 0 (sc_timer s2))\<rparr>"
  have r3: "?R s3 [Added 1 7 42]" unfolding s3_def
    by (rule sr_thread[OF r2, of 0]) (simp add: s2_def s1_def unf)
  define s4 where "s4 = s3\<lparr>sc_timer := fst (loop_step 0 (sc_timer s3))\<rparr>"
  have r4: "?R s4 [Added 1 7 42]" unfolding s4_def
    by (rule sr_thread[OF r3, of 0]) (simp add: s3_def s2_def s1_def unf)
  define s5 where "s5 = s4\<lparr>sc_timer := fst (loop_step 0 (sc_timer s4))\<rparr>"
  have r5: "?R s5 [Added 1 7 42]" unfolding s5_def
    by (rule sr_thread[OF r4, of 0]) (simp add: s4_def s3_def s2_def s1_def unf)
  define s6 where "s6 = s5\<lparr>sc_timer := fst (loop_step 30 (sc_timer s5))\<rparr>"
  have r6: "?R s6 [Added 1 7 42]" unfolding s6_def
    by (rule sr_thread[OF r5, of 30]) (simp add: s5_def s4_def s3_def s2_def s1_def unf)
  define t7 where "t7 = fst (loop_step 30 (sc_timer s6))"
  have e: "loop_step 30 (sc_timer s6) = (t7, Some (1, 1, 0))" "sc_ctxs s6 1 = Some (7, 42)"
    by (simp_all add: t7_def s6_def s5_def s4_def s3_def s2_def s1_def unf)
  have "?R (s6\<lparr>sc_timer := t7\<rparr>) (timer_callback Some (fst (1 :: int, 1 :: nat, 0 :: nat)) s6 # [Added 1 7 42])"
    by (rule sr_fire[OF r6, of 30]) (simp add: thread_timer_iface_def e(1))
  then have "?R (s6\<lparr>sc_timer := t7\<rparr>) [Delivered 1 7 42, Added 1 7 42]" by (simp add: timer_callback_def e(2))
  then show ?thesis by blast
qed

end
