(* ===== verification/Actor_Registry.thy ===== *)
theory Actor_Registry
  imports V2_Prelude
begin

text \<open>
  The actor registry and the handles it gives out (\<open>src/src/core/actor_system/actor\<close>). An actor is known by
  its address; its id and name never change after construction. The registry maps names and ids to
  actors and stamps every registration of an id with a generation, so that a handle, which holds an id
  and a generation but no pointer, resolves only while the registration it was taken from stands.
\<close>

section \<open>Actors, handles, registry\<close>

record actor_ref =
  ar_addr :: nat
  ar_id :: u64
  ar_name :: string

record actor_handle =
  ah_id :: u64
  ah_generation :: u64
  ah_registry :: bool

text \<open>\<open>ah_registry\<close> is whether the handle points to the registry (or to none).\<close>

record registry =
  rg_byName :: "string \<rightharpoonup> actor_ref \<times> u64"
  rg_byId :: "u64 \<rightharpoonup> actor_ref \<times> u64"
  rg_generations :: "u64 \<Rightarrow> u64"
  rg_stamp :: "nat \<Rightarrow> u64"

text \<open>
  \<open>generations_\<close> reads as 0 for an id it does not hold yet (\<open>operator[]\<close>); \<open>rg_stamp\<close> is the
  \<open>generation_\<close> member of the actors.
\<close>

definition registry_new :: registry where
  "registry_new = \<lparr>rg_byName = Map.empty, rg_byId = Map.empty, rg_generations = (\<lambda>_. 0), rg_stamp = (\<lambda>_. 0)\<rparr>"

definition null_handle :: actor_handle where
  "null_handle = \<lparr>ah_id = 0, ah_generation = 0, ah_registry = False\<rparr>"

section \<open>Lookups\<close>

definition findHandleByName :: "string \<Rightarrow> registry \<Rightarrow> actor_handle" where
  "findHandleByName n r = (case rg_byName r n of None \<Rightarrow> null_handle
     | Some (a, g) \<Rightarrow> \<lparr>ah_id = ar_id a, ah_generation = g, ah_registry = True\<rparr>)"

definition findHandleById :: "u64 \<Rightarrow> registry \<Rightarrow> actor_handle" where
  "findHandleById i r = (case rg_byId r i of None \<Rightarrow> null_handle
     | Some (a, g) \<Rightarrow> \<lparr>ah_id = i, ah_generation = g, ah_registry = True\<rparr>)"

definition findActorByName :: "string \<Rightarrow> registry \<Rightarrow> actor_ref option" where
  "findActorByName n r = map_option fst (rg_byName r n)"

definition findActorById :: "u64 \<Rightarrow> registry \<Rightarrow> actor_ref option" where
  "findActorById i r = map_option fst (rg_byId r i)"

definition reg_resolve :: "actor_handle \<Rightarrow> registry \<Rightarrow> actor_ref option" where
  "reg_resolve h r = (case rg_byId r (ah_id h) of None \<Rightarrow> None
     | Some (a, g) \<Rightarrow> if g \<noteq> ah_generation h then None else Some a)"

definition handle_get :: "actor_handle \<Rightarrow> registry \<Rightarrow> actor_ref option" where
  "handle_get h r = (if \<not> ah_registry h then None else reg_resolve h r)"

definition handle_valid :: "actor_handle \<Rightarrow> registry \<Rightarrow> bool" where
  "handle_valid h r \<longleftrightarrow> ah_registry h \<and> reg_resolve h r \<noteq> None"

definition handle_eq :: "actor_handle \<Rightarrow> actor_handle \<Rightarrow> bool" where
  "handle_eq h k \<longleftrightarrow> ah_id h = ah_id k \<and> ah_generation h = ah_generation k"

text \<open>\<open>send\<close>: the actor that receives the message, or \<open>None\<close> when it is dropped with a warning.\<close>

definition handle_send :: "actor_handle \<Rightarrow> 'm \<Rightarrow> registry \<Rightarrow> (actor_ref \<times> 'm) option" where
  "handle_send h msg r = (case handle_get h r of Some a \<Rightarrow> Some (a, msg) | None \<Rightarrow> None)"

section \<open>Updates\<close>

definition reg_add :: "actor_ref \<Rightarrow> registry \<Rightarrow> registry" where
  "reg_add a r =
     (let i = ar_id a;
          g = rg_generations r i
      in r\<lparr>rg_generations := (rg_generations r)(i := g + 1),
           rg_byName := (rg_byName r)(ar_name a \<mapsto> (a, g)),
           rg_byId := (rg_byId r)(i \<mapsto> (a, g)),
           rg_stamp := (rg_stamp r)(ar_addr a := g)\<rparr>)"

definition reg_remove :: "actor_ref \<Rightarrow> registry \<Rightarrow> registry" where
  "reg_remove a r =
     (let i = ar_id a
      in r\<lparr>rg_generations := (rg_generations r)(i := rg_generations r i + 1),
           rg_byName := (case rg_byName r (ar_name a) of
               Some (b, g) \<Rightarrow> if ar_addr b = ar_addr a then (rg_byName r)(ar_name a := None) else rg_byName r
             | None \<Rightarrow> rg_byName r),
           rg_byId := (rg_byId r)(i := None)\<rparr>)"

definition reg_clear :: "registry \<Rightarrow> registry" where
  "reg_clear r = r\<lparr>rg_byName := Map.empty, rg_byId := Map.empty\<rparr>"

text \<open>\<open>forEachActor\<close> takes a snapshot of the handles and calls back for each, in the order of the ids.\<close>

definition reg_handles :: "u64 list \<Rightarrow> registry \<Rightarrow> actor_handle list" where
  "reg_handles order r = map (\<lambda>i. findHandleById i r) (filter (\<lambda>i. rg_byId r i \<noteq> None) order)"

datatype reg_op = RegAdd actor_ref | RegRemove actor_ref | RegClear

fun reg_exec :: "reg_op \<Rightarrow> registry \<Rightarrow> registry" where
  "reg_exec (RegAdd a) r = reg_add a r"
| "reg_exec (RegRemove a) r = reg_remove a r"
| "reg_exec RegClear r = reg_clear r"

section \<open>Stale handles\<close>

text \<open>An operation ends the registration of an id when it registers or removes that id, or clears.\<close>

fun ends_registration :: "u64 \<Rightarrow> reg_op \<Rightarrow> bool" where
  "ends_registration i (RegAdd a) = (ar_id a = i)"
| "ends_registration i (RegRemove a) = (ar_id a = i)"
| "ends_registration i RegClear = True"

text \<open>
  \<open>gen_above k r\<close>: every standing registration has a generation below the counter of its id, and the
  counters have room for \<open>k\<close> more updates before the 64 bits wrap.
\<close>

definition gen_above :: "nat \<Rightarrow> registry \<Rightarrow> bool" where
  "gen_above k r \<longleftrightarrow>
     (\<forall>i. unat (rg_generations r i) + k < 2 ^ 64) \<and>
     (\<forall>i a g. rg_byId r i = Some (a, g) \<longrightarrow> g < rg_generations r i)"

lemma gen_above_new: "k < 2 ^ 64 \<Longrightarrow> gen_above k registry_new"
  by (simp add: gen_above_def registry_new_def)

lemma gen_next:
  assumes "unat (g :: u64) + Suc k < 2 ^ 64"
  shows "unat (g + 1) = unat g + 1" "g < g + 1" "unat (g + 1) + k < 2 ^ 64"
proof -
  show "unat (g + 1) = unat g + 1" using assms by (simp add: unat_word_ariths(1))
  then show "g < g + 1" "unat (g + 1) + k < 2 ^ 64" using assms by (simp_all add: word_less_nat_alt)
qed

lemma reg_exec_gen:
  assumes "gen_above (Suc k) r"
  shows "gen_above k (reg_exec c r)"
    and "rg_generations r i \<le> rg_generations (reg_exec c r) i"
proof -
  have room: "unat (rg_generations r i) + Suc k < 2 ^ 64" for i using assms by (simp add: gen_above_def)
  have low: "rg_byId r i = Some (a, g) \<Longrightarrow> g < rg_generations r i" for i a g using assms by (auto simp: gen_above_def)
  have room': "unat (rg_generations r i) + k < 2 ^ 64" for i using room[of i] by simp
  note nxt = gen_next[OF room]
  have "gen_above k (reg_exec c r) \<and> rg_generations r i \<le> rg_generations (reg_exec c r) i"
  proof (cases c)
    case (RegAdd a)
    then show ?thesis using low nxt room'
      by (auto simp: gen_above_def reg_add_def Let_def less_imp_le)
  next
    case (RegRemove a)
    then show ?thesis using low nxt room'
      by (auto simp: gen_above_def reg_remove_def Let_def less_imp_le)
  next
    case RegClear
    then show ?thesis using room' by (simp add: gen_above_def reg_clear_def)
  qed
  then show "gen_above k (reg_exec c r)" "rg_generations r i \<le> rg_generations (reg_exec c r) i" by simp_all
qed

text \<open>After one operation a handle resolves as before or, its registration ended, never again.\<close>

definition handle_dead :: "actor_handle \<Rightarrow> registry \<Rightarrow> bool" where
  "handle_dead h r \<longleftrightarrow> reg_resolve h r = None \<and> ah_generation h < rg_generations r (ah_id h)"

lemma resolve_step:
  assumes g: "gen_above (Suc k) r" and res: "reg_resolve h r = Some a"
  shows "if ends_registration (ah_id h) c then handle_dead h (reg_exec c r) else reg_resolve h (reg_exec c r) = Some a"
proof -
  have b: "rg_byId r (ah_id h) = Some (a, ah_generation h)"
    using res by (auto simp: reg_resolve_def split: option.splits if_splits)
  then have low: "ah_generation h < rg_generations r (ah_id h)" using g by (auto simp: gen_above_def)
  have room: "unat (rg_generations r (ah_id h)) + Suc k < 2 ^ 64" using g by (simp add: gen_above_def)
  note nxt = gen_next[OF room]
  show ?thesis using b low less_trans[OF low nxt(2)] order_less_imp_not_eq2[OF low]
    by (cases c) (auto simp: handle_dead_def reg_resolve_def reg_add_def reg_remove_def reg_clear_def Let_def)
qed

lemma dead_step:
  assumes g: "gen_above (Suc k) r" and d: "handle_dead h r"
  shows "handle_dead h (reg_exec c r)"
proof -
  have low: "ah_generation h < rg_generations r (ah_id h)" and res: "reg_resolve h r = None"
    using d by (simp_all add: handle_dead_def)
  have mono: "rg_generations r (ah_id h) \<le> rg_generations (reg_exec c r) (ah_id h)" by (rule reg_exec_gen(2)[OF g])
  have "reg_resolve h (reg_exec c r) = None" using res low order_less_imp_not_eq2[OF low]
    by (cases c) (auto simp: reg_resolve_def reg_add_def reg_remove_def reg_clear_def Let_def split: option.splits)
  then show ?thesis using less_le_trans[OF low mono] by (simp add: handle_dead_def)
qed

lemma dead_run: "gen_above (length cs) r \<Longrightarrow> handle_dead h r \<Longrightarrow> handle_dead h (fold reg_exec cs r)"
proof (induction cs arbitrary: r)
  case (Cons c cs)
  have g: "gen_above (Suc (length cs)) r" using Cons.prems(1) by simp
  show ?case using Cons.IH[OF reg_exec_gen(1)[OF g] dead_step[OF g Cons.prems(2)]] by simp
qed simp

text \<open>
  C12: a handle never reaches another actor. Whatever registrations, removals and clears follow, a
  handle that resolves to an actor goes on resolving to that same actor exactly as long as its id is
  neither registered again nor removed and the registry is not cleared; from then on it resolves to
  nothing for good, also when another actor takes over the id. (The counters are 64 bits wide and may
  not wrap within the run.)
\<close>

theorem handle_never_reaches_another_actor:
  assumes "gen_above (length cs) r" and "handle_get h r = Some a"
  shows "handle_get h (fold reg_exec cs r) = (if \<exists>c \<in> set cs. ends_registration (ah_id h) c then None else Some a)"
proof -
  have reg: "ah_registry h" and res: "reg_resolve h r = Some a"
    using assms(2) by (auto simp: handle_get_def split: if_splits)
  have "reg_resolve h (fold reg_exec cs r) = (if \<exists>c \<in> set cs. ends_registration (ah_id h) c then None else Some a)"
    using assms(1) res
  proof (induction cs arbitrary: r)
    case (Cons c cs)
    have g: "gen_above (Suc (length cs)) r" using Cons.prems(1) by simp
    note g' = reg_exec_gen(1)[OF g, of c] and st = resolve_step[OF g Cons.prems(2), of c]
    show ?case
    proof (cases "ends_registration (ah_id h) c")
      case True
      then show ?thesis using dead_run[OF g'] st by (simp add: handle_dead_def)
    next
      case False
      then show ?thesis using Cons.IH[OF g'] st by simp
    qed
  qed simp
  then show ?thesis using reg by (simp add: handle_get_def)
qed

definition actor_a :: actor_ref where "actor_a = \<lparr>ar_addr = 1, ar_id = 5, ar_name = ''a''\<rparr>"
definition actor_b :: actor_ref where "actor_b = \<lparr>ar_addr = 2, ar_id = 5, ar_name = ''b''\<rparr>"

theorem handle_never_reaches_another_actor_witness:
  "handle_get \<lparr>ah_id = 5, ah_generation = 0, ah_registry = True\<rparr>
     (fold reg_exec [RegRemove actor_a, RegAdd actor_b] (reg_add actor_a registry_new)) = None"
proof -
  let ?h = "\<lparr>ah_id = 5, ah_generation = 0, ah_registry = True\<rparr>"
  have "gen_above (Suc 2) registry_new" by (rule gen_above_new) simp
  then have g: "gen_above 2 (reg_exec (RegAdd actor_a) registry_new)" by (rule reg_exec_gen(1))
  have h: "handle_get ?h (reg_add actor_a registry_new) = Some actor_a"
    by (simp add: handle_get_def reg_resolve_def reg_add_def registry_new_def actor_a_def Let_def)
  have e: "\<exists>c \<in> set [RegRemove actor_a, RegAdd actor_b]. ends_registration (ah_id ?h) c"
    by (simp add: actor_a_def)
  let ?cs = "[RegRemove actor_a, RegAdd actor_b]"
  have len: "length ?cs = 2" by simp
  have "gen_above (length ?cs) (reg_add actor_a registry_new)" using g unfolding len reg_exec.simps .
  from handle_never_reaches_another_actor[OF this h] show ?thesis unfolding if_P[OF e] .
qed

section \<open>Names\<close>

text \<open>
  Ids belong to one actor each (\<open>ActorSystem\<close> numbers them); then every entry by name is also the entry
  by its actor's id.
\<close>

definition names_agree :: "actor_ref set \<Rightarrow> registry \<Rightarrow> bool" where
  "names_agree A r \<longleftrightarrow> (\<forall>n a g. rg_byName r n = Some (a, g) \<longrightarrow> a \<in> A \<and> ar_name a = n \<and> rg_byId r (ar_id a) = Some (a, g))"

definition op_actors :: "reg_op \<Rightarrow> actor_ref set" where
  "op_actors c = (case c of RegAdd a \<Rightarrow> {a} | RegRemove a \<Rightarrow> {a} | RegClear \<Rightarrow> {})"

definition own_ids :: "actor_ref set \<Rightarrow> bool" where
  "own_ids A \<longleftrightarrow> (\<forall>a \<in> A. \<forall>b \<in> A. ar_id a = ar_id b \<longrightarrow> a = b) \<and> (\<forall>a \<in> A. \<forall>b \<in> A. ar_addr a = ar_addr b \<longrightarrow> a = b)"

lemma names_agree_step:
  assumes ids: "own_ids A" and inv: "names_agree A r" and c: "op_actors c \<subseteq> A"
  shows "names_agree A (reg_exec c r)"
proof (cases c)
  case (RegAdd a)
  have a: "a \<in> A" using c RegAdd by (simp add: op_actors_def)
  show ?thesis unfolding names_agree_def
  proof (intro allI impI)
    fix n b g assume e: "rg_byName (reg_exec c r) n = Some (b, g)"
    show "b \<in> A \<and> ar_name b = n \<and> rg_byId (reg_exec c r) (ar_id b) = Some (b, g)"
    proof (cases "n = ar_name a")
      case True
      then show ?thesis using e RegAdd a by (auto simp: reg_add_def Let_def)
    next
      case False
      then have n: "rg_byName r n = Some (b, g)" using e RegAdd by (simp add: reg_add_def Let_def)
      then have b: "b \<in> A" "ar_name b = n" "rg_byId r (ar_id b) = Some (b, g)" using inv by (auto simp: names_agree_def)
      have "ar_id b \<noteq> ar_id a" using ids a b(1,2) False by (auto simp: own_ids_def)
      then show ?thesis using b RegAdd by (simp add: reg_add_def Let_def)
    qed
  qed
next
  case (RegRemove a)
  have a: "a \<in> A" using c RegRemove by (simp add: op_actors_def)
  show ?thesis unfolding names_agree_def
  proof (intro allI impI)
    fix n b g assume e: "rg_byName (reg_exec c r) n = Some (b, g)"
    have n: "rg_byName r n = Some (b, g)"
      using e RegRemove by (auto simp: reg_remove_def Let_def split: option.splits if_splits)
    then have b: "b \<in> A" "ar_name b = n" "rg_byId r (ar_id b) = Some (b, g)" using inv by (auto simp: names_agree_def)
    have "b \<noteq> a" using e n b(2) RegRemove by (auto simp: reg_remove_def Let_def)
    then have "ar_id b \<noteq> ar_id a" using ids a b(1) by (auto simp: own_ids_def)
    then show "b \<in> A \<and> ar_name b = n \<and> rg_byId (reg_exec c r) (ar_id b) = Some (b, g)"
      using b RegRemove by (simp add: reg_remove_def Let_def)
  qed
next
  case RegClear
  then show ?thesis by (simp add: names_agree_def reg_clear_def)
qed

text \<open>
  A handle found by name is good for the actor of that name: with ids that belong to one actor
  each, in every state of the registry the handle found under a name resolves to the very actor found
  under that name, and to nothing when there is none.
\<close>

theorem name_lookup_agrees:
  assumes "own_ids A" and "\<forall>c \<in> set cs. op_actors c \<subseteq> A"
  shows "handle_get (findHandleByName n (fold reg_exec cs registry_new)) (fold reg_exec cs registry_new) =
    findActorByName n (fold reg_exec cs registry_new)"
proof -
  have keep: "names_agree A (fold reg_exec cs r)" if "names_agree A r" for r
    using that assms(2)
  proof (induction cs arbitrary: r)
    case (Cons c cs)
    then have c: "op_actors c \<subseteq> A" and cs: "\<forall>c \<in> set cs. op_actors c \<subseteq> A" by simp_all
    have "names_agree A (reg_exec c r)" by (rule names_agree_step[OF assms(1) Cons.prems(1) c])
    from Cons.IH[OF this cs] show ?case by simp
  qed simp
  have "names_agree A registry_new" by (simp add: names_agree_def registry_new_def)
  then have inv: "names_agree A (fold reg_exec cs registry_new)" by (rule keep)
  show ?thesis
  proof (cases "rg_byName (fold reg_exec cs registry_new) n")
    case None
    then show ?thesis by (simp add: findHandleByName_def null_handle_def handle_get_def findActorByName_def)
  next
    case (Some p)
    then show ?thesis using inv
      by (cases p) (simp add: findHandleByName_def handle_get_def findActorByName_def names_agree_def reg_resolve_def)
  qed
qed

theorem name_lookup_agrees_witness:
  "handle_get (findHandleByName ''a'' (fold reg_exec [RegAdd actor_a] registry_new)) (fold reg_exec [RegAdd actor_a] registry_new) =
    findActorByName ''a'' (fold reg_exec [RegAdd actor_a] registry_new)"
  by (rule name_lookup_agrees[where A = "{actor_a}"]) (auto simp: own_ids_def op_actors_def)

end
