(* ===== verification/Actor_Base.thy ===== *)
theory Actor_Base
  imports V2_Prelude
begin

text \<open>
  What every actor shares (\<open>src/src/core/actor_system/actor/actor.hpp\<close>): the life-cycle state and its numeric order,
  by which a handler refuses messages while \<open>state_ < Opened\<close>, and the guards of \<open>open\<close> and \<open>close\<close> that all service
  actors repeat.
\<close>

datatype actor_state = Closed | Closing | Opening | Opened | Inherited

fun state_value :: "actor_state \<Rightarrow> nat" where
  "state_value Closed = 0"
| "state_value Closing = 1"
| "state_value Opening = 2"
| "state_value Opened = 3"
| "state_value Inherited = 4"

definition accepts :: "actor_state \<Rightarrow> bool" where
  "accepts st \<longleftrightarrow> \<not> state_value st < state_value Opened"

lemma accepts_simps [simp]:
  "accepts Opened" "accepts Inherited" "\<not> accepts Closed" "\<not> accepts Closing" "\<not> accepts Opening"
  by (simp_all add: accepts_def)

text \<open>What a service actor sends: the name of the target and the message.\<close>

type_synonym 'm outgoing = "(string \<times> 'm) list"

text \<open>A message tuple given to \<open>dispatch\<close>: a message of another type goes to \<open>handleUnknown\<close>.\<close>

definition dispatch_typed :: "('m \<Rightarrow> bool) \<Rightarrow> ('m \<Rightarrow> 's \<Rightarrow> 'r) \<Rightarrow> ('m \<Rightarrow> 's \<Rightarrow> 'r) \<Rightarrow> 'm \<Rightarrow> 's \<Rightarrow> 'r" where
  "dispatch_typed known h unknown m s = (if known m then h m s else unknown m s)"

end
