(* ===== verification/Actor_Timers.thy ===== *)
theory Actor_Timers
  imports Scheduler_Model Actor_Registry Actor_Base
begin

text \<open>
  What an actor does through its runtime (\<open>actor.cpp\<close>, and the timer operations of \<open>actor_runtime.cpp\<close>): sending by name
  or id, sending later, and the timers it owns, whose ids the runtime remembers so that it can cancel them all. The timer
  service is the interface of \<open>Scheduler_Model\<close>; runtimes are addresses.
\<close>

section \<open>The timers of a runtime\<close>

record ('t, 'm) timer_owner =
  to_scheduler :: "('t, 'm) sched option"
  to_ids :: "int list"

definition rt_addTimer :: "'t timer_iface \<Rightarrow> nat \<Rightarrow> nat option \<Rightarrow> 'm \<Rightarrow> nat \<Rightarrow> bool \<Rightarrow> ('t, 'm) timer_owner
    \<Rightarrow> int \<times> ('t, 'm) timer_owner" where
  "rt_addTimer T now target msg delay repeating s =
     (case (to_scheduler s, target) of
        (Some sc, Some rt) \<Rightarrow>
          (case sched_addTimer T now rt msg delay repeating sc of
             (d, sc) \<Rightarrow> (d, s\<lparr>to_scheduler := Some sc,
                to_ids := (if d \<noteq> result_value Fail then List.insert d (to_ids s) else to_ids s)\<rparr>))
      | _ \<Rightarrow> (result_value Fail, s))"

definition rt_cancelTimer :: "'t timer_iface \<Rightarrow> int \<Rightarrow> ('t, 'm) timer_owner \<Rightarrow> ('t, 'm) timer_owner" where
  "rt_cancelTimer T d s =
     (case to_scheduler s of None \<Rightarrow> s
      | Some sc \<Rightarrow> s\<lparr>to_scheduler := Some (sched_cancel T d sc), to_ids := removeAll d (to_ids s)\<rparr>)"

definition rt_cancelAllTimers :: "'t timer_iface \<Rightarrow> ('t, 'm) timer_owner \<Rightarrow> ('t, 'm) timer_owner" where
  "rt_cancelAllTimers T s =
     (case to_scheduler s of None \<Rightarrow> s
      | Some sc \<Rightarrow> s\<lparr>to_scheduler := Some (fold (sched_cancel T) (to_ids s) sc), to_ids := []\<rparr>)"

definition rt_timerCount :: "('t, 'm) timer_owner \<Rightarrow> nat" where
  "rt_timerCount s = length (to_ids s)"

text \<open>The destructor of the runtime: its timers are cancelled, and its actor leaves the registry.\<close>

definition rt_destroy :: "'t timer_iface \<Rightarrow> actor_ref \<Rightarrow> ('t, 'm) timer_owner \<times> registry option \<Rightarrow> ('t, 'm) timer_owner \<times> registry option" where
  "rt_destroy T a s = (case s of (o', r) \<Rightarrow>
     ((case to_scheduler o' of None \<Rightarrow> o'\<lparr>to_ids := []\<rparr> | Some sc \<Rightarrow> rt_cancelAllTimers T o'), map_option (reg_remove a) r))"

section \<open>Sending\<close>

text \<open>\<open>sendMsg\<close>: the actor whose runtime receives the message, or none.\<close>

definition sendMsg_name :: "string \<Rightarrow> 'm \<Rightarrow> registry \<Rightarrow> (actor_ref \<times> 'm) option" where
  "sendMsg_name n msg r = (case findActorByName n r of Some a \<Rightarrow> Some (a, msg) | None \<Rightarrow> None)"

definition sendMsg_id :: "u64 \<Rightarrow> 'm \<Rightarrow> registry \<Rightarrow> (actor_ref \<times> 'm) option" where
  "sendMsg_id i msg r = (case findActorById i r of Some a \<Rightarrow> Some (a, msg) | None \<Rightarrow> None)"

definition sendMsgAfter_name :: "'t timer_iface \<Rightarrow> nat \<Rightarrow> (actor_ref \<Rightarrow> nat option) \<Rightarrow> string \<Rightarrow> 'm \<Rightarrow> nat \<Rightarrow> registry
    \<Rightarrow> ('t, 'm) timer_owner \<Rightarrow> int \<times> ('t, 'm) timer_owner" where
  "sendMsgAfter_name T now runtime_of n msg delay r s =
     (case findActorByName n r of None \<Rightarrow> (result_value Fail, s)
      | Some a \<Rightarrow> rt_addTimer T now (runtime_of a) msg delay False s)"

definition sendMsgAfter_id :: "'t timer_iface \<Rightarrow> nat \<Rightarrow> (actor_ref \<Rightarrow> nat option) \<Rightarrow> u64 \<Rightarrow> 'm \<Rightarrow> nat \<Rightarrow> registry
    \<Rightarrow> ('t, 'm) timer_owner \<Rightarrow> int \<times> ('t, 'm) timer_owner" where
  "sendMsgAfter_id T now runtime_of i msg delay r s =
     (case findActorById i r of None \<Rightarrow> (result_value Fail, s)
      | Some a \<Rightarrow> rt_addTimer T now (runtime_of a) msg delay False s)"

text \<open>\<open>startTimer\<close>, \<open>cancelTimer\<close> and \<open>cancelAllTimers\<close> of the actor; \<open>None\<close> is an actor without a runtime.\<close>

definition act_startTimer :: "'t timer_iface \<Rightarrow> nat \<Rightarrow> nat \<Rightarrow> 'm \<Rightarrow> nat \<Rightarrow> bool \<Rightarrow> ('t, 'm) timer_owner option
    \<Rightarrow> int \<times> ('t, 'm) timer_owner option" where
  "act_startTimer T now self msg delay repeating s =
     (case s of None \<Rightarrow> (result_value Fail, None)
      | Some s \<Rightarrow> (case rt_addTimer T now (Some self) msg delay repeating s of (d, s) \<Rightarrow> (d, Some s)))"

definition act_cancelTimer :: "'t timer_iface \<Rightarrow> int \<Rightarrow> ('t, 'm) timer_owner option \<Rightarrow> ('t, 'm) timer_owner option" where
  "act_cancelTimer T d s = map_option (rt_cancelTimer T d) s"

definition act_cancelAllTimers :: "'t timer_iface \<Rightarrow> ('t, 'm) timer_owner option \<Rightarrow> ('t, 'm) timer_owner option" where
  "act_cancelAllTimers T s = map_option (rt_cancelAllTimers T) s"

section \<open>No timer outlives its owner\<close>

datatype 'm owner_op = OwnAdd nat "nat option" 'm nat bool | OwnCancel int | OwnCancelAll

text \<open>A run of the owner's operations, with the ids it has been given.\<close>

fun owner_run :: "'t timer_iface \<Rightarrow> 'm owner_op list \<Rightarrow> ('t, 'm) timer_owner \<times> int set \<Rightarrow> ('t, 'm) timer_owner \<times> int set" where
  "owner_run T [] t = t"
| "owner_run T (OwnAdd now tg m dl rep # ops) (s, given) =
     (case rt_addTimer T now tg m dl rep s of (d, s') \<Rightarrow> owner_run T ops (s', insert d given))"
| "owner_run T (OwnCancel d # ops) (s, given) = owner_run T ops (rt_cancelTimer T d s, given)"
| "owner_run T (OwnCancelAll # ops) (s, given) = owner_run T ops (rt_cancelAllTimers T s, given)"

definition known_ids :: "('t, 'm) timer_owner \<times> int set \<Rightarrow> bool" where
  "known_ids = (\<lambda>(s, given). \<exists>sc. to_scheduler s = Some sc
     \<and> dom (sc_ctxs sc) \<inter> given \<subseteq> insert (result_value Fail) (set (to_ids s)))"

lemma dom_cancel_all [simp]: "dom (sc_ctxs (fold (sched_cancel T) ds sc)) = dom (sc_ctxs sc) - set ds"
  by (induction ds arbitrary: sc) (auto simp: sched_cancel_def)

lemma known_ids_add:
  assumes "known_ids (s, given)" and "rt_addTimer T now tg m dl rep s = (d, s')"
  shows "known_ids (s', insert d given)"
proof (cases tg)
  case None
  then show ?thesis using assms by (auto simp: known_ids_def rt_addTimer_def split: option.splits)
next
  case (Some rt)
  obtain sc where sc: "to_scheduler s = Some sc"
    and k: "dom (sc_ctxs sc) \<inter> given \<subseteq> insert (result_value Fail) (set (to_ids s))"
    using assms(1) by (auto simp: known_ids_def)
  obtain d' sc' where a: "sched_addTimer T now rt m dl rep sc = (d', sc')" by fastforce
  have ctx: "dom (sc_ctxs sc') \<subseteq> insert d' (dom (sc_ctxs sc))"
    using a by (auto simp: sched_addTimer_def cleanup_ctxs_def Let_def split: prod.splits if_splits)
  have s': "d' = d" "s' = s\<lparr>to_scheduler := Some sc', to_ids := (if d \<noteq> result_value Fail then List.insert d (to_ids s) else to_ids s)\<rparr>"
    using assms(2) by (auto simp: rt_addTimer_def sc Some a)
  have "dom (sc_ctxs sc') \<inter> insert d given \<subseteq> insert (result_value Fail) (set (to_ids s'))"
    using k ctx unfolding s' by (simp del: result_value.simps) blast
  then show ?thesis by (simp add: known_ids_def s')
qed

lemma known_ids_run: "known_ids (s, given) \<Longrightarrow> known_ids (owner_run T ops (s, given))"
proof (induction ops arbitrary: s given)
  case (Cons x ops)
  show ?case
  proof (cases x)
    case (OwnAdd now tg m dl rep)
    obtain d s' where a: "rt_addTimer T now tg m dl rep s = (d, s')" by fastforce
    from Cons.IH[OF known_ids_add[OF Cons.prems a]] show ?thesis by (simp add: OwnAdd a)
  next
    case (OwnCancel d)
    have "known_ids (rt_cancelTimer T d s, given)"
      using Cons.prems unfolding known_ids_def by (fastforce simp: rt_cancelTimer_def sched_cancel_def)
    from Cons.IH[OF this] show ?thesis by (simp add: OwnCancel)
  next
    case OwnCancelAll
    have "known_ids (rt_cancelAllTimers T s, given)"
      using Cons.prems unfolding known_ids_def by (fastforce simp: rt_cancelAllTimers_def)
    from Cons.IH[OF this] show ?thesis by (simp add: OwnCancelAll)
  qed
qed simp

text \<open>After the runtime is destroyed no timer it ever started is registered with the scheduler, whichever it had
  cancelled, replaced or let fire before.\<close>

theorem destroyed_runtime_leaves_no_timer:
  assumes "to_scheduler s = Some sc" and "owner_run T ops (s, {}) = (s', given)"
    and "d \<in> given" and "d \<noteq> result_value Fail"
  shows "\<exists>sc'. to_scheduler (fst (rt_destroy T a (s', r))) = Some sc' \<and> d \<notin> dom (sc_ctxs sc')"
proof -
  have "known_ids (s, {})" using assms(1) by (simp add: known_ids_def)
  from known_ids_run[OF this, of T ops] assms(2) have "known_ids (s', given)" by simp
  then obtain sc' where sc': "to_scheduler s' = Some sc'" "dom (sc_ctxs sc') \<inter> given \<subseteq> insert (result_value Fail) (set (to_ids s'))"
    by (auto simp: known_ids_def)
  then have "d \<notin> dom (sc_ctxs sc') - set (to_ids s')" using assms(3,4) by blast
  then show ?thesis by (simp add: rt_destroy_def rt_cancelAllTimers_def sc'(1) del: Diff_iff)
qed

end
