(* ===== verification/Monitor_Data.thy ===== *)
theory Monitor_Data
  imports V2_Prelude "HOL-Library.Monad_Syntax"
begin

text \<open>
  The monitor snapshot and its JSON form (\<open>src/src/service/monitor/monitor_data.hpp\<close>), and the line protocol the
  terminal client reads it by (\<open>TuiApp::recvLoop\<close> in \<open>src/src/app/tui/tui_app.cpp\<close>). The JSON library is modelled
  by what its documentation says of the calls used: \<open>value(key, d)\<close> yields \<open>d\<close> for a missing key and otherwise
  converts to the type of \<open>d\<close>, converting an integer to \<open>int\<close> modulo 2 to the 32; \<open>at\<close> throws for a missing key; a
  value of the wrong kind throws. A float is opaque, with its conversions to and from integers as parameters.
  \<open>None\<close> is an exception.
\<close>

section \<open>JSON values\<close>

datatype 'f json =
    JNull | JNum int | JFloat 'f | JBool bool | JString string | JArray "'f json list" | JObject "(string \<times> 'f json) list"

type_synonym 'f fconv = "('f \<Rightarrow> int) \<times> (int \<Rightarrow> 'f)"

definition json_field :: "string \<Rightarrow> 'f json \<Rightarrow> 'f json option option" where
  "json_field k j = (case j of JObject fs \<Rightarrow> Some (map_of fs k) | _ \<Rightarrow> None)"

definition json_at :: "string \<Rightarrow> 'f json \<Rightarrow> 'f json option" where
  "json_at k j = (case json_field k j of Some (Some v) \<Rightarrow> Some v | _ \<Rightarrow> None)"

text \<open>\<open>j.value(key, 0)\<close>, whose type is \<open>int\<close>; \<open>j.value(key, 0.0f)\<close>; with a boolean and a string default.\<close>

definition value_int :: "'f fconv \<Rightarrow> string \<Rightarrow> 'f json \<Rightarrow> 32 word option" where
  "value_int cv k j =
     (case json_field k j of
        None \<Rightarrow> None
      | Some None \<Rightarrow> Some 0
      | Some (Some v) \<Rightarrow>
          (case v of JNum n \<Rightarrow> Some (word_of_int n) | JFloat f \<Rightarrow> Some (word_of_int (fst cv f))
           | JBool b \<Rightarrow> Some (if b then 1 else 0) | _ \<Rightarrow> None))"

definition value_float :: "'f fconv \<Rightarrow> string \<Rightarrow> 'f json \<Rightarrow> 'f option" where
  "value_float cv k j =
     (case json_field k j of
        None \<Rightarrow> None
      | Some None \<Rightarrow> Some (snd cv 0)
      | Some (Some v) \<Rightarrow>
          (case v of JNum n \<Rightarrow> Some (snd cv n) | JFloat f \<Rightarrow> Some f
           | JBool b \<Rightarrow> Some (snd cv (if b then 1 else 0)) | _ \<Rightarrow> None))"

definition value_bool :: "string \<Rightarrow> 'f json \<Rightarrow> bool option" where
  "value_bool k j =
     (case json_field k j of None \<Rightarrow> None | Some None \<Rightarrow> Some False
      | Some (Some v) \<Rightarrow> (case v of JBool b \<Rightarrow> Some b | _ \<Rightarrow> None))"

definition value_string :: "string \<Rightarrow> 'f json \<Rightarrow> string option" where
  "value_string k j =
     (case json_field k j of None \<Rightarrow> None | Some None \<Rightarrow> Some ''''
      | Some (Some v) \<Rightarrow> (case v of JString s \<Rightarrow> Some s | _ \<Rightarrow> None))"

text \<open>The \<open>int\<close> read is assigned to a 64-bit unsigned member: sign extension.\<close>

definition value_u64 :: "'f fconv \<Rightarrow> string \<Rightarrow> 'f json \<Rightarrow> u64 option" where
  "value_u64 cv k j = map_option (\<lambda>w. word_of_int (sint w)) (value_int cv k j)"

section \<open>The data\<close>

record 'f sys_res =
  sr_memoryRssKb :: u64
  sr_memoryTotalKb :: u64
  sr_cpuPercent :: 'f
  sr_uptimeMs :: u64
  sr_threadCount :: u64
  sr_vmPeakKb :: u64
  sr_vmHwmKb :: u64
  sr_vmSwapKb :: u64
  sr_loadAvg1 :: 'f
  sr_loadAvg5 :: 'f
  sr_loadAvg15 :: 'f
  sr_sysMemTotalKb :: u64
  sr_sysMemAvailKb :: u64

record 'f pmu_data =
  pd_clockArmHz :: u64
  pd_clockCoreHz :: u64
  pd_clockV3dHz :: u64
  pd_memArmMb :: u64
  pd_memGpuMb :: u64
  pd_throttled :: u64
  pd_tempCelsius :: 'f
  pd_voltCore :: 'f
  pd_currentVddCoreA :: 'f

record actor_info =
  ai_name :: string
  ai_id :: u64
  ai_mailboxCount :: u64
  ai_mailboxCapacity :: u64
  ai_state :: "32 word"
  ai_essential :: bool

record 'f monitor_snapshot =
  ss_timestampMs :: u64
  ss_clientCount :: "32 word"
  ss_actors :: "actor_info list"
  ss_resources :: "'f sys_res"
  ss_pmu :: "'f pmu_data"

section \<open>Writing\<close>

definition jU :: "u64 \<Rightarrow> 'f json" where "jU w = JNum (uint w)"
definition jI :: "32 word \<Rightarrow> 'f json" where "jI w = JNum (sint w)"

definition resources_to_json :: "'f sys_res \<Rightarrow> 'f json" where
  "resources_to_json r = JObject
     [(''memoryRssKb'', jU (sr_memoryRssKb r)), (''memoryTotalKb'', jU (sr_memoryTotalKb r)),
      (''cpuPercent'', JFloat (sr_cpuPercent r)), (''uptimeMs'', jU (sr_uptimeMs r)), (''threadCount'', jU (sr_threadCount r)),
      (''vmPeakKb'', jU (sr_vmPeakKb r)), (''vmHwmKb'', jU (sr_vmHwmKb r)), (''vmSwapKb'', jU (sr_vmSwapKb r)),
      (''loadAvg1'', JFloat (sr_loadAvg1 r)), (''loadAvg5'', JFloat (sr_loadAvg5 r)), (''loadAvg15'', JFloat (sr_loadAvg15 r)),
      (''sysMemTotalKb'', jU (sr_sysMemTotalKb r)), (''sysMemAvailKb'', jU (sr_sysMemAvailKb r))]"

definition pmu_to_json :: "'f pmu_data \<Rightarrow> 'f json" where
  "pmu_to_json p = JObject
     [(''clockArmHz'', jU (pd_clockArmHz p)), (''clockCoreHz'', jU (pd_clockCoreHz p)), (''clockV3dHz'', jU (pd_clockV3dHz p)),
      (''memArmMb'', jU (pd_memArmMb p)), (''memGpuMb'', jU (pd_memGpuMb p)), (''throttled'', jU (pd_throttled p)),
      (''tempCelsius'', JFloat (pd_tempCelsius p)), (''voltCore'', JFloat (pd_voltCore p)),
      (''currentVddCoreA'', JFloat (pd_currentVddCoreA p))]"

definition actor_to_json :: "actor_info \<Rightarrow> 'f json" where
  "actor_to_json a = JObject
     [(''name'', JString (ai_name a)), (''id'', jU (ai_id a)), (''mailboxCount'', jU (ai_mailboxCount a)),
      (''mailboxCapacity'', jU (ai_mailboxCapacity a)), (''state'', jI (ai_state a)), (''essential'', JBool (ai_essential a))]"

definition snapshot_to_json :: "'f monitor_snapshot \<Rightarrow> 'f json" where
  "snapshot_to_json s = JObject
     [(''timestampMs'', jU (ss_timestampMs s)), (''clientCount'', jI (ss_clientCount s)),
      (''actors'', JArray (map actor_to_json (ss_actors s))), (''resources'', resources_to_json (ss_resources s)),
      (''pmu'', pmu_to_json (ss_pmu s))]"

section \<open>Reading\<close>

definition resources_from_json :: "'f fconv \<Rightarrow> 'f json \<Rightarrow> 'f sys_res option" where
  "resources_from_json cv j = do {
     rss \<leftarrow> value_u64 cv ''memoryRssKb'' j;
     total \<leftarrow> value_u64 cv ''memoryTotalKb'' j;
     cpu \<leftarrow> value_float cv ''cpuPercent'' j;
     up \<leftarrow> value_u64 cv ''uptimeMs'' j;
     threads \<leftarrow> value_u64 cv ''threadCount'' j;
     peak \<leftarrow> value_u64 cv ''vmPeakKb'' j;
     hwm \<leftarrow> value_u64 cv ''vmHwmKb'' j;
     swap \<leftarrow> value_u64 cv ''vmSwapKb'' j;
     l1 \<leftarrow> value_float cv ''loadAvg1'' j;
     l5 \<leftarrow> value_float cv ''loadAvg5'' j;
     l15 \<leftarrow> value_float cv ''loadAvg15'' j;
     mt \<leftarrow> value_u64 cv ''sysMemTotalKb'' j;
     ma \<leftarrow> value_u64 cv ''sysMemAvailKb'' j;
     Some \<lparr>sr_memoryRssKb = rss, sr_memoryTotalKb = total, sr_cpuPercent = cpu, sr_uptimeMs = up, sr_threadCount = threads,
       sr_vmPeakKb = peak, sr_vmHwmKb = hwm, sr_vmSwapKb = swap, sr_loadAvg1 = l1, sr_loadAvg5 = l5, sr_loadAvg15 = l15,
       sr_sysMemTotalKb = mt, sr_sysMemAvailKb = ma\<rparr> }"

definition pmu_from_json :: "'f fconv \<Rightarrow> 'f json \<Rightarrow> 'f pmu_data option" where
  "pmu_from_json cv j = do {
     arm \<leftarrow> value_u64 cv ''clockArmHz'' j;
     core \<leftarrow> value_u64 cv ''clockCoreHz'' j;
     v3d \<leftarrow> value_u64 cv ''clockV3dHz'' j;
     ma \<leftarrow> value_u64 cv ''memArmMb'' j;
     mg \<leftarrow> value_u64 cv ''memGpuMb'' j;
     th \<leftarrow> value_u64 cv ''throttled'' j;
     temp \<leftarrow> value_float cv ''tempCelsius'' j;
     volt \<leftarrow> value_float cv ''voltCore'' j;
     cur \<leftarrow> value_float cv ''currentVddCoreA'' j;
     Some \<lparr>pd_clockArmHz = arm, pd_clockCoreHz = core, pd_clockV3dHz = v3d, pd_memArmMb = ma, pd_memGpuMb = mg,
       pd_throttled = th, pd_tempCelsius = temp, pd_voltCore = volt, pd_currentVddCoreA = cur\<rparr> }"

definition actor_from_json :: "'f fconv \<Rightarrow> 'f json \<Rightarrow> actor_info option" where
  "actor_from_json cv j = do {
     n \<leftarrow> value_string ''name'' j;
     i \<leftarrow> value_u64 cv ''id'' j;
     mc \<leftarrow> value_u64 cv ''mailboxCount'' j;
     cap \<leftarrow> value_u64 cv ''mailboxCapacity'' j;
     st \<leftarrow> value_int cv ''state'' j;
     e \<leftarrow> value_bool ''essential'' j;
     Some \<lparr>ai_name = n, ai_id = i, ai_mailboxCount = mc, ai_mailboxCapacity = cap, ai_state = st, ai_essential = e\<rparr> }"

fun all_some :: "('a \<Rightarrow> 'b option) \<Rightarrow> 'a list \<Rightarrow> 'b list option" where
  "all_some f [] = Some []"
| "all_some f (x # xs) = (case f x of None \<Rightarrow> None | Some y \<Rightarrow> map_option ((#) y) (all_some f xs))"

definition snapshot_from_json :: "'f fconv \<Rightarrow> 'f json \<Rightarrow> 'f monitor_snapshot option" where
  "snapshot_from_json cv j = do {
     ts \<leftarrow> value_u64 cv ''timestampMs'' j;
     cc \<leftarrow> value_int cv ''clientCount'' j;
     ja \<leftarrow> json_at ''actors'' j;
     actors \<leftarrow> (case ja of JArray xs \<Rightarrow> all_some (actor_from_json cv) xs | _ \<Rightarrow> None);
     jr \<leftarrow> json_at ''resources'' j;
     res \<leftarrow> resources_from_json cv jr;
     jp \<leftarrow> json_at ''pmu'' j;
     pmu \<leftarrow> pmu_from_json cv jp;
     Some \<lparr>ss_timestampMs = ts, ss_clientCount = cc, ss_actors = actors, ss_resources = res, ss_pmu = pmu\<rparr> }"

section \<open>What survives\<close>

text \<open>Every 64-bit member is read back through \<open>int\<close>.\<close>

definition narrow :: "u64 \<Rightarrow> u64" where
  "narrow w = word_of_int (sint (word_of_int (uint w) :: 32 word))"

definition narrow_resources :: "'f sys_res \<Rightarrow> 'f sys_res" where
  "narrow_resources r = r\<lparr>sr_memoryRssKb := narrow (sr_memoryRssKb r), sr_memoryTotalKb := narrow (sr_memoryTotalKb r),
     sr_uptimeMs := narrow (sr_uptimeMs r), sr_threadCount := narrow (sr_threadCount r), sr_vmPeakKb := narrow (sr_vmPeakKb r),
     sr_vmHwmKb := narrow (sr_vmHwmKb r), sr_vmSwapKb := narrow (sr_vmSwapKb r),
     sr_sysMemTotalKb := narrow (sr_sysMemTotalKb r), sr_sysMemAvailKb := narrow (sr_sysMemAvailKb r)\<rparr>"

definition narrow_pmu :: "'f pmu_data \<Rightarrow> 'f pmu_data" where
  "narrow_pmu p = p\<lparr>pd_clockArmHz := narrow (pd_clockArmHz p), pd_clockCoreHz := narrow (pd_clockCoreHz p),
     pd_clockV3dHz := narrow (pd_clockV3dHz p), pd_memArmMb := narrow (pd_memArmMb p), pd_memGpuMb := narrow (pd_memGpuMb p),
     pd_throttled := narrow (pd_throttled p)\<rparr>"

definition narrow_actor :: "actor_info \<Rightarrow> actor_info" where
  "narrow_actor a = a\<lparr>ai_id := narrow (ai_id a), ai_mailboxCount := narrow (ai_mailboxCount a),
     ai_mailboxCapacity := narrow (ai_mailboxCapacity a)\<rparr>"

definition narrow_snapshot :: "'f monitor_snapshot \<Rightarrow> 'f monitor_snapshot" where
  "narrow_snapshot s = s\<lparr>ss_timestampMs := narrow (ss_timestampMs s), ss_actors := map narrow_actor (ss_actors s),
     ss_resources := narrow_resources (ss_resources s), ss_pmu := narrow_pmu (ss_pmu s)\<rparr>"

text \<open>The members the monitor shows that stay below two to the thirty-one are read back as they were sent.\<close>

lemma narrow_small: "unat w < 2 ^ 31 \<Longrightarrow> narrow w = w"
proof -
  assume a: "unat w < 2 ^ 31"
  then have b: "uint w < 2 ^ 31"
    by (metis (mono_tags, lifting) of_nat_less_iff of_nat_numeral of_nat_power uint_nat)
  have c: "sint (word_of_int (uint w) :: 32 word) = uint w"
    unfolding sint_uint uint_word_of_int using b
    by (simp add: take_bit_int_eq_self signed_take_bit_int_eq_self order_trans[OF _ uint_ge_0]
        flip: take_bit_eq_mod)
  show ?thesis
    unfolding narrow_def c by simp
qed

lemma value_u64_jU [simp]: "json_field k j = Some (Some (jU w)) \<Longrightarrow> value_u64 cv k j = Some (narrow w)"
  by (simp add: value_u64_def value_int_def jU_def narrow_def)

lemma value_int_jI [simp]: "json_field k j = Some (Some (jI w)) \<Longrightarrow> value_int cv k j = Some w"
  by (simp add: value_int_def jI_def)

lemma value_float_JFloat [simp]: "json_field k j = Some (Some (JFloat f)) \<Longrightarrow> value_float cv k j = Some f"
  by (simp add: value_float_def)

lemma resources_roundtrip: "resources_from_json cv (resources_to_json r) = Some (narrow_resources r)"
  by (simp add: resources_from_json_def resources_to_json_def json_field_def narrow_resources_def)

lemma pmu_roundtrip: "pmu_from_json cv (pmu_to_json p) = Some (narrow_pmu p)"
  by (simp add: pmu_from_json_def pmu_to_json_def json_field_def narrow_pmu_def)

lemma actor_roundtrip: "actor_from_json cv (actor_to_json a) = Some (narrow_actor a)"
  by (simp add: actor_from_json_def actor_to_json_def json_field_def narrow_actor_def value_string_def value_bool_def)

lemma all_some_map: "(\<And>x. x \<in> set xs \<Longrightarrow> f (g x) = Some (h x)) \<Longrightarrow> all_some f (map g xs) = Some (map h xs)"
  by (induction xs) simp_all

definition small_word :: "u64 \<Rightarrow> bool" where "small_word w \<longleftrightarrow> unat w < 2 ^ 31"

definition small_snapshot :: "'f monitor_snapshot \<Rightarrow> bool" where
  "small_snapshot s \<longleftrightarrow>
     small_word (ss_timestampMs s)
     \<and> (\<forall>a \<in> set (ss_actors s). list_all small_word [ai_id a, ai_mailboxCount a, ai_mailboxCapacity a])
     \<and> (let r = ss_resources s in
          list_all small_word [sr_memoryRssKb r, sr_memoryTotalKb r, sr_uptimeMs r, sr_threadCount r, sr_vmPeakKb r,
            sr_vmHwmKb r, sr_vmSwapKb r, sr_sysMemTotalKb r, sr_sysMemAvailKb r])
     \<and> (let p = ss_pmu s in
          list_all small_word [pd_clockArmHz p, pd_clockCoreHz p, pd_clockV3dHz p, pd_memArmMb p, pd_memGpuMb p, pd_throttled p])"

lemma narrow_small_word [simp]: "small_word w \<Longrightarrow> narrow w = w"
  by (simp add: small_word_def narrow_small)

lemma narrow_snapshot_small: "small_snapshot s \<Longrightarrow> narrow_snapshot s = s"
proof -
  assume s: "small_snapshot s"
  then have "map narrow_actor (ss_actors s) = ss_actors s"
    by (intro map_idI) (simp add: small_snapshot_def narrow_actor_def)
  then show ?thesis
    using s by (simp add: small_snapshot_def narrow_snapshot_def narrow_resources_def narrow_pmu_def Let_def)
qed

lemma narrow_big: "2 ^ 31 \<le> unat w \<Longrightarrow> unat w < 2 ^ 63 \<Longrightarrow> narrow w \<noteq> w"
proof
  assume big: "2 ^ 31 \<le> unat w" "unat w < 2 ^ 63" and eq: "narrow w = w"
  define n where "n = sint (word_of_int (uint w) :: 32 word)"
  have lo: "- (2 ^ 31) \<le> n" and hi: "n < 2 ^ 31"
    unfolding n_def using sint_greater_eq[of "word_of_int (uint w) :: 32 word"] sint_less[of "word_of_int (uint w) :: 32 word"]
    by simp_all
  have u: "uint w = n mod 2 ^ 64"
    using arg_cong[OF eq, of uint] unfolding narrow_def uint_word_of_int n_def[symmetric] by (simp add: take_bit_eq_mod)
  have "int (2 ^ 31) \<le> int (unat w)" "int (unat w) < int (2 ^ 63)"
    using big by (simp_all only: of_nat_le_iff of_nat_less_iff)
  then have b: "2 ^ 31 \<le> uint w" "uint w < 2 ^ 63" by simp_all
  show False
  proof (cases "0 \<le> n")
    case True
    then have "n mod 2 ^ 64 = n" using hi by (intro mod_pos_pos_trivial) simp_all
    then show False using u b hi by linarith
  next
    case False
    then have "n mod 2 ^ 64 = (n + 2 ^ 64) mod 2 ^ 64" by simp
    also have "\<dots> = n + 2 ^ 64" using False lo by (intro mod_pos_pos_trivial) simp_all
    finally show False using u b lo by simp
  qed
qed

section \<open>Round trip\<close>

text \<open>
  C22: What the monitor sends for a snapshot reads back without an exception. A snapshot whose 64-bit members all stay
  below two to the thirty-one reads back as itself; a time stamp from there up to two to the sixty-three does not,
  because the readers ask for an \<open>int\<close>.
\<close>
theorem snapshot_json_roundtrip:
  "snapshot_from_json cv (snapshot_to_json s) \<noteq> None
   \<and> (small_snapshot s \<longrightarrow> snapshot_from_json cv (snapshot_to_json s) = Some s)
   \<and> (2 ^ 31 \<le> unat (ss_timestampMs s) \<and> unat (ss_timestampMs s) < 2 ^ 63
      \<longrightarrow> map_option ss_timestampMs (snapshot_from_json cv (snapshot_to_json s)) \<noteq> Some (ss_timestampMs s))"
proof -
  have "all_some (actor_from_json cv) (map actor_to_json (ss_actors s)) = Some (map narrow_actor (ss_actors s))"
    by (rule all_some_map) (rule actor_roundtrip)
  then have r: "snapshot_from_json cv (snapshot_to_json s) = Some (narrow_snapshot s)"
    by (simp add: snapshot_from_json_def snapshot_to_json_def json_field_def json_at_def narrow_snapshot_def
        resources_roundtrip pmu_roundtrip)
  then show ?thesis
    by (simp add: narrow_snapshot_small narrow_big) (simp add: narrow_snapshot_def narrow_big)
qed

definition demo_snapshot :: "u64 \<Rightarrow> unit monitor_snapshot" where
  "demo_snapshot ts =
     \<lparr>ss_timestampMs = ts, ss_clientCount = -1,
      ss_actors = [\<lparr>ai_name = ''Monitor'', ai_id = 3, ai_mailboxCount = 2, ai_mailboxCapacity = 64, ai_state = 1, ai_essential = True\<rparr>],
      ss_resources = \<lparr>sr_memoryRssKb = 100, sr_memoryTotalKb = 200, sr_cpuPercent = (), sr_uptimeMs = 5, sr_threadCount = 4,
        sr_vmPeakKb = 1, sr_vmHwmKb = 1, sr_vmSwapKb = 0, sr_loadAvg1 = (), sr_loadAvg5 = (), sr_loadAvg15 = (),
        sr_sysMemTotalKb = 300, sr_sysMemAvailKb = 250\<rparr>,
      ss_pmu = \<lparr>pd_clockArmHz = 1500000000, pd_clockCoreHz = 1, pd_clockV3dHz = 1, pd_memArmMb = 1, pd_memGpuMb = 1,
        pd_throttled = 0, pd_tempCelsius = (), pd_voltCore = (), pd_currentVddCoreA = ()\<rparr>\<rparr>"

lemma demo_snapshot_small: "small_snapshot (demo_snapshot 7)"
  by (simp add: small_snapshot_def small_word_def demo_snapshot_def)

theorem snapshot_json_roundtrip_witness:
  "snapshot_from_json (\<lambda>_. 0, \<lambda>_. ()) (snapshot_to_json (demo_snapshot 7)) = Some (demo_snapshot 7)
   \<and> map_option ss_timestampMs (snapshot_from_json (\<lambda>_. 0, \<lambda>_. ()) (snapshot_to_json (demo_snapshot 1700000000000)))
       \<noteq> Some 1700000000000"
  using snapshot_json_roundtrip[of "(\<lambda>_. 0, \<lambda>_. ())" "demo_snapshot 7"] demo_snapshot_small
    snapshot_json_roundtrip[of "(\<lambda>_. 0, \<lambda>_. ())" "demo_snapshot 1700000000000"]
  by (simp add: demo_snapshot_def)

end
