(* ===== verification/Config_Model.thy ===== *)
theory Config_Model
  imports Monitor_Data
begin

text \<open>
  The runtime configuration (\<open>src/src/core/common/config/runtime_config.h\<close>) and its loader
  (\<open>src/src/infra/config/json_config_loader.cpp\<close>): every key of the file that is present is converted and assigned, in
  the order of the source, until a conversion throws; the exception is swallowed, so what was assigned before stays. The
  JSON library is the one of \<open>Monitor_Data\<close>. This is the configuration of the Linux build; the default log level is a
  macro of the build.
\<close>

section \<open>The configuration\<close>

record runtime_config =
  cf_logLevel :: "32 word"
  cf_workerCount :: "32 word"
  cf_workerMaxBatch :: "32 word"
  cf_mainLoopSleepMs :: "32 word"
  cf_busyStealIntervalUs :: "32 word"
  cf_idleStealIntervalUs :: "32 word"
  cf_parkSpinNs :: "32 word"
  cf_tokenGraceNs :: "32 word"
  cf_defaultMailboxSize :: "32 word"
  cf_dispatcherQueueCapacity :: "32 word"
  cf_dispatcherHighWatermark :: "32 word"
  cf_supervisorMaxRestarts :: "32 word"
  cf_supervisorDefaultStrategy :: "32 word"
  cf_deadLetterQueueCapacity :: "32 word"
  cf_logFlushBufferSize :: "32 word"
  cf_memorySlabSize :: "32 word"
  cf_memoryMaxPoolAllocSize :: "32 word"
  cf_memoryMaxPools :: "32 word"
  cf_memoryTlsBatchSize :: "32 word"
  cf_messageInlineBufferSize :: "32 word"
  cf_enableTick :: bool
  cf_tickIntervalMs :: "32 word"
  cf_enableMonitor :: bool
  cf_monitorSocketPath :: string
  cf_monitorPollIntervalMs :: "32 word"
  cf_monitorRecvBufferSize :: "32 word"
  cf_monitorBacklog :: "32 word"
  cf_enableDeviceManager :: bool
  cf_enableMetrics :: bool
  cf_epollMaxEvents :: "32 word"
  cf_epollWaitTimeoutMs :: "32 word"
  cf_enableIpcServer :: bool
  cf_ipcSocketPath :: string
  cf_ipcRecvBufferSize :: "32 word"
  cf_udsBacklog :: "32 word"
  cf_enableDbus :: bool
  cf_dbusBusName :: string
  cf_dbusObjectPath :: string
  cf_dbusInterfaceName :: string
  cf_enableNetworkManager :: bool

definition runtime_config_default :: "32 word \<Rightarrow> runtime_config" where
  "runtime_config_default level =
     \<lparr>cf_logLevel = level, cf_workerCount = 4, cf_workerMaxBatch = 32, cf_mainLoopSleepMs = 1000, 
      cf_busyStealIntervalUs = 200, cf_idleStealIntervalUs = 2000, cf_parkSpinNs = 3000, 
      cf_tokenGraceNs = 5000, cf_defaultMailboxSize = 512, cf_dispatcherQueueCapacity = 1024, 
      cf_dispatcherHighWatermark = 0, cf_supervisorMaxRestarts = 5, cf_supervisorDefaultStrategy = 0, 
      cf_deadLetterQueueCapacity = 128, cf_logFlushBufferSize = 512, cf_memorySlabSize = 4096, 
      cf_memoryMaxPoolAllocSize = 2048, cf_memoryMaxPools = 16, cf_memoryTlsBatchSize = 64, 
      cf_messageInlineBufferSize = 64, cf_enableTick = False, cf_tickIntervalMs = 100, 
      cf_enableMonitor = False, cf_monitorSocketPath = ''/tmp/v2_monitor.sock'', 
      cf_monitorPollIntervalMs = 500, cf_monitorRecvBufferSize = 4096, cf_monitorBacklog = 5, 
      cf_enableDeviceManager = False, cf_enableMetrics = False, cf_epollMaxEvents = 64, 
      cf_epollWaitTimeoutMs = 1000, cf_enableIpcServer = False, cf_ipcSocketPath = ''/tmp/v2_ipc.sock'', 
      cf_ipcRecvBufferSize = 4096, cf_udsBacklog = 5, cf_enableDbus = False, 
      cf_dbusBusName = ''com.v2.engine'', cf_dbusObjectPath = ''/com/v2/engine'', 
      cf_dbusInterfaceName = ''com.v2.engine'', cf_enableNetworkManager = False\<rparr>"

section \<open>Entries\<close>

datatype cfg_value = CInt "32 word" | CBool bool | CStr string

text \<open>A line of the loader: the key, the conversion (\<open>None\<close> throws), the member assigned.\<close>

type_synonym 'f config_entry = "string \<times> ('f json \<Rightarrow> cfg_value option) \<times> (cfg_value \<Rightarrow> runtime_config \<Rightarrow> runtime_config)"

fun read_int :: "'f fconv \<Rightarrow> 'f json \<Rightarrow> cfg_value option" where
  "read_int cv (JNum n) = Some (CInt (word_of_int n))"
| "read_int cv (JFloat f) = Some (CInt (word_of_int (fst cv f)))"
| "read_int cv (JBool b) = Some (CInt (if b then 1 else 0))"
| "read_int cv _ = None"

fun read_bool :: "'f json \<Rightarrow> cfg_value option" where
  "read_bool (JBool b) = Some (CBool b)"
| "read_bool _ = None"

fun read_string :: "'f json \<Rightarrow> cfg_value option" where
  "read_string (JString s) = Some (CStr s)"
| "read_string _ = None"

definition int_entry :: "'f fconv \<Rightarrow> string \<Rightarrow> ((32 word \<Rightarrow> 32 word) \<Rightarrow> runtime_config \<Rightarrow> runtime_config) \<Rightarrow> 'f config_entry" where
  "int_entry cv key upd = (key, read_int cv, \<lambda>v c. case v of CInt w \<Rightarrow> upd (\<lambda>_. w) c | _ \<Rightarrow> c)"

definition bool_entry :: "string \<Rightarrow> ((bool \<Rightarrow> bool) \<Rightarrow> runtime_config \<Rightarrow> runtime_config) \<Rightarrow> 'f config_entry" where
  "bool_entry key upd = (key, read_bool, \<lambda>v c. case v of CBool b \<Rightarrow> upd (\<lambda>_. b) c | _ \<Rightarrow> c)"

definition string_entry :: "string \<Rightarrow> ((string \<Rightarrow> string) \<Rightarrow> runtime_config \<Rightarrow> runtime_config) \<Rightarrow> 'f config_entry" where
  "string_entry key upd = (key, read_string, \<lambda>v c. case v of CStr s \<Rightarrow> upd (\<lambda>_. s) c | _ \<Rightarrow> c)"

definition config_entries :: "'f fconv \<Rightarrow> 'f config_entry list" where
  "config_entries cv =
     [int_entry cv ''log_level'' cf_logLevel_update,
      int_entry cv ''worker_count'' cf_workerCount_update,
      int_entry cv ''worker_max_batch'' cf_workerMaxBatch_update,
      int_entry cv ''mainloop_sleep_ms'' cf_mainLoopSleepMs_update,
      int_entry cv ''busy_steal_interval_us'' cf_busyStealIntervalUs_update,
      int_entry cv ''idle_steal_interval_us'' cf_idleStealIntervalUs_update,
      int_entry cv ''park_spin_ns'' cf_parkSpinNs_update,
      int_entry cv ''token_grace_ns'' cf_tokenGraceNs_update,
      int_entry cv ''default_mailbox_size'' cf_defaultMailboxSize_update,
      int_entry cv ''dispatcher_queue_capacity'' cf_dispatcherQueueCapacity_update,
      int_entry cv ''dispatcher_high_watermark'' cf_dispatcherHighWatermark_update,
      int_entry cv ''supervisor_max_restarts'' cf_supervisorMaxRestarts_update,
      int_entry cv ''supervisor_default_strategy'' cf_supervisorDefaultStrategy_update,
      int_entry cv ''dead_letter_queue_capacity'' cf_deadLetterQueueCapacity_update,
      int_entry cv ''log_flush_buffer_size'' cf_logFlushBufferSize_update,
      int_entry cv ''memory_slab_size'' cf_memorySlabSize_update,
      int_entry cv ''memory_max_pool_alloc_size'' cf_memoryMaxPoolAllocSize_update,
      int_entry cv ''memory_max_pools'' cf_memoryMaxPools_update,
      int_entry cv ''memory_tls_batch_size'' cf_memoryTlsBatchSize_update,
      int_entry cv ''message_inline_buffer_size'' cf_messageInlineBufferSize_update,
      bool_entry ''enable_tick'' cf_enableTick_update,
      int_entry cv ''tick_interval_ms'' cf_tickIntervalMs_update,
      bool_entry ''enable_monitor'' cf_enableMonitor_update,
      string_entry ''monitor_socket_path'' cf_monitorSocketPath_update,
      int_entry cv ''monitor_poll_interval_ms'' cf_monitorPollIntervalMs_update,
      int_entry cv ''monitor_recv_buffer_size'' cf_monitorRecvBufferSize_update,
      int_entry cv ''monitor_backlog'' cf_monitorBacklog_update,
      bool_entry ''enable_device_manager'' cf_enableDeviceManager_update,
      bool_entry ''enable_metrics'' cf_enableMetrics_update,
      int_entry cv ''epoll_max_events'' cf_epollMaxEvents_update,
      int_entry cv ''epoll_wait_timeout_ms'' cf_epollWaitTimeoutMs_update,
      bool_entry ''enable_ipc_server'' cf_enableIpcServer_update,
      string_entry ''ipc_socket_path'' cf_ipcSocketPath_update,
      int_entry cv ''ipc_recv_buffer_size'' cf_ipcRecvBufferSize_update,
      int_entry cv ''uds_backlog'' cf_udsBacklog_update,
      bool_entry ''enable_dbus'' cf_enableDbus_update,
      string_entry ''dbus_bus_name'' cf_dbusBusName_update,
      string_entry ''dbus_object_path'' cf_dbusObjectPath_update,
      string_entry ''dbus_interface_name'' cf_dbusInterfaceName_update,
      bool_entry ''enable_network_manager'' cf_enableNetworkManager_update]"

section \<open>The loader\<close>

fun load_entries :: "'f config_entry list \<Rightarrow> 'f json \<Rightarrow> runtime_config \<Rightarrow> runtime_config" where
  "load_entries [] j c = c"
| "load_entries ((key, conv, put) # es) j c =
     (case json_field key j of
        Some (Some v) \<Rightarrow> (case conv v of None \<Rightarrow> c | Some x \<Rightarrow> load_entries es j (put x c))
      | _ \<Rightarrow> load_entries es j c)"

text \<open>\<open>None\<close>: the file cannot be opened; \<open>Some None\<close>: it does not parse.\<close>

definition loadFromFile :: "'f fconv \<Rightarrow> 32 word \<Rightarrow> 'f json option option \<Rightarrow> runtime_config" where
  "loadFromFile cv level file =
     (case file of Some (Some j) \<Rightarrow> load_entries (config_entries cv) j (runtime_config_default level)
      | _ \<Rightarrow> runtime_config_default level)"

section \<open>What is loaded\<close>

text \<open>The members in the order the loader visits them.\<close>

definition cfg_values :: "runtime_config \<Rightarrow> cfg_value list" where
  "cfg_values c =
     [CInt (cf_logLevel c), CInt (cf_workerCount c), CInt (cf_workerMaxBatch c), 
      CInt (cf_mainLoopSleepMs c), CInt (cf_busyStealIntervalUs c), CInt (cf_idleStealIntervalUs c), 
      CInt (cf_parkSpinNs c), CInt (cf_tokenGraceNs c), CInt (cf_defaultMailboxSize c), 
      CInt (cf_dispatcherQueueCapacity c), CInt (cf_dispatcherHighWatermark c), 
      CInt (cf_supervisorMaxRestarts c), CInt (cf_supervisorDefaultStrategy c), 
      CInt (cf_deadLetterQueueCapacity c), CInt (cf_logFlushBufferSize c), CInt (cf_memorySlabSize c), 
      CInt (cf_memoryMaxPoolAllocSize c), CInt (cf_memoryMaxPools c), CInt (cf_memoryTlsBatchSize c), 
      CInt (cf_messageInlineBufferSize c), CBool (cf_enableTick c), CInt (cf_tickIntervalMs c), 
      CBool (cf_enableMonitor c), CStr (cf_monitorSocketPath c), CInt (cf_monitorPollIntervalMs c), 
      CInt (cf_monitorRecvBufferSize c), CInt (cf_monitorBacklog c), CBool (cf_enableDeviceManager c), 
      CBool (cf_enableMetrics c), CInt (cf_epollMaxEvents c), CInt (cf_epollWaitTimeoutMs c), 
      CBool (cf_enableIpcServer c), CStr (cf_ipcSocketPath c), CInt (cf_ipcRecvBufferSize c), 
      CInt (cf_udsBacklog c), CBool (cf_enableDbus c), CStr (cf_dbusBusName c), CStr (cf_dbusObjectPath c), 
      CStr (cf_dbusInterfaceName c), CBool (cf_enableNetworkManager c)]"

text \<open>An entry as the loader meets it in the file \<open>j\<close>: whether the loader gets past it, and what it leaves in the member.\<close>

fun readable :: "'f json \<Rightarrow> 'f config_entry \<Rightarrow> bool" where
  "readable j (key, conv, put) = (case json_field key j of Some (Some v) \<Rightarrow> conv v \<noteq> None | _ \<Rightarrow> True)"

fun entry_value :: "'f json \<Rightarrow> 'f config_entry \<Rightarrow> cfg_value \<Rightarrow> cfg_value" where
  "entry_value j (key, conv, put) old =
     (case json_field key j of Some (Some v) \<Rightarrow> (case conv v of Some x \<Rightarrow> x | None \<Rightarrow> old) | _ \<Rightarrow> old)"

text \<open>The entry at position \<open>i\<close> assigns the member at position \<open>i\<close> and no other.\<close>

fun puts_at :: "nat \<Rightarrow> 'f config_entry list \<Rightarrow> bool" where
  "puts_at i [] = True"
| "puts_at i ((key, conv, put) # es) =
     ((\<forall>v c x. conv v = Some x \<longrightarrow> cfg_values (put x c) = (cfg_values c)[i := x]) \<and> puts_at (Suc i) es)"

lemma read_cases:
  "read_int cv v = Some x \<Longrightarrow> \<exists>w. x = CInt w"
  "read_bool v = Some x \<Longrightarrow> \<exists>b. x = CBool b"
  "read_string v = Some x \<Longrightarrow> \<exists>s. x = CStr s"
  by (cases v; auto)+

lemma puts_at_entry:
  "(\<And>w c. cfg_values (upd_int (\<lambda>_. w) c) = (cfg_values c)[i := CInt w]) \<Longrightarrow> puts_at (Suc i) es
     \<Longrightarrow> puts_at i (int_entry cv key upd_int # es)"
  "(\<And>b c. cfg_values (upd_bool (\<lambda>_. b) c) = (cfg_values c)[i := CBool b]) \<Longrightarrow> puts_at (Suc i) es
     \<Longrightarrow> puts_at i (bool_entry key upd_bool # es)"
  "(\<And>s c. cfg_values (upd_str (\<lambda>_. s) c) = (cfg_values c)[i := CStr s]) \<Longrightarrow> puts_at (Suc i) es
     \<Longrightarrow> puts_at i (string_entry key upd_str # es)"
  by (auto simp: int_entry_def bool_entry_def string_entry_def dest: read_cases)

lemma entries_put: "puts_at 0 (config_entries cv)"
  unfolding config_entries_def by (intro puts_at_entry puts_at.simps(1)[THEN iffD2] TrueI) (simp_all add: cfg_values_def)

lemma load_entries_values:
  assumes "puts_at (length pre) es" and "cfg_values c = pre @ post" and "length post = length es"
  shows "cfg_values (load_entries es j c)
    = pre @ map2 (entry_value j) (takeWhile (readable j) es) post @ drop (length (takeWhile (readable j) es)) post"
  using assms
proof (induction es arbitrary: pre post c)
  case (Cons e es)
  obtain key conv put where e: "e = (key, conv, put)" by (cases e)
  obtain y ys where post: "post = y # ys" using Cons.prems(3) by (cases post) auto
  have ys: "length ys = length es" and rest: "puts_at (length (pre @ [z])) es" for z
    using Cons.prems(1,3) by (simp_all add: e post)
  show ?case
  proof (cases "json_field key j")
    case None
    with Cons.IH[OF rest[of y], of c ys] Cons.prems(2) ys show ?thesis by (simp add: e post)
  next
    case (Some f)
    show ?thesis
    proof (cases f)
      case None
      with Some Cons.IH[OF rest[of y], of c ys] Cons.prems(2) ys show ?thesis by (simp add: e post)
    next
      case f: (Some v)
      show ?thesis
      proof (cases "conv v")
        case None
        with Some f Cons.prems(2) show ?thesis by (simp add: e post)
      next
        case x: (Some x)
        with Cons.prems(1,2) have "cfg_values (put x c) = (pre @ [x]) @ ys"
          by (simp add: e post list_update_append)
        with Some f x Cons.IH[OF rest[of x] this ys] show ?thesis by (simp add: e post)
      qed
    qed
  qed
qed simp

text \<open>
  C37: A file that cannot be opened or parsed leaves every default. Otherwise the members are, in the order of the loader,
  what the file says, or the default where it says nothing, up to the first entry whose value has the wrong type; that
  member and all behind it keep their defaults, whatever the file says of them.
\<close>
theorem config_keeps_entries_before_bad_one:
  "cfg_values (loadFromFile cv level None) = cfg_values (runtime_config_default level)
   \<and> cfg_values (loadFromFile cv level (Some None)) = cfg_values (runtime_config_default level)
   \<and> cfg_values (loadFromFile cv level (Some (Some j)))
     = (let read = takeWhile (readable j) (config_entries cv); defaults = cfg_values (runtime_config_default level)
        in map2 (entry_value j) read defaults @ drop (length read) defaults)"
proof -
  have "length (cfg_values (runtime_config_default level)) = length (config_entries cv)"
    by (simp add: cfg_values_def config_entries_def)
  with load_entries_values[of "[]" "config_entries cv" "runtime_config_default level", OF _ _ this] entries_put[of cv]
  show ?thesis by (simp add: loadFromFile_def Let_def)
qed

text \<open>One wrong type in front hides everything behind it: here the sockets of the configuration are not enabled.\<close>

theorem bad_log_level_hides_the_rest:
  "cf_enableIpcServer (loadFromFile cv level (Some (Some (JObject
     [(''log_level'', JString ''info''), (''enable_ipc_server'', JBool True)])))) = False"
  by (simp add: loadFromFile_def config_entries_def int_entry_def json_field_def runtime_config_default_def)

end
