(* ===== verification/Bounded_Queue.thy ===== *)
theory Bounded_Queue
  imports V2_Prelude
begin

text \<open>
  The contract of the bounded FIFO queues. \<open>Mailbox\<close>, \<open>DeadLetterQueue\<close> and the dispatcher's ready
  queues all wrap one of the two lock-free rings of \<open>core/common/container\<close>; their clients rely on
  the laws collected in the locale \<open>bounded_fifo\<close>. The record \<open>bq\<close> is the specification: a
  list and a capacity, which is also what \<open>mailbox.hpp\<close> and \<open>dead_letter_queue.hpp\<close> promise. The
  theory \<open>Lock_Free_Queue\<close> shows that both rings refine it.
\<close>

section \<open>Loops over a queue\<close>

text \<open>
  \<open>popBatch\<close> pops at most \<open>maxCount\<close> elements and stops at the first empty answer; the \<open>clear\<close>
  methods pop until the queue answers empty. The second loop is written as a partial function:
  \<open>None\<close> would be a loop that never ends.
\<close>

fun pop_batch :: "('q \<Rightarrow> 'q \<times> 'a option) \<Rightarrow> nat \<Rightarrow> 'q \<Rightarrow> 'a list \<times> 'q" where
  "pop_batch pop 0 q = ([], q)"
| "pop_batch pop (Suc m) q =
     (case pop q of
        (q', None) \<Rightarrow> ([], q')
      | (q', Some x) \<Rightarrow> (case pop_batch pop m q' of (xs, q'') \<Rightarrow> (x # xs, q'')))"

partial_function (option) pop_all :: "('q \<Rightarrow> 'q \<times> 'a option) \<Rightarrow> 'q \<Rightarrow> 'q option" where
  "pop_all pop q =
     (case pop q of (q', None) \<Rightarrow> Some q' | (q', Some x) \<Rightarrow> pop_all pop q')"

fun push_many :: "('q \<Rightarrow> 'a \<Rightarrow> 'q \<times> bool) \<Rightarrow> 'q \<Rightarrow> 'a list \<Rightarrow> 'q" where
  "push_many push q [] = q"
| "push_many push q (x # xs) = push_many push (fst (push q x)) xs"

section \<open>The interface\<close>

locale bounded_fifo =
  fixes push :: "'q \<Rightarrow> 'a \<Rightarrow> 'q \<times> bool"
    and pop :: "'q \<Rightarrow> 'q \<times> 'a option"
    and contents :: "'q \<Rightarrow> 'a list"
    and cap :: "'q \<Rightarrow> nat"
    and inv :: "'q \<Rightarrow> bool"
  assumes push_ok: "inv q \<Longrightarrow> length (contents q) < cap q \<Longrightarrow>
      snd (push q x) \<and> contents (fst (push q x)) = contents q @ [x]"
    and push_full: "inv q \<Longrightarrow> cap q \<le> length (contents q) \<Longrightarrow> push q x = (q, False)"
    and push_keeps: "inv q \<Longrightarrow> inv (fst (push q x)) \<and> cap (fst (push q x)) = cap q"
    and pop_some: "inv q \<Longrightarrow> contents q = x # xs \<Longrightarrow>
      snd (pop q) = Some x \<and> contents (fst (pop q)) = xs"
    and pop_none: "inv q \<Longrightarrow> contents q = [] \<Longrightarrow> pop q = (q, None)"
    and pop_keeps: "inv q \<Longrightarrow> inv (fst (pop q)) \<and> cap (fst (pop q)) = cap q"
    and within: "inv q \<Longrightarrow> length (contents q) \<le> cap q"
begin

lemma push_contents:
  "inv q \<Longrightarrow> contents (fst (push q x)) =
     (if length (contents q) < cap q then contents q @ [x] else contents q)"
  using push_ok[of q x] push_full[of q x] by (simp add: not_less)

lemma push_accepts: "inv q \<Longrightarrow> snd (push q x) \<longleftrightarrow> length (contents q) < cap q"
  using push_ok[of q x] push_full[of q x] by (cases "length (contents q) < cap q") simp_all

text \<open>A burst of pushes keeps the oldest messages and drops what does not fit.\<close>

lemma push_many_contents:
  "inv q \<Longrightarrow> inv (push_many push q xs) \<and> cap (push_many push q xs) = cap q \<and>
     contents (push_many push q xs) = contents q @ take (cap q - length (contents q)) xs"
proof (induction xs arbitrary: q)
  case Nil
  then show ?case by simp
next
  case (Cons x xs)
  let ?q = "fst (push q x)"
  have q: "inv ?q" "cap ?q = cap q" using push_keeps[OF Cons.prems] by simp_all
  have c: "contents ?q = (if length (contents q) < cap q then contents q @ [x] else contents q)"
    by (rule push_contents[OF Cons.prems])
  show ?case
  proof (cases "length (contents q) < cap q")
    case True
    then have "cap q - length (contents q) = Suc (cap q - Suc (length (contents q)))" by simp
    then show ?thesis using Cons.IH[OF q(1)] q(2) c True by simp
  next
    case False
    then show ?thesis using Cons.IH[OF q(1)] q(2) c by simp
  qed
qed

lemma pop_batch_contents:
  "inv q \<Longrightarrow> case pop_batch pop m q of (xs, q') \<Rightarrow>
     xs = take m (contents q) \<and> contents q' = drop m (contents q) \<and> inv q' \<and> cap q' = cap q"
proof (induction m arbitrary: q)
  case 0
  then show ?case by simp
next
  case (Suc m)
  show ?case
  proof (cases "contents q")
    case Nil
    then show ?thesis using Suc.prems pop_none[OF Suc.prems] by simp
  next
    case (Cons x xs)
    obtain q' where q': "pop q = (q', Some x)" "contents q' = xs"
      using pop_some[OF Suc.prems Cons] by (cases "pop q") auto
    have "inv q'" "cap q' = cap q" using pop_keeps[OF Suc.prems] q' by simp_all
    then show ?thesis using Suc.IH[of q'] q' Cons by (auto split: prod.splits)
  qed
qed

text \<open>Clearing a queue ends, with an empty queue.\<close>

lemma pop_all_returns:
  "inv q \<Longrightarrow> \<exists>q'. pop_all pop q = Some q' \<and> contents q' = [] \<and> inv q' \<and> cap q' = cap q"
proof (induction "contents q" arbitrary: q)
  case Nil
  have "pop_all pop q = Some q"
    by (subst pop_all.simps) (simp add: pop_none[OF Nil.prems Nil.hyps[symmetric]])
  then show ?case using Nil by simp
next
  case (Cons x xs)
  obtain q' where q': "pop q = (q', Some x)" "contents q' = xs"
    using pop_some[OF Cons.prems Cons.hyps(2)[symmetric]] by (cases "pop q") auto
  have "inv q'" "cap q' = cap q" using pop_keeps[OF Cons.prems] q' by simp_all
  moreover have "pop_all pop q = pop_all pop q'"
    by (subst pop_all.simps) (simp add: q')
  ultimately show ?case using Cons.hyps(1)[of q'] q' by simp
qed

end

section \<open>The specification queue\<close>

record 'a bq =
  bq_items :: "'a list"
  bq_cap :: nat

definition bq_new :: "nat \<Rightarrow> 'a bq option" where
  "bq_new n = (if n = 0 then None else Some \<lparr>bq_items = [], bq_cap = n\<rparr>)"

definition bq_push :: "'a bq \<Rightarrow> 'a \<Rightarrow> 'a bq \<times> bool" where
  "bq_push q x =
     (if length (bq_items q) < bq_cap q
      then (q\<lparr>bq_items := bq_items q @ [x]\<rparr>, True) else (q, False))"

definition bq_pop :: "'a bq \<Rightarrow> 'a bq \<times> 'a option" where
  "bq_pop q =
     (case bq_items q of [] \<Rightarrow> (q, None) | x # xs \<Rightarrow> (q\<lparr>bq_items := xs\<rparr>, Some x))"

definition bq_count :: "'a bq \<Rightarrow> nat" where
  "bq_count q = length (bq_items q)"

definition bq_empty :: "'a bq \<Rightarrow> bool" where
  "bq_empty q \<longleftrightarrow> bq_items q = []"

definition bq_inv :: "'a bq \<Rightarrow> bool" where
  "bq_inv q \<longleftrightarrow> length (bq_items q) \<le> bq_cap q"

interpretation bqi: bounded_fifo bq_push bq_pop bq_items bq_cap bq_inv
  by unfold_locales (auto simp: bq_push_def bq_pop_def bq_inv_def split: list.splits)

lemma bq_push_cap [simp]: "bq_cap (fst (bq_push q x)) = bq_cap q"
  by (simp add: bq_push_def)

lemma bq_pop_cap [simp]: "bq_cap (fst (bq_pop q)) = bq_cap q"
  by (auto simp: bq_pop_def split: list.splits)

section \<open>Runs of queue operations\<close>

datatype 'a qop = QPush 'a | QPop
datatype 'a qout = Pushed bool | Popped "'a option"

fun run_ops :: "('q \<Rightarrow> 'a \<Rightarrow> 'q \<times> bool) \<Rightarrow> ('q \<Rightarrow> 'q \<times> 'a option) \<Rightarrow> 'q \<Rightarrow> 'a qop list \<Rightarrow> 'q \<times> 'a qout list" where
  "run_ops push pop q [] = (q, [])"
| "run_ops push pop q (QPush x # ops) =
     (case push q x of (q', b) \<Rightarrow> case run_ops push pop q' ops of (q'', os) \<Rightarrow> (q'', Pushed b # os))"
| "run_ops push pop q (QPop # ops) =
     (case pop q of (q', y) \<Rightarrow> case run_ops push pop q' ops of (q'', os) \<Rightarrow> (q'', Popped y # os))"

fun run_loops :: "('q \<Rightarrow> 'a \<Rightarrow> ('q \<times> bool) option) \<Rightarrow> ('q \<Rightarrow> ('q \<times> 'a option) option) \<Rightarrow> 'q \<Rightarrow> 'a qop list \<Rightarrow>
    ('q \<times> 'a qout list) option" where
  "run_loops push pop q [] = Some (q, [])"
| "run_loops push pop q (QPush x # ops) =
     (case push q x of None \<Rightarrow> None | Some (q', b) \<Rightarrow>
        (case run_loops push pop q' ops of None \<Rightarrow> None | Some (q'', os) \<Rightarrow> Some (q'', Pushed b # os)))"
| "run_loops push pop q (QPop # ops) =
     (case pop q of None \<Rightarrow> None | Some (q', y) \<Rightarrow>
        (case run_loops push pop q' ops of None \<Rightarrow> None | Some (q'', os) \<Rightarrow> Some (q'', Popped y # os)))"

context bounded_fifo begin

text \<open>Whatever provides the interface answers every sequence of operations as the specification.\<close>

lemma run_ops_bq:
  "inv q \<Longrightarrow> snd (run_ops push pop q ops) = snd (run_ops bq_push bq_pop \<lparr>bq_items = contents q, bq_cap = cap q\<rparr> ops)"
proof (induction ops arbitrary: q)
  case Nil
  then show ?case by simp
next
  case (Cons op ops)
  show ?case
  proof (cases op)
    case (QPush x)
    have k: "inv (fst (push q x))" "cap (fst (push q x)) = cap q"
      using push_keeps[OF Cons.prems] by simp_all
    then show ?thesis
      using Cons.IH[OF k(1)] push_contents[OF Cons.prems, of x] push_accepts[OF Cons.prems, of x] QPush
      by (auto simp: bq_push_def split: prod.splits)
  next
    case QPop
    have k: "inv (fst (pop q))" "cap (fst (pop q)) = cap q"
      using pop_keeps[OF Cons.prems] by simp_all
    then show ?thesis
      using Cons.IH[OF k(1)] pop_none[OF Cons.prems] pop_some[OF Cons.prems] QPop
      by (cases "contents q") (auto simp: bq_pop_def split: prod.splits)
  qed
qed

text \<open>The retry loops return along every run when each single call does.\<close>

lemma run_loops_return:
  assumes pu: "\<And>q x. inv q \<Longrightarrow> push' q x = Some (push q x)"
    and po: "\<And>q. inv q \<Longrightarrow> pop' q = Some (pop q)"
  shows "inv q \<Longrightarrow> run_loops push' pop' q ops = Some (run_ops push pop q ops)"
proof (induction ops arbitrary: q)
  case Nil
  then show ?case by simp
next
  case (Cons op ops)
  show ?case
  proof (cases op)
    case (QPush x)
    obtain q' b where e: "push q x = (q', b)" by (cases "push q x")
    then have "inv q'" using push_keeps[OF Cons.prems, of x] by simp
    from Cons.IH[OF this] show ?thesis
      using QPush e pu[OF Cons.prems, of x] by (simp split: prod.splits)
  next
    case QPop
    obtain q' y where e: "pop q = (q', y)" by (cases "pop q")
    then have "inv q'" using pop_keeps[OF Cons.prems] by simp
    from Cons.IH[OF this] show ?thesis
      using QPop e po[OF Cons.prems] by (simp split: prod.splits)
  qed
qed

end

end
