(* ===== verification/Lock_Free_Queue.thy ===== *)
theory Lock_Free_Queue
  imports Bounded_Queue
begin

text \<open>
  The two lock-free rings \<open>LockFreeMpscQueue\<close> and \<open>LockFreeMpmcQueue\<close> of
  \<open>src/src/core/common/container\<close>, run without interference: every load sees the latest store
  and a compare-exchange fails only when the value differs. (Interference is the subject of
  \<open>Ring_Concurrent\<close>.) A slot holds its sequence number and the element constructed in its storage
  (\<open>None\<close>: no live element). The positions \<open>head_\<close>, \<open>tail_\<close> and the sequence numbers are \<open>size_t\<close>
  counters that only grow; they are \<open>nat\<close> here, which is exact for the first \<open>2^63\<close> operations
  (\<open>slot_diff_exact\<close> below: the code's signed 64-bit difference is then the mathematical one).
  The retry loops are partial functions: \<open>None\<close> is a loop that never returns.
\<close>

section \<open>State\<close>

record 'a lf_slot =
  sl_seq :: nat
  sl_elem :: "'a option"

record 'a lfq =
  lf_slots :: "'a lf_slot list"
  lf_cap :: nat
  lf_head :: nat
  lf_tail :: nat

definition lfq_new :: "nat \<Rightarrow> 'a lfq option" where
  "lfq_new capacity =
     (if capacity = 0 then None
      else Some \<lparr>lf_slots = map (\<lambda>i. \<lparr>sl_seq = i, sl_elem = None\<rparr>) [0..<capacity],
                 lf_cap = capacity, lf_head = 0, lf_tail = 0\<rparr>)"

definition lf_slot_at :: "'a lfq \<Rightarrow> nat \<Rightarrow> 'a lf_slot" where
  "lf_slot_at q pos = lf_slots q ! (pos mod lf_cap q)"

definition lf_put :: "'a lfq \<Rightarrow> nat \<Rightarrow> 'a lf_slot \<Rightarrow> 'a lf_slot list" where
  "lf_put q pos s = (lf_slots q)[pos mod lf_cap q := s]"

section \<open>The signed difference of the code\<close>

definition slot_diff :: "u64 \<Rightarrow> u64 \<Rightarrow> int" where
  "slot_diff seq pos = sint seq - sint pos"

lemma slot_diff_exact:
  assumes "unat seq < 2 ^ 63" and "unat pos < 2 ^ 63"
  shows "slot_diff seq pos = int (unat seq) - int (unat pos)"
proof -
  have *: "sint w = int (unat w)" if "unat w < 2 ^ 63" for w :: u64
  proof -
    have l: "LENGTH(64) - Suc 0 = 63" by simp
    have "uint w < 2 ^ 63"
      using that unfolding unat_eq_nat_uint nat_less_iff[OF uint_ge_0] by simp
    then have "signed_take_bit 63 (uint w) = uint w"
      by (intro signed_take_bit_int_eq_self order_trans[OF _ uint_ge_0]) simp_all
    then show ?thesis unfolding sint_uint l by simp
  qed
  show ?thesis using assms by (simp add: slot_diff_def *)
qed

section \<open>Operations\<close>

partial_function (option) lfq_push_loop :: "nat \<Rightarrow> 'a \<Rightarrow> 'a lfq \<Rightarrow> ('a lfq \<times> bool) option" where
  "lfq_push_loop pos msg q =
     (let diff = int (sl_seq (lf_slot_at q pos)) - int pos in
      if diff = 0 then
        (if lf_tail q = pos
         then Some (q\<lparr>lf_tail := pos + 1,
                      lf_slots := lf_put q pos \<lparr>sl_seq = pos + 1, sl_elem = Some msg\<rparr>\<rparr>, True)
         else lfq_push_loop (lf_tail q) msg q)
      else if diff < 0 then Some (q, False)
      else lfq_push_loop (lf_tail q) msg q)"

definition mpsc_push :: "'a lfq \<Rightarrow> 'a \<Rightarrow> ('a lfq \<times> bool) option" where
  "mpsc_push q msg = lfq_push_loop (lf_tail q) msg q"

definition mpmc_push :: "'a lfq \<Rightarrow> 'a \<Rightarrow> ('a lfq \<times> bool) option" where
  "mpmc_push q msg = lfq_push_loop (lf_tail q) msg q"

definition mpsc_pop :: "'a lfq \<Rightarrow> 'a lfq \<times> 'a option" where
  "mpsc_pop q =
     (let pos = lf_head q; s = lf_slot_at q pos; diff = int (sl_seq s) - int (pos + 1) in
      if diff \<noteq> 0 then (q, None)
      else (q\<lparr>lf_head := pos + 1,
              lf_slots := lf_put q pos \<lparr>sl_seq = pos + lf_cap q, sl_elem = None\<rparr>\<rparr>, sl_elem s))"

partial_function (option) mpmc_pop_loop :: "nat \<Rightarrow> 'a lfq \<Rightarrow> ('a lfq \<times> 'a option) option" where
  "mpmc_pop_loop pos q =
     (let s = lf_slot_at q pos; diff = int (sl_seq s) - int (pos + 1) in
      if diff = 0 then
        (if lf_head q = pos
         then Some (q\<lparr>lf_head := pos + 1,
                      lf_slots := lf_put q pos \<lparr>sl_seq = pos + lf_cap q, sl_elem = None\<rparr>\<rparr>,
                    sl_elem s)
         else mpmc_pop_loop (lf_head q) q)
      else if diff < 0 then Some (q, None)
      else mpmc_pop_loop (lf_head q) q)"

definition mpmc_pop :: "'a lfq \<Rightarrow> ('a lfq \<times> 'a option) option" where
  "mpmc_pop q = mpmc_pop_loop (lf_head q) q"

definition mpsc_pop_batch :: "nat \<Rightarrow> 'a lfq \<Rightarrow> 'a list \<times> 'a lfq" where
  "mpsc_pop_batch maxCount q = pop_batch mpsc_pop maxCount q"

definition lfq_empty :: "'a lfq \<Rightarrow> bool" where
  "lfq_empty q \<longleftrightarrow> sl_seq (lf_slot_at q (lf_head q)) \<noteq> lf_head q + 1"

definition lfq_count :: "'a lfq \<Rightarrow> nat" where
  "lfq_count q =
     (let reserved = lf_tail q - lf_head q in
      if reserved < lf_cap q then reserved else lf_cap q)"

section \<open>Invariant and abstraction\<close>

definition lfq_inv :: "'a lfq \<Rightarrow> bool" where
  "lfq_inv q \<longleftrightarrow>
     2 \<le> lf_cap q \<and> length (lf_slots q) = lf_cap q \<and>
     lf_head q \<le> lf_tail q \<and> lf_tail q \<le> lf_head q + lf_cap q \<and>
     (\<forall>p. lf_head q \<le> p \<and> p < lf_tail q \<longrightarrow>
        sl_seq (lf_slot_at q p) = p + 1 \<and> sl_elem (lf_slot_at q p) \<noteq> None) \<and>
     (\<forall>p. lf_tail q \<le> p \<and> p < lf_head q + lf_cap q \<longrightarrow> sl_seq (lf_slot_at q p) = p)"

definition lfq_contents :: "'a lfq \<Rightarrow> 'a list" where
  "lfq_contents q = map (\<lambda>p. the (sl_elem (lf_slot_at q p))) [lf_head q..<lf_tail q]"

lemma length_lfq_contents [simp]: "length (lfq_contents q) = lf_tail q - lf_head q"
  by (simp add: lfq_contents_def)

lemma lfq_inv_new: "lfq_new n = Some q \<Longrightarrow> 2 \<le> n \<Longrightarrow> lfq_inv q \<and> lfq_contents q = [] \<and> lf_cap q = n"
  by (auto simp: lfq_new_def lfq_inv_def lfq_contents_def lf_slot_at_def split: if_splits)

lemma lf_slot_at_put:
  assumes "length (lf_slots q) = lf_cap q" "0 < lf_cap q"
  shows "lf_slot_at (q\<lparr>lf_tail := t, lf_slots := lf_put q pos s\<rparr>) p =
      (if p mod lf_cap q = pos mod lf_cap q then s else lf_slot_at q p)"
    and "lf_slot_at (q\<lparr>lf_head := t, lf_slots := lf_put q pos s\<rparr>) p =
      (if p mod lf_cap q = pos mod lf_cap q then s else lf_slot_at q p)"
  using assms by (simp_all add: lf_slot_at_def lf_put_def nth_list_update)

lemma lfq_push_loop_full:
  assumes "lfq_inv q" and "lf_tail q = lf_head q + lf_cap q"
  shows "lfq_push_loop (lf_tail q) x q = Some (q, False)"
proof -
  have "lf_slot_at q (lf_tail q) = lf_slot_at q (lf_head q)"
    using assms(2) by (simp add: lf_slot_at_def)
  moreover have "sl_seq (lf_slot_at q (lf_head q)) = lf_head q + 1"
    using assms by (auto simp: lfq_inv_def)
  ultimately show ?thesis
    using assms by (subst lfq_push_loop.simps) (auto simp: Let_def lfq_inv_def)
qed

lemma lfq_push_loop_room:
  assumes inv: "lfq_inv q" and room: "lf_tail q < lf_head q + lf_cap q"
  obtains q' where "lfq_push_loop (lf_tail q) x q = Some (q', True)"
    and "lfq_inv q'" and "lfq_contents q' = lfq_contents q @ [x]" and "lf_cap q' = lf_cap q"
proof -
  define q' where "q' = q\<lparr>lf_tail := lf_tail q + 1,
    lf_slots := lf_put q (lf_tail q) \<lparr>sl_seq = lf_tail q + 1, sl_elem = Some x\<rparr>\<rparr>"
  have seq: "sl_seq (lf_slot_at q (lf_tail q)) = lf_tail q"
    using inv room by (simp add: lfq_inv_def)
  have eq: "lfq_push_loop (lf_tail q) x q = Some (q', True)"
    by (subst lfq_push_loop.simps) (simp add: Let_def seq q'_def)
  have len: "length (lf_slots q) = lf_cap q" "0 < lf_cap q"
    using inv by (auto simp: lfq_inv_def)
  have f: "lf_cap q' = lf_cap q" "lf_head q' = lf_head q" "lf_tail q' = lf_tail q + 1"
      "length (lf_slots q') = lf_cap q"
    using len by (simp_all add: q'_def lf_put_def)
  have same: "lf_slot_at q' p = lf_slot_at q p"
    if "lf_head q \<le> p" "p < lf_head q + lf_cap q" "p \<noteq> lf_tail q" for p
    using mod_window_inj[of "lf_head q" p "lf_cap q" "lf_tail q"] that inv room len
    by (auto simp: q'_def lf_slot_at_put lfq_inv_def)
  have new: "lf_slot_at q' (lf_tail q) = \<lparr>sl_seq = lf_tail q + 1, sl_elem = Some x\<rparr>"
    using len by (simp add: q'_def lf_slot_at_put)
  have "lfq_inv q'"
    using inv room f same new by (auto simp: lfq_inv_def less_Suc_eq)
  moreover have "lfq_contents q' = lfq_contents q @ [x]"
  proof -
    have "map (\<lambda>p. the (sl_elem (lf_slot_at q' p))) [lf_head q..<lf_tail q] =
        map (\<lambda>p. the (sl_elem (lf_slot_at q p))) [lf_head q..<lf_tail q]"
      using room same by (intro map_cong refl) simp
    then show ?thesis using inv f new by (simp add: lfq_contents_def lfq_inv_def)
  qed
  ultimately show ?thesis using that eq f by blast
qed

text \<open>What both \<open>pop\<close>s do to the ring when the head slot is filled.\<close>

definition lf_take :: "'a lfq \<Rightarrow> 'a lfq" where
  "lf_take q = q\<lparr>lf_head := lf_head q + 1,
     lf_slots := lf_put q (lf_head q) \<lparr>sl_seq = lf_head q + lf_cap q, sl_elem = None\<rparr>\<rparr>"

lemma lf_take_correct:
  assumes inv: "lfq_inv q" and ne: "lf_head q < lf_tail q"
  shows "lfq_inv (lf_take q)" and "lf_cap (lf_take q) = lf_cap q"
    and "sl_seq (lf_slot_at q (lf_head q)) = lf_head q + 1"
    and "\<exists>x. sl_elem (lf_slot_at q (lf_head q)) = Some x \<and> lfq_contents q = x # lfq_contents (lf_take q)"
proof -
  let ?q = "lf_take q"
  have len: "length (lf_slots q) = lf_cap q" "0 < lf_cap q"
    using inv by (auto simp: lfq_inv_def)
  have f: "lf_cap ?q = lf_cap q" "lf_head ?q = lf_head q + 1" "lf_tail ?q = lf_tail q"
      "length (lf_slots ?q) = lf_cap q"
    using len by (simp_all add: lf_take_def lf_put_def)
  have same: "lf_slot_at ?q p = lf_slot_at q p"
    if "lf_head q < p" "p < lf_head q + lf_cap q" for p
    using mod_window_inj[of "lf_head q" p "lf_cap q" "lf_head q"] that len
    by (auto simp: lf_take_def lf_slot_at_put)
  have new: "lf_slot_at ?q (lf_head q + lf_cap q) = \<lparr>sl_seq = lf_head q + lf_cap q, sl_elem = None\<rparr>"
    using len by (simp add: lf_take_def lf_slot_at_put)
  show "lf_cap ?q = lf_cap q" by (rule f)
  show seq: "sl_seq (lf_slot_at q (lf_head q)) = lf_head q + 1"
    using inv ne by (simp add: lfq_inv_def)
  show "lfq_inv ?q"
    unfolding lfq_inv_def f(1-3)
  proof (intro conjI allI)
    show "2 \<le> lf_cap q" "length (lf_slots ?q) = lf_cap q" "lf_head q + 1 \<le> lf_tail q"
      "lf_tail q \<le> lf_head q + 1 + lf_cap q"
      using inv ne f by (auto simp: lfq_inv_def)
  next
    fix p show "lf_head q + 1 \<le> p \<and> p < lf_tail q \<longrightarrow>
        sl_seq (lf_slot_at ?q p) = p + 1 \<and> sl_elem (lf_slot_at ?q p) \<noteq> None"
    proof
    assume p: "lf_head q + 1 \<le> p \<and> p < lf_tail q"
    then have "lf_slot_at ?q p = lf_slot_at q p" using same inv by (auto simp: lfq_inv_def)
    then show "sl_seq (lf_slot_at ?q p) = p + 1 \<and> sl_elem (lf_slot_at ?q p) \<noteq> None"
      using p inv by (simp add: lfq_inv_def)
    qed
  next
    fix p show "lf_tail q \<le> p \<and> p < lf_head q + 1 + lf_cap q \<longrightarrow> sl_seq (lf_slot_at ?q p) = p"
    proof
    assume p: "lf_tail q \<le> p \<and> p < lf_head q + 1 + lf_cap q"
    show "sl_seq (lf_slot_at ?q p) = p"
    proof (cases "p = lf_head q + lf_cap q")
      case True
      then show ?thesis using new by simp
    next
      case False
      then show ?thesis using p ne same[of p] inv by (simp add: lfq_inv_def)
    qed
    qed
  qed
  obtain x where x: "sl_elem (lf_slot_at q (lf_head q)) = Some x"
    using inv ne by (auto simp: lfq_inv_def)
  have "map (\<lambda>p. the (sl_elem (lf_slot_at ?q p))) [Suc (lf_head q)..<lf_tail q] =
      map (\<lambda>p. the (sl_elem (lf_slot_at q p))) [Suc (lf_head q)..<lf_tail q]"
    using inv same by (intro map_cong refl) (auto simp: lfq_inv_def)
  then show "\<exists>x. sl_elem (lf_slot_at q (lf_head q)) = Some x \<and> lfq_contents q = x # lfq_contents ?q"
    using x ne f by (simp add: lfq_contents_def upt_conv_Cons)
qed

lemma lfq_head_free:
  assumes "lfq_inv q" and "lf_head q = lf_tail q"
  shows "sl_seq (lf_slot_at q (lf_head q)) = lf_head q"
  using assms by (auto simp: lfq_inv_def)

lemma mpsc_pop_cases:
  assumes "lfq_inv q"
  shows "mpsc_pop q = (if lf_head q = lf_tail q then (q, None)
     else (lf_take q, sl_elem (lf_slot_at q (lf_head q))))"
  using assms lfq_head_free[of q] lf_take_correct(3)[of q]
  by (auto simp: mpsc_pop_def Let_def lf_take_def lfq_inv_def)

lemma mpmc_pop_cases:
  assumes "lfq_inv q"
  shows "mpmc_pop q = Some (if lf_head q = lf_tail q then (q, None)
     else (lf_take q, sl_elem (lf_slot_at q (lf_head q))))"
proof (cases "lf_head q = lf_tail q")
  case True
  then show ?thesis using lfq_head_free[OF assms]
    by (simp add: mpmc_pop_def Let_def mpmc_pop_loop.simps[of "lf_tail q"])
next
  case False
  then have "lf_head q < lf_tail q" using assms by (auto simp: lfq_inv_def)
  from lf_take_correct(3)[OF assms this] False show ?thesis
    by (simp add: mpmc_pop_def Let_def lf_take_def mpmc_pop_loop.simps[of "lf_head q"])
qed

section \<open>Both rings implement the bounded FIFO\<close>

definition mpsc_push_total :: "'a lfq \<Rightarrow> 'a \<Rightarrow> 'a lfq \<times> bool" where
  "mpsc_push_total q x = the (mpsc_push q x)"

definition mpmc_pop_total :: "'a lfq \<Rightarrow> 'a lfq \<times> 'a option" where
  "mpmc_pop_total q = the (mpmc_pop q)"

lemma mpsc_push_total_full:
  "lfq_inv q \<Longrightarrow> lf_cap q \<le> length (lfq_contents q) \<Longrightarrow> mpsc_push_total q x = (q, False)"
proof -
  assume "lfq_inv q" "lf_cap q \<le> length (lfq_contents q)"
  then have "lf_tail q = lf_head q + lf_cap q" by (auto simp: lfq_inv_def)
  then show ?thesis using lfq_push_loop_full[OF \<open>lfq_inv q\<close>]
    by (simp add: mpsc_push_total_def mpsc_push_def)
qed

lemma mpsc_push_total_room:
  assumes "lfq_inv q" and "length (lfq_contents q) < lf_cap q"
  shows "snd (mpsc_push_total q x) \<and> lfq_contents (fst (mpsc_push_total q x)) = lfq_contents q @ [x] \<and>
    lfq_inv (fst (mpsc_push_total q x)) \<and> lf_cap (fst (mpsc_push_total q x)) = lf_cap q"
proof -
  have "lf_tail q < lf_head q + lf_cap q" using assms by (auto simp: lfq_inv_def)
  from lfq_push_loop_room[OF assms(1) this] obtain q' where
    "lfq_push_loop (lf_tail q) x q = Some (q', True)" "lfq_inv q'"
    "lfq_contents q' = lfq_contents q @ [x]" "lf_cap q' = lf_cap q" by blast
  then show ?thesis by (simp add: mpsc_push_total_def mpsc_push_def)
qed

lemma mpsc_push_total_keeps:
  "lfq_inv q \<Longrightarrow> lfq_inv (fst (mpsc_push_total q x)) \<and> lf_cap (fst (mpsc_push_total q x)) = lf_cap q"
  using mpsc_push_total_full[of q x] mpsc_push_total_room[of q x] by (cases "lf_cap q \<le> length (lfq_contents q)") auto

lemma lfq_nonempty: "lfq_inv q \<Longrightarrow> lfq_contents q = x # xs \<Longrightarrow> lf_head q < lf_tail q"
  by (auto simp: lfq_contents_def lfq_inv_def dest: arg_cong[where f = length])

lemma lfq_is_empty: "lfq_inv q \<Longrightarrow> lfq_contents q = [] \<longleftrightarrow> lf_head q = lf_tail q"
  by (auto simp: lfq_contents_def lfq_inv_def)

lemma mpsc_pop_some: "lfq_inv q \<Longrightarrow> lfq_contents q = x # xs \<Longrightarrow>
    snd (mpsc_pop q) = Some x \<and> lfq_contents (fst (mpsc_pop q)) = xs"
  using lfq_nonempty[of q x xs] lf_take_correct(4)[of q] by (auto simp: mpsc_pop_cases)

lemma mpsc_pop_keeps: "lfq_inv q \<Longrightarrow> lfq_inv (fst (mpsc_pop q)) \<and> lf_cap (fst (mpsc_pop q)) = lf_cap q"
  using lf_take_correct(1,2)[of q] by (auto simp: mpsc_pop_cases lfq_inv_def)

lemma mpmc_pop_total_eq: "lfq_inv q \<Longrightarrow> mpmc_pop_total q = mpsc_pop q"
  by (simp add: mpmc_pop_total_def mpmc_pop_cases mpsc_pop_cases)

lemma mpsc_pop_none: "lfq_inv q \<Longrightarrow> lfq_contents q = [] \<Longrightarrow> mpsc_pop q = (q, None)"
  by (simp add: mpsc_pop_cases lfq_is_empty)

lemma lfq_within: "lfq_inv q \<Longrightarrow> length (lfq_contents q) \<le> lf_cap q"
  unfolding lfq_inv_def length_lfq_contents by linarith

interpretation mpsc: bounded_fifo mpsc_push_total mpsc_pop lfq_contents lf_cap lfq_inv
proof unfold_locales
  fix q :: "'a lfq" and x :: 'a assume "lfq_inv q" "length (lfq_contents q) < lf_cap q"
  then show "snd (mpsc_push_total q x) \<and> lfq_contents (fst (mpsc_push_total q x)) = lfq_contents q @ [x]"
    using mpsc_push_total_room[of q x] by blast
qed (fact mpsc_push_total_full mpsc_push_total_keeps mpsc_pop_some mpsc_pop_none mpsc_pop_keeps
       lfq_within)+

interpretation mpmc: bounded_fifo mpsc_push_total mpmc_pop_total lfq_contents lf_cap lfq_inv
proof unfold_locales
  fix q :: "'a lfq" and x :: 'a and xs assume "lfq_inv q" "lfq_contents q = x # xs"
  then show "snd (mpmc_pop_total q) = Some x \<and> lfq_contents (fst (mpmc_pop_total q)) = xs"
    using mpsc_pop_some[of q x xs] by (simp only: mpmc_pop_total_eq)
next
  fix q :: "'a lfq" assume "lfq_inv q" "lfq_contents q = []"
  then show "mpmc_pop_total q = (q, None)"
    using mpsc_pop_none[of q] by (simp only: mpmc_pop_total_eq)
next
  fix q :: "'a lfq" assume "lfq_inv q"
  then show "lfq_inv (fst (mpmc_pop_total q)) \<and> lf_cap (fst (mpmc_pop_total q)) = lf_cap q"
    using mpsc_pop_keeps[of q] by (simp only: mpmc_pop_total_eq)
qed (fact mpsc.push_ok mpsc_push_total_full mpsc_push_total_keeps lfq_within)+

section \<open>Refinement of the bounded queue\<close>

lemma mpsc_push_returns: "lfq_inv q \<Longrightarrow> mpsc_push q x = Some (mpsc_push_total q x)"
proof -
  assume i: "lfq_inv q"
  have "lfq_push_loop (lf_tail q) x q \<noteq> None"
  proof (cases "lf_tail q = lf_head q + lf_cap q")
    case True
    then show ?thesis using lfq_push_loop_full[OF i] by simp
  next
    case False
    then have "lf_tail q < lf_head q + lf_cap q" using i by (simp add: lfq_inv_def)
    from lfq_push_loop_room[OF i this, of x] show ?thesis by (metis option.distinct(1))
  qed
  then show ?thesis by (simp add: mpsc_push_total_def mpsc_push_def)
qed

lemma mpmc_push_returns: "lfq_inv q \<Longrightarrow> mpmc_push q x = Some (mpsc_push_total q x)"
  using mpsc_push_returns[of q x] by (simp add: mpmc_push_def mpsc_push_def)

lemma mpmc_pop_returns: "lfq_inv q \<Longrightarrow> mpmc_pop q = Some (mpmc_pop_total q)"
  by (simp add: mpmc_pop_total_def mpmc_pop_cases)

text \<open>
  C2: a ring of capacity at least two, freshly constructed, answers every sequence of pushes and pops
  exactly as the bounded FIFO list of the same capacity does, and none of its retry loops hangs;
  this holds of the single-consumer and of the multi-consumer ring.
\<close>

theorem rings_refine_bounded_queue:
  assumes "2 \<le> n" and "lfq_new n = Some q" and "bq_new n = Some b"
  shows "\<exists>q1 q2. run_loops mpsc_push (\<lambda>q. Some (mpsc_pop q)) q ops = Some (q1, snd (run_ops bq_push bq_pop b ops)) \<and>
     run_loops mpmc_push mpmc_pop q ops = Some (q2, snd (run_ops bq_push bq_pop b ops))"
proof -
  have i: "lfq_inv q" "lfq_contents q = []" "lf_cap q = n"
    using lfq_inv_new[OF assms(2,1)] by simp_all
  have b: "b = \<lparr>bq_items = [], bq_cap = n\<rparr>"
    using assms by (auto simp: bq_new_def split: if_splits)
  have "run_loops mpsc_push (\<lambda>q. Some (mpsc_pop q)) q ops = Some (run_ops mpsc_push_total mpsc_pop q ops)"
    by (rule mpsc.run_loops_return[OF mpsc_push_returns refl i(1)])
  moreover have "run_loops mpmc_push mpmc_pop q ops = Some (run_ops mpsc_push_total mpmc_pop_total q ops)"
    by (rule mpmc.run_loops_return[OF mpmc_push_returns mpmc_pop_returns i(1)])
  ultimately show ?thesis
    using mpsc.run_ops_bq[OF i(1), of ops] mpmc.run_ops_bq[OF i(1), of ops] i(2,3) b
    by (metis prod.collapse)
qed

theorem rings_refine_bounded_queue_witness:
  "\<exists>q1 q2. run_loops mpmc_push mpmc_pop (the (lfq_new 2)) [QPush (7::nat), QPush 8, QPush 9, QPop] =
     Some (q1, [Pushed True, Pushed True, Pushed False, Popped (Some 7)]) \<and> q2 = q1"
  using rings_refine_bounded_queue[of 2 "the (lfq_new 2)" "the (bq_new 2)"
      "[QPush (7::nat), QPush 8, QPush 9, QPop]"]
  by (auto simp: lfq_new_def bq_new_def bq_push_def bq_pop_def)

section \<open>Capacity one\<close>

text \<open>
  The constructors accept capacity one, but the protocol cannot tell a full single slot from a free
  one: a filled slot carries \<open>pos + 1\<close>, which is what the next reservation expects of a free slot.
\<close>

definition lfq_stuck :: "'a \<Rightarrow> 'a lfq" where
  "lfq_stuck y = \<lparr>lf_slots = [\<lparr>sl_seq = 2, sl_elem = Some y\<rparr>], lf_cap = 1, lf_head = 0, lf_tail = 2\<rparr>"

lemma mpmc_pop_stuck: "mpmc_pop (lfq_stuck y) = None"
proof -
  have f: "lf_head (lfq_stuck y) = 0" "sl_seq (lf_slot_at (lfq_stuck y) 0) = 2"
    by (simp_all add: lfq_stuck_def lf_slot_at_def)
  have "\<not> (q = lfq_stuck y \<and> pos = 0)" if e: "mpmc_pop_loop pos q = Some r" for pos q r
    by (rule mpmc_pop_loop.raw_induct[OF _ e, where P = "\<lambda>pos q r. \<not> (q = lfq_stuck y \<and> pos = 0)"])
      (rule notI, elim conjE, auto simp: Let_def f)
  then have "mpmc_pop_loop 0 (lfq_stuck y) = None" by (cases "mpmc_pop_loop 0 (lfq_stuck y)") auto
  then show ?thesis by (simp add: mpmc_pop_def lfq_stuck_def)
qed

text \<open>In a ring constructed with capacity one a second push is accepted although the first element was
  never popped, and overwrites it; from then on the single-consumer pop answers empty for ever and the
  multi-consumer pop never returns, while the ring still reports one element.
\<close>

theorem capacity_one_loses_and_sticks:
  "\<exists>q1 q2 :: 'a lfq. lfq_new 1 \<noteq> (None :: 'a lfq option) \<and> mpsc_push (the (lfq_new 1)) x = Some (q1, True) \<and>
     mpsc_push q1 y = Some (q2, True) \<and> lfq_count q2 = 1 \<and>
     mpsc_pop q2 = (q2, None) \<and> mpmc_pop q2 = None"
proof (intro exI conjI)
  let ?q1 = "\<lparr>lf_slots = [\<lparr>sl_seq = 1, sl_elem = Some x\<rparr>], lf_cap = 1, lf_head = 0, lf_tail = 1\<rparr>"
  let ?q2 = "lfq_stuck y"
  show "mpsc_push (the (lfq_new 1)) x = Some (?q1, True)"
    unfolding mpsc_push_def
    by (subst lfq_push_loop.simps) (simp add: lfq_new_def lf_slot_at_def lf_put_def)
  show "mpsc_push ?q1 y = Some (?q2, True)"
    unfolding mpsc_push_def
    by (subst lfq_push_loop.simps) (simp add: lf_slot_at_def lf_put_def lfq_stuck_def)
  show "mpsc_pop ?q2 = (?q2, None)" "lfq_count ?q2 = 1" "lfq_new 1 \<noteq> (None :: 'a lfq option)"
    by (simp_all add: mpsc_pop_def lfq_stuck_def lf_slot_at_def lfq_count_def lfq_new_def)
  show "mpmc_pop ?q2 = None" by (rule mpmc_pop_stuck)
qed

end
