(* ===== verification/Mailbox_Model.thy ===== *)
theory Mailbox_Model
  imports Lock_Free_Queue
begin

text \<open>
  \<open>Mailbox\<close> (\<open>runtime/mailbox/mailbox.hpp\<close>) and \<open>DeadLetterQueue\<close>
  (\<open>runtime/supervisor/dead_letter_queue.hpp\<close>). Both own one single-consumer ring and forward to it;
  \<open>clear\<close> is the loop that pops until the ring answers empty. \<open>None\<close> is a call that does not return.
\<close>

section \<open>Mailbox\<close>

type_synonym 'm mailbox = "'m lfq"

definition mailbox_push :: "'m mailbox \<Rightarrow> 'm \<Rightarrow> ('m mailbox \<times> bool) option" where
  "mailbox_push mb m = mpsc_push mb m"

definition mailbox_pop :: "'m mailbox \<Rightarrow> 'm mailbox \<times> 'm option" where
  "mailbox_pop mb = mpsc_pop mb"

definition mailbox_clear :: "'m mailbox \<Rightarrow> 'm mailbox option" where
  "mailbox_clear mb = pop_all mailbox_pop mb"

definition mailbox_count :: "'m mailbox \<Rightarrow> nat" where
  "mailbox_count mb = lfq_count mb"

definition mailbox_empty :: "'m mailbox \<Rightarrow> bool" where
  "mailbox_empty mb \<longleftrightarrow> lfq_empty mb"

text \<open>\<open>mailbox_send_all\<close> is a burst of sends that ignores the answers.\<close>

fun mailbox_send_all :: "'m mailbox \<Rightarrow> 'm list \<Rightarrow> 'm mailbox option" where
  "mailbox_send_all mb [] = Some mb"
| "mailbox_send_all mb (m # ms) =
     (case mailbox_push mb m of None \<Rightarrow> None | Some (mb', _) \<Rightarrow> mailbox_send_all mb' ms)"

section \<open>Dead-letter queue\<close>

record 'm dead_letter =
  dl_actorId :: u64
  dl_actorName :: string
  dl_reason :: string
  dl_timestampNs :: u64
  dl_msg :: 'm

definition dlq_new :: "nat \<Rightarrow> 'm dead_letter lfq option" where
  "dlq_new capacity = lfq_new capacity"

definition dlq_push :: "'m dead_letter lfq \<Rightarrow> 'm dead_letter \<Rightarrow>
    ('m dead_letter lfq \<times> bool) option" where
  "dlq_push q letter = mpsc_push q letter"

definition dlq_pop :: "'m dead_letter lfq \<Rightarrow> 'm dead_letter lfq \<times> 'm dead_letter option" where
  "dlq_pop q = mpsc_pop q"

definition dlq_clear :: "'m dead_letter lfq \<Rightarrow> 'm dead_letter lfq option" where
  "dlq_clear q = pop_all dlq_pop q"

section \<open>Properties\<close>

lemma mailbox_pop_is [simp]: "mailbox_pop = mpsc_pop"
  by (simp add: fun_eq_iff mailbox_pop_def)

lemma dlq_pop_is [simp]: "dlq_pop = mpsc_pop"
  by (simp add: fun_eq_iff dlq_pop_def)

lemma mailbox_send_all_returns:
  "lfq_inv mb \<Longrightarrow> mailbox_send_all mb ms = Some (push_many mpsc_push_total mb ms)"
proof (induction ms arbitrary: mb)
  case Nil
  then show ?case by simp
next
  case (Cons m ms)
  then show ?case
    using mpsc.push_keeps[OF Cons.prems, of m]
    by (cases "mpsc_push_total mb m") (simp add: mailbox_push_def mpsc_push_returns)
qed

lemma lfq_count_contents: "lfq_inv q \<Longrightarrow> lfq_count q = length (lfq_contents q)"
  using lfq_within[of q] by (simp add: lfq_count_def Let_def)

lemma lfq_empty_contents: "lfq_inv q \<Longrightarrow> lfq_empty q \<longleftrightarrow> lfq_contents q = []"
  using lfq_head_free[of q] lf_take_correct(3)[of q] lfq_is_empty[of q]
  by (cases "lf_head q = lf_tail q") (simp_all add: lfq_empty_def lfq_inv_def)

text \<open>
  A burst of messages of any length always returns, and leaves in the mailbox exactly the messages
  already there followed by the oldest new ones that fit, in order, with \<open>count\<close> and \<open>empty\<close> telling
  so; \<open>clear\<close> then ends with an empty mailbox. Nothing accepted is lost or reordered.
\<close>

theorem mailbox_burst_keeps_oldest:
  assumes "lfq_inv mb"
  shows "\<exists>mb' mb''. mailbox_send_all mb ms = Some mb' \<and>
    lfq_contents mb' = lfq_contents mb @ take (lf_cap mb - length (lfq_contents mb)) ms \<and>
    mailbox_count mb' = length (lfq_contents mb') \<and>
    (mailbox_empty mb' \<longleftrightarrow> lfq_contents mb' = []) \<and>
    mailbox_clear mb' = Some mb'' \<and> lfq_contents mb'' = [] \<and> lf_cap mb'' = lf_cap mb"
proof -
  let ?mb = "push_many mpsc_push_total mb ms"
  have p: "lfq_inv ?mb" "lf_cap ?mb = lf_cap mb"
      "lfq_contents ?mb = lfq_contents mb @ take (lf_cap mb - length (lfq_contents mb)) ms"
    using mpsc.push_many_contents[OF assms, of ms] by blast+
  obtain mb'' where c: "pop_all mpsc_pop ?mb = Some mb''" "lfq_contents mb'' = []" "lf_cap mb'' = lf_cap mb"
    using mpsc.pop_all_returns[OF p(1)] p(2) by auto
  have "mailbox_send_all mb ms = Some ?mb" by (rule mailbox_send_all_returns[OF assms])
  then show ?thesis
    using p c lfq_count_contents[OF p(1)] lfq_empty_contents[OF p(1)]
    unfolding mailbox_clear_def mailbox_count_def mailbox_empty_def mailbox_pop_is by blast
qed

theorem mailbox_burst_keeps_oldest_witness:
  "\<exists>mb'. mailbox_send_all (the (lfq_new 2)) [5::nat, 6, 7] = Some mb' \<and> lfq_contents mb' = [5, 6]"
proof -
  have "lfq_new 2 = Some (the (lfq_new 2 :: nat lfq option))" by (simp add: lfq_new_def)
  then have "lfq_inv (the (lfq_new 2 :: nat lfq option)) \<and>
      lfq_contents (the (lfq_new 2 :: nat lfq option)) = [] \<and> lf_cap (the (lfq_new 2 :: nat lfq option)) = 2"
    using lfq_inv_new by blast
  then show ?thesis
    using mailbox_burst_keeps_oldest[of "the (lfq_new 2)" "[5::nat, 6, 7]"]
    by (auto simp: numeral_eq_Suc)
qed

end
