(* ===== verification/Supervisor_Policy.thy ===== *)
theory Supervisor_Policy
  imports Mailbox_Model
begin

text \<open>
  The supervisor's own state (\<open>src/src/core/actor_system/runtime/supervisor/supervisor.cpp\<close>): restart policies,
  counters, and the dead-letter queue it moves a failed actor's messages to. What it does to the failed
  actor, and the recursion between the two, is in \<open>Actor_Runtime\<close>. Queues are the bounded lists that the
  rings refine (\<open>Lock_Free_Queue\<close>); counters are unbounded naturals.
\<close>

text \<open>The strategies; \<open>Unlisted n\<close> is a value of the enumeration's underlying type, cast from the configuration,
  that no enumerator names.\<close>

datatype restart_strategy = OneForOne | OneForAll | NoRestart | Unlisted int

record 'm sup =
  sv_dlq :: "'m dead_letter bq"
  sv_default :: restart_strategy
  sv_maxRestarts :: int
  sv_perActor :: "u64 \<rightharpoonup> restart_strategy"
  sv_oneForAll :: "u64 \<rightharpoonup> int"
  sv_failures :: nat
  sv_restarts :: nat
  sv_broadcasts :: nat

definition sup_new :: "'m dead_letter bq \<Rightarrow> int \<Rightarrow> restart_strategy \<Rightarrow> 'm sup" where
  "sup_new dlq maxRestarts strategy =
     \<lparr>sv_dlq = dlq, sv_default = strategy, sv_maxRestarts = maxRestarts, sv_perActor = Map.empty, sv_oneForAll = Map.empty,
      sv_failures = 0, sv_restarts = 0, sv_broadcasts = 0\<rparr>"

definition setDefaultStrategy :: "restart_strategy \<Rightarrow> 'm sup \<Rightarrow> 'm sup" where
  "setDefaultStrategy st s = s\<lparr>sv_default := st\<rparr>"

definition setStrategy :: "u64 \<Rightarrow> restart_strategy \<Rightarrow> 'm sup \<Rightarrow> 'm sup" where
  "setStrategy i st s = s\<lparr>sv_perActor := (sv_perActor s)(i \<mapsto> st)\<rparr>"

definition removePolicy :: "u64 \<Rightarrow> 'm sup \<Rightarrow> 'm sup" where
  "removePolicy i s = s\<lparr>sv_perActor := (sv_perActor s)(i := None), sv_oneForAll := (sv_oneForAll s)(i := None)\<rparr>"

definition setMaxRestarts :: "int \<Rightarrow> 'm sup \<Rightarrow> 'm sup" where
  "setMaxRestarts n s = s\<lparr>sv_maxRestarts := n\<rparr>"

text \<open>The policy snapshot: the strategy of an actor, the default unless overridden.\<close>

definition policy_of :: "'m sup \<Rightarrow> u64 \<Rightarrow> restart_strategy" where
  "policy_of s i = (case sv_perActor s i of Some st \<Rightarrow> st | None \<Rightarrow> sv_default s)"

text \<open>Dead letters: the failed message first, then the mailbox until it is empty; a full queue drops.\<close>

definition dead_letter_of :: "u64 \<Rightarrow> string \<Rightarrow> string \<Rightarrow> u64 \<Rightarrow> 'm \<Rightarrow> 'm dead_letter" where
  "dead_letter_of i n reason now m =
     \<lparr>dl_actorId = i, dl_actorName = n, dl_reason = reason, dl_timestampNs = now, dl_msg = m\<rparr>"

function drain_dead :: "('m \<Rightarrow> 'm dead_letter) \<Rightarrow> 'm bq \<Rightarrow> 'm dead_letter bq \<Rightarrow> 'm bq \<times> 'm dead_letter bq" where
  "drain_dead letter mb dlq =
     (case bq_pop mb of
        (mb', None) \<Rightarrow> (mb', dlq)
      | (mb', Some m) \<Rightarrow> drain_dead letter mb' (fst (bq_push dlq (letter m))))"
  by pat_completeness auto
termination
  by (relation "measure (\<lambda>(_, mb, _). length (bq_items mb))") (auto simp: bq_pop_def split: list.splits)

declare drain_dead.simps [simp del]

lemma bq_push_items: "bq_items (fst (bq_push q x)) = (if length (bq_items q) < bq_cap q then bq_items q @ [x] else bq_items q)"
  by (simp add: bq_push_def)

lemma bq_push_take:
  assumes "length (bq_items q) \<le> bq_cap q"
  shows "bq_items (fst (bq_push q x)) = take (bq_cap q) (bq_items q @ [x])"
  using assms by (auto simp: bq_push_items)

lemma take_take_append: "take c (take c xs @ ys) = take c (xs @ ys)"
  by (cases "length xs \<le> c") simp_all

lemma drain_dead_ok:
  "length (bq_items dlq) \<le> bq_cap dlq \<Longrightarrow> drain_dead letter mb dlq = (mb', dlq') \<Longrightarrow>
     bq_items mb' = [] \<and> bq_cap mb' = bq_cap mb \<and> bq_cap dlq' = bq_cap dlq \<and>
     bq_items dlq' = take (bq_cap dlq) (bq_items dlq @ map letter (bq_items mb))"
proof (induction letter mb dlq rule: drain_dead.induct)
  case (1 letter mb dlq)
  show ?case
  proof (cases "bq_items mb")
    case Nil
    then have p: "bq_pop mb = (mb, None)" by (simp add: bq_pop_def)
    have "drain_dead letter mb dlq = (mb, dlq)" by (subst drain_dead.simps) (simp only: p prod.case option.case)
    then show ?thesis using 1(2,3) Nil by simp
  next
    case (Cons m ms)
    let ?mb = "mb\<lparr>bq_items := ms\<rparr>" and ?d = "fst (bq_push dlq (letter m))"
    have p: "bq_pop mb = (?mb, Some m)" using Cons by (simp add: bq_pop_def)
    have d: "bq_items ?d = take (bq_cap dlq) (bq_items dlq @ [letter m])" by (rule bq_push_take[OF 1(2)])
    have "drain_dead letter mb dlq = drain_dead letter ?mb ?d"
      by (subst drain_dead.simps) (simp only: p prod.case option.case)
    then have r: "drain_dead letter ?mb ?d = (mb', dlq')" using 1(3) by simp
    have "length (bq_items ?d) \<le> bq_cap ?d" unfolding d by simp
    from 1(1)[OF p[symmetric] refl this r] have IH: "bq_items mb' = []" "bq_cap mb' = bq_cap mb" "bq_cap dlq' = bq_cap dlq"
      "bq_items dlq' = take (bq_cap dlq) (bq_items ?d @ map letter ms)" by simp_all
    have "bq_items dlq' = take (bq_cap dlq) (bq_items dlq @ map letter (bq_items mb))"
      unfolding IH(4) d take_take_append Cons by (simp only: list.map append_assoc append_Cons append_Nil)
    then show ?thesis using IH(1-3) by (intro conjI)
  qed
qed

definition report_letters :: "u64 \<Rightarrow> string \<Rightarrow> string \<Rightarrow> u64 \<Rightarrow> 'm \<Rightarrow> 'm bq \<Rightarrow> 'm sup \<Rightarrow> 'm bq \<times> 'm sup" where
  "report_letters i n reason now failed mb s =
     (let letter = dead_letter_of i n reason now;
          dlq1 = fst (bq_push (sv_dlq s) (letter failed));
          (mb', dlq2) = drain_dead letter mb dlq1
      in (mb', s\<lparr>sv_failures := sv_failures s + 1, sv_dlq := dlq2\<rparr>))"

lemma report_letters_ok:
  assumes "length (bq_items (sv_dlq s)) \<le> bq_cap (sv_dlq s)" and "report_letters i n reason now failed mb s = (mb', s')"
  shows "bq_items mb' = []" and "bq_cap mb' = bq_cap mb" and "bq_cap (sv_dlq s') = bq_cap (sv_dlq s)"
    and "bq_items (sv_dlq s') = take (bq_cap (sv_dlq s))
          (bq_items (sv_dlq s) @ map (dead_letter_of i n reason now) (failed # bq_items mb))"
    and "s' = s\<lparr>sv_failures := sv_failures s + 1, sv_dlq := sv_dlq s'\<rparr>"
proof -
  let ?l = "dead_letter_of i n reason now"
  let ?d = "fst (bq_push (sv_dlq s) (?l failed))"
  obtain d2 where r: "drain_dead ?l mb ?d = (mb', d2)" "s' = s\<lparr>sv_failures := sv_failures s + 1, sv_dlq := d2\<rparr>"
    using assms(2) by (auto simp: report_letters_def Let_def split: prod.splits)
  have d: "bq_items ?d = take (bq_cap (sv_dlq s)) (bq_items (sv_dlq s) @ [?l failed])" by (rule bq_push_take[OF assms(1)])
  have "length (bq_items ?d) \<le> bq_cap ?d" unfolding d by simp
  note D = drain_dead_ok[OF this r(1)]
  show "bq_items mb' = []" "bq_cap mb' = bq_cap mb" "bq_cap (sv_dlq s') = bq_cap (sv_dlq s)" using D r by simp_all
  show "s' = s\<lparr>sv_failures := sv_failures s + 1, sv_dlq := sv_dlq s'\<rparr>" using r by simp
  show "bq_items (sv_dlq s') = take (bq_cap (sv_dlq s)) (bq_items (sv_dlq s) @ map ?l (failed # bq_items mb))"
  proof -
    have "bq_items d2 = take (bq_cap (sv_dlq s)) (bq_items ?d @ map ?l (bq_items mb))" using D by simp
    also have "\<dots> = take (bq_cap (sv_dlq s)) (bq_items (sv_dlq s) @ map ?l (failed # bq_items mb))"
      unfolding d take_take_append by (simp only: list.map append_assoc append_Cons append_Nil)
    finally show ?thesis using r(2) by simp
  qed
qed

text \<open>
  The budget of the one-for-all strategy: whether a broadcast is still allowed for this actor, counted
  at once.
\<close>

definition one_for_all_budget :: "u64 \<Rightarrow> int \<Rightarrow> 'm sup \<Rightarrow> bool \<times> 'm sup" where
  "one_for_all_budget i limit s =
     (let n = (case sv_oneForAll s i of Some k \<Rightarrow> k | None \<Rightarrow> 0);
          allowed = n < limit
      in (allowed, s\<lparr>sv_oneForAll := (sv_oneForAll s)(i \<mapsto> (if allowed then n + 1 else n))\<rparr>))"

definition count_broadcast :: "int \<Rightarrow> 'm sup \<Rightarrow> 'm sup" where
  "count_broadcast restarted s =
     (let s1 = s\<lparr>sv_broadcasts := sv_broadcasts s + 1\<rparr>
      in if restarted > 0 then s1\<lparr>sv_restarts := sv_restarts s1 + nat restarted\<rparr> else s1)"

end
