(* ===== verification/Message_Model.thy ===== *)
theory Message_Model
  imports V2_Prelude "HOL-Library.Multiset"
begin

text \<open>
  The type-erased message of the actor system (\<open>src/src/core/actor_system/messages\<close>). A payload type is
  described by its \<open>kId\<close>, by whether it goes to the pool (too large, over-aligned or not nothrow
  movable) and by whether it is copyable; these are the facts the code reads off with type traits
  (\<open>opsFor\<close>). The pool is the map from the addresses of live payload objects to their values; the
  allocator is a parameter that proposes an address (\<open>None\<close>: no memory). An operation may end well
  (\<open>Done\<close>), with an exception (\<open>Threw\<close>) or in undefined behaviour (\<open>UB\<close>), such as destroying
  through a pointer that does not point to a live object.
\<close>

section \<open>Message ids\<close>

datatype message_id =
    NoMessage
  | SignalNotify
  | ActorEnableRequest | ActorDisableRequest | ActorRestartRequest
  | Tick
  | CmdRequest | CmdResponse
  | IpcNewConnection | IpcDataReceived
  | MonitorNewConnection | MonitorClientDisconnected | MonitorSubscribe | MonitorUnsubscribe
  | MonitorSnapshotUpdate
  | DbusRegisterMethod | DbusUnregisterMethod | DbusRegisterResult | DbusIncomingMethodCall
  | DbusMethodCallResult | DbusProxyCallRequest | DbusProxyCallResult | DbusSubscribeSignal | DbusSignalEvent
  | NmStatusRequest
  | WifiScanRequest | WifiScanResult | WifiConnectRequest | WifiConnectResult | WifiDisconnectRequest
  | WifiDisconnectResult | WifiStatusResult | WifiAutoReconnectRequest
  | PmuDataTick | PmuDataSubscribe | PmuDataUnsubscribe | PmuDataUpdate
  | SysDataTick | SysDataSubscribe | SysDataUnsubscribe | SysDataUpdate

definition all_message_ids :: "message_id list" where
  "all_message_ids =
     [NoMessage, SignalNotify, ActorEnableRequest, ActorDisableRequest, ActorRestartRequest, Tick, CmdRequest,
      CmdResponse, IpcNewConnection, IpcDataReceived, MonitorNewConnection, MonitorClientDisconnected,
      MonitorSubscribe, MonitorUnsubscribe, MonitorSnapshotUpdate, DbusRegisterMethod, DbusUnregisterMethod,
      DbusRegisterResult, DbusIncomingMethodCall, DbusMethodCallResult, DbusProxyCallRequest, DbusProxyCallResult,
      DbusSubscribeSignal, DbusSignalEvent, NmStatusRequest, WifiScanRequest, WifiScanResult, WifiConnectRequest,
      WifiConnectResult, WifiDisconnectRequest, WifiDisconnectResult, WifiStatusResult, WifiAutoReconnectRequest,
      PmuDataTick, PmuDataSubscribe, PmuDataUnsubscribe, PmuDataUpdate, SysDataTick, SysDataSubscribe,
      SysDataUnsubscribe, SysDataUpdate]"

fun position_of :: "'a \<Rightarrow> 'a list \<Rightarrow> nat" where
  "position_of x [] = 0"
| "position_of x (y # ys) = (if x = y then 0 else Suc (position_of x ys))"

definition message_id_value :: "message_id \<Rightarrow> u32" where
  "message_id_value m = of_nat (position_of m all_message_ids)"

lemma all_message_ids_complete: "m \<in> set all_message_ids"
  by (cases m) (simp_all add: all_message_ids_def)

lemma position_of_nth: "x \<in> set xs \<Longrightarrow> position_of x xs < length xs \<and> xs ! position_of x xs = x"
  by (induction xs) auto

lemma message_id_value_inj: "message_id_value a = message_id_value b \<longleftrightarrow> a = b"
proof
  assume eq: "message_id_value a = message_id_value b"
  have "length all_message_ids = 41" by (simp add: all_message_ids_def)
  then have "position_of a all_message_ids < 41" "position_of b all_message_ids < 41"
    using position_of_nth[OF all_message_ids_complete] by metis+
  moreover have "unat (of_nat k :: u32) = k" if "k < 41" for k
    using that by (simp add: unat_of_nat take_bit_nat_eq_self)
  ultimately have "position_of a all_message_ids = position_of b all_message_ids"
    using arg_cong[OF eq, of unat] unfolding message_id_value_def by simp
  then show "a = b" using position_of_nth[OF all_message_ids_complete] by metis
qed simp

instantiation message_id :: linorder
begin

definition less_eq_message_id :: "message_id \<Rightarrow> message_id \<Rightarrow> bool" where
  "less_eq_message_id a b \<longleftrightarrow> message_id_value a \<le> message_id_value b"

definition less_message_id :: "message_id \<Rightarrow> message_id \<Rightarrow> bool" where
  "less_message_id a b \<longleftrightarrow> message_id_value a < message_id_value b"

instance
  by standard (auto simp: less_eq_message_id_def less_message_id_def message_id_value_inj
      dest: antisym simp del: message_id_value_inj intro: iffD1[OF message_id_value_inj])

end

section \<open>Messages\<close>

record mkind =
  mk_id :: message_id
  mk_pool :: bool
  mk_copyable :: bool

datatype storage_mode = SmEmpty | SmInline | SmPool

record 'v message =
  ms_id :: message_id
  ms_mode :: storage_mode
  ms_ops :: "mkind option"
  ms_inline :: "'v option"
  ms_ptr :: "nat option"

type_synonym 'v heap = "nat \<rightharpoonup> 'v"

datatype 'a outcome = Done 'a | Threw | UB

definition empty_message :: "'v message" where
  "empty_message = \<lparr>ms_id = NoMessage, ms_mode = SmEmpty, ms_ops = None, ms_inline = None, ms_ptr = None\<rparr>"

definition msg_destroy :: "'v message \<Rightarrow> 'v heap \<Rightarrow> 'v heap outcome" where
  "msg_destroy m h =
     (if ms_mode m = SmEmpty \<or> ms_ops m = None then Done h
      else if ms_mode m = SmInline then (if ms_inline m = None then UB else Done h)
      else (case ms_ptr m of
              None \<Rightarrow> UB
            | Some p \<Rightarrow> (if h p = None then UB else Done (h(p := None)))))"

text \<open>
  An exception that leaves \<open>make\<close> destroys its local message on the way out.
\<close>

definition msg_unwind :: "'v message \<Rightarrow> 'v heap \<Rightarrow> ('v message \<times> 'v heap) outcome" where
  "msg_unwind msg h = (case msg_destroy msg h of UB \<Rightarrow> UB | _ \<Rightarrow> Threw)"

text \<open>
  \<open>make\<close> sets id, ops and mode first. Then the allocator may have no memory, and the payload's constructor,
  which moves or copies the argument, may throw: \<open>ctor\<close> is the value it constructs, \<open>None\<close> if it throws. In
  both cases the half-built message is destroyed, and it is already marked as holding a payload.
\<close>

definition msg_make :: "('v heap \<Rightarrow> nat option) \<Rightarrow> mkind \<Rightarrow> 'v option \<Rightarrow> 'v heap \<Rightarrow> ('v message \<times> 'v heap) outcome" where
  "msg_make alloc k ctor h =
     (if \<not> mk_pool k
      then
        let msg = \<lparr>ms_id = mk_id k, ms_mode = SmInline, ms_ops = Some k, ms_inline = None, ms_ptr = None\<rparr> in
        case ctor of
          None \<Rightarrow> msg_unwind msg h
        | Some v \<Rightarrow> Done (msg\<lparr>ms_inline := Some v\<rparr>, h)
      else
        let msg = \<lparr>ms_id = mk_id k, ms_mode = SmPool, ms_ops = Some k, ms_inline = None, ms_ptr = None\<rparr> in
        case alloc h of
          None \<Rightarrow> msg_unwind msg h
        | Some p \<Rightarrow>
            (case ctor of
               None \<Rightarrow> msg_unwind msg h
             | Some v \<Rightarrow> Done (msg\<lparr>ms_ptr := Some p\<rparr>, h(p \<mapsto> v))))"

text \<open>
  Move construction: the new message and what is left of the source. An inline payload is moved over
  and the source object destroyed; a pooled one changes hands by its pointer. (The mode and the ops of a
  message always agree, see \<open>msg_ok\<close>, so the ops are never called through null.)
\<close>

definition msg_move :: "'v message \<Rightarrow> 'v message \<times> 'v message" where
  "msg_move other =
     (\<lparr>ms_id = ms_id other, ms_mode = ms_mode other, ms_ops = ms_ops other,
       ms_inline = (if ms_mode other = SmInline then ms_inline other else None),
       ms_ptr = (if ms_mode other = SmPool then ms_ptr other else None)\<rparr>,
      other\<lparr>ms_id := NoMessage, ms_mode := SmEmpty, ms_ops := None,
        ms_inline := (if ms_mode other = SmInline then None else ms_inline other)\<rparr>)"

text \<open>Move assignment between different messages: target and source afterwards.\<close>

definition msg_assign :: "'v message \<Rightarrow> 'v message \<Rightarrow> 'v heap \<Rightarrow> ('v message \<times> 'v message \<times> 'v heap) outcome" where
  "msg_assign dst src h =
     (case msg_destroy dst h of
        Done h' \<Rightarrow> (case msg_move src of (d, s) \<Rightarrow> Done (d, s, h'))
      | Threw \<Rightarrow> Threw | UB \<Rightarrow> UB)"

text \<open>
  \<open>clone\<close> marks its result only after the payload is copied, so an exception destroys an empty message;
  \<open>copy\<close> is the payload's copy constructor, \<open>None\<close> if it throws. (The block a throwing copy was to go to
  is not given back to the allocator.)
\<close>

definition msg_clone :: "('v heap \<Rightarrow> nat option) \<Rightarrow> ('v \<Rightarrow> 'v option) \<Rightarrow> 'v message \<Rightarrow> 'v heap \<Rightarrow> ('v message \<times> 'v heap) outcome" where
  "msg_clone alloc copy m h =
     (case ms_mode m of
        SmEmpty \<Rightarrow> Done (empty_message, h)
      | SmInline \<Rightarrow>
          (case ms_ops m of None \<Rightarrow> UB
           | Some k \<Rightarrow>
              (if \<not> mk_copyable k then Done (empty_message, h)
               else case ms_inline m of None \<Rightarrow> UB
                 | Some v \<Rightarrow>
                    (case copy v of None \<Rightarrow> Threw
                     | Some w \<Rightarrow> Done (\<lparr>ms_id = ms_id m, ms_mode = SmInline, ms_ops = Some k, ms_inline = Some w, ms_ptr = None\<rparr>, h))))
      | SmPool \<Rightarrow>
          (case ms_ops m of None \<Rightarrow> UB
           | Some k \<Rightarrow>
              (if \<not> mk_copyable k then Done (empty_message, h)
               else case ms_ptr m of None \<Rightarrow> UB
                 | Some q \<Rightarrow>
                   (case h q of None \<Rightarrow> UB
                    | Some v \<Rightarrow>
                      (case alloc h of None \<Rightarrow> Threw
                       | Some p \<Rightarrow>
                          (case copy v of None \<Rightarrow> Threw
                           | Some w \<Rightarrow> Done (\<lparr>ms_id = ms_id m, ms_mode = SmPool, ms_ops = Some k, ms_inline = None, ms_ptr = Some p\<rparr>,
                                        h(p \<mapsto> w))))))))"

text \<open>What \<open>as<T>()\<close> reads, and the dispatch of \<open>visit\<close>: the first type of the tuple with the id.\<close>

definition msg_data :: "'v message \<Rightarrow> 'v heap \<Rightarrow> 'v option" where
  "msg_data m h = (case ms_mode m of SmInline \<Rightarrow> ms_inline m
     | SmPool \<Rightarrow> (case ms_ptr m of None \<Rightarrow> None | Some p \<Rightarrow> h p) | SmEmpty \<Rightarrow> None)"

definition msg_visit :: "message_id list \<Rightarrow> 'v message \<Rightarrow> message_id option" where
  "msg_visit tuple m = List.find (\<lambda>t. ms_id m = t) tuple"

section \<open>Programs over message variables\<close>

text \<open>
  The variables of a program that holds messages (mailbox slots, locals, members). The commands are
  the ways the code passes messages around.
\<close>

datatype 'v msg_cmd =
    MMake nat mkind "'v option"
  | MMove nat nat
  | MClone nat nat
  | MReset nat

definition exec_cmd :: "('v heap \<Rightarrow> nat option) \<Rightarrow> ('v \<Rightarrow> 'v option) \<Rightarrow> 'v msg_cmd \<Rightarrow> 'v message list \<times> 'v heap \<Rightarrow>
    ('v message list \<times> 'v heap) outcome" where
  "exec_cmd alloc copy c s =
     (case s of (vs, h) \<Rightarrow>
       (case c of
          MMake i k ctor \<Rightarrow>
            (case msg_make alloc k ctor h of
               Done (tmp, h1) \<Rightarrow>
                 (case msg_assign (vs ! i) tmp h1 of
                    Done (d, _, h2) \<Rightarrow> Done (vs[i := d], h2) | Threw \<Rightarrow> Threw | UB \<Rightarrow> UB)
             | Threw \<Rightarrow> Threw | UB \<Rightarrow> UB)
        | MMove i j \<Rightarrow>
            (if i = j then Done s
             else case msg_assign (vs ! i) (vs ! j) h of
                    Done (d, sr, h2) \<Rightarrow> Done (vs[i := d, j := sr], h2) | Threw \<Rightarrow> Threw | UB \<Rightarrow> UB)
        | MClone i j \<Rightarrow>
            (case msg_clone alloc copy (vs ! j) h of
               Done (tmp, h1) \<Rightarrow>
                 (case msg_assign (vs ! i) tmp h1 of
                    Done (d, _, h2) \<Rightarrow> Done (vs[i := d], h2) | Threw \<Rightarrow> Threw | UB \<Rightarrow> UB)
             | Threw \<Rightarrow> Threw | UB \<Rightarrow> UB)
        | MReset i \<Rightarrow>
            (case msg_assign (vs ! i) empty_message h of
               Done (d, _, h2) \<Rightarrow> Done (vs[i := d], h2) | Threw \<Rightarrow> Threw | UB \<Rightarrow> UB)))"

fun exec_cmds :: "('v heap \<Rightarrow> nat option) \<Rightarrow> ('v \<Rightarrow> 'v option) \<Rightarrow> 'v msg_cmd list \<Rightarrow> 'v message list \<times> 'v heap \<Rightarrow>
    ('v message list \<times> 'v heap) outcome" where
  "exec_cmds alloc copy [] s = Done s"
| "exec_cmds alloc copy (c # cs) s =
     (case exec_cmd alloc copy c s of Done s' \<Rightarrow> exec_cmds alloc copy cs s' | Threw \<Rightarrow> Threw | UB \<Rightarrow> UB)"

definition in_range :: "nat \<Rightarrow> 'v msg_cmd \<Rightarrow> bool" where
  "in_range n c = (case c of MMake i _ _ \<Rightarrow> i < n | MMove i j \<Rightarrow> i < n \<and> j < n | MClone i j \<Rightarrow> i < n \<and> j < n | MReset i \<Rightarrow> i < n)"

text \<open>The constructor of the payload of a message that is made does not throw.\<close>

definition constructs :: "'v msg_cmd \<Rightarrow> bool" where
  "constructs c \<longleftrightarrow> (case c of MMake _ _ ctor \<Rightarrow> ctor \<noteq> None | _ \<Rightarrow> True)"

section \<open>Ownership\<close>

definition msg_ptrs :: "'v message \<Rightarrow> nat list" where
  "msg_ptrs m = (if ms_mode m = SmPool then (case ms_ptr m of Some p \<Rightarrow> [p] | None \<Rightarrow> []) else [])"

definition msg_ok :: "'v message \<Rightarrow> bool" where
  "msg_ok m \<longleftrightarrow> (case ms_mode m of
      SmEmpty \<Rightarrow> True
    | SmInline \<Rightarrow> ms_inline m \<noteq> None \<and> (\<exists>k. ms_ops m = Some k \<and> \<not> mk_pool k \<and> mk_id k = ms_id m)
    | SmPool \<Rightarrow> ms_ptr m \<noteq> None \<and> (\<exists>k. ms_ops m = Some k \<and> mk_pool k \<and> mk_id k = ms_id m))"

definition owns :: "'v message list \<Rightarrow> 'v heap \<Rightarrow> bool" where
  "owns vs h \<longleftrightarrow> (\<forall>m \<in> set vs. msg_ok m) \<and> distinct (concat (map msg_ptrs vs)) \<and> set (concat (map msg_ptrs vs)) = dom h"

text \<open>An allocator with \<open>n\<close> blocks: while fewer objects are live it hands out an address that is free.\<close>

definition pool_of :: "nat \<Rightarrow> ('v heap \<Rightarrow> nat option) \<Rightarrow> bool" where
  "pool_of n alloc \<longleftrightarrow> (\<forall>h. finite (dom h) \<longrightarrow> card (dom h) < n \<longrightarrow> (\<exists>p. alloc h = Some p \<and> h p = None))"

text \<open>Each message owns at most one object, so the live objects are no more than the messages.\<close>

lemma owned_bound: "owns vs h \<Longrightarrow> finite (dom h) \<and> card (dom h) \<le> length vs"
proof -
  assume "owns vs h"
  then have d: "dom h = set (concat (map msg_ptrs vs))" by (simp add: owns_def)
  have "length (concat (map msg_ptrs vs)) \<le> length vs"
    by (induction vs) (auto simp: msg_ptrs_def split: option.split)
  then show ?thesis unfolding d using card_length[of "concat (map msg_ptrs vs)"] by simp
qed

lemma mset_ptrs_update:
  assumes "i < length vs"
  shows "mset (concat (map msg_ptrs (vs[i := m]))) + mset (msg_ptrs (vs ! i)) =
    mset (concat (map msg_ptrs vs)) + mset (msg_ptrs m)"
  using assms
proof (induction vs arbitrary: i)
  case Nil
  then show ?case by simp
next
  case (Cons v vs)
  then show ?case by (cases i) (simp_all add: union_assoc)
qed

text \<open>Ownership as multisets: every live object has exactly one owner.\<close>

definition mowns :: "nat multiset \<Rightarrow> 'v heap \<Rightarrow> bool" where
  "mowns M h \<longleftrightarrow> (\<forall>p. count M p = (if h p = None then 0 else 1))"

lemma owns_mowns: "owns vs h \<longleftrightarrow> (\<forall>m \<in> set vs. msg_ok m) \<and> mowns (mset (concat (map msg_ptrs vs))) h"
proof -
  have "distinct xs \<and> set xs = dom h \<longleftrightarrow> mowns (mset xs) h" for xs :: "nat list"
  proof
    assume d: "distinct xs \<and> set xs = dom h"
    have "count (mset xs) p = (if h p = None then 0 else 1)" for p
    proof -
      have "count (mset xs) p = (if p \<in> set xs then 1 else 0)" using d by (simp only: distinct_count_atmost_1)
      moreover have "p \<in> set xs \<longleftrightarrow> h p \<noteq> None" using d by (simp add: domIff)
      ultimately show ?thesis by simp
    qed
    then show "mowns (mset xs) h" by (simp add: mowns_def)
  next
    assume m: "mowns (mset xs) h"
    have iff: "p \<in> set xs \<longleftrightarrow> h p \<noteq> None" for p
    proof -
      have "p \<in> set xs \<longleftrightarrow> count (mset xs) p \<noteq> 0" by simp
      also have "\<dots> \<longleftrightarrow> h p \<noteq> None" using m by (simp add: mowns_def)
      finally show ?thesis .
    qed
    have one: "count (mset xs) p = (if p \<in> set xs then 1 else 0)" for p
    proof -
      have "count (mset xs) p = (if h p = None then 0 else 1)" using m by (simp only: mowns_def)
      then show ?thesis by (simp only: iff) simp
    qed
    have "distinct xs" unfolding distinct_count_atmost_1 by (intro allI one)
    moreover have "set xs = dom h" using iff by (auto simp: domIff)
    ultimately show "distinct xs \<and> set xs = dom h" by simp
  qed
  then show ?thesis by (simp only: owns_def)
qed

lemma destroy_owned:
  assumes "msg_ok m" and "mowns (M + mset (msg_ptrs m)) h"
  shows "\<exists>h'. msg_destroy m h = Done h' \<and> mowns M h' \<and> (\<forall>p. p \<in># M \<longrightarrow> h' p = h p)"
proof (cases "ms_mode m")
  case SmPool
  then obtain p k where p: "ms_ptr m = Some p" "ms_ops m = Some k" using assms(1) by (auto simp: msg_ok_def)
  have c: "count (M + {#p#}) q = (if h q = None then 0 else 1)" for q
    using assms(2) SmPool p by (simp add: mowns_def msg_ptrs_def)
  have hp: "h p \<noteq> None" "count M p = 0" using c[of p] by (auto split: if_splits)
  have "mowns M (h(p := None))" unfolding mowns_def
  proof
    fix q show "count M q = (if (h(p := None)) q = None then 0 else 1)"
      using c[of q] hp(2) by (cases "q = p") auto
  qed
  moreover have "(h(p := None)) q = h q" if "q \<in># M" for q
    using that hp(2) by (cases "q = p") (auto simp: count_eq_zero_iff)
  ultimately show ?thesis using SmPool p hp by (simp add: msg_destroy_def)
qed (use assms in \<open>auto simp: msg_destroy_def msg_ok_def msg_ptrs_def\<close>)

lemma move_ok:
  assumes "msg_ok m"
  shows "msg_ok (fst (msg_move m))" "msg_ok (snd (msg_move m))"
    "msg_ptrs (fst (msg_move m)) = msg_ptrs m" "msg_ptrs (snd (msg_move m)) = []"
    "msg_data (fst (msg_move m)) h = msg_data m h" "ms_id (fst (msg_move m)) = ms_id m"
    "ms_mode (snd (msg_move m)) = SmEmpty"
  using assms by (auto simp: msg_ok_def msg_move_def msg_ptrs_def msg_data_def split: storage_mode.splits)

lemma assign_owned:
  assumes vs: "i < length vs" and tmp: "msg_ok tmp" and ok: "\<forall>m \<in> set vs. msg_ok m"
    and M: "mowns (mset (concat (map msg_ptrs vs)) + mset (msg_ptrs tmp)) h"
  shows "\<exists>h'. msg_assign (vs ! i) tmp h = Done (fst (msg_move tmp), snd (msg_move tmp), h') \<and>
    owns (vs[i := fst (msg_move tmp)]) h'"
proof -
  let ?d = "fst (msg_move tmp)"
  have eq: "mset (concat (map msg_ptrs (vs[i := ?d]))) + mset (msg_ptrs (vs ! i)) =
      mset (concat (map msg_ptrs vs)) + mset (msg_ptrs tmp)"
    using mset_ptrs_update[OF vs, of ?d] move_ok(3)[OF tmp] by simp
  have "mowns (mset (concat (map msg_ptrs (vs[i := ?d]))) + mset (msg_ptrs (vs ! i))) h"
    unfolding eq by (rule M)
  from destroy_owned[OF _ this] obtain h' where
    h': "msg_destroy (vs ! i) h = Done h'" "mowns (mset (concat (map msg_ptrs (vs[i := ?d])))) h'"
    using ok vs by auto
  have "\<forall>m \<in> set (vs[i := ?d]). msg_ok m"
    using ok move_ok(1)[OF tmp] set_update_subset_insert[of vs i ?d] by blast
  then show ?thesis using h' by (cases "msg_move tmp") (simp add: msg_assign_def owns_mowns)
qed

lemma empty_message_ok [simp]: "msg_ok empty_message" "msg_ptrs empty_message = []"
  by (simp_all add: empty_message_def msg_ok_def msg_ptrs_def)

lemma alloc_owned: "mowns M h \<Longrightarrow> h p = None \<Longrightarrow> mowns (M + {#p#}) (h(p \<mapsto> v))"
  by (auto simp: mowns_def)

lemma exec_cmd_owned:
  assumes own: "owns vs h" and fr: "pool_of n alloc" and n: "length vs < n" and rg: "in_range (length vs) c"
    and ct: "constructs c"
  shows "(\<exists>vs' h'. exec_cmd alloc copy c (vs, h) = Done (vs', h') \<and> length vs' = length vs \<and> owns vs' h') \<or>
    (exec_cmd alloc copy c (vs, h) = Threw \<and> (\<exists>v. copy v = None))"
proof -
  have ok: "\<forall>m \<in> set vs. msg_ok m" and M: "mowns (mset (concat (map msg_ptrs vs))) h"
    using own by (simp_all add: owns_mowns)
  obtain p where p: "alloc h = Some p" "h p = None" using owned_bound[OF own] fr n by (auto simp: pool_of_def)
  show ?thesis
  proof (cases c)
    case (MMake i k ctor)
    have i: "i < length vs" using rg MMake by (simp add: in_range_def)
    obtain v where v: "ctor = Some v" using ct MMake by (auto simp: constructs_def)
    obtain tmp h1 where mk: "msg_make alloc k ctor h = Done (tmp, h1)" "msg_ok tmp"
      "mowns (mset (concat (map msg_ptrs vs)) + mset (msg_ptrs tmp)) h1"
      using p M alloc_owned[OF M p(2), of v]
      by (cases "mk_pool k") (simp_all add: msg_make_def msg_ok_def msg_ptrs_def Let_def v)
    show ?thesis using assign_owned[OF i mk(2) ok mk(3)] mk(1) MMake by (auto simp: exec_cmd_def)
  next
    case (MMove i j)
    have ij: "i < length vs" "j < length vs" using rg MMove by (simp_all add: in_range_def)
    show ?thesis
    proof (cases "i = j")
      case True
      then show ?thesis using MMove own by (simp add: exec_cmd_def)
    next
      case False
      let ?s = "snd (msg_move (vs ! j))" and ?vs = "vs[j := snd (msg_move (vs ! j))]"
      have okj: "msg_ok (vs ! j)" using ok ij by simp
      have eq: "mset (concat (map msg_ptrs ?vs)) + mset (msg_ptrs (vs ! j)) = mset (concat (map msg_ptrs vs))"
        using mset_ptrs_update[OF ij(2), of ?s] move_ok(4)[OF okj] by simp
      have ok': "\<forall>m \<in> set ?vs. msg_ok m"
        using ok move_ok(2)[OF okj] set_update_subset_insert[of vs j ?s] by blast
      have "mowns (mset (concat (map msg_ptrs ?vs)) + mset (msg_ptrs (vs ! j))) h" unfolding eq by (rule M)
      from assign_owned[OF _ okj ok' this, of i] obtain h' where
        h': "msg_assign (?vs ! i) (vs ! j) h = Done (fst (msg_move (vs ! j)), ?s, h')"
          "owns (?vs[i := fst (msg_move (vs ! j))]) h'"
        using ij by auto
      have "?vs ! i = vs ! i" using False by simp
      moreover have "vs[i := fst (msg_move (vs ! j)), j := ?s] = ?vs[i := fst (msg_move (vs ! j))]"
        using False by (simp add: list_update_swap)
      ultimately show ?thesis using h' MMove False by (simp add: exec_cmd_def)
    qed
  next
    case (MClone i j)
    have ij: "i < length vs" "j < length vs" using rg MClone by (simp_all add: in_range_def)
    have okj: "msg_ok (vs ! j)" using ok ij by simp
    have live: "h q \<noteq> None" if "ms_mode (vs ! j) = SmPool" "ms_ptr (vs ! j) = Some q" for q
    proof -
      have "q \<in> set (concat (map msg_ptrs vs))" using that ij by (force simp: msg_ptrs_def)
      then show ?thesis using own by (auto simp: owns_def)
    qed
    have "(\<exists>tmp h1. msg_clone alloc copy (vs ! j) h = Done (tmp, h1) \<and> msg_ok tmp \<and>
        mowns (mset (concat (map msg_ptrs vs)) + mset (msg_ptrs tmp)) h1) \<or>
        (msg_clone alloc copy (vs ! j) h = Threw \<and> (\<exists>v. copy v = None))"
    proof (cases "ms_mode (vs ! j)")
      case SmEmpty
      then show ?thesis using M by (simp add: msg_clone_def)
    next
      case SmInline
      then obtain k v where "ms_ops (vs ! j) = Some k" "ms_inline (vs ! j) = Some v" "\<not> mk_pool k" "mk_id k = ms_id (vs ! j)"
        using okj by (auto simp: msg_ok_def)
      then show ?thesis using SmInline M
        by (cases "mk_copyable k"; cases "copy v") (auto simp: msg_clone_def msg_ok_def msg_ptrs_def empty_message_def)
    next
      case SmPool
      then obtain k q where k: "ms_ops (vs ! j) = Some k" "ms_ptr (vs ! j) = Some q" "mk_pool k" "mk_id k = ms_id (vs ! j)"
        using okj by (auto simp: msg_ok_def)
      obtain v where "h q = Some v" using live[OF SmPool k(2)] by auto
      then show ?thesis using SmPool k M p alloc_owned[OF M p(2)]
        by (cases "mk_copyable k"; cases "copy v") (auto simp: msg_clone_def msg_ok_def msg_ptrs_def empty_message_def)
    qed
    then show ?thesis
    proof (elim disjE exE conjE)
      fix tmp h1 assume t: "msg_clone alloc copy (vs ! j) h = Done (tmp, h1)" "msg_ok tmp"
        "mowns (mset (concat (map msg_ptrs vs)) + mset (msg_ptrs tmp)) h1"
      show ?thesis using assign_owned[OF ij(1) t(2) ok t(3)] t(1) MClone by (auto simp: exec_cmd_def)
    qed (auto simp: exec_cmd_def MClone)
  next
    case (MReset i)
    have i: "i < length vs" using rg MReset by (simp add: in_range_def)
    have "mowns (mset (concat (map msg_ptrs vs)) + mset (msg_ptrs (empty_message :: 'a message))) h" using M by simp
    from assign_owned[OF i empty_message_ok(1) ok this] MReset show ?thesis by (auto simp: exec_cmd_def)
  qed
qed


definition lowest_free :: "nat \<Rightarrow> 'v heap \<Rightarrow> nat option" where
  "lowest_free n h = List.find (\<lambda>p. h p = None) [0..<n]"

lemma lowest_free_pool: "pool_of n (lowest_free n)"
  unfolding pool_of_def
proof (intro allI impI)
  fix h :: "'v heap"
  assume f: "finite (dom h)" and c: "card (dom h) < n"
  have "\<exists>p \<in> set [0..<n]. h p = None"
  proof (rule ccontr)
    assume "\<not> ?thesis"
    then have "set [0..<n] \<subseteq> dom h" by (auto simp: domIff)
    from card_mono[OF f this] c show False by simp
  qed
  then have "lowest_free n h \<noteq> None" unfolding lowest_free_def by (auto simp: find_None_iff)
  then obtain p where "lowest_free n h = Some p" by auto
  then show "\<exists>p. lowest_free n h = Some p \<and> h p = None"
    unfolding lowest_free_def by (auto simp: find_Some_iff)
qed


text \<open>
  \<open>make\<close> is not safe against an exhausted pool: for a payload that goes to the pool the message is
  already marked as pooled when the allocator fails, so destroying it while the exception leaves the
  function frees a pointer that was never set. Nor is it safe against a payload whose constructor throws, for
  an lvalue argument its copy constructor: the message is marked before there is a payload, and the destructor
  of the payload runs on memory that holds none.
\<close>

theorem make_without_memory_is_undefined:
  "mk_pool k \<Longrightarrow> alloc h = None \<Longrightarrow> msg_make alloc k ctor h = UB"
  by (simp add: msg_make_def msg_unwind_def msg_destroy_def Let_def)

theorem make_without_memory_is_undefined_witness:
  "msg_make (\<lambda>_. None) \<lparr>mk_id = CmdResponse, mk_pool = True, mk_copyable = True\<rparr> (Some (7 :: nat)) Map.empty = UB"
  by (rule make_without_memory_is_undefined) simp_all

theorem make_with_throwing_payload_is_undefined: "msg_make alloc k None h = UB"
  by (simp add: msg_make_def msg_unwind_def msg_destroy_def Let_def split: option.split)

end
