(* ===== verification/Actor_Runtime.thy ===== *)
theory Actor_Runtime
  imports Supervisor_Policy Message_Model Actor_Base "HOL-Library.Sublist"
begin

text \<open>
  The runtime of one actor (\<open>src/src/core/actor_system/runtime/actor_runtime\<close>) with its supervisor: a batch of
  messages is popped and handled, lifecycle messages are consumed by the runtime itself, an exception
  goes to the supervisor, which may restart the actor, and a restart that fails goes to the supervisor
  again. The actor is user code: \<open>open\<close>, \<open>close\<close> and \<open>handle\<close> are parameters, each of which may change the
  actor, send it messages, and throw. This is what the owner of the actor's token does; that nobody else
  runs the actor meanwhile is the subject of \<open>Token_Protocol\<close>.
\<close>

section \<open>Actors and worlds\<close>

record 'u actor =
  at_state :: actor_state
  at_essential :: bool
  at_user :: 'u

record 'd amsg =
  am_id :: message_id
  am_reason :: string
  am_data :: "'d option"

definition no_message :: "'d amsg" where
  "no_message = \<lparr>am_id = NoMessage, am_reason = '''', am_data = None\<rparr>"

datatype call_exn = StdExn string | UnknownExn

text \<open>A call of user code: whether it threw, the actor afterwards, the messages it sent to itself.\<close>

type_synonym ('u, 'd) user_call = "call_exn option \<times> 'u actor \<times> 'd amsg list"

text \<open>
  \<open>cd_restartAll\<close> is the supervisor's broadcast callback, if set: whether it throws, how many restarts it
  requested, and what it put into this actor's mailbox.
\<close>

record ('u, 'd) actor_code =
  cd_open :: "'u actor \<Rightarrow> ('u, 'd) user_call"
  cd_close :: "'u actor \<Rightarrow> ('u, 'd) user_call"
  cd_handle :: "'d amsg \<Rightarrow> 'u actor \<Rightarrow> ('u, 'd) user_call"
  cd_restartAll :: "(bool \<times> int \<times> 'd amsg list) option"

record ('u, 'd) runtime =
  rt_id :: u64
  rt_name :: string
  rt_actor :: "'u actor"
  rt_mailbox :: "'d amsg bq"
  rt_restarts :: int
  rt_stopped :: bool

record ('u, 'd) world =
  wd_rt :: "('u, 'd) runtime"
  wd_sup :: "'d amsg sup option"

definition rt_push :: "'d amsg \<Rightarrow> ('u, 'd) runtime \<Rightarrow> ('u, 'd) runtime" where
  "rt_push m r = r\<lparr>rt_mailbox := fst (bq_push (rt_mailbox r) m)\<rparr>"

definition call_user :: "('u actor \<Rightarrow> ('u, 'd) user_call) \<Rightarrow> ('u, 'd) world \<Rightarrow> call_exn option \<times> ('u, 'd) world" where
  "call_user f w =
     (case f (rt_actor (wd_rt w)) of
        (e, a, sends) \<Rightarrow> (e, w\<lparr>wd_rt := fold rt_push sends ((wd_rt w)\<lparr>rt_actor := a\<rparr>)\<rparr>))"

section \<open>Failure handling\<close>

definition set_sup :: "('d amsg sup \<Rightarrow> 'd amsg sup) \<Rightarrow> ('u, 'd) world \<Rightarrow> ('u, 'd) world" where
  "set_sup f w = w\<lparr>wd_sup := map_option f (wd_sup w)\<rparr>"

text \<open>Counter, failed message and mailbox to the dead-letter queue.\<close>

definition report_failure :: "u64 \<Rightarrow> 'd amsg \<Rightarrow> string \<Rightarrow> ('u, 'd) world \<Rightarrow> ('u, 'd) world" where
  "report_failure now failed reason w =
     (case wd_sup w of None \<Rightarrow> w
      | Some s \<Rightarrow> (case report_letters (rt_id (wd_rt w)) (rt_name (wd_rt w)) reason now failed (rt_mailbox (wd_rt w)) s of
           (mb, s') \<Rightarrow> w\<lparr>wd_rt := (wd_rt w)\<lparr>rt_mailbox := mb\<rparr>, wd_sup := Some s'\<rparr>))"

definition rt_shutdown :: "('u, 'd) actor_code \<Rightarrow> ('u, 'd) world \<Rightarrow> call_exn option \<times> ('u, 'd) world" where
  "rt_shutdown E w = call_user (cd_close E) (w\<lparr>wd_rt := (wd_rt w)\<lparr>rt_stopped := True\<rparr>\<rparr>)"

definition restart_everyone :: "('u, 'd) actor_code \<Rightarrow> ('u, 'd) world \<Rightarrow> call_exn option \<times> ('u, 'd) world" where
  "restart_everyone E w =
     (case wd_sup w of None \<Rightarrow> (None, w)
      | Some s \<Rightarrow>
          (case one_for_all_budget (rt_id (wd_rt w)) (sv_maxRestarts s) s of
             (allowed, s1) \<Rightarrow>
               (let w1 = w\<lparr>wd_sup := Some s1\<rparr> in
                if \<not> allowed then rt_shutdown E w1
                else
                  (case cd_restartAll E of
                     None \<Rightarrow> (None, set_sup (count_broadcast 0) w1)
                   | Some (throws, n, posted) \<Rightarrow>
                       (None, set_sup (count_broadcast (if throws then 0 else n))
                          (w1\<lparr>wd_rt := fold rt_push posted (wd_rt w1)\<rparr>))))))"

definition restart_budget :: "('u, 'd) world \<Rightarrow> nat" where
  "restart_budget w = (case wd_sup w of None \<Rightarrow> 0 | Some s \<Rightarrow> nat (sv_maxRestarts s - rt_restarts (wd_rt w)))"

lemma rt_push_fields [simp]:
  "rt_restarts (fold rt_push ms r) = rt_restarts r" "rt_id (fold rt_push ms r) = rt_id r" "rt_name (fold rt_push ms r) = rt_name r"
  "rt_stopped (fold rt_push ms r) = rt_stopped r" "rt_actor (fold rt_push ms r) = rt_actor r"
  by (induction ms arbitrary: r) (simp_all add: rt_push_def)

lemma call_user_fields:
  assumes "call_user f w = (e, w')"
  shows "wd_sup w' = wd_sup w" "rt_restarts (wd_rt w') = rt_restarts (wd_rt w)" "rt_id (wd_rt w') = rt_id (wd_rt w)"
    "rt_name (wd_rt w') = rt_name (wd_rt w)" "rt_stopped (wd_rt w') = rt_stopped (wd_rt w)"
    "rt_actor (wd_rt w') = fst (snd (f (rt_actor (wd_rt w))))" "e = fst (f (rt_actor (wd_rt w)))"
  using assms by (auto simp: call_user_def split: prod.splits)

lemma report_failure_fields:
  "rt_restarts (wd_rt (report_failure now m r w)) = rt_restarts (wd_rt w)"
  "rt_id (wd_rt (report_failure now m r w)) = rt_id (wd_rt w)"
  "rt_name (wd_rt (report_failure now m r w)) = rt_name (wd_rt w)"
  "rt_stopped (wd_rt (report_failure now m r w)) = rt_stopped (wd_rt w)"
  "rt_actor (wd_rt (report_failure now m r w)) = rt_actor (wd_rt w)"
  by (auto simp: report_failure_def split: option.splits prod.splits)

lemma report_failure_sup:
  "wd_sup w = Some s \<Longrightarrow> \<exists>s'. wd_sup (report_failure now m r w) = Some s' \<and> sv_maxRestarts s' = sv_maxRestarts s \<and>
     sv_failures s' = sv_failures s + 1 \<and> sv_restarts s' = sv_restarts s \<and> sv_perActor s' = sv_perActor s \<and>
     sv_default s' = sv_default s"
  by (auto simp: report_failure_def report_letters_def Let_def split: prod.splits)

lemma budget_call:
  assumes "(e, w') = call_user f w"
  shows "restart_budget w' = restart_budget w"
  unfolding restart_budget_def call_user_fields(1,2)[OF assms[symmetric]] ..

lemma budget_report: "restart_budget (report_failure now m r w) = restart_budget w"
  using report_failure_sup[of w _ now m r]
  by (cases "wd_sup w") (auto simp: restart_budget_def report_failure_fields, simp add: report_failure_def)

definition restart_measure ::
  "(('u, 'd) actor_code \<times> u64 \<times> 'd amsg \<times> string \<times> ('u, 'd) world) +
   (('u, 'd) actor_code \<times> u64 \<times> string \<times> int \<times> ('u, 'd) world) + (('u, 'd) actor_code \<times> u64 \<times> ('u, 'd) world) \<Rightarrow> nat" where
  "restart_measure x = (case x of
      Inl (_, _, _, _, w) \<Rightarrow> 3 * restart_budget w + 1
    | Inr (Inl (_, _, _, maxRestarts, w)) \<Rightarrow>
        (if rt_restarts (wd_rt w) \<ge> maxRestarts then 0
         else 3 * restart_budget (w\<lparr>wd_rt := (wd_rt w)\<lparr>rt_restarts := rt_restarts (wd_rt w) + 1\<rparr>\<rparr>) + 3)
    | Inr (Inr (_, _, w)) \<Rightarrow> 3 * restart_budget w + 2)"

text \<open>
  \<open>onActorFailed\<close>, \<open>tryRestart\<close> and \<open>performRestart\<close> call each other. Every round trip costs one restart of
  the budget, which is why they come to an end.
\<close>

function on_actor_failed :: "('u, 'd) actor_code \<Rightarrow> u64 \<Rightarrow> 'd amsg \<Rightarrow> string \<Rightarrow> ('u, 'd) world \<Rightarrow> call_exn option \<times> ('u, 'd) world"
  and try_restart :: "('u, 'd) actor_code \<Rightarrow> u64 \<Rightarrow> string \<Rightarrow> int \<Rightarrow> ('u, 'd) world \<Rightarrow> call_exn option \<times> bool \<times> ('u, 'd) world"
  and perform_restart :: "('u, 'd) actor_code \<Rightarrow> u64 \<Rightarrow> ('u, 'd) world \<Rightarrow> call_exn option \<times> ('u, 'd) world"
where
  "on_actor_failed E now failed reason w =
     (case wd_sup w of None \<Rightarrow> (None, w)
      | Some s \<Rightarrow>
          (let w1 = report_failure now failed reason w in
           case policy_of s (rt_id (wd_rt w)) of
             OneForOne \<Rightarrow>
               (case try_restart E now reason (sv_maxRestarts s) w1 of
                  (Some e, b, w2) \<Rightarrow> (Some e, w2)
                | (None, b, w2) \<Rightarrow>
                    (if b then (None, set_sup (\<lambda>s. s\<lparr>sv_restarts := sv_restarts s + 1\<rparr>) w2) else rt_shutdown E w2))
           | OneForAll \<Rightarrow> restart_everyone E w1
           | NoRestart \<Rightarrow> rt_shutdown E w1
           | Unlisted n \<Rightarrow> (None, w1)))"
| "try_restart E now reason maxRestarts w =
     (if rt_restarts (wd_rt w) \<ge> maxRestarts
      then (None, False, w)
      else (case perform_restart E now (w\<lparr>wd_rt := (wd_rt w)\<lparr>rt_restarts := rt_restarts (wd_rt w) + 1\<rparr>\<rparr>) of
              (e, w1) \<Rightarrow> (e, True, w1)))"
| "perform_restart E now w =
     (case call_user (cd_close E) w of
        (_, w1) \<Rightarrow>
          (if at_state (rt_actor (wd_rt w1)) \<noteq> Closed then (None, w1)
           else
             (case call_user (cd_open E) w1 of
                (None, w2) \<Rightarrow> (None, w2)
              | (Some (StdExn e), w2) \<Rightarrow> on_actor_failed E now no_message (''open() failed: '' @ e) w2
              | (Some UnknownExn, w2) \<Rightarrow> on_actor_failed E now no_message ''open() failed with unknown exception'' w2)))"
  by pat_completeness auto

termination
proof (relation "measure restart_measure", goal_cases)
  case (2 E now failed reason w s w1)
  obtain s' where s': "wd_sup w1 = Some s'" "sv_maxRestarts s' = sv_maxRestarts s"
    using report_failure_sup[of w s now failed reason] 2 by auto
  show ?case
  proof (cases "rt_restarts (wd_rt w1) \<ge> sv_maxRestarts s")
    case True
    then show ?thesis by (simp add: restart_measure_def)
  next
    case False
    then show ?thesis using 2 s' budget_report[of now failed reason w] report_failure_fields(1)[of now failed reason w]
      by (simp add: restart_measure_def restart_budget_def nat_diff_distrib)
  qed
qed (auto simp: restart_measure_def dest!: budget_call)

declare on_actor_failed.simps [simp del] try_restart.simps [simp del] perform_restart.simps [simp del]

section \<open>Messages and batches\<close>

definition consume_lifecycle :: "('u, 'd) actor_code \<Rightarrow> u64 \<Rightarrow> 'd amsg \<Rightarrow> ('u, 'd) world \<Rightarrow> bool \<times> call_exn option \<times> ('u, 'd) world" where
  "consume_lifecycle E now m w =
     (let a = rt_actor (wd_rt w) in
      if am_id m = ActorEnableRequest then
        (True, if at_state a = Closed then call_user (cd_open E) w else (None, w))
      else if am_id m = ActorDisableRequest then
        (True, if at_state a = Opened \<and> \<not> at_essential a then call_user (cd_close E) w else (None, w))
      else if am_id m = ActorRestartRequest then
        (True, if at_state a = Opened then perform_restart E now w else (None, w))
      else (False, None, w))"

definition handle_message :: "('u, 'd) actor_code \<Rightarrow> u64 \<Rightarrow> 'd amsg \<Rightarrow> ('u, 'd) world \<Rightarrow> call_exn option \<times> ('u, 'd) world" where
  "handle_message E now m w =
     (case consume_lifecycle E now m w of
        (True, e, w') \<Rightarrow> (e, w')
      | (False, e, w') \<Rightarrow> call_user (cd_handle E m) w')"

definition exn_what :: "call_exn \<Rightarrow> string" where
  "exn_what e = (case e of StdExn s \<Rightarrow> s | UnknownExn \<Rightarrow> ''unknown exception'')"

text \<open>
  The loop of \<open>processBatch\<close>. It may not end when \<open>maxBatch\<close> is negative and the actor keeps sending
  itself messages: \<open>None\<close>. The result is the number processed, the exception that left the supervisor (if
  any), and the world.
\<close>

partial_function (option) batch_loop ::
  "('u, 'd) actor_code \<Rightarrow> u64 \<Rightarrow> int \<Rightarrow> int \<Rightarrow> ('u, 'd) world \<Rightarrow> (int \<times> call_exn option \<times> ('u, 'd) world) option" where
  "batch_loop E now maxBatch processed w =
     (if maxBatch < 0 \<or> processed < maxBatch then
        (case bq_pop (rt_mailbox (wd_rt w)) of
           (q, None) \<Rightarrow> Some (processed, None, w)
         | (q, Some m) \<Rightarrow>
             (case handle_message E now m (w\<lparr>wd_rt := (wd_rt w)\<lparr>rt_mailbox := q\<rparr>\<rparr>) of
                (None, w1) \<Rightarrow> batch_loop E now maxBatch (processed + 1) w1
              | (Some e, w1) \<Rightarrow>
                  (case on_actor_failed E now m (exn_what e) w1 of (x, w2) \<Rightarrow> Some (processed, x, w2))))
      else Some (processed, None, w))"

definition process_batch :: "('u, 'd) actor_code \<Rightarrow> u64 \<Rightarrow> int \<Rightarrow> ('u, 'd) world \<Rightarrow> (int \<times> bool \<times> call_exn option \<times> ('u, 'd) world) option" where
  "process_batch E now maxBatch w =
     (if rt_stopped (wd_rt w) then Some (0, False, None, w)
      else
        (case batch_loop E now maxBatch 0 w of
           None \<Rightarrow> None
         | Some (n, x, w') \<Rightarrow> Some (n, \<not> bq_empty (rt_mailbox (wd_rt w')), x, w')))"

section \<open>What a failure leaves behind\<close>

text \<open>
  The relation between the world before a failure is handled and after: policies stay, restarts go up to
  the limit at most, a stopped actor stays stopped, the dead-letter queue only grows at its end.
\<close>

definition dlq_grows :: "'m bq \<Rightarrow> 'm list \<Rightarrow> 'm bq \<Rightarrow> bool" where
  "dlq_grows q xs q' \<longleftrightarrow> bq_cap q' = bq_cap q \<and> (\<exists>more. bq_items q' = take (bq_cap q) (bq_items q @ xs @ more))"

definition after_failure :: "'d amsg dead_letter list \<Rightarrow> ('u, 'd) world \<Rightarrow> ('u, 'd) world \<Rightarrow> bool" where
  "after_failure letters w w' \<longleftrightarrow>
     rt_id (wd_rt w') = rt_id (wd_rt w) \<and> rt_name (wd_rt w') = rt_name (wd_rt w) \<and>
     rt_restarts (wd_rt w) \<le> rt_restarts (wd_rt w') \<and> (rt_stopped (wd_rt w) \<longrightarrow> rt_stopped (wd_rt w')) \<and>
     (wd_sup w = None \<longrightarrow> wd_sup w' = None) \<and>
     (\<forall>s. wd_sup w = Some s \<longrightarrow> (\<exists>s'. wd_sup w' = Some s' \<and> sv_maxRestarts s' = sv_maxRestarts s \<and>
        sv_default s' = sv_default s \<and> sv_perActor s' = sv_perActor s \<and>
        rt_restarts (wd_rt w') \<le> max (rt_restarts (wd_rt w)) (sv_maxRestarts s) \<and>
        dlq_grows (sv_dlq s) letters (sv_dlq s')))"

definition dlq_bounded :: "('u, 'd) world \<Rightarrow> bool" where
  "dlq_bounded w \<longleftrightarrow> (\<forall>s. wd_sup w = Some s \<longrightarrow> length (bq_items (sv_dlq s)) \<le> bq_cap (sv_dlq s))"

lemma dlq_grows_refl: "length (bq_items q) \<le> bq_cap q \<Longrightarrow> dlq_grows q [] q"
  unfolding dlq_grows_def by (intro conjI exI[of _ "[]"]) simp_all

lemma dlq_grows_trans:
  assumes "dlq_grows q xs q'" and "dlq_grows q' ys q''"
  shows "dlq_grows q xs q''"
proof -
  obtain m where m: "bq_items q' = take (bq_cap q) (bq_items q @ xs @ m)" "bq_cap q' = bq_cap q"
    using assms(1) by (auto simp: dlq_grows_def)
  obtain n where n: "bq_items q'' = take (bq_cap q) (bq_items q' @ ys @ n)" "bq_cap q'' = bq_cap q"
    using assms(2) m(2) by (auto simp: dlq_grows_def)
  have "bq_items q'' = take (bq_cap q) (bq_items q @ xs @ m @ ys @ n)"
    unfolding n(1) m(1) take_take_append by (simp only: append_assoc)
  then show ?thesis using n(2) unfolding dlq_grows_def by blast
qed

lemma dlq_grows_bound: "dlq_grows q xs q' \<Longrightarrow> length (bq_items q') \<le> bq_cap q'"
  by (auto simp: dlq_grows_def)

lemma after_failure_trans:
  assumes "after_failure ls w w1" and "after_failure ls' w1 w2"
  shows "after_failure ls w w2"
  unfolding after_failure_def
proof (intro conjI allI impI)
  fix s assume s: "wd_sup w = Some s"
  obtain s1 where s1: "wd_sup w1 = Some s1" "sv_maxRestarts s1 = sv_maxRestarts s" "sv_default s1 = sv_default s"
    "sv_perActor s1 = sv_perActor s" "rt_restarts (wd_rt w1) \<le> max (rt_restarts (wd_rt w)) (sv_maxRestarts s)"
    "dlq_grows (sv_dlq s) ls (sv_dlq s1)"
    using assms(1) s unfolding after_failure_def by blast
  obtain s2 where s2: "wd_sup w2 = Some s2" "sv_maxRestarts s2 = sv_maxRestarts s1" "sv_default s2 = sv_default s1"
    "sv_perActor s2 = sv_perActor s1" "rt_restarts (wd_rt w2) \<le> max (rt_restarts (wd_rt w1)) (sv_maxRestarts s1)"
    "dlq_grows (sv_dlq s1) ls' (sv_dlq s2)"
    using assms(2) s1(1) unfolding after_failure_def by blast
  show "\<exists>s'. wd_sup w2 = Some s' \<and> sv_maxRestarts s' = sv_maxRestarts s \<and> sv_default s' = sv_default s \<and>
      sv_perActor s' = sv_perActor s \<and> rt_restarts (wd_rt w2) \<le> max (rt_restarts (wd_rt w)) (sv_maxRestarts s) \<and>
      dlq_grows (sv_dlq s) ls (sv_dlq s')"
    using s1 s2 dlq_grows_trans[OF s1(6) s2(6)] by (intro exI[of _ s2] conjI) simp_all
qed (use assms in \<open>auto simp: after_failure_def\<close>)

lemma dlq_grows_weaken: "dlq_grows q xs q' \<Longrightarrow> dlq_grows q [] q'"
  unfolding dlq_grows_def append_Nil by blast

lemma after_failure_weaken: "after_failure ls w w' \<Longrightarrow> after_failure [] w w'"
  unfolding after_failure_def using dlq_grows_weaken by blast

lemma after_failure_bounded: "after_failure ls w w' \<Longrightarrow> dlq_bounded w \<Longrightarrow> dlq_bounded w'"
  unfolding dlq_bounded_def after_failure_def using dlq_grows_bound by (cases "wd_sup w") fastforce+

lemma after_call:
  assumes "call_user f w = (e, w')" and "dlq_bounded w"
  shows "after_failure [] w w'"
  using call_user_fields[OF assms(1)] assms(2) dlq_grows_refl by (auto simp: after_failure_def dlq_bounded_def)

lemma after_sup:
  assumes "dlq_bounded w"
    and "\<And>s. sv_maxRestarts (f s) = sv_maxRestarts s \<and> sv_default (f s) = sv_default s \<and> sv_perActor (f s) = sv_perActor s \<and>
      sv_dlq (f s) = sv_dlq s"
  shows "after_failure [] w (set_sup f w)"
  using assms dlq_grows_refl by (auto simp: after_failure_def set_sup_def dlq_bounded_def)

lemma after_shutdown:
  assumes "rt_shutdown E w = (e, w')" and "dlq_bounded w"
  shows "after_failure [] w w'" and "rt_stopped (wd_rt w')"
proof -
  let ?w = "w\<lparr>wd_rt := (wd_rt w)\<lparr>rt_stopped := True\<rparr>\<rparr>"
  have c: "call_user (cd_close E) ?w = (e, w')" using assms(1) by (simp add: rt_shutdown_def)
  have b: "dlq_bounded ?w" using assms(2) by (simp add: dlq_bounded_def)
  have "after_failure [] w ?w" using assms(2) dlq_grows_refl by (auto simp: after_failure_def dlq_bounded_def)
  then show "after_failure [] w w'" using after_call[OF c b] by (rule after_failure_trans)
  show "rt_stopped (wd_rt w')" using call_user_fields(5)[OF c] by simp
qed

lemma after_report:
  assumes "dlq_bounded w"
  shows "after_failure (map (dead_letter_of (rt_id (wd_rt w)) (rt_name (wd_rt w)) reason now)
    (failed # bq_items (rt_mailbox (wd_rt w)))) w (report_failure now failed reason w)"
proof (cases "wd_sup w")
  case None
  then show ?thesis by (simp add: after_failure_def report_failure_def)
next
  case (Some s)
  obtain mb s' where r: "report_letters (rt_id (wd_rt w)) (rt_name (wd_rt w)) reason now failed (rt_mailbox (wd_rt w)) s = (mb, s')"
    by (cases "report_letters (rt_id (wd_rt w)) (rt_name (wd_rt w)) reason now failed (rt_mailbox (wd_rt w)) s")
  have b: "length (bq_items (sv_dlq s)) \<le> bq_cap (sv_dlq s)" using assms Some by (simp add: dlq_bounded_def)
  note R = report_letters_ok[OF b r]
  have "dlq_grows (sv_dlq s) (map (dead_letter_of (rt_id (wd_rt w)) (rt_name (wd_rt w)) reason now)
    (failed # bq_items (rt_mailbox (wd_rt w)))) (sv_dlq s')"
    unfolding dlq_grows_def R(4) using R(3) by (intro conjI exI[of _ "[]"]) simp_all
  moreover have "sv_maxRestarts s' = sv_maxRestarts s" "sv_default s' = sv_default s" "sv_perActor s' = sv_perActor s"
    by (subst R(5), simp)+
  ultimately show ?thesis using Some r by (simp add: after_failure_def report_failure_def)
qed

lemma after_everyone:
  assumes "restart_everyone E w = (e, w')" and "dlq_bounded w"
  shows "after_failure [] w w'"
proof (cases "wd_sup w")
  case None
  then show ?thesis using assms by (auto simp: restart_everyone_def after_failure_def)
next
  case (Some s)
  obtain al s1 where b: "one_for_all_budget (rt_id (wd_rt w)) (sv_maxRestarts s) s = (al, s1)"
    by (cases "one_for_all_budget (rt_id (wd_rt w)) (sv_maxRestarts s) s")
  have s1: "sv_maxRestarts s1 = sv_maxRestarts s" "sv_default s1 = sv_default s" "sv_perActor s1 = sv_perActor s"
    "sv_dlq s1 = sv_dlq s" using b by (auto simp: one_for_all_budget_def Let_def)
  let ?w1 = "w\<lparr>wd_sup := Some s1\<rparr>"
  have a1: "after_failure [] w ?w1" using Some s1 assms(2) dlq_grows_refl by (auto simp: after_failure_def dlq_bounded_def)
  have b1: "dlq_bounded ?w1" by (rule after_failure_bounded[OF a1 assms(2)])
  show ?thesis
  proof (cases al)
    case False
    then have "rt_shutdown E ?w1 = (e, w')" using assms(1) Some b by (simp add: restart_everyone_def)
    then show ?thesis using after_failure_trans[OF a1] after_shutdown(1)[OF _ b1] by blast
  next
    case True
    obtain ms k where w': "w' = set_sup (count_broadcast k) (?w1\<lparr>wd_rt := fold rt_push ms (wd_rt ?w1)\<rparr>)"
    proof (cases "cd_restartAll E")
      case None
      then show ?thesis using that[of 0 "[]"] assms(1) Some b True by (simp add: restart_everyone_def)
    next
      case (Some p)
      then show ?thesis using that assms(1) \<open>wd_sup w = Some s\<close> b True by (cases p) (auto simp: restart_everyone_def)
    qed
    let ?w2 = "?w1\<lparr>wd_rt := fold rt_push ms (wd_rt ?w1)\<rparr>"
    have a2: "after_failure [] ?w1 ?w2" using b1 dlq_grows_refl by (auto simp: after_failure_def dlq_bounded_def)
    have "after_failure [] ?w2 w'" unfolding w'
      by (rule after_sup[OF after_failure_bounded[OF a2 b1]]) (simp add: count_broadcast_def Let_def)
    then show ?thesis using after_failure_trans[OF a1 after_failure_trans[OF a2]] by blast
  qed
qed

abbreviation world_letters :: "u64 \<Rightarrow> string \<Rightarrow> 'd amsg \<Rightarrow> ('u, 'd) world \<Rightarrow> 'd amsg dead_letter list" where
  "world_letters now reason failed w \<equiv> map (dead_letter_of (rt_id (wd_rt w)) (rt_name (wd_rt w)) reason now)
     (failed # bq_items (rt_mailbox (wd_rt w)))"

lemma failure_after:
  "dlq_bounded w \<Longrightarrow> on_actor_failed E now failed reason w = (x, w') \<Longrightarrow> after_failure (world_letters now reason failed w) w w'"
  "dlq_bounded w \<Longrightarrow> (\<forall>s. wd_sup w = Some s \<longrightarrow> mr \<le> sv_maxRestarts s) \<Longrightarrow> try_restart E now reason mr w = (x, b, w') \<Longrightarrow>
     after_failure [] w w'"
  "dlq_bounded w \<Longrightarrow> perform_restart E now w = (x, w') \<Longrightarrow> after_failure [] w w'"
proof (induction E now failed reason w and E now reason mr w and E now w arbitrary: x w' and x b w' and x w'
    rule: on_actor_failed_try_restart_perform_restart.induct)
  case (1 E now failed reason w)
  show ?case
  proof (cases "wd_sup w")
    case None
    then have "w' = w" using 1(3) by (simp add: on_actor_failed.simps)
    then show ?thesis using None by (simp add: after_failure_def)
  next
    case (Some s)
    let ?w1 = "report_failure now failed reason w"
    have a1: "after_failure (world_letters now reason failed w) w ?w1" by (rule after_report[OF 1(2)])
    have b1: "dlq_bounded ?w1" by (rule after_failure_bounded[OF a1 1(2)])
    note step = after_failure_trans[OF a1]
    show ?thesis
    proof (cases "policy_of s (rt_id (wd_rt w))")
      case OneForOne
      obtain e b w2 where t: "try_restart E now reason (sv_maxRestarts s) ?w1 = (e, b, w2)"
        by (cases "try_restart E now reason (sv_maxRestarts s) ?w1") auto
      have lim: "\<forall>s1. wd_sup ?w1 = Some s1 \<longrightarrow> sv_maxRestarts s \<le> sv_maxRestarts s1"
        using report_failure_sup[OF Some, of now failed reason] by auto
      have a2: "after_failure [] ?w1 w2" by (rule 1(1)[OF Some refl OneForOne b1 lim t])
      have b2: "dlq_bounded w2" by (rule after_failure_bounded[OF a2 b1])
      have "after_failure [] w2 w'"
      proof (cases "e = None \<and> \<not> b")
        case True
        then have "rt_shutdown E w2 = (x, w')" using 1(3) Some OneForOne t by (simp add: on_actor_failed.simps Let_def)
        then show ?thesis using after_shutdown(1)[OF _ b2] by blast
      next
        case False
        then have "w' = w2 \<or> w' = set_sup (\<lambda>s. s\<lparr>sv_restarts := sv_restarts s + 1\<rparr>) w2"
          using 1(3) Some OneForOne t by (auto simp: on_actor_failed.simps Let_def split: option.splits)
        then show ?thesis
        proof
          assume "w' = w2"
          then show ?thesis using after_sup[OF b2, of id] by (simp add: set_sup_def option.map_id)
        next
          assume w': "w' = set_sup (\<lambda>s. s\<lparr>sv_restarts := sv_restarts s + 1\<rparr>) w2"
          show ?thesis unfolding w' by (rule after_sup[OF b2]) simp
        qed
      qed
      then show ?thesis by (rule step[OF after_failure_trans[OF a2]])
    next
      case OneForAll
      then have "restart_everyone E ?w1 = (x, w')" using 1(3) Some by (simp add: on_actor_failed.simps Let_def)
      then show ?thesis using step after_everyone[OF _ b1] by blast
    next
      case NoRestart
      then have "rt_shutdown E ?w1 = (x, w')" using 1(3) Some by (simp add: on_actor_failed.simps Let_def)
      then show ?thesis using step after_shutdown(1)[OF _ b1] by blast
    next
      case (Unlisted n)
      then have "w' = ?w1" using 1(3) Some by (simp add: on_actor_failed.simps Let_def)
      then show ?thesis using a1 by simp
    qed
  qed
next
  case (2 E now reason mr w)
  show ?case
  proof (cases "rt_restarts (wd_rt w) \<ge> mr")
    case True
    then have "w' = w" using 2(4) by (simp add: try_restart.simps)
    then show ?thesis using after_sup[OF 2(2), of id] by (simp add: set_sup_def option.map_id)
  next
    case False
    let ?w1 = "w\<lparr>wd_rt := (wd_rt w)\<lparr>rt_restarts := rt_restarts (wd_rt w) + 1\<rparr>\<rparr>"
    have a1: "after_failure [] w ?w1" using False 2(2,3) dlq_grows_refl by (auto simp: after_failure_def dlq_bounded_def)
    have b1: "dlq_bounded ?w1" by (rule after_failure_bounded[OF a1 2(2)])
    have "perform_restart E now ?w1 = (x, w')" using 2(4) False by (auto simp: try_restart.simps split: prod.splits)
    from 2(1)[OF False b1 this] show ?thesis by (rule after_failure_trans[OF a1])
  qed
next
  case (3 E now w)
  obtain y w1 where c: "call_user (cd_close E) w = (y, w1)" by (cases "call_user (cd_close E) w")
  have a1: "after_failure [] w w1" by (rule after_call[OF c 3(3)])
  have b1: "dlq_bounded w1" by (rule after_failure_bounded[OF a1 3(3)])
  show ?case
  proof (cases "at_state (rt_actor (wd_rt w1)) = Closed")
    case False
    then show ?thesis using 3(4) c a1 by (simp add: perform_restart.simps)
  next
    case True
    obtain z w2 where o: "call_user (cd_open E) w1 = (z, w2)" by (cases "call_user (cd_open E) w1")
    have a2: "after_failure [] w1 w2" by (rule after_call[OF o b1])
    have b2: "dlq_bounded w2" by (rule after_failure_bounded[OF a2 b1])
    note a12 = after_failure_trans[OF a1 a2]
    show ?thesis
    proof (cases z)
      case None
      then show ?thesis using 3(4) c True o a12 by (simp add: perform_restart.simps)
    next
      case (Some e)
      obtain why where f: "on_actor_failed E now no_message why w2 = (x, w')"
        and why: "(\<exists>t. e = StdExn t \<and> why = ''open() failed: '' @ t) \<or> (e = UnknownExn \<and> why = ''open() failed with unknown exception'')"
        using 3(4) c True o Some by (cases e) (auto simp: perform_restart.simps)
      have "after_failure (world_letters now why no_message w2) w2 w'"
        using why
      proof (elim disjE exE conjE)
        fix t assume "e = StdExn t" "why = ''open() failed: '' @ t"
        then show ?thesis using 3(1)[OF c[symmetric] _ o[symmetric] Some, of t x w'] True b2 f by simp
      next
        assume "e = UnknownExn" "why = ''open() failed with unknown exception''"
        then show ?thesis using 3(2)[OF c[symmetric] _ o[symmetric] Some, of x w'] True b2 f by simp
      qed
      then have "after_failure [] w2 w'" by (rule after_failure_weaken)
      then show ?thesis by (rule after_failure_trans[OF a12])
    qed
  qed
qed

section \<open>Properties\<close>

text \<open>
  C13: what a failure leaves behind. However often an actor's restart fails in turn, handling its failure
  comes to an end, and then: the message it failed on and its whole mailbox stand in the dead-letter
  queue, in order and as far as the queue has room; the restarts counted for it never exceed the limit;
  an actor that was stopped stays stopped; and the policies are untouched.
\<close>

theorem failure_keeps_letters_and_budget:
  assumes "wd_sup w = Some s" and "length (bq_items (sv_dlq s)) \<le> bq_cap (sv_dlq s)"
    and "on_actor_failed E now failed reason w = (x, w')"
  shows "\<exists>s' more. wd_sup w' = Some s' \<and>
      bq_items (sv_dlq s') = take (bq_cap (sv_dlq s))
        (bq_items (sv_dlq s) @ world_letters now reason failed w @ more) \<and>
      rt_restarts (wd_rt w) \<le> rt_restarts (wd_rt w') \<and>
      rt_restarts (wd_rt w') \<le> max (rt_restarts (wd_rt w)) (sv_maxRestarts s) \<and>
      (rt_stopped (wd_rt w) \<longrightarrow> rt_stopped (wd_rt w')) \<and>
      sv_maxRestarts s' = sv_maxRestarts s \<and> sv_default s' = sv_default s \<and> sv_perActor s' = sv_perActor s"
proof -
  have "dlq_bounded w" using assms(1,2) by (simp add: dlq_bounded_def)
  from failure_after(1)[OF this assms(3)] show ?thesis
    using assms(1) unfolding after_failure_def dlq_grows_def by blast
qed

definition demo_code :: "(nat, nat) actor_code" where
  "demo_code = \<lparr>cd_open = (\<lambda>a. (Some (StdExn ''no device''), a, [])), cd_close = (\<lambda>a. (None, a\<lparr>at_state := Closed\<rparr>, [])),
     cd_handle = (\<lambda>m a. (Some UnknownExn, a, [])), cd_restartAll = None\<rparr>"

definition demo_msg :: "nat \<Rightarrow> nat amsg" where
  "demo_msg n = \<lparr>am_id = CmdRequest, am_reason = '''', am_data = Some n\<rparr>"

definition demo_sup :: "nat amsg sup" where
  "demo_sup = sup_new \<lparr>bq_items = [], bq_cap = 8\<rparr> 2 OneForOne"

definition demo_world :: "(nat, nat) world" where
  "demo_world = \<lparr>wd_rt = \<lparr>rt_id = 3, rt_name = ''sensor'', rt_actor = \<lparr>at_state = Opened, at_essential = False, at_user = 0\<rparr>,
      rt_mailbox = \<lparr>bq_items = [demo_msg 1, demo_msg 2], bq_cap = 4\<rparr>, rt_restarts = 0, rt_stopped = False\<rparr>,
     wd_sup = Some demo_sup\<rparr>"

theorem failure_keeps_letters_and_budget_witness:
  "\<exists>s' more. wd_sup (snd (on_actor_failed demo_code 9 (demo_msg 0) ''boom'' demo_world)) = Some s' \<and>
      bq_items (sv_dlq s') = take (bq_cap (sv_dlq demo_sup))
        (bq_items (sv_dlq demo_sup) @ world_letters 9 ''boom'' (demo_msg 0) demo_world @ more) \<and>
      rt_restarts (wd_rt demo_world) \<le> rt_restarts (wd_rt (snd (on_actor_failed demo_code 9 (demo_msg 0) ''boom'' demo_world))) \<and>
      rt_restarts (wd_rt (snd (on_actor_failed demo_code 9 (demo_msg 0) ''boom'' demo_world)))
        \<le> max (rt_restarts (wd_rt demo_world)) (sv_maxRestarts demo_sup) \<and>
      (rt_stopped (wd_rt demo_world) \<longrightarrow> rt_stopped (wd_rt (snd (on_actor_failed demo_code 9 (demo_msg 0) ''boom'' demo_world)))) \<and>
      sv_maxRestarts s' = sv_maxRestarts demo_sup \<and> sv_default s' = sv_default demo_sup \<and> sv_perActor s' = sv_perActor demo_sup"
proof -
  have "wd_sup demo_world = Some demo_sup" by (simp add: demo_world_def)
  moreover have "length (bq_items (sv_dlq demo_sup)) \<le> bq_cap (sv_dlq demo_sup)" by (simp add: demo_sup_def sup_new_def)
  ultimately show ?thesis
    by (rule failure_keeps_letters_and_budget[of _ _ _ _ _ _ "fst (on_actor_failed demo_code 9 (demo_msg 0) ''boom'' demo_world)"])
      simp
qed



text \<open>Of the messages sent, the mailbox accepts some, in the order they were sent.\<close>

lemma push_appends:
  "\<exists>acc. bq_items (rt_mailbox (fold rt_push ms r)) = bq_items (rt_mailbox r) @ acc \<and> subseq acc ms"
proof (induction ms arbitrary: r)
  case (Cons m ms)
  obtain acc where a: "bq_items (rt_mailbox (fold rt_push ms (rt_push m r))) = bq_items (rt_mailbox (rt_push m r)) @ acc" "subseq acc ms"
    using Cons.IH by blast
  show ?case
  proof (cases "length (bq_items (rt_mailbox r)) < bq_cap (rt_mailbox r)")
    case True
    then have "bq_items (rt_mailbox (rt_push m r)) = bq_items (rt_mailbox r) @ [m]" by (simp add: rt_push_def bq_push_items)
    then show ?thesis using a by (intro exI[of _ "m # acc"]) simp
  next
    case False
    then have "bq_items (rt_mailbox (rt_push m r)) = bq_items (rt_mailbox r)" by (simp add: rt_push_def bq_push_items)
    then show ?thesis using a by (intro exI[of _ acc]) auto
  qed
qed simp

lemma call_appends:
  assumes "call_user f w = (e, w')"
  shows "\<exists>acc. bq_items (rt_mailbox (wd_rt w')) = bq_items (rt_mailbox (wd_rt w)) @ acc \<and> subseq acc (snd (snd (f (rt_actor (wd_rt w)))))"
proof -
  obtain x a ms where f: "f (rt_actor (wd_rt w)) = (x, a, ms)" by (cases "f (rt_actor (wd_rt w))")
  then have "wd_rt w' = fold rt_push ms ((wd_rt w)\<lparr>rt_actor := a\<rparr>)" using assms by (auto simp: call_user_def)
  then show ?thesis using push_appends[of ms "(wd_rt w)\<lparr>rt_actor := a\<rparr>"] f by simp
qed

text \<open>
  C15: a bounded batch returns. With a batch limit of at least zero, \<open>processBatch\<close> returns for every
  actor - whatever it throws, sends to itself or fails to reopen - and reports at most that many messages.
\<close>

theorem bounded_batch_returns:
  assumes "0 \<le> maxBatch"
  shows "\<exists>n more x w'. process_batch E now maxBatch w = Some (n, more, x, w') \<and> 0 \<le> n \<and> n \<le> maxBatch"
proof -
  have "\<exists>n x w'. batch_loop E now maxBatch p w = Some (n, x, w') \<and> p \<le> n \<and> n \<le> maxBatch" if "p \<le> maxBatch" for p w
    using that
  proof (induction "nat (maxBatch - p)" arbitrary: p w)
    case 0
    then show ?case using assms by (simp add: batch_loop.simps)
  next
    case (Suc k)
    then have lt: "p < maxBatch" by simp
    obtain q r where pop: "bq_pop (rt_mailbox (wd_rt w)) = (q, r)" by (cases "bq_pop (rt_mailbox (wd_rt w))")
    show ?case
    proof (cases r)
      case None
      then show ?thesis using pop lt by (simp add: batch_loop.simps)
    next
      case (Some m)
      obtain e w1 where h: "handle_message E now m (w\<lparr>wd_rt := (wd_rt w)\<lparr>rt_mailbox := q\<rparr>\<rparr>) = (e, w1)"
        by (cases "handle_message E now m (w\<lparr>wd_rt := (wd_rt w)\<lparr>rt_mailbox := q\<rparr>\<rparr>)")
      show ?thesis
      proof (cases e)
        case None
        have "k = nat (maxBatch - (p + 1))" using Suc(2) by simp
        from Suc(1)[OF this, of w1] lt obtain n x w' where
          "batch_loop E now maxBatch (p + 1) w1 = Some (n, x, w')" "p + 1 \<le> n" "n \<le> maxBatch" by auto
        moreover have "batch_loop E now maxBatch p w = batch_loop E now maxBatch (p + 1) w1"
          by (subst batch_loop.simps) (simp add: lt pop Some h None)
        ultimately show ?thesis by auto
      next
        case (Some e')
        obtain x w2 where "on_actor_failed E now m (exn_what e') w1 = (x, w2)"
          by (cases "on_actor_failed E now m (exn_what e') w1")
        then have "batch_loop E now maxBatch p w = Some (p, x, w2)"
          by (subst batch_loop.simps) (simp add: lt pop \<open>r = Some m\<close> h Some)
        then show ?thesis using lt by auto
      qed
    qed
  qed
  from this[of 0 w] obtain n x w' where b: "batch_loop E now maxBatch 0 w = Some (n, x, w')" "0 \<le> n" "n \<le> maxBatch"
    using assms by blast
  show ?thesis
  proof (cases "rt_stopped (wd_rt w)")
    case True
    then have "process_batch E now maxBatch w = Some (0, False, None, w)" by (simp add: process_batch_def)
    then show ?thesis using assms by auto
  next
    case False
    then show ?thesis using b by (simp add: process_batch_def)
  qed
qed

theorem bounded_batch_returns_witness:
  "\<exists>n more x w'. process_batch demo_code 9 32 demo_world = Some (n, more, x, w') \<and> 0 \<le> n \<and> n \<le> 32"
  by (rule bounded_batch_returns) simp

text \<open>An actor whose code never throws.\<close>

definition never_throws :: "('u, 'd) actor_code \<Rightarrow> bool" where
  "never_throws E \<longleftrightarrow> (\<forall>a. fst (cd_open E a) = None) \<and> (\<forall>a. fst (cd_close E a) = None) \<and> (\<forall>m a. fst (cd_handle E m a) = None)"

text \<open>
  What one message does to such an actor: its state afterwards and what it sends. The three lifecycle messages are the runtime's
  business, every other one is handed to the actor.
\<close>

definition deliver :: "('u, 'd) actor_code \<Rightarrow> 'd amsg \<Rightarrow> 'u actor \<Rightarrow> 'u actor \<times> 'd amsg list" where
  "deliver E m a =
     (if am_id m = ActorEnableRequest then (if at_state a = Closed then snd (cd_open E a) else (a, []))
      else if am_id m = ActorDisableRequest then (if at_state a = Opened \<and> \<not> at_essential a then snd (cd_close E a) else (a, []))
      else if am_id m = ActorRestartRequest then
        (if at_state a = Opened
         then (case snd (cd_close E a) of (a1, s1) \<Rightarrow>
           if at_state a1 = Closed then (case snd (cd_open E a1) of (a2, s2) \<Rightarrow> (a2, s1 @ s2)) else (a1, s1))
         else (a, []))
      else snd (cd_handle E m a))"

text \<open>A list of messages, one after the other.\<close>

fun deliver_all :: "('u, 'd) actor_code \<Rightarrow> 'd amsg list \<Rightarrow> 'u actor \<Rightarrow> 'u actor \<times> 'd amsg list" where
  "deliver_all E [] a = (a, [])"
| "deliver_all E (m # ms) a = (case deliver E m a of (a1, s1) \<Rightarrow> (case deliver_all E ms a1 of (a2, s2) \<Rightarrow> (a2, s1 @ s2)))"

definition turns_into :: "('u, 'd) world \<Rightarrow> ('u, 'd) world \<Rightarrow> 'u actor \<times> 'd amsg list \<Rightarrow> bool" where
  "turns_into w w' r \<longleftrightarrow> rt_actor (wd_rt w') = fst r \<and> wd_sup w' = wd_sup w \<and>
     (\<exists>acc. bq_items (rt_mailbox (wd_rt w')) = bq_items (rt_mailbox (wd_rt w)) @ acc \<and> subseq acc (snd r))"

lemma turns_into_trans:
  assumes "turns_into w w1 (a1, s1)" and "turns_into w1 w2 (a2, s2)"
  shows "turns_into w w2 (a2, s1 @ s2)"
proof -
  obtain x y where "bq_items (rt_mailbox (wd_rt w1)) = bq_items (rt_mailbox (wd_rt w)) @ x" "subseq x s1"
    "bq_items (rt_mailbox (wd_rt w2)) = bq_items (rt_mailbox (wd_rt w1)) @ y" "subseq y s2"
    using assms by (auto simp: turns_into_def)
  then have "bq_items (rt_mailbox (wd_rt w2)) = bq_items (rt_mailbox (wd_rt w)) @ x @ y" "subseq (x @ y) (s1 @ s2)"
    by (simp_all add: list_emb_append_mono)
  then show ?thesis using assms unfolding turns_into_def fst_conv snd_conv by metis
qed

lemma quiet_call:
  assumes "call_user f w = (e, w')" and "\<forall>a. fst (f a) = None"
  shows "e = None \<and> turns_into w w' (snd (f (rt_actor (wd_rt w))))"
  using call_user_fields(1,6,7)[OF assms(1)] call_appends[OF assms(1)] assms(2) by (simp add: turns_into_def)

lemma quiet_message:
  assumes n: "never_throws E" and h: "handle_message E now m w = (e, w')"
  shows "e = None \<and> turns_into w w' (deliver E m (rt_actor (wd_rt w)))"
proof -
  have q: "\<forall>a. fst (cd_handle E m a) = None" "\<forall>a. fst (cd_open E a) = None" "\<forall>a. fst (cd_close E a) = None"
    using n unfolding never_throws_def by blast+
  let ?a = "rt_actor (wd_rt w)"
  have perform: "e = None \<and> turns_into w w' (deliver E m ?a)"
    if p: "perform_restart E now w = (e, w')" and m: "am_id m = ActorRestartRequest" "at_state ?a = Opened"
  proof -
    obtain y w1 where c: "call_user (cd_close E) w = (y, w1)" by (cases "call_user (cd_close E) w")
    obtain z w2 where o: "call_user (cd_open E) w1 = (z, w2)" by (cases "call_user (cd_open E) w1")
    obtain a1 s1 where a1: "snd (cd_close E ?a) = (a1, s1)" by (cases "snd (cd_close E ?a)")
    have C: "turns_into w w1 (a1, s1)" using quiet_call[OF c q(3)] a1 by simp
    then have st: "rt_actor (wd_rt w1) = a1" by (simp add: turns_into_def)
    obtain a2 s2 where a2: "snd (cd_open E a1) = (a2, s2)" by (cases "snd (cd_open E a1)")
    have O: "z = None" "turns_into w1 w2 (a2, s2)" using quiet_call[OF o q(2)] st a2 by simp_all
    show ?thesis
    proof (cases "at_state a1 = Closed")
      case True
      then have "(e, w') = (None, w2)" using p c o O(1) st by (simp add: perform_restart.simps)
      then show ?thesis using turns_into_trans[OF C O(2)] True m a1 a2 by (simp add: deliver_def)
    next
      case False
      then have "(e, w') = (None, w1)" using p c st by (simp add: perform_restart.simps)
      then show ?thesis using C False m a1 by (simp add: deliver_def)
    qed
  qed
  have idle: "turns_into w w (?a, [])" by (simp add: turns_into_def)
  show ?thesis
    using h perform idle quiet_call[OF _ q(1), of w e w'] quiet_call[OF _ q(2), of w e w'] quiet_call[OF _ q(3), of w e w']
    by (auto simp: handle_message_def consume_lifecycle_def deliver_def Let_def split: if_splits)
qed

text \<open>
  C16: messages are handled, in order. For an actor that does not throw, a batch takes a prefix \<open>taken\<close> of the
  mailbox, messages the actor sends itself meanwhile included, and the actor ends up in exactly the state that the
  messages of \<open>taken\<close>, delivered to it one after the other, produce: none is skipped, swallowed or handled twice.
  What the mailbox accepted meanwhile is, in order, part of what these deliveries sent. The batch stops only at the
  limit or at an empty mailbox, and it reports how many messages it took and whether any are left.
\<close>

theorem batch_takes_prefix:
  assumes "never_throws E" and "0 \<le> maxBatch" and "\<not> rt_stopped (wd_rt w)"
  shows "\<exists>n w' taken accepted. process_batch E now maxBatch w = Some (n, bq_items (rt_mailbox (wd_rt w')) \<noteq> [], None, w') \<and>
    bq_items (rt_mailbox (wd_rt w)) @ accepted = taken @ bq_items (rt_mailbox (wd_rt w')) \<and>
    rt_actor (wd_rt w') = fst (deliver_all E taken (rt_actor (wd_rt w))) \<and>
    subseq accepted (snd (deliver_all E taken (rt_actor (wd_rt w)))) \<and>
    int (length taken) = n \<and> (n = maxBatch \<or> bq_items (rt_mailbox (wd_rt w')) = []) \<and> wd_sup w' = wd_sup w"
proof -
  let ?items = "\<lambda>w. bq_items (rt_mailbox (wd_rt w))" and ?run = "\<lambda>ms w. deliver_all E ms (rt_actor (wd_rt w))"
  have "\<exists>n w' taken acc. batch_loop E now maxBatch p w = Some (n, None, w') \<and> ?items w @ acc = taken @ ?items w' \<and>
      rt_actor (wd_rt w') = fst (?run taken w) \<and> subseq acc (snd (?run taken w)) \<and>
      int (length taken) = n - p \<and> (n = maxBatch \<or> ?items w' = []) \<and> wd_sup w' = wd_sup w" if "p \<le> maxBatch" for p w
    using that
  proof (induction "nat (maxBatch - p)" arbitrary: p w)
    case 0
    then have "batch_loop E now maxBatch p w = Some (p, None, w)" "p = maxBatch" using assms(2) by (simp_all add: batch_loop.simps)
    then show ?case by (intro exI[of _ p] exI[of _ w] exI[of _ "[]"]) simp
  next
    case (Suc k)
    then have lt: "p < maxBatch" by simp
    show ?case
    proof (cases "?items w")
      case Nil
      then have "batch_loop E now maxBatch p w = Some (p, None, w)" using lt by (simp add: batch_loop.simps bq_pop_def)
      then show ?thesis using Nil by (intro exI[of _ p] exI[of _ w] exI[of _ "[]"]) simp
    next
      case (Cons m ms)
      let ?q = "(rt_mailbox (wd_rt w))\<lparr>bq_items := ms\<rparr>" and ?v = "w\<lparr>wd_rt := (wd_rt w)\<lparr>rt_mailbox := (rt_mailbox (wd_rt w))\<lparr>bq_items := ms\<rparr>\<rparr>\<rparr>"
      have pop: "bq_pop (rt_mailbox (wd_rt w)) = (?q, Some m)" using Cons by (simp add: bq_pop_def)
      obtain e w1 where h: "handle_message E now m ?v = (e, w1)" by (cases "handle_message E now m ?v")
      obtain a1 s1 where d: "deliver E m (rt_actor (wd_rt w)) = (a1, s1)" by (cases "deliver E m (rt_actor (wd_rt w))")
      obtain acc where a: "e = None" "?items w1 = ms @ acc" "wd_sup w1 = wd_sup w" "rt_actor (wd_rt w1) = a1" "subseq acc s1"
        using quiet_message[OF assms(1) h] d by (auto simp: turns_into_def)
      have "k = nat (maxBatch - (p + 1))" using Suc(2) by simp
      from Suc(1)[OF this, of w1] lt obtain n w' taken acc' where
        ih: "batch_loop E now maxBatch (p + 1) w1 = Some (n, None, w')" "?items w1 @ acc' = taken @ ?items w'"
          "rt_actor (wd_rt w') = fst (?run taken w1)" "subseq acc' (snd (?run taken w1))"
          "int (length taken) = n - (p + 1)" "n = maxBatch \<or> ?items w' = []" "wd_sup w' = wd_sup w1" by auto
      have "batch_loop E now maxBatch p w = Some (n, None, w')"
        by (subst batch_loop.simps) (simp add: lt pop h a(1) ih(1))
      moreover have "?run (m # taken) w = (fst (?run taken w1), s1 @ snd (?run taken w1))"
        using d a(4) by (simp split: prod.split)
      moreover have "subseq (acc @ acc') (s1 @ snd (?run taken w1))" by (rule list_emb_append_mono[OF a(5) ih(4)])
      ultimately show ?thesis using ih a Cons
        by (intro exI[of _ n] exI[of _ w'] exI[of _ "m # taken"] exI[of _ "acc @ acc'"]) simp
    qed
  qed
  from this[of 0 w] obtain n w' taken acc where b: "batch_loop E now maxBatch 0 w = Some (n, None, w')"
    "?items w @ acc = taken @ ?items w'" "rt_actor (wd_rt w') = fst (?run taken w)" "subseq acc (snd (?run taken w))"
    "int (length taken) = n" "n = maxBatch \<or> ?items w' = []" "wd_sup w' = wd_sup w"
    using assms(2) by auto
  then show ?thesis using assms(3)
    by (intro exI[of _ n] exI[of _ w'] exI[of _ taken] exI[of _ acc]) (simp add: process_batch_def bq_empty_def)
qed

definition echo_code :: "(nat, nat) actor_code" where
  "echo_code = \<lparr>cd_open = (\<lambda>a. (None, a\<lparr>at_state := Opened\<rparr>, [])), cd_close = (\<lambda>a. (None, a\<lparr>at_state := Closed\<rparr>, [])),
     cd_handle = (\<lambda>m a. (None, a\<lparr>at_user := at_user a + 1\<rparr>, [m])), cd_restartAll = None\<rparr>"

theorem batch_takes_prefix_witness:
  "\<exists>n w' taken accepted. process_batch echo_code 9 32 demo_world = Some (n, bq_items (rt_mailbox (wd_rt w')) \<noteq> [], None, w') \<and>
    bq_items (rt_mailbox (wd_rt demo_world)) @ accepted = taken @ bq_items (rt_mailbox (wd_rt w')) \<and>
    rt_actor (wd_rt w') = fst (deliver_all echo_code taken (rt_actor (wd_rt demo_world))) \<and>
    subseq accepted (snd (deliver_all echo_code taken (rt_actor (wd_rt demo_world)))) \<and>
    int (length taken) = n \<and> (n = 32 \<or> bq_items (rt_mailbox (wd_rt w')) = []) \<and> wd_sup w' = wd_sup demo_world"
  by (rule batch_takes_prefix) (simp_all add: never_throws_def echo_code_def demo_world_def)

text \<open>The one way an exception leaves a batch. \<open>shutdown\<close> closes the actor without a guard, inside the
  handler that caught the first exception: for an actor whose policy is not to restart, a message whose
  handling throws and a \<open>close\<close> that throws too make \<open>processBatch\<close> itself throw, with the worker's thread
  function above it. Every other exception of the actor is caught.
\<close>

theorem shutdown_exception_escapes:
  assumes "\<not> rt_stopped (wd_rt w)" and "maxBatch \<noteq> 0" and "bq_items (rt_mailbox (wd_rt w)) = m # ms"
    and "am_id m \<notin> {ActorEnableRequest, ActorDisableRequest, ActorRestartRequest}"
    and "\<forall>a. \<exists>e r. cd_handle E m a = (Some e, r)" and "\<forall>a. \<exists>e r. cd_close E a = (Some e, r)"
    and "wd_sup w = Some s" and "policy_of s (rt_id (wd_rt w)) = NoRestart"
  shows "\<exists>n more e w'. process_batch E now maxBatch w = Some (n, more, Some e, w')"
proof -
  let ?q = "(rt_mailbox (wd_rt w))\<lparr>bq_items := ms\<rparr>"
  let ?v = "w\<lparr>wd_rt := (wd_rt w)\<lparr>rt_mailbox := ?q\<rparr>\<rparr>"
  have pop: "bq_pop (rt_mailbox (wd_rt w)) = (?q, Some m)" using assms(3) by (simp add: bq_pop_def)
  obtain x w1 where c: "call_user (cd_handle E m) ?v = (x, w1)" by (cases "call_user (cd_handle E m) ?v")
  note C = call_user_fields[OF c]
  obtain e where x: "x = Some e" unfolding C(7) using assms(5) by (metis fst_conv)
  have h: "handle_message E now m ?v = (Some e, w1)"
    using assms(4) c x by (simp add: handle_message_def consume_lifecycle_def Let_def)
  let ?w2 = "report_failure now m (exn_what e) w1"
  obtain y w3 where sd: "rt_shutdown E ?w2 = (y, w3)" by (cases "rt_shutdown E ?w2")
  note F = call_user_fields[OF sd[unfolded rt_shutdown_def]]
  obtain e' where y: "y = Some e'" unfolding F(7) using assms(6) by (metis fst_conv)
  have f: "on_actor_failed E now m (exn_what e) w1 = (Some e', w3)"
    using C(1,3) assms(7,8) sd y by (simp add: on_actor_failed.simps Let_def)
  have "maxBatch < 0 \<or> 0 < maxBatch" using assms(2) by linarith
  then have "batch_loop E now maxBatch 0 w = Some (0, Some e', w3)"
    by (subst batch_loop.simps) (simp add: pop h f)
  then show ?thesis using assms(1) by (simp add: process_batch_def)
qed

definition bad_code :: "(nat, nat) actor_code" where
  "bad_code = \<lparr>cd_open = (\<lambda>a. (None, a, [])), cd_close = (\<lambda>a. (Some UnknownExn, a, [])),
     cd_handle = (\<lambda>m a. (Some UnknownExn, a, [])), cd_restartAll = None\<rparr>"

theorem shutdown_exception_escapes_witness:
  "\<exists>n more e w'. process_batch bad_code 9 32 (demo_world\<lparr>wd_sup := Some (setDefaultStrategy NoRestart demo_sup)\<rparr>) =
     Some (n, more, Some e, w')"
  by (rule shutdown_exception_escapes[of _ _ "demo_msg 1" "[demo_msg 2]" _ "setDefaultStrategy NoRestart demo_sup"])
    (simp_all add: bad_code_def demo_world_def demo_sup_def sup_new_def policy_of_def setDefaultStrategy_def demo_msg_def)

end
