(* ===== verification/Work_Dispatcher.thy ===== *)
theory Work_Dispatcher
  imports Bounded_Queue Actor_Runtime
begin

text \<open>
  The dispatcher's data and every operation of it (\<open>runtime/dispatcher/work_dispatcher.cpp\<close>, \<open>worker.cpp\<close>),
  run one call at a time: a queue of actors and a semaphore per worker, one in-flight flag per actor slot,
  the list of actors no queue had room for, the count of pending work. An actor runtime is named by its
  actor's id. What happens when calls interleave is in \<open>Token_Protocol\<close>; here are the decisions each call
  makes. Queues are the bounded lists the ring refines.
\<close>

section \<open>State\<close>

record wdcfg =
  wc_workerCount :: int
  wc_queueCapacity :: int
  wc_highWatermark :: int
  wc_busyStealIntervalUs :: int
  wc_idleStealIntervalUs :: int
  wc_parkSpinNs :: int
  wc_tokenGraceNs :: int

definition default_wdcfg :: "int \<Rightarrow> wdcfg" where
  "default_wdcfg n = \<lparr>wc_workerCount = n, wc_queueCapacity = 1024, wc_highWatermark = 0, wc_busyStealIntervalUs = 200,
     wc_idleStealIntervalUs = 2000, wc_parkSpinNs = 3000, wc_tokenGraceNs = 5000\<rparr>"

definition kMaxActors :: nat where "kMaxActors = 1024"

record dispatcher =
  ds_queues :: "nat bq list"
  ds_semas :: "nat list"
  ds_high :: nat
  ds_held :: "bool list"
  ds_pended :: "nat list"
  ds_pending :: int
  ds_running :: bool
  ds_draining :: bool
  ds_backoff :: "bool list"
  ds_busyUs :: int
  ds_idleUs :: int

text \<open>
  The constructor asserts at least one worker; a watermark of 0 means seven tenths of the capacity, in
  integer division. \<open>None\<close>: the assertion fails, or a queue refuses its capacity.
\<close>

definition dispatcher_new :: "wdcfg \<Rightarrow> dispatcher option" where
  "dispatcher_new cfg =
     (if wc_workerCount cfg \<le> 0 then None
      else case bq_new (nat (wc_queueCapacity cfg)) of None \<Rightarrow> None
      | Some q \<Rightarrow>
          (let n = nat (wc_workerCount cfg);
               high = (if wc_highWatermark cfg > 0 then wc_highWatermark cfg else wc_queueCapacity cfg * 7 div 10)
           in Some \<lparr>ds_queues = replicate n q, ds_semas = replicate n 0, ds_high = nat high,
                ds_held = replicate kMaxActors False, ds_pended = [], ds_pending = 0, ds_running = False,
                ds_draining = False, ds_backoff = replicate n False, ds_busyUs = wc_busyStealIntervalUs cfg,
                ds_idleUs = wc_idleStealIntervalUs cfg\<rparr>))"

abbreviation ds_workers :: "dispatcher \<Rightarrow> nat" where
  "ds_workers d \<equiv> length (ds_queues d)"

definition ds_load :: "dispatcher \<Rightarrow> nat \<Rightarrow> nat" where
  "ds_load d w = bq_count (ds_queues d ! w)"

definition release_sema :: "nat \<Rightarrow> dispatcher \<Rightarrow> dispatcher" where
  "release_sema w d = d\<lparr>ds_semas := (ds_semas d)[w := ds_semas d ! w + 1]\<rparr>"

definition release_all :: "dispatcher \<Rightarrow> dispatcher" where
  "release_all d = d\<lparr>ds_semas := map (\<lambda>k. k + 1) (ds_semas d)\<rparr>"

definition ds_start :: "dispatcher \<Rightarrow> dispatcher" where
  "ds_start d = d\<lparr>ds_running := True\<rparr>"

definition ds_stop :: "dispatcher \<Rightarrow> dispatcher" where
  "ds_stop d = (release_all (d\<lparr>ds_running := False, ds_draining := False\<rparr>))\<lparr>ds_pended := []\<rparr>"

definition begin_drain :: "dispatcher \<Rightarrow> dispatcher" where
  "begin_drain d = release_all (d\<lparr>ds_running := False, ds_draining := True\<rparr>)"

section \<open>Choosing a worker\<close>

text \<open>The scan of \<open>pickLeastLoaded\<close>, from iteration \<open>i\<close>; \<open>best\<close> moves while it is scanned from.\<close>

function scan_loads :: "(nat \<Rightarrow> nat) \<Rightarrow> nat \<Rightarrow> nat \<Rightarrow> nat \<Rightarrow> nat \<Rightarrow> nat" where
  "scan_loads load n i best bestCount =
     (if i < n then
        let w = (best + i) mod n; c = load w in
        if c < bestCount then (if c = 0 then w else scan_loads load n (i + 1) w c)
        else scan_loads load n (i + 1) best bestCount
      else best)"
  by pat_completeness auto
termination by (relation "measure (\<lambda>(load, n, i, _). n - i)") auto

declare scan_loads.simps [simp del]

definition pick_least_loaded :: "nat \<Rightarrow> dispatcher \<Rightarrow> nat" where
  "pick_least_loaded a d =
     (let best = a mod ds_workers d in scan_loads (ds_load d) (ds_workers d) 0 best (ds_load d best))"

definition pick_worker :: "nat \<Rightarrow> dispatcher \<Rightarrow> nat" where
  "pick_worker a d =
     (let home = a mod ds_workers d in
      if ds_workers d \<le> 1 then home
      else if ds_load d home < ds_high d then home
      else pick_least_loaded a d)"

section \<open>Entries and tokens\<close>

definition enqueue_entry :: "nat \<Rightarrow> dispatcher \<Rightarrow> bool \<times> dispatcher" where
  "enqueue_entry a d =
     (let w = pick_worker a d in
      case bq_push (ds_queues d ! w) a of
        (_, False) \<Rightarrow> (False, d\<lparr>ds_pended := ds_pended d @ [a]\<rparr>)
      | (q, True) \<Rightarrow> (True, release_sema w (d\<lparr>ds_queues := (ds_queues d)[w := q]\<rparr>)))"

definition dispatch :: "nat \<Rightarrow> dispatcher \<Rightarrow> bool \<times> dispatcher" where
  "dispatch a d =
     (let slot = a mod kMaxActors in
      if ds_held d ! slot then (True, d)
      else
        (case enqueue_entry a (d\<lparr>ds_held := (ds_held d)[slot := True]\<rparr>) of
           (ok, d1) \<Rightarrow> (ok, if ok then d1\<lparr>ds_pending := ds_pending d1 + 1\<rparr> else d1)))"

definition redispatch :: "nat \<Rightarrow> dispatcher \<Rightarrow> bool \<times> dispatcher" where
  "redispatch a d = enqueue_entry a d"

definition release_in_flight :: "nat \<Rightarrow> dispatcher \<Rightarrow> dispatcher" where
  "release_in_flight a d = d\<lparr>ds_held := (ds_held d)[a mod kMaxActors := False]\<rparr>"

definition claim_in_flight :: "nat \<Rightarrow> dispatcher \<Rightarrow> bool \<times> dispatcher" where
  "claim_in_flight a d = (\<not> ds_held d ! (a mod kMaxActors), d\<lparr>ds_held := (ds_held d)[a mod kMaxActors := True]\<rparr>)"

definition retire_pending :: "dispatcher \<Rightarrow> dispatcher" where
  "retire_pending d =
     (let d1 = d\<lparr>ds_pending := ds_pending d - 1\<rparr> in
      if ds_pending d = 1 then (if ds_draining d then release_all d1 else d1) else d1)"

text \<open>\<open>settleToken\<close>, for the runtime's \<open>isStopped\<close> and \<open>mailboxCount\<close>; the grace spin only waits.\<close>

definition settle_token :: "bool \<Rightarrow> nat \<Rightarrow> nat \<Rightarrow> dispatcher \<Rightarrow> bool \<times> dispatcher" where
  "settle_token stopped mailCount a d =
     (let d1 = release_in_flight a d in
      if \<not> stopped \<and> mailCount \<noteq> 0
      then (case claim_in_flight a d1 of
              (True, d2) \<Rightarrow> redispatch a d2
            | (False, d2) \<Rightarrow> (False, retire_pending d2))
      else (False, retire_pending d1))"

section \<open>Acquiring\<close>

definition try_acquire_own :: "nat \<Rightarrow> dispatcher \<Rightarrow> nat option \<times> dispatcher" where
  "try_acquire_own w d =
     (case bq_pop (ds_queues d ! w) of (q, r) \<Rightarrow> (r, d\<lparr>ds_queues := (ds_queues d)[w := q]\<rparr>))"

function steal_from :: "nat \<Rightarrow> nat \<Rightarrow> dispatcher \<Rightarrow> nat option \<times> dispatcher" where
  "steal_from w i d =
     (if i < ds_workers d then
        let victim = (w + i) mod ds_workers d in
        if bq_empty (ds_queues d ! victim) then steal_from w (i + 1) d
        else
          (case bq_pop (ds_queues d ! victim) of
             (q, Some a) \<Rightarrow> (Some a, d\<lparr>ds_queues := (ds_queues d)[victim := q],
                                      ds_semas := (ds_semas d)[victim := ds_semas d ! victim - 1]\<rparr>)
           | (q, None) \<Rightarrow> steal_from w (i + 1) d)
      else (None, d))"
  by pat_completeness auto
termination by (relation "measure (\<lambda>(w, i, d). ds_workers d - i)") auto

declare steal_from.simps [simp del]

definition try_steal :: "nat \<Rightarrow> dispatcher \<Rightarrow> nat option \<times> dispatcher" where
  "try_steal w d = steal_from w 1 d"

text \<open>
  One round of \<open>acquire\<close>'s loop: it leaves when the dispatcher has stopped or the drain is finished, it
  may have spun on its own queue (\<open>spun\<close>: that the spin found the entry there), it takes a permit of its
  semaphore or waits it out, and then tries its own queue or the others'.
\<close>

datatype acquired = Got nat | Again | Over

definition set_backoff :: "nat \<Rightarrow> bool \<Rightarrow> dispatcher \<Rightarrow> dispatcher" where
  "set_backoff w b d = d\<lparr>ds_backoff := (ds_backoff d)[w := b]\<rparr>"

definition steal_interval :: "nat \<Rightarrow> dispatcher \<Rightarrow> int" where
  "steal_interval w d = (if ds_backoff d ! w then ds_idleUs d else ds_busyUs d)"

definition acquire_round :: "bool \<Rightarrow> nat \<Rightarrow> dispatcher \<Rightarrow> acquired \<times> dispatcher" where
  "acquire_round spun w d =
     (if \<not> (ds_running d \<or> ds_draining d) then (Over, d)
      else if ds_draining d \<and> ds_pending d = 0 then (Over, d)
      else if spun \<and> ds_running d \<and> \<not> bq_empty (ds_queues d ! w)
      then (case try_acquire_own w d of (Some a, d1) \<Rightarrow> (Got a, set_backoff w False d1) | (None, d1) \<Rightarrow> (Again, d1))
      else if 0 < ds_semas d ! w
      then (case try_acquire_own w (d\<lparr>ds_semas := (ds_semas d)[w := ds_semas d ! w - 1]\<rparr>) of
              (Some a, d1) \<Rightarrow> (Got a, set_backoff w False d1)
            | (None, d1) \<Rightarrow> (Again, d1))
      else (case try_steal w d of
              (Some a, d1) \<Rightarrow> (Got a, set_backoff w False d1)
            | (None, d1) \<Rightarrow> (Again, set_backoff w True d1)))"

text \<open>\<open>drainPendedActor\<close>: every pended actor is tried once, in order.\<close>

fun drain_pended_loop :: "nat list \<Rightarrow> dispatcher \<Rightarrow> nat list \<times> dispatcher" where
  "drain_pended_loop [] d = ([], d)"
| "drain_pended_loop (a # as) d =
     (let w = pick_worker a d in
      case bq_push (ds_queues d ! w) a of
        (q, True) \<Rightarrow>
          drain_pended_loop as
            (release_sema w (d\<lparr>ds_queues := (ds_queues d)[w := q], ds_pending := ds_pending d + 1\<rparr>))
      | (_, False) \<Rightarrow> (case drain_pended_loop as d of (kept, d1) \<Rightarrow> (a # kept, d1)))"

definition drain_pended :: "dispatcher \<Rightarrow> dispatcher" where
  "drain_pended d = (case drain_pended_loop (ds_pended d) d of (kept, d1) \<Rightarrow> d1\<lparr>ds_pended := kept\<rparr>)"

text \<open>\<open>acquire\<close> before its loop: the own queue is tried at once.\<close>

definition acquire_first :: "nat \<Rightarrow> dispatcher \<Rightarrow> acquired \<times> dispatcher" where
  "acquire_first w d =
     (case try_acquire_own w d of (Some a, d1) \<Rightarrow> (Got a, set_backoff w False d1) | (None, d1) \<Rightarrow> (Again, d1))"

section \<open>The worker and the runtime\<close>

text \<open>
  What \<open>ActorRuntime::enqueue\<close> and \<open>ActorRuntime::run\<close> do with the dispatcher. An exception that leaves the
  batch leaves \<open>run\<close> before the token is settled.
\<close>

definition runtime_enqueue :: "'d amsg \<Rightarrow> ('u, 'd) runtime \<times> dispatcher \<Rightarrow> ('u, 'd) runtime \<times> dispatcher" where
  "runtime_enqueue m s =
     (case s of (rt, d) \<Rightarrow>
       (case bq_push (rt_mailbox rt) m of
          (_, False) \<Rightarrow> (rt, d)
        | (q, True) \<Rightarrow> (rt\<lparr>rt_mailbox := q\<rparr>, snd (dispatch (unat (rt_id rt)) d))))"

definition run_actor :: "('u, 'd) actor_code \<Rightarrow> u64 \<Rightarrow> int \<Rightarrow> ('u, 'd) world \<times> dispatcher \<Rightarrow>
    (int \<times> bool \<times> call_exn option \<times> ('u, 'd) world \<times> dispatcher) option" where
  "run_actor E now maxBatch s =
     (case s of (w, d) \<Rightarrow>
       (case process_batch E now maxBatch w of
          None \<Rightarrow> None
        | Some (n, left, Some e, w1) \<Rightarrow> Some (n, False, Some e, w1, d)
        | Some (n, left, None, w1) \<Rightarrow>
            (case settle_token (rt_stopped (wd_rt w1)) (bq_count (rt_mailbox (wd_rt w1))) (unat (rt_id (wd_rt w1))) d of
               (resumed, d1) \<Rightarrow> Some (n, resumed, None, w1, d1))))"

text \<open>What the worker's loop does after \<open>acquire\<close> returned: run the actor, leave, or go round.\<close>

datatype worker_next = RunActor nat | Leave | GoRound

definition worker_after :: "bool \<Rightarrow> acquired \<Rightarrow> dispatcher \<Rightarrow> worker_next \<times> dispatcher" where
  "worker_after running r d =
     (case r of
        Got a \<Rightarrow> (RunActor a, d)
      | _ \<Rightarrow> (let d1 = drain_pended d in
             if ds_draining d1 \<and> ds_pending d1 = 0 then (Leave, d1)
             else if \<not> running then (Leave, d1)
             else (GoRound, d1)))"

section \<open>Properties\<close>

lemma scan_loads_ok:
  "best < n \<Longrightarrow> bestCount = load best \<Longrightarrow>
     scan_loads load n i best bestCount < n \<and> load (scan_loads load n i best bestCount) \<le> bestCount"
proof (induction load n i best bestCount rule: scan_loads.induct)
  case (1 load n i best bestCount)
  show ?case
  proof (cases "i < n")
    case False
    then show ?thesis using 1 by (simp add: scan_loads.simps)
  next
    case True
    let ?w = "(best + i) mod n"
    have w: "?w < n" using True by simp
    show ?thesis
    proof (cases "load ?w < bestCount")
      case False
      then show ?thesis using 1(2)[OF True refl refl False 1(3,4)] True by (simp add: scan_loads.simps[of load n i])
    next
      case less: True
      show ?thesis
      proof (cases "load ?w = 0")
        case True
        then show ?thesis using less \<open>i < n\<close> w by (simp add: scan_loads.simps[of load n i])
      next
        case False
        then show ?thesis using 1(1)[OF True refl refl less False w refl] True less
          by (simp add: scan_loads.simps[of load n i] Let_def)
      qed
    qed
  qed
qed

lemma pick_worker_range: "0 < ds_workers d \<Longrightarrow> pick_worker a d < ds_workers d"
  using scan_loads_ok[of "a mod ds_workers d" "ds_workers d"]
  by (simp add: pick_worker_def pick_least_loaded_def Let_def)

text \<open>
  The scan of \<open>pickLeastLoaded\<close> counts from the best worker so far, which moves, so it can pass the least
  loaded worker over: with 9, 5, 1 and 9 entries and worker 0 as home it answers worker 1.
\<close>

lemma scan_can_skip_least: "scan_loads (\<lambda>w. [9, 5, 1, 9] ! w) 4 0 0 9 = 1"
  by (simp add: scan_loads.simps numeral_2_eq_2)

text \<open>
  An entry goes where there is room, and the home queue is preferred. \<open>pickWorker\<close> answers with an
  existing worker, with the actor's home whenever its queue is below the watermark, and never with a
  worker that is more loaded than home.
\<close>

theorem pick_worker_choice:
  assumes "0 < ds_workers d"
  shows "pick_worker a d < ds_workers d \<and>
    (ds_load d (a mod ds_workers d) < ds_high d \<longrightarrow> pick_worker a d = a mod ds_workers d) \<and>
    ds_load d (pick_worker a d) \<le> ds_load d (a mod ds_workers d)"
  using pick_worker_range[OF assms] scan_loads_ok[of "a mod ds_workers d" "ds_workers d"] assms
  by (simp add: pick_worker_def pick_least_loaded_def Let_def)

theorem pick_worker_choice_witness:
  "pick_worker 7 \<lparr>ds_queues = [\<lparr>bq_items = [1], bq_cap = 2\<rparr>, \<lparr>bq_items = [2, 3], bq_cap = 2\<rparr>], ds_semas = [0, 0], ds_high = 1,
     ds_held = [], ds_pended = [], ds_pending = 0, ds_running = True, ds_draining = False, ds_backoff = [], ds_busyUs = 0,
     ds_idleUs = 0\<rparr> < 2"
  using pick_worker_choice[of "\<lparr>ds_queues = [\<lparr>bq_items = [1], bq_cap = 2\<rparr>, \<lparr>bq_items = [2, 3], bq_cap = 2\<rparr>], ds_semas = [0, 0],
     ds_high = 1, ds_held = [], ds_pended = [], ds_pending = 0, ds_running = True, ds_draining = False, ds_backoff = [],
     ds_busyUs = 0, ds_idleUs = 0\<rparr>" 7] by simp

definition queue_entries :: "dispatcher \<Rightarrow> nat multiset" where
  "queue_entries d = sum_list (map (\<lambda>q. mset (bq_items q)) (ds_queues d))"

definition all_entries :: "dispatcher \<Rightarrow> nat multiset" where
  "all_entries d = queue_entries d + mset (ds_pended d)"

lemma sum_mset_update:
  "i < length qs \<Longrightarrow> sum_list (map f (qs[i := q])) + f (qs ! i) = sum_list (map f qs) + (f q :: nat multiset)"
proof (induction qs arbitrary: i)
  case (Cons x xs)
  show ?case
  proof (cases i)
    case 0
    then show ?thesis by (simp add: ac_simps)
  next
    case (Suc j)
    have "sum_list (map f (xs[j := q])) + f (xs ! j) = sum_list (map f xs) + f q" using Cons Suc by simp
    then show ?thesis using Suc by (simp add: add.assoc)
  qed
qed simp

lemma entries_empty: "queue_entries d = {#} \<longleftrightarrow> (\<forall>w < ds_workers d. bq_items (ds_queues d ! w) = [])"
proof -
  have "sum_list (map (\<lambda>q. mset (bq_items q)) qs) = {#} \<longleftrightarrow> (\<forall>q \<in> set qs. bq_items q = [])" for qs :: "nat bq list"
    by (induction qs) auto
  then show ?thesis by (simp add: queue_entries_def all_set_conv_all_nth)
qed

lemma pop_entry:
  assumes "w < ds_workers d" and "bq_items (ds_queues d ! w) = a # as"
    and "ds_queues d' = (ds_queues d)[w := (ds_queues d ! w)\<lparr>bq_items := as\<rparr>]"
  shows "queue_entries d = add_mset a (queue_entries d')"
  using sum_mset_update[of w "ds_queues d" "\<lambda>q. mset (bq_items q)" "(ds_queues d ! w)\<lparr>bq_items := as\<rparr>"] assms
  by (simp add: queue_entries_def)

lemma steal_from_ok:
  assumes "w < ds_workers d"
  shows "case steal_from w i d of
     (None, d') \<Rightarrow> d' = d \<and> (\<forall>j. i \<le> j \<and> j < ds_workers d \<longrightarrow> bq_items (ds_queues d ! ((w + j) mod ds_workers d)) = [])
   | (Some a, d') \<Rightarrow> queue_entries d = add_mset a (queue_entries d') \<and> ds_pended d' = ds_pended d"
  using assms
proof (induction w i d rule: steal_from.induct)
  case (1 w i d)
  let ?v = "(w + i) mod ds_workers d"
  show ?case
  proof (cases "i < ds_workers d")
    case False
    then have "steal_from w i d = (None, d)" by (simp add: steal_from.simps)
    then show ?thesis using False by auto
  next
    case True
    have v: "?v < ds_workers d" using 1(3) by (intro mod_less_divisor) linarith
    show ?thesis
    proof (cases "bq_items (ds_queues d ! ?v)")
      case Nil
      have e: "steal_from w i d = steal_from w (i + 1) d"
        using True Nil by (simp add: steal_from.simps[of w i] bq_empty_def)
      have "case steal_from w (i + 1) d of
          (None, d') \<Rightarrow> d' = d \<and> (\<forall>j. i + 1 \<le> j \<and> j < ds_workers d \<longrightarrow> bq_items (ds_queues d ! ((w + j) mod ds_workers d)) = [])
        | (Some a, d') \<Rightarrow> queue_entries d = add_mset a (queue_entries d') \<and> ds_pended d' = ds_pended d"
        using 1(1)[OF True refl _ 1(3)] Nil by (simp add: bq_empty_def)
      moreover have "j = i \<or> i + 1 \<le> j" if "i \<le> j" for j using that by auto
      ultimately show ?thesis unfolding e using Nil by (fastforce split: prod.splits option.splits)
    next
      case (Cons a as)
      have "steal_from w i d = (Some a, d\<lparr>ds_queues := (ds_queues d)[?v := (ds_queues d ! ?v)\<lparr>bq_items := as\<rparr>],
          ds_semas := (ds_semas d)[?v := ds_semas d ! ?v - 1]\<rparr>)"
        using True Cons by (simp add: steal_from.simps[of w i] bq_empty_def bq_pop_def Let_def)
      then show ?thesis using pop_entry[OF v Cons] by simp
    qed
  qed
qed

text \<open>
  A worker that tries its own queue and then the others
  ends with nothing exactly when every queue is empty, and leaves the dispatcher as it was; otherwise it
  has taken exactly one entry out of the queues, and no entry is lost or doubled.
\<close>

lemma own_or_steal_finds_work:
  assumes "w < ds_workers d" and "(case try_acquire_own w d of (Some a, d1) \<Rightarrow> (Some a, d1) | (None, d1) \<Rightarrow> try_steal w d1) = (r, d')"
  shows "(r = None \<longleftrightarrow> queue_entries d = {#}) \<and> (r = None \<longrightarrow> d' = d) \<and>
    (\<forall>a. r = Some a \<longrightarrow> all_entries d = add_mset a (all_entries d'))"
proof (cases "bq_items (ds_queues d ! w)")
  case (Cons a as)
  then have "r = Some a" "d' = d\<lparr>ds_queues := (ds_queues d)[w := (ds_queues d ! w)\<lparr>bq_items := as\<rparr>]\<rparr>"
    using assms(2) by (simp_all add: try_acquire_own_def bq_pop_def)
  then show ?thesis using pop_entry[OF assms(1) Cons, of d'] by (simp add: all_entries_def)
next
  case Nil
  then have own: "try_acquire_own w d = (None, d)" by (simp add: try_acquire_own_def bq_pop_def)
  then have st: "steal_from w 1 d = (r, d')" using assms(2) by (simp add: try_steal_def)
  note S = steal_from_ok[OF assms(1), of 1]
  show ?thesis
  proof (cases r)
    case (Some a)
    then show ?thesis using S st by (auto simp: all_entries_def)
  next
    case None
    have "bq_items (ds_queues d ! v) = []" if v: "v < ds_workers d" for v
    proof (cases "v = w")
      case True
      then show ?thesis using Nil by simp
    next
      case False
      define j where "j = (if w < v then v - w else v + ds_workers d - w)"
      have "1 \<le> j" "j < ds_workers d" using False v assms(1) by (auto simp: j_def)
      moreover have "(w + j) mod ds_workers d = v" using False v assms(1) by (auto simp: j_def)
      ultimately show ?thesis using S st None by auto
    qed
    then show ?thesis using S st None by (simp add: entries_empty)
  qed
qed

definition demo_ds :: dispatcher where
  "demo_ds = \<lparr>ds_queues = [\<lparr>bq_items = [], bq_cap = 2\<rparr>, \<lparr>bq_items = [7], bq_cap = 2\<rparr>], ds_semas = [0, 1], ds_high = 1,
     ds_held = replicate kMaxActors False, ds_pended = [], ds_pending = 1, ds_running = True, ds_draining = False,
     ds_backoff = [False, False], ds_busyUs = 200, ds_idleUs = 2000\<rparr>"

end
