(* ===== verification/Metrics_Model.thy ===== *)
theory Metrics_Model
  imports V2_Prelude
begin

text \<open>
  The metrics registry (\<open>src/src/core/perf/metrics\<close>): 64-bit counters per actor, per worker and for the
  dispatcher, each updated by one relaxed atomic operation, and two high-water marks kept by a
  compare-and-swap loop. The theory relates the counters to the history of what was recorded.
\<close>

section \<open>State\<close>

record actor_metrics =
  mx_enqueued :: u64
  mx_processed :: u64
  mx_dropped :: u64
  mx_handleTimeNs :: u64
  mx_batches :: u64
  mx_deadLetters :: u64
  mx_peakDepth :: u64

record worker_metrics =
  mw_batches :: u64
  mw_busyTimeNs :: u64
  mw_idleTimeNs :: u64
  mw_messages :: u64

record dispatcher_metrics =
  md_dispatchCount :: u64
  md_acquireCount :: u64
  md_deduplicated :: u64
  md_stealCount :: u64
  md_stealFailCount :: u64
  md_readyQueuePeak :: u64

record metrics =
  me_enabled :: bool
  me_actors :: "actor_metrics list"
  me_workers :: "worker_metrics list"
  me_dispatcher :: dispatcher_metrics

definition actor_metrics_zero :: actor_metrics where
  "actor_metrics_zero = \<lparr>mx_enqueued = 0, mx_processed = 0, mx_dropped = 0, mx_handleTimeNs = 0, mx_batches = 0,
     mx_deadLetters = 0, mx_peakDepth = 0\<rparr>"

definition worker_metrics_zero :: worker_metrics where
  "worker_metrics_zero = \<lparr>mw_batches = 0, mw_busyTimeNs = 0, mw_idleTimeNs = 0, mw_messages = 0\<rparr>"

definition dispatcher_metrics_zero :: dispatcher_metrics where
  "dispatcher_metrics_zero = \<lparr>md_dispatchCount = 0, md_acquireCount = 0, md_deduplicated = 0, md_stealCount = 0,
     md_stealFailCount = 0, md_readyQueuePeak = 0\<rparr>"

section \<open>Operations\<close>

definition metrics_init :: "nat \<Rightarrow> metrics \<Rightarrow> metrics" where
  "metrics_init n m = m\<lparr>me_workers := replicate n worker_metrics_zero\<rparr>"

definition metrics_new :: "nat \<Rightarrow> metrics" where
  "metrics_new n =
     (let m = \<lparr>me_enabled = False, me_actors = [], me_workers = [], me_dispatcher = dispatcher_metrics_zero\<rparr>
      in if n > 0 then metrics_init n m else m)"

definition registerActor :: "u64 \<Rightarrow> metrics \<Rightarrow> metrics" where
  "registerActor a m =
     m\<lparr>me_actors := me_actors m @ replicate (unat a + 1 - length (me_actors m)) actor_metrics_zero\<rparr>"

definition setEnabled :: "bool \<Rightarrow> metrics \<Rightarrow> metrics" where
  "setEnabled b m = m\<lparr>me_enabled := b\<rparr>"

text \<open>
  \<open>updatePeak\<close>: \<open>seen\<close> are the values other threads store before each failing compare-and-swap; the loop
  reloads and tries again until the mark is at least \<open>current\<close>.
\<close>

fun update_peak :: "u64 list \<Rightarrow> u64 \<Rightarrow> u64 \<Rightarrow> u64" where
  "update_peak [] peak current = (if current > peak then current else peak)"
| "update_peak (other # seen) peak current = (if current > peak then update_peak seen other current else peak)"

definition on_actor :: "u64 \<Rightarrow> (actor_metrics \<Rightarrow> actor_metrics) \<Rightarrow> metrics \<Rightarrow> metrics" where
  "on_actor a f m =
     (if \<not> me_enabled m then m
      else if unat a \<ge> length (me_actors m) then m
      else m\<lparr>me_actors := (me_actors m)[unat a := f (me_actors m ! unat a)]\<rparr>)"

definition on_dispatcher :: "(dispatcher_metrics \<Rightarrow> dispatcher_metrics) \<Rightarrow> metrics \<Rightarrow> metrics" where
  "on_dispatcher f m = (if \<not> me_enabled m then m else m\<lparr>me_dispatcher := f (me_dispatcher m)\<rparr>)"

definition recordEnqueue :: "u64 \<Rightarrow> bool \<Rightarrow> u64 \<Rightarrow> metrics \<Rightarrow> metrics" where
  "recordEnqueue a success depth =
     on_actor a (\<lambda>x. if success
        then x\<lparr>mx_enqueued := mx_enqueued x + 1, mx_peakDepth := update_peak [] (mx_peakDepth x) depth\<rparr>
        else x\<lparr>mx_dropped := mx_dropped x + 1\<rparr>)"

definition recordHandle :: "u64 \<Rightarrow> u64 \<Rightarrow> u64 \<Rightarrow> metrics \<Rightarrow> metrics" where
  "recordHandle a n durationNs =
     on_actor a (\<lambda>x. x\<lparr>mx_processed := mx_processed x + n, mx_handleTimeNs := mx_handleTimeNs x + durationNs,
        mx_batches := mx_batches x + 1\<rparr>)"

definition recordDeadLetter :: "u64 \<Rightarrow> metrics \<Rightarrow> metrics" where
  "recordDeadLetter a = on_actor a (\<lambda>x. x\<lparr>mx_deadLetters := mx_deadLetters x + 1\<rparr>)"

definition recordBatch :: "int \<Rightarrow> u64 \<Rightarrow> u64 \<Rightarrow> u64 \<Rightarrow> metrics \<Rightarrow> metrics" where
  "recordBatch w msgs busyNs idleNs m =
     (if \<not> me_enabled m then m
      else if w < 0 \<or> nat w \<ge> length (me_workers m) then m
      else m\<lparr>me_workers := (me_workers m)[nat w := (let x = me_workers m ! nat w in
         x\<lparr>mw_batches := mw_batches x + 1, mw_busyTimeNs := mw_busyTimeNs x + busyNs,
           mw_idleTimeNs := mw_idleTimeNs x + idleNs, mw_messages := mw_messages x + msgs\<rparr>)]\<rparr>)"

definition recordDispatch :: "bool \<Rightarrow> u64 \<Rightarrow> metrics \<Rightarrow> metrics" where
  "recordDispatch deduped depth =
     on_dispatcher (\<lambda>d. (if deduped then d\<lparr>md_dispatchCount := md_dispatchCount d + 1, md_deduplicated := md_deduplicated d + 1\<rparr>
          else d\<lparr>md_dispatchCount := md_dispatchCount d + 1\<rparr>)
        \<lparr>md_readyQueuePeak := update_peak [] (md_readyQueuePeak d) depth\<rparr>)"

definition recordAcquire :: "metrics \<Rightarrow> metrics" where
  "recordAcquire = on_dispatcher (\<lambda>d. d\<lparr>md_acquireCount := md_acquireCount d + 1\<rparr>)"

definition recordSteal :: "bool \<Rightarrow> metrics \<Rightarrow> metrics" where
  "recordSteal success = on_dispatcher (\<lambda>d. if success then d\<lparr>md_stealCount := md_stealCount d + 1\<rparr>
     else d\<lparr>md_stealFailCount := md_stealFailCount d + 1\<rparr>)"

record metrics_snap =
  sn_actors :: "(nat \<times> string \<times> actor_metrics) list"
  sn_workers :: "worker_metrics list"
  sn_dispatcher :: dispatcher_metrics

definition metrics_snapshot :: "metrics \<Rightarrow> metrics_snap" where
  "metrics_snapshot m =
     \<lparr>sn_actors = map (\<lambda>i. (i, '''', me_actors m ! i)) [0..<length (me_actors m)], sn_workers = me_workers m,
      sn_dispatcher = me_dispatcher m\<rparr>"

definition metrics_reset :: "metrics \<Rightarrow> metrics" where
  "metrics_reset m = m\<lparr>me_actors := map (\<lambda>_. actor_metrics_zero) (me_actors m),
     me_workers := map (\<lambda>_. worker_metrics_zero) (me_workers m), me_dispatcher := dispatcher_metrics_zero\<rparr>"

section \<open>The metrics in force\<close>

text \<open>\<open>activeMetrics\<close>: the registered instance, or the process-wide fallback.\<close>

definition activeMetrics :: "'m option \<Rightarrow> 'm \<Rightarrow> 'm" where
  "activeMetrics registered fallback = (case registered of Some m \<Rightarrow> m | None \<Rightarrow> fallback)"

section \<open>Counters and history\<close>

text \<open>The mark never falls and ends at least at \<open>current\<close>, whatever other threads store meanwhile.\<close>

lemma update_peak_ge: "current \<le> update_peak seen peak current"
  by (induction seen arbitrary: peak) auto

lemma update_peak_alone: "update_peak [] peak current = max peak current"
  by (auto simp: max_def)

datatype metric_event =
    EvEnqueue u64 bool u64 | EvHandle u64 u64 u64 | EvDead u64
  | EvBatch int u64 u64 u64 | EvDispatch bool u64 | EvAcquire | EvSteal bool

fun record_event :: "metric_event \<Rightarrow> metrics \<Rightarrow> metrics" where
  "record_event (EvEnqueue a ok d) = recordEnqueue a ok d"
| "record_event (EvHandle a n t) = recordHandle a n t"
| "record_event (EvDead a) = recordDeadLetter a"
| "record_event (EvBatch w n b i) = recordBatch w n b i"
| "record_event (EvDispatch dd d) = recordDispatch dd d"
| "record_event EvAcquire = recordAcquire"
| "record_event (EvSteal ok) = recordSteal ok"

text \<open>What the counters of an actor must say after a history.\<close>

definition actor_reference :: "u64 \<Rightarrow> metric_event list \<Rightarrow> actor_metrics" where
  "actor_reference a evs =
     \<lparr>mx_enqueued = of_nat (length (filter (\<lambda>e. \<exists>d. e = EvEnqueue a True d) evs)),
      mx_processed = sum_list (map (\<lambda>e. case e of EvHandle b n t \<Rightarrow> if b = a then n else 0 | _ \<Rightarrow> 0) evs),
      mx_dropped = of_nat (length (filter (\<lambda>e. \<exists>d. e = EvEnqueue a False d) evs)),
      mx_handleTimeNs = sum_list (map (\<lambda>e. case e of EvHandle b n t \<Rightarrow> if b = a then t else 0 | _ \<Rightarrow> 0) evs),
      mx_batches = of_nat (length (filter (\<lambda>e. \<exists>n t. e = EvHandle a n t) evs)),
      mx_deadLetters = of_nat (length (filter (\<lambda>e. e = EvDead a) evs)),
      mx_peakDepth = foldr max (map (\<lambda>e. case e of EvEnqueue b ok d \<Rightarrow> if b = a \<and> ok then d else 0 | _ \<Rightarrow> 0) evs) 0\<rparr>"

lemma record_event_shape [simp]:
  "length (me_actors (record_event e m)) = length (me_actors m)" "me_enabled (record_event e m) = me_enabled m"
  by (cases e; simp add: recordEnqueue_def recordHandle_def recordDeadLetter_def recordBatch_def recordDispatch_def
      recordAcquire_def recordSteal_def on_actor_def on_dispatcher_def)+

lemma max_zero [simp]: "max (0 :: u64) x = x" "max x (0 :: u64) = x"
  by (simp_all add: max_def)

lemma record_event_actor:
  assumes en: "me_enabled m" and a: "unat a < length (me_actors m)" and r: "me_actors m ! unat a = actor_reference a evs"
  shows "me_actors (record_event e m) ! unat a = actor_reference a (e # evs)"
proof (cases e)
  case (EvEnqueue b ok d)
  show ?thesis
  proof (cases "b = a")
    case True
    then show ?thesis using en a EvEnqueue r
      by (cases ok) (simp_all add: recordEnqueue_def on_actor_def actor_reference_def update_peak_alone max.commute
        del: update_peak.simps)
  next
    case False
    then have "unat b \<noteq> unat a" by (metis word_eq_iff_unsigned)
    then show ?thesis using en a EvEnqueue r False
      by (simp add: recordEnqueue_def on_actor_def actor_reference_def)
  qed
next
  case (EvHandle b n t)
  show ?thesis
  proof (cases "b = a")
    case True
    then show ?thesis using en a EvHandle r by (simp add: recordHandle_def on_actor_def actor_reference_def add.commute)
  next
    case False
    then have "unat b \<noteq> unat a" by (metis word_eq_iff_unsigned)
    then show ?thesis using en a EvHandle r False by (simp add: recordHandle_def on_actor_def actor_reference_def)
  qed
next
  case (EvDead b)
  show ?thesis
  proof (cases "b = a")
    case True
    then show ?thesis using en a EvDead r by (simp add: recordDeadLetter_def on_actor_def actor_reference_def)
  next
    case False
    then have "unat b \<noteq> unat a" by (metis word_eq_iff_unsigned)
    then show ?thesis using en a EvDead r False by (simp add: recordDeadLetter_def on_actor_def actor_reference_def)
  qed
qed (use r in \<open>simp_all add: recordBatch_def recordDispatch_def recordAcquire_def recordSteal_def on_dispatcher_def
    actor_reference_def\<close>)

text \<open>
  C21: the counters say what happened. After any history of recorded events - of all actors, workers and
  the dispatcher, in any order - the metrics of a registered actor are those of the reference that counts
  the history: successful and refused enqueues, messages, time and batches, dead letters, and the greatest
  depth seen (counters are modulo 2 to the 64).
\<close>

theorem metrics_match_history:
  assumes "me_enabled m" and "unat a < length (me_actors m)" and "me_actors m ! unat a = actor_metrics_zero"
  shows "me_actors (foldr record_event evs m) ! unat a = actor_reference a evs"
proof -
  have "me_actors (foldr record_event evs m) ! unat a = actor_reference a evs \<and> me_enabled (foldr record_event evs m) \<and>
      length (me_actors (foldr record_event evs m)) = length (me_actors m)"
  proof (induction evs)
    case Nil
    then show ?case using assms by (simp add: actor_reference_def actor_metrics_zero_def)
  next
    case (Cons e evs)
    then show ?case using record_event_actor[of "foldr record_event evs m" a evs e] assms(2) by simp
  qed
  then show ?thesis by simp
qed

theorem metrics_match_history_witness:
  "me_actors (foldr record_event [EvDead 1, EvEnqueue 1 True 5, EvEnqueue 0 True 9] (registerActor 1 (setEnabled True (metrics_new 2))))
     ! unat (1 :: u64) = actor_reference 1 [EvDead 1, EvEnqueue 1 True 5, EvEnqueue 0 True 9]"
  by (rule metrics_match_history)
    (simp_all add: registerActor_def setEnabled_def metrics_new_def metrics_init_def Let_def numeral_2_eq_2)

end
