(* ===== verification/Actor_System.thy ===== *)
theory Actor_System
  imports Actor_Registry Work_Dispatcher Metrics_Model
begin

text \<open>
  The actor system (\<open>src/src/core/actor_system/actor_system.cpp\<close>, \<open>actor_system.hpp\<close>): it numbers and attaches the actors,
  starts the parts in order, and takes everything down again on \<open>stop\<close> or when an actor's \<open>open\<close> throws. Its parts are the
  models of the registry, the dispatcher and the metrics; of the scheduler, the event loop and the workers it keeps here
  only whether they run, and of the actors the record of the calls of \<open>open\<close> and \<open>close\<close> the system has made. What an
  actor's own \<open>open\<close> and \<open>close\<close> do is a parameter.
\<close>

section \<open>State\<close>

record attached =
  ac_ref :: actor_ref
  ac_capacity :: nat

datatype life_call = Open nat | Close nat

record actor_system =
  sy_registry :: registry
  sy_dispatcher :: dispatcher
  sy_metrics :: metrics
  sy_scheduler :: bool
  sy_eventLoop :: "bool option"
  sy_defaultMailbox :: nat
  sy_maxBatch :: int
  sy_nextActorId :: u64
  sy_workers :: "bool list"
  sy_actors :: "attached list"
  sy_calls :: "life_call list"

record system_config =
  sc_numWorkers :: int
  sc_maxBatch :: int
  sc_busyStealIntervalUs :: int
  sc_idleStealIntervalUs :: int
  sc_parkSpinNs :: int
  sc_tokenGraceNs :: int
  sc_defaultMailboxSize :: nat
  sc_dispatcherQueueCapacity :: int
  sc_dispatcherHighWatermark :: int
  sc_supervisorMaxRestarts :: int
  sc_supervisorDefaultStrategy :: int
  sc_deadLetterQueueCapacity :: int

definition default_config :: system_config where
  "default_config = \<lparr>sc_numWorkers = 4, sc_maxBatch = 32, sc_busyStealIntervalUs = 200, sc_idleStealIntervalUs = 2000,
     sc_parkSpinNs = 3000, sc_tokenGraceNs = 5000, sc_defaultMailboxSize = 512, sc_dispatcherQueueCapacity = 1024,
     sc_dispatcherHighWatermark = 0, sc_supervisorMaxRestarts = 5, sc_supervisorDefaultStrategy = 0,
     sc_deadLetterQueueCapacity = 128\<rparr>"

section \<open>Construction\<close>

definition dispatcher_config :: "system_config \<Rightarrow> wdcfg" where
  "dispatcher_config c = \<lparr>wc_workerCount = sc_numWorkers c, wc_queueCapacity = sc_dispatcherQueueCapacity c,
     wc_highWatermark = sc_dispatcherHighWatermark c, wc_busyStealIntervalUs = sc_busyStealIntervalUs c,
     wc_idleStealIntervalUs = sc_idleStealIntervalUs c, wc_parkSpinNs = sc_parkSpinNs c, wc_tokenGraceNs = sc_tokenGraceNs c\<rparr>"

definition system_new :: "system_config \<Rightarrow> dispatcher \<Rightarrow> bool option \<Rightarrow> metrics \<Rightarrow> actor_system" where
  "system_new c d loop m =
     \<lparr>sy_registry = registry_new, sy_dispatcher = d, sy_metrics = metrics_init (nat (sc_numWorkers c)) m,
      sy_scheduler = False, sy_eventLoop = loop, sy_defaultMailbox = sc_defaultMailboxSize c, sy_maxBatch = sc_maxBatch c,
      sy_nextActorId = 0, sy_workers = replicate (nat (sc_numWorkers c)) False, sy_actors = [], sy_calls = []\<rparr>"

text \<open>\<open>createDefaultActorSystem\<close>: \<open>None\<close> when the dead-letter queue or the dispatcher refuses its configuration. The
  strategy is cast from the configured number, whatever it is.\<close>

definition strategy_of :: "int \<Rightarrow> restart_strategy" where
  "strategy_of n = (if n = 0 then OneForOne else if n = 1 then OneForAll else if n = 2 then NoRestart else Unlisted n)"

definition createDefaultActorSystem :: "system_config \<Rightarrow> bool \<Rightarrow> metrics \<Rightarrow> (actor_system \<times> 'm sup) option" where
  "createDefaultActorSystem c hasLoop m =
     (case (bq_new (nat (sc_deadLetterQueueCapacity c)), dispatcher_new (dispatcher_config c)) of
        (Some dlq, Some d) \<Rightarrow>
          Some (system_new c d (if hasLoop then Some False else None) m,
                sup_new dlq (sc_supervisorMaxRestarts c) (strategy_of (sc_supervisorDefaultStrategy c)))
      | _ \<Rightarrow> None)"

section \<open>Attaching actors\<close>

text \<open>\<open>createActor\<close> of an actor that lives at \<open>addr\<close>: \<open>None\<close> is an exception, of which the counter of ids remembers that
  one was taken. A mailbox size of 0 means the default; a ring refuses a capacity of 0.\<close>

definition attachActor :: "actor_ref \<Rightarrow> nat \<Rightarrow> actor_system \<Rightarrow> actor_system option" where
  "attachActor a mailboxSize s =
     (if unat (ar_id a) \<ge> kMaxActors then None
      else if mailboxSize = 0 then None
      else Some (s\<lparr>sy_registry := reg_add a (sy_registry s),
                   sy_actors := sy_actors s @ [\<lparr>ac_ref = a, ac_capacity = mailboxSize\<rparr>],
                   sy_metrics := registerActor (ar_id a) (sy_metrics s)\<rparr>))"

definition createActor :: "nat \<Rightarrow> string \<Rightarrow> nat \<Rightarrow> actor_system \<Rightarrow> bool \<times> actor_system" where
  "createActor addr nm mailboxSize s =
     (let sz = (if mailboxSize = 0 then sy_defaultMailbox s else mailboxSize);
          i = sy_nextActorId s;
          s1 = s\<lparr>sy_nextActorId := i + 1\<rparr>
      in case attachActor \<lparr>ar_addr = addr, ar_id = i, ar_name = nm\<rparr> sz s1 of
           None \<Rightarrow> (False, s1)
         | Some s2 \<Rightarrow> (True, s2))"

section \<open>Starting and stopping\<close>

text \<open>What the actors' own code does: whether \<open>open\<close> and \<open>close\<close> of the actor at an address throw. A result other than
  \<open>Ok\<close> of \<open>open\<close> is only logged.\<close>

record life_code =
  lc_open :: "nat \<Rightarrow> bool"
  lc_close :: "nat \<Rightarrow> bool"

text \<open>One call after the other, up to the first exception: the calls made, and whether one threw.\<close>

fun call_each :: "(nat \<Rightarrow> life_call) \<Rightarrow> (nat \<Rightarrow> bool) \<Rightarrow> attached list \<Rightarrow> life_call list \<times> bool" where
  "call_each call throws [] = ([], False)"
| "call_each call throws (a # as) =
     (let x = ar_addr (ac_ref a) in
      if throws x then ([call x], True)
      else (case call_each call throws as of (cs, t) \<Rightarrow> (call x # cs, t)))"

text \<open>\<open>stop\<close> and \<open>start\<close> answer whether they returned. A worker's \<open>stop\<close> waits until its thread has left its loop.\<close>

definition stop_parts :: "actor_system \<Rightarrow> actor_system" where
  "stop_parts s =
     (let s = s\<lparr>sy_scheduler := False\<rparr>;
          s = s\<lparr>sy_eventLoop := map_option (\<lambda>_. False) (sy_eventLoop s)\<rparr>;
          s = s\<lparr>sy_dispatcher := begin_drain (sy_dispatcher s)\<rparr>;
          s = s\<lparr>sy_workers := map (\<lambda>_. False) (sy_workers s)\<rparr>
      in s\<lparr>sy_dispatcher := ds_stop (sy_dispatcher s)\<rparr>)"

definition sys_stop :: "life_code \<Rightarrow> actor_system \<Rightarrow> bool \<times> actor_system" where
  "sys_stop U s =
     (let s = stop_parts s in
      case call_each Close (lc_close U) (sy_actors s) of (cs, threw) \<Rightarrow> (\<not> threw, s\<lparr>sy_calls := sy_calls s @ cs\<rparr>))"

definition start_parts :: "actor_system \<Rightarrow> actor_system" where
  "start_parts s =
     (let s = s\<lparr>sy_dispatcher := ds_start (sy_dispatcher s)\<rparr>;
          s = s\<lparr>sy_eventLoop := map_option (\<lambda>_. True) (sy_eventLoop s)\<rparr>
      in s\<lparr>sy_scheduler := True\<rparr>)"

definition sys_start :: "life_code \<Rightarrow> actor_system \<Rightarrow> bool \<times> actor_system" where
  "sys_start U s =
     (let s = start_parts s in
      case call_each Open (lc_open U) (sy_actors s) of
        (cs, threw) \<Rightarrow>
          (let s = s\<lparr>sy_calls := sy_calls s @ cs\<rparr> in
           if threw then (False, snd (sys_stop U s))
           else (True, s\<lparr>sy_workers := map (\<lambda>_. True) (sy_workers s)\<rparr>)))"

definition sys_requestStop :: "actor_system \<Rightarrow> actor_system" where
  "sys_requestStop s = s\<lparr>sy_eventLoop := map_option (\<lambda>_. False) (sy_eventLoop s)\<rparr>"

text \<open>\<open>run\<close> is the event loop, which returns once it is stopped; with no event loop it returns at once. The destructor
  stops and clears the registry.\<close>

definition sys_destroy :: "life_code \<Rightarrow> actor_system \<Rightarrow> bool \<times> actor_system" where
  "sys_destroy U s = (case sys_stop U s of (ok, s) \<Rightarrow> (ok, s\<lparr>sy_registry := reg_clear (sy_registry s)\<rparr>))"

text \<open>The broadcast callback: a restart request for every actor a handle of the registry resolves to.\<close>

definition restart_targets :: "u64 list \<Rightarrow> actor_system \<Rightarrow> actor_ref list" where
  "restart_targets order s =
     concat (map (\<lambda>h. case handle_get h (sy_registry s) of None \<Rightarrow> [] | Some a \<Rightarrow> [a]) (reg_handles order (sy_registry s)))"

section \<open>Histories\<close>

datatype sys_event =
    SysCreate nat string nat | SysStart life_code | SysStop life_code | SysRequestStop

fun sys_step :: "sys_event \<Rightarrow> actor_system \<Rightarrow> actor_system" where
  "sys_step (SysCreate addr nm sz) s = snd (createActor addr nm sz s)"
| "sys_step (SysStart U) s = snd (sys_start U s)"
| "sys_step (SysStop U) s = snd (sys_stop U s)"
| "sys_step SysRequestStop s = sys_requestStop s"

definition sys_runs :: "sys_event list \<Rightarrow> actor_system \<Rightarrow> actor_system" where
  "sys_runs es s = fold sys_step es s"

section \<open>Every actor has an id, a slot and an entry of its own\<close>

definition attached_ok :: "nat \<Rightarrow> actor_system \<Rightarrow> bool" where
  "attached_ok n s \<longleftrightarrow>
     unat (sy_nextActorId s) = n
     \<and> (\<forall>a \<in> set (sy_actors s). unat (ar_id (ac_ref a)) < n \<and> unat (ar_id (ac_ref a)) < kMaxActors \<and> 0 < ac_capacity a
          \<and> unat (ar_id (ac_ref a)) < length (me_actors (sy_metrics s)))
     \<and> distinct (map (ar_id \<circ> ac_ref) (sy_actors s))
     \<and> map_option fst \<circ> rg_byId (sy_registry s) = map_of (map (\<lambda>a. (ar_id (ac_ref a), ac_ref a)) (sy_actors s))"

lemma attached_ok_new: "attached_ok 0 (system_new c d loop m)"
  by (simp add: attached_ok_def system_new_def registry_new_def fun_eq_iff)

lemma attached_ok_frame:
  assumes "sy_nextActorId s' = sy_nextActorId s" "sy_actors s' = sy_actors s" "sy_metrics s' = sy_metrics s"
    "sy_registry s' = sy_registry s"
  shows "attached_ok n s' = attached_ok n s"
  using assms by (simp add: attached_ok_def)

lemma stop_parts_fields [simp]:
  "sy_nextActorId (stop_parts s) = sy_nextActorId s" "sy_actors (stop_parts s) = sy_actors s"
  "sy_metrics (stop_parts s) = sy_metrics s" "sy_registry (stop_parts s) = sy_registry s" "sy_calls (stop_parts s) = sy_calls s"
  by (simp_all add: stop_parts_def Let_def)

lemma start_parts_fields [simp]:
  "sy_nextActorId (start_parts s) = sy_nextActorId s" "sy_actors (start_parts s) = sy_actors s"
  "sy_metrics (start_parts s) = sy_metrics s" "sy_registry (start_parts s) = sy_registry s" "sy_calls (start_parts s) = sy_calls s"
  "sy_workers (start_parts s) = sy_workers s"
  by (simp_all add: start_parts_def Let_def)

lemma sys_stop_fields:
  "sy_nextActorId (snd (sys_stop U s)) = sy_nextActorId s" "sy_actors (snd (sys_stop U s)) = sy_actors s"
  "sy_metrics (snd (sys_stop U s)) = sy_metrics s" "sy_registry (snd (sys_stop U s)) = sy_registry s"
  by (simp_all add: sys_stop_def Let_def case_prod_beta)

lemma sys_start_fields:
  "sy_nextActorId (snd (sys_start U s)) = sy_nextActorId s" "sy_actors (snd (sys_start U s)) = sy_actors s"
  "sy_metrics (snd (sys_start U s)) = sy_metrics s" "sy_registry (snd (sys_start U s)) = sy_registry s"
  by (simp_all add: sys_start_def Let_def case_prod_beta sys_stop_fields)

lemma registerActor_covers:
  "unat i < length (me_actors (registerActor i m))" "length (me_actors m) \<le> length (me_actors (registerActor i m))"
  by (simp_all add: registerActor_def)

lemma attached_ok_create:
  assumes "attached_ok n s" and "Suc n < 2 ^ 64"
  shows "attached_ok (Suc n) (snd (createActor addr nm sz s))"
proof -
  let ?i = "sy_nextActorId s"
  let ?a = "\<lparr>ar_addr = addr, ar_id = ?i, ar_name = nm\<rparr>"
  have n: "unat ?i = n" using assms(1) by (simp add: attached_ok_def)
  have nxt: "unat (?i + 1) = Suc n" using assms(2) n by (simp add: unat_word_ariths(1))
  have new: "?i \<notin> set (map (ar_id \<circ> ac_ref) (sy_actors s))"
  proof
    assume "?i \<in> set (map (ar_id \<circ> ac_ref) (sy_actors s))"
    then obtain a where "a \<in> set (sy_actors s)" "?i = ar_id (ac_ref a)" by auto
    with assms(1) n show False by (auto simp: attached_ok_def)
  qed
  show ?thesis
  proof (cases "attachActor ?a (if sz = 0 then sy_defaultMailbox s else sz) (s\<lparr>sy_nextActorId := ?i + 1\<rparr>)")
    case None
    then show ?thesis using assms(1) nxt n by (auto simp: createActor_def Let_def attached_ok_def)
  next
    case (Some s2)
    then have lim: "unat ?i < kMaxActors" and cap: "0 < (if sz = 0 then sy_defaultMailbox s else sz)"
      and s2: "s2 = s\<lparr>sy_nextActorId := ?i + 1, sy_registry := reg_add ?a (sy_registry s),
        sy_actors := sy_actors s @ [\<lparr>ac_ref = ?a, ac_capacity = (if sz = 0 then sy_defaultMailbox s else sz)\<rparr>],
        sy_metrics := registerActor ?i (sy_metrics s)\<rparr>"
      by (auto simp: attachActor_def split: if_splits)
    have reg: "map_option fst \<circ> rg_byId (reg_add ?a (sy_registry s)) = (map_option fst \<circ> rg_byId (sy_registry s))(?i \<mapsto> ?a)"
      by (auto simp: reg_add_def Let_def fun_eq_iff)
    have fresh: "map_of (map (\<lambda>a. (ar_id (ac_ref a), ac_ref a)) (sy_actors s)) ?i = None"
      using new by (force simp: map_of_eq_None_iff)
    have tab: "map_option fst \<circ> rg_byId (reg_add ?a (sy_registry s))
        = map_of (map (\<lambda>a. (ar_id (ac_ref a), ac_ref a)) (sy_actors s2))"
      using assms(1) fresh by (simp add: reg s2 attached_ok_def fun_eq_iff map_add_def split: option.split)
    have each: "\<forall>a \<in> set (sy_actors s2). unat (ar_id (ac_ref a)) < Suc n \<and> unat (ar_id (ac_ref a)) < kMaxActors \<and> 0 < ac_capacity a
          \<and> unat (ar_id (ac_ref a)) < length (me_actors (sy_metrics s2))"
      using assms(1) lim cap n registerActor_covers(1)[of ?i "sy_metrics s"] registerActor_covers(2)[of "sy_metrics s" ?i]
      by (auto simp: s2 attached_ok_def intro: less_le_trans)
    have "createActor addr nm sz s = (True, s2)" using Some by (simp add: createActor_def Let_def)
    then show ?thesis
      using each tab nxt new assms(1) by (simp add: attached_ok_def s2)
  qed
qed

fun creations :: "sys_event list \<Rightarrow> nat" where
  "creations [] = 0"
| "creations (SysCreate addr nm sz # es) = Suc (creations es)"
| "creations (e # es) = creations es"

lemma attached_ok_runs:
  assumes "attached_ok n s" and "n + creations es < 2 ^ 64"
  shows "attached_ok (n + creations es) (sys_runs es s)"
  using assms
proof (induction es arbitrary: n s)
  case (Cons e es)
  show ?case
  proof (cases e)
    case (SysCreate addr nm sz)
    with Cons.prems have "Suc n < 2 ^ 64" "Suc n + creations es < 2 ^ 64" by simp_all
    from Cons.IH[OF attached_ok_create[OF Cons.prems(1) this(1), of addr nm sz] this(2)] show ?thesis
      by (simp add: sys_runs_def SysCreate)
  next
    case (SysStart U)
    have "attached_ok n (snd (sys_start U s))"
      using Cons.prems(1) by (simp add: attached_ok_frame[OF sys_start_fields(1,2,3,4)])
    from Cons.IH[OF this] Cons.prems(2) show ?thesis by (simp add: sys_runs_def SysStart)
  next
    case (SysStop U)
    have "attached_ok n (snd (sys_stop U s))"
      using Cons.prems(1) by (simp add: attached_ok_frame[OF sys_stop_fields(1,2,3,4)])
    from Cons.IH[OF this] Cons.prems(2) show ?thesis by (simp add: sys_runs_def SysStop)
  next
    case SysRequestStop
    have "attached_ok n (sys_requestStop s)"
      using Cons.prems(1) by (simp add: attached_ok_def sys_requestStop_def)
    from Cons.IH[OF this] Cons.prems(2) show ?thesis by (simp add: sys_runs_def SysRequestStop)
  qed
qed (simp add: sys_runs_def)

lemma byId_attached:
  assumes "attached_ok n s" and "a \<in> set (sy_actors s)"
  shows "\<exists>g. rg_byId (sy_registry s) (ar_id (ac_ref a)) = Some (ac_ref a, g)"
proof -
  have "distinct (map fst (map (\<lambda>a. (ar_id (ac_ref a), ac_ref a)) (sy_actors s)))"
    using assms(1) by (simp add: attached_ok_def o_def)
  then have "map_of (map (\<lambda>a. (ar_id (ac_ref a), ac_ref a)) (sy_actors s)) (ar_id (ac_ref a)) = Some (ac_ref a)"
    using assms(2) by (simp add: map_of_eq_Some_iff)
  then have "(map_option fst \<circ> rg_byId (sy_registry s)) (ar_id (ac_ref a)) = Some (ac_ref a)"
    using assms(1) by (simp add: attached_ok_def)
  then show ?thesis by auto
qed

lemma restart_targets_all:
  assumes "attached_ok n s" and "distinct order" and "set order = set (map (ar_id \<circ> ac_ref) (sy_actors s))"
  shows "mset (restart_targets order s) = mset (map ac_ref (sy_actors s))"
proof -
  let ?f = "\<lambda>i. fst (the (rg_byId (sy_registry s) i))"
  have some: "\<exists>a g. rg_byId (sy_registry s) i = Some (a, g)" if "i \<in> set order" for i
    using byId_attached[OF assms(1)] that unfolding assms(3) by force
  have "restart_targets xs s = map ?f xs" if "set xs \<subseteq> set order" for xs
    using that
  proof (induction xs)
    case (Cons i xs)
    from Cons.prems have "i \<in> set order" by simp
    from some[OF this] obtain a g where "rg_byId (sy_registry s) i = Some (a, g)" by blast
    with Cons show ?case
      by (simp add: restart_targets_def reg_handles_def findHandleById_def handle_get_def reg_resolve_def)
  qed (simp add: restart_targets_def reg_handles_def)
  then have "restart_targets order s = map ?f order" by simp
  moreover have "mset order = mset (map (ar_id \<circ> ac_ref) (sy_actors s))"
    using assms by (simp add: set_eq_iff_mset_eq_distinct attached_ok_def del: set_map)
  ultimately have "mset (restart_targets order s) = mset (map ?f (map (ar_id \<circ> ac_ref) (sy_actors s)))"
    by (simp only: mset_map)
  also have "map ?f (map (ar_id \<circ> ac_ref) (sy_actors s)) = map ac_ref (sy_actors s)"
    using byId_attached[OF assms(1)] by force
  finally show ?thesis .
qed

text \<open>
  C31: In every history of creations, starts and stops, with fewer than \<open>2^64\<close> creations: no two attached actors share an
  id or an in-flight slot of the dispatcher, each is found in the registry under its id, by pointer and through its
  handle, its metrics have a row, and a restart broadcast, in whatever order the registry walks its table, reaches every
  attached actor exactly once.
\<close>
theorem attached_actors_have_their_own_slots:
  assumes "creations es < 2 ^ 64" and "s = sys_runs es (system_new c d loop m)"
  shows "distinct (map (\<lambda>a. unat (ar_id (ac_ref a)) mod kMaxActors) (sy_actors s))
    \<and> (\<forall>a \<in> set (sy_actors s). let i = ar_id (ac_ref a) in
         findActorById i (sy_registry s) = Some (ac_ref a)
         \<and> handle_get (findHandleById i (sy_registry s)) (sy_registry s) = Some (ac_ref a)
         \<and> unat i < length (me_actors (sy_metrics s)) \<and> 0 < ac_capacity a)
    \<and> (\<forall>order. distinct order \<and> set order = set (map (ar_id \<circ> ac_ref) (sy_actors s))
         \<longrightarrow> mset (restart_targets order s) = mset (map ac_ref (sy_actors s)))"
proof (intro conjI ballI allI impI)
  have inv: "attached_ok (creations es) s"
    using attached_ok_runs[OF attached_ok_new, of es c d loop m] assms by simp
  have ids: "distinct (map (ar_id \<circ> ac_ref) (sy_actors s))"
    and small: "\<And>a. a \<in> set (sy_actors s) \<Longrightarrow> unat (ar_id (ac_ref a)) < kMaxActors"
    using inv by (auto simp: attached_ok_def)
  have "map (\<lambda>a. unat (ar_id (ac_ref a)) mod kMaxActors) (sy_actors s) = map unat (map (ar_id \<circ> ac_ref) (sy_actors s))"
    using small by simp
  moreover have "distinct (map unat (map (ar_id \<circ> ac_ref) (sy_actors s)))"
    unfolding distinct_map[of unat] using ids by (auto simp: inj_on_def word_unat_eq_iff)
  ultimately show "distinct (map (\<lambda>a. unat (ar_id (ac_ref a)) mod kMaxActors) (sy_actors s))" by (simp only:)
  show "let i = ar_id (ac_ref a) in
         findActorById i (sy_registry s) = Some (ac_ref a)
         \<and> handle_get (findHandleById i (sy_registry s)) (sy_registry s) = Some (ac_ref a)
         \<and> unat i < length (me_actors (sy_metrics s)) \<and> 0 < ac_capacity a" if "a \<in> set (sy_actors s)" for a
    using byId_attached[OF inv that] inv that
    by (auto simp: findActorById_def findHandleById_def handle_get_def reg_resolve_def attached_ok_def)
  show "mset (restart_targets order s) = mset (map ac_ref (sy_actors s))"
    if "distinct order \<and> set order = set (map (ar_id \<circ> ac_ref) (sy_actors s))" for order
    using restart_targets_all[OF inv] that by blast
qed

definition demo_history :: "sys_event list" where
  "demo_history = [SysCreate 100 ''tick'' 0, SysStart \<lparr>lc_open = (\<lambda>_. False), lc_close = (\<lambda>_. False)\<rparr>, SysCreate 200 ''cmd'' 64]"

theorem attached_actors_have_their_own_slots_witness:
  "map (\<lambda>a. unat (ar_id (ac_ref a)) mod kMaxActors)
     (sy_actors (sys_runs demo_history (system_new default_config demo_ds None (metrics_new 2)))) = [0, 1]
   \<and> mset (restart_targets [1, 0] (sys_runs demo_history (system_new default_config demo_ds None (metrics_new 2))))
     = {#\<lparr>ar_addr = 100, ar_id = 0, ar_name = ''tick''\<rparr>, \<lparr>ar_addr = 200, ar_id = 1, ar_name = ''cmd''\<rparr>#}"
proof -
  let ?s = "sys_runs demo_history (system_new default_config demo_ds None (metrics_new 2))"
  have acts: "sy_actors ?s = [\<lparr>ac_ref = \<lparr>ar_addr = 100, ar_id = 0, ar_name = ''tick''\<rparr>, ac_capacity = 512\<rparr>,
      \<lparr>ac_ref = \<lparr>ar_addr = 200, ar_id = 1, ar_name = ''cmd''\<rparr>, ac_capacity = 64\<rparr>]"
    by (simp add: demo_history_def sys_runs_def createActor_def attachActor_def system_new_def default_config_def kMaxActors_def
        sys_start_def Let_def)
  have "creations demo_history < 2 ^ 64" by (simp add: demo_history_def)
  from attached_actors_have_their_own_slots[OF this refl, of default_config demo_ds None "metrics_new 2"]
  have "\<forall>order. distinct order \<and> set order = set (map (ar_id \<circ> ac_ref) (sy_actors ?s))
         \<longrightarrow> mset (restart_targets order ?s) = mset (map ac_ref (sy_actors ?s))" by blast
  then have "mset (restart_targets [1, 0] ?s) = mset (map ac_ref (sy_actors ?s))"
    by (rule allE[where x = "[1, 0]"]) (auto simp: acts)
  then show ?thesis by (simp add: acts kMaxActors_def)
qed

section \<open>Starting and stopping in order\<close>

lemma call_each_cases:
  "call_each call throws as = (map (\<lambda>a. call (ar_addr (ac_ref a))) as, False) \<and> (\<forall>a \<in> set as. \<not> throws (ar_addr (ac_ref a)))
   \<or> (\<exists>k < length as. throws (ar_addr (ac_ref (as ! k))) \<and> (\<forall>j < k. \<not> throws (ar_addr (ac_ref (as ! j))))
       \<and> call_each call throws as = (map (\<lambda>a. call (ar_addr (ac_ref a))) (take (Suc k) as), True))"
proof (induction as)
  case (Cons a as)
  show ?case
  proof (cases "throws (ar_addr (ac_ref a))")
    case True
    then show ?thesis by (intro disjI2 exI[of _ 0]) simp
  next
    case False
    from Cons show ?thesis
    proof
      assume "call_each call throws as = (map (\<lambda>a. call (ar_addr (ac_ref a))) as, False) \<and> (\<forall>a \<in> set as. \<not> throws (ar_addr (ac_ref a)))"
      with False show ?thesis by simp
    next
      assume "\<exists>k < length as. throws (ar_addr (ac_ref (as ! k))) \<and> (\<forall>j < k. \<not> throws (ar_addr (ac_ref (as ! j))))
       \<and> call_each call throws as = (map (\<lambda>a. call (ar_addr (ac_ref a))) (take (Suc k) as), True)"
      then obtain k where "k < length as" "throws (ar_addr (ac_ref (as ! k)))" "\<forall>j < k. \<not> throws (ar_addr (ac_ref (as ! j)))"
        "call_each call throws as = (map (\<lambda>a. call (ar_addr (ac_ref a))) (take (Suc k) as), True)" by blast
      with False show ?thesis by (intro disjI2 exI[of _ "Suc k"]) (auto simp: less_Suc_eq_0_disj)
    qed
  qed
qed simp

lemma call_each_quiet:
  "(\<forall>a \<in> set as. \<not> throws (ar_addr (ac_ref a))) \<Longrightarrow> call_each call throws as = (map (\<lambda>a. call (ar_addr (ac_ref a))) as, False)"
  using call_each_cases[of call throws as] by (auto dest: nth_mem)

text \<open>Nothing runs: no worker, no timer thread, no event loop, and the dispatcher neither runs nor drains.\<close>

definition quiet_parts :: "actor_system \<Rightarrow> bool" where
  "quiet_parts s \<longleftrightarrow> True \<notin> set (sy_workers s) \<and> \<not> sy_scheduler s \<and> sy_eventLoop s \<noteq> Some True
     \<and> \<not> ds_running (sy_dispatcher s) \<and> \<not> ds_draining (sy_dispatcher s) \<and> ds_pended (sy_dispatcher s) = []"

lemma quiet_parts_calls [simp]: "quiet_parts (s\<lparr>sy_calls := c\<rparr>) = quiet_parts s"
  by (simp add: quiet_parts_def)

lemma quiet_stop_parts [simp]: "quiet_parts (stop_parts s)"
  by (cases "sy_eventLoop s") (auto simp: quiet_parts_def stop_parts_def Let_def ds_stop_def begin_drain_def release_all_def)

lemma sys_stop_quiet: "quiet_parts (snd (sys_stop U s))"
  by (simp add: sys_stop_def Let_def case_prod_beta)



end
