(* ===== verification/Main_App.thy ===== *)
theory Main_App
  imports Config_Model Actor_System
begin

text \<open>
  The daemon (\<open>src/src/app/main/main_app.cpp\<close>) with what it is put together from: the service container
  (\<open>src/src/core/common/di/service_container.hpp\<close>), the signal handler with its pipe
  (\<open>src/src/infra/platform/linux/signal_handler.cpp\<close>), the configuration and the actor system. This is the Linux build.
\<close>

section \<open>Service container\<close>

datatype lifetime = Transient | Singleton

text \<open>A factory is a function of the world it makes objects in; it may answer a null pointer. \<open>fa_cache\<close> is the closure's
  cache, which only a singleton has.\<close>

record ('o, 'w) di_factory =
  fa_make :: "'w \<Rightarrow> 'o option \<times> 'w"
  fa_lifetime :: lifetime
  fa_cache :: "'o option"

type_synonym ('k, 'o, 'w) container = "'k \<rightharpoonup> ('o, 'w) di_factory"

definition di_bind :: "'k \<Rightarrow> ('w \<Rightarrow> 'o option \<times> 'w) \<Rightarrow> lifetime \<Rightarrow> ('k, 'o, 'w) container \<Rightarrow> ('k, 'o, 'w) container" where
  "di_bind k mk lt c = c(k \<mapsto> \<lparr>fa_make = mk, fa_lifetime = lt, fa_cache = None\<rparr>)"

text \<open>\<open>resolve\<close>: \<open>None\<close> throws, as nothing is registered; otherwise a pointer, possibly null.\<close>

definition di_resolve :: "'k \<Rightarrow> ('k, 'o, 'w) container \<Rightarrow> 'w \<Rightarrow> ('o option \<times> ('k, 'o, 'w) container \<times> 'w) option" where
  "di_resolve k c w =
     (case c k of
        None \<Rightarrow> None
      | Some f \<Rightarrow>
          (case fa_lifetime f of
             Transient \<Rightarrow> (case fa_make f w of (x, w) \<Rightarrow> Some (x, c, w))
           | Singleton \<Rightarrow> (case fa_cache f of
               Some x \<Rightarrow> Some (Some x, c, w)
             | None \<Rightarrow> (case fa_make f w of (x, w) \<Rightarrow> Some (x, c(k \<mapsto> f\<lparr>fa_cache := x\<rparr>), w)))))"

definition di_contains :: "'k \<Rightarrow> ('k, 'o, 'w) container \<Rightarrow> bool" where
  "di_contains k c \<longleftrightarrow> c k \<noteq> None"

definition di_remove :: "'k \<Rightarrow> ('k, 'o, 'w) container \<Rightarrow> bool \<times> ('k, 'o, 'w) container" where
  "di_remove k c = (c k \<noteq> None, c(k := None))"

text \<open>A singleton that has been made once is the same object for everyone after, whatever else is resolved meanwhile.\<close>

fun resolve_all :: "'k list \<Rightarrow> ('k, 'o, 'w) container \<Rightarrow> 'w \<Rightarrow> ('k, 'o, 'w) container \<times> 'w" where
  "resolve_all [] c w = (c, w)"
| "resolve_all (k # ks) c w = (case di_resolve k c w of None \<Rightarrow> (c, w) | Some (x, c, w) \<Rightarrow> resolve_all ks c w)"

lemma resolve_keeps_cached:
  assumes "c k = Some f" and "fa_lifetime f = Singleton" and "fa_cache f = Some x"
  shows "fst (resolve_all ks c w) k = Some f"
  using assms
proof (induction ks arbitrary: c w)
  case (Cons k' ks)
  show ?case
  proof (cases "di_resolve k' c w")
    case (Some r)
    obtain y c' w' where r: "r = (y, c', w')" by (cases r)
    from Some r Cons.prems have "c' k = Some f"
      by (cases "c k'"; cases "k' = k") (auto simp: di_resolve_def split: lifetime.splits option.splits prod.splits)
    with Cons.IH[where c = c' and w = w'] Cons.prems(2,3) Some r show ?thesis by simp
  qed (use Cons.prems in simp)
qed simp

theorem singleton_is_shared:
  assumes "c k = Some f" and "fa_lifetime f = Singleton" and "di_resolve k c w = Some (Some x, c', w')"
    and "resolve_all ks c' w' = (c'', w'')"
  shows "di_resolve k c'' w'' = Some (Some x, c'', w'')"
proof -
  obtain g where g: "c' k = Some g" "fa_lifetime g = Singleton" "fa_cache g = Some x"
    using assms(1-3) by (auto simp: di_resolve_def split: option.splits prod.splits)
  with resolve_keeps_cached[where c = c' and k = k and f = g and x = x and ks = ks and w = w'] assms(4)
  show ?thesis by (simp add: di_resolve_def)
qed

section \<open>Signals\<close>

text \<open>The pipe holds at most \<open>room\<close> numbers; it is written without blocking, from the signal's own context.\<close>

record 'cb signal_handler =
  sg_callbacks :: "int \<Rightarrow> 'cb list"
  sg_caught :: "int \<Rightarrow> bool"
  sg_pipe :: "(int \<times> int) option"
  sg_queue :: "int list"

definition signal_handler_new :: "'cb signal_handler" where
  "signal_handler_new = \<lparr>sg_callbacks = (\<lambda>_. []), sg_caught = (\<lambda>_. False), sg_pipe = None, sg_queue = []\<rparr>"

definition valid_signal :: "int \<Rightarrow> bool" where
  "valid_signal sig \<longleftrightarrow> \<not> (sig < 1 \<or> sig > 64)"

text \<open>\<open>pipe2\<close> answers the two ends, or fails.\<close>

definition sg_init :: "(int \<times> int) option \<Rightarrow> 'cb signal_handler \<Rightarrow> result_code \<times> 'cb signal_handler" where
  "sg_init ends s =
     (if sg_pipe s \<noteq> None then (Fail, s)
      else (case ends of None \<Rightarrow> (Fail, s) | Some e \<Rightarrow> (Ok, s\<lparr>sg_pipe := Some e\<rparr>)))"

definition sg_fd :: "'cb signal_handler \<Rightarrow> int" where
  "sg_fd s = (case sg_pipe s of None \<Rightarrow> -1 | Some (r, w) \<Rightarrow> r)"

definition on_signal_caught :: "nat \<Rightarrow> int \<Rightarrow> 'cb signal_handler \<Rightarrow> 'cb signal_handler" where
  "on_signal_caught room sig s =
     (if sg_pipe s = None then s
      else if length (sg_queue s) < room then s\<lparr>sg_queue := sg_queue s @ [sig]\<rparr> else s)"

definition sg_install :: "int \<Rightarrow> 'cb \<Rightarrow> 'cb signal_handler \<Rightarrow> bool \<times> 'cb signal_handler" where
  "sg_install sig cb s =
     (if \<not> valid_signal sig then (False, s)
      else if sig = 9 \<or> sig = 19 then (False, s)
      else (True, s\<lparr>sg_callbacks := (sg_callbacks s)(sig := sg_callbacks s sig @ [cb]), sg_caught := (sg_caught s)(sig := True)\<rparr>))"

definition sg_uninstall :: "int \<Rightarrow> 'cb signal_handler \<Rightarrow> bool \<times> 'cb signal_handler" where
  "sg_uninstall sig s =
     (if \<not> valid_signal sig then (False, s)
      else (True, s\<lparr>sg_callbacks := (sg_callbacks s)(sig := []), sg_caught := (sg_caught s)(sig := False)\<rparr>))"

text \<open>\<open>dispatch\<close>: the callbacks called, in order.\<close>

definition sg_dispatch :: "int \<Rightarrow> 'cb signal_handler \<Rightarrow> ('cb \<times> int) list" where
  "sg_dispatch sig s = (if \<not> valid_signal sig then [] else map (\<lambda>cb. (cb, sig)) (sg_callbacks s sig))"

text \<open>The reader's callback takes one number out of the pipe.\<close>

definition sg_read :: "'cb signal_handler \<Rightarrow> int option \<times> 'cb signal_handler" where
  "sg_read s = (case sg_queue s of [] \<Rightarrow> (None, s) | sig # q \<Rightarrow> (Some sig, s\<lparr>sg_queue := q\<rparr>))"

fun sg_read_all :: "nat \<Rightarrow> 'cb signal_handler \<Rightarrow> int list \<times> 'cb signal_handler" where
  "sg_read_all 0 s = ([], s)"
| "sg_read_all (Suc n) s = (case sg_read s of (None, s) \<Rightarrow> ([], s) | (Some sig, s) \<Rightarrow> (case sg_read_all n s of (sigs, s) \<Rightarrow> (sig # sigs, s)))"

lemma sg_read_all_queue: "fst (sg_read_all n s) = take n (sg_queue s)"
proof (induction n arbitrary: s)
  case (Suc n)
  then show ?case by (cases "sg_queue s") (simp_all add: sg_read_def case_prod_beta)
qed simp

text \<open>Signals that arrive while the pipe has room are read in the order of their arrival, none lost.\<close>

theorem signals_arrive_in_order:
  assumes "sg_pipe s \<noteq> None" and "length (sg_queue s) + length sigs \<le> room"
  shows "fst (sg_read_all (length (sg_queue s) + length sigs) (fold (on_signal_caught room) sigs s)) = sg_queue s @ sigs"
proof -
  have "sg_queue (fold (on_signal_caught room) sigs s) = sg_queue s @ sigs"
    using assms
  proof (induction sigs arbitrary: s)
    case (Cons sig sigs)
    have st: "on_signal_caught room sig s = s\<lparr>sg_queue := sg_queue s @ [sig]\<rparr>"
      using Cons.prems by (simp add: on_signal_caught_def)
    have "sg_queue (fold (on_signal_caught room) sigs (s\<lparr>sg_queue := sg_queue s @ [sig]\<rparr>)) = (sg_queue s @ [sig]) @ sigs"
      using Cons.IH[of "s\<lparr>sg_queue := sg_queue s @ [sig]\<rparr>"] Cons.prems by simp
    then show ?case by (simp add: st)
  qed simp
  then show ?thesis by (simp add: sg_read_all_queue)
qed

section \<open>The actors the daemon creates\<close>

text \<open>A name and whether the actor is essential, in the order of creation; which ones depends on the configuration.\<close>

definition actor_plan :: "runtime_config \<Rightarrow> (string \<times> bool) list" where
  "actor_plan c =
     [(''system_manager'', True), (''cmd'', True)]
     @ (if cf_enableDeviceManager c then [(''device_manager'', True)] else [])
     @ (if cf_enableTick c then [(''tick'', False)] else [])
     @ (if cf_enableMonitor c then [(''monitor'', True), (''monitor_bridge'', True)] else [])
     @ (if cf_enableIpcServer c then [(''ipc_server'', True)] else [])
     @ (if cf_enableDbus c then [(''dbus'', True)] else [])
     @ (if cf_enableDbus c \<and> cf_enableNetworkManager c then [(''network_manager'', False)] else [])"

text \<open>An \<open>int\<close> of the configuration becomes a \<open>size_t\<close>: a negative number becomes a huge one.\<close>

definition to_size :: "32 word \<Rightarrow> nat" where
  "to_size w = unat (word_of_int (sint w) :: u64)"

definition system_config_of :: "runtime_config \<Rightarrow> system_config" where
  "system_config_of c = \<lparr>sc_numWorkers = sint (cf_workerCount c), sc_maxBatch = sint (cf_workerMaxBatch c),
     sc_busyStealIntervalUs = sint (cf_busyStealIntervalUs c), sc_idleStealIntervalUs = sint (cf_idleStealIntervalUs c),
     sc_parkSpinNs = sint (cf_parkSpinNs c), sc_tokenGraceNs = sint (cf_tokenGraceNs c),
     sc_defaultMailboxSize = to_size (cf_defaultMailboxSize c),
     sc_dispatcherQueueCapacity = sint (cf_dispatcherQueueCapacity c),
     sc_dispatcherHighWatermark = sint (cf_dispatcherHighWatermark c),
     sc_supervisorMaxRestarts = sint (cf_supervisorMaxRestarts c),
     sc_supervisorDefaultStrategy = sint (cf_supervisorDefaultStrategy c),
     sc_deadLetterQueueCapacity = sint (cf_deadLetterQueueCapacity c)\<rparr>"

text \<open>One \<open>createActor\<close> after the other, each new object at an address of its own, up to the first exception.\<close>

fun create_each :: "nat list \<Rightarrow> string list \<Rightarrow> nat \<Rightarrow> actor_system \<Rightarrow> bool \<times> actor_system" where
  "create_each (addr # addrs) (n # ns) sz s =
     (case createActor addr n sz s of (False, s) \<Rightarrow> (False, s) | (True, s) \<Rightarrow> create_each addrs ns sz s)"
| "create_each _ _ sz s = (True, s)"

text \<open>\<open>createActors\<close>: \<open>None\<close> is an exception, or the failed assertion of the dispatcher.\<close>

definition createActors :: "runtime_config \<Rightarrow> nat list \<Rightarrow> metrics \<Rightarrow> (actor_system \<times> 'm sup) option" where
  "createActors c addrs m =
     (case createDefaultActorSystem (system_config_of c) True m of
        None \<Rightarrow> None
      | Some (s, sv) \<Rightarrow>
          (case create_each addrs (map fst (actor_plan c)) (to_size (cf_defaultMailboxSize c)) s of
             (False, _) \<Rightarrow> None
           | (True, s) \<Rightarrow> Some (s, sv)))"

lemma actor_plan_names: "distinct (map fst (actor_plan c))"
  by (auto simp: actor_plan_def)

lemma actor_plan_length: "length (actor_plan c) \<le> 9"
  by (simp add: actor_plan_def)

section \<open>Opening, running and closing\<close>

text \<open>What the two hardware services and the system's parts have been told.\<close>

record app =
  ap_cfg :: runtime_config
  ap_running :: bool
  ap_system :: "actor_system option"
  ap_devices :: bool
  ap_caught :: "int set"

definition app_new :: "32 word \<Rightarrow> app" where
  "app_new level = \<lparr>ap_cfg = runtime_config_default level, ap_running = False, ap_system = None, ap_devices = False,
     ap_caught = {}\<rparr>"

text \<open>\<open>open\<close>: the configuration, the signal callbacks, the devices, the actors, and the start; the answer is whether it
  returned. An exception of \<open>createActors\<close> leaves the devices open, one of \<open>start\<close> the stopped system as well.\<close>

definition app_open :: "'f fconv \<Rightarrow> 32 word \<Rightarrow> 'f json option option \<Rightarrow> nat list \<Rightarrow> metrics \<Rightarrow> life_code \<Rightarrow> app \<Rightarrow> bool \<times> app" where
  "app_open cv level file addrs m U a =
     (let a = a\<lparr>ap_cfg := loadFromFile cv level file\<rparr>;
          a = a\<lparr>ap_caught := ap_caught a \<union> {2, 15}, ap_devices := True\<rparr>
      in case (createActors (ap_cfg a) addrs m :: (actor_system \<times> unit sup) option) of
           None \<Rightarrow> (False, a)
         | Some (s, _) \<Rightarrow> (case sys_start U s of (ok, s) \<Rightarrow> (ok, a\<lparr>ap_system := Some s\<rparr>)))"

definition app_requestStop :: "app \<Rightarrow> app" where
  "app_requestStop a = a\<lparr>ap_running := False, ap_system := map_option sys_requestStop (ap_system a)\<rparr>"

text \<open>\<open>close\<close> stops the system and then destroys it, which stops it a second time; the answer is whether no exception
  was thrown.\<close>

definition app_close :: "life_code \<Rightarrow> app \<Rightarrow> bool \<times> app" where
  "app_close U a =
     (let a = a\<lparr>ap_running := False\<rparr> in
      case ap_system a of
        None \<Rightarrow> (True, a\<lparr>ap_devices := False\<rparr>)
      | Some s \<Rightarrow>
          (case sys_stop U s of
             (False, s) \<Rightarrow> (False, a\<lparr>ap_system := Some s\<rparr>)
           | (True, s) \<Rightarrow> (case sys_destroy U s of
               (False, s) \<Rightarrow> (False, a\<lparr>ap_system := None\<rparr>)
             | (True, s) \<Rightarrow> (True, a\<lparr>ap_system := None, ap_devices := False\<rparr>))))"

text \<open>\<open>run\<close> in steps, between which other threads may request a stop: it sets \<open>isRunning_\<close>, is in the event loop until
  that is no longer running, and then sleeps until \<open>isRunning_\<close> is false.\<close>

datatype run_pc = RunLoop | RunSleep | RunOver

definition run_begin :: "app \<Rightarrow> app \<times> run_pc" where
  "run_begin a = (a\<lparr>ap_running := True\<rparr>, if ap_system a = None then RunSleep else RunLoop)"

definition loop_running :: "app \<Rightarrow> bool" where
  "loop_running a \<longleftrightarrow> (case ap_system a of None \<Rightarrow> False | Some s \<Rightarrow> sy_eventLoop s = Some True)"

fun run_step :: "app \<times> run_pc \<Rightarrow> app \<times> run_pc" where
  "run_step (a, RunLoop) = (a, if loop_running a then RunLoop else RunSleep)"
| "run_step (a, RunSleep) = (a, if ap_running a then RunSleep else RunOver)"
| "run_step (a, RunOver) = (a, RunOver)"

datatype run_event = RunStep | StopRequested

fun run_events :: "run_event list \<Rightarrow> app \<times> run_pc \<Rightarrow> app \<times> run_pc" where
  "run_events [] s = s"
| "run_events (RunStep # es) s = run_events es (run_step s)"
| "run_events (StopRequested # es) (a, pc) = run_events es (app_requestStop a, pc)"

lemma requestStop_effect [simp]:
  "\<not> loop_running (app_requestStop a)" "\<not> ap_running (app_requestStop a)"
  by (auto simp: loop_running_def app_requestStop_def sys_requestStop_def split: option.split)

definition stopping :: "app \<Rightarrow> bool" where
  "stopping a \<longleftrightarrow> \<not> loop_running a \<and> \<not> ap_running a"

lemma run_events_ends:
  assumes "stopping a" and "filter (\<lambda>e. e = RunStep) es = replicate (Suc (Suc n)) RunStep"
  shows "snd (run_events es (a, pc)) = RunOver"
  using assms
proof (induction es arbitrary: a pc n)
  case (Cons e es)
  show ?case
  proof (cases e)
    case StopRequested
    then have f: "filter (\<lambda>e. e = RunStep) es = replicate (Suc (Suc n)) RunStep" using Cons.prems(2) by simp
    have "stopping (app_requestStop a)" by (simp add: stopping_def)
    from Cons.IH[OF this f] show ?thesis by (simp add: StopRequested)
  next
    case RunStep
    have over: "snd (run_events fs (b, RunOver)) = RunOver" for fs b
    proof (induction fs arbitrary: b)
      case (Cons f fs)
      then show ?case by (cases f) simp_all
    qed simp
    have sleep: "snd (run_events fs (b, RunSleep)) = RunOver"
      if "stopping b" "filter (\<lambda>e. e = RunStep) fs = replicate (Suc k) RunStep" for fs b k
      using that
    proof (induction fs arbitrary: b)
      case (Cons f fs)
      show ?case
      proof (cases f)
        case StopRequested
        have "stopping (app_requestStop b)" by (simp add: stopping_def)
        with Cons StopRequested show ?thesis by simp
      next
        case RunStep
        then show ?thesis using Cons.prems(1) over by (simp add: stopping_def)
      qed
    qed simp
    have f: "filter (\<lambda>e. e = RunStep) es = replicate (Suc n) RunStep" using Cons.prems(2) by (simp add: RunStep)
    show ?thesis
      using Cons.prems(1) over sleep[OF Cons.prems(1) f] by (cases pc) (simp_all add: RunStep stopping_def)
  qed
qed simp

text \<open>A stop requested while \<open>run\<close> is under way ends it, whatever point it has reached: two of its steps later it has
  returned, further requests or not. One requested between \<open>open\<close> and \<open>run\<close> is overwritten, and \<open>run\<close> never returns on
  its own, for the event loop is left at once and \<open>isRunning_\<close> is true again.\<close>

theorem stop_during_run_ends_it:
  assumes "filter (\<lambda>e. e = RunStep) es = replicate (Suc (Suc n)) RunStep"
  shows "snd (run_events (StopRequested # es) (a, pc)) = RunOver"
  using run_events_ends[OF _ assms, of "app_requestStop a"] by (simp add: stopping_def)

theorem early_stop_is_lost:
  "snd (run_events (replicate n RunStep) (run_begin (app_requestStop a))) \<noteq> RunOver"
proof -
  have "snd (run_events (replicate n RunStep) (b, pc)) \<noteq> RunOver" if "ap_running b" "pc \<noteq> RunOver" for b pc
    using that
  proof (induction n arbitrary: pc)
    case (Suc n)
    then show ?case by (cases pc) simp_all
  qed simp
  then show ?thesis by (simp add: run_begin_def)
qed

section \<open>Every actor of the daemon is found by its name\<close>

abbreviation actor_names :: "actor_system \<Rightarrow> string list" where
  "actor_names s \<equiv> map (ar_name \<circ> ac_ref) (sy_actors s)"

definition names_ok :: "actor_system \<Rightarrow> bool" where
  "names_ok s \<longleftrightarrow> (\<forall>a \<in> set (sy_actors s). \<exists>g. rg_byName (sy_registry s) (ar_name (ac_ref a)) = Some (ac_ref a, g)
     \<and> rg_byId (sy_registry s) (ar_id (ac_ref a)) = Some (ac_ref a, g))"

lemma names_ok_create:
  assumes "attached_ok n s" and "names_ok s" and "nm \<notin> set (actor_names s)" and "createActor addr nm sz s = (True, s')"
  shows "names_ok s' \<and> actor_names s' = actor_names s @ [nm]
    \<and> map (ar_id \<circ> ac_ref) (sy_actors s') = map (ar_id \<circ> ac_ref) (sy_actors s) @ [of_nat n]"
proof -
  let ?a = "\<lparr>ar_addr = addr, ar_id = sy_nextActorId s, ar_name = nm\<rparr>"
  let ?c = "if sz = 0 then sy_defaultMailbox s else sz"
  have s': "s' = s\<lparr>sy_nextActorId := sy_nextActorId s + 1, sy_registry := reg_add ?a (sy_registry s),
      sy_actors := sy_actors s @ [\<lparr>ac_ref = ?a, ac_capacity = ?c\<rparr>], sy_metrics := registerActor (sy_nextActorId s) (sy_metrics s)\<rparr>"
    using assms(4) by (auto simp: createActor_def attachActor_def Let_def split: if_splits)
  have i: "sy_nextActorId s = of_nat n" using assms(1) by (auto simp: attached_ok_def)
  have id: "ar_id (ac_ref a) \<noteq> sy_nextActorId s" if "a \<in> set (sy_actors s)" for a
    using assms(1) that by (auto simp: attached_ok_def)
  have nm: "ar_name (ac_ref a) \<noteq> nm" if "a \<in> set (sy_actors s)" for a
    using assms(3) that by auto
  have "names_ok s'"
    unfolding names_ok_def
  proof
    fix a assume "a \<in> set (sy_actors s')"
    then consider "a \<in> set (sy_actors s)" | "ac_ref a = ?a" by (auto simp: s')
    then show "\<exists>g. rg_byName (sy_registry s') (ar_name (ac_ref a)) = Some (ac_ref a, g)
       \<and> rg_byId (sy_registry s') (ar_id (ac_ref a)) = Some (ac_ref a, g)"
    proof cases
      case 1
      with assms(2) id[OF 1] nm[OF 1] show ?thesis by (simp add: s' names_ok_def reg_add_def Let_def)
    next
      case 2
      then show ?thesis by (simp add: s' reg_add_def Let_def)
    qed
  qed
  then show ?thesis using i by (simp add: s')
qed

lemma create_each_ok:
  assumes "attached_ok n s" and "names_ok s" and "distinct (actor_names s @ ns)" and "n + length ns < 2 ^ 64"
    and "length ns \<le> length addrs" and "create_each addrs ns sz s = (True, s')"
  shows "names_ok s' \<and> actor_names s' = actor_names s @ ns
    \<and> map (ar_id \<circ> ac_ref) (sy_actors s') = map (ar_id \<circ> ac_ref) (sy_actors s) @ map of_nat [n..<n + length ns]"
  using assms
proof (induction ns arbitrary: n s addrs)
  case Nil
  then show ?case by (cases addrs) auto
next
  case (Cons nm ns)
  obtain addr as where as: "addrs = addr # as" using Cons.prems(5) by (cases addrs) auto
  obtain s1 where c: "createActor addr nm sz s = (True, s1)" and r: "create_each as ns sz s1 = (True, s')"
    using Cons.prems(6) by (auto simp: as split: prod.splits bool.splits)
  have nm: "nm \<notin> set (actor_names s)" using Cons.prems(3) by auto
  note k = names_ok_create[OF Cons.prems(1,2) nm c]
  have "Suc n < 2 ^ 64" using Cons.prems(4) by simp
  from attached_ok_create[OF Cons.prems(1) this, of addr nm sz] have at: "attached_ok (Suc n) s1" by (simp add: c)
  have ds: "distinct (actor_names s1 @ ns)" using k Cons.prems(3) by (auto simp: o_def)
  have len: "Suc n + length ns < 2 ^ 64" "length ns \<le> length as" using Cons.prems(4,5) by (simp_all add: as)
  have u: "[n..<n + length (nm # ns)] = n # [Suc n..<Suc n + length ns]" by (simp add: upt_rec del: upt_Suc)
  from Cons.IH[OF at conjunct1[OF k] ds len r] k show ?case
    unfolding u by (simp add: o_def del: upt_Suc)
qed



end
