(* ===== verification/Service_Wiring.thy ===== *)
theory Service_Wiring
  imports Main_App
begin

text \<open>
  Factories that resolve their own dependencies from the container (\<open>bindFactory\<close> and \<open>resolve\<close> of
  \<open>src/src/core/common/di/service_container.hpp\<close>). A factory is client code; what it may do with the container it is given is
  to resolve, one type after the other, and to use what it got. So a factory is a tree: ask for a type and go on with the
  pointer, or make the object. A resolution that never returns (the code recurses until the stack is gone) is \<open>None\<close>.
\<close>

section \<open>Factories and resolution\<close>

datatype ('k, 'o, 'w) recipe =
    Make "'w \<Rightarrow> 'o option \<times> 'w"
  | Ask 'k "'o option \<Rightarrow> ('k, 'o, 'w) recipe"

record ('k, 'o, 'w) wiring =
  wi_factory :: "'k \<rightharpoonup> lifetime \<times> ('k, 'o, 'w) recipe"
  wi_cache :: "'k \<rightharpoonup> 'o"
  wi_world :: 'w
  wi_made :: "'k list"

datatype 'o resolved = Unregistered | Pointer "'o option"

definition wiring_new :: "'w \<Rightarrow> ('k, 'o, 'w) wiring" where
  "wiring_new w = \<lparr>wi_factory = Map.empty, wi_cache = Map.empty, wi_world = w, wi_made = []\<rparr>"

text \<open>\<open>registerFactory\<close>: the new closure has an empty cache.\<close>

definition bindFactory :: "'k \<Rightarrow> lifetime \<Rightarrow> ('k, 'o, 'w) recipe \<Rightarrow> ('k, 'o, 'w) wiring \<Rightarrow> ('k, 'o, 'w) wiring" where
  "bindFactory k lt r c = c\<lparr>wi_factory := (wi_factory c)(k \<mapsto> (lt, r)), wi_cache := (wi_cache c)(k := None)\<rparr>"

text \<open>What a singleton's closure does with the pointer its factory returned: a null pointer leaves the cache empty.\<close>

definition keep_made :: "'k \<Rightarrow> lifetime \<Rightarrow> 'o option \<Rightarrow> ('k, 'o, 'w) wiring \<Rightarrow> ('k, 'o, 'w) wiring" where
  "keep_made k lt x c = (if lt = Singleton then c\<lparr>wi_cache := (wi_cache c)(k := x)\<rparr> else c)"

text \<open>
  The rest of a factory called for the type \<open>me\<close>. \<open>wi_made\<close> records whose objects were made, in order. An exception passes
  through every factory under way.
\<close>

partial_function (option) run_recipe ::
    "'k \<Rightarrow> ('k, 'o, 'w) recipe \<Rightarrow> ('k, 'o, 'w) wiring \<Rightarrow> ('o resolved \<times> ('k, 'o, 'w) wiring) option" where
  "run_recipe me r c =
     (case r of
        Make f \<Rightarrow> (case f (wi_world c) of (x, w) \<Rightarrow> Some (Pointer x, c\<lparr>wi_world := w, wi_made := wi_made c @ [me]\<rparr>))
      | Ask k rest \<Rightarrow>
          (case wi_factory c k of
             None \<Rightarrow> Some (Unregistered, c)
           | Some (lt, r') \<Rightarrow>
               (if lt = Singleton \<and> wi_cache c k \<noteq> None then run_recipe me (rest (wi_cache c k)) c
                else Option.bind (run_recipe k r' c) (\<lambda>(res, c).
                  case res of Unregistered \<Rightarrow> Some (Unregistered, c)
                  | Pointer x \<Rightarrow> run_recipe me (rest x) (keep_made k lt x c)))))"

definition resolve :: "'k \<Rightarrow> ('k, 'o, 'w) wiring \<Rightarrow> ('o resolved \<times> ('k, 'o, 'w) wiring) option" where
  "resolve k c =
     (case wi_factory c k of
        None \<Rightarrow> Some (Unregistered, c)
      | Some (lt, r) \<Rightarrow>
          (if lt = Singleton \<and> wi_cache c k \<noteq> None then Some (Pointer (wi_cache c k), c)
           else Option.bind (run_recipe k r c) (\<lambda>(res, c).
             case res of Unregistered \<Rightarrow> Some (Unregistered, c) | Pointer x \<Rightarrow> Some (Pointer x, keep_made k lt x c))))"

lemma run_Make: "run_recipe me (Make f) c
  = (case f (wi_world c) of (x, w) \<Rightarrow> Some (Pointer x, c\<lparr>wi_world := w, wi_made := wi_made c @ [me]\<rparr>))"
  by (subst run_recipe.simps) simp

lemma run_Ask: "run_recipe me (Ask k rest) c = Option.bind (resolve k c) (\<lambda>(res, c).
    case res of Unregistered \<Rightarrow> Some (Unregistered, c) | Pointer x \<Rightarrow> run_recipe me (rest x) c)"
  by (subst run_recipe.simps)
    (auto simp: resolve_def Option.bind_assoc intro!: Option.bind_cong split: option.split resolved.split)

section \<open>Dependencies without a cycle\<close>

text \<open>The types a factory may ask for, and whether it always makes an object.\<close>

primrec asks :: "('k, 'o, 'w) recipe \<Rightarrow> 'k set" where
  "asks (Make f) = {}"
| "asks (Ask k rest) = insert k (\<Union>x. asks (rest x))"

primrec never_null :: "('k, 'o, 'w) recipe \<Rightarrow> bool" where
  "never_null (Make f) \<longleftrightarrow> (\<forall>w. fst (f w) \<noteq> None)"
| "never_null (Ask k rest) \<longleftrightarrow> (\<forall>x. never_null (rest x))"

text \<open>What a client of the container has to see to: dependencies that descend, and factories that do not answer null.\<close>

definition well_wired :: "('k \<Rightarrow> nat) \<Rightarrow> ('k \<rightharpoonup> lifetime \<times> ('k, 'o, 'w) recipe) \<Rightarrow> bool" where
  "well_wired rank F \<longleftrightarrow> (\<forall>k lt r. F k = Some (lt, r) \<longrightarrow> (\<forall>k' \<in> asks r. rank k' < rank k) \<and> never_null r)"

definition all_bound :: "('k \<rightharpoonup> lifetime \<times> ('k, 'o, 'w) recipe) \<Rightarrow> bool" where
  "all_bound F \<longleftrightarrow> (\<forall>k lt r. F k = Some (lt, r) \<longrightarrow> asks r \<subseteq> dom F)"

text \<open>A singleton has been made as often as it is in its cache.\<close>

definition made_once :: "('k, 'o, 'w) wiring \<Rightarrow> 'k \<Rightarrow> bool" where
  "made_once c k \<longleftrightarrow> count_list (wi_made c) k = (if wi_cache c k = None then 0 else 1)"

definition singles :: "('k, 'o, 'w) wiring \<Rightarrow> 'k set" where
  "singles c = {k. \<exists>r. wi_factory c k = Some (Singleton, r)}"

text \<open>
  What one resolution does to the container: nothing to the registrations, nothing to a filled cache, nothing to the types of
  rank \<open>n\<close> or more, except that \<open>mine k\<close> objects of type \<open>k\<close> were made; and singletons are still made once.
\<close>

definition step_ok :: "('k \<Rightarrow> nat) \<Rightarrow> nat \<Rightarrow> ('k \<Rightarrow> nat) \<Rightarrow> ('k, 'o, 'w) wiring \<Rightarrow> ('k, 'o, 'w) wiring \<Rightarrow> bool" where
  "step_ok rank n mine c d \<longleftrightarrow>
     wi_factory d = wi_factory c
     \<and> (\<forall>k x. wi_cache c k = Some x \<longrightarrow> wi_cache d k = Some x)
     \<and> (\<forall>k. n \<le> rank k \<longrightarrow> wi_cache d k = wi_cache c k
          \<and> count_list (wi_made d) k = count_list (wi_made c) k + mine k)
     \<and> (\<forall>k \<in> singles c. rank k < n \<longrightarrow> made_once c k \<longrightarrow> made_once d k)"

lemma step_ok_refl: "step_ok rank n (\<lambda>_. 0) c c"
  by (simp add: step_ok_def)

lemma step_ok_trans:
  assumes "step_ok rank n (\<lambda>_. 0) c d" and "step_ok rank n mine d e"
  shows "step_ok rank n mine c e"
proof -
  have "singles d = singles c" using assms(1) by (simp add: step_ok_def singles_def)
  then show ?thesis using assms by (simp add: step_ok_def)
qed

lemma step_ok_make:
  assumes "n \<le> rank me"
  shows "step_ok rank n ((\<lambda>_. 0)(me := 1)) c (c\<lparr>wi_world := w, wi_made := wi_made c @ [me]\<rparr>)"
  using assms by (auto simp: step_ok_def made_once_def)

text \<open>A dependency of rank \<open>i\<close> made and kept, seen from a factory of rank \<open>n\<close>.\<close>

lemma step_ok_keep:
  assumes "step_ok rank (rank k) ((\<lambda>_. 0)(k := 1)) c d" and "rank k < n"
    and "wi_factory c k = Some (lt, r)" and "\<not> (lt = Singleton \<and> wi_cache c k \<noteq> None)"
  shows "step_ok rank n (\<lambda>_. 0) c (keep_made k lt (Some x) d)"
proof -
  have "wi_cache d k = wi_cache c k" "count_list (wi_made d) k = count_list (wi_made c) k + 1"
    using assms(1) by (auto simp: step_ok_def)
  moreover have "made_once (keep_made k lt (Some x) d) j"
    if j: "j \<in> singles c" "rank j < n" "made_once c j" for j
  proof (cases "j = k")
    case True
    then have "lt = Singleton" "wi_cache c k = None" using j(1) assms(3,4) by (auto simp: singles_def)
    then show ?thesis using j(3) calculation by (simp add: True made_once_def keep_made_def)
  next
    case False
    have "made_once d j"
    proof (cases "rank j < rank k")
      case True
      then show ?thesis using assms(1) j by (simp add: step_ok_def)
    next
      case f: False
      then show ?thesis using assms(1) j False by (simp add: step_ok_def made_once_def)
    qed
    then show ?thesis using False by (simp add: made_once_def keep_made_def)
  qed
  moreover have "wi_cache (keep_made k lt (Some x) d) j = Some y" if "wi_cache c j = Some y" for j y
    using that assms(1,3,4) by (auto simp: step_ok_def keep_made_def)
  ultimately show ?thesis using assms(1,2) by (auto simp: step_ok_def keep_made_def)
qed

text \<open>The outcome of a resolution that found everything bound, and of one that did not.\<close>

definition answers_well :: "bool \<Rightarrow> 'o resolved \<Rightarrow> bool" where
  "answers_well bound res \<longleftrightarrow> (case res of Pointer x \<Rightarrow> x \<noteq> None | Unregistered \<Rightarrow> \<not> bound)"

lemma step_ok_weaken:
  assumes "step_ok rank i (\<lambda>_. 0) c d" and "i \<le> n"
  shows "step_ok rank n (\<lambda>_. 0) c d"
proof -
  have "made_once d j" if "j \<in> singles c" "made_once c j" for j
  proof (cases "rank j < i")
    case True
    then show ?thesis using assms(1) that by (simp add: step_ok_def)
  next
    case False
    then show ?thesis using assms(1) that(2) by (simp add: step_ok_def made_once_def)
  qed
  then show ?thesis using assms by (auto simp: step_ok_def)
qed

text \<open>
  One call of \<open>resolve\<close>, given that the factory bound to the type does well when it is run.
\<close>

definition resolves_well :: "('k \<Rightarrow> nat) \<Rightarrow> ('k \<rightharpoonup> lifetime \<times> ('k, 'o, 'w) recipe) \<Rightarrow> 'k \<Rightarrow> ('k, 'o, 'w) wiring \<Rightarrow> bool" where
  "resolves_well rank F k c \<longleftrightarrow> (\<exists>res d. resolve k c = Some (res, d)
     \<and> answers_well (all_bound F \<and> k \<in> dom F) res
     \<and> (\<forall>x r. res = Pointer x \<longrightarrow> F k = Some (Singleton, r) \<longrightarrow> wi_cache d k = x)
     \<and> (\<forall>n. rank k < n \<longrightarrow> step_ok rank n (\<lambda>_. 0) c d))"

definition runs_well :: "('k \<Rightarrow> nat) \<Rightarrow> ('k \<rightharpoonup> lifetime \<times> ('k, 'o, 'w) recipe) \<Rightarrow> nat \<Rightarrow> 'k \<Rightarrow> ('k, 'o, 'w) recipe \<Rightarrow>
    ('k, 'o, 'w) wiring \<Rightarrow> bool" where
  "runs_well rank F n me r c \<longleftrightarrow> (\<exists>res d. run_recipe me r c = Some (res, d)
     \<and> answers_well (all_bound F \<and> asks r \<subseteq> dom F) res
     \<and> step_ok rank n ((\<lambda>_. 0)(me := if res = Unregistered then 0 else 1)) c d)"

lemma resolve_from_run:
  assumes "wi_factory c = F" and "\<And>lt r. F k = Some (lt, r) \<Longrightarrow> runs_well rank F (rank k) k r c"
  shows "resolves_well rank F k c"
proof (cases "F k")
  case None
  then show ?thesis
    using assms(1) by (auto simp: resolves_well_def resolve_def answers_well_def step_ok_refl)
next
  case (Some lr)
  obtain lt r where lr: "lr = (lt, r)" by (cases lr)
  show ?thesis
  proof (cases "lt = Singleton \<and> wi_cache c k \<noteq> None")
    case True
    then show ?thesis
      using assms(1) Some lr by (auto simp: resolves_well_def resolve_def answers_well_def step_ok_refl)
  next
    case False
    obtain res d where run: "run_recipe k r c = Some (res, d)"
      and ans: "answers_well (all_bound F \<and> asks r \<subseteq> dom F) res"
      and st: "step_ok rank (rank k) ((\<lambda>_. 0)(k := if res = Unregistered then 0 else 1)) c d"
      using assms(2)[of lt r] Some lr by (auto simp: runs_well_def)
    have sub: "asks r \<subseteq> dom F" if "all_bound F" using that Some lr by (auto simp: all_bound_def)
    show ?thesis
    proof (cases res)
      case Unregistered
      then have "resolve k c = Some (Unregistered, d)" using False Some lr run assms(1) by (simp add: resolve_def del: not_None_eq)
      moreover have "step_ok rank n (\<lambda>_. 0) c d" if "rank k < n" for n
        using step_ok_weaken[of rank "rank k" c d n] st that Unregistered by (simp add: fun_upd_idem)
      ultimately show ?thesis using ans sub Unregistered by (auto simp: resolves_well_def answers_well_def)
    next
      case (Pointer x)
      then obtain y where x: "x = Some y" using ans by (auto simp: answers_well_def)
      have "resolve k c = Some (Pointer x, keep_made k lt x d)"
        using False Some lr run assms(1) Pointer by (cases lt) (simp_all add: resolve_def)
      moreover have "step_ok rank n (\<lambda>_. 0) c (keep_made k lt x d)" if "rank k < n" for n
        using step_ok_keep[of rank k c d n lt r y] st that Pointer False Some lr assms(1) by (simp add: x)
      ultimately show ?thesis
        using Some lr by (auto simp: resolves_well_def answers_well_def x keep_made_def)
    qed
  qed
qed

lemma run_after_resolve:
  assumes F: "wi_factory c = F" and k: "rank k < n" and res: "resolves_well rank F k c"
    and rest: "\<And>x d. wi_factory d = F \<Longrightarrow> runs_well rank F n me (rest x) d"
  shows "runs_well rank F n me (Ask k rest) c"
proof -
  obtain out d where r: "resolve k c = Some (out, d)" "answers_well (all_bound F \<and> k \<in> dom F) out"
      "step_ok rank n (\<lambda>_. 0) c d"
    using res k unfolding resolves_well_def by blast
  show ?thesis
  proof (cases out)
    case Unregistered
    then show ?thesis using r by (auto simp: runs_well_def run_Ask answers_well_def fun_upd_idem)
  next
    case (Pointer x)
    have "wi_factory d = F" using r(3) F by (simp add: step_ok_def)
    from rest[OF this, of x] obtain out' e where e: "run_recipe me (rest x) d = Some (out', e)"
      "answers_well (all_bound F \<and> asks (rest x) \<subseteq> dom F) out'"
      "step_ok rank n ((\<lambda>_. 0)(me := if out' = Unregistered then 0 else 1)) d e"
      by (auto simp: runs_well_def)
    have "run_recipe me (Ask k rest) c = Some (out', e)" using r(1) e(1) by (simp add: run_Ask Pointer)
    moreover have "answers_well (all_bound F \<and> asks (Ask k rest) \<subseteq> dom F) out'"
      using e(2) by (auto simp: answers_well_def split: resolved.splits)
    ultimately show ?thesis using step_ok_trans[OF r(3) e(3)] by (auto simp: runs_well_def)
  qed
qed

lemma run_ok:
  assumes "well_wired rank F" and "wi_factory c = F" and "\<forall>k \<in> asks r. rank k < n" and "n \<le> rank me" and "never_null r"
  shows "runs_well rank F n me r c"
  using assms(2-)
proof (induction n arbitrary: me r c rule: less_induct)
  case (less n)
  from less.prems show ?case
  proof (induction r arbitrary: c)
    case (Make f)
    then show ?case
      using step_ok_make[of n rank me c]
      by (cases "f (wi_world c)") (auto simp: runs_well_def run_Make answers_well_def dest: spec[of _ "wi_world c"])
  next
    case (Ask k rest)
    have k: "rank k < n" using Ask.prems(2) by simp
    have "resolves_well rank F k c"
    proof (rule resolve_from_run[OF Ask.prems(1)])
      fix lt r' assume "F k = Some (lt, r')"
      then have "\<forall>k' \<in> asks r'. rank k' < rank k" "never_null r'" using assms(1) by (auto simp: well_wired_def)
      then show "runs_well rank F (rank k) k r' c" by (intro less.IH[OF k Ask.prems(1)]) auto
    qed
    then show ?case
    proof (rule run_after_resolve[where k = k and rank = rank, OF Ask.prems(1) k])
      fix x and d :: "('a, 'b, 'c) wiring"
      assume "wi_factory d = F"
      then show "runs_well rank F n me (rest x) d"
        using Ask.IH[of "rest x" d] Ask.prems by auto
    qed
  qed
qed

lemma resolve_ok:
  assumes "well_wired rank F" and "wi_factory c = F"
  shows "resolves_well rank F k c"
  using assms by (intro resolve_from_run run_ok) (auto simp: well_wired_def)

section \<open>Histories of resolutions\<close>

text \<open>Requests one after the other; an exception of one does not keep the caller from the next.\<close>

fun resolve_each :: "'k list \<Rightarrow> ('k, 'o, 'w) wiring \<Rightarrow> ('o resolved list \<times> ('k, 'o, 'w) wiring) option" where
  "resolve_each [] c = Some ([], c)"
| "resolve_each (k # ks) c = Option.bind (resolve k c) (\<lambda>(x, c). Option.bind (resolve_each ks c) (\<lambda>(xs, c). Some (x # xs, c)))"

lemma resolve_ok_step:
  assumes "well_wired rank (wi_factory c)" and "all_bound (wi_factory c)" and "k \<in> dom (wi_factory c)"
  obtains x d where "resolve k c = Some (Pointer (Some x), d)" and "wi_factory d = wi_factory c"
    and "\<forall>j y. wi_cache c j = Some y \<longrightarrow> wi_cache d j = Some y"
    and "\<forall>j \<in> singles c. made_once c j \<longrightarrow> made_once d j" and "k \<in> singles c \<longrightarrow> wi_cache d k = Some x"
proof -
  from resolve_ok[OF assms(1) refl, of k] obtain res d where r: "resolve k c = Some (res, d)"
      "answers_well (all_bound (wi_factory c) \<and> k \<in> dom (wi_factory c)) res"
      "\<forall>x r. res = Pointer x \<longrightarrow> wi_factory c k = Some (Singleton, r) \<longrightarrow> wi_cache d k = x"
      "\<forall>n. rank k < n \<longrightarrow> step_ok rank n (\<lambda>_. 0) c d"
    unfolding resolves_well_def by blast
  from r(2) assms(2,3) obtain x where x: "res = Pointer (Some x)" by (auto simp: answers_well_def split: resolved.splits)
  have "k \<in> singles c \<longrightarrow> wi_cache d k = Some x" using r(3) by (auto simp: x singles_def)
  moreover have "wi_factory d = wi_factory c \<and> (\<forall>j y. wi_cache c j = Some y \<longrightarrow> wi_cache d j = Some y)
      \<and> (\<forall>j \<in> singles c. made_once c j \<longrightarrow> made_once d j)"
    using r(4)[rule_format, of "Suc (rank k)"] by (auto simp: step_ok_def made_once_def not_less_eq not_less)
  ultimately show thesis using that[of x d] r(1) by (simp add: x)
qed

lemma resolve_each_ok:
  assumes "well_wired rank (wi_factory c)" and "all_bound (wi_factory c)" and "set ks \<subseteq> dom (wi_factory c)"
    and "\<forall>j \<in> singles c. made_once c j"
  shows "\<exists>xs d. resolve_each ks c = Some (map (\<lambda>x. Pointer (Some x)) xs, d) \<and> length xs = length ks
    \<and> (\<forall>j y. wi_cache c j = Some y \<longrightarrow> wi_cache d j = Some y)
    \<and> (\<forall>j \<in> singles c. made_once d j)
    \<and> (\<forall>(k, x) \<in> set (zip ks xs). k \<in> singles c \<longrightarrow> wi_cache d k = Some x)"
  using assms
proof (induction ks arbitrary: c)
  case (Cons k ks)
  have "k \<in> dom (wi_factory c)" using Cons.prems(3) by simp
  from resolve_ok_step[OF Cons.prems(1,2) this] obtain x d where r: "resolve k c = Some (Pointer (Some x), d)"
    "wi_factory d = wi_factory c" "\<forall>j y. wi_cache c j = Some y \<longrightarrow> wi_cache d j = Some y"
    "\<forall>j \<in> singles c. made_once c j \<longrightarrow> made_once d j" "k \<in> singles c \<longrightarrow> wi_cache d k = Some x" .
  have s: "singles d = singles c" using r(2) by (simp add: singles_def)
  have "\<exists>xs e. resolve_each ks d = Some (map (\<lambda>x. Pointer (Some x)) xs, e) \<and> length xs = length ks
      \<and> (\<forall>j y. wi_cache d j = Some y \<longrightarrow> wi_cache e j = Some y) \<and> (\<forall>j \<in> singles d. made_once e j)
      \<and> (\<forall>(k, x) \<in> set (zip ks xs). k \<in> singles d \<longrightarrow> wi_cache e k = Some x)"
    by (rule Cons.IH) (use Cons.prems r(2,4) s in auto)
  then obtain xs e where e: "resolve_each ks d = Some (map (\<lambda>x. Pointer (Some x)) xs, e)" "length xs = length ks"
    "\<forall>j y. wi_cache d j = Some y \<longrightarrow> wi_cache e j = Some y" "\<forall>j \<in> singles c. made_once e j"
    "\<forall>(k, x) \<in> set (zip ks xs). k \<in> singles c \<longrightarrow> wi_cache e k = Some x" unfolding s by blast
  show ?case
    using r(1,3,5) e by (intro exI[of _ "x # xs"] exI[of _ e]) auto
qed simp

text \<open>
  With dependencies that descend, everything bound and no factory that answers null, any sequence of requests returns, each
  with an object; requests for the same singleton, direct or by other factories, share one object, which is made once.
\<close>
theorem container_wires_singletons_once:
  assumes "well_wired rank (wi_factory c)" and "all_bound (wi_factory c)" and "set ks \<subseteq> dom (wi_factory c)"
    and "\<forall>j \<in> singles c. made_once c j"
  shows "\<exists>xs d. resolve_each ks c = Some (map (\<lambda>x. Pointer (Some x)) xs, d) \<and> length xs = length ks
    \<and> (\<forall>i < length ks. \<forall>j < length ks. ks ! i = ks ! j \<longrightarrow> ks ! i \<in> singles c \<longrightarrow> xs ! i = xs ! j)
    \<and> (\<forall>k \<in> singles c. count_list (wi_made d) k = (if wi_cache d k = None then 0 else 1))"
proof -
  from resolve_each_ok[OF assms] obtain xs d where r: "resolve_each ks c = Some (map (\<lambda>x. Pointer (Some x)) xs, d)"
    "length xs = length ks" "\<forall>j \<in> singles c. made_once d j"
    "\<forall>(k, x) \<in> set (zip ks xs). k \<in> singles c \<longrightarrow> wi_cache d k = Some x" by blast
  have c: "wi_cache d (ks ! i) = Some (xs ! i)" if "i < length ks" "ks ! i \<in> singles c" for i
  proof -
    have "(ks ! i, xs ! i) \<in> set (zip ks xs)" using that(1) r(2) by (metis in_set_zip fst_conv snd_conv)
    then show ?thesis using r(4) that(2) by fast
  qed
  have "\<forall>i < length ks. \<forall>j < length ks. ks ! i = ks ! j \<longrightarrow> ks ! i \<in> singles c \<longrightarrow> xs ! i = xs ! j"
    using c by (metis option.inject)
  then show ?thesis using r(1-3) unfolding made_once_def by blast
qed


text \<open>Two factories that need each other never return: the code recurses until its stack is gone.\<close>

definition cyclic_at :: "('k, 'o, 'w) recipe \<Rightarrow> ('k, 'o, 'w) wiring \<Rightarrow> bool" where
  "cyclic_at r c \<longleftrightarrow> (\<exists>a b la lb fa fb g. r = Ask a g \<and> wi_cache c a = None \<and> wi_cache c b = None
     \<and> wi_factory c a = Some (la, Ask b fa) \<and> wi_factory c b = Some (lb, Ask a fb))"

lemma cyclic_recipe_never_returns:
  fixes c :: "('k, 'o, 'w) wiring"
  assumes ret: "run_recipe me r c = Some out"
  shows "\<not> cyclic_at r c"
proof (rule run_recipe.raw_induct [where P = "\<lambda>me r c out. \<not> cyclic_at r c", OF _ ret])
  fix f :: "'k \<Rightarrow> ('k, 'o, 'w) recipe \<Rightarrow> ('k, 'o, 'w) wiring \<Rightarrow> ('o resolved \<times> ('k, 'o, 'w) wiring) option"
  fix me r out
  fix c :: "('k, 'o, 'w) wiring"
  assume IH: "\<And>me r c out. f me r c = Some out \<Longrightarrow> \<not> cyclic_at r c"
    and eq: "(case r of
        Make g \<Rightarrow> (case g (wi_world c) of (x, w) \<Rightarrow> Some (Pointer x, c\<lparr>wi_world := w, wi_made := wi_made c @ [me]\<rparr>))
      | Ask k rest \<Rightarrow> (case wi_factory c k of
          None \<Rightarrow> Some (Unregistered, c)
        | Some (lt, r') \<Rightarrow>
            (if lt = Singleton \<and> wi_cache c k \<noteq> None then f me (rest (wi_cache c k)) c
             else Option.bind (f k r' c) (\<lambda>(res, c).
               case res of Unregistered \<Rightarrow> Some (Unregistered, c)
               | Pointer x \<Rightarrow> f me (rest x) (keep_made k lt x c))))) = Some out"
  show "\<not> cyclic_at r c"
  proof
    assume "cyclic_at r c"
    then obtain a b la lb fa fb g where l: "r = Ask a g" "wi_cache c a = None" "wi_cache c b = None"
      "wi_factory c a = Some (la, Ask b fa)" "wi_factory c b = Some (lb, Ask a fb)"
      unfolding cyclic_at_def by blast
    from eq l obtain out' where "f a (Ask b fa) c = Some out'" by (auto simp: bind_eq_Some_conv)
    then have "\<not> cyclic_at (Ask b fa) c" by (rule IH)
    with l show False unfolding cyclic_at_def by blast
  qed
qed

theorem cyclic_factories_never_return:
  fixes c :: "('k, 'o, 'w) wiring"
  assumes "wi_factory c a = Some (la, Ask b fa)" and "wi_factory c b = Some (lb, Ask a fb)"
    and "wi_cache c a = None" and "wi_cache c b = None"
  shows "resolve a c = None"
proof -
  have "cyclic_at (Ask b fa) c" using assms unfolding cyclic_at_def by blast
  then have "run_recipe a (Ask b fa) c = None" using cyclic_recipe_never_returns[of a "Ask b fa" c] by (cases "run_recipe a (Ask b fa) c") auto
  then show ?thesis by (simp add: resolve_def assms)
qed

end
