(* ===== verification/Text_Format.thy ===== *)
theory Text_Format
  imports V2_Prelude
begin

text \<open>
  The pieces of text formatting the program uses: decimal and hexadecimal numbers, fields of a minimum width as \<open>setw\<close>
  and \<open>snprintf\<close> make them, joining words with spaces, and the tokenizer by which \<open>CmdActor::dispatch\<close> takes a command
  line apart again.
\<close>

section \<open>Numbers and fields\<close>

definition digit_char :: "nat \<Rightarrow> char" where
  "digit_char d = char_of (if d < 10 then 48 + d else 87 + d)"

function digits :: "nat \<Rightarrow> nat \<Rightarrow> string" where
  "digits b n = (if b < 2 \<or> n < b then [digit_char n] else digits b (n div b) @ [digit_char (n mod b)])"
  by auto
termination
  by (relation "measure snd") simp_all

declare digits.simps [simp del]

definition dec :: "nat \<Rightarrow> string" where "dec n = digits 10 n"
definition hex :: "nat \<Rightarrow> string" where "hex n = digits 16 n"
definition dec_int :: "int \<Rightarrow> string" where "dec_int i = (if i < 0 then CHR ''-'' # dec (nat (- i)) else dec (nat i))"

definition pad_right :: "nat \<Rightarrow> string \<Rightarrow> string" where
  "pad_right w s = s @ replicate (w - length s) CHR '' ''"

definition pad_left :: "nat \<Rightarrow> string \<Rightarrow> string" where
  "pad_left w s = replicate (w - length s) CHR '' '' @ s"

definition nl :: string where "nl = [CHR 0x0A]"

lemma length_pad [simp]: "length (pad_right w s) = max w (length s)" "length (pad_left w s) = max w (length s)"
  by (simp_all add: pad_right_def pad_left_def max_def)

section \<open>Words of a command line\<close>

text \<open>\<open>find_first_not_of(' ')\<close>, \<open>find(' ')\<close> and the loop that takes one word after the other.\<close>

definition skip_spaces :: "string \<Rightarrow> string" where
  "skip_spaces s = dropWhile (\<lambda>c. c = CHR '' '') s"

definition word_of_line :: "string \<Rightarrow> string" where
  "word_of_line s = takeWhile (\<lambda>c. c \<noteq> CHR '' '') s"

definition after_word :: "string \<Rightarrow> string" where
  "after_word s = dropWhile (\<lambda>c. c \<noteq> CHR '' '') s"

lemma length_skip_spaces: "length (skip_spaces s) \<le> length s"
  by (simp add: skip_spaces_def length_dropWhile_le)

lemma length_after_word: "length (after_word s) \<le> length s"
  by (simp add: after_word_def length_dropWhile_le)

function split_args :: "string \<Rightarrow> string list" where
  "split_args rest =
     (let rest = skip_spaces rest in
      if rest = [] then []
      else word_of_line rest # (case after_word rest of [] \<Rightarrow> [] | _ # rest' \<Rightarrow> split_args rest'))"
  by pat_completeness auto
termination
proof (relation "measure length")
  fix rest x :: string and c rest'
  assume "x = skip_spaces rest" and "after_word x = c # rest'"
  then have "length (c # rest') \<le> length rest" using length_after_word[of x] length_skip_spaces[of rest] by simp
  then show "(rest', rest) \<in> measure length" by simp
qed simp

declare split_args.simps [simp del]

fun join_words :: "string list \<Rightarrow> string" where
  "join_words [] = []"
| "join_words [w] = w"
| "join_words (w # ws) = w @ CHR '' '' # join_words ws"

definition plain_word :: "string \<Rightarrow> bool" where
  "plain_word w \<longleftrightarrow> w \<noteq> [] \<and> CHR '' '' \<notin> set w"

lemma split_args_word:
  assumes "plain_word w"
  shows "split_args (w @ CHR '' '' # s) = w # split_args s" and "split_args w = [w]"
proof -
  obtain c cs where w: "w = c # cs" "c \<noteq> CHR '' ''" "CHR '' '' \<notin> set cs"
    using assms by (cases w) (auto simp: plain_word_def)
  have *: "dropWhile (\<lambda>c. c \<noteq> CHR '' '') (cs @ CHR '' '' # s) = CHR '' '' # s"
    "takeWhile (\<lambda>c. c \<noteq> CHR '' '') (cs @ CHR '' '' # s) = cs"
    "dropWhile (\<lambda>c. c \<noteq> CHR '' '') cs = []" "takeWhile (\<lambda>c. c \<noteq> CHR '' '') cs = cs"
    using w(3) by (induction cs) auto
  show "split_args (w @ CHR '' '' # s) = w # split_args s"
    by (subst split_args.simps) (simp add: skip_spaces_def word_of_line_def after_word_def w * Let_def)
  show "split_args w = [w]"
    by (subst split_args.simps) (simp add: skip_spaces_def word_of_line_def after_word_def w * Let_def)
qed

lemma split_join: "\<forall>w \<in> set ws. plain_word w \<Longrightarrow> split_args (join_words ws) = ws"
proof (induction ws rule: join_words.induct)
  case 1
  then show ?case by (subst split_args.simps) (simp add: skip_spaces_def)
qed (simp_all add: split_args_word)

end
