(* ===== verification/Logger_Model.thy ===== *)
theory Logger_Model
  imports Text_Format
begin

text \<open>
  The logger (\<open>core/common/log\<close>). Every thread collects its lines in a buffer of its own, which all loggers share, and
  writes it out when it has grown, when it ends or when a fatal line was logged; the active logger decides on the level,
  the size and the log file. Standard error is kept as the sequence of the blocks written, each with the thread whose
  buffer it was (\<open>None\<close> for \<open>logBlock\<close>). Time stamps and the file system's answers are arguments.
\<close>

section \<open>Lines\<close>

datatype log_level = Verbose | Debug | Info | Warn | Error | Fatal

fun level_value :: "log_level \<Rightarrow> nat" where
  "level_value Verbose = 0" | "level_value Debug = 1" | "level_value Info = 2"
| "level_value Warn = 3" | "level_value Error = 4" | "level_value Fatal = 5"

definition ansi :: "string \<Rightarrow> string \<Rightarrow> string" where
  "ansi colour tag = CHR 0x1B # ''['' @ colour @ ''m['' @ tag @ '']'' @ CHR 0x1B # ''[0m ''"

fun level_tag :: "log_level \<Rightarrow> string" where
  "level_tag Verbose = ansi ''90'' ''VERBOSE''" | "level_tag Debug = ansi ''37'' ''DEBUG''"
| "level_tag Info = ansi ''36'' ''INFO''" | "level_tag Warn = ansi ''33'' ''WARN''"
| "level_tag Error = ansi ''31'' ''ERROR''" | "level_tag Fatal = ansi ''91'' ''FATAL''"

record log_call =
  lc_level :: log_level
  lc_time :: string
  lc_file :: string
  lc_line :: nat
  lc_func :: string
  lc_msg :: string

definition log_line :: "log_call \<Rightarrow> string" where
  "log_line c = ''['' @ lc_time c @ '']'' @ level_tag (lc_level c) @
     lc_file c @ '':'' @ dec (lc_line c) @ '' ('' @ lc_func c @ '') '' @ lc_msg c @ nl"

section \<open>Loggers\<close>

datatype logger_ref = Fallback | At nat

record logger =
  lg_level :: nat
  lg_file :: "nat option"
  lg_flush :: u32

record log_world =
  lw_logger :: "logger_ref \<Rightarrow> logger"
  lw_alive :: "nat set"
  lw_active :: "nat option"
  lw_buf :: "nat \<Rightarrow> string"
  lw_stderr :: "(nat option \<times> string) list"
  lw_files :: "nat \<Rightarrow> string"

definition logger_new :: "u32 \<Rightarrow> logger" where
  "logger_new flushSize = \<lparr>lg_level = level_value Info, lg_file = None, lg_flush = flushSize\<rparr>"

definition log_start :: log_world where
  "log_start = \<lparr>lw_logger = (\<lambda>_. logger_new 512), lw_alive = {}, lw_active = None, lw_buf = (\<lambda>_. ''''), lw_stderr = [],
     lw_files = (\<lambda>_. '''')\<rparr>"

definition activeLogger :: "log_world \<Rightarrow> logger_ref" where
  "activeLogger w = (case lw_active w of Some p \<Rightarrow> At p | None \<Rightarrow> Fallback)"

definition setActiveLogger :: "nat option \<Rightarrow> log_world \<Rightarrow> log_world" where
  "setActiveLogger p w = w\<lparr>lw_active := p\<rparr>"

definition write_block :: "logger_ref \<Rightarrow> nat option \<Rightarrow> string \<Rightarrow> log_world \<Rightarrow> log_world" where
  "write_block l who s w =
     (let w = w\<lparr>lw_stderr := lw_stderr w @ [(who, s)]\<rparr> in
      case lg_file (lw_logger w l) of None \<Rightarrow> w | Some f \<Rightarrow> w\<lparr>lw_files := (lw_files w)(f := lw_files w f @ s)\<rparr>)"

definition flushBuffer :: "logger_ref \<Rightarrow> nat \<Rightarrow> log_world \<Rightarrow> log_world" where
  "flushBuffer l t w = (write_block l (Some t) (lw_buf w t) w)\<lparr>lw_buf := (lw_buf w)(t := '''')\<rparr>"

definition log_write :: "logger_ref \<Rightarrow> nat \<Rightarrow> log_call \<Rightarrow> log_world \<Rightarrow> log_world" where
  "log_write l t c w =
     (if level_value (lc_level c) < lg_level (lw_logger w l) then w
      else let w = w\<lparr>lw_buf := (lw_buf w)(t := lw_buf w t @ log_line c)\<rparr> in
        if length (lw_buf w t) \<ge> unat (scast (lg_flush (lw_logger w l)) :: u64) then flushBuffer l t w else w)"

definition logBlock :: "logger_ref \<Rightarrow> string \<Rightarrow> log_world \<Rightarrow> log_world" where
  "logBlock l s w = write_block l None s w"

definition setLevel :: "logger_ref \<Rightarrow> nat \<Rightarrow> log_world \<Rightarrow> log_world" where
  "setLevel l v w = w\<lparr>lw_logger := (lw_logger w)(l := (lw_logger w l)\<lparr>lg_level := v\<rparr>)\<rparr>"

text \<open>\<open>opened\<close> is the handle \<open>fopen\<close> returns, with an empty file behind it.\<close>

definition setLogFile :: "logger_ref \<Rightarrow> string \<Rightarrow> nat option \<Rightarrow> log_world \<Rightarrow> log_world" where
  "setLogFile l path opened w =
     (let f = (if path = [] then None else opened) in
      w\<lparr>lw_logger := (lw_logger w)(l := (lw_logger w l)\<lparr>lg_file := f\<rparr>),
         lw_files := (case f of None \<Rightarrow> lw_files w | Some h \<Rightarrow> (lw_files w)(h := ''''))\<rparr>)"

definition logger_create :: "nat \<Rightarrow> u32 \<Rightarrow> log_world \<Rightarrow> log_world" where
  "logger_create p flushSize w =
     (if p \<in> lw_alive w then w
      else w\<lparr>lw_alive := insert p (lw_alive w), lw_logger := (lw_logger w)(At p := logger_new flushSize)\<rparr>)"

definition logger_destroy :: "nat \<Rightarrow> log_world \<Rightarrow> log_world" where
  "logger_destroy p w =
     (if p \<notin> lw_alive w then w
      else w\<lparr>lw_alive := lw_alive w - {p}, lw_active := (if lw_active w = Some p then None else lw_active w),
              lw_logger := (lw_logger w)(At p := (lw_logger w (At p))\<lparr>lg_file := None\<rparr>)\<rparr>)"

text \<open>The macros use the active logger; \<open>V2_LOG_FATAL\<close> also flushes, as does the destructor of a thread's buffer.\<close>

definition v2_log :: "nat \<Rightarrow> log_call \<Rightarrow> log_world \<Rightarrow> log_world" where
  "v2_log t c w =
     (let w = log_write (activeLogger w) t c w in
      if lc_level c = Fatal then flushBuffer (activeLogger w) t w else w)"

definition thread_exit :: "nat \<Rightarrow> log_world \<Rightarrow> log_world" where
  "thread_exit t w = (if lw_buf w t \<noteq> [] then flushBuffer (activeLogger w) t w else w)"

section \<open>Histories\<close>

datatype log_op =
    LogCall nat log_call | LogFlush nat | LogBlock string | LogLevel nat | LogFile string "nat option"
  | LogCreate nat u32 | LogDestroy nat | LogSetActive nat | LogClearActive | LogThreadExit nat

fun log_step :: "log_op \<Rightarrow> log_world \<Rightarrow> log_world" where
  "log_step (LogCall t c) w = v2_log t c w"
| "log_step (LogFlush t) w = flushBuffer (activeLogger w) t w"
| "log_step (LogBlock s) w = logBlock (activeLogger w) s w"
| "log_step (LogLevel v) w = setLevel (activeLogger w) v w"
| "log_step (LogFile path opened) w = setLogFile (activeLogger w) path opened w"
| "log_step (LogCreate p n) w = logger_create p n w"
| "log_step (LogDestroy p) w = logger_destroy p w"
| "log_step (LogSetActive p) w = (if p \<in> lw_alive w then setActiveLogger (Some p) w else w)"
| "log_step LogClearActive w = setActiveLogger None w"
| "log_step (LogThreadExit t) w = thread_exit t w"

text \<open>The lines thread \<open>t\<close> logs in a history, at or above the level in force at each call.\<close>

fun lines_of :: "nat \<Rightarrow> log_op list \<Rightarrow> log_world \<Rightarrow> string list" where
  "lines_of t [] w = []"
| "lines_of t (op # ops) w =
     (case op of
        LogCall u c \<Rightarrow> (if u = t \<and> lg_level (lw_logger w (activeLogger w)) \<le> level_value (lc_level c) then [log_line c] else [])
      | _ \<Rightarrow> []) @ lines_of t ops (log_step op w)"

definition blocks_of :: "nat \<Rightarrow> log_world \<Rightarrow> string list" where
  "blocks_of t w = map snd (filter (\<lambda>b. fst b = Some t) (lw_stderr w))"

text \<open>\<open>ls\<close> is what thread \<open>t\<close> has logged: the blocks it has written are whole lines of it, in order, and its buffer
  holds the rest.\<close>

definition whole_lines :: "nat \<Rightarrow> string list \<Rightarrow> log_world \<Rightarrow> bool" where
  "whole_lines t ls w \<longleftrightarrow>
     (\<exists>parts rest. blocks_of t w = map concat parts \<and> lw_buf w t = concat rest \<and> ls = concat parts @ rest)"

lemma whole_intro:
  "blocks_of t w = map concat parts \<Longrightarrow> lw_buf w t = concat rest \<Longrightarrow> ls = concat parts @ rest \<Longrightarrow> whole_lines t ls w"
  unfolding whole_lines_def by blast

lemma write_block_fields [simp]:
  "lw_stderr (write_block l who s w) = lw_stderr w @ [(who, s)]" "lw_buf (write_block l who s w) = lw_buf w"
  "lw_active (write_block l who s w) = lw_active w" "lw_alive (write_block l who s w) = lw_alive w"
  by (simp_all add: write_block_def Let_def split: option.split)

lemma flush_fields [simp]:
  "lw_stderr (flushBuffer l t w) = lw_stderr w @ [(Some t, lw_buf w t)]"
  "lw_buf (flushBuffer l t w) = (lw_buf w)(t := '''')"
  "lw_active (flushBuffer l t w) = lw_active w" "lw_alive (flushBuffer l t w) = lw_alive w"
  by (simp_all add: flushBuffer_def)

lemma whole_flush: "whole_lines t ls w \<Longrightarrow> whole_lines t ls (flushBuffer l u w)"
proof -
  assume "whole_lines t ls w"
  then obtain parts rest where p: "blocks_of t w = map concat parts" "lw_buf w t = concat rest" "ls = concat parts @ rest"
    unfolding whole_lines_def by blast
  show ?thesis
  proof (cases "u = t")
    case True
    show ?thesis
      by (rule whole_intro[where parts = "parts @ [rest]" and rest = "[]"]) (use True p in \<open>simp_all add: blocks_of_def\<close>)
  next
    case False
    show ?thesis
      by (rule whole_intro[where parts = parts and rest = rest]) (use False p in \<open>simp_all add: blocks_of_def\<close>)
  qed
qed

lemma whole_same: "whole_lines t ls w \<Longrightarrow> lw_stderr w' = lw_stderr w \<Longrightarrow> lw_buf w' = lw_buf w \<Longrightarrow> whole_lines t ls w'"
  by (simp add: whole_lines_def blocks_of_def)

lemma whole_append:
  "whole_lines t ls w \<Longrightarrow> lw_stderr w' = lw_stderr w \<Longrightarrow> lw_buf w' = (lw_buf w)(u := lw_buf w u @ x) \<Longrightarrow>
     whole_lines t (ls @ (if u = t then [x] else [])) w'"
proof -
  assume a: "whole_lines t ls w" "lw_stderr w' = lw_stderr w" "lw_buf w' = (lw_buf w)(u := lw_buf w u @ x)"
  then obtain parts rest where p: "blocks_of t w = map concat parts" "lw_buf w t = concat rest" "ls = concat parts @ rest"
    unfolding whole_lines_def by blast
  show ?thesis
    by (rule whole_intro[where parts = parts and rest = "rest @ (if u = t then [x] else [])"])
      (use a(2,3) p in \<open>auto simp: blocks_of_def\<close>)
qed

lemma whole_log:
  assumes "whole_lines t ls w"
  shows "whole_lines t (ls @ (if u = t \<and> lg_level (lw_logger w l) \<le> level_value (lc_level c) then [log_line c] else []))
     (log_write l u c w)"
proof (cases "level_value (lc_level c) < lg_level (lw_logger w l)")
  case True
  then show ?thesis using assms by (simp add: log_write_def)
next
  case False
  let ?w = "w\<lparr>lw_buf := (lw_buf w)(u := lw_buf w u @ log_line c)\<rparr>"
  have "whole_lines t (ls @ (if u = t then [log_line c] else [])) ?w" by (rule whole_append[OF assms]) simp_all
  then have "whole_lines t (ls @ (if u = t then [log_line c] else [])) (log_write l u c w)"
    using False whole_flush by (simp add: log_write_def Let_def)
  then show ?thesis using False by simp
qed

lemma whole_step:
  assumes w: "whole_lines t ls w"
  shows "whole_lines t (ls @ lines_of t [op] w) (log_step op w)"
proof (cases op)
  case (LogCall u c)
  have "whole_lines t (ls @ lines_of t [op] w) (log_write (activeLogger w) u c w)"
    using whole_log[OF w, of u "activeLogger w" c] by (simp add: LogCall)
  from this whole_flush[OF this, of "activeLogger (log_write (activeLogger w) u c w)" u]
  show ?thesis unfolding LogCall log_step.simps v2_log_def Let_def by (simp only: split: if_split) blast
next
  case (LogBlock s)
  have "blocks_of t (logBlock l s w) = blocks_of t w" for l by (simp add: logBlock_def blocks_of_def)
  then show ?thesis using w by (simp add: LogBlock whole_lines_def) (simp add: logBlock_def)
qed (use w in \<open>auto simp: setLevel_def setLogFile_def logger_create_def logger_destroy_def setActiveLogger_def thread_exit_def
    Let_def intro: whole_flush whole_same\<close>)

lemma lines_of_Cons: "lines_of t (op # ops) w = lines_of t [op] w @ lines_of t ops (log_step op w)"
  by (simp split: log_op.split)

section \<open>Properties\<close>

text \<open>
  C39: No log line is lost, reordered or torn apart. In any history of log calls from any number of threads, flushes,
  changes of level, log file and active logger, loggers created and destroyed and threads that end: the blocks a thread
  has written to standard error are whole lines of what it logged at or above the level in force, in the order in which
  it logged them, and the lines that are not there yet are exactly those in its buffer; after it ends, there are none.
\<close>

theorem log_lines_arrive_whole:
  "whole_lines t (lines_of t ops log_start) (fold log_step ops log_start)
   \<and> (let w = fold log_step (ops @ [LogThreadExit t]) log_start in
        lw_buf w t = '''' \<and> concat (blocks_of t w) = concat (lines_of t ops log_start))"
proof -
  have r: "whole_lines t (ls @ lines_of t ops w) (fold log_step ops w)" if "whole_lines t ls w" for ls w ops
    using that
  proof (induction ops arbitrary: ls w)
    case (Cons op ops)
    show ?case using Cons(1)[OF whole_step[OF Cons(2), of op]] by (subst lines_of_Cons) simp
  qed simp
  have z: "whole_lines t [] log_start"
    by (rule whole_intro[where parts = "[]" and rest = "[]"]) (simp_all add: blocks_of_def log_start_def)
  let ?w = "fold log_step ops log_start"
  have w: "whole_lines t (lines_of t ops log_start) ?w" using r[OF z, of ops] by simp
  then have "whole_lines t (lines_of t ops log_start) (thread_exit t ?w)"
    by (simp add: thread_exit_def whole_flush)
  then obtain parts rest where p: "blocks_of t (thread_exit t ?w) = map concat parts" "lw_buf (thread_exit t ?w) t = concat rest"
    "lines_of t ops log_start = concat parts @ rest" unfolding whole_lines_def by blast
  have e: "lw_buf (thread_exit t ?w) t = ''''" by (simp add: thread_exit_def)
  have c: "concat (map concat ps) = concat (concat ps)" for ps :: "string list list" by (induction ps) simp_all
  have "concat (blocks_of t (thread_exit t ?w)) = concat (lines_of t ops log_start)"
    using p(2,3) e by (simp add: p(1) c)
  then show ?thesis using w e by (simp add: Let_def)
qed

end
