(* ===== verification/Memory_Slab.thy ===== *)
theory Memory_Slab
  imports V2_Prelude
begin

text \<open>
  The bottom of the memory pool (\<open>src/src/core/common/memory\<close>): the size-class table
  (\<open>size_class.hpp\<close>), the intrusive free list (\<open>free_list.hpp\<close>) and the slab (\<open>slab.hpp\<close>).
  Addresses are 64-bit words. A free list is the list of the blocks its nodes are stored in, head
  first, with the counter the code keeps; a node lives in the freed block itself, so the list says the
  same as the pointers as long as no block is pushed twice, which is what the invariants guarantee.
  Where the code asserts, the model gives \<open>None\<close>.
\<close>

unbundle bit_operations_syntax

section \<open>Size classes\<close>

definition size_table :: "(nat \<times> nat) list" where
  "size_table = [(8, 64), (16, 64), (32, 32), (64, 32), (128, 16), (256, 16), (512, 8), (1024, 4), (2048, 2)]"

definition num_size_classes :: nat where "num_size_classes = 9"

definition max_alloc_size :: nat where "max_alloc_size = 2048"

fun index_from :: "nat \<Rightarrow> nat \<Rightarrow> (nat \<times> nat) list \<Rightarrow> nat option" where
  "index_from sz i [] = None"
| "index_from sz i ((block, batch) # rest) = (if sz \<le> block then Some i else index_from sz (i + 1) rest)"

definition size_index :: "nat \<Rightarrow> nat option" where
  "size_index sz = (if 0 < sz \<and> sz \<le> max_alloc_size then index_from sz 0 size_table else None)"

definition block_size :: "nat \<Rightarrow> nat option" where
  "block_size idx = (if idx < num_size_classes then Some (fst (size_table ! idx)) else None)"

definition batch_size :: "nat \<Rightarrow> nat option" where
  "batch_size idx = (if idx < num_size_classes then Some (snd (size_table ! idx)) else None)"

lemma index_from_first:
  "index_from sz i t = Some k \<Longrightarrow>
     i \<le> k \<and> k < i + length t \<and> sz \<le> fst (t ! (k - i)) \<and> (\<forall>j < k - i. fst (t ! j) < sz)"
proof (induction sz i t rule: index_from.induct)
  case (1 sz i)
  then show ?case by simp
next
  case (2 sz i block batch rest)
  show ?case
  proof (cases "sz \<le> block")
    case True
    then show ?thesis using 2 by simp
  next
    case False
    then have ih: "i + 1 \<le> k \<and> k < i + 1 + length rest \<and> sz \<le> fst (rest ! (k - (i + 1))) \<and>
        (\<forall>j < k - (i + 1). fst (rest ! j) < sz)" using 2 by simp
    then have "k - i = Suc (k - (i + 1))" by linarith
    moreover have "\<forall>j < Suc (k - (i + 1)). fst (((block, batch) # rest) ! j) < sz"
      using ih False by (auto simp: nth_Cons split: nat.splits)
    ultimately show ?thesis using ih by (simp del: diff_Suc_1 add_Suc_right)
  qed
qed

lemma index_from_found: "t \<noteq> [] \<Longrightarrow> sz \<le> fst (last t) \<Longrightarrow> \<exists>k. index_from sz i t = Some k"
  by (induction sz i t rule: index_from.induct) (auto split: if_splits)

section \<open>Free list\<close>

record free_list =
  fl_nodes :: "addr list"
  fl_count :: nat

definition fl_new :: free_list where "fl_new = \<lparr>fl_nodes = [], fl_count = 0\<rparr>"

definition fl_push :: "addr \<Rightarrow> free_list \<Rightarrow> free_list" where
  "fl_push block f = \<lparr>fl_nodes = block # fl_nodes f, fl_count = fl_count f + 1\<rparr>"

definition fl_push_batch :: "addr list \<Rightarrow> free_list \<Rightarrow> free_list" where
  "fl_push_batch blocks f = fold fl_push blocks f"

definition fl_pop :: "free_list \<Rightarrow> addr option \<times> free_list" where
  "fl_pop f = (case fl_nodes f of [] \<Rightarrow> (None, f)
     | b # bs \<Rightarrow> (Some b, \<lparr>fl_nodes = bs, fl_count = fl_count f - 1\<rparr>))"

fun fl_pop_batch :: "nat \<Rightarrow> free_list \<Rightarrow> addr list \<times> free_list" where
  "fl_pop_batch 0 f = ([], f)"
| "fl_pop_batch (Suc m) f =
     (case fl_pop f of (None, f') \<Rightarrow> ([], f')
      | (Some b, f') \<Rightarrow> (case fl_pop_batch m f' of (bs, f'') \<Rightarrow> (b # bs, f'')))"

definition fl_empty :: "free_list \<Rightarrow> bool" where "fl_empty f \<longleftrightarrow> fl_nodes f = []"

definition fl_reset :: "free_list \<Rightarrow> free_list" where "fl_reset f = \<lparr>fl_nodes = [], fl_count = 0\<rparr>"

definition fl_ok :: "free_list \<Rightarrow> bool" where "fl_ok f \<longleftrightarrow> fl_count f = length (fl_nodes f)"

lemma fl_new_ok [simp]: "fl_ok fl_new" "fl_nodes fl_new = []"
  by (simp_all add: fl_ok_def fl_new_def)

lemma fl_push_ok [simp]: "fl_ok f \<Longrightarrow> fl_ok (fl_push b f)" "fl_nodes (fl_push b f) = b # fl_nodes f"
  by (simp_all add: fl_ok_def fl_push_def)

lemma fl_push_batch_ok [simp]:
  "fl_ok f \<Longrightarrow> fl_ok (fl_push_batch bs f)" "fl_nodes (fl_push_batch bs f) = rev bs @ fl_nodes f"
  unfolding fl_push_batch_def
  by (induction bs arbitrary: f) simp_all

lemma fl_pop_ok:
  "fl_ok f \<Longrightarrow> (case fl_nodes f of [] \<Rightarrow> fl_pop f = (None, f)
     | b # bs \<Rightarrow> fst (fl_pop f) = Some b \<and> fl_nodes (snd (fl_pop f)) = bs \<and> fl_ok (snd (fl_pop f)))"
  by (simp add: fl_pop_def fl_ok_def split: list.splits)

lemma fl_pop_batch_ok:
  "fl_ok f \<Longrightarrow> fst (fl_pop_batch m f) = take m (fl_nodes f) \<and>
     fl_nodes (snd (fl_pop_batch m f)) = drop m (fl_nodes f) \<and> fl_ok (snd (fl_pop_batch m f))"
proof (induction m f rule: fl_pop_batch.induct)
  case (1 f)
  then show ?case by simp
next
  case (2 m f)
  show ?case
  proof (cases "fl_nodes f")
    case Nil
    then show ?thesis using 2 by (simp add: fl_pop_def)
  next
    case (Cons b bs)
    let ?f = "\<lparr>fl_nodes = bs, fl_count = fl_count f - 1\<rparr>"
    have p: "fl_pop f = (Some b, ?f)" using Cons by (simp add: fl_pop_def)
    have "fl_ok ?f" using 2(2) Cons by (simp add: fl_ok_def)
    then show ?thesis using 2(1)[OF p[symmetric]] p Cons
      by (cases "fl_pop_batch m ?f") simp
  qed
qed

section \<open>Slab\<close>

datatype slab_state = Empty | Partial | Full

record slab =
  sb_base :: addr
  sb_size :: nat
  sb_block :: nat
  sb_total :: nat
  sb_used :: nat
  sb_free :: free_list

definition block_at :: "addr \<Rightarrow> nat \<Rightarrow> nat \<Rightarrow> addr" where
  "block_at base bs i = base + of_nat (i * bs)"

definition power_of_two :: "u64 \<Rightarrow> bool" where
  "power_of_two sz \<longleftrightarrow> sz AND (sz - 1) = 0"

text \<open>
  The constructor: \<open>base\<close> is what \<open>operator new(slabSize, align_val_t(slabSize))\<close> returned. The asserts
  and the power-of-two check come first; \<open>None\<close> is the assertion failure or \<open>invalid_argument\<close>.
\<close>

definition slab_asserts :: "nat \<Rightarrow> nat \<Rightarrow> bool" where
  "slab_asserts bs sz \<longleftrightarrow> 8 \<le> bs \<and> 0 < sz div bs"

definition slab_new :: "addr \<Rightarrow> nat \<Rightarrow> nat \<Rightarrow> slab option" where
  "slab_new base bs sz =
     (if \<not> slab_asserts bs sz \<or> \<not> power_of_two (of_nat sz) then None
      else Some \<lparr>sb_base = base, sb_size = sz, sb_block = bs, sb_total = sz div bs, sb_used = 0,
             sb_free = fl_push_batch (map (block_at base bs) [0..<sz div bs]) fl_new\<rparr>)"

definition slab_allocate :: "slab \<Rightarrow> addr option \<times> slab" where
  "slab_allocate s =
     (if fl_empty (sb_free s) then (None, s)
      else (case fl_pop (sb_free s) of (p, f) \<Rightarrow> (p, s\<lparr>sb_used := sb_used s + 1, sb_free := f\<rparr>)))"

definition slab_allocate_batch :: "nat \<Rightarrow> slab \<Rightarrow> addr list \<times> slab" where
  "slab_allocate_batch maxCount s =
     (case fl_pop_batch maxCount (sb_free s) of
        (bs, f) \<Rightarrow> (bs, s\<lparr>sb_used := sb_used s + length bs, sb_free := f\<rparr>))"

definition slab_deallocate :: "addr \<Rightarrow> slab \<Rightarrow> slab" where
  "slab_deallocate p s = s\<lparr>sb_free := fl_push p (sb_free s), sb_used := sb_used s - 1\<rparr>"

definition slab_deallocate_batch :: "addr list \<Rightarrow> slab \<Rightarrow> slab option" where
  "slab_deallocate_batch ps s =
     (if length ps \<le> sb_used s
      then Some (s\<lparr>sb_free := fl_push_batch ps (sb_free s), sb_used := sb_used s - length ps\<rparr>) else None)"

definition slab_owns :: "addr \<Rightarrow> slab \<Rightarrow> bool" where
  "slab_owns p s \<longleftrightarrow> sb_base s \<le> p \<and> p < sb_base s + of_nat (sb_size s)"

definition slab_contains :: "addr \<Rightarrow> slab \<Rightarrow> bool" where
  "slab_contains p s \<longleftrightarrow> slab_owns p s \<and> unat (p - sb_base s) mod sb_block s = 0"

definition slab_state_of :: "slab \<Rightarrow> slab_state" where
  "slab_state_of s =
     (if sb_used s = 0 then Empty else if sb_used s = sb_total s then Full else Partial)"

definition slab_full :: "slab \<Rightarrow> bool" where "slab_full s \<longleftrightarrow> fl_empty (sb_free s)"

definition slab_blocks :: "slab \<Rightarrow> addr set" where
  "slab_blocks s = block_at (sb_base s) (sb_block s) ` {0..<sb_total s}"

definition slab_live :: "slab \<Rightarrow> addr set" where
  "slab_live s = slab_blocks s - set (fl_nodes (sb_free s))"

definition slab_inv :: "slab \<Rightarrow> bool" where
  "slab_inv s \<longleftrightarrow> fl_ok (sb_free s) \<and> distinct (fl_nodes (sb_free s)) \<and>
     set (fl_nodes (sb_free s)) \<subseteq> slab_blocks s \<and> sb_total s = sb_size s div sb_block s \<and>
     8 \<le> sb_block s \<and> 0 < sb_total s \<and> sb_size s < 2 ^ 64 \<and>
     sb_used s + length (fl_nodes (sb_free s)) = sb_total s"

lemma block_at_inj:
  assumes "i * bs < 2 ^ 64" "j * bs < 2 ^ 64" "0 < bs" "block_at base bs i = block_at base bs j"
  shows "i = j"
proof -
  have "(of_nat (i * bs) :: u64) = of_nat (j * bs)" using assms(4) by (simp add: block_at_def)
  then have "unat (of_nat (i * bs) :: u64) = unat (of_nat (j * bs) :: u64)" by simp
  then have "i * bs = j * bs"
    using assms(1,2) by (simp add: unat_of_nat take_bit_nat_eq_self del: of_nat_mult)
  then show ?thesis using assms(3) by simp
qed

lemma index_below:
  fixes sz :: nat
  assumes "i < sz div bs"
  shows "i * bs + bs \<le> sz" and "i * bs < sz"
proof -
  have "0 < bs" using assms by (cases bs) simp_all
  have "Suc i * bs \<le> (sz div bs) * bs" using assms by (intro mult_le_mono1) simp
  also have "\<dots> \<le> sz" by simp
  finally show "i * bs + bs \<le> sz" by simp
  then show "i * bs < sz" using \<open>0 < bs\<close> by linarith
qed

lemma blocks_inj:
  assumes "sz < 2 ^ 64" "0 < bs"
  shows "inj_on (block_at base bs) {0..<sz div bs}"
proof (rule inj_onI)
  fix i j assume "i \<in> {0..<sz div bs}" "j \<in> {0..<sz div bs}" "block_at base bs i = block_at base bs j"
  then show "i = j"
    using block_at_inj[of i bs j base] index_below(2)[of i sz bs] index_below(2)[of j sz bs] assms by simp
qed

lemma slab_new_inv:
  assumes "slab_new base bs sz = Some s" and "sz < 2 ^ 64"
  shows "slab_inv s \<and> slab_live s = {} \<and> sb_base s = base \<and> sb_size s = sz \<and> sb_block s = bs \<and> sb_used s = 0"
proof -
  have c: "8 \<le> bs" "0 < sz div bs"
    and s: "s = \<lparr>sb_base = base, sb_size = sz, sb_block = bs, sb_total = sz div bs, sb_used = 0,
             sb_free = fl_push_batch (map (block_at base bs) [0..<sz div bs]) fl_new\<rparr>"
    using assms(1) by (auto simp: slab_new_def slab_asserts_def split: if_splits)
  have "inj_on (block_at base bs) {0..<sz div bs}" using blocks_inj assms(2) c by simp
  then show ?thesis
    using c assms(2) by (simp add: s slab_inv_def slab_live_def slab_blocks_def distinct_map)
qed

section \<open>Operations keep the invariant and move blocks between free and live\<close>

lemma slab_free_live: "slab_inv s \<Longrightarrow> slab_live s \<union> set (fl_nodes (sb_free s)) = slab_blocks s"
  by (auto simp: slab_inv_def slab_live_def)

lemma slab_allocate_batch_ok:
  assumes inv: "slab_inv s" and r: "slab_allocate_batch m s = (xs, s')"
  shows "slab_inv s'" and "distinct xs" and "set xs \<inter> slab_live s = {}"
    and "set xs \<subseteq> slab_blocks s" and "slab_live s' = slab_live s \<union> set xs"
    and "length xs = min m (length (fl_nodes (sb_free s)))"
    and "sb_base s' = sb_base s" "sb_size s' = sb_size s" "sb_block s' = sb_block s" "sb_total s' = sb_total s"
    and "sb_used s' = sb_used s + length xs"
    and "slab_full s' \<longleftrightarrow> length (fl_nodes (sb_free s)) \<le> m"
proof -
  let ?f = "fl_nodes (sb_free s)"
  have i: "fl_ok (sb_free s)" "distinct ?f" "set ?f \<subseteq> slab_blocks s" "sb_total s = sb_size s div sb_block s"
    "8 \<le> sb_block s" "0 < sb_total s" "sb_size s < 2 ^ 64" "sb_used s + length ?f = sb_total s"
    using inv by (simp_all add: slab_inv_def)
  note b = fl_pop_batch_ok[OF i(1), of m]
  have xs: "xs = take m ?f" and s': "s' = s\<lparr>sb_used := sb_used s + length xs, sb_free := snd (fl_pop_batch m (sb_free s))\<rparr>"
    using r b by (auto simp: slab_allocate_batch_def split: prod.splits)
  have split: "set ?f = set xs \<union> set (drop m ?f)" "set xs \<inter> set (drop m ?f) = {}"
    using i(2) unfolding xs by (metis append_take_drop_id set_append, metis append_take_drop_id distinct_append)
  have bl: "slab_blocks s' = slab_blocks s" by (simp add: slab_blocks_def s')
  have l: "length xs + length (drop m ?f) = length ?f" by (simp add: xs)
  show "slab_inv s'"
    unfolding slab_inv_def bl using i b l split(1) by (auto simp: s')
  show "distinct xs" using i(2) by (simp add: xs)
  show "set xs \<inter> slab_live s = {}" using split(1) by (auto simp: slab_live_def)
  show "set xs \<subseteq> slab_blocks s" using split(1) i(3) by auto
  show "slab_live s' = slab_live s \<union> set xs"
    using split i(3) b by (auto simp: slab_live_def bl) (auto simp: s')
  show "length xs = min m (length ?f)" by (simp add: xs)
  show "slab_full s' \<longleftrightarrow> length ?f \<le> m" using b by (simp add: s' slab_full_def fl_empty_def)
  show "sb_base s' = sb_base s" "sb_size s' = sb_size s" "sb_block s' = sb_block s" "sb_total s' = sb_total s"
    "sb_used s' = sb_used s + length xs"
    by (simp_all add: s')
qed

lemma slab_allocate_is_batch:
  "slab_inv s \<Longrightarrow> slab_allocate s = (case slab_allocate_batch 1 s of (xs, s') \<Rightarrow> (case xs of [] \<Rightarrow> (None, s) | x # _ \<Rightarrow> (Some x, s')))"
  by (auto simp: slab_allocate_def slab_allocate_batch_def fl_empty_def fl_pop_def split: list.splits)

lemma slab_deallocate_ok:
  assumes inv: "slab_inv s" and p: "p \<in> slab_live s"
  shows "slab_inv (slab_deallocate p s)" and "slab_live (slab_deallocate p s) = slab_live s - {p}"
    and "0 < sb_used s" and "sb_used (slab_deallocate p s) = sb_used s - 1"
proof -
  let ?f = "fl_nodes (sb_free s)"
  have i: "fl_ok (sb_free s)" "distinct ?f" "set ?f \<subseteq> slab_blocks s" "sb_total s = sb_size s div sb_block s"
    "8 \<le> sb_block s" "0 < sb_total s" "sb_size s < 2 ^ 64" "sb_used s + length ?f = sb_total s"
    using inv by (simp_all add: slab_inv_def)
  have pb: "p \<in> slab_blocks s" "p \<notin> set ?f" using p by (auto simp: slab_live_def)
  have "card (slab_blocks s) \<le> sb_total s"
    unfolding slab_blocks_def by (metis card_atLeastLessThan card_image_le diff_zero finite_atLeastLessThan)
  moreover have "card (insert p (set ?f)) \<le> card (slab_blocks s)"
    using pb i(3) by (intro card_mono) (auto simp: slab_blocks_def)
  ultimately have "length ?f < sb_total s" using pb(2) distinct_card[OF i(2)] by simp
  then show u: "0 < sb_used s" using i(8) by linarith
  have bl: "slab_blocks (slab_deallocate p s) = slab_blocks s"
    by (simp add: slab_blocks_def slab_deallocate_def)
  show "slab_inv (slab_deallocate p s)"
    unfolding slab_inv_def bl using i pb u by (auto simp: slab_deallocate_def)
  show "slab_live (slab_deallocate p s) = slab_live s - {p}"
    by (auto simp: slab_live_def bl) (auto simp: slab_deallocate_def)
  show "sb_used (slab_deallocate p s) = sb_used s - 1" by (simp add: slab_deallocate_def)
qed

lemma slab_live_blocks: "slab_live s \<subseteq> slab_blocks s"
  by (auto simp: slab_live_def)

lemma slab_full_used: "slab_inv s \<Longrightarrow> slab_full s \<longleftrightarrow> sb_used s = sb_total s"
  by (auto simp: slab_inv_def slab_full_def fl_empty_def)

section \<open>The slab base of a block\<close>

text \<open>
  Slabs are aligned to their size, so masking a block address with \<open>~(slabSize - 1)\<close> gives the base
  of its slab: this is what \<open>CentralCache::findSlab\<close> rests on.
\<close>

lemma aligned_add_or:
  fixes base k :: u64
  assumes "base AND mask m = 0" and "k AND NOT (mask m) = 0"
  shows "(base + k) AND NOT (mask m) = base"
proof -
  have disj: "base AND k = 0"
  proof (rule bit_eqI)
    fix n :: nat
    show "bit (base AND k) n \<longleftrightarrow> bit (0 :: u64) n"
      using arg_cong[OF assms(1), of "\<lambda>w. bit w n"] arg_cong[OF assms(2), of "\<lambda>w. bit w n"]
      by (auto simp: bit_simps dest: bit_imp_le_length)
  qed
  have "base + k = base OR k" by (rule disjunctive_add_eq_or[OF disj])
  moreover have "(base OR k) AND NOT (mask m) = base"
  proof (rule bit_eqI)
    fix n :: nat
    show "bit ((base OR k) AND NOT (mask m)) n \<longleftrightarrow> bit base n"
      using arg_cong[OF assms(1), of "\<lambda>w. bit w n"] arg_cong[OF assms(2), of "\<lambda>w. bit w n"]
      by (auto simp: bit_simps dest: bit_imp_le_length)
  qed
  ultimately show ?thesis by simp
qed

lemma below_mask:
  assumes "k < 2 ^ m" and "m < 64"
  shows "(of_nat k :: u64) AND NOT (mask m) = 0"
proof (rule bit_eqI)
  fix n :: nat
  have "\<not> bit (of_nat k :: u64) n" if "m \<le> n"
  proof
    assume "bit (of_nat k :: u64) n"
    then have "bit (word_of_int (int k) :: u64) n" by simp
    then have "bit (int k) n" by (simp only: bit_word_of_int_iff)
    then have "bit k n" by (simp add: bit_of_nat_iff)
    then have "odd (k div 2 ^ n)" by (simp add: bit_iff_odd)
    moreover have "k < 2 ^ n" using assms(1) that by (meson less_le_trans one_le_numeral power_increasing)
    ultimately show False by simp
  qed
  then show "bit ((of_nat k :: u64) AND NOT (mask m)) n \<longleftrightarrow> bit (0 :: u64) n"
    by (auto simp: bit_simps not_less)
qed

lemma block_base:
  assumes "base AND mask m = 0" "m < 64" "sz = 2 ^ m" "i < sz div bs"
  shows "block_at base bs i AND NOT (mask m) = base"
proof -
  have "i * bs < 2 ^ m" using index_below(2)[OF assms(4)] assms(3) by simp
  then show ?thesis
    unfolding block_at_def by (intro aligned_add_or[OF assms(1)] below_mask assms(2))
qed

end
