(* ===== verification/Memory_Central.thy ===== *)
theory Memory_Central
  imports Memory_Slab
begin

text \<open>
  \<open>CentralCache\<close> (\<open>src/src/core/common/memory/central_cache.hpp\<close>): the slabs of one block size, the map
  from slab base to slab, the list of the partially used slabs and the counter of allocated blocks.
  A \<open>Slab*\<close> is the index of the slab in \<open>slabs_\<close>, which only grows. All methods hold the mutex of
  the cache, so each is one step. \<open>cc_supply\<close> is what the aligned \<open>operator new\<close> will return for the
  next slabs; when it is exhausted \<open>operator new\<close> throws \<open>bad_alloc\<close>.
\<close>

unbundle bit_operations_syntax

section \<open>State and operations\<close>

record central =
  cc_block :: nat
  cc_size :: nat
  cc_mask :: u64
  cc_partial :: "nat list"
  cc_slabs :: "slab list"
  cc_allocated :: nat
  cc_map :: "addr \<rightharpoonup> nat"
  cc_supply :: "addr list"

definition cc_init :: "addr list \<Rightarrow> nat \<Rightarrow> nat \<Rightarrow> central option" where
  "cc_init supply blockSize slabSize =
     (if blockSize = 0 \<or> \<not> power_of_two (of_nat slabSize) then None
      else Some \<lparr>cc_block = blockSize, cc_size = slabSize, cc_mask = NOT (of_nat slabSize - 1),
             cc_partial = [], cc_slabs = [], cc_allocated = 0, cc_map = Map.empty, cc_supply = supply\<rparr>)"

text \<open>
  \<open>None\<close> is an assertion of the slab's constructor that fails and ends the process, \<open>Some None\<close> an
  exception: \<open>invalid_argument\<close>, or \<open>bad_alloc\<close> from \<open>operator new\<close>.
\<close>

definition cc_add_slab :: "central \<Rightarrow> (nat \<times> central) option option" where
  "cc_add_slab c =
     (if \<not> slab_asserts (cc_block c) (cc_size c) then None
      else Some
        (case cc_supply c of
           [] \<Rightarrow> None
         | base # rest \<Rightarrow>
             (case slab_new base (cc_block c) (cc_size c) of
                None \<Rightarrow> None
              | Some s \<Rightarrow>
                  (let i = length (cc_slabs c) in
                   Some (i, c\<lparr>cc_slabs := cc_slabs c @ [s], cc_supply := rest,
                      cc_map := (if cc_map c base = None then (cc_map c)(base \<mapsto> i) else cc_map c)\<rparr>)))))"

definition cc_find_slab :: "addr \<Rightarrow> central \<Rightarrow> nat option" where
  "cc_find_slab p c = cc_map c (p AND cc_mask c)"

definition cc_transition :: "slab_state \<Rightarrow> nat \<Rightarrow> central \<Rightarrow> central" where
  "cc_transition before i c =
     (let after = slab_state_of (cc_slabs c ! i) in
      if before = after then c
      else
        let p1 = (if before = Partial then removeAll i (cc_partial c) else cc_partial c);
            p2 = (if after = Partial then p1 @ [i] else p1)
        in c\<lparr>cc_partial := p2\<rparr>)"

definition cc_put :: "nat \<Rightarrow> slab \<Rightarrow> central \<Rightarrow> central" where
  "cc_put i s c = c\<lparr>cc_slabs := (cc_slabs c)[i := s]\<rparr>"

definition cc_allocate :: "central \<Rightarrow> (addr option \<times> central) option" where
  "cc_allocate c =
     (case (case cc_partial c of [] \<Rightarrow> cc_add_slab c | i # _ \<Rightarrow> Some (Some (i, c))) of
        None \<Rightarrow> None
      | Some None \<Rightarrow> Some (None, c)
      | Some (Some (i, c1)) \<Rightarrow>
          (let before = slab_state_of (cc_slabs c1 ! i) in
           case slab_allocate (cc_slabs c1 ! i) of
             (None, _) \<Rightarrow> None
           | (Some p, s) \<Rightarrow>
               Some (Some p, cc_transition before i ((cc_put i s c1)\<lparr>cc_allocated := cc_allocated c1 + 1\<rparr>))))"

definition cc_deallocate :: "addr \<Rightarrow> central \<Rightarrow> central" where
  "cc_deallocate p c =
     (case cc_find_slab p c of
        None \<Rightarrow> c
      | Some i \<Rightarrow>
          (let before = slab_state_of (cc_slabs c ! i);
               c1 = cc_put i (slab_deallocate p (cc_slabs c ! i)) c
           in cc_transition before i (c1\<lparr>cc_allocated := cc_allocated c1 - 1\<rparr>)))"

text \<open>The first loop of \<open>fetchBatch\<close>; the iterator is advanced before the slab may leave the list.\<close>

fun cc_fetch_partials :: "nat \<Rightarrow> nat list \<Rightarrow> addr list \<Rightarrow> central \<Rightarrow> addr list \<times> central" where
  "cc_fetch_partials batch [] out c = (out, c)"
| "cc_fetch_partials batch (i # is) out c =
     (if length out < batch
      then
        let before = slab_state_of (cc_slabs c ! i);
            (xs, s) = slab_allocate_batch (batch - length out) (cc_slabs c ! i)
        in cc_fetch_partials batch is (out @ xs) (cc_transition before i (cc_put i s c))
      else (out, c))"

text \<open>The second loop adds slabs. The flag is False when \<open>addSlab\<close> threw.\<close>

partial_function (option) cc_fetch_fresh :: "nat \<Rightarrow> addr list \<Rightarrow> central \<Rightarrow> (addr list \<times> central \<times> bool) option" where
  "cc_fetch_fresh batch out c =
     (if length out < batch
      then (case cc_add_slab c of
              None \<Rightarrow> None
            | Some None \<Rightarrow> Some (out, c, False)
            | Some (Some (i, c1)) \<Rightarrow>
                (let before = slab_state_of (cc_slabs c1 ! i);
                     r = slab_allocate_batch (batch - length out) (cc_slabs c1 ! i);
                     c2 = cc_transition before i (cc_put i (snd r) c1)
                 in if slab_full (snd r) then Some (out @ fst r, c2, True)
                    else cc_fetch_fresh batch (out @ fst r) c2))
      else Some (out, c, True))"

text \<open>
  \<open>None\<close> is a call that does not return: an assertion that fails, or a loop that never ends. The answer
  \<open>(None, c)\<close> is \<open>bad_alloc\<close> leaving the cache, with the blocks taken so far handed to nobody and the
  counter not raised.
\<close>

definition cc_fetch_batch :: "nat \<Rightarrow> central \<Rightarrow> (addr list option \<times> central) option" where
  "cc_fetch_batch batch c =
     (case cc_fetch_partials batch (cc_partial c) [] c of
        (out, c1) \<Rightarrow>
          (case cc_fetch_fresh batch out c1 of
             None \<Rightarrow> None
           | Some (out', c2, ok) \<Rightarrow>
               (if ok then Some (Some out', c2\<lparr>cc_allocated := cc_allocated c2 + length out'\<rparr>)
                else Some (None, c2))))"

fun cc_return_loop :: "addr list \<Rightarrow> nat \<Rightarrow> central \<Rightarrow> nat \<times> central" where
  "cc_return_loop [] returned c = (returned, c)"
| "cc_return_loop (p # ps) returned c =
     (case cc_find_slab p c of
        None \<Rightarrow> cc_return_loop ps returned c
      | Some i \<Rightarrow>
          (let before = slab_state_of (cc_slabs c ! i)
           in cc_return_loop ps (returned + 1)
                (cc_transition before i (cc_put i (slab_deallocate p (cc_slabs c ! i)) c))))"

definition cc_return_batch :: "addr list \<Rightarrow> central \<Rightarrow> nat \<times> central" where
  "cc_return_batch ps c =
     (case cc_return_loop ps 0 c of
        (returned, c') \<Rightarrow> (returned, c'\<lparr>cc_allocated := cc_allocated c' - returned\<rparr>))"

section \<open>Invariant\<close>

definition cc_live :: "central \<Rightarrow> addr set" where
  "cc_live c = (\<Union>s \<in> set (cc_slabs c). slab_live s)"

definition cc_used :: "central \<Rightarrow> nat" where
  "cc_used c = sum_list (map sb_used (cc_slabs c))"

definition cc_inv :: "nat \<Rightarrow> central \<Rightarrow> bool" where
  "cc_inv m c \<longleftrightarrow>
     m < 64 \<and> cc_size c = 2 ^ m \<and> cc_mask c = NOT (mask m) \<and> slab_asserts (cc_block c) (2 ^ m) \<and>
     (\<forall>s \<in> set (cc_slabs c). slab_inv s \<and> sb_size s = cc_size c \<and> sb_block s = cc_block c \<and> sb_base s AND mask m = 0) \<and>
     distinct (map sb_base (cc_slabs c)) \<and>
     (\<forall>b i. cc_map c b = Some i \<longleftrightarrow> i < length (cc_slabs c) \<and> sb_base (cc_slabs c ! i) = b) \<and>
     distinct (cc_partial c) \<and>
     set (cc_partial c) = {i. i < length (cc_slabs c) \<and> slab_state_of (cc_slabs c ! i) = Partial} \<and>
     distinct (cc_supply c) \<and>
     (\<forall>b \<in> set (cc_supply c). b AND mask m = 0 \<and> b \<notin> sb_base ` set (cc_slabs c))"

definition cc_counted :: "central \<Rightarrow> bool" where
  "cc_counted c \<longleftrightarrow> cc_allocated c = cc_used c"

lemma cc_invD:
  assumes "cc_inv m c"
  shows "m < 64" "cc_size c = 2 ^ m" "cc_mask c = NOT (mask m)"
    "i < length (cc_slabs c) \<Longrightarrow> slab_inv (cc_slabs c ! i)"
    "i < length (cc_slabs c) \<Longrightarrow> sb_size (cc_slabs c ! i) = cc_size c \<and> sb_block (cc_slabs c ! i) = cc_block c"
    "i < length (cc_slabs c) \<Longrightarrow> sb_base (cc_slabs c ! i) AND mask m = 0"
    "distinct (map sb_base (cc_slabs c))"
    "cc_map c b = Some i \<longleftrightarrow> i < length (cc_slabs c) \<and> sb_base (cc_slabs c ! i) = b"
    "distinct (cc_partial c)"
    "i \<in> set (cc_partial c) \<longleftrightarrow> i < length (cc_slabs c) \<and> slab_state_of (cc_slabs c ! i) = Partial"
    "slab_asserts (cc_block c) (cc_size c)"
  using assms by (auto simp: cc_inv_def)

lemma slab_block_base:
  assumes "cc_inv m c" and "i < length (cc_slabs c)" and "p \<in> slab_blocks (cc_slabs c ! i)"
  shows "p AND NOT (mask m) = sb_base (cc_slabs c ! i)"
proof -
  let ?s = "cc_slabs c ! i"
  obtain j where j: "p = block_at (sb_base ?s) (sb_block ?s) j" "j < sb_total ?s"
    using assms(3) by (auto simp: slab_blocks_def)
  moreover have "sb_total ?s = sb_size ?s div sb_block ?s"
    using cc_invD(4)[OF assms(1,2)] by (simp add: slab_inv_def)
  ultimately show ?thesis
    using block_base[OF cc_invD(6)[OF assms(1,2)] cc_invD(1)[OF assms(1)], of "sb_size ?s" j]
      cc_invD(2)[OF assms(1)] cc_invD(5)[OF assms(1,2)] by simp
qed

text \<open>Masking finds the slab of every block; hence blocks of different slabs are different.\<close>

lemma find_slab_of:
  assumes "cc_inv m c" and "i < length (cc_slabs c)" and "p \<in> slab_blocks (cc_slabs c ! i)"
  shows "cc_find_slab p c = Some i"
  using slab_block_base[OF assms] cc_invD(3)[OF assms(1)] assms(2)
  by (simp add: cc_find_slab_def cc_invD(8)[OF assms(1)])

lemma live_slab:
  assumes "cc_inv m c" and "p \<in> cc_live c"
  obtains i where "i < length (cc_slabs c)" "p \<in> slab_live (cc_slabs c ! i)" "cc_find_slab p c = Some i"
proof -
  obtain i where "i < length (cc_slabs c)" "p \<in> slab_live (cc_slabs c ! i)"
    using assms(2) by (auto simp: cc_live_def in_set_conv_nth)
  then show ?thesis using that find_slab_of[OF assms(1), of i p] slab_live_blocks by blast
qed

lemma live_iff:
  assumes "cc_inv m c" and "i < length (cc_slabs c)" and "p \<in> slab_blocks (cc_slabs c ! i)"
  shows "p \<in> cc_live c \<longleftrightarrow> p \<in> slab_live (cc_slabs c ! i)"
proof
  assume "p \<in> cc_live c"
  then obtain j where j: "j < length (cc_slabs c)" "p \<in> slab_live (cc_slabs c ! j)" "cc_find_slab p c = Some j"
    using live_slab[OF assms(1)] by blast
  then have "j = i" using find_slab_of[OF assms] by simp
  then show "p \<in> slab_live (cc_slabs c ! i)" using j by simp
qed (use assms(2) in \<open>auto simp: cc_live_def\<close>)

section \<open>Replacing one slab\<close>

lemma transition_fields [simp]:
  "cc_slabs (cc_transition b i c) = cc_slabs c" "cc_block (cc_transition b i c) = cc_block c"
  "cc_size (cc_transition b i c) = cc_size c" "cc_mask (cc_transition b i c) = cc_mask c"
  "cc_allocated (cc_transition b i c) = cc_allocated c" "cc_map (cc_transition b i c) = cc_map c"
  "cc_supply (cc_transition b i c) = cc_supply c"
  by (simp_all add: cc_transition_def Let_def)

lemma put_fields [simp]:
  "cc_slabs (cc_put i s c) = (cc_slabs c)[i := s]" "cc_block (cc_put i s c) = cc_block c"
  "cc_size (cc_put i s c) = cc_size c" "cc_mask (cc_put i s c) = cc_mask c"
  "cc_allocated (cc_put i s c) = cc_allocated c" "cc_map (cc_put i s c) = cc_map c"
  "cc_supply (cc_put i s c) = cc_supply c" "cc_partial (cc_put i s c) = cc_partial c"
  by (simp_all add: cc_put_def)

lemma transition_allocated:
  "cc_transition b i (c\<lparr>cc_allocated := n\<rparr>) = (cc_transition b i c)\<lparr>cc_allocated := n\<rparr>"
  by (simp add: cc_transition_def Let_def)

lemma inv_allocated [simp]:
  "cc_inv m (c\<lparr>cc_allocated := n\<rparr>) \<longleftrightarrow> cc_inv m c" "cc_live (c\<lparr>cc_allocated := n\<rparr>) = cc_live c"
  "cc_used (c\<lparr>cc_allocated := n\<rparr>) = cc_used c"
  by (simp_all add: cc_inv_def cc_live_def cc_used_def)

lemma transition_partial:
  fixes s :: slab
  assumes inv: "cc_inv m c" and i: "i < length (cc_slabs c)"
  defines "c' \<equiv> cc_transition (slab_state_of (cc_slabs c ! i)) i (cc_put i s c)"
  shows "distinct (cc_partial c')"
    and "set (cc_partial c') = {j. j < length (cc_slabs c) \<and> slab_state_of ((cc_slabs c)[i := s] ! j) = Partial}"
proof -
  have d: "distinct (cc_partial c)" by (rule cc_invD(9)[OF inv])
  have p: "set (cc_partial c) = {j. j < length (cc_slabs c) \<and> slab_state_of (cc_slabs c ! j) = Partial}"
    using cc_invD(10)[OF inv] by blast
  have s: "(cc_slabs c)[i := s] ! i = s" using i by simp
  show "distinct (cc_partial c')"
    using d p i by (auto simp: c'_def cc_transition_def Let_def s distinct_removeAll)
  show "set (cc_partial c') = {j. j < length (cc_slabs c) \<and> slab_state_of ((cc_slabs c)[i := s] ! j) = Partial}"
    using p i by (auto simp: c'_def cc_transition_def Let_def s nth_list_update)
qed

lemma put_inv:
  assumes inv: "cc_inv m c" and i: "i < length (cc_slabs c)"
    and s: "slab_inv s" "sb_base s = sb_base (cc_slabs c ! i)" "sb_size s = sb_size (cc_slabs c ! i)"
      "sb_block s = sb_block (cc_slabs c ! i)"
  shows "cc_inv m (cc_transition (slab_state_of (cc_slabs c ! i)) i (cc_put i s c))"
proof -
  let ?c = "cc_transition (slab_state_of (cc_slabs c ! i)) i (cc_put i s c)"
  have bases: "map sb_base ((cc_slabs c)[i := s]) = map sb_base (cc_slabs c)"
    using s(2) i by (metis list_update_id map_update nth_map)
  then have bset: "sb_base ` set ((cc_slabs c)[i := s]) = sb_base ` set (cc_slabs c)"
    by (metis list.set_map)
  have nthb: "sb_base ((cc_slabs c)[i := s] ! j) = sb_base (cc_slabs c ! j)" if "j < length (cc_slabs c)" for j
    using s(2) i that by (cases "j = i") simp_all
  have each: "slab_inv t \<and> sb_size t = cc_size c \<and> sb_block t = cc_block c \<and> sb_base t AND mask m = 0"
    if "t \<in> set ((cc_slabs c)[i := s])" for t
  proof -
    have "t = s \<or> t \<in> set (cc_slabs c)" using that set_update_subset_insert by fastforce
    then show ?thesis
      using inv s cc_invD(5,6)[OF inv i] by (auto simp: cc_inv_def)
  qed
  have map: "cc_map c b = Some j \<longleftrightarrow> j < length ((cc_slabs c)[i := s]) \<and> sb_base ((cc_slabs c)[i := s] ! j) = b" for b j
    using cc_invD(8)[OF inv, of b j] nthb by auto
  show ?thesis
    unfolding cc_inv_def transition_fields put_fields bases bset
    using cc_invD(1-3,7,11)[OF inv] each map transition_partial[OF inv i, of s] inv
    by (simp add: cc_inv_def)
qed

lemma put_live:
  assumes inv: "cc_inv m c" and i: "i < length (cc_slabs c)" and s: "slab_blocks s = slab_blocks (cc_slabs c ! i)"
  shows "cc_live (cc_transition b i (cc_put i s c)) = (cc_live c - slab_live (cc_slabs c ! i)) \<union> slab_live s"
proof -
  have "p \<in> cc_live c - slab_live (cc_slabs c ! i) \<longleftrightarrow> (\<exists>j. j \<noteq> i \<and> j < length (cc_slabs c) \<and> p \<in> slab_live (cc_slabs c ! j))" for p
  proof
    assume p: "p \<in> cc_live c - slab_live (cc_slabs c ! i)"
    then show "\<exists>j. j \<noteq> i \<and> j < length (cc_slabs c) \<and> p \<in> slab_live (cc_slabs c ! j)"
      by (auto simp: cc_live_def in_set_conv_nth)
  next
    assume "\<exists>j. j \<noteq> i \<and> j < length (cc_slabs c) \<and> p \<in> slab_live (cc_slabs c ! j)"
    then obtain j where j: "j \<noteq> i" "j < length (cc_slabs c)" "p \<in> slab_live (cc_slabs c ! j)" by blast
    have "cc_find_slab p c = Some j" using find_slab_of[OF inv j(2)] j(3) slab_live_blocks by blast
    then have "p \<notin> slab_live (cc_slabs c ! i)"
      using find_slab_of[OF inv i, of p] j(1) slab_live_blocks by fastforce
    moreover have "p \<in> cc_live c" using j by (auto simp: cc_live_def)
    ultimately show "p \<in> cc_live c - slab_live (cc_slabs c ! i)" by blast
  qed
  moreover have "p \<in> cc_live (cc_transition b i (cc_put i s c)) \<longleftrightarrow>
      p \<in> slab_live s \<or> (\<exists>j. j \<noteq> i \<and> j < length (cc_slabs c) \<and> p \<in> slab_live (cc_slabs c ! j))" for p
    unfolding cc_live_def transition_fields put_fields set_list_update[OF i] by auto
  ultimately show ?thesis by blast
qed

lemma live_nth: "i < length (cc_slabs c) \<Longrightarrow> slab_live (cc_slabs c ! i) \<subseteq> cc_live c"
  unfolding cc_live_def by (meson UN_upper nth_mem)

lemma put_used:
  assumes "i < length (cc_slabs c)"
  shows "cc_used (cc_transition b i (cc_put i s c)) + sb_used (cc_slabs c ! i) = cc_used c + sb_used s"
  using assms sum_list_update_nat[of i "map sb_used (cc_slabs c)" "sb_used s"]
  by (simp add: cc_used_def map_update)

section \<open>Operations\<close>

lemma add_slab_ok:
  assumes inv: "cc_inv m c" and r: "cc_add_slab c = Some (Some (i, c1))"
  shows "cc_inv m c1" "cc_live c1 = cc_live c" "cc_used c1 = cc_used c" "cc_allocated c1 = cc_allocated c"
    "i < length (cc_slabs c1)" "slab_inv (cc_slabs c1 ! i)" "sb_used (cc_slabs c1 ! i) = 0"
    "length (cc_slabs c1) = Suc (length (cc_slabs c))"
    "cc_block c1 = cc_block c"
proof -
  obtain base rest s where b: "cc_supply c = base # rest" "slab_new base (cc_block c) (cc_size c) = Some s"
    and i: "i = length (cc_slabs c)"
    and c1: "c1 = c\<lparr>cc_slabs := cc_slabs c @ [s], cc_supply := rest,
                   cc_map := (if cc_map c base = None then (cc_map c)(base \<mapsto> i) else cc_map c)\<rparr>"
    using r by (auto simp: cc_add_slab_def Let_def split: if_splits list.splits option.splits)
  have sz: "cc_size c < 2 ^ 64"
    using cc_invD(1,2)[OF inv] power_strict_increasing[of m 64 "2 :: nat"] by simp
  note s = slab_new_inv[OF b(2) sz]
  have al: "base AND mask m = 0" and fresh: "base \<notin> sb_base ` set (cc_slabs c)"
    and rest: "distinct (base # rest)" "\<forall>b \<in> set rest. b AND mask m = 0 \<and> b \<notin> sb_base ` set (cc_slabs c)"
    using inv b(1) by (auto simp: cc_inv_def)
  have free: "cc_map c base = None"
  proof (cases "cc_map c base")
    case (Some j)
    then show ?thesis using cc_invD(8)[OF inv, of base j] fresh by auto
  qed simp
  have st: "slab_state_of s = Empty" using s by (simp add: slab_state_of_def)
  have map: "cc_map c1 b = Some j \<longleftrightarrow> j < length (cc_slabs c1) \<and> sb_base (cc_slabs c1 ! j) = b" for b j
  proof (cases "j = length (cc_slabs c)")
    case True
    then show ?thesis using cc_invD(8)[OF inv, of b j] free s i by (simp add: c1 nth_append)
  next
    case False
    have "sb_base (cc_slabs c ! j) \<noteq> base" if "j < length (cc_slabs c)" using fresh that by auto
    moreover have "j < length (cc_slabs c1) \<longleftrightarrow> j < length (cc_slabs c)" using False by (simp add: c1) linarith
    moreover have "j < length (cc_slabs c) \<Longrightarrow> cc_slabs c1 ! j = cc_slabs c ! j" by (simp add: c1 nth_append)
    moreover have "cc_map c1 b = Some j \<longleftrightarrow> b \<noteq> base \<and> cc_map c b = Some j"
      using free False i by (simp add: c1)
    ultimately show ?thesis using cc_invD(8)[OF inv, of b j] by metis
  qed
  have part: "set (cc_partial c) = {j. j < length (cc_slabs c1) \<and> slab_state_of (cc_slabs c1 ! j) = Partial}"
  proof (rule set_eqI)
    fix j
    have len: "length (cc_slabs c1) = Suc (length (cc_slabs c))" by (simp add: c1)
    show "j \<in> set (cc_partial c) \<longleftrightarrow> j \<in> {j. j < length (cc_slabs c1) \<and> slab_state_of (cc_slabs c1 ! j) = Partial}"
    proof (cases "j = length (cc_slabs c)")
      case True
      then have "cc_slabs c1 ! j = s" by (simp add: c1)
      then show ?thesis using st True cc_invD(10)[OF inv, of j] by simp
    next
      case False
      then have "j < length (cc_slabs c) \<Longrightarrow> cc_slabs c1 ! j = cc_slabs c ! j" by (simp add: c1 nth_append)
      then show ?thesis using False cc_invD(10)[OF inv, of j] len by auto
    qed
  qed
  show "cc_inv m c1"
    unfolding cc_inv_def
  proof (intro conjI)
    show "m < 64" "cc_size c1 = 2 ^ m" "cc_mask c1 = NOT (mask m)" "distinct (cc_partial c1)"
      "slab_asserts (cc_block c1) (2 ^ m)"
      using cc_invD(1,2,3,9,11)[OF inv] by (simp_all add: c1)
    show "\<forall>s\<in>set (cc_slabs c1). slab_inv s \<and> sb_size s = cc_size c1 \<and> sb_block s = cc_block c1 \<and> sb_base s AND mask m = 0"
      using inv s al by (simp add: c1 cc_inv_def)
    show "distinct (map sb_base (cc_slabs c1))"
      using cc_invD(7)[OF inv] s fresh by (simp add: c1)
    show "\<forall>b i. cc_map c1 b = Some i \<longleftrightarrow> i < length (cc_slabs c1) \<and> sb_base (cc_slabs c1 ! i) = b" using map by blast
    show "set (cc_partial c1) = {i. i < length (cc_slabs c1) \<and> slab_state_of (cc_slabs c1 ! i) = Partial}"
      using part by (simp add: c1)
    show "distinct (cc_supply c1)" using rest by (simp add: c1)
    show "\<forall>b\<in>set (cc_supply c1). b AND mask m = 0 \<and> b \<notin> sb_base ` set (cc_slabs c1)"
      using rest s by (simp add: c1) blast
  qed
  show "cc_live c1 = cc_live c" using s by (simp add: c1 cc_live_def)
  show "cc_used c1 = cc_used c" using s by (simp add: c1 cc_used_def)
  show "cc_allocated c1 = cc_allocated c" "i < length (cc_slabs c1)" "slab_inv (cc_slabs c1 ! i)"
    "sb_used (cc_slabs c1 ! i) = 0" "length (cc_slabs c1) = Suc (length (cc_slabs c))" "cc_block c1 = cc_block c"
    using s by (simp_all add: c1 i)
qed

text \<open>Taking a batch from one slab.\<close>

lemma take_ok:
  assumes inv: "cc_inv m c" and i: "i < length (cc_slabs c)"
    and r: "slab_allocate_batch k (cc_slabs c ! i) = (xs, s)"
  defines "c' \<equiv> cc_transition (slab_state_of (cc_slabs c ! i)) i (cc_put i s c)"
  shows "cc_inv m c'" "cc_live c' = cc_live c \<union> set xs" "set xs \<inter> cc_live c = {}" "distinct xs"
    "cc_used c' = cc_used c + length xs"
proof -
  let ?s = "cc_slabs c ! i"
  note b = slab_allocate_batch_ok[OF cc_invD(4)[OF inv i] r]
  have bl: "slab_blocks s = slab_blocks ?s" using b(7,9,10) by (simp add: slab_blocks_def)
  show "cc_inv m c'" unfolding c'_def by (rule put_inv[OF inv i b(1,7,8,9)])
  show "set xs \<inter> cc_live c = {}" using b(3,4) live_iff[OF inv i] by blast
  show "cc_live c' = cc_live c \<union> set xs"
    unfolding c'_def put_live[OF inv i bl] b(5) using live_nth[OF i] by blast
  show "distinct xs" by (rule b(2))
  show "cc_used c' = cc_used c + length xs" using put_used[OF i, of _ s] b(11) by (simp add: c'_def)
qed

lemma give_ok:
  assumes inv: "cc_inv m c" and i: "i < length (cc_slabs c)" and p: "p \<in> slab_live (cc_slabs c ! i)"
  defines "c' \<equiv> cc_transition (slab_state_of (cc_slabs c ! i)) i (cc_put i (slab_deallocate p (cc_slabs c ! i)) c)"
  shows "cc_inv m c'" "cc_live c' = cc_live c - {p}" "Suc (cc_used c') = cc_used c"
proof -
  let ?s = "cc_slabs c ! i" and ?t = "slab_deallocate p (cc_slabs c ! i)"
  note d = slab_deallocate_ok[OF cc_invD(4)[OF inv i] p]
  have bl: "slab_blocks ?t = slab_blocks ?s" by (simp add: slab_blocks_def slab_deallocate_def)
  show "cc_inv m c'" unfolding c'_def
    by (rule put_inv[OF inv i d(1)]) (simp_all add: slab_deallocate_def)
  have lv: "slab_live ?s \<subseteq> cc_live c" by (rule live_nth[OF i])
  show "cc_live c' = cc_live c - {p}"
    unfolding c'_def put_live[OF inv i bl] d(2) using lv p by auto
  show "Suc (cc_used c') = cc_used c"
    using put_used[OF i, of "slab_state_of ?s" ?t] d(3,4) unfolding c'_def by linarith
qed

lemma cc_allocate_ok:
  assumes inv: "cc_inv m c" and cnt: "cc_counted c" and r: "cc_allocate c = Some (Some p, c')"
  shows "cc_inv m c' \<and> cc_counted c' \<and> p \<notin> cc_live c \<and> cc_live c' = insert p (cc_live c)"
proof -
  obtain i c1 where i: "(case cc_partial c of [] \<Rightarrow> cc_add_slab c | i # _ \<Rightarrow> Some (Some (i, c))) = Some (Some (i, c1))"
    using r by (auto simp: cc_allocate_def split: option.splits)
  have c1: "cc_inv m c1" "cc_live c1 = cc_live c" "cc_used c1 = cc_used c" "cc_allocated c1 = cc_allocated c"
    "i < length (cc_slabs c1)"
  proof -
    have "cc_inv m c1 \<and> cc_live c1 = cc_live c \<and> cc_used c1 = cc_used c \<and> cc_allocated c1 = cc_allocated c \<and>
        i < length (cc_slabs c1)"
    proof (cases "cc_partial c")
      case Nil
      then show ?thesis using i add_slab_ok[OF inv, of i c1] by simp
    next
      case (Cons j js)
      then show ?thesis using i inv cc_invD(10)[OF inv, of j] by auto
    qed
    then show "cc_inv m c1" "cc_live c1 = cc_live c" "cc_used c1 = cc_used c" "cc_allocated c1 = cc_allocated c"
      "i < length (cc_slabs c1)" by simp_all
  qed
  let ?s = "cc_slabs c1 ! i"
  obtain xs s where b: "slab_allocate_batch 1 ?s = (xs, s)" by (cases "slab_allocate_batch 1 ?s")
  obtain q where xs: "xs = [q]" and q: "slab_allocate ?s = (Some q, s)"
  proof -
    have "length xs \<le> 1" using slab_allocate_batch_ok(6)[OF cc_invD(4)[OF c1(1,5)] b] by simp
    moreover have "xs \<noteq> []"
    proof
      assume "xs = []"
      then have "slab_allocate ?s = (None, ?s)"
        using slab_allocate_is_batch[OF cc_invD(4)[OF c1(1,5)]] b by simp
      then show False using r i by (auto simp: cc_allocate_def Let_def)
    qed
    ultimately obtain q where "xs = [q]" by (cases xs) auto
    then show ?thesis using that slab_allocate_is_batch[OF cc_invD(4)[OF c1(1,5)]] b by simp
  qed
  note t = take_ok[OF c1(1,5) b]
  have "p = q" and c': "c' = cc_transition (slab_state_of ?s) i ((cc_put i s c1)\<lparr>cc_allocated := cc_allocated c1 + 1\<rparr>)"
    using r i q by (simp_all add: cc_allocate_def Let_def)
  then show ?thesis
    using t xs c1 cnt by (simp add: transition_allocated cc_counted_def)
qed

lemma cc_deallocate_ok:
  assumes inv: "cc_inv m c" and cnt: "cc_counted c" and p: "p \<in> cc_live c"
  shows "cc_inv m (cc_deallocate p c) \<and> cc_counted (cc_deallocate p c) \<and> cc_live (cc_deallocate p c) = cc_live c - {p}"
proof -
  obtain i where i: "i < length (cc_slabs c)" "p \<in> slab_live (cc_slabs c ! i)" "cc_find_slab p c = Some i"
    using live_slab[OF inv p] by blast
  show ?thesis
    using give_ok[OF inv i(1,2)] cnt i(3)
    by (simp add: cc_deallocate_def Let_def transition_allocated cc_counted_def)
qed

lemma cc_return_loop_ok:
  "cc_inv m c \<Longrightarrow> distinct ps \<Longrightarrow> set ps \<subseteq> cc_live c \<Longrightarrow>
     (case cc_return_loop ps n c of (n', c') \<Rightarrow>
        n' = n + length ps \<and> cc_inv m c' \<and> cc_live c' = cc_live c - set ps \<and>
        cc_used c' + length ps = cc_used c \<and> cc_allocated c' = cc_allocated c)"
proof (induction ps arbitrary: n c)
  case Nil
  then show ?case by simp
next
  case (Cons p ps)
  obtain i where i: "i < length (cc_slabs c)" "p \<in> slab_live (cc_slabs c ! i)" "cc_find_slab p c = Some i"
    using live_slab[OF Cons.prems(1), of p] Cons.prems(3) by auto
  let ?c = "cc_transition (slab_state_of (cc_slabs c ! i)) i (cc_put i (slab_deallocate p (cc_slabs c ! i)) c)"
  note g = give_ok[OF Cons.prems(1) i(1,2)]
  have sub: "set ps \<subseteq> cc_live ?c" "distinct ps" "p \<notin> set ps" using g(2) Cons.prems(2,3) by auto
  obtain n' c' where e: "cc_return_loop ps (n + 1) ?c = (n', c')" by (cases "cc_return_loop ps (n + 1) ?c")
  have ih: "n' = n + 1 + length ps" "cc_inv m c'" "cc_live c' = cc_live ?c - set ps"
      "cc_used c' + length ps = cc_used ?c" "cc_allocated c' = cc_allocated ?c"
    using Cons.IH[OF g(1) sub(2,1), of "n + 1"] e by simp_all
  have r: "cc_return_loop (p # ps) n c = (n', c')" using i(3) e by (simp add: Let_def)
  have "cc_live c' = cc_live c - set (p # ps)" unfolding ih(3) g(2) by auto
  then show ?case unfolding r prod.case using ih g(3) by simp
qed

lemma cc_return_batch_ok:
  assumes inv: "cc_inv m c" and ps: "distinct ps" "set ps \<subseteq> cc_live c"
    and r: "cc_return_batch ps c = (n, c')"
  shows "n = length ps" "cc_inv m c'" "cc_counted c \<Longrightarrow> cc_counted c'" "cc_live c' = cc_live c - set ps"
proof -
  obtain n1 c1 where e: "cc_return_loop ps 0 c = (n1, c1)" by (cases "cc_return_loop ps 0 c")
  have l: "n1 = length ps" "cc_inv m c1" "cc_live c1 = cc_live c - set ps" "cc_used c1 + length ps = cc_used c"
      "cc_allocated c1 = cc_allocated c"
    using cc_return_loop_ok[OF inv ps, of 0] e by simp_all
  have c': "n = n1" "c' = c1\<lparr>cc_allocated := cc_allocated c1 - n1\<rparr>"
    using r e by (auto simp: cc_return_batch_def)
  show "n = length ps" "cc_inv m c'" "cc_live c' = cc_live c - set ps" using l c' by simp_all
  show "cc_counted c \<Longrightarrow> cc_counted c'" using l by (simp add: c' cc_counted_def)
qed

lemma cc_fetch_partials_ok:
  "cc_inv m c \<Longrightarrow> (\<forall>i \<in> set is. i < length (cc_slabs c)) \<Longrightarrow> length out \<le> batch \<Longrightarrow>
     (case cc_fetch_partials batch is out c of (out', c') \<Rightarrow>
        \<exists>ys. out' = out @ ys \<and> length out' \<le> batch \<and> distinct ys \<and> set ys \<inter> cc_live c = {} \<and>
          cc_live c' = cc_live c \<union> set ys \<and> cc_inv m c' \<and> cc_used c' = cc_used c + length ys \<and>
          cc_allocated c' = cc_allocated c)"
proof (induction "is" arbitrary: out c)
  case Nil
  then show ?case by simp
next
  case (Cons i "is")
  show ?case
  proof (cases "length out < batch")
    case False
    then show ?thesis using Cons.prems by simp
  next
    case True
    have i: "i < length (cc_slabs c)" using Cons.prems(2) by simp
    obtain xs s where b: "slab_allocate_batch (batch - length out) (cc_slabs c ! i) = (xs, s)"
      by (cases "slab_allocate_batch (batch - length out) (cc_slabs c ! i)")
    let ?c = "cc_transition (slab_state_of (cc_slabs c ! i)) i (cc_put i s c)"
    note t = take_ok[OF Cons.prems(1) i b]
    have len: "length (out @ xs) \<le> batch"
      using slab_allocate_batch_ok(6)[OF cc_invD(4)[OF Cons.prems(1) i] b] True by simp
    have ids: "\<forall>i \<in> set is. i < length (cc_slabs ?c)" using Cons.prems(2) by simp
    obtain out' c' where e: "cc_fetch_partials batch is (out @ xs) ?c = (out', c')"
      by (cases "cc_fetch_partials batch is (out @ xs) ?c")
    obtain ys where ys: "out' = (out @ xs) @ ys" "length out' \<le> batch" "distinct ys" "set ys \<inter> cc_live ?c = {}"
        "cc_live c' = cc_live ?c \<union> set ys" "cc_inv m c'" "cc_used c' = cc_used ?c + length ys"
        "cc_allocated c' = cc_allocated ?c"
      using Cons.IH[OF t(1) ids len] e by auto
    have r: "cc_fetch_partials batch (i # is) out c = (out', c')" using True b e by (simp add: Let_def)
    have "out' = out @ (xs @ ys) \<and> length out' \<le> batch \<and> distinct (xs @ ys) \<and> set (xs @ ys) \<inter> cc_live c = {} \<and>
        cc_live c' = cc_live c \<union> set (xs @ ys) \<and> cc_inv m c' \<and> cc_used c' = cc_used c + length (xs @ ys) \<and>
        cc_allocated c' = cc_allocated c"
      using ys t by auto
    then show ?thesis unfolding r prod.case by blast
  qed
qed

lemma add_slab_returns: "cc_inv m c \<Longrightarrow> cc_add_slab c \<noteq> None"
  using cc_invD(11)[of m c] by (simp add: cc_add_slab_def)

text \<open>
  The second loop runs at most once: a fresh slab either serves the whole rest of the request or is
  left full, which breaks the loop.
\<close>

lemma cc_fetch_fresh_ok:
  assumes inv: "cc_inv m c" and len: "length out \<le> batch"
  shows "\<exists>out' c' ok. cc_fetch_fresh batch out c = Some (out', c', ok) \<and>
    (\<exists>ys. out' = out @ ys \<and> length out' \<le> batch \<and> distinct ys \<and> set ys \<inter> cc_live c = {} \<and>
      cc_live c' = cc_live c \<union> set ys \<and> cc_inv m c' \<and> cc_used c' = cc_used c + length ys \<and>
      cc_allocated c' = cc_allocated c \<and>
      (ok \<longrightarrow> 0 < batch \<longrightarrow> out' \<noteq> []) \<and> (\<not> ok \<longrightarrow> ys = [] \<and> cc_add_slab c = Some None) \<and>
      (\<forall>i c1. length out < batch \<longrightarrow> cc_add_slab c = Some (Some (i, c1)) \<longrightarrow>
         ok \<and> ys = take (batch - length out) (fl_nodes (sb_free (cc_slabs c1 ! i)))))"
proof (cases "length out < batch")
  case False
  then have "cc_fetch_fresh batch out c = Some (out, c, True)" by (subst cc_fetch_fresh.simps) simp
  then show ?thesis using inv len False by auto
next
  case True
  show ?thesis
  proof (cases "the (cc_add_slab c)")
    case None
    then have None: "cc_add_slab c = Some None" using add_slab_returns[OF inv] by auto
    then have "cc_fetch_fresh batch out c = Some (out, c, False)"
      using True by (subst cc_fetch_fresh.simps) simp
    then show ?thesis using inv len None by auto
  next
    case (Some r)
    obtain i c1 where r: "cc_add_slab c = Some (Some (i, c1))" using Some add_slab_returns[OF inv] by (cases r) auto
    note a = add_slab_ok[OF inv r]
    let ?k = "batch - length out" and ?s = "cc_slabs c1 ! i"
    obtain xs s where b: "slab_allocate_batch ?k ?s = (xs, s)" by (cases "slab_allocate_batch ?k ?s")
    let ?c = "cc_transition (slab_state_of ?s) i (cc_put i s c1)"
    note t = take_ok[OF a(1,5) b]
    note sb = slab_allocate_batch_ok[OF a(6) b]
    have fr: "length (fl_nodes (sb_free ?s)) = sb_total ?s" "0 < sb_total ?s"
      using a(6,7) by (simp_all add: slab_inv_def)
    have lx: "length xs = min ?k (sb_total ?s)" using sb(6) fr by simp
    then have xs: "xs \<noteq> []" "length (out @ xs) \<le> batch" using True fr(2) by auto
    have full: "slab_full s \<longleftrightarrow> sb_total ?s \<le> ?k" using sb(12) fr(1) by simp
    have "cc_fetch_fresh batch out c = Some (out @ xs, ?c, True)"
    proof (cases "slab_full s")
      case True
      then show ?thesis using \<open>length out < batch\<close> r b
        by (subst cc_fetch_fresh.simps) (simp add: Let_def)
    next
      case False
      then have nomore: "\<not> length (out @ xs) < batch" using lx full by simp
      have "cc_fetch_fresh batch out c = cc_fetch_fresh batch (out @ xs) ?c"
        using \<open>length out < batch\<close> r b False by (subst cc_fetch_fresh.simps) (simp add: Let_def)
      also have "\<dots> = Some (out @ xs, ?c, True)"
        using nomore by (subst cc_fetch_fresh.simps) simp
      finally show ?thesis .
    qed
    moreover have "xs = take ?k (fl_nodes (sb_free ?s))"
      using fl_pop_batch_ok[of "sb_free ?s" ?k] a(6) b
      by (auto simp: slab_inv_def slab_allocate_batch_def split: prod.splits)
    ultimately show ?thesis using t a(2,3,4) xs r by auto
  qed
qed

lemma cc_fetch_batch_ok:
  assumes inv: "cc_inv m c"
  shows "\<exists>r c'. cc_fetch_batch batch c = Some (r, c') \<and> cc_inv m c' \<and>
    (case r of
       Some xs \<Rightarrow> (cc_counted c \<longrightarrow> cc_counted c') \<and> distinct xs \<and> set xs \<inter> cc_live c = {} \<and> cc_live c' = cc_live c \<union> set xs \<and>
         length xs \<le> batch \<and> (0 < batch \<longrightarrow> xs \<noteq> [])
     | None \<Rightarrow> cc_live c \<subseteq> cc_live c')"
proof -
  obtain out c1 where e: "cc_fetch_partials batch (cc_partial c) [] c = (out, c1)"
    by (cases "cc_fetch_partials batch (cc_partial c) [] c")
  have "\<forall>i \<in> set (cc_partial c). i < length (cc_slabs c)" using cc_invD(10)[OF inv] by blast
  from cc_fetch_partials_ok[OF inv this, of "[]" batch] e
  have p: "length out \<le> batch" "distinct out" "set out \<inter> cc_live c = {}" "cc_live c1 = cc_live c \<union> set out"
    "cc_inv m c1" "cc_used c1 = cc_used c + length out" "cc_allocated c1 = cc_allocated c"
    by auto
  from cc_fetch_fresh_ok[OF p(5,1)] obtain out' c2 ok ys where f:
    "cc_fetch_fresh batch out c1 = Some (out', c2, ok)" "out' = out @ ys" "length out' \<le> batch"
    "distinct ys" "set ys \<inter> cc_live c1 = {}" "cc_live c2 = cc_live c1 \<union> set ys" "cc_inv m c2"
    "cc_used c2 = cc_used c1 + length ys" "cc_allocated c2 = cc_allocated c1" "ok \<longrightarrow> 0 < batch \<longrightarrow> out' \<noteq> []"
    by (elim exE conjE)
  show ?thesis
  proof (cases ok)
    case True
    have "distinct out'" "set out' \<inter> cc_live c = {}" "cc_live c2 = cc_live c \<union> set out'"
      using p f by auto
    moreover have "cc_counted c \<longrightarrow> cc_counted (c2\<lparr>cc_allocated := cc_allocated c2 + length out'\<rparr>)"
      using p f by (simp add: cc_counted_def)
    ultimately show ?thesis using e f True by (simp add: cc_fetch_batch_def)
  next
    case False
    then show ?thesis using e f p by (auto simp: cc_fetch_batch_def)
  qed
qed

section \<open>The memory a cache may hand out\<close>

text \<open>
  Mask, slab bases (present and to come) and block size never change; together they bound the blocks.
\<close>

definition cc_region :: "central \<Rightarrow> u64 \<times> addr set \<times> nat" where
  "cc_region c = (cc_mask c, sb_base ` set (cc_slabs c) \<union> set (cc_supply c), cc_block c)"

definition cc_area :: "u64 \<times> addr set \<times> nat \<Rightarrow> addr set" where
  "cc_area r = (case r of (k, bases, _) \<Rightarrow> {p. p AND k \<in> bases})"

lemma region_transition [simp]: "cc_region (cc_transition b i c) = cc_region c"
  by (simp add: cc_region_def)

lemma region_allocated [simp]: "cc_region (c\<lparr>cc_allocated := n\<rparr>) = cc_region c"
  by (simp add: cc_region_def)

lemma region_put:
  assumes "sb_base s = sb_base (cc_slabs c ! i)"
  shows "cc_region (cc_put i s c) = cc_region c"
proof -
  have "map sb_base ((cc_slabs c)[i := s]) = map sb_base (cc_slabs c)"
    using assms by (metis list_update_beyond list_update_id map_update not_le nth_map)
  then have "sb_base ` set ((cc_slabs c)[i := s]) = sb_base ` set (cc_slabs c)" by (metis list.set_map)
  then show ?thesis by (simp add: cc_region_def)
qed

lemma base_batch: "sb_base (snd (slab_allocate_batch k s)) = sb_base s"
  by (simp add: slab_allocate_batch_def split: prod.split)

lemma base_deallocate: "sb_base (slab_deallocate p s) = sb_base s"
  by (simp add: slab_deallocate_def)

lemma region_add:
  assumes "cc_add_slab c = Some (Some (i, c1))"
  shows "cc_region c1 = cc_region c"
proof -
  obtain base rest s where b: "cc_supply c = base # rest" "slab_new base (cc_block c) (cc_size c) = Some s"
    using assms by (auto simp: cc_add_slab_def Let_def split: if_splits list.splits option.splits)
  have "sb_base s = base" using b(2) by (auto simp: slab_new_def split: if_splits)
  then show ?thesis using assms b by (auto simp: cc_add_slab_def Let_def cc_region_def split: if_splits)
qed

lemma region_partials: "cc_region (snd (cc_fetch_partials batch is out c)) = cc_region c"
proof (induction "is" arbitrary: out c)
  case Nil
  then show ?case by simp
next
  case (Cons i "is")
  show ?case
    using Cons.IH[of "out @ fst (slab_allocate_batch (batch - length out) (cc_slabs c ! i))"
        "cc_transition (slab_state_of (cc_slabs c ! i)) i (cc_put i (snd (slab_allocate_batch (batch - length out) (cc_slabs c ! i))) c)"]
      region_put[of "snd (slab_allocate_batch (batch - length out) (cc_slabs c ! i))" c i, OF base_batch]
    by (cases "slab_allocate_batch (batch - length out) (cc_slabs c ! i)") (simp add: Let_def)
qed

lemma region_fresh:
  assumes "cc_fetch_fresh batch out c = Some r"
  shows "cc_region (fst (snd r)) = cc_region c"
proof -
  have "cc_region (fst (snd r)) = cc_region c" if e: "cc_fetch_fresh batch out c = Some r" for out c r
    by (rule cc_fetch_fresh.raw_induct[OF _ e, where P = "\<lambda>batch out c r. cc_region (fst (snd r)) = cc_region c"])
      (auto simp: Let_def region_put[OF base_batch] region_add split: if_splits option.splits prod.splits)
  then show ?thesis using assms .
qed

lemma region_fetch: "cc_fetch_batch batch c = Some (r, c') \<Longrightarrow> cc_region c' = cc_region c"
  using region_partials[of batch "cc_partial c" "[]" c] region_fresh[of batch]
  by (fastforce simp: cc_fetch_batch_def split: prod.splits option.splits if_splits)

lemma region_return_loop: "cc_region (snd (cc_return_loop ps n c)) = cc_region c"
  by (induction ps arbitrary: n c)
    (auto simp: Let_def region_put[OF base_deallocate] split: option.split)

lemma region_return: "cc_region (snd (cc_return_batch ps c)) = cc_region c"
  using region_return_loop[of ps 0 c] by (cases "cc_return_loop ps 0 c") (simp add: cc_return_batch_def)

lemma cc_live_area: "cc_inv m c \<Longrightarrow> cc_live c \<subseteq> cc_area (cc_region c)"
proof
  fix p assume inv: "cc_inv m c" and "p \<in> cc_live c"
  then obtain i where i: "i < length (cc_slabs c)" "p \<in> slab_live (cc_slabs c ! i)" using live_slab by blast
  then have "p AND cc_mask c = sb_base (cc_slabs c ! i)"
    using slab_block_base[OF inv i(1)] cc_invD(3)[OF inv] slab_live_blocks by auto
  then show "p \<in> cc_area (cc_region c)" using i(1) by (simp add: cc_area_def cc_region_def)
qed

section \<open>Properties\<close>

text \<open>
  the central cache never hands out a block twice: a batch it fetches consists of distinct blocks
  none of which was in use, the blocks in use grow by exactly that batch, its counter counts the
  blocks in use, and returning a batch of used blocks takes exactly these back; the loops return.
\<close>

theorem central_batches_exclusive:
  assumes "cc_inv m c" and "cc_counted c" and "distinct ps" and "set ps \<subseteq> cc_live c"
  shows "(\<exists>r c'. cc_fetch_batch batch c = Some (r, c') \<and> cc_inv m c' \<and>
      (case r of
         Some xs \<Rightarrow> cc_counted c' \<and> distinct xs \<and> set xs \<inter> cc_live c = {} \<and> cc_live c' = cc_live c \<union> set xs \<and>
           length xs \<le> batch \<and> (0 < batch \<longrightarrow> xs \<noteq> [])
       | None \<Rightarrow> cc_live c \<subseteq> cc_live c')) \<and>
    (\<exists>c'. cc_return_batch ps c = (length ps, c') \<and> cc_inv m c' \<and> cc_counted c' \<and> cc_live c' = cc_live c - set ps)"
proof
  show "\<exists>c'. cc_return_batch ps c = (length ps, c') \<and> cc_inv m c' \<and> cc_counted c' \<and> cc_live c' = cc_live c - set ps"
    using cc_return_batch_ok[OF assms(1,3,4)] assms(2) by (cases "cc_return_batch ps c") auto
  show "\<exists>r c'. cc_fetch_batch batch c = Some (r, c') \<and> cc_inv m c' \<and>
      (case r of
         Some xs \<Rightarrow> cc_counted c' \<and> distinct xs \<and> set xs \<inter> cc_live c = {} \<and> cc_live c' = cc_live c \<union> set xs \<and>
           length xs \<le> batch \<and> (0 < batch \<longrightarrow> xs \<noteq> [])
       | None \<Rightarrow> cc_live c \<subseteq> cc_live c')"
  proof -
    obtain r c' where e: "cc_fetch_batch batch c = Some (r, c')" and k: "cc_inv m c'"
      and v: "case r of
         Some xs \<Rightarrow> (cc_counted c \<longrightarrow> cc_counted c') \<and> distinct xs \<and> set xs \<inter> cc_live c = {} \<and> cc_live c' = cc_live c \<union> set xs \<and>
           length xs \<le> batch \<and> (0 < batch \<longrightarrow> xs \<noteq> [])
       | None \<Rightarrow> cc_live c \<subseteq> cc_live c'"
      using cc_fetch_batch_ok[OF assms(1), of batch] by blast
    show ?thesis using e k v assms(2) by (intro exI[of _ r] exI[of _ c']) (cases r; simp)
  qed
qed

lemma cc_init_inv:
  assumes "m < 64" and "cc_init supply bs (2 ^ m) = Some c" and "slab_asserts bs (2 ^ m)" and "distinct supply" and "\<forall>b \<in> set supply. b AND mask m = 0"
  shows "cc_inv m c \<and> cc_counted c \<and> cc_live c = {} \<and> cc_block c = bs"
proof -
  have "NOT ((2 :: u64) ^ m - 1) = NOT (mask m)" by (simp add: mask_eq_exp_minus_1)
  then show ?thesis
    using assms by (auto simp: cc_init_def cc_inv_def cc_counted_def cc_live_def cc_used_def split: if_splits)
qed

lemma power_of_two_4096: "power_of_two 4096"
  unfolding power_of_two_def by simp

theorem central_batches_exclusive_witness:
  "\<exists>r c'. cc_fetch_batch 2 (the (cc_init [0x10000, 0x20000] 2048 4096)) = Some (r, c') \<and> cc_inv 12 c'"
proof -
  let ?c = "the (cc_init [0x10000, 0x20000] 2048 4096)"
  have e: "cc_init [0x10000, 0x20000] 2048 (2 ^ 12) = Some ?c"
    using power_of_two_4096 by (simp add: cc_init_def)
  have "(0x10000 :: u64) AND mask 12 = 0" "(0x20000 :: u64) AND mask 12 = 0"
    by (simp_all add: mask_eq_exp_minus_1)
  then have i: "cc_inv 12 ?c" "cc_counted ?c"
    using cc_init_inv[OF _ e] by (simp_all add: slab_asserts_def)
  show ?thesis using central_batches_exclusive[OF i, of "[]" 2] by auto
qed

text \<open>One allocation of a block that is freed at once, \<open>n\<close> times over.\<close>

fun cc_cycle :: "nat \<Rightarrow> central \<Rightarrow> central option" where
  "cc_cycle 0 c = Some c"
| "cc_cycle (Suc n) c =
     (case cc_allocate c of Some (Some p, c1) \<Rightarrow> cc_cycle n (cc_deallocate p c1) | _ \<Rightarrow> None)"

lemma cc_cycle_step:
  assumes inv: "cc_inv m c" and cnt: "cc_counted c" and part: "cc_partial c = []"
    and r: "cc_allocate c = Some (Some p, c1)"
  defines "c2 \<equiv> cc_deallocate p c1"
  shows "cc_inv m c2 \<and> cc_counted c2 \<and> cc_partial c2 = [] \<and> cc_live c2 = cc_live c \<and>
    length (cc_slabs c2) = Suc (length (cc_slabs c))"
proof -
  have ok: "cc_inv m c1 \<and> cc_counted c1 \<and> p \<notin> cc_live c \<and> cc_live c1 = insert p (cc_live c)"
    by (rule cc_allocate_ok[OF inv cnt r])
  have d: "cc_inv m c2 \<and> cc_counted c2 \<and> cc_live c2 = cc_live c1 - {p}"
    unfolding c2_def using cc_deallocate_ok[of m c1 p] ok by blast
  obtain i c0 where a: "cc_add_slab c = Some (Some (i, c0))" using r part by (auto simp: cc_allocate_def split: option.splits)
  note ao = add_slab_ok[OF inv a]
  let ?s = "cc_slabs c0 ! i"
  obtain s where q: "slab_allocate ?s = (Some p, s)"
    and c1: "c1 = cc_transition (slab_state_of ?s) i ((cc_put i s c0)\<lparr>cc_allocated := cc_allocated c0 + 1\<rparr>)"
    using r part a by (auto simp: cc_allocate_def Let_def split: prod.splits option.splits)
  have s: "sb_used s = 1" "slab_blocks s = slab_blocks ?s"
    using q ao(7) by (auto simp: slab_allocate_def slab_blocks_def split: if_splits prod.splits)
  have ii: "i = length (cc_slabs c)" "\<forall>j < i. cc_slabs c0 ! j = cc_slabs c ! j"
    using a by (auto simp: cc_add_slab_def Let_def nth_append split: if_splits list.splits option.splits)
  have sl1: "cc_slabs c1 = (cc_slabs c0)[i := s]" by (simp add: c1)
  have "slab_inv s \<and> p \<in> slab_live s"
  proof -
    obtain xs s' where b: "slab_allocate_batch 1 ?s = (xs, s')" by (cases "slab_allocate_batch 1 ?s")
    then show ?thesis
      using slab_allocate_is_batch[OF ao(6)] q slab_allocate_batch_ok[OF ao(6) b]
      by (auto split: list.splits)
  qed
  then have live: "p \<in> slab_blocks (cc_slabs c1 ! i)" "i < length (cc_slabs c1)"
    using slab_live_blocks ao(5) by (auto simp: sl1)
  have f: "cc_find_slab p c1 = Some i" using find_slab_of[of m c1 i p] ok live by blast
  have sl2: "cc_slabs c2 = (cc_slabs c0)[i := slab_deallocate p s]"
    using f ao(5) sl1 by (simp add: c2_def cc_deallocate_def Let_def)
  have "slab_state_of (cc_slabs c2 ! j) \<noteq> Partial" if "j < length (cc_slabs c2)" for j
  proof (cases "j = i")
    case True
    then show ?thesis using sl2 s ao(5) by (simp add: slab_state_of_def slab_deallocate_def)
  next
    case False
    then have j: "j < length (cc_slabs c)" using that sl2 ao(8) ii by simp
    then show ?thesis using sl2 False ii cc_invD(10)[OF inv, of j] part by simp
  qed
  then have "cc_partial c2 = []" using cc_invD(10)[of m c2] d by (metis list.set_intros(1) neq_Nil_conv)
  then show ?thesis using d ok sl2 ao(8) by auto
qed

text \<open>A slab whose last block is freed is dropped from the partial list and never used again: from a
  cache with no partial slab, \<open>n\<close> rounds of allocating and freeing one block add \<open>n\<close> slabs although at
  the end, as at the start, no block of them is in use.
\<close>

theorem central_empty_slabs_never_reused:
  assumes "cc_inv m c" and "cc_counted c" and "cc_partial c = []" and "cc_cycle n c = Some c'"
  shows "length (cc_slabs c') = length (cc_slabs c) + n \<and> cc_live c' = cc_live c"
  using assms
proof (induction n arbitrary: c)
  case 0
  then show ?case by simp
next
  case (Suc n)
  obtain p c1 where a: "cc_allocate c = Some (Some p, c1)" "cc_cycle n (cc_deallocate p c1) = Some c'"
    using Suc.prems(4) by (auto split: option.splits)
  have st: "cc_inv m (cc_deallocate p c1) \<and> cc_counted (cc_deallocate p c1) \<and> cc_partial (cc_deallocate p c1) = [] \<and>
      cc_live (cc_deallocate p c1) = cc_live c \<and> length (cc_slabs (cc_deallocate p c1)) = Suc (length (cc_slabs c))"
    by (rule cc_cycle_step[OF Suc.prems(1-3) a(1)])
  then show ?case using Suc.IH[of "cc_deallocate p c1"] a(2) by simp
qed

definition demo_central :: central where
  "demo_central = the (cc_init [0x10000, 0x20000] 2048 4096)"

lemma demo_central_inv:
  "cc_inv 12 demo_central \<and> cc_counted demo_central \<and> cc_partial demo_central = [] \<and> cc_live demo_central = {} \<and>
     cc_slabs demo_central = []"
proof -
  have e: "cc_init [0x10000, 0x20000] 2048 (2 ^ 12) = Some demo_central"
    using power_of_two_4096 by (simp add: cc_init_def demo_central_def)
  have "(0x10000 :: u64) AND mask 12 = 0" "(0x20000 :: u64) AND mask 12 = 0"
    by (simp_all add: mask_eq_exp_minus_1)
  then show ?thesis
    using cc_init_inv[OF _ e] power_of_two_4096 by (simp add: cc_init_def demo_central_def slab_asserts_def)
qed

lemma demo_central_cycle: "cc_cycle 1 demo_central \<noteq> None"
  by code_simp

theorem central_empty_slabs_never_reused_witness:
  "\<exists>c'. cc_cycle 1 demo_central = Some c' \<and> length (cc_slabs c') = 1 \<and> cc_live c' = {}"
  using central_empty_slabs_never_reused[of 12 demo_central 1] demo_central_inv demo_central_cycle by auto

end
