(* ===== verification/Memory_Pool.thy ===== *)
theory Memory_Pool
  imports Memory_Central "HOL-Library.Multiset"
begin

text \<open>
  \<open>ThreadLocalCache\<close> (\<open>thread_local_cache.hpp\<close>) and \<open>MemoryPoolT\<close> (\<open>memory_pool.hpp\<close>). A thread-local
  cache keeps one free list per size class and exchanges batches with the central cache of the class.
  The model has one \<open>size_cache\<close> per size class: the free lists of all threads and the central cache
  they share. What a thread-local cache relies on is the interface \<open>block_source\<close>: fetching hands out
  blocks nobody holds, returning takes blocks back.
  Large requests go to \<open>operator new\<close>, which the pool only forwards to (\<open>PoolLarge\<close>).
\<close>

unbundle bit_operations_syntax

section \<open>Thread-local caches over any source of blocks\<close>

record 'c size_cache =
  sc_threads :: "free_list list"
  sc_central :: 'c

definition tlc_put :: "nat \<Rightarrow> free_list \<Rightarrow> 'c size_cache \<Rightarrow> 'c size_cache" where
  "tlc_put t f sc = sc\<lparr>sc_threads := (sc_threads sc)[t := f]\<rparr>"

text \<open>The answer \<open>None\<close> inside is \<open>nullptr\<close> or \<open>bad_alloc\<close>; the outer \<open>None\<close> a failed assertion or a loop that hangs.\<close>

definition tlc_fetch :: "(nat \<Rightarrow> 'c \<Rightarrow> (addr list option \<times> 'c) option) \<Rightarrow> nat \<Rightarrow> nat \<Rightarrow> 'c size_cache \<Rightarrow>
    (addr option \<times> 'c size_cache) option" where
  "tlc_fetch fetch batch t sc =
     (case fetch batch (sc_central sc) of
        None \<Rightarrow> None
      | Some (None, c') \<Rightarrow> Some (None, sc\<lparr>sc_central := c'\<rparr>)
      | Some (Some [], c') \<Rightarrow> Some (None, sc\<lparr>sc_central := c'\<rparr>)
      | Some (Some (b # bs), c') \<Rightarrow>
          Some (Some b, tlc_put t (fl_push_batch bs (sc_threads sc ! t)) (sc\<lparr>sc_central := c'\<rparr>)))"

definition tlc_allocate :: "(nat \<Rightarrow> 'c \<Rightarrow> (addr list option \<times> 'c) option) \<Rightarrow> nat \<Rightarrow> nat \<Rightarrow> 'c size_cache \<Rightarrow>
    (addr option \<times> 'c size_cache) option" where
  "tlc_allocate fetch batch t sc =
     (let f = sc_threads sc ! t in
      if fl_count f > 0 then (case fl_pop f of (p, f') \<Rightarrow> Some (p, tlc_put t f' sc))
      else tlc_fetch fetch batch t sc)"

definition tlc_return :: "(addr list \<Rightarrow> 'c \<Rightarrow> nat \<times> 'c) \<Rightarrow> nat \<Rightarrow> nat \<Rightarrow> 'c size_cache \<Rightarrow> 'c size_cache" where
  "tlc_return give batch t sc =
     (let f = sc_threads sc ! t;
          returnCount = (if fl_count f < batch then fl_count f else batch);
          (buf, f') = fl_pop_batch returnCount f
      in (tlc_put t f' sc)\<lparr>sc_central := snd (give buf (sc_central sc))\<rparr>)"

definition tlc_deallocate :: "(addr list \<Rightarrow> 'c \<Rightarrow> nat \<times> 'c) \<Rightarrow> nat \<Rightarrow> nat \<Rightarrow> addr \<Rightarrow> 'c size_cache \<Rightarrow> 'c size_cache" where
  "tlc_deallocate give batch t p sc =
     (let sc1 = tlc_put t (fl_push p (sc_threads sc ! t)) sc in
      if fl_count (sc_threads sc1 ! t) > batch then tlc_return give batch t sc1 else sc1)"

definition tlc_drain :: "(addr list \<Rightarrow> 'c \<Rightarrow> nat \<times> 'c) \<Rightarrow> nat \<Rightarrow> nat \<Rightarrow> 'c size_cache \<Rightarrow> 'c size_cache" where
  "tlc_drain give batch t sc =
     (if fl_count (sc_threads sc ! t) > 0 then tlc_return give batch t sc else sc)"

definition kMaxBatchSize :: nat where "kMaxBatchSize = 64"

text \<open>The loop of \<open>drainAll\<close>, run when a thread ends.\<close>

partial_function (option) tlc_drain_all :: "(addr list \<Rightarrow> 'c \<Rightarrow> nat \<times> 'c) \<Rightarrow> nat \<Rightarrow> 'c size_cache \<Rightarrow> 'c size_cache option" where
  "tlc_drain_all give t sc =
     (let r = fl_pop_batch kMaxBatchSize (sc_threads sc ! t) in
      if fst r = [] then Some (tlc_put t (snd r) sc)
      else tlc_drain_all give t
        ((tlc_put t (snd r) sc)\<lparr>sc_central := snd (give (fst r) (sc_central sc))\<rparr>))"

definition cached :: "'c size_cache \<Rightarrow> addr list" where
  "cached sc = concat (map fl_nodes (sc_threads sc))"

lemma mset_cached_put:
  assumes "t < length (sc_threads sc)"
  shows "mset (cached (tlc_put t f sc)) + mset (fl_nodes (sc_threads sc ! t)) = mset (cached sc) + mset (fl_nodes f)"
proof -
  have "mset (concat (map fl_nodes (xs[t := f]))) + mset (fl_nodes (xs ! t)) = mset (concat (map fl_nodes xs)) + mset (fl_nodes f)"
    if "t < length xs" for xs
    using that by (induction xs arbitrary: t) (auto split: nat.splits)
  then show ?thesis using assms by (simp add: cached_def tlc_put_def)
qed

lemma cached_central [simp]: "cached (sc\<lparr>sc_central := c\<rparr>) = cached sc"
  by (simp add: cached_def)

lemma put_threads [simp]:
  "sc_central (tlc_put t f sc) = sc_central sc" "length (sc_threads (tlc_put t f sc)) = length (sc_threads sc)"
  "t < length (sc_threads sc) \<Longrightarrow> sc_threads (tlc_put t f sc) ! t = f"
  by (simp_all add: tlc_put_def)

text \<open>
  \<open>cache_ok U sc\<close>: the blocks in the hands of the program (\<open>U\<close>) and those in the free lists are all
  different and all handed out by the source.
\<close>

definition cache_ok :: "('c \<Rightarrow> addr set) \<Rightarrow> ('c \<Rightarrow> bool) \<Rightarrow> addr set \<Rightarrow> 'c size_cache \<Rightarrow> bool" where
  "cache_ok live ok U sc \<longleftrightarrow> ok (sc_central sc) \<and> (\<forall>f \<in> set (sc_threads sc). fl_ok f) \<and>
     distinct (cached sc) \<and> U \<inter> set (cached sc) = {} \<and> U \<union> set (cached sc) \<subseteq> live (sc_central sc)"

locale block_source =
  fixes fetch :: "nat \<Rightarrow> 'c \<Rightarrow> (addr list option \<times> 'c) option"
    and give :: "addr list \<Rightarrow> 'c \<Rightarrow> nat \<times> 'c"
    and live :: "'c \<Rightarrow> addr set"
    and region :: "'c \<Rightarrow> 'r"
    and area :: "'r \<Rightarrow> addr set"
    and ok :: "'c \<Rightarrow> bool"
  assumes fetch_returns: "ok c \<Longrightarrow> fetch n c \<noteq> None"
    and fetch_ok: "ok c \<Longrightarrow> fetch n c = Some (r, c') \<Longrightarrow> ok c' \<and> live c \<subseteq> live c' \<and> region c' = region c"
    and fetch_fresh: "ok c \<Longrightarrow> fetch n c = Some (Some xs, c') \<Longrightarrow>
      distinct xs \<and> set xs \<inter> live c = {} \<and> set xs \<subseteq> live c'"
    and give_ok: "ok c \<Longrightarrow> distinct ps \<Longrightarrow> set ps \<subseteq> live c \<Longrightarrow>
      ok (snd (give ps c)) \<and> live (snd (give ps c)) = live c - set ps \<and> region (snd (give ps c)) = region c"
    and live_region: "ok c \<Longrightarrow> live c \<subseteq> area (region c)"
begin

abbreviation "good \<equiv> cache_ok live ok"

lemma good_thread: "good U sc \<Longrightarrow> t < length (sc_threads sc) \<Longrightarrow> fl_ok (sc_threads sc ! t)"
  by (simp add: cache_ok_def)

lemma mset_disjoint:
  assumes "mset xs = mset ys + mset zs" and "distinct xs"
  shows "distinct ys \<and> distinct zs \<and> set ys \<inter> set zs = {} \<and> set xs = set ys \<union> set zs"
proof -
  have m: "mset xs = mset (ys @ zs)" using assms(1) by simp
  show ?thesis using assms(2) mset_eq_imp_distinct_iff[OF m] mset_eq_setD[OF m] by simp
qed

text \<open>Taking nodes from the free list of a thread and giving them back to the source.\<close>

lemma good_give:
  assumes g: "good U sc" and t: "t < length (sc_threads sc)" and r: "fl_pop_batch k (sc_threads sc ! t) = (buf, f)"
  shows "good U ((tlc_put t f sc)\<lparr>sc_central := snd (give buf (sc_central sc))\<rparr>)"
    and "region (snd (give buf (sc_central sc))) = region (sc_central sc)"
    and "fl_nodes f = drop k (fl_nodes (sc_threads sc ! t))"
proof -
  let ?f = "sc_threads sc ! t"
  have p: "buf = take k (fl_nodes ?f)" "fl_nodes f = drop k (fl_nodes ?f)" "fl_ok f"
    using fl_pop_batch_ok[OF good_thread[OF g t], of k] r by simp_all
  then show "fl_nodes f = drop k (fl_nodes (sc_threads sc ! t))" by simp
  have "mset (fl_nodes ?f) = mset buf + mset (fl_nodes f)"
    unfolding p by (metis append_take_drop_id mset_append)
  then have ms: "mset (cached sc) = mset (cached (tlc_put t f sc)) + mset buf"
    using mset_cached_put[OF t, of f] by simp
  have d: "distinct (cached sc)" using g by (simp add: cache_ok_def)
  note md = mset_disjoint[OF ms d]
  have sub: "set buf \<subseteq> live (sc_central sc)" using md g by (auto simp: cache_ok_def)
  note go = give_ok[of "sc_central sc" buf]
  have okc: "ok (sc_central sc)" using g by (simp add: cache_ok_def)
  have fl: "\<forall>h \<in> set ((sc_threads sc)[t := f]). fl_ok h"
    using g p(3) set_update_subset_insert[of "sc_threads sc" t f] by (auto simp: cache_ok_def)
  show "good U ((tlc_put t f sc)\<lparr>sc_central := snd (give buf (sc_central sc))\<rparr>)"
    using go[OF okc _ sub] md g fl by (auto simp: cache_ok_def tlc_put_def cached_def)
  show "region (snd (give buf (sc_central sc))) = region (sc_central sc)"
    using go[OF okc _ sub] md by simp
qed

lemma tlc_allocate_good:
  assumes g: "good U sc" and t: "t < length (sc_threads sc)"
  shows "\<exists>r sc'. tlc_allocate fetch batch t sc = Some (r, sc') \<and>
    length (sc_threads sc') = length (sc_threads sc) \<and> region (sc_central sc') = region (sc_central sc) \<and>
    (case r of None \<Rightarrow> good U sc' | Some p \<Rightarrow> p \<notin> U \<and> good (insert p U) sc')"
proof (cases "fl_nodes (sc_threads sc ! t)")
  case (Cons p ps)
  let ?f = "sc_threads sc ! t"
  have f: "fl_ok ?f" by (rule good_thread[OF g t])
  then have cnt: "0 < fl_count ?f" using Cons by (simp add: fl_ok_def)
  obtain f' where pop: "fl_pop ?f = (Some p, f')" "fl_nodes f' = ps" "fl_ok f'"
    using fl_pop_ok[OF f] Cons by (cases "fl_pop ?f") simp
  have ms: "mset (cached sc) = mset (cached (tlc_put t f' sc)) + mset [p]"
    using mset_cached_put[OF t, of f'] Cons pop by simp
  have d: "distinct (cached sc)" using g by (simp add: cache_ok_def)
  note md = mset_disjoint[OF ms d]
  have fl: "\<forall>h \<in> set ((sc_threads sc)[t := f']). fl_ok h"
    using g pop(3) set_update_subset_insert[of "sc_threads sc" t f'] by (auto simp: cache_ok_def)
  have "p \<notin> U \<and> good (insert p U) (tlc_put t f' sc)"
    using md g fl by (auto simp: cache_ok_def tlc_put_def cached_def)
  then show ?thesis using cnt pop by (simp add: tlc_allocate_def Let_def)
next
  case Nil
  let ?f = "sc_threads sc ! t" and ?c = "sc_central sc"
  have f: "fl_ok ?f" by (rule good_thread[OF g t])
  then have cnt: "\<not> 0 < fl_count ?f" using Nil by (simp add: fl_ok_def)
  have okc: "ok ?c" using g by (simp add: cache_ok_def)
  obtain r c' where e: "fetch batch ?c = Some (r, c')" using fetch_returns[OF okc, of batch] by auto
  note fo = fetch_ok[OF okc e]
  have keep: "good U (sc\<lparr>sc_central := c'\<rparr>)" using g fo by (auto simp: cache_ok_def)
  show ?thesis
  proof (cases r)
    case None
    then show ?thesis using cnt e keep fo by (simp add: tlc_allocate_def tlc_fetch_def Let_def)
  next
    case (Some xs)
    show ?thesis
    proof (cases xs)
      case Nil
      then show ?thesis using Some cnt e keep fo by (simp add: tlc_allocate_def tlc_fetch_def Let_def)
    next
      case (Cons b bs)
      have x: "distinct (b # bs)" "set (b # bs) \<inter> live ?c = {}" "set (b # bs) \<subseteq> live c'"
        using fetch_fresh[OF okc, of batch xs c'] e Some Cons by auto
      let ?g = "fl_push_batch bs ?f"
      have gn: "fl_nodes ?g = rev bs" "fl_ok ?g" using f \<open>fl_nodes ?f = []\<close> by simp_all
      have ms: "mset (cached (tlc_put t ?g sc)) = mset (cached sc) + mset bs"
        using mset_cached_put[OF t, of ?g] gn(1) \<open>fl_nodes ?f = []\<close> by simp
      have us: "U \<union> set (cached sc) \<subseteq> live ?c" "U \<inter> set (cached sc) = {}" "distinct (cached sc)"
        using g by (auto simp: cache_ok_def)
      have "distinct (cached sc @ bs)" using us x by auto
      then have dd: "distinct (cached (tlc_put t ?g sc))"
        using ms by (metis mset_append mset_eq_imp_distinct_iff)
      have ss: "set (cached (tlc_put t ?g sc)) = set (cached sc) \<union> set bs"
        using ms by (metis mset_append mset_eq_setD set_append)
      have fl: "\<forall>h \<in> set ((sc_threads sc)[t := ?g]). fl_ok h"
        using g gn(2) set_update_subset_insert[of "sc_threads sc" t ?g] by (auto simp: cache_ok_def)
      have "b \<notin> U" using us x by auto
      moreover have "good (insert b U) (tlc_put t ?g (sc\<lparr>sc_central := c'\<rparr>))"
        using dd ss us x fl fo by (auto simp: cache_ok_def tlc_put_def cached_def)
      ultimately show ?thesis
        using Some Cons cnt e fo by (simp add: tlc_allocate_def tlc_fetch_def Let_def)
    qed
  qed
qed

lemma tlc_return_good:
  assumes "good U sc" and "t < length (sc_threads sc)"
  shows "good U (tlc_return give batch t sc)" "region (sc_central (tlc_return give batch t sc)) = region (sc_central sc)"
    "length (sc_threads (tlc_return give batch t sc)) = length (sc_threads sc)"
    "fl_nodes (sc_threads (tlc_return give batch t sc) ! t) = drop batch (fl_nodes (sc_threads sc ! t))"
proof -
  let ?f = "sc_threads sc ! t" and ?k = "if fl_count (sc_threads sc ! t) < batch then fl_count (sc_threads sc ! t) else batch"
  obtain buf f where r: "fl_pop_batch ?k ?f = (buf, f)" by (cases "fl_pop_batch ?k ?f")
  have e: "tlc_return give batch t sc = (tlc_put t f sc)\<lparr>sc_central := snd (give buf (sc_central sc))\<rparr>"
    using r by (simp add: tlc_return_def Let_def)
  note g = good_give[OF assms r]
  have cnt: "fl_count ?f = length (fl_nodes ?f)" using good_thread[OF assms] by (simp add: fl_ok_def)
  show "good U (tlc_return give batch t sc)" "region (sc_central (tlc_return give batch t sc)) = region (sc_central sc)"
    "length (sc_threads (tlc_return give batch t sc)) = length (sc_threads sc)"
    using g by (simp_all add: e)
  show "fl_nodes (sc_threads (tlc_return give batch t sc) ! t) = drop batch (fl_nodes ?f)"
    using g(3) cnt assms(2) by (simp add: e tlc_put_def)
qed

lemma tlc_deallocate_good:
  assumes g: "good U sc" and t: "t < length (sc_threads sc)" and p: "p \<in> U"
  shows "good (U - {p}) (tlc_deallocate give batch t p sc)"
    "region (sc_central (tlc_deallocate give batch t p sc)) = region (sc_central sc)"
    "length (sc_threads (tlc_deallocate give batch t p sc)) = length (sc_threads sc)"
proof -
  let ?f = "fl_push p (sc_threads sc ! t)" and ?sc = "tlc_put t (fl_push p (sc_threads sc ! t)) sc"
  have ok: "fl_ok ?f" using good_thread[OF g t] by simp
  have ms: "mset (cached ?sc) = mset (p # cached sc)" using mset_cached_put[OF t, of ?f] by simp
  have us: "U \<union> set (cached sc) \<subseteq> live (sc_central sc)" "U \<inter> set (cached sc) = {}" "distinct (cached sc)"
    using g by (auto simp: cache_ok_def)
  have "distinct (p # cached sc)" using us p by auto
  then have dd: "distinct (cached ?sc)" "set (cached ?sc) = insert p (set (cached sc))"
    using mset_eq_imp_distinct_iff[OF ms] mset_eq_setD[OF ms] by auto
  have fl: "\<forall>h \<in> set ((sc_threads sc)[t := ?f]). fl_ok h"
    using g ok set_update_subset_insert[of "sc_threads sc" t ?f] by (auto simp: cache_ok_def)
  have g1: "good (U - {p}) ?sc"
    using dd us p fl g by (auto simp: cache_ok_def tlc_put_def cached_def)
  have t1: "t < length (sc_threads ?sc)" using t by simp
  show "good (U - {p}) (tlc_deallocate give batch t p sc)"
    "region (sc_central (tlc_deallocate give batch t p sc)) = region (sc_central sc)"
    "length (sc_threads (tlc_deallocate give batch t p sc)) = length (sc_threads sc)"
    using g1 tlc_return_good[OF g1 t1, of batch] by (simp_all add: tlc_deallocate_def Let_def)
qed

text \<open>Draining a thread's cache ends with the free list empty and everything returned.\<close>

lemma tlc_drain_all_good:
  "good U sc \<Longrightarrow> t < length (sc_threads sc) \<Longrightarrow>
     \<exists>sc'. tlc_drain_all give t sc = Some sc' \<and> good U sc' \<and> fl_nodes (sc_threads sc' ! t) = [] \<and>
       length (sc_threads sc') = length (sc_threads sc) \<and> region (sc_central sc') = region (sc_central sc)"
proof (induction "length (fl_nodes (sc_threads sc ! t))" arbitrary: sc rule: less_induct)
  case less
  let ?f = "sc_threads sc ! t"
  obtain buf f where r: "fl_pop_batch kMaxBatchSize ?f = (buf, f)" by (cases "fl_pop_batch kMaxBatchSize ?f")
  have b: "buf = take kMaxBatchSize (fl_nodes ?f)" "fl_nodes f = drop kMaxBatchSize (fl_nodes ?f)" "fl_ok f"
    using fl_pop_batch_ok[OF good_thread[OF less.prems], of kMaxBatchSize] r by simp_all
  note g = good_give[OF less.prems r]
  let ?sc = "(tlc_put t f sc)\<lparr>sc_central := snd (give buf (sc_central sc))\<rparr>"
  show ?case
  proof (cases "buf = []")
    case True
    then have n: "fl_nodes ?f = []" using b by (simp add: kMaxBatchSize_def)
    have e: "tlc_drain_all give t sc = Some (tlc_put t f sc)"
      using True r by (subst tlc_drain_all.simps) (simp add: Let_def)
    have "mset (cached (tlc_put t f sc)) = mset (cached sc)"
      using mset_cached_put[OF less.prems(2), of f] n b by simp
    then have "distinct (cached (tlc_put t f sc)) \<and> set (cached (tlc_put t f sc)) = set (cached sc)"
      using less.prems(1) mset_eq_imp_distinct_iff mset_eq_setD unfolding cache_ok_def by blast
    moreover have "\<forall>h \<in> set ((sc_threads sc)[t := f]). fl_ok h"
      using less.prems(1) b(3) set_update_subset_insert[of "sc_threads sc" t f] by (auto simp: cache_ok_def)
    ultimately have "good U (tlc_put t f sc)"
      using less.prems(1) by (simp add: cache_ok_def) (simp add: tlc_put_def)
    then show ?thesis using e b n less.prems(2) by (simp add: tlc_put_def)
  next
    case False
    then have "fl_nodes ?f \<noteq> []" using b by auto
    then have lt: "length (fl_nodes (sc_threads ?sc ! t)) < length (fl_nodes ?f)"
      using b less.prems(2) by (simp add: kMaxBatchSize_def tlc_put_def)
    have e: "tlc_drain_all give t sc = tlc_drain_all give t ?sc"
      using False r by (subst tlc_drain_all.simps) (simp add: Let_def)
    from less.hyps[OF lt g(1)] less.prems(2) obtain sc' where
      "tlc_drain_all give t ?sc = Some sc'" "good U sc'" "fl_nodes (sc_threads sc' ! t) = []"
      "length (sc_threads sc') = length (sc_threads ?sc)" "region (sc_central sc') = region (sc_central ?sc)"
      by (auto simp: tlc_put_def)
    then show ?thesis using e g(2) by (simp add: tlc_put_def)
  qed
qed

end

section \<open>The central cache is such a source\<close>

interpretation central: block_source cc_fetch_batch cc_return_batch cc_live cc_region cc_area "cc_inv m" for m
proof unfold_locales
  fix c n assume "cc_inv m c"
  then show "cc_fetch_batch n c \<noteq> None" using cc_fetch_batch_ok[of m c n] by auto
next
  fix c n r c' assume a: "cc_inv m c" "cc_fetch_batch n c = Some (r, c')"
  then have "cc_live c \<subseteq> cc_live c' \<and> cc_inv m c'"
    using cc_fetch_batch_ok[of m c n] by (cases r) auto
  then show "cc_inv m c' \<and> cc_live c \<subseteq> cc_live c' \<and> cc_region c' = cc_region c"
    using region_fetch[OF a(2)] by blast
next
  fix c n xs c' assume "cc_inv m c" "cc_fetch_batch n c = Some (Some xs, c')"
  then show "distinct xs \<and> set xs \<inter> cc_live c = {} \<and> set xs \<subseteq> cc_live c'"
    using cc_fetch_batch_ok[of m c n] by auto
next
  fix c ps assume a: "cc_inv m c" "distinct ps" "set ps \<subseteq> cc_live c"
  obtain n c' where e: "cc_return_batch ps c = (n, c')" by (cases "cc_return_batch ps c")
  show "cc_inv m (snd (cc_return_batch ps c)) \<and> cc_live (snd (cc_return_batch ps c)) = cc_live c - set ps \<and>
      cc_region (snd (cc_return_batch ps c)) = cc_region c"
    using cc_return_batch_ok[OF a e] region_return[of ps c] e by simp
qed (rule cc_live_area)

section \<open>The pool\<close>

record pool =
  pl_classes :: "central size_cache list"
  pl_maxAlloc :: nat

datatype pool_ptr = PoolNull | PoolBlock addr | PoolLarge nat nat

text \<open>
  \<open>supplies\<close> are the future aligned allocations of the nine central caches, \<open>threads\<close> the number of
  threads. The static \<open>poolCaches\<close> slot of a thread starts with empty lists and is pointed at the
  central caches on first use, which the model does at once.
\<close>

fun new_classes :: "addr list list \<Rightarrow> nat \<Rightarrow> nat \<Rightarrow> nat \<Rightarrow> central size_cache list option" where
  "new_classes [] slabSize threads i = Some []"
| "new_classes (s0 # ss) slabSize threads i =
     (case block_size i of None \<Rightarrow> None
      | Some bs \<Rightarrow> (case cc_init s0 bs slabSize of None \<Rightarrow> None
         | Some c \<Rightarrow> (case new_classes ss slabSize threads (i + 1) of None \<Rightarrow> None
            | Some rest \<Rightarrow> Some (\<lparr>sc_threads = replicate threads fl_new, sc_central = c\<rparr> # rest))))"

definition pool_new :: "addr list list \<Rightarrow> nat \<Rightarrow> nat \<Rightarrow> nat \<Rightarrow> pool option" where
  "pool_new supplies threads slabSize maxAllocSize =
     (case new_classes supplies slabSize threads 0 of None \<Rightarrow> None
      | Some cs \<Rightarrow> Some \<lparr>pl_classes = cs, pl_maxAlloc = min maxAllocSize max_alloc_size\<rparr>)"

definition max_align :: nat where "max_align = 16"

definition pool_allocate :: "nat \<Rightarrow> nat \<Rightarrow> nat \<Rightarrow> pool \<Rightarrow> (pool_ptr \<times> pool) option" where
  "pool_allocate t size0 alignment pl =
     (let sz = (if size0 = 0 then 1 else size0) in
      if sz \<le> pl_maxAlloc pl \<and> alignment \<le> max_align
      then (case size_index sz of None \<Rightarrow> None
        | Some idx \<Rightarrow>
            (case batch_size idx of None \<Rightarrow> None
             | Some batch \<Rightarrow>
                 (case tlc_allocate cc_fetch_batch batch t (pl_classes pl ! idx) of
                    None \<Rightarrow> None
                  | Some (p, sc) \<Rightarrow>
                      Some (case p of None \<Rightarrow> PoolNull | Some a \<Rightarrow> PoolBlock a,
                            pl\<lparr>pl_classes := (pl_classes pl)[idx := sc]\<rparr>))))
      else Some (PoolLarge sz alignment, pl))"

definition pool_deallocate :: "nat \<Rightarrow> pool_ptr \<Rightarrow> nat \<Rightarrow> nat \<Rightarrow> pool \<Rightarrow> pool option" where
  "pool_deallocate t ptr size0 alignment pl =
     (case ptr of
        PoolNull \<Rightarrow> Some pl
      | PoolLarge _ _ \<Rightarrow> Some pl
      | PoolBlock a \<Rightarrow>
          (let sz = (if size0 = 0 then 1 else size0) in
           if sz \<le> pl_maxAlloc pl \<and> alignment \<le> max_align
           then (case size_index sz of None \<Rightarrow> None
             | Some idx \<Rightarrow>
                 (case batch_size idx of None \<Rightarrow> None
                  | Some batch \<Rightarrow>
                      Some (pl\<lparr>pl_classes := (pl_classes pl)[idx :=
                        tlc_deallocate cc_return_batch batch t a (pl_classes pl ! idx)]\<rparr>)))
           else None))"

definition pool_allocatedBlocks :: "pool \<Rightarrow> nat" where
  "pool_allocatedBlocks pl = sum_list (map (\<lambda>sc. cc_allocated (sc_central sc)) (pl_classes pl))"

definition pool_allocatedBytes :: "pool \<Rightarrow> nat" where
  "pool_allocatedBytes pl =
     sum_list (map (\<lambda>sc. cc_allocated (sc_central sc) * cc_block (sc_central sc)) (pl_classes pl))"

text \<open>
  \<open>U i\<close> are the blocks of class \<open>i\<close> the program holds. The regions of different classes share no block.
\<close>

definition pool_inv :: "nat \<Rightarrow> nat \<Rightarrow> (nat \<Rightarrow> addr set) \<Rightarrow> pool \<Rightarrow> bool" where
  "pool_inv m threads U pl \<longleftrightarrow> length (pl_classes pl) = num_size_classes \<and> pl_maxAlloc pl \<le> max_alloc_size \<and>
     (\<forall>i < num_size_classes. cache_ok cc_live (cc_inv m) (U i) (pl_classes pl ! i) \<and>
        length (sc_threads (pl_classes pl ! i)) = threads) \<and>
     (\<forall>i < num_size_classes. \<forall>j < num_size_classes. i \<noteq> j \<longrightarrow>
        cc_area (cc_region (sc_central (pl_classes pl ! i))) \<inter> cc_area (cc_region (sc_central (pl_classes pl ! j))) = {}) \<and>
     (\<forall>i < num_size_classes. block_size i = Some (snd (snd (cc_region (sc_central (pl_classes pl ! i))))))"

definition pool_held :: "(nat \<Rightarrow> addr set) \<Rightarrow> addr set" where
  "pool_held U = (\<Union>i < num_size_classes. U i)"

lemma pool_classD:
  assumes "pool_inv m n U pl" "i < num_size_classes"
  shows "cache_ok cc_live (cc_inv m) (U i) (pl_classes pl ! i)" "length (sc_threads (pl_classes pl ! i)) = n"
    "block_size i = Some (snd (snd (cc_region (sc_central (pl_classes pl ! i)))))"
  using assms by (simp_all add: pool_inv_def)

lemma pool_disjoint:
  "pool_inv m n U pl \<Longrightarrow> i < num_size_classes \<Longrightarrow> j < num_size_classes \<Longrightarrow> j \<noteq> i \<Longrightarrow>
     cc_area (cc_region (sc_central (pl_classes pl ! i))) \<inter> cc_area (cc_region (sc_central (pl_classes pl ! j))) = {}"
  by (simp add: pool_inv_def)

lemma pool_set_class:
  assumes inv: "pool_inv m n U pl" and i: "i < num_size_classes"
    and ok: "cache_ok cc_live (cc_inv m) V sc" and len: "length (sc_threads sc) = n"
    and reg: "cc_region (sc_central sc) = cc_region (sc_central (pl_classes pl ! i))"
  shows "pool_inv m n (U(i := V)) (pl\<lparr>pl_classes := (pl_classes pl)[i := sc]\<rparr>)"
proof -
  have l: "length (pl_classes pl) = num_size_classes" using inv by (simp add: pool_inv_def)
  have r: "cc_region (sc_central ((pl_classes pl)[i := sc] ! j)) = cc_region (sc_central (pl_classes pl ! j))"
    if "j < num_size_classes" for j
    using that reg l by (cases "j = i") simp_all
  have c: "cache_ok cc_live (cc_inv m) ((U(i := V)) j) ((pl_classes pl)[i := sc] ! j) \<and>
      length (sc_threads ((pl_classes pl)[i := sc] ! j)) = n" if "j < num_size_classes" for j
    using that ok len l inv by (cases "j = i") (simp_all add: pool_inv_def)
  show ?thesis
    using inv c r l unfolding pool_inv_def by simp
qed

lemma pool_class_area:
  assumes inv: "pool_inv m n U pl" and i: "i < num_size_classes"
  shows "U i \<subseteq> cc_area (cc_region (sc_central (pl_classes pl ! i)))"
  using pool_classD(1)[OF inv i] cc_live_area[of m "sc_central (pl_classes pl ! i)"]
  by (auto simp: cache_ok_def)

lemma batch_some: "i < num_size_classes \<Longrightarrow> \<exists>b. batch_size i = Some b"
  by (simp add: batch_size_def)

lemma size_index_ok:
  assumes "0 < sz" and "sz \<le> max_alloc_size"
  shows "\<exists>i. size_index sz = Some i \<and> i < num_size_classes \<and> (\<exists>b. block_size i = Some b \<and> sz \<le> b) \<and>
    (\<forall>j < i. \<forall>b. block_size j = Some b \<longrightarrow> b < sz)"
proof -
  have "size_table \<noteq> []" "sz \<le> fst (last size_table)" using assms by (simp_all add: size_table_def max_alloc_size_def)
  then obtain i where i: "index_from sz 0 size_table = Some i" using index_from_found by blast
  have l: "length size_table = num_size_classes" by (simp add: size_table_def num_size_classes_def)
  have f: "i < num_size_classes" "sz \<le> fst (size_table ! i)" "\<forall>j < i. fst (size_table ! j) < sz"
    using index_from_first[OF i] l by simp_all
  show ?thesis
    using i f assms by (auto simp: size_index_def block_size_def)
qed

text \<open>
  Whatever thread asks, a small allocation answered with a block is answered with a block of
  sufficient size that nobody holds - in no size class and in no thread's free list - and the request
  uses the smallest class that fits; freeing a held block from any thread takes exactly that block
  back. Both return and keep the pool consistent.
\<close>

lemma pool_request_ok:
  assumes inv: "pool_inv m n U pl" and t: "t < n" and sz: "0 < sz" "sz \<le> pl_maxAlloc pl" and al: "al \<le> max_align"
  shows "\<exists>i r pl'. size_index sz = Some i \<and> (\<exists>b. block_size i = Some b \<and> sz \<le> b) \<and>
      pool_allocate t sz al pl = Some (r, pl') \<and>
      (case r of PoolBlock p \<Rightarrow> p \<notin> pool_held U \<and> pool_inv m n (U(i := insert p (U i))) pl'
         | PoolNull \<Rightarrow> pool_inv m n U pl' | PoolLarge _ _ \<Rightarrow> False) \<and>
      (\<forall>p \<in> U i. \<exists>pl''. pool_deallocate t (PoolBlock p) sz al pl = Some pl'' \<and>
         pool_inv m n (U(i := U i - {p})) pl'')"
proof -
  have "sz \<le> max_alloc_size" using sz inv by (simp add: pool_inv_def)
  from size_index_ok[OF sz(1) this]
  obtain i where i: "size_index sz = Some i" "i < num_size_classes" "\<exists>b. block_size i = Some b \<and> sz \<le> b"
    by blast
  obtain b where b: "batch_size i = Some b" using batch_some[OF i(2)] by blast
  let ?sc = "pl_classes pl ! i"
  note c = pool_classD[OF inv i(2)]
  have t': "t < length (sc_threads ?sc)" using c(2) t by simp
  from central.tlc_allocate_good[OF c(1) t', of b]
  obtain r sc' where a: "tlc_allocate cc_fetch_batch b t ?sc = Some (r, sc')"
    "length (sc_threads sc') = length (sc_threads ?sc)" "cc_region (sc_central sc') = cc_region (sc_central ?sc)"
    "case r of None \<Rightarrow> cache_ok cc_live (cc_inv m) (U i) sc' | Some p \<Rightarrow> p \<notin> U i \<and> cache_ok cc_live (cc_inv m) (insert p (U i)) sc'"
    by (elim exE conjE)
  let ?pl = "pl\<lparr>pl_classes := (pl_classes pl)[i := sc']\<rparr>"
  have e: "pool_allocate t sz al pl = Some (case r of None \<Rightarrow> PoolNull | Some a \<Rightarrow> PoolBlock a, ?pl)"
    using sz al i(1) b a(1) by (simp add: pool_allocate_def)
  have k: "case (case r of None \<Rightarrow> PoolNull | Some a \<Rightarrow> PoolBlock a) of
      PoolBlock p \<Rightarrow> p \<notin> pool_held U \<and> pool_inv m n (U(i := insert p (U i))) ?pl
    | PoolNull \<Rightarrow> pool_inv m n U ?pl | PoolLarge _ _ \<Rightarrow> False"
  proof (cases r)
    case None
    then show ?thesis using pool_set_class[OF inv i(2), of "U i" sc'] a c(2) by simp
  next
    case (Some p)
    have p: "p \<notin> U i" "cache_ok cc_live (cc_inv m) (insert p (U i)) sc'" using a(4) Some by simp_all
    have inv': "pool_inv m n (U(i := insert p (U i))) ?pl"
      using pool_set_class[OF inv i(2) p(2)] a(2,3) c(2) by simp
    have "p \<in> cc_area (cc_region (sc_central ?sc))"
      using p(2) cc_live_area[of m "sc_central sc'"] a(3) by (auto simp: cache_ok_def)
    then have "p \<notin> U j" if "j < num_size_classes" for j
      using pool_class_area[OF inv that] pool_disjoint[OF inv i(2) that] p(1)
      by (cases "j = i") auto
    then show ?thesis using inv' Some by (auto simp: pool_held_def)
  qed
  have d: "\<exists>pl''. pool_deallocate t (PoolBlock p) sz al pl = Some pl'' \<and> pool_inv m n (U(i := U i - {p})) pl''"
    if p: "p \<in> U i" for p
    using central.tlc_deallocate_good[OF c(1) t' p, of b] pool_set_class[OF inv i(2), of "U i - {p}"]
      sz al i(1) b c(2) by (simp add: pool_deallocate_def)
  show ?thesis using i e k d by blast
qed

text \<open>A freshly constructed pool satisfies the invariant with nothing held.\<close>

lemma new_classes_ok:
  "new_classes ss sz n k = Some cs \<Longrightarrow> length cs = length ss \<and>
     (\<forall>i < length ss. \<exists>bs. block_size (k + i) = Some bs \<and> cc_init (ss ! i) bs sz = Some (sc_central (cs ! i)) \<and>
        sc_threads (cs ! i) = replicate n fl_new)"
proof (induction ss arbitrary: k cs)
  case Nil
  then show ?case by simp
next
  case (Cons s ss)
  obtain bs c rest where e: "block_size k = Some bs" "cc_init s bs sz = Some c"
    "new_classes ss sz n (k + 1) = Some rest" "cs = \<lparr>sc_threads = replicate n fl_new, sc_central = c\<rparr> # rest"
    using Cons.prems by (auto split: option.splits)
  show ?case using Cons.IH[OF e(3)] e by (auto simp: nth_Cons split: nat.split)
qed

lemma distinct_concat_nth:
  assumes "distinct (concat xss)" and "i < j" and "j < length xss"
  shows "set (xss ! i) \<inter> set (xss ! j) = {}"
proof -
  have "concat xss = concat (take j xss) @ concat (drop j xss)"
    by (metis append_take_drop_id concat_append)
  then have d: "set (concat (take j xss)) \<inter> set (concat (drop j xss)) = {}"
    using assms(1) by (metis distinct_append)
  have "xss ! i \<in> set (take j xss)" using assms(2,3) by (auto simp: in_set_conv_nth)
  then have "set (xss ! i) \<subseteq> set (concat (take j xss))" by auto
  moreover have "drop j xss = xss ! j # drop (Suc j) xss" using assms(3) by (metis Cons_nth_drop_Suc)
  ultimately show ?thesis using d by auto
qed

lemma cc_init_region: "cc_init s bs sz = Some c \<Longrightarrow> cc_region c = (NOT (of_nat sz - 1), set s, bs)"
  by (auto simp: cc_init_def cc_region_def split: if_splits)

lemma cc_init_fields:
  "cc_init s bs sz = Some c \<Longrightarrow> cc_partial c = [] \<and> cc_supply c = s \<and> cc_block c = bs \<and> cc_size c = sz"
  by (auto simp: cc_init_def split: if_splits)

lemma block_size_range: "block_size i = Some bs \<Longrightarrow> 8 \<le> bs \<and> bs \<le> max_alloc_size"
proof -
  assume "block_size i = Some bs"
  then have "i < num_size_classes" "bs = fst (size_table ! i)" by (simp_all add: block_size_def split: if_splits)
  moreover have "\<forall>e \<in> set size_table. 8 \<le> fst e \<and> fst e \<le> max_alloc_size" by (simp add: size_table_def max_alloc_size_def)
  moreover have "length size_table = num_size_classes" by (simp add: size_table_def num_size_classes_def)
  ultimately show ?thesis by (metis nth_mem)
qed

lemma class_slab_asserts:
  assumes "block_size i = Some bs" and "max_alloc_size \<le> sz"
  shows "slab_asserts bs sz"
proof -
  have "8 \<le> bs" "bs \<le> sz" using block_size_range[OF assms(1)] assms(2) by simp_all
  then show ?thesis by (simp add: slab_asserts_def div_greater_zero_iff)
qed

lemma pool_new_inv:
  assumes new: "pool_new ss n (2 ^ m) mx = Some pl" and m: "m < 64" and sz: "max_alloc_size \<le> 2 ^ m" and len: "length ss = num_size_classes"
    and ds: "distinct (concat ss)" and al: "\<forall>b \<in> set (concat ss). b AND mask m = 0"
  shows "pool_inv m n (\<lambda>_. {}) pl"
proof -
  obtain cs where cs: "new_classes ss (2 ^ m) n 0 = Some cs" "pl_classes pl = cs" "pl_maxAlloc pl \<le> max_alloc_size"
    using new by (auto simp: pool_new_def split: option.splits)
  note k = new_classes_ok[OF cs(1)]
  have one: "\<exists>bs. block_size i = Some bs \<and> cc_init (ss ! i) bs (2 ^ m) = Some (sc_central (cs ! i)) \<and>
      sc_threads (cs ! i) = replicate n fl_new" if "i < num_size_classes" for i
    using k that len by simp
  have ok: "cache_ok cc_live (cc_inv m) {} (cs ! i) \<and> length (sc_threads (cs ! i)) = n \<and>
      block_size i = Some (snd (snd (cc_region (sc_central (cs ! i)))))" if i: "i < num_size_classes" for i
  proof -
    obtain bs where b: "block_size i = Some bs" "cc_init (ss ! i) bs (2 ^ m) = Some (sc_central (cs ! i))"
      "sc_threads (cs ! i) = replicate n fl_new" using one[OF i] by blast
    have "ss ! i \<in> set ss" using i len by simp
    then have "distinct (ss ! i)" "\<forall>b \<in> set (ss ! i). b AND mask m = 0"
      using ds al by (auto simp: distinct_concat_iff)
    then have "cc_inv m (sc_central (cs ! i)) \<and> cc_live (sc_central (cs ! i)) = {}"
      using cc_init_inv[OF m b(2) class_slab_asserts[OF b(1) sz]] by simp
    moreover have "cached (cs ! i) = []" by (simp add: cached_def b(3))
    ultimately show ?thesis using b cc_init_region[OF b(2)] by (simp add: cache_ok_def)
  qed
  have "cc_area (cc_region (sc_central (cs ! i))) \<inter> cc_area (cc_region (sc_central (cs ! j))) = {}"
    if ij: "i < num_size_classes" "j < num_size_classes" "i \<noteq> j" for i j
  proof -
    have "set (ss ! i) \<inter> set (ss ! j) = {}"
      using distinct_concat_nth[OF ds, of i j] distinct_concat_nth[OF ds, of j i] ij len
      by (cases "i < j") (auto simp: Int_commute)
    moreover obtain bi bj where "cc_region (sc_central (cs ! i)) = (NOT (of_nat (2 ^ m) - 1), set (ss ! i), bi)"
      "cc_region (sc_central (cs ! j)) = (NOT (of_nat (2 ^ m) - 1), set (ss ! j), bj)"
      using one[OF ij(1)] one[OF ij(2)] cc_init_region by metis
    ultimately show ?thesis by (auto simp: cc_area_def)
  qed
  then show ?thesis using ok cs k len by (simp add: pool_inv_def)
qed

text \<open>A size class that has handed out nothing yet serves a request as long as there is memory for a slab.\<close>

definition class_fresh :: "nat \<Rightarrow> nat \<Rightarrow> pool \<Rightarrow> bool" where
  "class_fresh t i pl \<longleftrightarrow> fl_count (sc_threads (pl_classes pl ! i) ! t) = 0 \<and> cc_partial (sc_central (pl_classes pl ! i)) = [] \<and>
     cc_supply (sc_central (pl_classes pl ! i)) \<noteq> []"

lemma fresh_slab_added:
  assumes inv: "cc_inv m c" and "cc_supply c = base # rest"
  shows "\<exists>i c1. cc_add_slab c = Some (Some (i, c1))"
proof -
  have "(push_bit m 1 :: u64) AND mask m = 0" by (rule bit_eqI) (auto simp: bit_simps)
  then have "(2 :: u64) ^ m AND (2 ^ m - 1) = 0" by (simp add: mask_eq_exp_minus_1)
  then have "power_of_two (of_nat (cc_size c))" using cc_invD(2)[OF inv] by (simp add: power_of_two_def)
  then show ?thesis using cc_invD(11)[OF inv] assms(2) by (simp add: cc_add_slab_def slab_new_def Let_def)
qed

lemma fresh_class_serves:
  assumes inv: "pool_inv m n U pl" and i: "size_index sz = Some i" "i < num_size_classes"
    and sz: "0 < sz" "sz \<le> pl_maxAlloc pl" "al \<le> max_align" and fresh: "class_fresh t i pl"
  shows "\<exists>a sc. pool_allocate t sz al pl = Some (PoolBlock a, pl\<lparr>pl_classes := (pl_classes pl)[i := sc]\<rparr>)"
proof -
  let ?c = "sc_central (pl_classes pl ! i)"
  obtain batch where b: "batch_size i = Some batch" using batch_some[OF i(2)] by blast
  then have pos: "0 < batch"
  proof -
    have "\<forall>e \<in> set size_table. 0 < snd e" by (simp add: size_table_def)
    moreover have "length size_table = num_size_classes" by (simp add: size_table_def num_size_classes_def)
    ultimately show ?thesis using b i(2) by (auto simp: batch_size_def split: if_splits)
  qed
  have ci: "cc_inv m ?c" using pool_classD(1)[OF inv i(2)] by (simp add: cache_ok_def)
  obtain base rest where s: "cc_supply ?c = base # rest" using fresh by (cases "cc_supply ?c") (simp_all add: class_fresh_def)
  obtain j c1 where a: "cc_add_slab ?c = Some (Some (j, c1))" using fresh_slab_added[OF ci s] by blast
  obtain out c2 where f: "cc_fetch_fresh batch [] ?c = Some (out, c2, True)" "out \<noteq> []"
    using cc_fetch_fresh_ok[OF ci, of "[]" batch] a pos by fastforce
  obtain x xs where out: "out = x # xs" using f(2) by (cases out) auto
  show ?thesis
    using sz i(1) b f(1) fresh
    by (auto simp: pool_allocate_def tlc_allocate_def tlc_fetch_def Let_def cc_fetch_batch_def class_fresh_def out)
qed

definition demo_supplies :: "addr list list" where
  "demo_supplies = [[0x1000], [0x2000], [0x3000], [0x4000], [0x5000], [0x6000], [0x7000], [0x8000], [0x9000]]"

lemma aligned_4096: "(of_nat (k * 4096) :: u64) AND mask 12 = 0"
proof -
  have "(of_nat (k * 4096) :: u64) = push_bit 12 (of_nat k)" by (simp add: push_bit_eq_mult)
  then show ?thesis by (simp add: bit_eq_iff bit_simps)
qed

lemma demo_pool: "\<exists>pl. pool_new demo_supplies 1 (2 ^ 12) 2048 = Some pl \<and> pl_maxAlloc pl = 2048 \<and> pool_inv 12 1 (\<lambda>_. {}) pl"
proof -
  obtain pl where pl: "pool_new demo_supplies 1 (2 ^ 12) 2048 = Some pl" "pl_maxAlloc pl = 2048"
    using power_of_two_4096
    by (simp add: pool_new_def demo_supplies_def block_size_def size_table_def num_size_classes_def cc_init_def
        max_alloc_size_def)
  have "\<forall>b \<in> set (concat demo_supplies). b AND mask 12 = 0"
    using aligned_4096[of 1] aligned_4096[of 2] aligned_4096[of 3] aligned_4096[of 4] aligned_4096[of 5]
      aligned_4096[of 6] aligned_4096[of 7] aligned_4096[of 8] aligned_4096[of 9]
    by (simp add: demo_supplies_def)
  moreover have "distinct (concat demo_supplies)" by (simp add: demo_supplies_def)
  moreover have "length demo_supplies = num_size_classes" by (simp add: demo_supplies_def num_size_classes_def)
  ultimately show ?thesis using pool_new_inv[OF pl(1)] pl by (simp add: max_alloc_size_def)
qed

text \<open>The first block a fresh slab hands out is its last one, because the free list is pushed in order.\<close>

lemma fresh_slab_nodes:
  assumes "cc_add_slab c = Some (Some (i, c1))" and "cc_supply c = base # rest"
  shows "fl_nodes (sb_free (cc_slabs c1 ! i)) = rev (map (block_at base (cc_block c)) [0..<cc_size c div cc_block c])"
  using assms by (auto simp: cc_add_slab_def Let_def slab_new_def split: if_splits)

text \<open>A block is only as aligned as its size class. The interface default alignment is that of
  \<open>max_align_t\<close>, 16, and the pool accepts it, yet the first 8-byte allocation from a fresh pool with
  that alignment yields an address that is 8 modulo 16.
\<close>

theorem default_alignment_not_honoured:
  assumes new: "pool_new (((k # ks) # ss)) (Suc n) (2 ^ 12) 2048 = Some pl"
    and al: "\<forall>b \<in> set (k # ks). b AND mask 12 = 0" and ds: "distinct (k # ks)"
  shows "\<exists>p pl'. pool_allocate 0 8 16 pl = Some (PoolBlock p, pl') \<and> p AND 15 = 8"
proof -
  obtain cs where cs: "new_classes ((k # ks) # ss) (2 ^ 12) (Suc n) 0 = Some cs" "pl_classes pl = cs" "pl_maxAlloc pl = 2048"
    using new by (auto simp: pool_new_def max_alloc_size_def split: option.splits)
  obtain bs where b: "block_size 0 = Some bs" "cc_init (k # ks) bs (2 ^ 12) = Some (sc_central (cs ! 0))"
    "sc_threads (cs ! 0) = replicate (Suc n) fl_new"
    using new_classes_ok[OF cs(1)] by fastforce
  have bs: "bs = 8" using b(1) by (simp add: block_size_def size_table_def num_size_classes_def)
  let ?c = "sc_central (cs ! 0)"
  have inv: "cc_inv 12 ?c" using cc_init_inv[OF _ b(2) class_slab_asserts[OF b(1)] ds al] by (simp add: max_alloc_size_def)
  have f: "cc_partial ?c = []" "cc_supply ?c = k # ks" "cc_block ?c = 8" "cc_size ?c = 2 ^ 12"
    using cc_init_fields[OF b(2)] bs by simp_all
  obtain s where s: "slab_new k 8 (2 ^ 12) = Some s" using power_of_two_4096 by (simp add: slab_new_def slab_asserts_def)
  then obtain i c1 where a: "cc_add_slab ?c = Some (Some (i, c1))" by (simp add: cc_add_slab_def slab_asserts_def f Let_def)
  have nodes: "fl_nodes (sb_free (cc_slabs c1 ! i)) = rev (map (block_at k 8) [0..<512])"
    using fresh_slab_nodes[OF a f(2)] f by simp
  have "[0..<512] = [0..<511] @ [511]" using upt_Suc_append[of 0 511] by simp
  then have hd: "fl_nodes (sb_free (cc_slabs c1 ! i)) = block_at k 8 511 # rev (map (block_at k 8) [0..<511])"
    unfolding nodes by simp
  obtain out c2 ok ys where e: "cc_fetch_fresh 64 [] ?c = Some (out, c2, ok)" "out = [] @ ys" "ok"
      "ys = take 64 (fl_nodes (sb_free (cc_slabs c1 ! i)))"
    using cc_fetch_fresh_ok[OF inv, of "[]" 64] a by force
  have fetch: "cc_fetch_batch 64 ?c = Some (Some out, c2\<lparr>cc_allocated := cc_allocated c2 + length out\<rparr>)"
    using e(1,3) f(1) by (simp add: cc_fetch_batch_def)
  obtain rest where out: "out = block_at k 8 511 # rest" using e(2,4) hd by (simp add: take_Cons')
  have "\<exists>sc'. tlc_allocate cc_fetch_batch 64 0 (cs ! 0) = Some (Some (block_at k 8 511), sc')"
    using fetch out b(3) by (simp add: tlc_allocate_def tlc_fetch_def Let_def fl_new_def)
  moreover have "size_index 8 = Some 0" "batch_size 0 = Some 64"
    by (simp_all add: size_index_def size_table_def max_alloc_size_def batch_size_def num_size_classes_def)
  ultimately have r: "\<exists>pl'. pool_allocate 0 8 16 pl = Some (PoolBlock (block_at k 8 511), pl')"
    using cs by (auto simp: pool_allocate_def max_align_def)
  have k: "k AND mask 12 = 0" using al by simp
  have "k AND 15 = 0" "k AND 4088 = 0"
  proof -
    have "k AND x = 0" if "mask 12 AND x = x" for x :: u64
    proof -
      have "k AND x = (k AND mask 12) AND x" by (simp only: and.assoc that)
      then show ?thesis by (simp add: k)
    qed
    then show "k AND 15 = 0" "k AND 4088 = 0" by (simp_all add: mask_eq_exp_minus_1)
  qed
  then have "(k + 4088) AND 15 = 8"
    using disjunctive_add_eq_or[of k 4088] by (simp add: bit.conj_disj_distrib2)
  then have "block_at k 8 511 AND 15 = 8" by (simp add: block_at_def)
  then show ?thesis using r by blast
qed

theorem default_alignment_not_honoured_witness:
  "\<exists>pl p pl'. pool_new demo_supplies 1 (2 ^ 12) 2048 = Some pl \<and> pool_allocate 0 8 16 pl = Some (PoolBlock p, pl') \<and>
     p AND 15 = 8"
proof -
  obtain pl where pl: "pool_new demo_supplies 1 (2 ^ 12) 2048 = Some pl" using demo_pool by blast
  have "\<forall>b \<in> set [0x1000 :: addr]. b AND mask 12 = 0" using aligned_4096[of 1] by simp
  then show ?thesis
    using default_alignment_not_honoured[of "0x1000" "[]" "tl demo_supplies" 0 pl] pl
    by (auto simp: demo_supplies_def)
qed

end
