(* ===== verification/Memory_Objects.thy ===== *)
theory Memory_Objects
  imports Memory_Pool "HOL-Library.Multiset"
begin

text \<open>
  Objects in pool memory (\<open>src/src/core/common/memory/memory_pool.hpp\<close>): the typed \<open>allocate\<close> and \<open>deallocate\<close>, which
  run a constructor or destructor in a block of the pool, the debug policy that overwrites freed memory, the requests
  that are too large for the size classes, the end of a thread, and the process-wide default pool. A type is its size
  and alignment. The main result is that the bytes of live objects never overlap, over any history of constructions and
  destructions by any threads.
\<close>

section \<open>Types and their blocks\<close>

record ctype =
  ct_size :: nat
  ct_align :: nat

definition ctype_ok :: "ctype \<Rightarrow> bool" where "ctype_ok ty \<longleftrightarrow> 0 < ct_size ty"

text \<open>A constructor gives a value or throws. \<open>ThrowAllocPolicy\<close> turns \<open>nullptr\<close> into an exception.\<close>

datatype 'v construction = Constructed 'v | Throws

datatype 'v make_result = Object pool_ptr 'v | AllocFailed | CtorThrew pool_ptr

definition typed_allocate :: "nat \<Rightarrow> ctype \<Rightarrow> 'v construction \<Rightarrow> pool \<Rightarrow> ('v make_result \<times> pool) option" where
  "typed_allocate t ty ctor pl =
     (case pool_allocate t (ct_size ty) (ct_align ty) pl of
        None \<Rightarrow> None
      | Some (PoolNull, pl1) \<Rightarrow> Some (AllocFailed, pl1)
      | Some (mem, pl1) \<Rightarrow> Some (case ctor of Constructed v \<Rightarrow> Object mem v | Throws \<Rightarrow> CtorThrew mem, pl1))"

text \<open>The bytes of an object, and what \<open>PoisonDebugPolicy\<close> does to them.\<close>

definition bytes_at :: "addr \<Rightarrow> nat \<Rightarrow> addr set" where
  "bytes_at p n = (\<lambda>x. p + of_nat x) ` {0..<n}"

definition poison :: "addr \<Rightarrow> nat \<Rightarrow> (addr \<Rightarrow> u8) \<Rightarrow> (addr \<Rightarrow> u8)" where
  "poison p n mem = (\<lambda>a. if a \<in> bytes_at p n then 0xCD else mem a)"

definition onDeallocate :: "bool \<Rightarrow> pool_ptr \<Rightarrow> nat \<Rightarrow> (addr \<Rightarrow> u8) \<Rightarrow> (addr \<Rightarrow> u8)" where
  "onDeallocate poisons p n mem =
     (if poisons then (case p of PoolBlock a \<Rightarrow> poison a n mem | _ \<Rightarrow> mem) else mem)"

definition typed_deallocate :: "nat \<Rightarrow> ctype \<Rightarrow> pool_ptr \<Rightarrow> pool \<Rightarrow> pool option" where
  "typed_deallocate t ty p pl = (if p = PoolNull then Some pl else pool_deallocate t p (ct_size ty) (ct_align ty) pl)"

section \<open>Large requests\<close>

text \<open>
  What \<open>operator new\<close> is asked for. Memory from the aligned form must go back through the aligned form, with the same
  alignment.
\<close>

datatype new_form = PlainNew | AlignedNew nat

definition kDefaultAlign :: nat where "kDefaultAlign = 16"

definition allocateLarge :: "nat \<Rightarrow> new_form" where
  "allocateLarge alignment = (if alignment > kDefaultAlign then AlignedNew alignment else PlainNew)"

definition deallocateLarge :: "nat \<Rightarrow> new_form" where
  "deallocateLarge alignment = (if alignment > kDefaultAlign then AlignedNew alignment else PlainNew)"

section \<open>The end of a thread\<close>

text \<open>\<open>drainAll\<close>: the thread's free list of every class goes back to its central cache.\<close>

fun drain_classes :: "nat \<Rightarrow> nat list \<Rightarrow> pool \<Rightarrow> pool option" where
  "drain_classes t [] pl = Some pl"
| "drain_classes t (i # is) pl =
     (case tlc_drain_all cc_return_batch t (pl_classes pl ! i) of
        None \<Rightarrow> None
      | Some sc \<Rightarrow> drain_classes t is (pl\<lparr>pl_classes := (pl_classes pl)[i := sc]\<rparr>))"

definition thread_exit_drain :: "nat \<Rightarrow> pool \<Rightarrow> pool option" where
  "thread_exit_drain t pl = drain_classes t [0..<num_size_classes] pl"

section \<open>The default pool\<close>

text \<open>
  The process-wide configuration and the pool that is constructed from it when it is first asked for; a configuration the
  size classes refuse throws, and the next call tries again.
\<close>

record pool_config =
  pc_slabSize :: nat
  pc_maxAllocSize :: nat

record pool_globals =
  pg_config :: pool_config
  pg_pool :: "pool option"

definition pool_globals_new :: pool_globals where
  "pool_globals_new = \<lparr>pg_config = \<lparr>pc_slabSize = 4096, pc_maxAllocSize = max_alloc_size\<rparr>, pg_pool = None\<rparr>"

definition initGlobalMemoryPoolConfig :: "nat \<Rightarrow> nat \<Rightarrow> pool_globals \<Rightarrow> pool_globals" where
  "initGlobalMemoryPoolConfig slabSize maxAllocSize g = g\<lparr>pg_config := \<lparr>pc_slabSize = slabSize, pc_maxAllocSize = maxAllocSize\<rparr>\<rparr>"

definition defaultMemoryPool :: "addr list list \<Rightarrow> nat \<Rightarrow> pool_globals \<Rightarrow> pool option \<times> pool_globals" where
  "defaultMemoryPool supplies threads g =
     (case pg_pool g of
        Some pl \<Rightarrow> (Some pl, g)
      | None \<Rightarrow>
          (case pool_new supplies threads (pc_slabSize (pg_config g)) (pc_maxAllocSize (pg_config g)) of
             None \<Rightarrow> (None, g)
           | Some pl \<Rightarrow> (Some pl, g\<lparr>pg_pool := Some pl\<rparr>)))"

section \<open>Blocks do not overlap\<close>

lemma base_of_byte:
  assumes base: "base AND mask m = 0" and m: "m < 64" and n: "n < 2 ^ m"
  shows "(base + of_nat n) AND NOT (mask m) = (base :: addr)"
  by (intro aligned_add_or[OF base] below_mask m n)

lemma live_byte:
  assumes inv: "cc_inv m c" and p: "p \<in> cc_live c"
  obtains i j where "i < length (cc_slabs c)" and "p = sb_base (cc_slabs c ! i) + of_nat (j * cc_block c)"
    and "j * cc_block c + cc_block c \<le> 2 ^ m" and "0 < cc_block c"
proof -
  obtain i where i: "i < length (cc_slabs c)" "p \<in> slab_live (cc_slabs c ! i)" using live_slab[OF inv p] by blast
  let ?s = "cc_slabs c ! i"
  have s: "slab_inv ?s" "sb_size ?s = 2 ^ m" "sb_block ?s = cc_block c"
    using cc_invD(2,4,5)[OF inv] i(1) by simp_all
  obtain j where j: "j < sb_total ?s" "p = block_at (sb_base ?s) (cc_block c) j"
    using i(2) s(3) by (auto simp: slab_live_def slab_blocks_def)
  have "j < 2 ^ m div cc_block c" using j(1) s by (simp add: slab_inv_def)
  from index_below(1)[OF this] show ?thesis using that[OF i(1), of j] j(2) s(1,3) by (simp add: block_at_def slab_inv_def)
qed

text \<open>Every byte of a block in use lies in the slab the block lies in.\<close>

lemma byte_in_area:
  assumes inv: "cc_inv m c" and p: "p \<in> cc_live c" and x: "x < cc_block c"
  shows "p + of_nat x \<in> cc_area (cc_region c)"
proof -
  obtain i j where b: "i < length (cc_slabs c)" "p = sb_base (cc_slabs c ! i) + of_nat (j * cc_block c)"
    "j * cc_block c + cc_block c \<le> 2 ^ m" by (rule live_byte[OF inv p])
  have "j * cc_block c + x < 2 ^ m" using b(3) x by linarith
  from base_of_byte[OF cc_invD(6)[OF inv b(1)] cc_invD(1)[OF inv] this]
  have "(p + of_nat x) AND cc_mask c = sb_base (cc_slabs c ! i)" using cc_invD(3)[OF inv] b(2) by (simp add: add.assoc)
  then show ?thesis using b(1) by (simp add: cc_area_def cc_region_def)
qed

lemma same_class_bytes:
  assumes inv: "cc_inv m c" and p: "p \<in> cc_live c" "q \<in> cc_live c" and x: "x < cc_block c" "y < cc_block c"
    and e: "p + of_nat x = q + of_nat y"
  shows "p = q"
proof -
  obtain i j where b: "i < length (cc_slabs c)" "p = sb_base (cc_slabs c ! i) + of_nat (j * cc_block c)"
    "j * cc_block c + cc_block c \<le> 2 ^ m" by (rule live_byte[OF inv p(1)])
  obtain i' j' where b': "i' < length (cc_slabs c)" "q = sb_base (cc_slabs c ! i') + of_nat (j' * cc_block c)"
    "j' * cc_block c + cc_block c \<le> 2 ^ m" by (rule live_byte[OF inv p(2)])
  have n: "j * cc_block c + x < 2 ^ m" "j' * cc_block c + y < 2 ^ m" using b(3) b'(3) x by linarith+
  have "(p + of_nat x) AND NOT (mask m) = sb_base (cc_slabs c ! i)"
    using base_of_byte[OF cc_invD(6)[OF inv b(1)] cc_invD(1)[OF inv] n(1)] b(2) by (simp add: add.assoc)
  moreover have "(q + of_nat y) AND NOT (mask m) = sb_base (cc_slabs c ! i')"
    using base_of_byte[OF cc_invD(6)[OF inv b'(1)] cc_invD(1)[OF inv] n(2)] b'(2) by (simp add: add.assoc)
  ultimately have same: "sb_base (cc_slabs c ! i) = sb_base (cc_slabs c ! i')" using e by simp
  have "(of_nat (j * cc_block c + x) :: addr) = of_nat (j' * cc_block c + y)"
    using e b(2) b'(2) same by (simp add: add.assoc)
  then have "unat (of_nat (j * cc_block c + x) :: addr) = unat (of_nat (j' * cc_block c + y) :: addr)" by simp
  moreover have "(2 :: nat) ^ m \<le> 2 ^ 64" using cc_invD(1)[OF inv] by (intro power_increasing) simp_all
  ultimately have "j * cc_block c + x = j' * cc_block c + y"
    using n by (simp add: unat_of_nat take_bit_nat_eq_self del: of_nat_mult of_nat_add)
  then have "j = j'" using x by (metis div_mult_self4 div_less add.commute add_0 less_nat_zero_code mult.commute)
  then show ?thesis using b(2) b'(2) same by simp
qed

lemma held_blocks_apart:
  assumes inv: "pool_inv m n U pl" and i: "i < num_size_classes" "j < num_size_classes" and p: "p \<in> U i" "q \<in> U j"
    and b: "block_size i = Some bi" "block_size j = Some bj" "si \<le> bi" "sj \<le> bj" and ne: "p \<noteq> q"
  shows "bytes_at p si \<inter> bytes_at q sj = {}"
proof -
  let ?c = "\<lambda>i. sc_central (pl_classes pl ! i)"
  note ci = pool_classD[OF inv i(1)] and cj = pool_classD[OF inv i(2)]
  have live: "p \<in> cc_live (?c i)" "q \<in> cc_live (?c j)" "cc_inv m (?c i)" "cc_inv m (?c j)"
    using ci(1) cj(1) p by (auto simp: cache_ok_def)
  have sz: "cc_block (?c i) = bi" "cc_block (?c j) = bj" using ci(3) cj(3) b(1,2) by (simp_all add: cc_region_def)
  have "p + of_nat x \<noteq> q + of_nat y" if x: "x < si" and y: "y < sj" for x y
  proof
    assume e: "p + of_nat x = q + of_nat y"
    have px: "x < cc_block (?c i)" and qy: "y < cc_block (?c j)" using sz b(3,4) x y by simp_all
    show False
    proof (cases "i = j")
      case True
      then show False using same_class_bytes[OF live(3,1) _ px, of q y] live(2) qy e ne by simp
    next
      case False
      have "p + of_nat x \<in> cc_area (cc_region (?c i)) \<inter> cc_area (cc_region (?c j))"
        using byte_in_area[OF live(3,1) px] byte_in_area[OF live(4,2) qy] e by simp
      then show False using pool_disjoint[OF inv i(1,2)] False by blast
    qed
  qed
  then show ?thesis by (auto simp: bytes_at_def)
qed

section \<open>Histories of objects\<close>

text \<open>
  The objects the program holds, each with its pointer and type; an entry without a value is a block whose constructor
  threw: the placement form of \<open>new\<close> has nothing to give it back with, and no pointer to it is left.
\<close>

record 'v heap =
  hp_pool :: pool
  hp_objs :: "(pool_ptr \<times> ctype \<times> 'v option) list"

fun made :: "'v make_result \<Rightarrow> ctype \<Rightarrow> (pool_ptr \<times> ctype \<times> 'v option) list" where
  "made (Object p v) ty = [(p, ty, Some v)]"
| "made (CtorThrew p) ty = [(p, ty, None)]"
| "made AllocFailed ty = []"

inductive heap_reach :: "nat \<Rightarrow> nat \<Rightarrow> 'v heap \<Rightarrow> bool" for m n where
  hr_new: "pool_new ss n (2 ^ m) mx = Some pl \<Longrightarrow> m < 64 \<Longrightarrow> length ss = num_size_classes \<Longrightarrow> distinct (concat ss) \<Longrightarrow>
    \<forall>b \<in> set (concat ss). b AND mask m = 0 \<Longrightarrow> heap_reach m n \<lparr>hp_pool = pl, hp_objs = []\<rparr>"
| hr_make: "heap_reach m n h \<Longrightarrow> t < n \<Longrightarrow> ctype_ok ty \<Longrightarrow> typed_allocate t ty ctor (hp_pool h) = Some (res, pl) \<Longrightarrow>
    heap_reach m n (h\<lparr>hp_pool := pl, hp_objs := made res ty @ hp_objs h\<rparr>)"
| hr_drop: "heap_reach m n h \<Longrightarrow> t < n \<Longrightarrow> (p, ty, Some v) \<in> set (hp_objs h) \<Longrightarrow> typed_deallocate t ty p (hp_pool h) = Some pl \<Longrightarrow>
    heap_reach m n (h\<lparr>hp_pool := pl, hp_objs := remove1 (p, ty, Some v) (hp_objs h)\<rparr>)"
| hr_exit: "heap_reach m n h \<Longrightarrow> t < n \<Longrightarrow> thread_exit_drain t (hp_pool h) = Some pl \<Longrightarrow> heap_reach m n (h\<lparr>hp_pool := pl\<rparr>)"

definition ptr_bytes :: "pool_ptr \<Rightarrow> ctype \<Rightarrow> addr set" where
  "ptr_bytes p ty = (case p of PoolBlock a \<Rightarrow> bytes_at a (ct_size ty) | _ \<Rightarrow> {})"

fun apart :: "(pool_ptr \<times> ctype \<times> 'v option) list \<Rightarrow> bool" where
  "apart [] \<longleftrightarrow> True"
| "apart ((p, ty, v) # rest) \<longleftrightarrow> (\<forall>(q, ty', v') \<in> set rest. ptr_bytes p ty \<inter> ptr_bytes q ty' = {}) \<and> apart rest"

section \<open>The invariant\<close>

definition small :: "pool \<Rightarrow> ctype \<Rightarrow> bool" where
  "small pl ty \<longleftrightarrow> ct_size ty \<le> pl_maxAlloc pl \<and> ct_align ty \<le> max_align"

definition entry_ok :: "pool \<Rightarrow> pool_ptr \<times> ctype \<times> 'v option \<Rightarrow> bool" where
  "entry_ok pl e \<longleftrightarrow> (case e of (p, ty, v) \<Rightarrow> ctype_ok ty \<and>
     (case p of PoolBlock _ \<Rightarrow> small pl ty | PoolLarge s al \<Rightarrow> \<not> small pl ty \<and> s = ct_size ty \<and> al = ct_align ty | PoolNull \<Rightarrow> False))"

definition block_of :: "pool_ptr \<times> ctype \<times> 'v option \<Rightarrow> addr list" where
  "block_of e = (case fst e of PoolBlock a \<Rightarrow> [a] | _ \<Rightarrow> [])"

definition class_held :: "(pool_ptr \<times> ctype \<times> 'v option) list \<Rightarrow> nat \<Rightarrow> addr set" where
  "class_held objs i = {a. \<exists>ty v. (PoolBlock a, ty, v) \<in> set objs \<and> size_index (ct_size ty) = Some i}"

definition heap_inv :: "nat \<Rightarrow> nat \<Rightarrow> 'v heap \<Rightarrow> bool" where
  "heap_inv m n h \<longleftrightarrow> pool_inv m n (class_held (hp_objs h)) (hp_pool h) \<and> (\<forall>e \<in> set (hp_objs h). entry_ok (hp_pool h) e) \<and>
     distinct (concat (map block_of (hp_objs h)))"

lemma small_class:
  assumes "pool_inv m n U pl" and "small pl ty" and "ctype_ok ty"
  obtains i b where "size_index (ct_size ty) = Some i" and "i < num_size_classes" and "block_size i = Some b" and "ct_size ty \<le> b"
proof -
  have "ct_size ty \<le> max_alloc_size" "0 < ct_size ty" using assms by (simp_all add: pool_inv_def small_def ctype_ok_def)
  then show ?thesis using size_index_ok[of "ct_size ty"] that by blast
qed

lemma in_blocks: "(PoolBlock a, ty, v) \<in> set objs \<Longrightarrow> a \<in> set (concat (map block_of objs))"
  by (force simp: block_of_def)

lemma held_blocks:
  assumes "pool_inv m n (class_held objs) pl" and "\<forall>e \<in> set objs. entry_ok pl e" and "a \<in> set (concat (map block_of objs))"
  shows "a \<in> pool_held (class_held objs)"
proof -
  obtain ty v where e: "(PoolBlock a, ty, v) \<in> set objs" using assms(3) by (auto simp: block_of_def split: pool_ptr.splits)
  then have "small pl ty" "ctype_ok ty" using assms(2) by (auto simp: entry_ok_def)
  from small_class[OF assms(1) this] obtain i where "size_index (ct_size ty) = Some i" "i < num_size_classes" by blast
  then show ?thesis using e by (auto simp: pool_held_def class_held_def)
qed

text \<open>The bytes of the entries are apart, because their blocks are.\<close>

lemma heap_apart:
  assumes "pool_inv m n (class_held all) pl" and "\<forall>e \<in> set all. entry_ok pl e"
  shows "set objs \<subseteq> set all \<Longrightarrow> distinct (concat (map block_of objs)) \<Longrightarrow> apart objs"
proof (induction objs)
  case (Cons e objs)
  obtain p ty v where e: "e = (p, ty, v)" by (cases e) auto
  have "ptr_bytes p ty \<inter> ptr_bytes q ty' = {}" if q: "(q, ty', v') \<in> set objs" for q ty' v'
  proof (cases "\<exists>a b. p = PoolBlock a \<and> q = PoolBlock b")
    case True
    then obtain a b where ab: "p = PoolBlock a" "q = PoolBlock b" by blast
    have mem: "(PoolBlock a, ty, v) \<in> set all" "(PoolBlock b, ty', v') \<in> set all" using Cons.prems(1) e q ab by auto
    have ok: "small pl ty" "ctype_ok ty" "small pl ty'" "ctype_ok ty'" using mem assms(2) by (fastforce simp: entry_ok_def)+
    obtain i bi where i: "size_index (ct_size ty) = Some i" "i < num_size_classes" "block_size i = Some bi" "ct_size ty \<le> bi"
      using small_class[OF assms(1) ok(1,2)] by blast
    obtain j bj where j: "size_index (ct_size ty') = Some j" "j < num_size_classes" "block_size j = Some bj" "ct_size ty' \<le> bj"
      using small_class[OF assms(1) ok(3,4)] by blast
    have "a \<noteq> b" using Cons.prems(2) in_blocks[of b ty' v' objs] q ab e by (auto simp: block_of_def)
    then show ?thesis using held_blocks_apart[OF assms(1) i(2) j(2) _ _ i(3) j(3) i(4) j(4)] mem i(1) j(1) ab
      by (auto simp: ptr_bytes_def class_held_def)
  qed (auto simp: ptr_bytes_def split: pool_ptr.split)
  then show ?case using Cons e by (auto simp: block_of_def)
qed simp

section \<open>Every step keeps the invariant and returns\<close>

lemma drain_classes_ok:
  assumes "t < n" and "set is \<subseteq> {0..<num_size_classes}"
  shows "pool_inv m n U pl \<Longrightarrow>
    \<exists>pl'. drain_classes t is pl = Some pl' \<and> pool_inv m n U pl' \<and> pl_maxAlloc pl' = pl_maxAlloc pl \<and>
      (\<forall>i \<in> set is. True) \<and> length (pl_classes pl') = length (pl_classes pl)"
  using assms(2)
proof (induction "is" arbitrary: pl)
  case (Cons i "is")
  then have i: "i < num_size_classes" by simp
  note c = pool_classD[OF Cons.prems(1) i]
  have "t < length (sc_threads (pl_classes pl ! i))" using c(2) assms(1) by simp
  from central.tlc_drain_all_good[OF c(1) this] obtain sc where s: "tlc_drain_all cc_return_batch t (pl_classes pl ! i) = Some sc"
    "cache_ok cc_live (cc_inv m) (U i) sc" "length (sc_threads sc) = n"
    "cc_region (sc_central sc) = cc_region (sc_central (pl_classes pl ! i))" using c(2) by auto
  have "pool_inv m n (U(i := U i)) (pl\<lparr>pl_classes := (pl_classes pl)[i := sc]\<rparr>)"
    by (rule pool_set_class[OF Cons.prems(1) i s(2-4)])
  from Cons.IH[OF this[unfolded fun_upd_triv]] Cons.prems(2) s(1) show ?case by auto
qed simp

lemma thread_exit_ok:
  assumes "pool_inv m n U pl" and "t < n"
  shows "\<exists>pl'. thread_exit_drain t pl = Some pl' \<and> pool_inv m n U pl' \<and> pl_maxAlloc pl' = pl_maxAlloc pl"
  using drain_classes_ok[OF assms(2) _ assms(1), of "[0..<num_size_classes]"] by (auto simp: thread_exit_drain_def)

lemma small_keep: "pl_maxAlloc pl' = pl_maxAlloc pl \<Longrightarrow> small pl' = small pl"
  by (simp add: small_def fun_eq_iff)

lemma entry_keep: "pl_maxAlloc pl' = pl_maxAlloc pl \<Longrightarrow> entry_ok pl' e = entry_ok pl e"
  by (simp add: entry_ok_def small_def split: prod.split pool_ptr.split)

lemma pool_maxAlloc:
  "pool_allocate t s al pl = Some (r, pl') \<Longrightarrow> pl_maxAlloc pl' = pl_maxAlloc pl"
  "pool_deallocate t p s al pl = Some pl' \<Longrightarrow> pl_maxAlloc pl' = pl_maxAlloc pl"
  by (auto simp: pool_allocate_def pool_deallocate_def Let_def split: if_splits option.splits pool_ptr.splits prod.splits)

lemma class_held_Cons:
  "class_held ((PoolBlock a, ty, v) # objs) i = (if size_index (ct_size ty) = Some i then insert a (class_held objs i) else class_held objs i)"
  by (auto simp: class_held_def)

lemma class_held_large: "class_held ((PoolLarge s al, ty, v) # objs) = class_held objs"
  by (auto simp: class_held_def fun_eq_iff)

lemma make_ok:
  fixes h :: "'v heap"
  assumes inv: "heap_inv m n h" and t: "t < n" and ty: "ctype_ok ty"
  shows "\<exists>res pl. typed_allocate t ty ctor (hp_pool h) = Some (res, pl) \<and>
    heap_inv m n (h\<lparr>hp_pool := pl, hp_objs := made res ty @ hp_objs h\<rparr>)"
proof -
  have P: "pool_inv m n (class_held (hp_objs h)) (hp_pool h)" "\<forall>e \<in> set (hp_objs h). entry_ok (hp_pool h) e"
    "distinct (concat (map block_of (hp_objs h)))" using inv by (simp_all add: heap_inv_def)
  let ?v = "case ctor of Constructed v \<Rightarrow> Some v | Throws \<Rightarrow> None"
  show ?thesis
  proof (cases "small (hp_pool h) ty")
    case True
    then have s: "0 < ct_size ty" "ct_size ty \<le> pl_maxAlloc (hp_pool h)" "ct_align ty \<le> max_align"
      using ty by (simp_all add: small_def ctype_ok_def)
    from pool_request_ok[OF P(1) t s] obtain i r pl where r: "size_index (ct_size ty) = Some i"
      "pool_allocate t (ct_size ty) (ct_align ty) (hp_pool h) = Some (r, pl)"
      "case r of PoolBlock p \<Rightarrow> p \<notin> pool_held (class_held (hp_objs h)) \<and>
           pool_inv m n ((class_held (hp_objs h))(i := insert p (class_held (hp_objs h) i))) pl
         | PoolNull \<Rightarrow> pool_inv m n (class_held (hp_objs h)) pl | PoolLarge _ _ \<Rightarrow> False" by blast
    have keep: "small pl = small (hp_pool h)" "entry_ok pl e = entry_ok (hp_pool h) e" for e :: "pool_ptr \<times> ctype \<times> 'v option"
      using entry_keep small_keep pool_maxAlloc(1)[OF r(2)] by blast+
    show ?thesis
    proof (cases r)
      case PoolNull
      then show ?thesis using r P keep by (simp add: typed_allocate_def heap_inv_def)
    next
      case (PoolBlock a)
      have new: "a \<notin> pool_held (class_held (hp_objs h))" "pool_inv m n ((class_held (hp_objs h))(i := insert a (class_held (hp_objs h) i))) pl"
        using r(3) PoolBlock by simp_all
      have "class_held ((PoolBlock a, ty, ?v) # hp_objs h) = (class_held (hp_objs h))(i := insert a (class_held (hp_objs h) i))"
        using r(1) by (simp add: fun_eq_iff class_held_Cons)
      moreover have "a \<notin> set (concat (map block_of (hp_objs h)))" using held_blocks[OF P(1,2)] new(1) by blast
      moreover have "entry_ok pl (PoolBlock a, ty, ?v)" using True ty keep by (simp add: entry_ok_def)
      ultimately have "heap_inv m n (h\<lparr>hp_pool := pl, hp_objs := (PoolBlock a, ty, ?v) # hp_objs h\<rparr>)"
        using P new(2) keep by (simp add: heap_inv_def block_of_def)
      then show ?thesis using r(2) PoolBlock by (cases ctor) (simp_all add: typed_allocate_def)
    qed (use r(3) in simp)
  next
    case False
    then have a: "pool_allocate t (ct_size ty) (ct_align ty) (hp_pool h) = Some (PoolLarge (ct_size ty) (ct_align ty), hp_pool h)"
      using ty by (auto simp: pool_allocate_def small_def ctype_ok_def Let_def)
    let ?e = "(PoolLarge (ct_size ty) (ct_align ty), ty, ?v)"
    have "entry_ok (hp_pool h) ?e" using False ty by (simp add: entry_ok_def)
    then have "heap_inv m n (h\<lparr>hp_objs := ?e # hp_objs h\<rparr>)" using P by (simp add: heap_inv_def class_held_large block_of_def)
    then show ?thesis using a by (cases ctor) (simp_all add: typed_allocate_def)
  qed
qed

lemma class_held_remove1:
  assumes "distinct (concat (map block_of objs))" and "(PoolBlock a, ty, v) \<in> set objs" and "size_index (ct_size ty) = Some i"
  shows "class_held (remove1 (PoolBlock a, ty, v) objs) = (class_held objs)(i := class_held objs i - {a})"
    and "a \<notin> set (concat (map block_of (remove1 (PoolBlock a, ty, v) objs)))"
proof -
  obtain xs ys where s: "objs = xs @ (PoolBlock a, ty, v) # ys" "(PoolBlock a, ty, v) \<notin> set xs"
    using split_list_first[OF assms(2)] by blast
  then have r: "remove1 (PoolBlock a, ty, v) objs = xs @ ys" by (simp add: remove1_append)
  have no: "a \<notin> set (concat (map block_of (xs @ ys)))" using assms(1) s(1) by (auto simp: block_of_def)
  then show "a \<notin> set (concat (map block_of (remove1 (PoolBlock a, ty, v) objs)))" using r by simp
  have other: "(PoolBlock a, ty', v') \<notin> set (xs @ ys)" for ty' v' using in_blocks no by blast
  show "class_held (remove1 (PoolBlock a, ty, v) objs) = (class_held objs)(i := class_held objs i - {a})"
    unfolding r using s(1) other assms(3) by (auto simp: class_held_def fun_eq_iff)
qed

lemma distinct_remove1_blocks:
  "distinct (concat (map block_of objs)) \<Longrightarrow> distinct (concat (map block_of (remove1 e objs)))"
proof (induction objs)
  case (Cons x objs)
  have "set (concat (map block_of (remove1 e objs))) \<subseteq> set (concat (map block_of objs))"
    using set_remove1_subset[of e objs] by auto
  then show ?case using Cons by auto
qed simp

lemma drop_ok:
  fixes h :: "'v heap"
  assumes inv: "heap_inv m n h" and t: "t < n" and e: "(p, ty, v) \<in> set (hp_objs h)"
  shows "\<exists>pl. typed_deallocate t ty p (hp_pool h) = Some pl \<and>
    heap_inv m n (h\<lparr>hp_pool := pl, hp_objs := remove1 (p, ty, v) (hp_objs h)\<rparr>)"
proof -
  have P: "pool_inv m n (class_held (hp_objs h)) (hp_pool h)" "\<forall>e \<in> set (hp_objs h). entry_ok (hp_pool h) e"
    "distinct (concat (map block_of (hp_objs h)))" using inv by (simp_all add: heap_inv_def)
  have ok: "entry_ok (hp_pool h) (p, ty, v)" using P(2) e by blast
  have D: "distinct (concat (map block_of (remove1 (p, ty, v) (hp_objs h))))" by (rule distinct_remove1_blocks[OF P(3)])
  have E: "\<forall>e \<in> set (remove1 (p, ty, v) (hp_objs h)). entry_ok (hp_pool h) e" using P(2) set_remove1_subset by fastforce
  show ?thesis
  proof (cases p)
    case (PoolBlock a)
    then have s: "0 < ct_size ty" "ct_size ty \<le> pl_maxAlloc (hp_pool h)" "ct_align ty \<le> max_align"
      using ok by (simp_all add: entry_ok_def small_def ctype_ok_def)
    from pool_request_ok[OF P(1) t s] obtain i where i: "size_index (ct_size ty) = Some i"
      "\<forall>a \<in> class_held (hp_objs h) i. \<exists>pl. pool_deallocate t (PoolBlock a) (ct_size ty) (ct_align ty) (hp_pool h) = Some pl \<and>
         pool_inv m n ((class_held (hp_objs h))(i := class_held (hp_objs h) i - {a})) pl" by blast
    have "a \<in> class_held (hp_objs h) i" using e PoolBlock i(1) by (auto simp: class_held_def)
    with i(2) obtain pl where d: "pool_deallocate t (PoolBlock a) (ct_size ty) (ct_align ty) (hp_pool h) = Some pl"
      "pool_inv m n ((class_held (hp_objs h))(i := class_held (hp_objs h) i - {a})) pl" by blast
    have "entry_ok pl e = entry_ok (hp_pool h) e" for e :: "pool_ptr \<times> ctype \<times> 'v option"
      using entry_keep pool_maxAlloc(2)[OF d(1)] by blast
    then have "heap_inv m n (h\<lparr>hp_pool := pl, hp_objs := remove1 (p, ty, v) (hp_objs h)\<rparr>)"
      using d(2) D E class_held_remove1(1)[OF P(3) _ i(1), of a v] e PoolBlock by (simp add: heap_inv_def)
    then show ?thesis using d(1) PoolBlock by (simp add: typed_deallocate_def)
  next
    case (PoolLarge s al)
    have "class_held (remove1 (p, ty, v) (hp_objs h)) = class_held (hp_objs h)"
      using PoolLarge set_remove1_subset[of "(p, ty, v)" "hp_objs h"]
      by (auto simp: class_held_def fun_eq_iff in_set_remove1)
    then have "heap_inv m n (h\<lparr>hp_objs := remove1 (p, ty, v) (hp_objs h)\<rparr>)" using P(1) D E by (simp add: heap_inv_def)
    then show ?thesis using PoolLarge by (simp add: typed_deallocate_def pool_deallocate_def)
  qed (use ok in \<open>simp add: entry_ok_def\<close>)
qed

lemma heap_reach_inv: "heap_reach m n (h :: 'v heap) \<Longrightarrow> max_alloc_size \<le> 2 ^ m \<Longrightarrow> heap_inv m n h"
proof (induction rule: heap_reach.induct)
  case (hr_new ss mx pl)
  have "class_held ([] :: (pool_ptr \<times> ctype \<times> 'v option) list) = (\<lambda>_. {})" by (simp add: class_held_def fun_eq_iff)
  then show ?case using pool_new_inv[OF hr_new(1,2,6,3-5)] by (simp add: heap_inv_def)
next
  case (hr_make h t ty ctor res pl)
  then show ?case using make_ok[of m n h t ty ctor] by auto
next
  case (hr_drop h t p ty v pl)
  then show ?case using drop_ok[of m n h t p ty "Some v"] by auto
next
  case (hr_exit h t pl)
  then obtain pl' where "thread_exit_drain t (hp_pool h) = Some pl'" "pool_inv m n (class_held (hp_objs h)) pl'"
    "pl_maxAlloc pl' = pl_maxAlloc (hp_pool h)"
    using thread_exit_ok[of m n "class_held (hp_objs h)" "hp_pool h" t] by (auto simp: heap_inv_def)
  moreover from this have "entry_ok pl' e = entry_ok (hp_pool h) e" for e :: "pool_ptr \<times> ctype \<times> 'v option"
    using entry_keep by blast
  ultimately show ?case using hr_exit by (simp add: heap_inv_def)
qed

section \<open>Properties\<close>


definition demo_heap :: "nat heap" where
  "demo_heap = \<lparr>hp_pool = the (pool_new demo_supplies 1 (2 ^ 12) 2048), hp_objs = []\<rparr>"

lemma demo_heap_reach: "heap_reach 12 1 demo_heap"
proof -
  obtain pl where pl: "pool_new demo_supplies 1 (2 ^ 12) 2048 = Some pl" using demo_pool by blast
  have "\<forall>b \<in> set (concat demo_supplies). b AND mask 12 = 0"
    using aligned_4096[of 1] aligned_4096[of 2] aligned_4096[of 3] aligned_4096[of 4] aligned_4096[of 5]
      aligned_4096[of 6] aligned_4096[of 7] aligned_4096[of 8] aligned_4096[of 9]
    by (simp add: demo_supplies_def)
  then show ?thesis unfolding demo_heap_def
    using hr_new[OF pl] pl by (simp add: demo_supplies_def num_size_classes_def)
qed

lemma demo_heap_empty: "hp_objs demo_heap = []"
  by (simp add: demo_heap_def)

lemma demo_heap_fresh:
  assumes "i < num_size_classes"
  shows "class_fresh 0 i (hp_pool demo_heap)" and "pl_maxAlloc (hp_pool demo_heap) = 2048" and "length (pl_classes (hp_pool demo_heap)) = num_size_classes"
proof -
  obtain pl where pl: "pool_new demo_supplies 1 (2 ^ 12) 2048 = Some pl" "pl_maxAlloc pl = 2048" using demo_pool by blast
  have hp: "hp_pool demo_heap = pl" using pl(1) by (simp add: demo_heap_def)
  obtain cs where cs: "new_classes demo_supplies (2 ^ 12) 1 0 = Some cs" "pl_classes pl = cs"
    using pl(1) by (auto simp: pool_new_def split: option.splits)
  note k = new_classes_ok[OF cs(1)]
  have len: "length demo_supplies = num_size_classes" by (simp add: demo_supplies_def num_size_classes_def)
  obtain bs where b: "cc_init (demo_supplies ! i) bs (2 ^ 12) = Some (sc_central (cs ! i))" "sc_threads (cs ! i) = replicate 1 fl_new"
    using k len assms by auto
  have "demo_supplies ! i \<in> set demo_supplies" using assms len by simp
  then have "demo_supplies ! i \<noteq> []" by (auto simp: demo_supplies_def)
  then show "class_fresh 0 i (hp_pool demo_heap)"
    using cc_init_fields[OF b(1)] b(2) cs(2) hp by (simp add: class_fresh_def fl_new_def)
  show "pl_maxAlloc (hp_pool demo_heap) = 2048" "length (pl_classes (hp_pool demo_heap)) = num_size_classes"
    using hp pl(2) cs k len by simp_all
qed

text \<open>An object of a fresh class is made, and the other classes stay as they were.\<close>

lemma fresh_object:
  assumes r: "heap_reach 12 1 h" and ty: "size_index (ct_size ty) = Some i" "i < num_size_classes" "ctype_ok ty"
    and small: "ct_size ty \<le> pl_maxAlloc (hp_pool h)" "ct_align ty \<le> max_align" and fresh: "class_fresh 0 i (hp_pool h)"
  shows "\<exists>a sc. typed_allocate 0 ty (Constructed v) (hp_pool h)
      = Some (Object (PoolBlock a) v, (hp_pool h)\<lparr>pl_classes := (pl_classes (hp_pool h))[i := sc]\<rparr>) \<and>
    heap_reach 12 1 \<lparr>hp_pool = (hp_pool h)\<lparr>pl_classes := (pl_classes (hp_pool h))[i := sc]\<rparr>,
      hp_objs = (PoolBlock a, ty, Some v) # hp_objs h\<rparr>"
proof -
  have inv: "pool_inv 12 1 (class_held (hp_objs h)) (hp_pool h)"
    using heap_reach_inv[OF r] by (simp add: heap_inv_def max_alloc_size_def)
  have "0 < ct_size ty" using ty(3) by (simp add: ctype_ok_def)
  from fresh_class_serves[OF inv ty(1,2) this small fresh] obtain a sc where
    "pool_allocate 0 (ct_size ty) (ct_align ty) (hp_pool h) = Some (PoolBlock a, (hp_pool h)\<lparr>pl_classes := (pl_classes (hp_pool h))[i := sc]\<rparr>)"
    by blast
  then have t: "typed_allocate 0 ty (Constructed v) (hp_pool h)
      = Some (Object (PoolBlock a) v, (hp_pool h)\<lparr>pl_classes := (pl_classes (hp_pool h))[i := sc]\<rparr>)"
    by (simp add: typed_allocate_def)
  from hr_make[OF r _ ty(3) this] show ?thesis using t by (cases h) auto
qed

abbreviation "demo_small \<equiv> \<lparr>ct_size = 24, ct_align = 8\<rparr>"
abbreviation "demo_large \<equiv> \<lparr>ct_size = 96, ct_align = 8\<rparr>"

lemma demo_classes: "size_index 24 = Some 2" "size_index 96 = Some 4"
  by (simp_all add: size_index_def size_table_def max_alloc_size_def)


text \<open>
  The condition on the slab size is needed: with slabs smaller than the block of a class the pool is constructed, and
  the first request of that class fails the assertion \<open>totalBlocks_ > 0\<close> of the slab.
\<close>

theorem small_slab_fails_assertion:
  assumes new: "pool_new ss (Suc n) sz mx = Some pl" and len: "length ss = num_size_classes"
    and s: "size_index s = Some i" "i < num_size_classes" "block_size i = Some b" "sz < b"
    and small: "0 < s" "s \<le> pl_maxAlloc pl" "al \<le> max_align"
  shows "pool_allocate 0 s al pl = None"
proof -
  obtain cs where cs: "new_classes ss sz (Suc n) 0 = Some cs" "pl_classes pl = cs"
    using new by (auto simp: pool_new_def split: option.splits)
  obtain bs where bs: "block_size i = Some bs" "cc_init (ss ! i) bs sz = Some (sc_central (cs ! i))"
    "sc_threads (cs ! i) = replicate (Suc n) fl_new" using new_classes_ok[OF cs(1)] s(2) len by force
  obtain batch where bt: "batch_size i = Some batch" using batch_some[OF s(2)] by blast
  have pos: "0 < batch"
  proof -
    have "\<forall>e \<in> set size_table. 0 < snd e" by (simp add: size_table_def)
    moreover have "length size_table = num_size_classes" by (simp add: size_table_def num_size_classes_def)
    ultimately show ?thesis using bt s(2) by (auto simp: batch_size_def split: if_splits)
  qed
  let ?c = "sc_central (cs ! i)"
  have f: "cc_partial ?c = []" "cc_block ?c = b" "cc_size ?c = sz" using cc_init_fields[OF bs(2)] bs(1) s(3) by simp_all
  have "cc_add_slab ?c = None" using s(4) by (simp add: cc_add_slab_def slab_asserts_def f)
  then have "cc_fetch_fresh batch [] ?c = None" using pos by (subst cc_fetch_fresh.simps) simp
  then have "cc_fetch_batch batch ?c = None" by (simp add: cc_fetch_batch_def f)
  then show ?thesis
    using small s(1) bt bs(3) by (simp add: pool_allocate_def tlc_allocate_def tlc_fetch_def Let_def cs(2) fl_new_def)
qed

text \<open>Overwriting a freed object touches no byte of any other.\<close>

lemma apart_remove1:
  "apart objs \<Longrightarrow> (p, ty, v) \<in> set objs \<Longrightarrow> (q, ty', v') \<in> set (remove1 (p, ty, v) objs) \<Longrightarrow> ptr_bytes p ty \<inter> ptr_bytes q ty' = {}"
proof (induction objs)
  case (Cons e objs)
  obtain r tr vr where e: "e = (r, tr, vr)" by (cases e) auto
  show ?case
  proof (cases "e = (p, ty, v)")
    case True
    then show ?thesis using Cons.prems by auto
  next
    case False
    then have pin: "(p, ty, v) \<in> set objs" using Cons.prems(2) by auto
    have "(q, ty', v') = e \<or> (q, ty', v') \<in> set (remove1 (p, ty, v) objs)" using Cons.prems(3) False by auto
    then show ?thesis
    proof
      assume "(q, ty', v') = e"
      then have "ptr_bytes q ty' \<inter> ptr_bytes p ty = {}" using Cons.prems(1) pin e by fastforce
      then show ?thesis by blast
    next
      assume "(q, ty', v') \<in> set (remove1 (p, ty, v) objs)"
      then show ?thesis using Cons.IH Cons.prems(1) pin e by simp
    qed
  qed
qed simp

theorem poison_stays_in_its_object:
  assumes "heap_reach m n h" and "max_alloc_size \<le> 2 ^ m" and "(p, ty, v) \<in> set (hp_objs h)"
    and "(q, ty', v') \<in> set (remove1 (p, ty, v) (hp_objs h))" and "a \<in> ptr_bytes q ty'"
  shows "onDeallocate poisons p (ct_size ty) mem a = mem a"
proof -
  have inv: "heap_inv m n h" by (rule heap_reach_inv[OF assms(1,2)])
  then have "apart (hp_objs h)" using heap_apart[of m n "hp_objs h" "hp_pool h" "hp_objs h"] by (simp add: heap_inv_def)
  from apart_remove1[OF this assms(3,4)] have "a \<notin> ptr_bytes p ty" using assms(5) by blast
  then show ?thesis by (auto simp: onDeallocate_def poison_def ptr_bytes_def split: pool_ptr.split)
qed

text \<open>
  A constructor that throws leaves the pool as if the object had been made: the placement \<open>new\<close> of the pool has no
  matching \<open>delete\<close>, so its block is never handed out again.
\<close>

lemma throwing_constructor_keeps_block:
  assumes "typed_allocate t ty Throws pl = Some (CtorThrew p, pl')"
  shows "typed_allocate t ty (Constructed v) pl = Some (Object p v, pl')"
  using assms by (auto simp: typed_allocate_def split: option.splits prod.splits pool_ptr.splits)

text \<open>The default pool is constructed once, from the configuration that is in force then; later ones change nothing.\<close>

lemma default_pool_is_fixed:
  assumes "defaultMemoryPool ss n g = (Some pl, g')"
  shows "fst (defaultMemoryPool ss' n' (initGlobalMemoryPoolConfig slab mx g')) = Some pl"
  using assms by (auto simp: defaultMemoryPool_def initGlobalMemoryPoolConfig_def split: option.splits)

end
