(* ===== verification/App_Startup.thy ===== *)
theory App_Startup
  imports Service_Wiring Logger_Model Memory_Objects
begin

text \<open>
  The daemon's start in the order of the code (\<open>MainApp::open\<close>, \<open>configureRuntime\<close> and \<open>registerServices\<close> of
  \<open>src/src/app/main/main_app.cpp\<close>), over the models of the logger, the metrics, the default memory pool, the signal
  handler and the service container; and the way of a signal from the kernel through the pipe, the system manager's mailbox
  and the registered callback to the end of \<open>run\<close>. The lines the start logs are left out.
\<close>

section \<open>Start\<close>

datatype service = SvcPmu | SvcSys
datatype stop_callback = RequestStop

text \<open>
  \<open>logger_\<close> is logger number \<open>me\<close>; \<open>st_useMetrics\<close> says whether the process' active metrics are \<open>metrics_\<close>. The container makes
  numbered objects; \<open>st_opened\<close> lists the ones that were opened. The two flags are \<open>eventLoop_\<close> and \<open>timer_\<close>, which are
  handed to the actor system later.
\<close>

record startup =
  st_app :: app
  st_log :: log_world
  st_metrics :: metrics
  st_useMetrics :: bool
  st_pool :: pool_globals
  st_signals :: "stop_callback signal_handler"
  st_eventLoop :: bool
  st_timer :: bool
  st_di :: "(service, nat, nat) wiring"
  st_pmu :: "nat option"
  st_sys :: "nat option"
  st_opened :: "nat list"

definition bind_impl :: "service \<Rightarrow> lifetime \<Rightarrow> (service, nat, nat) wiring \<Rightarrow> (service, nat, nat) wiring" where
  "bind_impl k lt c = bindFactory k lt (Make (\<lambda>n. (Some n, Suc n))) c"

text \<open>A level is compared as a number, so one below the lowest acts as the lowest.\<close>

definition configureRuntime :: "nat \<Rightarrow> nat option \<Rightarrow> startup \<Rightarrow> startup" where
  "configureRuntime me opened s =
     (let c = ap_cfg (st_app s);
          w = setActiveLogger (Some me) (st_log s);
          w = setLevel (At me) (nat (sint (cf_logLevel c))) w;
          w = setLogFile (At me) ''log/v2_main.log'' opened w;
          h = snd (sg_install 2 RequestStop (st_signals s));
          h = snd (sg_install 15 RequestStop h)
      in s\<lparr>st_log := w,
           st_useMetrics := True,
           st_metrics := setEnabled (cf_enableMetrics c) (st_metrics s),
           st_pool := initGlobalMemoryPoolConfig (to_size (cf_memorySlabSize c)) (to_size (cf_memoryMaxPoolAllocSize c)) (st_pool s),
           st_signals := h, st_app := (st_app s)\<lparr>ap_caught := ap_caught (st_app s) \<union> {2, 15}\<rparr>,
           st_eventLoop := True, st_timer := True\<rparr>)"

text \<open>\<open>None\<close> is an exception of \<open>resolve\<close>.\<close>

definition take_service :: "service \<Rightarrow> startup \<Rightarrow> (nat \<times> startup) option" where
  "take_service k s = (case resolve k (st_di s) of Some (Pointer (Some x), c) \<Rightarrow> Some (x, s\<lparr>st_di := c\<rparr>) | _ \<Rightarrow> None)"

definition registerServices :: "startup \<Rightarrow> startup option" where
  "registerServices s =
     (let s = s\<lparr>st_di := bind_impl SvcSys Singleton (bind_impl SvcPmu Singleton (st_di s))\<rparr> in
      Option.bind (take_service SvcPmu s) (\<lambda>(p, s).
      Option.bind (take_service SvcSys (s\<lparr>st_pmu := Some p\<rparr>)) (\<lambda>(y, s).
        Some (s\<lparr>st_sys := Some y, st_opened := st_opened s @ [p, y],
                st_app := (st_app s)\<lparr>ap_devices := True\<rparr>\<rparr>))))"

text \<open>\<open>open\<close>; the first component says whether it returned. \<open>createActors\<close> takes the event loop and the timer.\<close>

definition main_open :: "'f fconv \<Rightarrow> 32 word \<Rightarrow> 'f json option option \<Rightarrow> nat \<Rightarrow> nat option \<Rightarrow> nat list \<Rightarrow> life_code \<Rightarrow> startup \<Rightarrow> bool \<times> startup" where
  "main_open cv level file me opened addrs U s =
     (let s = s\<lparr>st_app := (st_app s)\<lparr>ap_cfg := loadFromFile cv level file\<rparr>\<rparr>;
          s = configureRuntime me opened s
      in case registerServices s of
           None \<Rightarrow> (False, s)
         | Some s \<Rightarrow>
             (let s = s\<lparr>st_eventLoop := False, st_timer := False\<rparr> in
              case (createActors (ap_cfg (st_app s)) addrs (st_metrics s) :: (actor_system \<times> unit sup) option) of
                None \<Rightarrow> (False, s)
              | Some (y, _) \<Rightarrow> (case sys_start U y of (ok, y) \<Rightarrow> (ok, s\<lparr>st_app := (st_app s)\<lparr>ap_system := Some y\<rparr>\<rparr>))))"

lemma fresh_singleton:
  "resolve k (bind_impl k Singleton c)
    = Some (Pointer (Some (wi_world c)), keep_made k Singleton (Some (wi_world c))
        ((bind_impl k Singleton c)\<lparr>wi_world := Suc (wi_world c), wi_made := wi_made c @ [k]\<rparr>))"
  by (simp add: resolve_def bind_impl_def bindFactory_def run_Make)

lemma registerServices_ok:
  "\<exists>s'. registerServices s = Some s' \<and> st_opened s' = st_opened s @ [wi_world (st_di s), Suc (wi_world (st_di s))]
    \<and> st_pmu s' = Some (wi_world (st_di s)) \<and> st_sys s' = Some (Suc (wi_world (st_di s)))
    \<and> st_app s' = (st_app s)\<lparr>ap_devices := True\<rparr> \<and> st_metrics s' = st_metrics s \<and> st_log s' = st_log s
    \<and> st_pool s' = st_pool s \<and> st_signals s' = st_signals s"
  by (simp add: registerServices_def take_service_def resolve_def bind_impl_def bindFactory_def run_Make keep_made_def)

text \<open>The detailed start does to the application what \<open>app_open\<close> of \<open>Main_App\<close> says.\<close>

theorem main_open_refines_app_open:
  "(fst (main_open cv level file me opened addrs U s), st_app (snd (main_open cv level file me opened addrs U s)))
    = app_open cv level file addrs (setEnabled (cf_enableMetrics (loadFromFile cv level file)) (st_metrics s)) U (st_app s)"
proof -
  let ?s1 = "configureRuntime me opened (s\<lparr>st_app := (st_app s)\<lparr>ap_cfg := loadFromFile cv level file\<rparr>\<rparr>)"
  obtain s2 where 2: "registerServices ?s1 = Some s2" "st_app s2 = (st_app ?s1)\<lparr>ap_devices := True\<rparr>"
    "st_metrics s2 = st_metrics ?s1" using registerServices_ok[of ?s1] by blast
  have 1: "st_app ?s1 = (st_app s)\<lparr>ap_cfg := loadFromFile cv level file, ap_caught := ap_caught (st_app s) \<union> {2, 15}\<rparr>"
    "st_metrics ?s1 = setEnabled (cf_enableMetrics (loadFromFile cv level file)) (st_metrics s)"
    by (simp_all add: configureRuntime_def Let_def)
  show ?thesis
    unfolding main_open_def app_open_def Let_def 2(1) option.case
    by (simp add: 1 2 split: option.split prod.split)
qed

lemma main_open_keeps_configured:
  assumes "s1 = configureRuntime me opened (s\<lparr>st_app := (st_app s)\<lparr>ap_cfg := loadFromFile cv level file\<rparr>\<rparr>)"
  shows "st_log (snd (main_open cv level file me opened addrs U s)) = st_log s1
    \<and> st_pool (snd (main_open cv level file me opened addrs U s)) = st_pool s1
    \<and> st_signals (snd (main_open cv level file me opened addrs U s)) = st_signals s1"
proof -
  obtain s2 where 2: "registerServices s1 = Some s2" "st_log s2 = st_log s1" "st_pool s2 = st_pool s1" "st_signals s2 = st_signals s1"
    using registerServices_ok[of s1] by blast
  show ?thesis
    unfolding main_open_def Let_def 2(1) option.case assms[symmetric]
    by (simp add: 2(2-) split: option.split prod.split)
qed

text \<open>
  Whether or not the actors can be created and started, after \<open>open\<close> the daemon's logger is the active one, with the level of
  the configuration, the next pool is built with the configured sizes unless one exists already, and both signals have the
  daemon's callback.
\<close>
theorem open_configures_the_parts:
  fixes s :: startup and cv :: "'f fconv" and level and json and me and opened and addrs and U
  defines "c \<equiv> loadFromFile cv level json" and "s' \<equiv> snd (main_open cv level json me opened addrs U s)"
  shows "activeLogger (st_log s') = At me \<and> lg_level (lw_logger (st_log s') (At me)) = nat (sint (cf_logLevel c))
    \<and> fst (defaultMemoryPool supplies threads (st_pool s'))
       = (case pg_pool (st_pool s) of Some pl \<Rightarrow> Some pl
          | None \<Rightarrow> pool_new supplies threads (to_size (cf_memorySlabSize c)) (to_size (cf_memoryMaxPoolAllocSize c)))
    \<and> sg_dispatch 2 (st_signals s') = map (\<lambda>cb. (cb, 2)) (sg_callbacks (st_signals s) 2 @ [RequestStop])
    \<and> sg_dispatch 15 (st_signals s') = map (\<lambda>cb. (cb, 15)) (sg_callbacks (st_signals s) 15 @ [RequestStop])"
  unfolding s'_def c_def main_open_keeps_configured[OF refl]
  by (simp add: main_open_keeps_configured[OF refl] configureRuntime_def Let_def setActiveLogger_def setLevel_def setLogFile_def activeLogger_def
      defaultMemoryPool_def initGlobalMemoryPoolConfig_def sg_dispatch_def sg_install_def valid_signal_def split: option.split)

section \<open>From a signal to the end of the daemon\<close>

text \<open>
  The signal handler, the system manager's mailbox (its signal numbers only), whether the manager's \<open>open\<close> has subscribed the
  pipe, and the main thread, which calls \<open>run\<close> (\<open>MainRuns\<close>) when \<open>open\<close> has returned. A number read while the mailbox is full is refused there.
\<close>

record daemon =
  dn_signals :: "stop_callback signal_handler"
  dn_watched :: bool
  dn_mail :: "int list"
  dn_run :: "app \<times> run_pc"

datatype daemon_event = Caught int | ManagerOpens "(int \<times> int) option" | PipeReadable | ManagerHandles | MainRuns | MainStep

text \<open>\<open>SystemManagerActor::open\<close>: \<open>init\<close> may have been done before; what counts is whether there is a pipe to watch.\<close>

definition manager_opens :: "(int \<times> int) option \<Rightarrow> daemon \<Rightarrow> daemon" where
  "manager_opens ends d =
     (let h = snd (sg_init ends (dn_signals d)) in
      d\<lparr>dn_signals := h, dn_watched := (0 \<le> sg_fd h)\<rparr>)"

text \<open>The loop thread reads one number and enqueues it; it only does so while the loop runs.\<close>

definition pipe_readable :: "nat \<Rightarrow> daemon \<Rightarrow> daemon" where
  "pipe_readable cap d =
     (if dn_watched d \<and> snd (dn_run d) = RunLoop
      then (case sg_read (dn_signals d) of
              (None, _) \<Rightarrow> d
            | (Some sig, h) \<Rightarrow> d\<lparr>dn_signals := h, dn_mail := (if length (dn_mail d) < cap then dn_mail d @ [sig] else dn_mail d)\<rparr>)
      else d)"

text \<open>\<open>handle(SignalNotify)\<close>: every callback of the number is called; the daemon's requests the stop.\<close>

fun call_callback :: "stop_callback \<times> int \<Rightarrow> app \<times> run_pc \<Rightarrow> app \<times> run_pc" where
  "call_callback (RequestStop, _) (a, pc) = (app_requestStop a, pc)"

definition manager_handles :: "daemon \<Rightarrow> daemon" where
  "manager_handles d =
     (case dn_mail d of
        [] \<Rightarrow> d
      | sig # rest \<Rightarrow> d\<lparr>dn_mail := rest, dn_run := fold call_callback (sg_dispatch sig (dn_signals d)) (dn_run d)\<rparr>)"

fun daemon_step :: "nat \<Rightarrow> nat \<Rightarrow> daemon_event \<Rightarrow> daemon \<Rightarrow> daemon" where
  "daemon_step room cap (Caught sig) d = d\<lparr>dn_signals := on_signal_caught room sig (dn_signals d)\<rparr>"
| "daemon_step room cap (ManagerOpens ends) d = manager_opens ends d"
| "daemon_step room cap PipeReadable d = pipe_readable cap d"
| "daemon_step room cap ManagerHandles d = manager_handles d"
| "daemon_step room cap MainRuns d = d\<lparr>dn_run := run_begin (fst (dn_run d))\<rparr>"
| "daemon_step room cap MainStep d = d\<lparr>dn_run := run_step (dn_run d)\<rparr>"

definition daemon_runs :: "nat \<Rightarrow> nat \<Rightarrow> daemon_event list \<Rightarrow> daemon \<Rightarrow> daemon" where
  "daemon_runs room cap es d = fold (daemon_step room cap) es d"

definition on_the_way :: "daemon \<Rightarrow> int list" where
  "on_the_way d = dn_mail d @ sg_queue (dn_signals d)"

definition stop_armed :: "int \<Rightarrow> daemon \<Rightarrow> bool" where
  "stop_armed sig d \<longleftrightarrow> valid_signal sig \<and> RequestStop \<in> set (sg_callbacks (dn_signals d) sig)"

text \<open>A stop that was caught is on its way, or has been requested.\<close>

definition stop_coming :: "int \<Rightarrow> daemon \<Rightarrow> bool" where
  "stop_coming sig d \<longleftrightarrow> stop_armed sig d \<and> (sig \<in> set (on_the_way d) \<or> stopping (fst (dn_run d)))"

lemma callbacks_kept [simp]:
  "sg_callbacks (dn_signals (daemon_step room cap e d)) = sg_callbacks (dn_signals d)"
  by (cases e) (auto simp: on_signal_caught_def manager_opens_def sg_init_def pipe_readable_def sg_read_def manager_handles_def
      Let_def split: option.split list.split)

lemma call_callbacks_stop:
  "cs \<noteq> [] \<or> stopping (fst s) \<Longrightarrow> stopping (fst (fold call_callback cs s))"
proof (induction cs arbitrary: s)
  case (Cons c cs)
  obtain a pc cb n where "s = (a, pc)" "c = (cb, n)" by (cases s, cases c) auto
  moreover have "stopping (app_requestStop a)" for a by (simp add: stopping_def)
  ultimately show ?case using Cons.IH by (cases cb) (auto simp: stopping_def)
qed simp

lemma run_step_app [simp]: "fst (run_step s) = fst s"
  by (cases s; cases "snd s") auto

text \<open>The mailbox has room for every number that can reach it while \<open>es\<close> runs.\<close>

definition mail_room :: "nat \<Rightarrow> daemon_event list \<Rightarrow> daemon \<Rightarrow> bool" where
  "mail_room cap es d \<longleftrightarrow> length (on_the_way d) + length (filter (\<lambda>e. \<exists>sig. e = Caught sig) es) \<le> cap"

lemma way_step:
  assumes "length (on_the_way d) \<le> cap"
  shows "(case e of
      Caught sig \<Rightarrow> on_the_way (daemon_step room cap e d) \<in> {on_the_way d, on_the_way d @ [sig]}
    | ManagerHandles \<Rightarrow> on_the_way (daemon_step room cap e d)
        = (case dn_mail d of [] \<Rightarrow> on_the_way d | _ # rest \<Rightarrow> rest @ sg_queue (dn_signals d))
    | _ \<Rightarrow> on_the_way (daemon_step room cap e d) = on_the_way d)"
  using assms
  by (cases e) (auto simp: on_the_way_def on_signal_caught_def manager_opens_def sg_init_def pipe_readable_def sg_read_def
      manager_handles_def Let_def split: option.split list.split)

lemma stop_coming_step:
  assumes "stop_coming sig d" and "length (on_the_way d) \<le> cap" and "e \<noteq> MainRuns"
  shows "stop_coming sig (daemon_step room cap e d)"
proof -
  have armed: "stop_armed sig (daemon_step room cap e d)" using assms(1) by (simp add: stop_coming_def stop_armed_def)
  show ?thesis
  proof (cases e)
    case ManagerHandles
    show ?thesis
    proof (cases "dn_mail d")
      case Nil
      then show ?thesis using assms(1) by (simp add: ManagerHandles manager_handles_def)
    next
      case (Cons x rest)
      have "sg_dispatch x (dn_signals d) \<noteq> []" if "x = sig"
        using assms(1) that by (auto simp: stop_coming_def stop_armed_def sg_dispatch_def)
      moreover have "fst (dn_run (daemon_step room cap e d)) = fst (fold call_callback (sg_dispatch x (dn_signals d)) (dn_run d))"
        by (simp add: ManagerHandles manager_handles_def Cons)
      ultimately have "stopping (fst (dn_run (daemon_step room cap e d)))" if "x = sig \<or> stopping (fst (dn_run d))"
        using that call_callbacks_stop[of "sg_dispatch x (dn_signals d)" "dn_run d"] by auto
      moreover have "on_the_way (daemon_step room cap e d) = rest @ sg_queue (dn_signals d)"
        using way_step[OF assms(2), where e = e and room = room] by (simp add: ManagerHandles Cons)
      ultimately show ?thesis
        using assms(1) armed by (auto simp: stop_coming_def on_the_way_def Cons)
    qed
  next
    case (Caught x)
    then show ?thesis using assms(1) armed way_step[OF assms(2), where e = e and room = room] by (auto simp: stop_coming_def)
  next
    case (ManagerOpens x)
    then show ?thesis using assms(1) armed way_step[OF assms(2), where e = e and room = room] by (auto simp: stop_coming_def manager_opens_def Let_def)
  next
    case PipeReadable
    have "dn_run (daemon_step room cap e d) = dn_run d"
      by (auto simp: PipeReadable pipe_readable_def split: option.split prod.split)
    then show ?thesis using assms(1) armed way_step[OF assms(2), where e = e and room = room] by (auto simp: stop_coming_def PipeReadable)
  next
    case MainStep
    then show ?thesis using assms(1) armed way_step[OF assms(2), where e = e and room = room] by (auto simp: stop_coming_def)
  next
    case MainRuns
    then show ?thesis using assms(3) by simp
  qed
qed

lemma mail_room_step: "mail_room cap (e # es) d \<Longrightarrow> mail_room cap es (daemon_step room cap e d)"
  using way_step[where d = d and cap = cap and e = e and room = room]
  by (cases e) (auto simp: mail_room_def on_the_way_def split: list.splits)

lemma stop_coming_runs:
  assumes "stop_coming sig d" and "mail_room cap es d" and "MainRuns \<notin> set es"
  shows "stop_coming sig (daemon_runs room cap es d)"
  using assms
proof (induction es arbitrary: d)
  case (Cons e es)
  have "length (on_the_way d) \<le> cap" using Cons.prems(2) by (simp add: mail_room_def)
  then have "stop_coming sig (daemon_step room cap e d)" using Cons.prems(1,3) by (intro stop_coming_step) auto
  from Cons.IH[OF this mail_room_step[OF Cons.prems(2)]] Cons.prems(3)
  show ?case by (simp add: daemon_runs_def)
qed (simp add: daemon_runs_def)

text \<open>Once the stop is requested, two steps of the main thread end \<open>run\<close>, whatever happens between.\<close>

lemma run_step_moves:
  assumes "stopping (fst s)"
  shows "run_step s = (fst s, case snd s of RunLoop \<Rightarrow> RunSleep | _ \<Rightarrow> RunOver)"
  using assms by (cases s; cases "snd s") (auto simp: stopping_def)

lemma handling_keeps_pc: "snd (fold call_callback cs s) = snd s"
proof (induction cs arbitrary: s)
  case (Cons c cs)
  obtain a pc cb n where "s = (a, pc)" "c = (cb, n)" by (cases s, cases c) auto
  then show ?case using Cons.IH by (cases cb) simp
qed simp

lemma other_steps_keep_pc:
  "e \<noteq> MainStep \<Longrightarrow> e \<noteq> MainRuns \<Longrightarrow> snd (dn_run (daemon_step room cap e d)) = snd (dn_run d)
     \<and> (stopping (fst (dn_run d)) \<longrightarrow> stopping (fst (dn_run (daemon_step room cap e d))))"
  using call_callbacks_stop
  by (cases e) (auto simp: manager_opens_def pipe_readable_def manager_handles_def handling_keeps_pc Let_def split: option.split prod.split list.split)

definition steps_left :: "run_pc \<Rightarrow> nat" where
  "steps_left pc = (case pc of RunLoop \<Rightarrow> 2 | RunSleep \<Rightarrow> 1 | RunOver \<Rightarrow> 0)"

lemma stopped_main_ends:
  assumes "stopping (fst (dn_run d))" and "steps_left (snd (dn_run d)) \<le> count_list es MainStep"
    and "MainRuns \<notin> set es"
  shows "snd (dn_run (daemon_runs room cap es d)) = RunOver"
  using assms
proof (induction es arbitrary: d)
  case Nil
  then show ?case by (auto simp: daemon_runs_def steps_left_def split: run_pc.splits)
next
  case (Cons e es)
  show ?case
  proof (cases "e = MainStep")
    case True
    let ?d = "daemon_step room cap e d"
    have "dn_run ?d = (fst (dn_run d), case snd (dn_run d) of RunLoop \<Rightarrow> RunSleep | _ \<Rightarrow> RunOver)"
      using run_step_moves[OF Cons.prems(1)] by (simp add: True)
    with Cons.IH[of ?d] Cons.prems show ?thesis
      by (auto simp: daemon_runs_def True steps_left_def split: run_pc.splits)
  next
    case False
    with Cons.IH[of "daemon_step room cap e d"] Cons.prems other_steps_keep_pc[OF False, where d = d and room = room and cap = cap]
    show ?thesis by (auto simp: daemon_runs_def)
  qed
qed


definition demo_daemon :: "actor_system \<Rightarrow> daemon" where
  "demo_daemon s = \<lparr>dn_signals = snd (sg_init (Some (3, 4)) (snd (sg_install 2 RequestStop signal_handler_new))),
     dn_watched = True, dn_mail = [], dn_run = ((app_new 2)\<lparr>ap_system := Some (s\<lparr>sy_eventLoop := Some True\<rparr>), ap_running := True\<rparr>, RunLoop)\<rparr>"


text \<open>
  One caught before the system manager's \<open>open\<close> has made the pipe is lost: the default action is gone since \<open>configureRuntime\<close>,
  and nothing is written. Unless another signal is caught, \<open>run\<close> does not end.
\<close>

lemma quiet_step:
  assumes "on_the_way d = []" and "e \<notin> range Caught" and "ap_running (fst (dn_run d))" and "snd (dn_run d) \<noteq> RunOver"
  shows "on_the_way (daemon_step room cap e d) = [] \<and> ap_running (fst (dn_run (daemon_step room cap e d)))
    \<and> snd (dn_run (daemon_step room cap e d)) \<noteq> RunOver"
proof -
  obtain a pc where "dn_run d = (a, pc)" by (cases "dn_run d")
  with assms show ?thesis
    by (cases e; cases pc) (auto simp: on_the_way_def manager_opens_def sg_init_def pipe_readable_def sg_read_def manager_handles_def
        run_begin_def Let_def split: option.split)
qed

theorem early_signal_is_lost:
  assumes "sg_pipe (dn_signals d) = None" and "on_the_way d = []" and "\<forall>e \<in> set es. e \<notin> range Caught"
  shows "snd (dn_run (daemon_runs room cap (Caught sig # ManagerOpens ends # MainRuns # es) d)) \<noteq> RunOver"
proof -
  let ?d = "daemon_step room cap MainRuns (daemon_step room cap (ManagerOpens ends) d)"
  have "snd (dn_run (daemon_runs room cap es c)) \<noteq> RunOver"
    if "on_the_way c = []" "ap_running (fst (dn_run c))" "snd (dn_run c) \<noteq> RunOver" "\<forall>e \<in> set es. e \<notin> range Caught" for c es
    using that
  proof (induction es arbitrary: c)
    case (Cons e es)
    have "e \<notin> range Caught" using Cons.prems(4) by simp
    note q = quiet_step[OF Cons.prems(1) this Cons.prems(2,3), where room = room and cap = cap]
    have "snd (dn_run (daemon_runs room cap es (daemon_step room cap e c))) \<noteq> RunOver"
      using q Cons.prems(4) by (intro Cons.IH) auto
    then show ?case by (simp add: daemon_runs_def)
  qed (simp add: daemon_runs_def)
  moreover have "on_the_way ?d = []" "ap_running (fst (dn_run ?d))" "snd (dn_run ?d) \<noteq> RunOver"
    using assms(2) by (auto simp: on_the_way_def manager_opens_def sg_init_def run_begin_def Let_def split: option.split)
  ultimately have "snd (dn_run (daemon_runs room cap es ?d)) \<noteq> RunOver" using assms(3) by blast
  moreover have "daemon_step room cap (Caught sig) d = d"
    using assms(1) by (simp add: on_signal_caught_def)
  ultimately show ?thesis by (simp add: daemon_runs_def)
qed

end
