(* ===== verification/Number_Text.thy ===== *)
theory Number_Text
  imports Text_Format
begin

text \<open>
  Reading numbers: \<open>std::stoi\<close>, \<open>std::stoul\<close> and \<open>std::stoull\<close>, which the benchmarks apply to their
  options and the hardware readers to what the kernel and the firmware print, and the fact they rest on: what \<open>Text_Format\<close> prints, in any base up to 16, reads back. Leading
  blanks and a sign are skipped, reading stops at the first character that is no digit, and the two exceptions are
  those of the standard library.
\<close>

section \<open>Reading\<close>

datatype num_error = NoNumber | NumRange

definition is_blank :: "char \<Rightarrow> bool" where
  "is_blank c \<longleftrightarrow> c \<in> {CHR '' '', CHR 0x09, CHR 0x0A, CHR 0x0B, CHR 0x0C, CHR 0x0D}"

definition digit_of :: "char \<Rightarrow> nat option" where
  "digit_of c =
     (let n = of_char c :: nat in
      if 48 \<le> n \<and> n \<le> 57 then Some (n - 48)
      else if 97 \<le> n \<and> n \<le> 102 then Some (n - 87)
      else if 65 \<le> n \<and> n \<le> 70 then Some (n - 55)
      else None)"

definition is_digit :: "nat \<Rightarrow> char \<Rightarrow> bool" where
  "is_digit b c = (case digit_of c of None \<Rightarrow> False | Some d \<Rightarrow> d < b)"

definition digits_value :: "nat \<Rightarrow> string \<Rightarrow> nat" where
  "digits_value b s = foldl (\<lambda>v c. v * b + the (digit_of c)) 0 s"

definition take_sign :: "string \<Rightarrow> bool \<times> string" where
  "take_sign s =
     (case s of
        c # r \<Rightarrow> (if c = CHR ''-'' then (True, r) else if c = CHR ''+'' then (False, r) else (False, s))
      | [] \<Rightarrow> (False, []))"

text \<open>In base 16 a prefix \<open>0x\<close> is skipped when a digit follows it.\<close>

definition drop_prefix :: "nat \<Rightarrow> string \<Rightarrow> string" where
  "drop_prefix b s =
     (case s of
        z # x # c # r \<Rightarrow> (if b = 16 \<and> z = CHR ''0'' \<and> (x = CHR ''x'' \<or> x = CHR ''X'') \<and> is_digit b c then c # r else s)
      | _ \<Rightarrow> s)"

definition sto_ull :: "nat \<Rightarrow> string \<Rightarrow> num_error + u64" where
  "sto_ull b s =
     (case take_sign (dropWhile is_blank s) of (neg, r) \<Rightarrow>
        (let ds = takeWhile (is_digit b) (drop_prefix b r); v = digits_value b ds in
         if ds = [] then Inl NoNumber
         else if v \<ge> 2 ^ 64 then Inl NumRange
         else Inr (if neg then - word_of_nat v else word_of_nat v)))"

section \<open>What is printed reads back\<close>

lemma digit_of_digit_char: "d < 16 \<Longrightarrow> digit_of (digit_char d) = Some d"
proof -
  assume "d < 16"
  then have "d \<in> set [0..<16]" by simp
  then show ?thesis by (auto simp: upt_rec digit_char_def digit_of_def)
qed

lemma is_digit_char: "d < b \<Longrightarrow> b \<le> 16 \<Longrightarrow> is_digit b (digit_char d)"
  by (simp add: is_digit_def digit_of_digit_char)

lemma digits_are_digits: "2 \<le> b \<Longrightarrow> b \<le> 16 \<Longrightarrow> c \<in> set (digits b n) \<Longrightarrow> is_digit b c"
proof (induction b n rule: digits.induct)
  case (1 b n)
  show ?case
  proof (cases "n < b")
    case True
    then have "c = digit_char n" using 1(4) by (simp add: digits.simps[of b n])
    then show ?thesis using True 1(3) by (simp add: is_digit_char)
  next
    case False
    then have "c \<in> set (digits b (n div b)) \<or> c = digit_char (n mod b)" using 1(2,4) by (auto simp: digits.simps[of b n])
    then show ?thesis using 1(1)[OF _ 1(2,3)] False 1(2,3) by (auto intro: is_digit_char)
  qed
qed

lemma digits_nonempty [simp]: "digits b n \<noteq> []"
  by (subst digits.simps) simp

lemma digits_value_snoc [simp]: "digits_value b (s @ [c]) = digits_value b s * b + the (digit_of c)"
  by (simp add: digits_value_def)

lemma digits_value_digits: "2 \<le> b \<Longrightarrow> b \<le> 16 \<Longrightarrow> digits_value b (digits b n) = n"
proof (induction b n rule: digits.induct)
  case (1 b n)
  show ?case
  proof (cases "n < b")
    case True
    then show ?thesis using 1(3) by (simp add: digits.simps[of b n] digits_value_def digit_of_digit_char)
  next
    case False
    then have e: "digits b n = digits b (n div b) @ [digit_char (n mod b)]" using 1(2) by (simp add: digits.simps[of b n])
    have m: "n mod b < 16" using 1(2,3) mod_less_divisor[of b n] by linarith
    have "digits_value b (digits b n) = n div b * b + n mod b"
      using 1(1)[OF _ 1(2,3)] False 1(2) by (simp add: e digit_of_digit_char[OF m])
    then show ?thesis by simp
  qed
qed

text \<open>A digit is neither blank nor a sign, and two digits in a row are no prefix.\<close>

lemma digit_not_special: "is_digit b c \<Longrightarrow> \<not> is_blank c \<and> c \<noteq> CHR ''-'' \<and> c \<noteq> CHR ''+'' \<and> c \<noteq> CHR ''x'' \<and> c \<noteq> CHR ''X''"
  by (auto simp: is_digit_def digit_of_def is_blank_def split: if_splits)

lemma take_digits:
  assumes "\<forall>c \<in> set ds. is_digit b c" and "case rest of [] \<Rightarrow> True | c # _ \<Rightarrow> \<not> is_digit b c"
  shows "takeWhile (is_digit b) (ds @ rest) = ds"
  using assms by (induction ds) (auto split: list.splits)

lemma sto_ull_digits:
  assumes b: "2 \<le> b" "b \<le> 16" and n: "n < 2 ^ 64"
    and ws: "\<forall>c \<in> set ws. is_blank c" and rest: "case rest of [] \<Rightarrow> True | c # _ \<Rightarrow> \<not> is_digit b c"
    and pre: "case rest of c # _ \<Rightarrow> c \<noteq> CHR ''x'' \<and> c \<noteq> CHR ''X'' | [] \<Rightarrow> True"
  shows "sto_ull b (ws @ digits b n @ rest) = Inr (word_of_nat n)"
proof -
  obtain d ds where d: "digits b n = d # ds" by (cases "digits b n") auto
  have dg: "\<forall>c \<in> set (d # ds). is_digit b c" using digits_are_digits[OF b, of _ n] d by auto
  have nd: "\<not> is_blank d" "d \<noteq> CHR ''-''" "d \<noteq> CHR ''+''" using dg digit_not_special[of b d] by auto
  have "dropWhile is_blank (ws @ digits b n @ rest) = digits b n @ rest"
    using ws nd(1) by (induction ws) (simp_all add: d)
  moreover have "take_sign (digits b n @ rest) = (False, digits b n @ rest)" using nd by (simp add: take_sign_def d)
  moreover have "drop_prefix b (digits b n @ rest) = digits b n @ rest"
  proof -
    have "x \<noteq> CHR ''x'' \<and> x \<noteq> CHR ''X''" if "ds @ rest = x # r" for x r
      using that dg digit_not_special[of b x] pre by (cases ds) auto
    then show ?thesis by (auto simp: drop_prefix_def d split: list.splits)
  qed
  moreover have "takeWhile (is_digit b) (digits b n @ rest) = digits b n"
    using take_digits[OF _ rest] dg d by metis
  ultimately show ?thesis using n digits_value_digits[OF b, of n] by (simp add: sto_ull_def Let_def)
qed

text \<open>With the prefix of base 16.\<close>

lemma sto_ull_hex:
  assumes n: "n < 2 ^ 64" and rest: "case rest of [] \<Rightarrow> True | c # _ \<Rightarrow> \<not> is_digit 16 c"
  shows "sto_ull 16 (''0x'' @ hex n @ rest) = Inr (word_of_nat n)"
proof -
  obtain d ds where d: "digits 16 n = d # ds" by (cases "digits 16 n") auto
  have dg: "\<forall>c \<in> set (d # ds). is_digit 16 c" using digits_are_digits[of 16 _ n] d by auto
  have "dropWhile is_blank (''0x'' @ hex n @ rest) = ''0x'' @ hex n @ rest" by (simp add: is_blank_def)
  moreover have "take_sign (''0x'' @ hex n @ rest) = (False, ''0x'' @ hex n @ rest)" by (simp add: take_sign_def)
  moreover have "drop_prefix 16 (''0x'' @ hex n @ rest) = hex n @ rest"
    using dg by (simp add: drop_prefix_def hex_def d)
  moreover have "takeWhile (is_digit 16) (hex n @ rest) = hex n"
    using take_digits[OF _ rest, of "digits 16 n"] dg d by (simp add: hex_def)
  ultimately show ?thesis using n digits_value_digits[of 16 n] by (simp add: sto_ull_def Let_def hex_def)
qed

section \<open>Signed integers\<close>

text \<open>\<open>std::stoi\<close>: the value must fit an \<open>int\<close>.\<close>

definition stoi :: "string \<Rightarrow> num_error + int" where
  "stoi s =
     (case take_sign (dropWhile is_blank s) of (neg, r) \<Rightarrow>
        (let ds = takeWhile (is_digit 10) r; v = (if neg then - int (digits_value 10 ds) else int (digits_value 10 ds)) in
         if ds = [] then Inl NoNumber
         else if v < - (2 ^ 31) \<or> 2 ^ 31 \<le> v then Inl NumRange
         else Inr v))"

lemma stoi_range: "stoi s = Inr v \<Longrightarrow> - (2 ^ 31) \<le> v \<and> v < 2 ^ 31"
  by (auto simp: stoi_def Let_def split: prod.splits if_splits)

lemma stoi_dec:
  assumes "n < 2 ^ 31"
  shows "stoi (dec n) = Inr (int n)"
proof -
  obtain d ds where d: "digits 10 n = d # ds" by (cases "digits 10 n") auto
  have dg: "\<forall>c \<in> set (d # ds). is_digit 10 c" using digits_are_digits[of 10 _ n] d by auto
  have nd: "\<not> is_blank d" "d \<noteq> CHR ''-''" "d \<noteq> CHR ''+''" using dg digit_not_special[of 10 d] by auto
  have "dropWhile is_blank (digits 10 n) = digits 10 n" using nd by (simp add: d)
  moreover have "take_sign (digits 10 n) = (False, digits 10 n)" using nd by (simp add: take_sign_def d)
  moreover have "takeWhile (is_digit 10) (digits 10 n) = digits 10 n" using dg d by simp
  ultimately show ?thesis using assms digits_value_digits[of 10 n]
    by (simp add: stoi_def dec_def Let_def takeWhile_eq_all_conv[THEN iffD2])
qed

end
