(* ===== verification/Bench_Params.thy ===== *)
theory Bench_Params
  imports Number_Text
begin

text \<open>
  The options of the benchmark program (\<open>src/bench\<close>): the command line becomes pairs of key and value, and each
  benchmark takes the keys it knows. A value \<open>std::stoi\<close> refuses is skipped, a later pair overrides an earlier one, and
  what is out of range is corrected at the end, so a benchmark never runs with parameters outside the ranges below.
\<close>

section \<open>The command line\<close>

type_synonym bench_args = "(string \<times> string) list"

text \<open>Arguments are read in pairs; a pair whose first word does not begin with two dashes is skipped, a last single one too.\<close>

fun read_pairs :: "string list \<Rightarrow> bench_args" where
  "read_pairs (k # v # rest) =
     (if length k \<ge> 2 \<and> take 2 k = ''--'' then (drop 2 k, v) # read_pairs rest else read_pairs rest)"
| "read_pairs _ = []"

definition extractArg :: "bench_args \<Rightarrow> string \<Rightarrow> string" where
  "extractArg args key = (case List.find (\<lambda>kv. fst kv = key) args of None \<Rightarrow> [] | Some kv \<Rightarrow> snd kv)"

section \<open>Numbers\<close>

text \<open>An assignment from \<open>stoi\<close> or \<open>stoul\<close> inside the \<open>try\<close> block: an exception leaves the member as it was.\<close>

definition set_int :: "string \<Rightarrow> (int \<Rightarrow> 'p) \<Rightarrow> 'p \<Rightarrow> 'p" where
  "set_int v f p = (case stoi v of Inl _ \<Rightarrow> p | Inr i \<Rightarrow> f i)"

definition set_size :: "string \<Rightarrow> (u64 \<Rightarrow> 'p) \<Rightarrow> 'p \<Rightarrow> 'p" where
  "set_size v f p = (case sto_ull 10 v of Inl _ \<Rightarrow> p | Inr n \<Rightarrow> f n)"

definition at_least :: "int \<Rightarrow> int \<Rightarrow> int" where
  "at_least lo x = (if x < lo then lo else x)"

section \<open>Throughput\<close>

record throughput_params =
  tp_workers :: int
  tp_actors :: int
  tp_iterations :: int
  tp_maxbatch :: int
  tp_warmup :: int
  tp_producers :: int
  tp_parkSpinNs :: int
  tp_tokenGraceNs :: int
  tp_mailbox :: u64

definition throughput_default :: throughput_params where
  "throughput_default = \<lparr>tp_workers = 4, tp_actors = 1, tp_iterations = 100000, tp_maxbatch = 32, tp_warmup = 0,
     tp_producers = 1, tp_parkSpinNs = -1, tp_tokenGraceNs = -1, tp_mailbox = 0\<rparr>"

definition throughput_entry :: "throughput_params \<Rightarrow> string \<times> string \<Rightarrow> throughput_params" where
  "throughput_entry p kv =
     (case kv of (k, v) \<Rightarrow>
        if k = ''workers'' then set_int v (\<lambda>i. p\<lparr>tp_workers := i\<rparr>) p
        else if k = ''actors'' then set_int v (\<lambda>i. p\<lparr>tp_actors := i\<rparr>) p
        else if k = ''iterations'' then set_int v (\<lambda>i. p\<lparr>tp_iterations := i\<rparr>) p
        else if k = ''maxbatch'' then set_int v (\<lambda>i. p\<lparr>tp_maxbatch := i\<rparr>) p
        else if k = ''warmup'' then set_int v (\<lambda>i. p\<lparr>tp_warmup := i\<rparr>) p
        else if k = ''producers'' then set_int v (\<lambda>i. p\<lparr>tp_producers := i\<rparr>) p
        else if k = ''park-spin-ns'' then set_int v (\<lambda>i. p\<lparr>tp_parkSpinNs := i\<rparr>) p
        else if k = ''token-grace-ns'' then set_int v (\<lambda>i. p\<lparr>tp_tokenGraceNs := i\<rparr>) p
        else if k = ''mailbox'' then set_size v (\<lambda>n. p\<lparr>tp_mailbox := n\<rparr>) p
        else p)"

definition throughput_parse :: "bench_args \<Rightarrow> throughput_params" where
  "throughput_parse args =
     (let p = foldl throughput_entry throughput_default args;
          iterations = at_least 1 (tp_iterations p); actors = at_least 1 (tp_actors p)
      in p\<lparr>tp_workers := at_least 1 (tp_workers p), tp_iterations := iterations, tp_maxbatch := at_least 1 (tp_maxbatch p),
           tp_actors := (if actors > iterations then iterations else actors), tp_warmup := at_least 0 (tp_warmup p),
           tp_producers := at_least 1 (tp_producers p)\<rparr>)"

section \<open>Latency and contention\<close>

record latency_params =
  la_workers :: int
  la_iterations :: int
  la_maxbatch :: int
  la_warmup :: int
  la_mailbox :: u64

definition latency_default :: latency_params where
  "latency_default = \<lparr>la_workers = 4, la_iterations = 100000, la_maxbatch = 32, la_warmup = 0, la_mailbox = 0\<rparr>"

definition latency_entry :: "latency_params \<Rightarrow> string \<times> string \<Rightarrow> latency_params" where
  "latency_entry p kv =
     (case kv of (k, v) \<Rightarrow>
        if k = ''workers'' then set_int v (\<lambda>i. p\<lparr>la_workers := i\<rparr>) p
        else if k = ''iterations'' then set_int v (\<lambda>i. p\<lparr>la_iterations := i\<rparr>) p
        else if k = ''maxbatch'' then set_int v (\<lambda>i. p\<lparr>la_maxbatch := i\<rparr>) p
        else if k = ''warmup'' then set_int v (\<lambda>i. p\<lparr>la_warmup := i\<rparr>) p
        else if k = ''mailbox'' then set_size v (\<lambda>n. p\<lparr>la_mailbox := n\<rparr>) p
        else p)"

definition latency_parse :: "bench_args \<Rightarrow> latency_params" where
  "latency_parse args =
     (let p = foldl latency_entry latency_default args in
      p\<lparr>la_workers := at_least 1 (la_workers p), la_iterations := at_least 1 (la_iterations p),
        la_maxbatch := at_least 1 (la_maxbatch p), la_warmup := at_least 0 (la_warmup p)\<rparr>)"

record contention_params =
  ct_workers :: int
  ct_producers :: int
  ct_iterations :: int
  ct_maxbatch :: int
  ct_warmup :: int
  ct_mailbox :: u64

definition contention_default :: contention_params where
  "contention_default = \<lparr>ct_workers = 4, ct_producers = 8, ct_iterations = 10000, ct_maxbatch = 32, ct_warmup = 0, ct_mailbox = 0\<rparr>"

definition contention_entry :: "contention_params \<Rightarrow> string \<times> string \<Rightarrow> contention_params" where
  "contention_entry p kv =
     (case kv of (k, v) \<Rightarrow>
        if k = ''workers'' then set_int v (\<lambda>i. p\<lparr>ct_workers := i\<rparr>) p
        else if k = ''producers'' then set_int v (\<lambda>i. p\<lparr>ct_producers := i\<rparr>) p
        else if k = ''iterations'' then set_int v (\<lambda>i. p\<lparr>ct_iterations := i\<rparr>) p
        else if k = ''maxbatch'' then set_int v (\<lambda>i. p\<lparr>ct_maxbatch := i\<rparr>) p
        else if k = ''warmup'' then set_int v (\<lambda>i. p\<lparr>ct_warmup := i\<rparr>) p
        else if k = ''mailbox'' then set_size v (\<lambda>n. p\<lparr>ct_mailbox := n\<rparr>) p
        else p)"

definition contention_parse :: "bench_args \<Rightarrow> contention_params" where
  "contention_parse args =
     (let p = foldl contention_entry contention_default args in
      p\<lparr>ct_workers := at_least 1 (ct_workers p), ct_producers := at_least 1 (ct_producers p),
        ct_iterations := at_least 1 (ct_iterations p), ct_maxbatch := at_least 1 (ct_maxbatch p),
        ct_warmup := at_least 0 (ct_warmup p)\<rparr>)"

section \<open>Scaling, back pressure and the scheduler\<close>

record scaling_params =
  sp_actors :: int
  sp_workers :: int
  sp_iterations :: int
  sp_maxbatch :: int
  sp_warmup :: int
  sp_scaleMax :: int
  sp_busyStealUs :: int
  sp_idleStealUs :: int
  sp_producers :: int

definition scaling_default :: scaling_params where
  "scaling_default = \<lparr>sp_actors = 16, sp_workers = 16, sp_iterations = 200000, sp_maxbatch = 32, sp_warmup = 1,
     sp_scaleMax = 64, sp_busyStealUs = -1, sp_idleStealUs = -1, sp_producers = 1\<rparr>"

definition scaling_entry :: "scaling_params \<Rightarrow> string \<times> string \<Rightarrow> scaling_params" where
  "scaling_entry p kv =
     (case kv of (k, v) \<Rightarrow>
        if k = ''actors'' then set_int v (\<lambda>i. p\<lparr>sp_actors := i\<rparr>) p
        else if k = ''workers'' then set_int v (\<lambda>i. p\<lparr>sp_workers := i\<rparr>) p
        else if k = ''iterations'' then set_int v (\<lambda>i. p\<lparr>sp_iterations := i\<rparr>) p
        else if k = ''maxbatch'' then set_int v (\<lambda>i. p\<lparr>sp_maxbatch := i\<rparr>) p
        else if k = ''warmup'' then set_int v (\<lambda>i. p\<lparr>sp_warmup := i\<rparr>) p
        else if k = ''scale-max'' then set_int v (\<lambda>i. p\<lparr>sp_scaleMax := i\<rparr>) p
        else if k = ''busy-steal-us'' then set_int v (\<lambda>i. p\<lparr>sp_busyStealUs := i\<rparr>) p
        else if k = ''idle-steal-us'' then set_int v (\<lambda>i. p\<lparr>sp_idleStealUs := i\<rparr>) p
        else if k = ''producers'' then set_int v (\<lambda>i. p\<lparr>sp_producers := i\<rparr>) p
        else p)"

definition scaling_parse :: "bench_args \<Rightarrow> scaling_params" where
  "scaling_parse args =
     (let p = foldl scaling_entry scaling_default args in
      p\<lparr>sp_actors := at_least 1 (sp_actors p), sp_workers := at_least 1 (sp_workers p),
        sp_iterations := at_least 1 (sp_iterations p), sp_maxbatch := at_least 1 (sp_maxbatch p),
        sp_warmup := at_least 0 (sp_warmup p), sp_scaleMax := at_least 1 (sp_scaleMax p),
        sp_producers := at_least 1 (sp_producers p)\<rparr>)"

record backpressure_params =
  bp_workers :: int
  bp_maxbatch :: int
  bp_warmup :: int
  bp_mailbox :: u64
  bp_floodRate :: int
  bp_floodDurationMs :: int
  bp_floodThreads :: int
  bp_mode :: int

definition backpressure_default :: backpressure_params where
  "backpressure_default = \<lparr>bp_workers = 4, bp_maxbatch = 32, bp_warmup = 0, bp_mailbox = 64, bp_floodRate = 1000,
     bp_floodDurationMs = 100, bp_floodThreads = 1, bp_mode = 0\<rparr>"

definition backpressure_entry :: "backpressure_params \<Rightarrow> string \<times> string \<Rightarrow> backpressure_params" where
  "backpressure_entry p kv =
     (case kv of (k, v) \<Rightarrow>
        if k = ''workers'' then set_int v (\<lambda>i. p\<lparr>bp_workers := i\<rparr>) p
        else if k = ''maxbatch'' then set_int v (\<lambda>i. p\<lparr>bp_maxbatch := i\<rparr>) p
        else if k = ''warmup'' then set_int v (\<lambda>i. p\<lparr>bp_warmup := i\<rparr>) p
        else if k = ''mailbox'' then set_size v (\<lambda>n. p\<lparr>bp_mailbox := n\<rparr>) p
        else if k = ''flood-rate'' then set_int v (\<lambda>i. p\<lparr>bp_floodRate := i\<rparr>) p
        else if k = ''flood-duration'' then set_int v (\<lambda>i. p\<lparr>bp_floodDurationMs := i\<rparr>) p
        else if k = ''flood-threads'' then set_int v (\<lambda>i. p\<lparr>bp_floodThreads := i\<rparr>) p
        else if k = ''mode'' then set_int v (\<lambda>i. p\<lparr>bp_mode := i\<rparr>) p
        else p)"

definition backpressure_parse :: "bench_args \<Rightarrow> backpressure_params" where
  "backpressure_parse args =
     (let p = foldl backpressure_entry backpressure_default args in
      p\<lparr>bp_workers := at_least 1 (bp_workers p), bp_warmup := at_least 0 (bp_warmup p),
        bp_mailbox := (if bp_mailbox p < 1 then 64 else bp_mailbox p),
        bp_floodRate := (if bp_floodRate p < 1 then 1000 else bp_floodRate p),
        bp_floodDurationMs := (if bp_floodDurationMs p < 1 then 100 else bp_floodDurationMs p),
        bp_floodThreads := at_least 1 (bp_floodThreads p),
        bp_mode := (if bp_mode p < 0 \<or> bp_mode p > 2 then 0 else bp_mode p)\<rparr>)"

record scheduler_params =
  sd_workers :: int
  sd_maxbatch :: int
  sd_warmup :: int
  sd_intervalMs :: int
  sd_durationMs :: int

definition scheduler_default :: scheduler_params where
  "scheduler_default = \<lparr>sd_workers = 4, sd_maxbatch = 32, sd_warmup = 0, sd_intervalMs = 100, sd_durationMs = 5000\<rparr>"

definition scheduler_entry :: "scheduler_params \<Rightarrow> string \<times> string \<Rightarrow> scheduler_params" where
  "scheduler_entry p kv =
     (case kv of (k, v) \<Rightarrow>
        if k = ''workers'' then set_int v (\<lambda>i. p\<lparr>sd_workers := i\<rparr>) p
        else if k = ''maxbatch'' then set_int v (\<lambda>i. p\<lparr>sd_maxbatch := i\<rparr>) p
        else if k = ''warmup'' then set_int v (\<lambda>i. p\<lparr>sd_warmup := i\<rparr>) p
        else if k = ''interval'' then set_int v (\<lambda>i. p\<lparr>sd_intervalMs := i\<rparr>) p
        else if k = ''duration'' then set_int v (\<lambda>i. p\<lparr>sd_durationMs := i\<rparr>) p
        else p)"

definition scheduler_parse :: "bench_args \<Rightarrow> scheduler_params" where
  "scheduler_parse args =
     (let p = foldl scheduler_entry scheduler_default args in
      p\<lparr>sd_workers := at_least 1 (sd_workers p), sd_maxbatch := at_least 1 (sd_maxbatch p),
        sd_warmup := at_least 0 (sd_warmup p), sd_intervalMs := at_least 1 (sd_intervalMs p),
        sd_durationMs := (if sd_durationMs p < 1 then 1000 else sd_durationMs p)\<rparr>)"

section \<open>Properties\<close>

lemma read_pairs_back: "read_pairs (concat (map (\<lambda>(k, v). [''--'' @ k, v]) args)) = args"
  by (induction args) auto

lemma set_int_dec: "n < 2 ^ 31 \<Longrightarrow> set_int (dec n) f p = f (int n)"
  by (simp add: set_int_def stoi_dec)

text \<open>Every member an option can set stays within \<open>int\<close>, whatever the options are.\<close>

definition int_ok :: "int \<Rightarrow> bool" where "int_ok i \<longleftrightarrow> - (2 ^ 31) \<le> i \<and> i < 2 ^ 31"

lemma set_int_keeps: "P p \<Longrightarrow> (\<And>i. int_ok i \<Longrightarrow> P (f i)) \<Longrightarrow> P (set_int v f p)"
  by (auto simp: set_int_def int_ok_def dest: stoi_range split: sum.split)

lemma set_size_keeps: "P p \<Longrightarrow> (\<And>n. P (f n)) \<Longrightarrow> P (set_size v f p)"
  by (simp add: set_size_def split: sum.split)

lemma if_keeps: "P x \<Longrightarrow> P y \<Longrightarrow> P (if b then x else y)"
  by simp

lemma foldl_keeps: "P s \<Longrightarrow> (\<And>s x. P s \<Longrightarrow> P (f s x)) \<Longrightarrow> P (foldl f s xs)"
  by (induction xs arbitrary: s) auto

lemma at_least_range: "int_ok i \<Longrightarrow> lo < 2 ^ 31 \<Longrightarrow> lo \<le> at_least lo i \<and> at_least lo i < 2 ^ 31"
  by (simp add: at_least_def int_ok_def)

definition throughput_ints :: "throughput_params \<Rightarrow> bool" where
  "throughput_ints p \<longleftrightarrow> int_ok (tp_workers p) \<and> int_ok (tp_actors p) \<and> int_ok (tp_iterations p) \<and> int_ok (tp_maxbatch p) \<and>
     int_ok (tp_warmup p) \<and> int_ok (tp_producers p)"

lemma throughput_ints_fold: "throughput_ints (foldl throughput_entry throughput_default args)"
proof (rule foldl_keeps)
  show "throughput_ints (throughput_entry p kv)" if p: "throughput_ints p" for p kv
  proof -
    obtain k v where kv: "kv = (k, v)" by (cases kv)
    show ?thesis unfolding kv throughput_entry_def prod.case
      by (intro if_keeps[where P = throughput_ints] set_int_keeps[where P = throughput_ints]
          set_size_keeps[where P = throughput_ints] p) (use p in \<open>simp_all add: throughput_ints_def\<close>)
  qed
qed (simp add: throughput_ints_def throughput_default_def int_ok_def)

theorem throughput_params_in_range:
  "1 \<le> tp_workers (throughput_parse args) \<and> 1 \<le> tp_maxbatch (throughput_parse args) \<and> 0 \<le> tp_warmup (throughput_parse args) \<and>
   1 \<le> tp_producers (throughput_parse args) \<and> 1 \<le> tp_actors (throughput_parse args) \<and>
   tp_actors (throughput_parse args) \<le> tp_iterations (throughput_parse args) \<and> tp_iterations (throughput_parse args) < 2 ^ 31"
  using throughput_ints_fold[of args]
  by (simp add: throughput_parse_def Let_def throughput_ints_def at_least_def int_ok_def)

text \<open>The last value given for a key is the one that counts.\<close>

theorem last_option_wins:
  assumes "1 \<le> n" and "n < 2 ^ 31"
  shows "tp_workers (throughput_parse (args @ [(''workers'', dec n)])) = int n"
  using assms by (simp add: throughput_parse_def throughput_entry_def set_int_dec at_least_def Let_def)

text \<open>\<open>maxbatch\<close> is corrected by every benchmark but the one for back pressure.\<close>

lemma backpressure_maxbatch_unchecked:
  "bp_maxbatch (backpressure_parse [(''maxbatch'', ''0'')]) = 0"
proof -
  have "stoi ''0'' = Inr 0" by code_simp
  then show ?thesis
    by (simp add: backpressure_parse_def backpressure_entry_def backpressure_default_def set_int_def Let_def)
qed

lemma backpressure_params_in_range:
  "1 \<le> bp_floodRate (backpressure_parse args) \<and> 1 \<le> bp_floodDurationMs (backpressure_parse args) \<and>
   bp_mailbox (backpressure_parse args) \<noteq> 0 \<and> 0 \<le> bp_mode (backpressure_parse args) \<and> bp_mode (backpressure_parse args) \<le> 2 \<and>
   1 \<le> bp_workers (backpressure_parse args)"
  by (simp add: backpressure_parse_def Let_def at_least_def not_less)

end
