(* ===== verification/Bench_Load.thy ===== *)
theory Bench_Load
  imports Bench_Params Bounded_Queue "HOL-Library.Multiset"
begin

text \<open>
  What the benchmarks do and measure (\<open>src/bench/src\<close>): how a number of messages is split among producer threads and
  spread over actors, how a mailbox is flooded, the percentiles of the measured times, and the sweep of the scaling
  benchmark with its check that no message was lost. Times and the counters of a run are arguments: they are what the
  actor system under test answers.
\<close>

section \<open>Publishing\<close>

text \<open>\<open>publishMessages\<close>: producer \<open>k\<close> sends \<open>producer_count\<close> messages, the first to actor \<open>producer_begin\<close> modulo their number.\<close>

definition producer_begin :: "nat \<Rightarrow> nat \<Rightarrow> nat \<Rightarrow> nat" where
  "producer_begin iterations producers k = k * (iterations div producers) + min k (iterations mod producers)"

definition producer_count :: "nat \<Rightarrow> nat \<Rightarrow> nat \<Rightarrow> nat" where
  "producer_count iterations producers k = iterations div producers + (if k < iterations mod producers then 1 else 0)"

definition producer_targets :: "nat \<Rightarrow> nat \<Rightarrow> nat \<Rightarrow> nat \<Rightarrow> nat list" where
  "producer_targets iterations producers actors k =
     map (\<lambda>n. (producer_begin iterations producers k + n) mod actors) [0..<producer_count iterations producers k]"

text \<open>The mailbox of an actor: what was asked for, or room for its share and 256 more.\<close>

definition bench_mailbox :: "nat \<Rightarrow> nat \<Rightarrow> nat \<Rightarrow> nat" where
  "bench_mailbox mailbox iterations actors = (if mailbox > 0 then mailbox else iterations div actors + 256)"

lemma producer_next:
  "producer_begin iterations producers (Suc k) = producer_begin iterations producers k + producer_count iterations producers k"
  by (simp add: producer_begin_def producer_count_def min_def)

lemma producers_tile:
  "concat (map (\<lambda>k. [producer_begin i p k..<producer_begin i p k + producer_count i p k]) [0..<K]) = [0..<producer_begin i p K]"
proof (induction K)
  case (Suc K)
  then show ?case using upt_add_eq_append[of 0 "producer_begin i p K" "producer_count i p K"] by (simp add: producer_next)
qed (simp add: producer_begin_def)

lemma producers_end: "0 < p \<Longrightarrow> producer_begin i p p = i"
proof -
  assume "0 < p"
  then have "min p (i mod p) = i mod p" by (simp add: less_imp_le)
  then show ?thesis by (simp add: producer_begin_def)
qed

lemma published: "0 < p \<Longrightarrow> concat (map (producer_targets i p a) [0..<p]) = map (\<lambda>m. m mod a) [0..<i]"
proof -
  assume p: "0 < p"
  have "producer_targets i p a = (\<lambda>k. map (\<lambda>m. m mod a) [producer_begin i p k..<producer_begin i p k + producer_count i p k])"
    by (rule ext, rule nth_equalityI) (simp_all add: producer_targets_def)
  then have "concat (map (producer_targets i p a) [0..<p]) =
      map (\<lambda>m. m mod a) (concat (map (\<lambda>k. [producer_begin i p k..<producer_begin i p k + producer_count i p k]) [0..<p]))"
    by (simp add: map_concat comp_def)
  then show ?thesis by (simp add: producers_tile producers_end[OF p])
qed

lemma count_mod:
  assumes "j < a"
  shows "count_list (map (\<lambda>m. m mod a) [0..<i]) j = i div a + (if j < i mod a then 1 else 0)"
proof (induction i)
  case (Suc i)
  have "i mod a < a" using assms by simp
  then show ?case using Suc assms by (auto simp: div_Suc mod_Suc)
qed (use assms in simp)

section \<open>Messages and mailboxes\<close>

text \<open>
  A run as the mailboxes see it: messages published to actors, and messages taken out by workers, in any order. \<open>run_load\<close>
  answers for each publishing whether the mailbox accepted it.
\<close>

datatype load_op = Publish nat | Take nat

fun run_load :: "unit bq list \<Rightarrow> load_op list \<Rightarrow> bool list" where
  "run_load qs [] = []"
| "run_load qs (Publish a # ops) = (case bq_push (qs ! a) () of (q, ok) \<Rightarrow> ok # run_load (qs[a := q]) ops)"
| "run_load qs (Take a # ops) = run_load (qs[a := fst (bq_pop (qs ! a))]) ops"

definition publishes :: "load_op list \<Rightarrow> nat list" where
  "publishes ops = concat (map (\<lambda>op. case op of Publish a \<Rightarrow> [a] | Take _ \<Rightarrow> []) ops)"

lemma publishes_simps [simp]:
  "publishes [] = []" "publishes (Publish a # ops) = a # publishes ops" "publishes (Take a # ops) = publishes ops"
  by (simp_all add: publishes_def)

lemma run_load_accepts:
  assumes "\<forall>a < length qs. length (bq_items (qs ! a)) + count_list (publishes ops) a \<le> bq_cap (qs ! a)"
    and "\<forall>a \<in> set (publishes ops). a < length qs"
  shows "\<forall>ok \<in> set (run_load qs ops). ok"
  using assms
proof (induction qs ops rule: run_load.induct)
  case (2 qs a ops)
  have a: "a < length qs" using 2(3) by simp
  then have "length (bq_items (qs ! a)) + 1 + count_list (publishes ops) a \<le> bq_cap (qs ! a)" using 2(2) by fastforce
  then have p: "bq_push (qs ! a) () = ((qs ! a)\<lparr>bq_items := bq_items (qs ! a) @ [()]\<rparr>, True)" by (simp add: bq_push_def)
  have "\<forall>ok \<in> set (run_load (qs[a := (qs ! a)\<lparr>bq_items := bq_items (qs ! a) @ [()]\<rparr>]) ops). ok"
    by (rule 2(1)[OF p[symmetric]]) (use 2(2,3) in \<open>auto simp: nth_list_update split: if_splits\<close>)
  then show ?case by (simp add: p)
next
  case (3 qs a ops)
  have "bq_cap (fst (bq_pop q)) = bq_cap q \<and> length (bq_items (fst (bq_pop q))) \<le> length (bq_items q)" for q :: "unit bq"
    by (simp add: bq_pop_def split: list.split)
  note k = this
  have "length (bq_items (qs[a := fst (bq_pop (qs ! a))] ! b)) + count_list (publishes ops) b
      \<le> bq_cap (qs[a := fst (bq_pop (qs ! a))] ! b)" if b: "b < length qs" for b
  proof -
    have "length (bq_items (qs ! b)) + count_list (publishes ops) b \<le> bq_cap (qs ! b)" using 3(2) b by simp
    then show ?thesis using k[of "qs ! b"] b by (cases "b = a") simp_all
  qed
  then show ?case using 3(1,3) by simp
qed simp

theorem no_benchmark_message_is_refused:
  assumes "0 < producers" and "0 < actors" and "bench_mailbox 0 iterations actors = mailbox"
    and "mset (publishes ops) = mset (concat (map (producer_targets iterations producers actors) [0..<producers]))"
  shows "\<forall>ok \<in> set (run_load (replicate actors \<lparr>bq_items = [], bq_cap = mailbox\<rparr>) ops). ok"
proof (rule run_load_accepts)
  note P = assms(4)[unfolded published[OF assms(1)]]
  have "count_list (publishes ops) a \<le> mailbox" if "a < actors" for a
  proof -
    have "count_list (publishes ops) a = count_list (map (\<lambda>m. m mod actors) [0..<iterations]) a"
      using P by (metis count_mset)
    then show ?thesis using count_mod[OF that, of iterations] assms(3) by (simp add: bench_mailbox_def)
  qed
  then show "\<forall>a < length (replicate actors \<lparr>bq_items = [], bq_cap = mailbox\<rparr>).
      length (bq_items (replicate actors \<lparr>bq_items = [], bq_cap = mailbox\<rparr> ! a)) + count_list (publishes ops) a
      \<le> bq_cap (replicate actors \<lparr>bq_items = [], bq_cap = mailbox\<rparr> ! a)" by simp
  have "set (publishes ops) = (\<lambda>m. m mod actors) ` {0..<iterations}" using mset_eq_setD[OF P] by simp
  then show "\<forall>a \<in> set (publishes ops). a < length (replicate actors \<lparr>bq_items = [], bq_cap = mailbox\<rparr>)"
    using assms(2) by auto
qed

section \<open>Flooding one mailbox\<close>

text \<open>
  The back-pressure benchmark sends as fast as it can to one actor, looks at the mailbox count before each message, and
  counts what it sent and what it held back. \<open>taken k\<close> tells, for the \<open>k\<close>-th look, how many messages the workers have
  taken out of the mailbox since the look before and how many they have finished.
\<close>

record flood =
  fd_count :: nat
  fd_sent :: nat
  fd_dropped :: nat
  fd_busy :: nat
  fd_processed :: nat

definition flood_new :: flood where
  "flood_new = \<lparr>fd_count = 0, fd_sent = 0, fd_dropped = 0, fd_busy = 0, fd_processed = 0\<rparr>"

definition flood_look :: "nat \<times> nat \<Rightarrow> flood \<Rightarrow> flood" where
  "flood_look taken f =
     (let n = min (fst taken) (fd_count f); k = min (snd taken) (fd_busy f + n)
      in f\<lparr>fd_count := fd_count f - n, fd_busy := fd_busy f + n - k, fd_processed := fd_processed f + k\<rparr>)"

definition flood_send :: "nat \<Rightarrow> nat \<times> nat \<Rightarrow> flood \<Rightarrow> flood" where
  "flood_send cap taken f0 =
     (let f = flood_look taken f0 in
      if fd_count f < cap then f\<lparr>fd_count := fd_count f + 1, fd_sent := fd_sent f + 1\<rparr>
      else f\<lparr>fd_dropped := fd_dropped f + 1\<rparr>)"

text \<open>Filling before the start sends without a look: to four fifths of the capacity, whatever the number of messages.\<close>

definition flood_fill :: "flood \<Rightarrow> flood" where
  "flood_fill f = f\<lparr>fd_count := fd_count f + 1, fd_sent := fd_sent f + 1\<rparr>"

definition flood_target :: "nat \<Rightarrow> nat" where "flood_target cap = cap * 80 div 100"

definition flood_total :: "backpressure_params \<Rightarrow> nat" where
  "flood_total p = nat (max 1 (bp_floodRate p * bp_floodDurationMs p))"

text \<open>
  The three modes: flood running workers from empty, fill before the workers start, start nearly full and flood on.
\<close>

definition flood_empty_start :: "nat \<Rightarrow> nat \<Rightarrow> (nat \<Rightarrow> nat \<times> nat) \<Rightarrow> flood" where
  "flood_empty_start cap toSend taken = fold (\<lambda>i. flood_send cap (taken i)) [0..<toSend] flood_new"

definition flood_prefill :: "nat \<Rightarrow> nat \<Rightarrow> flood" where
  "flood_prefill cap toSend = fold (\<lambda>i. flood_send cap (0, 0)) [0..<toSend] flood_new"

definition flood_nearly_full :: "nat \<Rightarrow> nat \<Rightarrow> (nat \<Rightarrow> nat \<times> nat) \<Rightarrow> flood" where
  "flood_nearly_full cap toSend taken =
     fold (\<lambda>i. flood_send cap (taken i)) [flood_target cap..<toSend] (fold (\<lambda>i. flood_fill) [0..<flood_target cap] flood_new)"

definition flood_run :: "int \<Rightarrow> nat \<Rightarrow> nat \<Rightarrow> (nat \<Rightarrow> nat \<times> nat) \<Rightarrow> flood" where
  "flood_run mode cap toSend taken =
     (if mode = 0 then flood_empty_start cap toSend taken
      else if mode = 1 then flood_prefill cap toSend
      else flood_nearly_full cap toSend taken)"

lemmas flood_run_modes = flood_run_def flood_empty_start_def flood_prefill_def flood_nearly_full_def

text \<open>What the run reports: sent, dropped and the backlog when draining starts.\<close>

definition flood_backlog :: "flood \<Rightarrow> nat" where "flood_backlog f = fd_sent f - fd_processed f"

definition flood_ok :: "nat \<Rightarrow> flood \<Rightarrow> bool" where
  "flood_ok cap f \<longleftrightarrow> fd_count f \<le> cap \<and> fd_processed f + fd_busy f + fd_count f = fd_sent f"

lemma flood_send_ok:
  "flood_ok cap f \<Longrightarrow> flood_ok cap (flood_send cap taken f) \<and>
     fd_sent (flood_send cap taken f) + fd_dropped (flood_send cap taken f) = Suc (fd_sent f + fd_dropped f)"
  by (auto simp: flood_ok_def flood_send_def flood_look_def Let_def)

lemma flood_sends_ok:
  "flood_ok cap f \<Longrightarrow> flood_ok cap (fold (\<lambda>i. flood_send cap (taken i)) is f) \<and>
     fd_sent (fold (\<lambda>i. flood_send cap (taken i)) is f) + fd_dropped (fold (\<lambda>i. flood_send cap (taken i)) is f) =
     length is + fd_sent f + fd_dropped f"
proof (induction "is" arbitrary: f)
  case (Cons i "is")
  then show ?case using flood_send_ok[OF Cons.prems, of "taken i"] by auto
qed simp

lemma flood_fills:
  "fold (\<lambda>i. flood_fill) [0..<n] flood_new = \<lparr>fd_count = n, fd_sent = n, fd_dropped = 0, fd_busy = 0, fd_processed = 0\<rparr>"
  by (induction n) (simp_all add: flood_fill_def flood_new_def)

text \<open>
  No message is lost in the count: all that were to be sent are either sent or counted as dropped, what was sent and has
  not been processed is in the mailbox or with a worker, and the mailbox never overflows, so that no send is refused
  behind the benchmark's back.
\<close>

theorem flood_accounts_for_all:
  assumes "f = flood_run mode cap toSend taken"
  shows "fd_sent f + fd_dropped f = (if mode = 0 \<or> mode = 1 then toSend else max toSend (flood_target cap)) \<and>
    fd_count f \<le> cap \<and> flood_backlog f = fd_count f + fd_busy f"
proof -
  have k: "flood_ok cap f \<Longrightarrow> fd_count f \<le> cap \<and> flood_backlog f = fd_count f + fd_busy f" by (auto simp: flood_ok_def flood_backlog_def)
  show ?thesis
  proof (cases "mode = 0 \<or> mode = 1")
    case True
    have new: "flood_ok cap flood_new" by (simp add: flood_ok_def flood_new_def)
    obtain tk where f: "f = fold (\<lambda>i. flood_send cap (tk i)) [0..<toSend] flood_new"
      using True that[of taken] that[of "\<lambda>_. (0, 0)"] unfolding assms flood_run_modes by (cases "mode = 0") auto
    have "flood_ok cap f \<and> fd_sent f + fd_dropped f = toSend"
      using flood_sends_ok[OF new, of tk "[0..<toSend]"] unfolding f by (simp add: flood_new_def)
    then show ?thesis using True k by simp
  next
    case False
    define q where "q = \<lparr>fd_count = flood_target cap, fd_sent = flood_target cap, fd_dropped = 0, fd_busy = 0, fd_processed = 0\<rparr>"
    have q: "flood_ok cap q" by (simp add: q_def flood_ok_def flood_target_def)
    have f: "f = fold (\<lambda>i. flood_send cap (taken i)) [flood_target cap..<toSend] q"
      using False by (simp add: assms flood_run_modes flood_fills q_def)
    have "flood_ok cap f \<and> fd_sent f + fd_dropped f = max toSend (flood_target cap)"
      using flood_sends_ok[OF q, of taken "[flood_target cap..<toSend]"] unfolding f by (simp add: q_def max_def)
    then show ?thesis using False k by simp
  qed
qed

text \<open>When the mailbox is filled before the start, nothing is taken meanwhile: exactly its capacity is sent.\<close>

theorem prefill_sends_capacity:
  "fd_sent (flood_run 1 cap toSend taken) = min cap toSend"
proof -
  have "fold (\<lambda>i. flood_send cap (0, 0)) [0..<n] flood_new =
      \<lparr>fd_count = min cap n, fd_sent = min cap n, fd_dropped = n - cap, fd_busy = 0, fd_processed = 0\<rparr>" for n
  proof (induction n)
    case (Suc n)
    then show ?case by (cases "n < cap") (auto simp: flood_send_def flood_look_def Let_def min_def)
  qed (simp add: flood_new_def)
  then show ?thesis by (simp add: flood_run_modes)
qed

section \<open>Waiting for the workers\<close>

text \<open>
  \<open>waitForTotal\<close>: poll the number of handled messages until it reaches the target or ten seconds have passed. \<open>handled k\<close>
  and \<open>clock k\<close> are what the \<open>k\<close>-th round reads.
\<close>

definition kSpinWaitTimeoutNs :: int where "kSpinWaitTimeoutNs = 10000000000"

partial_function (option) waitForTotal :: "(nat \<Rightarrow> nat) \<Rightarrow> (nat \<Rightarrow> int) \<Rightarrow> nat \<Rightarrow> int \<Rightarrow> nat \<Rightarrow> bool option" where
  "waitForTotal handled clock target start k =
     (if handled k \<ge> target then Some True
      else if clock k - start > kSpinWaitTimeoutNs then Some False
      else waitForTotal handled clock target start (k + 1))"

lemma waitForTotal_returns:
  assumes "\<forall>j \<ge> K. clock j - start > kSpinWaitTimeoutNs"
  shows "\<exists>b. waitForTotal handled clock target start k = Some b \<and> (b \<longrightarrow> (\<exists>j \<ge> k. handled j \<ge> target)) \<and>
    (\<not> b \<longrightarrow> (\<exists>j \<ge> k. handled j < target \<and> clock j - start > kSpinWaitTimeoutNs))"
proof (induction "K - k" arbitrary: k rule: less_induct)
  case less
  show ?case
  proof (cases "handled k \<ge> target \<or> clock k - start > kSpinWaitTimeoutNs")
    case True
    then show ?thesis by (subst waitForTotal.simps) (auto simp: not_le intro: exI[of _ k])
  next
    case False
    then have "\<not> K \<le> k" using assms by blast
    then have lt: "K - (k + 1) < K - k" by simp
    have e: "waitForTotal handled clock target start k = waitForTotal handled clock target start (k + 1)"
      using False by (subst waitForTotal.simps) simp
    obtain b where b: "waitForTotal handled clock target start (k + 1) = Some b"
      "b \<longrightarrow> (\<exists>j \<ge> k + 1. handled j \<ge> target)"
      "\<not> b \<longrightarrow> (\<exists>j \<ge> k + 1. handled j < target \<and> clock j - start > kSpinWaitTimeoutNs)" using less.hyps[OF lt] by blast
    then show ?thesis unfolding e by (metis add_leD1)
  qed
qed

section \<open>What is reported about times\<close>

text \<open>Smallest, largest and the four percentiles of the sorted times; the means are floating-point and left out.\<close>

record time_summary =
  ts_min :: nat
  ts_max :: nat
  ts_p50 :: nat
  ts_p95 :: nat
  ts_p99 :: nat
  ts_p999 :: nat

definition time_stats :: "nat list \<Rightarrow> time_summary" where
  "time_stats lats =
     (let s = sort lats; n = length s in
      \<lparr>ts_min = hd s, ts_max = last s, ts_p50 = s ! (n * 50 div 100), ts_p95 = s ! (n * 95 div 100),
        ts_p99 = s ! (n * 99 div 100), ts_p999 = s ! min (n * 999 div 1000) (n - 1)\<rparr>)"

text \<open>The intervals between the firings of a timer, and none are reported for fewer than three firings.\<close>

fun fire_intervals :: "nat list \<Rightarrow> nat list" where
  "fire_intervals (a # b # rest) = (b - a) # fire_intervals (b # rest)"
| "fire_intervals _ = []"

definition scheduler_stats :: "nat list \<Rightarrow> time_summary" where
  "scheduler_stats fires =
     (if length fires > 2 then time_stats (fire_intervals fires)
      else \<lparr>ts_min = 0, ts_max = 0, ts_p50 = 0, ts_p95 = 0, ts_p99 = 0, ts_p999 = 0\<rparr>)"

text \<open>No index is past the end, and the numbers are in the order their names promise.\<close>

lemma index_in_range: "0 < n \<Longrightarrow> k < m \<Longrightarrow> n * k div m < (n :: nat)"
  by (rule less_mult_imp_div_less) simp

theorem percentiles_are_ordered:
  assumes "lats \<noteq> []"
  shows "\<forall>i \<in> {length lats * 50 div 100, length lats * 95 div 100, length lats * 99 div 100,
      min (length lats * 999 div 1000) (length lats - 1)}. i < length lats"
    and "ts_min (time_stats lats) \<le> ts_p50 (time_stats lats) \<and> ts_p50 (time_stats lats) \<le> ts_p95 (time_stats lats) \<and>
      ts_p95 (time_stats lats) \<le> ts_p99 (time_stats lats) \<and> ts_p99 (time_stats lats) \<le> ts_p999 (time_stats lats) \<and>
      ts_p999 (time_stats lats) \<le> ts_max (time_stats lats)"
proof -
  let ?n = "length lats" and ?s = "sort lats"
  have n: "0 < ?n" using assms by simp
  then show i: "\<forall>i \<in> {?n * 50 div 100, ?n * 95 div 100, ?n * 99 div 100, min (?n * 999 div 1000) (?n - 1)}. i < ?n"
    using index_in_range[of ?n 50 100] index_in_range[of ?n 95 100] index_in_range[of ?n 99 100] by (auto simp: min_less_iff_disj)
  have le: "?s ! i \<le> ?s ! j" if "i \<le> j" "j < ?n" for i j using that by (intro sorted_nth_mono) simp_all
  have e: "m * 99 div 100 = m * 990 div 1000" for m :: nat using div_mult_mult2[of 10 "m * 99" 100] by (simp add: mult.assoc)
  have below: "x < k \<Longrightarrow> x \<le> k - 1" for x k :: nat by simp
  have b1: "m * 50 div 100 \<le> m * 95 div 100" for m :: nat by (intro div_le_mono mult_le_mono2) simp
  have b2: "m * 95 div 100 \<le> m * 99 div 100" for m :: nat by (intro div_le_mono mult_le_mono2) simp
  have b3: "m * 99 div 100 \<le> m * 999 div 1000" for m :: nat unfolding e[of m] by (intro div_le_mono mult_le_mono2) simp
  have b4: "?n * 99 div 100 \<le> min (?n * 999 div 1000) (?n - 1)"
    by (rule min.boundedI[OF b3 below[OF index_in_range[OF n]]]) simp
  have "?s \<noteq> []" using assms by (metis length_sort length_0_conv)
  then have "hd ?s = ?s ! 0" "last ?s = ?s ! (?n - 1)" by (simp_all add: hd_conv_nth last_conv_nth)
  then show "ts_min (time_stats lats) \<le> ts_p50 (time_stats lats) \<and> ts_p50 (time_stats lats) \<le> ts_p95 (time_stats lats) \<and>
      ts_p95 (time_stats lats) \<le> ts_p99 (time_stats lats) \<and> ts_p99 (time_stats lats) \<le> ts_p999 (time_stats lats) \<and>
      ts_p999 (time_stats lats) \<le> ts_max (time_stats lats)"
    using le[of 0 "?n * 50 div 100"] le[OF b1] le[OF b2] le[OF b4] le[of "min (?n * 999 div 1000) (?n - 1)" "?n - 1"] i n
    by (simp add: time_stats_def Let_def)
qed

section \<open>Scaling\<close>

text \<open>
  The values of a sweep: 1, 2, 4 and so on while not above the maximum. The variable is an \<open>int\<close>: doubling it past
  \<open>2\<^sup>3\<^sup>0\<close> overflows, which is undefined (\<open>None\<close>).
\<close>

function sweep_from :: "nat \<Rightarrow> nat \<Rightarrow> nat list option" where
  "sweep_from v scaleMax =
     (if v = 0 \<or> v > scaleMax then Some []
      else if 2 * v \<ge> 2 ^ 31 then None
      else (case sweep_from (2 * v) scaleMax of None \<Rightarrow> None | Some vs \<Rightarrow> Some (v # vs)))"
  by pat_completeness auto
termination by (relation "measure (\<lambda>(v, m). Suc m - v)") auto

declare sweep_from.simps [simp del]

text \<open>What one run with metrics counts, and what is kept of a point.\<close>

record run_outcome =
  ro_completed :: bool
  ro_elapsedNs :: nat
  ro_handled :: nat
  ro_accepted :: nat
  ro_dropped :: nat
  ro_processed :: nat
  ro_remaining :: nat

record scale_point =
  sl_param :: nat
  sl_elapsedNs :: nat
  sl_produced :: nat
  sl_accepted :: nat
  sl_dropped :: nat
  sl_processed :: nat
  sl_remaining :: nat

text \<open>\<open>measurePoint\<close>, for the outcomes of its two runs: the error text, empty for a point that is kept, and the point.\<close>

definition measurePoint :: "nat \<Rightarrow> nat \<Rightarrow> run_outcome \<Rightarrow> run_outcome \<Rightarrow> string \<times> scale_point" where
  "measurePoint iterations param perf verif =
     (let pt = \<lparr>sl_param = param, sl_elapsedNs = 0, sl_produced = iterations, sl_accepted = 0, sl_dropped = 0,
                sl_processed = 0, sl_remaining = 0\<rparr> in
      if \<not> ro_completed perf then (''incomplete(perf): handled='' @ dec (ro_handled perf) @ ''/'' @ dec iterations, pt)
      else
        let pt = pt\<lparr>sl_elapsedNs := ro_elapsedNs perf, sl_accepted := ro_accepted verif, sl_dropped := ro_dropped verif,
                    sl_processed := ro_processed verif, sl_remaining := ro_remaining verif\<rparr> in
        if \<not> ro_completed verif then (''incomplete(verify): handled='' @ dec (ro_handled verif) @ ''/'' @ dec iterations, pt)
        else if sl_produced pt \<noteq> sl_accepted pt + sl_dropped pt
        then (''P!=A+D: P='' @ dec (sl_produced pt) @ '' A='' @ dec (sl_accepted pt) @ '' D='' @ dec (sl_dropped pt), pt)
        else if sl_accepted pt \<noteq> sl_processed pt + sl_remaining pt \<or> sl_remaining pt \<noteq> 0
        then (''A!=Pr+R: A='' @ dec (sl_accepted pt) @ '' Pr='' @ dec (sl_processed pt) @ '' R='' @ dec (sl_remaining pt), pt)
        else ([], pt))"

text \<open>One axis of the benchmark: the points up to the first failure, or that failure's text.\<close>

function scale_axis :: "string \<Rightarrow> (nat \<Rightarrow> string \<times> scale_point) \<Rightarrow> nat \<Rightarrow> nat \<Rightarrow> (string + scale_point list) option" where
  "scale_axis label meas v scaleMax =
     (if v = 0 \<or> v > scaleMax then Some (Inr [])
      else (case meas v of (err, pt) \<Rightarrow>
        if err \<noteq> [] then Some (Inl (''scaling failed at '' @ label @ ''='' @ dec v @ '': '' @ err))
        else if 2 * v \<ge> 2 ^ 31 then None
        else (case scale_axis label meas (2 * v) scaleMax of
                None \<Rightarrow> None
              | Some (Inl e) \<Rightarrow> Some (Inl e)
              | Some (Inr pts) \<Rightarrow> Some (Inr (pt # pts)))))"
  by pat_completeness auto
termination by (relation "measure (\<lambda>(_, _, v, m). Suc m - v)") auto

declare scale_axis.simps [simp del]

record scaling_result =
  sr_totalMsgs :: nat
  sr_totalNs :: nat
  sr_workers :: "scale_point list"
  sr_actors :: "scale_point list"

text \<open>The benchmark: workers first, then actors; the totals are those of the first phase of every point.\<close>

definition scaling_run ::
  "scaling_params \<Rightarrow> (nat \<Rightarrow> nat \<Rightarrow> run_outcome \<times> run_outcome) \<Rightarrow> (string + scaling_result) option" where
  "scaling_run p runs =
     (let its = nat (sp_iterations p);
          point = (\<lambda>workers actors param. case runs workers actors of (perf, verif) \<Rightarrow> measurePoint its param perf verif)
      in case scale_axis ''w'' (\<lambda>w. point w (nat (sp_actors p)) w) 1 (nat (sp_scaleMax p)) of
           None \<Rightarrow> None
         | Some (Inl e) \<Rightarrow> Some (Inl e)
         | Some (Inr wPts) \<Rightarrow>
             (case scale_axis ''a'' (\<lambda>a. point (nat (sp_workers p)) a a) 1 (nat (sp_scaleMax p)) of
                None \<Rightarrow> None
              | Some (Inl e) \<Rightarrow> Some (Inl e)
              | Some (Inr aPts) \<Rightarrow>
                  Some (Inr \<lparr>sr_totalMsgs = sum_list (map sl_produced wPts) + sum_list (map sl_produced aPts),
                       sr_totalNs = sum_list (map sl_elapsedNs wPts) + sum_list (map sl_elapsedNs aPts),
                       sr_workers = wPts, sr_actors = aPts\<rparr>)))"

section \<open>What the scaling benchmark reports\<close>

text \<open>The sweep visits the powers of two up to the maximum, and is undefined from \<open>2\<^sup>3\<^sup>0\<close> on.\<close>

lemma sweep_powers:
  "2 ^ k \<le> scaleMax \<Longrightarrow> scaleMax < 2 ^ 30 \<Longrightarrow>
     \<exists>n. sweep_from (2 ^ k) scaleMax = Some (map (\<lambda>i. 2 ^ i) [k..<n]) \<and> k < n \<and> 2 ^ (n - 1) \<le> scaleMax \<and> scaleMax < 2 ^ n"
proof (induction "scaleMax - 2 ^ k" arbitrary: k rule: less_induct)
  case less
  have small: "\<not> (2 :: nat) * 2 ^ k \<ge> 2 ^ 31" using less.prems by simp
  show ?case
  proof (cases "2 ^ Suc k \<le> scaleMax")
    case False
    then have "sweep_from (2 ^ k) scaleMax = Some [2 ^ k]"
      using small less.prems(1) by (subst sweep_from.simps) (simp add: sweep_from.simps[of "2 * 2 ^ k"])
    then show ?thesis using False less.prems(1) by (intro exI[of _ "Suc k"]) simp
  next
    case True
    have "(2 :: nat) ^ k < 2 ^ Suc k" by simp
    then have lt: "scaleMax - 2 ^ Suc k < scaleMax - 2 ^ k" using True by linarith
    from less.hyps[OF lt True less.prems(2)] obtain n where
      n: "sweep_from (2 ^ Suc k) scaleMax = Some (map (\<lambda>i. 2 ^ i) [Suc k..<n])" "Suc k < n" "2 ^ (n - 1) \<le> scaleMax" "scaleMax < 2 ^ n"
      by blast
    have "sweep_from (2 ^ k) scaleMax = Some (2 ^ k # map (\<lambda>i. 2 ^ i) [Suc k..<n])"
      using small less.prems(1) n(1) by (subst sweep_from.simps) simp
    moreover have "(2 :: nat) ^ k # map (\<lambda>i. 2 ^ i) [Suc k..<n] = map (\<lambda>i. 2 ^ i) [k..<n]"
      using n(2) by (simp add: upt_conv_Cons)
    ultimately show ?thesis using n(2-4) by (intro exI[of _ n]) simp
  qed
qed

lemma sweep_overflows: "j \<le> 30 \<Longrightarrow> 2 ^ 30 \<le> scaleMax \<Longrightarrow> sweep_from (2 ^ j) scaleMax = None"
proof (induction "30 - j" arbitrary: j)
  case 0
  then have "j = 30" by simp
  then show ?case using 0(3) by (subst sweep_from.simps) simp
next
  case (Suc n)
  then have j: "Suc j \<le> 30" "n = 30 - Suc j" by simp_all
  have "(2 :: nat) ^ j \<le> 2 ^ 30" using j(1) by (intro power_increasing) simp_all
  then have "sweep_from (2 ^ j) scaleMax = None \<longleftrightarrow> 2 * 2 ^ j \<ge> (2 :: nat) ^ 31 \<or> sweep_from (2 ^ Suc j) scaleMax = None"
    using Suc(4) by (subst sweep_from.simps) (auto split: option.splits)
  then show ?case using Suc(1)[OF j(2,1) Suc(4)] by simp
qed

definition point_conserved :: "nat \<Rightarrow> scale_point \<Rightarrow> bool" where
  "point_conserved iterations pt \<longleftrightarrow> sl_produced pt = iterations \<and> sl_accepted pt + sl_dropped pt = iterations \<and>
     sl_processed pt = sl_accepted pt \<and> sl_remaining pt = 0"

lemma measurePoint_kept: "measurePoint its v perf verif = ([], pt) \<Longrightarrow> point_conserved its pt \<and> sl_param pt = v"
  by (auto simp: measurePoint_def point_conserved_def Let_def split: if_splits)

lemma scale_axis_ok:
  assumes "\<And>v pt. meas v = ([], pt) \<Longrightarrow> P v pt"
  shows "scale_axis label meas v scaleMax = Some (Inr pts) \<Longrightarrow> \<exists>vs. sweep_from v scaleMax = Some vs \<and> list_all2 P vs pts"
proof (induction v scaleMax arbitrary: pts rule: sweep_from.induct)
  case (1 v scaleMax)
  show ?case
  proof (cases "v = 0 \<or> v > scaleMax")
    case True
    then show ?thesis using 1(2) by (subst sweep_from.simps) (subst (asm) scale_axis.simps, simp)
  next
    case False
    obtain err pt where m: "meas v = (err, pt)" by (cases "meas v")
    from 1(2) False m obtain rest where r: "err = []" "\<not> 2 * v \<ge> 2 ^ 31"
      "scale_axis label meas (2 * v) scaleMax = Some (Inr rest)" "pts = pt # rest"
      by (subst (asm) scale_axis.simps) (auto split: if_splits option.splits sum.splits)
    from 1(1)[OF False r(2) r(3)] obtain vs where "sweep_from (2 * v) scaleMax = Some vs" "list_all2 P vs rest" by blast
    then have "sweep_from v scaleMax = Some (v # vs) \<and> list_all2 P (v # vs) pts"
      using False r assms m by (subst sweep_from.simps) simp
    then show ?thesis by blast
  qed
qed

text \<open>
  A result of the scaling benchmark vouches for itself: for every power of two up to the maximum it has a point for that
  many workers and one for that many actors, no point lost a message - all that were produced were accepted or dropped,
  all that were accepted were processed - and the totals are the messages of all points.
\<close>

theorem scaling_results_conserve_messages:
  assumes "scaling_run p runs = Some (Inr r)"
  shows "\<exists>vs. sweep_from 1 (nat (sp_scaleMax p)) = Some vs \<and>
    list_all2 (\<lambda>v pt. point_conserved (nat (sp_iterations p)) pt \<and> sl_param pt = v) vs (sr_workers r) \<and>
    list_all2 (\<lambda>v pt. point_conserved (nat (sp_iterations p)) pt \<and> sl_param pt = v) vs (sr_actors r) \<and>
    sr_totalMsgs r = 2 * length vs * nat (sp_iterations p)"
proof -
  let ?its = "nat (sp_iterations p)"
  let ?point = "\<lambda>workers actors param. case runs workers actors of (perf, verif) \<Rightarrow> measurePoint ?its param perf verif"
  let ?P = "\<lambda>v pt. point_conserved ?its pt \<and> sl_param pt = v"
  let ?max = "nat (sp_scaleMax p)"
  obtain wPts aPts where s:
    "scale_axis ''w'' (\<lambda>w. ?point w (nat (sp_actors p)) w) 1 ?max = Some (Inr wPts)"
    "scale_axis ''a'' (\<lambda>a. ?point (nat (sp_workers p)) a a) 1 ?max = Some (Inr aPts)"
    "r = \<lparr>sr_totalMsgs = sum_list (map sl_produced wPts) + sum_list (map sl_produced aPts),
       sr_totalNs = sum_list (map sl_elapsedNs wPts) + sum_list (map sl_elapsedNs aPts), sr_workers = wPts, sr_actors = aPts\<rparr>"
    using assms by (auto simp: scaling_run_def Let_def split: option.splits sum.splits)
  have "\<exists>vs. sweep_from 1 ?max = Some vs \<and> list_all2 ?P vs wPts"
    by (rule scale_axis_ok[OF _ s(1)]) (auto dest: measurePoint_kept split: prod.splits)
  then obtain vs where vs: "sweep_from 1 ?max = Some vs" and w: "list_all2 ?P vs wPts" by blast
  have "\<exists>vs. sweep_from 1 ?max = Some vs \<and> list_all2 ?P vs aPts"
    by (rule scale_axis_ok[OF _ s(2)]) (auto dest: measurePoint_kept split: prod.splits)
  then have a: "list_all2 ?P vs aPts" using vs by simp
  have tot: "sum_list (map sl_produced pts) = length us * ?its" if "list_all2 ?P us pts" for us pts
    using that by (induction us pts rule: list_all2_induct) (simp_all add: point_conserved_def)
  have "sr_totalMsgs r = 2 * length vs * ?its" using tot[OF w] tot[OF a] s(3) by simp
  then show ?thesis using s(3) vs w a by simp
qed

end
