(* ===== verification/Bench_Report.thy ===== *)
theory Bench_Report
  imports Bench_Load
begin

text \<open>
  The benchmark program around the benchmarks (\<open>src/bench/main.cpp\<close>, \<open>src/bench/src/benchmark.cpp\<close>): the registry of
  benchmarks, the text of a result, where it is saved, and the three commands. Floating-point values are an abstract type
  with the comparison and the printing the program uses; the file system and the clock's time stamp are arguments.
\<close>

section \<open>Results\<close>

text \<open>\<open>fixed k x\<close> is \<open>snprintf\<close> with k decimals; \<open>positive\<close> is comparison with \<open>0.0\<close>; \<open>scaled d n\<close> divides a count by d.\<close>

record 'f bench_float =
  bf_fixed :: "nat \<Rightarrow> 'f \<Rightarrow> string"
  bf_positive :: "'f \<Rightarrow> bool"
  bf_scaled :: "nat \<Rightarrow> nat \<Rightarrow> 'f"
  bf_ratio :: "'f \<Rightarrow> 'f \<Rightarrow> 'f"
  bf_per :: "'f \<Rightarrow> nat \<Rightarrow> 'f"
  bf_percent :: "'f \<Rightarrow> 'f"
  bf_zero :: 'f

record 'f axis_point =
  ap_param :: nat
  ap_msgsPerSec :: 'f
  ap_produced :: nat
  ap_accepted :: nat
  ap_dropped :: nat
  ap_processed :: nat
  ap_remaining :: nat

record 'f bench_result =
  res_name :: string
  res_description :: string
  res_success :: bool
  res_errorMsg :: string
  res_workers :: int
  res_actors :: int
  res_maxBatch :: int
  res_mailboxSize :: nat
  res_warmup :: int
  res_iterations :: nat
  res_totalDurationNs :: nat
  res_msgsPerSec :: 'f
  res_avgNs :: 'f
  res_p50 :: 'f
  res_p95 :: 'f
  res_p99 :: 'f
  res_p999 :: 'f
  res_sent :: nat
  res_dropped :: nat
  res_dropRate :: 'f
  res_backlog :: nat
  res_floodNs :: nat
  res_drainNs :: nat
  res_fires :: nat
  res_interval :: "'f list"
  res_workerScaling :: "'f axis_point list"
  res_actorScaling :: "'f axis_point list"
  res_actorSnaps :: "(string \<times> nat \<times> nat) list"

text \<open>\<open>res_interval\<close> holds the mean, smallest and largest interval and the four percentiles, in the order they are printed.\<close>

section \<open>The registry\<close>

text \<open>An entry keeps name, description and creator; the name \<open>run\<close> looks for is the benchmark's own.\<close>

type_synonym 'f benchmark = "string \<times> string \<times> (bench_args \<Rightarrow> 'f bench_result)"

definition registerBenchmark :: "'f benchmark \<Rightarrow> 'f benchmark list \<Rightarrow> 'f benchmark list" where
  "registerBenchmark b reg = reg @ [b]"

definition bench_list :: "'f benchmark list \<Rightarrow> (string \<times> string) list" where
  "bench_list reg = map (\<lambda>(n, d, _). (n, d)) reg"

definition unknown_benchmark :: "'f bench_result \<Rightarrow> string \<Rightarrow> 'f bench_result" where
  "unknown_benchmark blank name = blank\<lparr>res_success := False, res_errorMsg := ''Unknown benchmark '' @ [CHR 0x27] @ name @ [CHR 0x27]\<rparr>"

definition bench_run :: "'f bench_result \<Rightarrow> 'f benchmark list \<Rightarrow> string \<Rightarrow> bench_args \<Rightarrow> 'f bench_result" where
  "bench_run blank reg name args =
     (case List.find (\<lambda>b. fst b = name) reg of
        Some (_, _, run) \<Rightarrow> run args
      | None \<Rightarrow> unknown_benchmark blank name)"

definition bench_runAll :: "'f benchmark list \<Rightarrow> bench_args \<Rightarrow> 'f bench_result list" where
  "bench_runAll reg args = map (\<lambda>(_, _, run). run args) reg"

section \<open>The text of a result\<close>

definition printUsage :: "string \<Rightarrow> string" where
  "printUsage prog = concat
     [''Usage: '', prog, '' <command> [--key value ...]'', nl,
      nl,
      ''Commands:'', nl,
      ''  list                         List available benchmarks'', nl,
      ''  <name> [--key value ...]     Run a single benchmark by name'', nl,
      ''  all [--key value ...]        Run all benchmarks'', nl,
      nl,
      ''Common options:'', nl,
      ''  --workers N                  Worker count'', nl,
      ''  --actors N                   Actor count'', nl,
      ''  --iterations N               Iteration count'', nl,
      ''  --maxbatch N                 Max batch size'', nl,
      ''  --warmup N                   Warmup rounds'', nl,
      ''  --mailbox N                  Mailbox size'', nl,
      ''  --producers N                Producer thread count (load generators)'', nl,
      ''  --park-spin-ns N             Dispatcher spin budget before parking (ns)'', nl,
      ''  --token-grace-ns N           Token grace window at settleToken (ns)'', nl]"

definition appendHeader :: "'f bench_result \<Rightarrow> string" where
  "appendHeader r = ''=== Benchmark: '' @ res_name r @ '' ==='' @ nl @ res_description r @ nl @ nl"

definition appendConfig :: "'f bench_result \<Rightarrow> string" where
  "appendConfig r = concat
     [''[Test Config]'', nl,
      ''  Workers:    '', dec_int (res_workers r), nl,
      ''  Actors:     '', dec_int (res_actors r), nl,
      ''  MaxBatch:   '', dec_int (res_maxBatch r), nl,
      ''  Mailbox:    '', dec (res_mailboxSize r), nl,
      (if res_iterations r > 0 then ''  Iterations: '' @ dec (res_iterations r) @ nl else []),
      ''  Warmup:     '', dec_int (res_warmup r), nl]"

definition appendHeadlineMetrics :: "'f bench_float \<Rightarrow> 'f bench_result \<Rightarrow> string" where
  "appendHeadlineMetrics F r = concat
     [(if bf_positive F (res_msgsPerSec r) then nl @ ''  Throughput: '' @ bf_fixed F 2 (res_msgsPerSec r) @ '' msgs/sec'' @ nl else []),
      (if bf_positive F (res_avgNs r) then ''  Latency:    '' @ bf_fixed F 2 (res_avgNs r) @ '' ns/msg'' @ nl else []),
      (if res_totalDurationNs r > 0
       then ''  Total Time: '' @ bf_fixed F 2 (bf_scaled F 1000000 (res_totalDurationNs r)) @ '' ms'' @ nl else [])]"

definition appendLatencyDistribution :: "'f bench_float \<Rightarrow> 'f bench_result \<Rightarrow> string" where
  "appendLatencyDistribution F r =
     (if \<not> bf_positive F (res_p50 r) then []
      else concat
       [nl, ''[Latency Distribution]'', nl,
        ''  P50:  '', bf_fixed F 0 (res_p50 r), '' ns'', nl,
        ''  P95:  '', bf_fixed F 0 (res_p95 r), '' ns'', nl,
        ''  P99:  '', bf_fixed F 0 (res_p99 r), '' ns'', nl,
        ''  P999: '', bf_fixed F 0 (res_p999 r), '' ns'', nl])"

definition appendBackpressure :: "'f bench_float \<Rightarrow> 'f bench_result \<Rightarrow> string" where
  "appendBackpressure F r =
     (if res_sent r = 0 then []
      else concat
       [nl, ''[Backpressure]'', nl,
        ''  Drop Rate:   '', bf_fixed F 2 (res_dropRate r), nl,
        ''  Sent:        '', dec (res_sent r), nl,
        ''  Dropped:     '', dec (res_dropped r), nl,
        ''  Backlog:     '', dec (res_backlog r), nl,
        ''  Flood Time:  '', bf_fixed F 2 (bf_scaled F 1000 (res_floodNs r)), '' us'', nl,
        ''  Drain Time:  '', bf_fixed F 2 (bf_scaled F 1000 (res_drainNs r)), '' us'', nl])"

definition appendScheduler :: "'f bench_float \<Rightarrow> 'f bench_result \<Rightarrow> string" where
  "appendScheduler F r =
     (if res_fires r = 0 then []
      else nl @ ''[Scheduler]'' @ nl @
        concat (map (\<lambda>(label, x). label @ bf_fixed F 2 x @ '' ns'' @ nl)
          (zip [''  Avg Interval: '', ''  Min Interval: '', ''  Max Interval: '', ''  P50:          '',
                ''  P95:          '', ''  P99:          '', ''  P999:         ''] (res_interval r))))"

text \<open>A series is compared with its first point; efficiency is the speed-up per worker or actor.\<close>

definition print_point :: "'f bench_float \<Rightarrow> string \<Rightarrow> 'f \<Rightarrow> 'f axis_point \<Rightarrow> string" where
  "print_point F label baseTp q =
     (let speedup = (if bf_positive F baseTp then bf_ratio F (ap_msgsPerSec q) baseTp else bf_zero F);
          eff = bf_per F speedup (ap_param q)
      in concat [''  '', pad_left 4 (dec (ap_param q)), '' '', label, '': '', pad_left 12 (bf_fixed F 0 (ap_msgsPerSec q)), '' m/s'',
           '' | speedup '', bf_fixed F 2 speedup, ''x'', '' | eff '', bf_fixed F 1 (bf_percent F eff), ''%'', nl])"

definition printSeries :: "'f bench_float \<Rightarrow> string \<Rightarrow> 'f axis_point list \<Rightarrow> string" where
  "printSeries F label pts =
     (case pts of
        [] \<Rightarrow> []
      | q # _ \<Rightarrow> nl @ ''['' @ label @ ''] (baseline = '' @ dec (ap_param q) @ '')'' @ nl @
          concat (map (print_point F label (ap_msgsPerSec q)) pts))"

definition verified :: "'f axis_point \<Rightarrow> bool" where
  "verified q \<longleftrightarrow> ap_produced q = ap_accepted q + ap_dropped q \<and> ap_accepted q = ap_processed q + ap_remaining q \<and> ap_remaining q = 0"

definition printVerif :: "char \<Rightarrow> 'f axis_point \<Rightarrow> string" where
  "printVerif tag q = concat
     [''  '', [tag], ''='', pad_right 6 (dec (ap_param q)), ''P='', dec (ap_produced q), '' A='', dec (ap_accepted q),
      '' D='', dec (ap_dropped q), '' Pr='', dec (ap_processed q), '' R='', dec (ap_remaining q),
      (if verified q then ''  OK'' else ''  FAIL''), nl]"

definition appendScaling :: "'f bench_float \<Rightarrow> 'f bench_result \<Rightarrow> string" where
  "appendScaling F r =
     (if res_workerScaling r = [] \<and> res_actorScaling r = [] then []
      else printSeries F ''workers'' (res_workerScaling r) @ printSeries F ''actors'' (res_actorScaling r) @
        nl @ ''[Verification] (P=Produced A=Accepted D=Dropped Pr=Processed R=Remaining)'' @ nl @
        concat (map (printVerif (CHR ''w'')) (res_workerScaling r)) @ concat (map (printVerif (CHR ''a'')) (res_actorScaling r)))"

definition actor_row :: "string \<times> nat \<times> nat \<Rightarrow> string" where
  "actor_row a = (case a of (name, mailboxCapacity, processed) \<Rightarrow>
     pad_right 16 name @ pad_left 12 (dec mailboxCapacity) @ pad_left 12 (dec processed) @ nl)"

definition appendActorTable :: "'f bench_result \<Rightarrow> string" where
  "appendActorTable r =
     (if res_actorSnaps r = [] then []
      else nl @ ''[Actors]'' @ nl @ pad_right 16 ''Name'' @ pad_left 12 ''Mailbox'' @ pad_left 12 ''Processed'' @ nl @
        replicate 40 (CHR ''-'') @ nl @ concat (map actor_row (res_actorSnaps r)))"

definition formatResult :: "'f bench_float \<Rightarrow> 'f bench_result \<Rightarrow> string" where
  "formatResult F r =
     (if \<not> res_success r then ''error: '' @ res_errorMsg r @ nl
      else appendHeader r @ appendConfig r @ appendHeadlineMetrics F r @ appendLatencyDistribution F r @ appendBackpressure F r @
        appendScheduler F r @ appendScaling F r @ appendActorTable r)"

section \<open>The program\<close>

text \<open>
  \<open>is_directory\<close> is the file system's answer, \<open>stamp\<close> the time stamp in the file name. A path ending in a slash, or that is
  a directory, gets the default file name.
\<close>

definition slash_join :: "string \<Rightarrow> string \<Rightarrow> string" where
  "slash_join p n = (if p \<noteq> [] \<and> last p = CHR ''/'' then p @ n else p @ ''/'' @ n)"

definition bench_results_dir :: string where "bench_results_dir = ''bench/results''"

definition resolveOutputPath :: "(string \<Rightarrow> bool) \<Rightarrow> string \<Rightarrow> bench_args \<Rightarrow> string \<Rightarrow> string" where
  "resolveOutputPath is_directory stamp args benchName =
     (let out = extractArg args ''output''; fname = benchName @ ''_'' @ stamp @ ''.txt'' in
      if out = [] then slash_join bench_results_dir fname
      else if is_directory out \<or> last out = CHR ''/'' then slash_join out fname
      else out)"

text \<open>What the program prints, and the file it saves with its path; saving is left to the file system.\<close>

record bench_output =
  bo_out :: string
  bo_saved :: "(string \<times> string) option"

definition list_text :: "(string \<times> string) list \<Rightarrow> string" where
  "list_text bs =
     (if bs = [] then ''no benchmarks registered'' @ nl
      else ''Available benchmarks:'' @ nl @ concat (map (\<lambda>(n, d). ''  '' @ pad_right 16 n @ d @ nl) bs))"

fun join_results :: "string list \<Rightarrow> string" where
  "join_results [] = []"
| "join_results [r] = r"
| "join_results (r # rs) = r @ nl @ join_results rs"

definition bench_main ::
  "'f bench_float \<Rightarrow> (string \<Rightarrow> bool) \<Rightarrow> string \<Rightarrow> 'f bench_result \<Rightarrow> 'f benchmark list \<Rightarrow> string \<Rightarrow> string list \<Rightarrow> bench_output" where
  "bench_main F is_directory stamp blank reg prog argv =
     (case argv of
        [] \<Rightarrow> \<lparr>bo_out = printUsage prog, bo_saved = None\<rparr>
      | cmd # rest \<Rightarrow>
          (let args = read_pairs rest in
           if cmd = ''list'' then \<lparr>bo_out = list_text (bench_list reg), bo_saved = None\<rparr>
           else if cmd = ''all''
           then (let content = join_results (map (formatResult F) (bench_runAll reg args))
                 in \<lparr>bo_out = content, bo_saved = Some (resolveOutputPath is_directory stamp args ''all'', content)\<rparr>)
           else (let r = bench_run blank reg cmd args; content = formatResult F r
                 in \<lparr>bo_out = content,
                     bo_saved = (if res_success r then Some (resolveOutputPath is_directory stamp args cmd, content) else None)\<rparr>)))"

section \<open>Properties\<close>

text \<open>A named benchmark runs with the options given for it, and only a success is saved, under the default or the given path.\<close>

theorem benchmark_runs_with_its_options:
  assumes "List.find (\<lambda>b. fst b = name) reg = Some (name, d, run)" and "name \<notin> {''list'', ''all''}"
    and "argv = name # concat (map (\<lambda>(k, v). [''--'' @ k, v]) args)"
  shows "bo_out (bench_main F dir stamp blank reg prog argv) = formatResult F (run args) \<and>
    (bo_saved (bench_main F dir stamp blank reg prog argv) \<noteq> None \<longleftrightarrow> res_success (run args)) \<and>
    (\<forall>path txt. bo_saved (bench_main F dir stamp blank reg prog argv) = Some (path, txt) \<longrightarrow>
       path = resolveOutputPath dir stamp args name \<and> txt = formatResult F (run args))"
proof -
  have "read_pairs (concat (map (\<lambda>(k, v). [''--'' @ k, v]) args)) = args" by (rule read_pairs_back)
  then have "bench_main F dir stamp blank reg prog argv =
      \<lparr>bo_out = formatResult F (run args),
       bo_saved = (if res_success (run args) then Some (resolveOutputPath dir stamp args name, formatResult F (run args)) else None)\<rparr>"
    using assms(1,2) by (simp only: assms(3) bench_main_def list.case Let_def) (simp add: bench_run_def)
  then show ?thesis by simp
qed

lemma unknown_name_is_reported:
  assumes "name \<notin> fst ` set reg" and "name \<notin> {''list'', ''all''}"
  shows "bench_main F dir stamp blank reg prog [name] =
    \<lparr>bo_out = ''error: Unknown benchmark '' @ [CHR 0x27] @ name @ [CHR 0x27] @ nl, bo_saved = None\<rparr>"
proof -
  have "List.find (\<lambda>b. fst b = name) reg = None" using assms(1) by (force simp: find_None_iff)
  then show ?thesis using assms(2) by (simp add: bench_main_def bench_run_def unknown_benchmark_def formatResult_def)
qed

text \<open>The points the scaling benchmark keeps are exactly those the report marks OK.\<close>

lemma kept_points_are_verified:
  assumes "point_conserved its pt" and "ap_produced q = sl_produced pt" "ap_accepted q = sl_accepted pt" "ap_dropped q = sl_dropped pt"
    "ap_processed q = sl_processed pt" "ap_remaining q = sl_remaining pt"
  shows "verified q"
  using assms by (simp add: point_conserved_def verified_def)

end
