(* ===== verification/Bench_Runs.thy ===== *)
theory Bench_Runs
  imports Bench_Report Actor_System
begin

text \<open>
  The six benchmarks (\<open>run\<close> of \<open>src/bench/src/bench_*.cpp\<close>): the actor systems they set up, what they do with the measured
  outcome, the result they report, and the process' metrics switch, which every one of them changes for its runs. The system
  under test is a parameter: \<open>answer k\<close> is the outcome of the \<open>k\<close>-th run. The print under \<open>V2_DIAG\<close> is left out.
\<close>

section \<open>Runs\<close>

text \<open>What a run was set up with: the configuration, the actors with their mailboxes, the messages, and the metrics switch.\<close>

record run_setup =
  su_config :: system_config
  su_actors :: "(string \<times> nat) list"
  su_messages :: nat
  su_metrics :: bool

record bench_world =
  bw_enabled :: bool
  bw_runs :: "run_setup list"

definition one_run :: "(nat \<Rightarrow> run_outcome) \<Rightarrow> system_config \<Rightarrow> (string \<times> nat) list \<Rightarrow> nat \<Rightarrow> bench_world \<Rightarrow> run_outcome \<times> bench_world" where
  "one_run answer cfg acts n w =
     (answer (length (bw_runs w)),
      w\<lparr>bw_runs := bw_runs w @ [\<lparr>su_config = cfg, su_actors = acts, su_messages = n, su_metrics = bw_enabled w\<rparr>]\<rparr>)"

definition set_metrics :: "bool \<Rightarrow> bench_world \<Rightarrow> bench_world" where
  "set_metrics b w = w\<lparr>bw_enabled := b\<rparr>"

text \<open>\<open>ActorSystemConfig{workers, maxbatch}\<close>: the other members keep their defaults; a negative option does too.\<close>

definition bench_config :: "int \<Rightarrow> int \<Rightarrow> system_config" where
  "bench_config workers maxbatch = default_config\<lparr>sc_numWorkers := workers, sc_maxBatch := maxbatch\<rparr>"

definition override :: "int \<Rightarrow> int \<Rightarrow> int" where
  "override given dflt = (if given \<ge> 0 then given else dflt)"

definition bench_actors :: "nat \<Rightarrow> nat \<Rightarrow> (string \<times> nat) list" where
  "bench_actors n mailbox = map (\<lambda>i. (''bench_'' @ dec i, mailbox)) [0..<n]"

text \<open>
  The floating-point operations of the results: a count as \<open>double\<close>, a rate per second, a mean, and a percentage.
\<close>

record 'f bench_rates =
  br_of :: "nat \<Rightarrow> 'f"
  br_rate :: "nat \<Rightarrow> nat \<Rightarrow> 'f"
  br_mean :: "nat list \<Rightarrow> 'f"
  br_percent :: "nat \<Rightarrow> nat \<Rightarrow> 'f"

definition msgs_per_sec :: "'f bench_rates \<Rightarrow> nat \<Rightarrow> nat \<Rightarrow> 'f" where
  "msgs_per_sec R n ns = (if ns > 0 then br_rate R n ns else br_of R 0)"

definition blank_result :: "'f bench_rates \<Rightarrow> 'f bench_result" where
  "blank_result R =
     (let z = br_of R 0 in
      \<lparr>res_name = [], res_description = [], res_success = True, res_errorMsg = [], res_workers = 0, res_actors = 0, res_maxBatch = 0,
       res_mailboxSize = 0, res_warmup = 0, res_iterations = 0, res_totalDurationNs = 0, res_msgsPerSec = z, res_avgNs = z, res_p50 = z,
       res_p95 = z, res_p99 = z, res_p999 = z, res_sent = 0, res_dropped = 0, res_dropRate = z, res_backlog = 0, res_floodNs = 0,
       res_drainNs = 0, res_fires = 0, res_interval = replicate 7 z, res_workerScaling = [], res_actorScaling = [], res_actorSnaps = []\<rparr>)"

definition named_result :: "'f bench_rates \<Rightarrow> string \<Rightarrow> string \<Rightarrow> int \<Rightarrow> int \<Rightarrow> int \<Rightarrow> nat \<Rightarrow> int \<Rightarrow> 'f bench_result" where
  "named_result R nm ds workers actors maxbatch mailbox warmup =
     (blank_result R)\<lparr>res_name := nm, res_description := ds, res_workers := workers, res_actors := actors, res_maxBatch := maxbatch,
        res_mailboxSize := mailbox, res_warmup := warmup\<rparr>"

text \<open>A finished measurement of \<open>n\<close> messages, or the failure with the number handled.\<close>

definition measured :: "'f bench_rates \<Rightarrow> string \<Rightarrow> nat \<Rightarrow> run_outcome \<Rightarrow> 'f bench_result \<Rightarrow> 'f bench_result" where
  "measured R label n out r =
     (if \<not> ro_completed out
      then r\<lparr>res_success := False, res_errorMsg := label @ '' incomplete: handled='' @ dec (ro_handled out) @ ''/'' @ dec n\<rparr>
      else r\<lparr>res_iterations := n, res_totalDurationNs := ro_elapsedNs out, res_msgsPerSec := msgs_per_sec R n (ro_elapsedNs out)\<rparr>)"

section \<open>Throughput\<close>

definition throughput_config :: "throughput_params \<Rightarrow> system_config" where
  "throughput_config p =
     (let c = bench_config (tp_workers p) (tp_maxbatch p) in
      c\<lparr>sc_parkSpinNs := override (tp_parkSpinNs p) (sc_parkSpinNs c), sc_tokenGraceNs := override (tp_tokenGraceNs p) (sc_tokenGraceNs c)\<rparr>)"

definition throughput_runOnce :: "(nat \<Rightarrow> run_outcome) \<Rightarrow> throughput_params \<Rightarrow> nat \<Rightarrow> bench_world \<Rightarrow> run_outcome \<times> bench_world" where
  "throughput_runOnce answer p n w =
     one_run answer (throughput_config p)
       (bench_actors (nat (tp_actors p)) (bench_mailbox (unat (tp_mailbox p)) n (nat (tp_actors p)))) n w"

definition throughput_bench :: "'f bench_rates \<Rightarrow> (nat \<Rightarrow> run_outcome) \<Rightarrow> bool \<Rightarrow> bench_args \<Rightarrow> bench_world \<Rightarrow> 'f bench_result \<times> bench_world" where
  "throughput_bench R answer diag args w =
     (let was = bw_enabled w; p = throughput_parse args; w = set_metrics diag w;
          w = (if tp_warmup p > 0 then snd (throughput_runOnce answer p (nat (tp_warmup p)) w) else w);
          (out, w) = throughput_runOnce answer p (nat (tp_iterations p)) w;
          r = named_result R ''throughput'' ''Measure message throughput'' (tp_workers p) (tp_actors p) (tp_maxbatch p)
                (bench_mailbox (unat (tp_mailbox p)) (nat (tp_iterations p)) (nat (tp_actors p))) (tp_warmup p)
      in (measured R ''throughput'' (nat (tp_iterations p)) out r, set_metrics was w))"

section \<open>Contention\<close>

text \<open>One actor; every producer sends the same number of messages, so a remainder is not sent.\<close>

definition contention_runOnce :: "(nat \<Rightarrow> run_outcome) \<Rightarrow> contention_params \<Rightarrow> nat \<Rightarrow> nat \<Rightarrow> bench_world \<Rightarrow> run_outcome \<times> bench_world" where
  "contention_runOnce answer p producers each w =
     one_run answer (bench_config (ct_workers p) (ct_maxbatch p))
       [(''contention_actor'', bench_mailbox (unat (ct_mailbox p)) (producers * each) 1)] (producers * each) w"

definition contention_bench :: "'f bench_rates \<Rightarrow> (nat \<Rightarrow> run_outcome) \<Rightarrow> bench_args \<Rightarrow> bench_world \<Rightarrow> 'f bench_result \<times> bench_world" where
  "contention_bench R answer args w =
     (let was = bw_enabled w; p = contention_parse args; w = set_metrics False w; k = nat (ct_producers p);
          w = (if ct_warmup p > 0 then snd (contention_runOnce answer p k (nat (ct_warmup p)) w) else w);
          each = nat (ct_iterations p) div k; total = k * each;
          (out, w) = contention_runOnce answer p k each w;
          r = named_result R ''contention'' ''Measure multi-producer contention performance'' (ct_workers p) 1 (ct_maxbatch p)
                (bench_mailbox (unat (ct_mailbox p)) total 1) (ct_warmup p)
      in (measured R ''contention'' total out r, set_metrics was w))"

section \<open>Latency\<close>

text \<open>
  One message at a time: \<open>acks i\<close> is the latency the actor wrote for the \<open>i\<close>-th message, \<open>None\<close> if it was never handled; the
  wait for it is given up after ten seconds and the benchmark goes on. The vector starts as zeros.
\<close>

definition written_latencies :: "(nat \<Rightarrow> nat option) \<Rightarrow> nat \<Rightarrow> nat list" where
  "written_latencies acks n = map (\<lambda>i. case acks i of Some l \<Rightarrow> l | None \<Rightarrow> 0) [0..<n]"

definition latency_bench :: "'f bench_rates \<Rightarrow> (nat \<Rightarrow> run_outcome) \<Rightarrow> (nat \<Rightarrow> nat option) \<Rightarrow> bench_args \<Rightarrow> bench_world \<Rightarrow> 'f bench_result \<times> bench_world" where
  "latency_bench R answer acks args w =
     (let was = bw_enabled w; p = latency_parse args; w = set_metrics False w; n = nat (la_iterations p);
          act = (\<lambda>k. [(''latency_actor'', bench_mailbox (unat (la_mailbox p)) k 1)]);
          cfg = bench_config (la_workers p) (la_maxbatch p);
          w = (if la_warmup p > 0 then snd (one_run answer cfg (act (nat (la_warmup p))) (nat (la_warmup p)) w) else w);
          (out, w) = one_run answer cfg (act n) n w;
          lats = written_latencies acks n; s = time_stats lats;
          r = named_result R ''latency'' ''Measure per-message end-to-end latency'' (la_workers p) 1 (la_maxbatch p)
                (bench_mailbox (unat (la_mailbox p)) n 1) (la_warmup p)
      in (r\<lparr>res_iterations := n, res_totalDurationNs := ro_elapsedNs out, res_msgsPerSec := msgs_per_sec R n (ro_elapsedNs out),
            res_avgNs := br_mean R lats, res_p50 := br_of R (ts_p50 s), res_p95 := br_of R (ts_p95 s), res_p99 := br_of R (ts_p99 s),
            res_p999 := br_of R (ts_p999 s),
            res_actorSnaps := [(''latency_actor'', bench_mailbox (unat (la_mailbox p)) n 1, ro_handled out)]\<rparr>,
          set_metrics was w))"

section \<open>Back-pressure\<close>

text \<open>
  \<open>taken\<close> is what the workers take between two looks of the flooding thread, \<open>drained\<close> whether they handled everything before the
  time was up, \<open>processed\<close> the count then, and \<open>floodNs\<close>, \<open>drainNs\<close> the two measured times. The mailbox holds what was asked for.
\<close>

definition backpressure_bench :: "'f bench_rates \<Rightarrow> (nat \<Rightarrow> nat \<times> nat) \<Rightarrow> bool \<Rightarrow> nat \<Rightarrow> nat \<Rightarrow> nat \<Rightarrow> bench_args \<Rightarrow> bench_world \<Rightarrow> 'f bench_result \<times> bench_world" where
  "backpressure_bench R taken drained processed floodNs drainNs args w =
     (let was = bw_enabled w; p = backpressure_parse args; w = set_metrics False w; cap = unat (bp_mailbox p);
          (_, w) = one_run (\<lambda>_. \<lparr>ro_completed = drained, ro_elapsedNs = drainNs, ro_handled = processed, ro_accepted = 0, ro_dropped = 0,
              ro_processed = 0, ro_remaining = 0\<rparr>) (bench_config (bp_workers p) (bp_maxbatch p)) [(''bp_actor'', cap)] (flood_total p) w;
          f = flood_run (bp_mode p) cap (flood_total p) taken;
          r = named_result R ''backpressure'' ''Measure mailbox overflow behavior'' (bp_workers p) 1 (bp_maxbatch p) cap (bp_warmup p);
          r = r\<lparr>res_sent := fd_sent f, res_dropped := fd_dropped f,
                res_dropRate := (if fd_sent f + fd_dropped f > 0 then br_percent R (fd_dropped f) (fd_sent f + fd_dropped f) else br_of R 0),
                res_floodNs := floodNs, res_drainNs := drainNs, res_backlog := flood_backlog f\<rparr>;
          r = (if \<not> drained
               then r\<lparr>res_success := False, res_errorMsg := ''drain timeout (10s): processed='' @ dec processed @ ''/'' @ dec (fd_sent f)
                        @ '' dropped='' @ dec (fd_dropped f)\<rparr>
               else r)
      in (r, set_metrics was w))"

section \<open>Scheduler\<close>

text \<open>\<open>fires\<close> are the times the timer's actor recorded in the measured run.\<close>

definition scheduler_bench :: "'f bench_rates \<Rightarrow> (nat \<Rightarrow> run_outcome) \<Rightarrow> nat list \<Rightarrow> bench_args \<Rightarrow> bench_world \<Rightarrow> 'f bench_result \<times> bench_world" where
  "scheduler_bench R answer fires args w =
     (let was = bw_enabled w; p = scheduler_parse args; w = set_metrics False w;
          cfg = bench_config (sd_workers p) (sd_maxbatch p); act = [(''timer_actor'', 4096)];
          w = (if sd_warmup p > 0 then snd (one_run answer cfg act 0 w) else w);
          (_, w) = one_run answer cfg act 0 w;
          s = scheduler_stats fires;
          mean = (if length fires > 2 then br_mean R (fire_intervals fires) else br_of R 0);
          r = named_result R ''scheduler'' ''Measure timer scheduling precision'' (sd_workers p) 0 (sd_maxbatch p) 0 (sd_warmup p)
      in (r\<lparr>res_totalDurationNs := nat (sd_durationMs p) * 1000000, res_fires := length fires,
            res_interval := mean # map (br_of R) [ts_min s, ts_max s, ts_p50 s, ts_p95 s, ts_p99 s, ts_p999 s]\<rparr>,
          set_metrics was w))"

section \<open>Scaling\<close>

definition scaling_config :: "scaling_params \<Rightarrow> int \<Rightarrow> system_config" where
  "scaling_config p workers =
     (let c = bench_config workers (sp_maxbatch p) in
      c\<lparr>sc_busyStealIntervalUs := override (sp_busyStealUs p) (sc_busyStealIntervalUs c),
        sc_idleStealIntervalUs := override (sp_idleStealUs p) (sc_idleStealIntervalUs c)\<rparr>)"

definition scaling_runOnce :: "(nat \<Rightarrow> run_outcome) \<Rightarrow> scaling_params \<Rightarrow> int \<Rightarrow> nat \<Rightarrow> nat \<Rightarrow> bool \<Rightarrow> bench_world \<Rightarrow> run_outcome \<times> bench_world" where
  "scaling_runOnce answer p workers actors n collect w =
     one_run answer (scaling_config p workers) (bench_actors actors (bench_mailbox 0 n actors)) n (set_metrics collect w)"

text \<open>A point of an axis: the measured run without metrics, and only if it completed, the verified one with them.\<close>

definition measure_in :: "(nat \<Rightarrow> run_outcome) \<Rightarrow> scaling_params \<Rightarrow> nat \<Rightarrow> nat \<Rightarrow> nat \<Rightarrow> bench_world \<Rightarrow> (string \<times> scale_point) \<times> bench_world" where
  "measure_in answer p workers actors param w =
     (let n = nat (sp_iterations p);
          (perf, w) = scaling_runOnce answer p (int workers) actors n False w
      in if \<not> ro_completed perf then (measurePoint n param perf perf, w)
         else (let (verif, w) = scaling_runOnce answer p (int workers) actors n True w in (measurePoint n param perf verif, w)))"

function axis_in :: "string \<Rightarrow> (nat \<Rightarrow> bench_world \<Rightarrow> (string \<times> scale_point) \<times> bench_world) \<Rightarrow> nat \<Rightarrow> nat \<Rightarrow> bench_world \<Rightarrow>
    ((string + scale_point list) \<times> bench_world) option" where
  "axis_in label meas v scaleMax w =
     (if v = 0 \<or> v > scaleMax then Some (Inr [], w)
      else (case meas v w of ((err, pt), w) \<Rightarrow>
        if err \<noteq> [] then Some (Inl (''scaling failed at '' @ label @ ''='' @ dec v @ '': '' @ err), w)
        else if 2 * v \<ge> 2 ^ 31 then None
        else (case axis_in label meas (2 * v) scaleMax w of
                None \<Rightarrow> None
              | Some (Inl e, w) \<Rightarrow> Some (Inl e, w)
              | Some (Inr pts, w) \<Rightarrow> Some (Inr (pt # pts), w))))"
  by pat_completeness auto
termination by (relation "measure (\<lambda>(_, _, v, m, _). Suc m - v)") auto

declare axis_in.simps [simp del]

definition to_axis_point :: "'f bench_rates \<Rightarrow> scale_point \<Rightarrow> 'f axis_point" where
  "to_axis_point R pt = \<lparr>ap_param = sl_param pt, ap_msgsPerSec = msgs_per_sec R (sl_produced pt) (sl_elapsedNs pt), ap_produced = sl_produced pt,
     ap_accepted = sl_accepted pt, ap_dropped = sl_dropped pt, ap_processed = sl_processed pt, ap_remaining = sl_remaining pt\<rparr>"

text \<open>The benchmark; \<open>None\<close> is the overflow of the doubled \<open>int\<close>.\<close>

definition scaling_bench :: "'f bench_rates \<Rightarrow> (nat \<Rightarrow> run_outcome) \<Rightarrow> bench_args \<Rightarrow> bench_world \<Rightarrow> ('f bench_result \<times> bench_world) option" where
  "scaling_bench R answer args w =
     (let was = bw_enabled w; p = scaling_parse args;
          r = named_result R ''scaling'' ''Measure worker and actor scaling efficiency'' (sp_workers p) (sp_actors p) (sp_maxbatch p) 0 (sp_warmup p);
          w = (if sp_warmup p > 0
               then snd (scaling_runOnce answer p (sp_workers p) (nat (sp_actors p)) (min (nat (sp_iterations p)) 10000) False w) else w);
          failed = (\<lambda>msg w. (r\<lparr>res_success := False, res_errorMsg := msg\<rparr>, set_metrics was w))
      in case axis_in ''w'' (\<lambda>v. measure_in answer p v (nat (sp_actors p)) v) 1 (nat (sp_scaleMax p)) w of
           None \<Rightarrow> None
         | Some (Inl msg, w) \<Rightarrow> Some (failed msg w)
         | Some (Inr wPts, w) \<Rightarrow>
             (case axis_in ''a'' (\<lambda>v. measure_in answer p (nat (sp_workers p)) v v) 1 (nat (sp_scaleMax p)) w of
                None \<Rightarrow> None
              | Some (Inl msg, w) \<Rightarrow> Some (failed msg w)
              | Some (Inr aPts, w) \<Rightarrow>
                  (let msgs = sum_list (map sl_produced (wPts @ aPts)); ns = sum_list (map sl_elapsedNs (wPts @ aPts))
                   in Some (r\<lparr>res_iterations := msgs, res_totalDurationNs := ns, res_msgsPerSec := msgs_per_sec R msgs ns,
                             res_workerScaling := map (to_axis_point R) wPts, res_actorScaling := map (to_axis_point R) aPts\<rparr>,
                            set_metrics was w))))"

section \<open>Facts\<close>

text \<open>Every benchmark leaves the metrics switch as it found it, whether it succeeds, fails or warms up.\<close>

lemma bench_metrics_simps [simp]:
  "bw_enabled (set_metrics b w) = b" "bw_runs (set_metrics b w) = bw_runs w"
  "bw_enabled (snd (one_run answer cfg acts n w)) = bw_enabled w"
  "fst (one_run answer cfg acts n w) = answer (length (bw_runs w))"
  by (simp_all add: set_metrics_def one_run_def)

theorem benchmarks_restore_metrics:
  "bw_enabled (snd (throughput_bench R answer diag args w)) = bw_enabled w
   \<and> bw_enabled (snd (contention_bench R answer args w)) = bw_enabled w
   \<and> bw_enabled (snd (latency_bench R answer acks args w)) = bw_enabled w
   \<and> bw_enabled (snd (backpressure_bench R taken drained processed floodNs drainNs args w)) = bw_enabled w
   \<and> bw_enabled (snd (scheduler_bench R answer fires args w)) = bw_enabled w
   \<and> (case scaling_bench R answer args w of None \<Rightarrow> True | Some (_, w') \<Rightarrow> bw_enabled w' = bw_enabled w)"
proof (intro conjI)
  show "case scaling_bench R answer args w of None \<Rightarrow> True | Some (_, w') \<Rightarrow> bw_enabled w' = bw_enabled w"
    by (simp add: scaling_bench_def Let_def split: option.split sum.split prod.split)
qed (simp_all add: throughput_bench_def contention_bench_def latency_bench_def backpressure_bench_def scheduler_bench_def Let_def case_prod_beta)

text \<open>What the throughput result says it ran with is what the measured run was set up with.\<close>

theorem throughput_reports_its_setup:
  fixes R :: "'f bench_rates"
  assumes "throughput_bench R answer diag args w = (r, w')"
  shows "su_actors (last (bw_runs w')) = bench_actors (nat (res_actors r)) (res_mailboxSize r)
    \<and> sc_numWorkers (su_config (last (bw_runs w'))) = res_workers r \<and> sc_maxBatch (su_config (last (bw_runs w'))) = res_maxBatch r
    \<and> su_messages (last (bw_runs w')) = nat (tp_iterations (throughput_parse args))
    \<and> (res_success r \<longleftrightarrow> ro_completed (answer (length (bw_runs w') - 1)))"
proof -
  have s: "snd (throughput_runOnce answer p n v) = v\<lparr>bw_runs := bw_runs v @ [\<lparr>su_config = throughput_config p,
      su_actors = bench_actors (nat (tp_actors p)) (bench_mailbox (unat (tp_mailbox p)) n (nat (tp_actors p))), su_messages = n,
      su_metrics = bw_enabled v\<rparr>]\<rparr>" "fst (throughput_runOnce answer p n v) = answer (length (bw_runs v))" for p n v
    by (simp_all add: throughput_runOnce_def one_run_def)
  have c: "sc_numWorkers (throughput_config p) = tp_workers p" "sc_maxBatch (throughput_config p) = tp_maxbatch p" for p
    by (simp_all add: throughput_config_def bench_config_def Let_def)
  have b: "res_success (blank_result R) = True" by (simp add: blank_result_def Let_def)
  show ?thesis
    using assms(1)
    by (auto simp: throughput_bench_def Let_def case_prod_beta s c b measured_def named_result_def split: if_splits)
qed

text \<open>The contention benchmark sends the same number from every producer and drops the remainder: with more producers than
  iterations it sends nothing at all, and reports a success.\<close>

theorem contention_may_send_nothing:
  fixes R :: "'f bench_rates"
  assumes "ct_iterations (contention_parse args) < ct_producers (contention_parse args)" and "\<forall>k. ro_completed (answer k)"
    and "contention_bench R answer args w = (r, w')"
  shows "res_success r \<and> res_iterations r = 0 \<and> su_messages (last (bw_runs w')) = 0"
proof -
  have d: "nat (ct_iterations (contention_parse args)) div nat (ct_producers (contention_parse args)) = 0"
    using assms(1) by (cases "ct_iterations (contention_parse args) \<le> 0") auto
  have b: "res_success (blank_result R) = True" "res_iterations (blank_result R) = 0" by (simp_all add: blank_result_def Let_def)
  show ?thesis
    using assms(2,3) by (auto simp: contention_bench_def contention_runOnce_def one_run_def Let_def case_prod_beta d b measured_def named_result_def)
qed

text \<open>A message the latency benchmark gave up on counts as a latency of zero, and the result is a success.\<close>

theorem latency_counts_lost_messages_as_zero:
  fixes R :: "'f bench_rates"
  assumes "latency_bench R answer acks args w = (r, w')" and "acks i = None" and "int i < la_iterations (latency_parse args)"
  shows "res_success r \<and> 0 \<in> set (written_latencies acks (res_iterations r))"
proof -
  have b: "res_success (blank_result R) = True" by (simp add: blank_result_def Let_def)
  have n: "res_iterations r = nat (la_iterations (latency_parse args))" "res_success r"
    using assms(1) by (auto simp: latency_bench_def Let_def case_prod_beta named_result_def b)
  have "i < nat (la_iterations (latency_parse args))" using assms(3) by linarith
  then have "0 \<in> set (written_latencies acks (nat (la_iterations (latency_parse args))))"
    unfolding written_latencies_def using assms(2) by (auto simp: image_iff intro!: bexI[of _ i])
  then show ?thesis using n by simp
qed

end
