(* ===== verification/Wifi_Handler.thy ===== *)
theory Wifi_Handler
  imports Actor_Base
begin

text \<open>
  The Wi-Fi state machine and the actor that drives it (\<open>src/src/service/network_manager\<close>). NetworkManager is reached
  over D-Bus: a call either answers a value or throws, and may change the world behind the bus. The bus is a parameter,
  a function from the world and the call to the answer (\<open>None\<close> for an exception) and the next world. A reply of another
  type than the caller asks for throws as well.
\<close>

section \<open>Data\<close>

datatype wifi_state = Disconnected | Scanning | Connecting | Connected | Disconnecting | WifiError

record wifi_ap =
  ap_connected :: bool
  ap_frequency :: u16
  ap_maxBitrate :: u32
  ap_signalStrength :: int
  ap_ssid :: string
  ap_bssid :: string
  ap_security :: string
  ap_mode :: string
  ap_objectPath :: string

record wifi_status =
  wt_connected :: bool
  wt_ssid :: string
  wt_ipAddress :: string
  wt_state :: wifi_state
  wt_interfaceName :: string
  wt_signalStrength :: int
  wt_autoReconnect :: bool

definition ap_new :: "string \<Rightarrow> wifi_ap" where
  "ap_new p = \<lparr>ap_connected = False, ap_frequency = 0, ap_maxBitrate = 0, ap_signalStrength = 0, ap_ssid = [], ap_bssid = [],
     ap_security = [], ap_mode = [], ap_objectPath = p\<rparr>"

text \<open>The settings of a connection: sections of named values.\<close>

datatype setting = SString string | SBytes "u8 list"

type_synonym settings = "(string \<times> (string \<times> setting) list) list"

section \<open>The bus\<close>

datatype bus_call =
    CreateProxy string | GetAllDevices | DeviceType string | SubscribeSignals string | RequestScan string
  | AccessPoints string | ActiveAccessPoint string | AddAndActivate settings string | DisconnectDevice string
  | DeviceState string | InterfaceName string | Ip4Config string | AddressData string | ApProperty string string

datatype bus_reply =
    RUnit | RPath string | RPaths "string list" | RPair string string | RU32 u32 | RU8 u8 | RBytes "u8 list" | RString string
  | RDicts "(string \<times> string) list list"

type_synonym 'w bus = "'w \<Rightarrow> bus_call \<Rightarrow> bus_reply option \<times> 'w"

fun as_u32 :: "bus_reply option \<Rightarrow> u32 option" where
  "as_u32 (Some (RU32 n)) = Some n" | "as_u32 _ = None"
fun as_u8 :: "bus_reply option \<Rightarrow> u8 option" where
  "as_u8 (Some (RU8 n)) = Some n" | "as_u8 _ = None"
fun as_path :: "bus_reply option \<Rightarrow> string option" where
  "as_path (Some (RPath p)) = Some p" | "as_path _ = None"
fun as_paths :: "bus_reply option \<Rightarrow> string list option" where
  "as_paths (Some (RPaths p)) = Some p" | "as_paths _ = None"
fun as_bytes :: "bus_reply option \<Rightarrow> u8 list option" where
  "as_bytes (Some (RBytes b)) = Some b" | "as_bytes _ = None"
fun as_string :: "bus_reply option \<Rightarrow> string option" where
  "as_string (Some (RString s)) = Some s" | "as_string _ = None"

section \<open>The handler\<close>

record wifi =
  wf_attached :: bool
  wf_device :: "string option"
  wf_devicePath :: string
  wf_state :: wifi_state
  wf_activePath :: string
  wf_autoReconnect :: bool
  wf_lastSsid :: string
  wf_lastPassword :: string
  wf_results :: "wifi_ap list"
  wf_refreshPending :: bool

definition wifi_new :: wifi where
  "wifi_new = \<lparr>wf_attached = False, wf_device = None, wf_devicePath = [], wf_state = Disconnected, wf_activePath = [],
     wf_autoReconnect = True, wf_lastSsid = [], wf_lastPassword = [], wf_results = [], wf_refreshPending = False\<rparr>"

definition mapDeviceState :: "u32 \<Rightarrow> wifi_state" where
  "mapDeviceState n =
     (if n = 10 \<or> n = 20 then WifiError
      else if n = 30 then Disconnected
      else if n = 40 \<or> n = 50 \<or> n = 60 \<or> n = 70 \<or> n = 80 \<or> n = 90 then Connecting
      else if n = 100 then Connected
      else if n = 110 then Disconnecting
      else WifiError)"

definition flagsToSecurity :: "u32 \<Rightarrow> u32 \<Rightarrow> string" where
  "flagsToSecurity wpaFlags rsnFlags =
     (let hasWpa = (and wpaFlags 0x10 \<noteq> 0); hasRsn = (and rsnFlags 0x20 \<noteq> 0); hasSae = (and rsnFlags 0x20000000 \<noteq> 0) in
      if hasSae then ''WPA3'' else if hasWpa \<and> hasRsn then ''WPA2/WPA3'' else if hasRsn then ''WPA2''
      else if hasWpa then ''WPA'' else ''OPEN'')"

definition ssidBytesToString :: "u8 list \<Rightarrow> string" where
  "ssidBytesToString bs = map (\<lambda>b. char_of (unat b)) bs"

definition getDeviceState :: "'w bus \<Rightarrow> wifi \<Rightarrow> 'w \<Rightarrow> u32 \<times> 'w" where
  "getDeviceState bus s w =
     (case wf_device s of
        None \<Rightarrow> (0, w)
      | Some d \<Rightarrow> (let (r, w) = bus w (DeviceState d) in (case as_u32 r of Some n \<Rightarrow> n | None \<Rightarrow> 0, w)))"

definition syncDeviceState :: "'w bus \<Rightarrow> wifi \<Rightarrow> 'w \<Rightarrow> wifi \<times> 'w" where
  "syncDeviceState bus s w = (let (n, w) = getDeviceState bus s w in (s\<lparr>wf_state := mapDeviceState n\<rparr>, w))"

text \<open>The loop over the devices: the outer \<open>None\<close> is an exception.\<close>

fun find_wireless :: "'w bus \<Rightarrow> string list \<Rightarrow> 'w \<Rightarrow> string option option \<times> 'w" where
  "find_wireless bus [] w = (Some None, w)"
| "find_wireless bus (p # ps) w =
     (case bus w (CreateProxy p) of
        (None, w) \<Rightarrow> (None, w)
      | (Some _, w) \<Rightarrow>
          (case bus w (DeviceType p) of (r, w) \<Rightarrow>
             (case as_u32 r of
                None \<Rightarrow> (None, w)
              | Some t \<Rightarrow> if t = 2 then (Some (Some p), w) else find_wireless bus ps w)))"

definition findWirelessDevice :: "'w bus \<Rightarrow> wifi \<Rightarrow> 'w \<Rightarrow> bool \<times> wifi \<times> 'w" where
  "findWirelessDevice bus s w =
     (let (r, w) = bus w GetAllDevices in
      case as_paths r of
        None \<Rightarrow> (False, s, w)
      | Some ps \<Rightarrow>
          (case find_wireless bus ps w of
             (Some (Some p), w) \<Rightarrow> (True, s\<lparr>wf_devicePath := p, wf_device := Some p\<rparr>, w)
           | (_, w) \<Rightarrow> (False, s, w)))"

definition wifi_open :: "'w bus \<Rightarrow> wifi \<Rightarrow> 'w \<Rightarrow> result_code \<times> wifi \<times> 'w" where
  "wifi_open bus s w =
     (let (found, s, w) = findWirelessDevice bus (s\<lparr>wf_attached := True\<rparr>) w in
      if \<not> found then (Fail, s, w)
      else let w = (case wf_device s of Some d \<Rightarrow> snd (bus w (SubscribeSignals d)) | None \<Rightarrow> w);
               (s, w) = syncDeviceState bus s w
           in (Ok, s, w))"

definition wifi_close :: "wifi \<Rightarrow> wifi" where
  "wifi_close s = s\<lparr>wf_refreshPending := False, wf_activePath := [], wf_devicePath := [], wf_device := None,
     wf_attached := False, wf_state := Disconnected\<rparr>"

text \<open>The handlers of the three signals, which run on the thread of the bus.\<close>

datatype wifi_signal = AccessPointAdded | AccessPointRemoved | PropertiesChanged string

definition wifi_on_signal :: "wifi_signal \<Rightarrow> wifi \<Rightarrow> wifi" where
  "wifi_on_signal g s =
     (case g of
        PropertiesChanged i \<Rightarrow>
          if i = ''org.freedesktop.NetworkManager.Device.Wireless'' then s\<lparr>wf_refreshPending := True\<rparr> else s
      | _ \<Rightarrow> s\<lparr>wf_refreshPending := True\<rparr>)"

definition consumeScanRefreshPending :: "wifi \<Rightarrow> bool \<times> wifi" where
  "consumeScanRefreshPending s = (wf_refreshPending s, s\<lparr>wf_refreshPending := False\<rparr>)"

definition requestScan :: "'w bus \<Rightarrow> wifi \<Rightarrow> 'w \<Rightarrow> wifi \<times> 'w" where
  "requestScan bus s w =
     (if wf_devicePath s = [] then (s, w)
      else if wf_state s \<noteq> Disconnected \<and> wf_state s \<noteq> Connected then (s, w)
      else case wf_device s of
             None \<Rightarrow> (s, w)
           | Some d \<Rightarrow>
               (case bus w (RequestScan d) of (Some _, w) \<Rightarrow> (s\<lparr>wf_state := Scanning\<rparr>, w) | (None, w) \<Rightarrow> (s, w)))"

definition getActiveApPath :: "'w bus \<Rightarrow> wifi \<Rightarrow> 'w \<Rightarrow> string \<times> 'w" where
  "getActiveApPath bus s w =
     (case wf_device s of
        None \<Rightarrow> ([], w)
      | Some d \<Rightarrow> (let (r, w) = bus w (ActiveAccessPoint d) in (case as_path r of Some p \<Rightarrow> p | None \<Rightarrow> [], w)))"

text \<open>Each property of an access point is read on its own; one that cannot be read keeps its default.\<close>

definition readApInfo :: "'w bus \<Rightarrow> string \<Rightarrow> 'w \<Rightarrow> wifi_ap option \<times> 'w" where
  "readApInfo bus p w =
     (case bus w (CreateProxy p) of
        (None, w) \<Rightarrow> (None, w)
      | (Some _, w) \<Rightarrow>
          (let (r1, w) = bus w (ApProperty p ''Ssid'');
               (r2, w) = bus w (ApProperty p ''HwAddress'');
               (r3, w) = bus w (ApProperty p ''Frequency'');
               (r4, w) = bus w (ApProperty p ''MaxBitrate'');
               (r5, w) = bus w (ApProperty p ''Strength'');
               (r6, w) = bus w (ApProperty p ''Mode'');
               (r7, w) = bus w (ApProperty p ''WpaFlags'');
               (r8, w) = (case as_u32 r7 of Some _ \<Rightarrow> bus w (ApProperty p ''RsnFlags'') | None \<Rightarrow> (None, w));
               a = ap_new p;
               a = (case as_bytes r1 of Some b \<Rightarrow> a\<lparr>ap_ssid := ssidBytesToString b\<rparr> | None \<Rightarrow> a);
               a = (case as_string r2 of Some h \<Rightarrow> a\<lparr>ap_bssid := h\<rparr> | None \<Rightarrow> a);
               a = (case as_u32 r3 of Some f \<Rightarrow> a\<lparr>ap_frequency := ucast f\<rparr> | None \<Rightarrow> a);
               a = (case as_u32 r4 of Some f \<Rightarrow> a\<lparr>ap_maxBitrate := f\<rparr> | None \<Rightarrow> a);
               a = (case as_u8 r5 of Some f \<Rightarrow> a\<lparr>ap_signalStrength := uint f - 100\<rparr> | None \<Rightarrow> a);
               a = (case as_u32 r6 of Some f \<Rightarrow> a\<lparr>ap_mode := (if f = 0 then ''infrastructure'' else ''adhoc'')\<rparr> | None \<Rightarrow> a);
               a = (case (as_u32 r7, as_u32 r8) of (Some x, Some y) \<Rightarrow> a\<lparr>ap_security := flagsToSecurity x y\<rparr> | _ \<Rightarrow> a)
           in (Some a, w)))"

fun read_aps :: "'w bus \<Rightarrow> string \<Rightarrow> string list \<Rightarrow> 'w \<Rightarrow> wifi_ap list option \<times> 'w" where
  "read_aps bus active [] w = (Some [], w)"
| "read_aps bus active (p # ps) w =
     (case readApInfo bus p w of
        (None, w) \<Rightarrow> (None, w)
      | (Some a, w) \<Rightarrow>
          (case read_aps bus active ps w of
             (None, w) \<Rightarrow> (None, w)
           | (Some as, w) \<Rightarrow> (Some ((if p = active then a\<lparr>ap_connected := True\<rparr> else a) # as), w)))"

definition refreshAps :: "'w bus \<Rightarrow> wifi \<Rightarrow> 'w \<Rightarrow> wifi \<times> 'w" where
  "refreshAps bus s w =
     (if wf_devicePath s = [] then (s, w)
      else case wf_device s of
             None \<Rightarrow> (s, w)
           | Some d \<Rightarrow>
               (let (r, w) = bus w (AccessPoints d) in
                case as_paths r of
                  None \<Rightarrow> (s, w)
                | Some ps \<Rightarrow>
                    (let (active, w) = getActiveApPath bus s w in
                     case read_aps bus active ps w of
                       (None, w) \<Rightarrow> (s, w)
                     | (Some aps, w) \<Rightarrow> (s\<lparr>wf_results := aps\<rparr>, w))))"

definition wifi_settings :: "string \<Rightarrow> string \<Rightarrow> settings" where
  "wifi_settings ssid password =
     [(''connection'', [(''type'', SString ''802-11-wireless''), (''id'', SString ssid)]),
      (''802-11-wireless'', [(''ssid'', SBytes (map (\<lambda>c. word_of_nat (of_char c)) ssid)), (''mode'', SString ''infrastructure'')])]
     @ (if password \<noteq> []
        then [(''802-11-wireless-security'', [(''key-mgmt'', SString ''wpa-psk''), (''psk'', SString password)])] else [])"

definition addAndActivateConnection :: "'w bus \<Rightarrow> string \<Rightarrow> string \<Rightarrow> wifi \<Rightarrow> 'w \<Rightarrow> bool \<times> wifi \<times> 'w" where
  "addAndActivateConnection bus ssid password s w =
     (if wf_devicePath s = [] then (False, s, w)
      else if wf_state s \<noteq> Disconnected \<and> wf_state s \<noteq> Connected then (False, s, w)
      else let s = s\<lparr>wf_state := Connecting\<rparr>;
               (r, w) = bus w (AddAndActivate (wifi_settings ssid password) (wf_devicePath s))
           in case r of
                Some (RPair conn active) \<Rightarrow>
                  (True, s\<lparr>wf_activePath := active, wf_lastSsid := ssid, wf_lastPassword := password, wf_state := Connected\<rparr>, w)
              | _ \<Rightarrow> (False, s\<lparr>wf_state := Disconnected\<rparr>, w))"

definition disconnectDevice :: "'w bus \<Rightarrow> wifi \<Rightarrow> 'w \<Rightarrow> bool \<times> wifi \<times> 'w" where
  "disconnectDevice bus s w =
     (if wf_state s \<noteq> Connected \<and> wf_state s \<noteq> Connecting then (False, s, w)
      else let s = s\<lparr>wf_state := Disconnecting\<rparr> in
        case wf_device s of
          None \<Rightarrow> (False, s, w)
        | Some d \<Rightarrow>
            (case bus w (DisconnectDevice d) of
               (Some _, w) \<Rightarrow> (True, s\<lparr>wf_activePath := [], wf_state := Disconnected\<rparr>, w)
             | (None, w) \<Rightarrow> (False, s\<lparr>wf_state := Connected\<rparr>, w)))"

definition autoReconnect :: "'w bus \<Rightarrow> wifi \<Rightarrow> 'w \<Rightarrow> wifi \<times> 'w" where
  "autoReconnect bus s w =
     (if wf_autoReconnect s \<and> wf_state s = Disconnected \<and> wf_lastSsid s \<noteq> []
      then snd (addAndActivateConnection bus (wf_lastSsid s) (wf_lastPassword s) s w) else (s, w))"

definition readInterfaceName :: "'w bus \<Rightarrow> wifi \<Rightarrow> 'w \<Rightarrow> string \<times> 'w" where
  "readInterfaceName bus s w =
     (case wf_device s of
        None \<Rightarrow> ([], w)
      | Some d \<Rightarrow> (let (r, w) = bus w (InterfaceName d) in (case as_string r of Some n \<Rightarrow> n | None \<Rightarrow> [], w)))"

definition readIp4Address :: "'w bus \<Rightarrow> wifi \<Rightarrow> 'w \<Rightarrow> string \<times> 'w" where
  "readIp4Address bus s w =
     (case wf_device s of
        None \<Rightarrow> ([], w)
      | Some d \<Rightarrow>
          (let (r, w) = bus w (Ip4Config d) in
           case as_path r of
             None \<Rightarrow> ([], w)
           | Some p \<Rightarrow>
               if p = [] \<or> p = ''/'' then ([], w)
               else case bus w (CreateProxy p) of
                      (None, w) \<Rightarrow> ([], w)
                    | (Some _, w) \<Rightarrow>
                        (let (r, w) = bus w (AddressData p) in
                         (case r of
                            Some (RDicts (a # _)) \<Rightarrow> (case map_of a ''address'' of Some v \<Rightarrow> v | None \<Rightarrow> [])
                          | _ \<Rightarrow> [], w))))"

section \<open>The network manager\<close>

datatype nm_msg =
    NmTick | WifiScanRequest | WifiConnectRequest string string | WifiDisconnectRequest | WifiAutoReconnectRequest bool
  | NmStatusRequest

datatype nm_reply =
    WifiScanResult "wifi_ap list" | WifiConnectResult bool string | WifiDisconnectResult bool | WifiStatusResult wifi_status

record network_manager =
  nm_state :: actor_state
  nm_connected :: bool
  nm_wifi :: wifi
  nm_timers :: nat

definition network_manager_new :: network_manager where
  "network_manager_new = \<lparr>nm_state = Closed, nm_connected = False, nm_wifi = wifi_new, nm_timers = 0\<rparr>"

definition nm_close :: "network_manager \<Rightarrow> result_code \<times> network_manager" where
  "nm_close s =
     (if nm_state s = Closed then (Ok, s)
      else (Ok, s\<lparr>nm_timers := 0, nm_wifi := wifi_close (nm_wifi s), nm_connected := False, nm_state := Closed\<rparr>))"

text \<open>Up to four attempts, with a pause after each failure.\<close>

fun wifi_attempts :: "nat \<Rightarrow> 'w bus \<Rightarrow> wifi \<Rightarrow> 'w \<Rightarrow> bool \<times> wifi \<times> 'w" where
  "wifi_attempts 0 bus s w = (False, s, w)"
| "wifi_attempts (Suc n) bus s w =
     (case wifi_open bus s w of (r, s, w) \<Rightarrow> if r = Ok then (True, s, w) else wifi_attempts n bus s w)"

text \<open>\<open>dbus\<close> says whether the D-Bus actor is found and opened.\<close>

definition nm_open :: "bool \<Rightarrow> 'w bus \<Rightarrow> network_manager \<Rightarrow> 'w \<Rightarrow> result_code \<times> network_manager \<times> 'w" where
  "nm_open dbus bus s w =
     (let s = (if nm_state s \<noteq> Closed then snd (nm_close s) else s) in
      if \<not> dbus then (Fail, s\<lparr>nm_connected := False, nm_state := Closed\<rparr>, w)
      else let (wifiOk, f, w) = wifi_attempts 4 bus (nm_wifi s) w in
        (Ok, s\<lparr>nm_connected := True, nm_wifi := f, nm_timers := (if wifiOk then nm_timers s + 1 else nm_timers s),
               nm_state := Opened\<rparr>, w))"

text \<open>A status report; an exception while the access point is read leaves the handler.\<close>

definition wifi_report :: "'w bus \<Rightarrow> wifi \<Rightarrow> 'w \<Rightarrow> wifi_status option \<times> 'w" where
  "wifi_report bus s w =
     (let r = \<lparr>wt_connected = (wf_state s = Connected), wt_ssid = [], wt_ipAddress = [], wt_state = wf_state s,
               wt_interfaceName = [], wt_signalStrength = 0, wt_autoReconnect = wf_autoReconnect s\<rparr> in
      if wf_devicePath s = [] then (Some r, w)
      else let (n, w) = readInterfaceName bus s w; r = r\<lparr>wt_interfaceName := n\<rparr> in
        if \<not> wt_connected r then (Some r, w)
        else let (p, w) = getActiveApPath bus s w in
          case (if p = [] then (Some r, w)
                else case readApInfo bus p w of
                       (None, w) \<Rightarrow> (None, w)
                     | (Some a, w) \<Rightarrow> (Some (r\<lparr>wt_ssid := ap_ssid a, wt_signalStrength := ap_signalStrength a\<rparr>), w)) of
            (None, w) \<Rightarrow> (None, w)
          | (Some r, w) \<Rightarrow> (let (ip, w) = readIp4Address bus s w in (Some (r\<lparr>wt_ipAddress := ip\<rparr>), w)))"

definition reportStatus :: "'w bus \<Rightarrow> wifi \<Rightarrow> 'w \<Rightarrow> nm_reply outgoing \<times> bool \<times> 'w" where
  "reportStatus bus s w =
     (case wifi_report bus s w of
        (Some r, w) \<Rightarrow> ([(''cmd'', WifiStatusResult r)], False, w)
      | (None, w) \<Rightarrow> ([], True, w))"

text \<open>The result: the new state, what is sent, whether an exception leaves the handler, the world.\<close>

definition nm_tick :: "'w bus \<Rightarrow> wifi \<Rightarrow> 'w \<Rightarrow> wifi \<times> nm_reply outgoing \<times> bool \<times> 'w" where
  "nm_tick bus f w =
     (let (f, w) = syncDeviceState bus f w;
          (pending, f) = consumeScanRefreshPending f;
          (f, w) = (if pending then refreshAps bus f w else (f, w));
          out = (if pending then [(''cmd'', WifiScanResult (wf_results f))] else []);
          (f, w) = autoReconnect bus f w;
          (out', thrown, w) = reportStatus bus f w
      in (f, out @ out', thrown, w))"

definition nm_dispatch :: "'w bus \<Rightarrow> nm_msg \<Rightarrow> wifi \<Rightarrow> 'w \<Rightarrow> wifi \<times> nm_reply outgoing \<times> bool \<times> 'w" where
  "nm_dispatch bus m f w =
     (case m of
        NmTick \<Rightarrow> nm_tick bus f w
      | WifiScanRequest \<Rightarrow> (let (f, w) = requestScan bus f w in (f, [], False, w))
      | WifiConnectRequest ssid password \<Rightarrow>
          (let (ok, f, w) = addAndActivateConnection bus ssid password f w in
           (f, [(''cmd'', WifiConnectResult ok (if ok then [] else ''Invalid state or device''))], False, w))
      | WifiDisconnectRequest \<Rightarrow>
          (let (ok, f, w) = disconnectDevice bus f w in (f, [(''cmd'', WifiDisconnectResult ok)], False, w))
      | WifiAutoReconnectRequest b \<Rightarrow> (f\<lparr>wf_autoReconnect := b\<rparr>, [], False, w)
      | NmStatusRequest \<Rightarrow> (let (out, thrown, w) = reportStatus bus f w in (f, out, thrown, w)))"

definition nm_handle ::
  "'w bus \<Rightarrow> nm_msg \<Rightarrow> network_manager \<Rightarrow> 'w \<Rightarrow> network_manager \<times> nm_reply outgoing \<times> bool \<times> 'w" where
  "nm_handle bus m s w =
     (if \<not> accepts (nm_state s) then (s, [], False, w)
      else let (f, out, thrown, w) = nm_dispatch bus m (nm_wifi s) w in (s\<lparr>nm_wifi := f\<rparr>, out, thrown, w))"

section \<open>The device and the state\<close>

text \<open>Object paths on the bus are never empty.\<close>

definition bus_paths_ok :: "'w bus \<Rightarrow> bool" where
  "bus_paths_ok bus \<longleftrightarrow> (\<forall>w ps w'. bus w GetAllDevices = (Some (RPaths ps), w') \<longrightarrow> [] \<notin> set ps)"

definition wifi_ok :: "wifi \<Rightarrow> bool" where
  "wifi_ok s \<longleftrightarrow>
     (case wf_device s of
        None \<Rightarrow> wf_devicePath s = [] \<and> wf_activePath s = [] \<and> (wf_state s = Disconnected \<or> wf_state s = WifiError)
      | Some d \<Rightarrow> wf_devicePath s = d \<and> d \<noteq> [])"

lemma find_wireless_member: "find_wireless bus ps w = (Some (Some p), w') \<Longrightarrow> p \<in> set ps"
  by (induction bus ps w rule: find_wireless.induct) (auto split: prod.splits option.splits if_splits)

lemma as_paths_Some: "as_paths r = Some ps \<Longrightarrow> r = Some (RPaths ps)"
  by (cases r rule: as_paths.cases) simp_all

lemma findWirelessDevice_found:
  assumes "bus_paths_ok bus" and "findWirelessDevice bus s w = (b, s', w')"
  shows "(b \<and> (\<exists>p. p \<noteq> [] \<and> s' = s\<lparr>wf_devicePath := p, wf_device := Some p\<rparr>)) \<or> (\<not> b \<and> s' = s)"
proof -
  obtain r w1 where g: "bus w GetAllDevices = (r, w1)" by fastforce
  show ?thesis
  proof (cases "as_paths r")
    case (Some ps)
    then have ne: "[] \<notin> set ps" using assms(1) g as_paths_Some unfolding bus_paths_ok_def by blast
    obtain f w2 where h: "find_wireless bus ps w1 = (f, w2)" by fastforce
    show ?thesis
    proof (cases "\<exists>p. f = Some (Some p)")
      case True
      then obtain p where p: "f = Some (Some p)" by blast
      then have "p \<in> set ps" using h by (simp add: find_wireless_member)
      then have "p \<noteq> []" using ne by metis
      then show ?thesis using assms(2) by (auto simp: findWirelessDevice_def g Some h p)
    next
      case False
      then have "b = False \<and> s' = s"
        using assms(2) by (auto simp: findWirelessDevice_def g Some h split: option.splits)
      then show ?thesis by simp
    qed
  qed (use assms(2) g in \<open>simp add: findWirelessDevice_def\<close>)
qed

lemma wifi_ok_found: "p \<noteq> [] \<Longrightarrow> wifi_ok (s\<lparr>wf_devicePath := p, wf_device := Some p, wf_state := x\<rparr>)"
  by (simp add: wifi_ok_def)

lemma wifi_ok_attached [simp]: "wifi_ok (s\<lparr>wf_attached := b\<rparr>) = wifi_ok s"
  by (simp add: wifi_ok_def split: option.split)

lemma syncDeviceState_ok: "wifi_ok s \<Longrightarrow> wifi_ok (fst (syncDeviceState bus s w))"
  by (cases "wf_device s") (simp_all add: syncDeviceState_def getDeviceState_def wifi_ok_def mapDeviceState_def case_prod_beta Let_def)

lemma wifi_open_ok:
  assumes "bus_paths_ok bus" and "wifi_ok s"
  shows "wifi_ok (fst (snd (wifi_open bus s w)))"
proof -
  obtain b s' w' where f: "findWirelessDevice bus (s\<lparr>wf_attached := True\<rparr>) w = (b, s', w')" by (metis prod_cases3)
  have "wifi_ok (s\<lparr>wf_attached := True\<rparr>)" using assms(2) by simp
  then have ok: "wifi_ok s'"
    using findWirelessDevice_found[OF assms(1) f] by (elim disjE conjE exE) (simp_all add: wifi_ok_def)
  then show ?thesis
    using syncDeviceState_ok[OF ok, of bus "case wf_device s' of None \<Rightarrow> w' | Some d \<Rightarrow> snd (bus w' (SubscribeSignals d))"]
    by (simp add: wifi_open_def f case_prod_beta Let_def)
qed

lemma wifi_attempts_ok:
  "bus_paths_ok bus \<Longrightarrow> wifi_ok s \<Longrightarrow> wifi_ok (fst (snd (wifi_attempts n bus s w)))"
proof (induction n arbitrary: s w)
  case (Suc n)
  obtain r s' w' where o: "wifi_open bus s w = (r, s', w')" by (metis prod_cases3)
  then have "wifi_ok s'" using wifi_open_ok[OF Suc.prems, of w] by simp
  then show ?case using Suc.IH[OF Suc.prems(1)] by (simp add: o)
qed simp

lemma wifi_close_ok [simp]: "wifi_ok (wifi_close s)"
  by (simp add: wifi_ok_def wifi_close_def)

lemma wifi_on_signal_ok [simp]: "wifi_ok (wifi_on_signal g s) = wifi_ok s"
  by (simp add: wifi_ok_def wifi_on_signal_def split: wifi_signal.split option.split)

lemma requestScan_ok:
  "wifi_ok s \<Longrightarrow> wifi_ok (fst (requestScan bus s w)) \<and>
     (wf_state (fst (requestScan bus s w)) = wf_state s \<or> wf_state (fst (requestScan bus s w)) = Scanning)"
  by (auto simp: requestScan_def wifi_ok_def split: option.split prod.split)

lemma refreshAps_keeps:
  "wf_state (fst (refreshAps bus s w)) = wf_state s" "wf_device (fst (refreshAps bus s w)) = wf_device s"
  "wf_devicePath (fst (refreshAps bus s w)) = wf_devicePath s" "wf_activePath (fst (refreshAps bus s w)) = wf_activePath s"
  "wf_autoReconnect (fst (refreshAps bus s w)) = wf_autoReconnect s" "wf_lastSsid (fst (refreshAps bus s w)) = wf_lastSsid s"
  by (auto simp: refreshAps_def Let_def split: option.split prod.split)

lemma refreshAps_ok: "wifi_ok s \<Longrightarrow> wifi_ok (fst (refreshAps bus s w))"
  by (simp add: wifi_ok_def refreshAps_keeps split: option.splits)

lemma addAndActivate_ok:
  assumes "wifi_ok s" and "addAndActivateConnection bus ssid password s w = (b, s', w')"
  shows "wifi_ok s' \<and> (s' = s \<or> wf_state s' = Connected \<or> wf_state s' = Disconnected)"
  using assms
  by (cases "wf_device s")
    (auto simp: addAndActivateConnection_def wifi_ok_def Let_def split: if_splits prod.splits option.splits bus_reply.splits)

lemma disconnectDevice_ok:
  assumes "wifi_ok s" and "disconnectDevice bus s w = (b, s', w')"
  shows "wifi_ok s' \<and> (s' = s \<or> wf_state s' = Connected \<or> wf_state s' = Disconnected)"
  using assms
  by (cases "wf_device s") (auto simp: disconnectDevice_def wifi_ok_def Let_def split: if_splits prod.splits option.splits)

lemma autoReconnect_ok: "wifi_ok s \<Longrightarrow> wifi_ok (fst (autoReconnect bus s w))"
proof -
  assume s: "wifi_ok s"
  obtain b s' w' where a: "addAndActivateConnection bus (wf_lastSsid s) (wf_lastPassword s) s w = (b, s', w')"
    by (metis prod_cases3)
  show ?thesis using addAndActivate_ok[OF s a] s by (simp add: autoReconnect_def a)
qed

lemma wifi_ok_flags [simp]:
  "wifi_ok (s\<lparr>wf_refreshPending := b\<rparr>) = wifi_ok s" "wifi_ok (s\<lparr>wf_autoReconnect := b\<rparr>) = wifi_ok s"
  by (simp_all add: wifi_ok_def split: option.split)

lemma nm_dispatch_ok:
  assumes "wifi_ok f" and "nm_dispatch bus m f w = (f', out, thrown, w')"
  shows "wifi_ok f' \<and> (m = NmTick \<or> wf_state f' = wf_state f \<or> wf_state f' \<in> {Connected, Disconnected, Scanning})"
proof (cases m)
  case NmTick
  have "wifi_ok (fst (syncDeviceState bus f w))" by (rule syncDeviceState_ok[OF assms(1)])
  then show ?thesis
    using assms(2)
    by (auto simp: NmTick nm_dispatch_def nm_tick_def consumeScanRefreshPending_def Let_def case_prod_beta refreshAps_ok
        autoReconnect_ok split: if_splits)
next
  case WifiScanRequest
  then show ?thesis
    using assms requestScan_ok[OF assms(1), of bus w] by (auto simp: nm_dispatch_def case_prod_beta Let_def)
next
  case (WifiConnectRequest ssid password)
  obtain ok g v where a: "addAndActivateConnection bus ssid password f w = (ok, g, v)" by (metis prod_cases3)
  then show ?thesis
    using assms(2) addAndActivate_ok[OF assms(1) a] by (auto simp: WifiConnectRequest nm_dispatch_def)
next
  case WifiDisconnectRequest
  obtain ok g v where a: "disconnectDevice bus f w = (ok, g, v)" by (metis prod_cases3)
  then show ?thesis
    using assms(2) disconnectDevice_ok[OF assms(1) a] by (auto simp: WifiDisconnectRequest nm_dispatch_def)
qed (use assms in \<open>auto simp: nm_dispatch_def case_prod_beta Let_def\<close>)

text \<open>Everything that happens to the actor: it is opened and closed, gets messages, and the bus raises signals.\<close>

datatype nm_event = NmOpen bool | NmClose | NmMessage nm_msg | NmSignal wifi_signal

fun nm_step :: "'w bus \<Rightarrow> nm_event \<Rightarrow> network_manager \<times> 'w \<Rightarrow> network_manager \<times> 'w" where
  "nm_step bus (NmOpen dbus) (s, w) = snd (nm_open dbus bus s w)"
| "nm_step bus NmClose (s, w) = (snd (nm_close s), w)"
| "nm_step bus (NmMessage m) (s, w) = (let (s, _, _, w) = nm_handle bus m s w in (s, w))"
| "nm_step bus (NmSignal g) (s, w) = (s\<lparr>nm_wifi := wifi_on_signal g (nm_wifi s)\<rparr>, w)"

lemma nm_handle_ok:
  assumes "wifi_ok (nm_wifi s)" and "nm_handle bus m s w = (s', out, thrown, w')"
  shows "wifi_ok (nm_wifi s') \<and>
    (m = NmTick \<or> wf_state (nm_wifi s') = wf_state (nm_wifi s) \<or> wf_state (nm_wifi s') \<in> {Connected, Disconnected, Scanning})"
proof -
  obtain f o' th v where d: "nm_dispatch bus m (nm_wifi s) w = (f, o', th, v)" by (metis prod_cases4)
  show ?thesis
    using nm_dispatch_ok[OF assms(1) d] assms by (auto simp: nm_handle_def d split: if_splits)
qed

lemma nm_step_ok:
  assumes "bus_paths_ok bus" and "wifi_ok (nm_wifi s)"
  shows "wifi_ok (nm_wifi (fst (nm_step bus e (s, w))))"
proof (cases e)
  case (NmOpen dbus)
  have "wifi_ok (nm_wifi (if nm_state s \<noteq> Closed then snd (nm_close s) else s))"
    using assms(2) by (simp add: nm_close_def)
  from wifi_attempts_ok[OF assms(1) this, of 4 w] this show ?thesis
    by (simp add: NmOpen nm_open_def Let_def case_prod_beta)
next
  case (NmMessage m)
  obtain s' out th w' where h: "nm_handle bus m s w = (s', out, th, w')" by (metis prod_cases4)
  show ?thesis using nm_handle_ok[OF assms(2) h] by (simp add: NmMessage h)
qed (use assms in \<open>simp_all add: nm_close_def\<close>)

fun nm_runs :: "'w bus \<Rightarrow> nm_event list \<Rightarrow> network_manager \<times> 'w \<Rightarrow> network_manager \<times> 'w" where
  "nm_runs bus [] c = c"
| "nm_runs bus (e # es) c = nm_runs bus es (nm_step bus e c)"

lemma nm_runs_ok: "bus_paths_ok bus \<Longrightarrow> wifi_ok (nm_wifi (fst c)) \<Longrightarrow> wifi_ok (nm_wifi (fst (nm_runs bus es c)))"
proof (induction es arbitrary: c)
  case (Cons e es)
  have "wifi_ok (nm_wifi (fst (nm_step bus e c)))"
    using nm_step_ok[OF Cons.prems, of e "snd c"] by simp
  then show ?case using Cons.IH[OF Cons.prems(1)] by simp
qed simp

text \<open>
  C27: After any history of opening, closing, messages and signals, without a device the state is disconnected or an
  error; and no request leaves the machine connecting or disconnecting unless it was so before: the states in between
  come from the device alone.
\<close>
theorem wifi_states_in_between:
  assumes "bus_paths_ok bus" and "nm_runs bus es (network_manager_new, w0) = (s, w)"
  shows "(wf_device (nm_wifi s) = None \<longrightarrow> wf_state (nm_wifi s) = Disconnected \<or> wf_state (nm_wifi s) = WifiError)
    \<and> (\<forall>m. m \<noteq> NmTick \<longrightarrow> (case nm_handle bus m s w of (s', _) \<Rightarrow>
         wf_state (nm_wifi s') = Connecting \<or> wf_state (nm_wifi s') = Disconnecting
         \<longrightarrow> wf_state (nm_wifi s') = wf_state (nm_wifi s)))"
proof -
  have "wifi_ok (nm_wifi network_manager_new)" by (simp add: network_manager_new_def wifi_new_def wifi_ok_def)
  then have ok: "wifi_ok (nm_wifi s)" using nm_runs_ok[OF assms(1), of "(network_manager_new, w0)" es] assms(2) by simp
  have "case nm_handle bus m s w of (s', _) \<Rightarrow>
         wf_state (nm_wifi s') = Connecting \<or> wf_state (nm_wifi s') = Disconnecting
         \<longrightarrow> wf_state (nm_wifi s') = wf_state (nm_wifi s)" if "m \<noteq> NmTick" for m
  proof -
    obtain s' out th w' where h: "nm_handle bus m s w = (s', out, th, w')" by (metis prod_cases4)
    show ?thesis using nm_handle_ok[OF ok h] that by (auto simp: h)
  qed
  then show ?thesis using ok by (auto simp: wifi_ok_def split: option.splits)
qed

text \<open>A bus with one wireless device that does what it is told; the world is the state of the device.\<close>

fun demo_bus :: "u32 bus" where
  "demo_bus w GetAllDevices = (Some (RPaths [''/dev/1'']), w)"
| "demo_bus w (DeviceType p) = (Some (RU32 2), w)"
| "demo_bus w (DeviceState p) = (Some (RU32 w), w)"
| "demo_bus w (AddAndActivate st p) = (Some (RPair ''/conn/1'' ''/active/1''), 100)"
| "demo_bus w (DisconnectDevice p) = (Some RUnit, 30)"
| "demo_bus w _ = (Some RUnit, w)"

lemma demo_bus_paths_ok: "bus_paths_ok demo_bus"
  by (simp add: bus_paths_ok_def)

lemma wifi_attempts_4:
  "wifi_attempts 4 bus s w =
     (case wifi_open bus s w of (r, s, w) \<Rightarrow> if r = Ok then (True, s, w) else wifi_attempts (Suc (Suc (Suc 0))) bus s w)"
  by (simp add: numeral_eq_Suc)

definition demo_nm_events :: "nm_event list" where
  "demo_nm_events = [NmOpen True, NmMessage (WifiConnectRequest ''home'' ''secret'')]"

theorem wifi_states_in_between_witness:
  "case nm_runs demo_bus demo_nm_events (network_manager_new, 30) of (s, w) \<Rightarrow>
     (if wf_device (nm_wifi s) = None then wf_state (nm_wifi s) = Disconnected \<or> wf_state (nm_wifi s) = WifiError else True)
     \<and> (case nm_handle demo_bus (WifiConnectRequest ''cafe'' ''coffee'') s w of (s', _) \<Rightarrow>
         if wf_state (nm_wifi s') = Connecting \<or> wf_state (nm_wifi s') = Disconnecting
         then wf_state (nm_wifi s') = wf_state (nm_wifi s) else True)"
proof -
  obtain s w where r: "nm_runs demo_bus demo_nm_events (network_manager_new, 30) = (s, w)" by fastforce
  have "case nm_handle demo_bus (WifiConnectRequest ''cafe'' ''coffee'') s w of (s', _) \<Rightarrow>
      wf_state (nm_wifi s') = Connecting \<or> wf_state (nm_wifi s') = Disconnecting \<longrightarrow> wf_state (nm_wifi s') = wf_state (nm_wifi s)"
    by (rule mp[OF spec[OF conjunct2[OF wifi_states_in_between[OF demo_bus_paths_ok r]]]]) simp
  with wifi_states_in_between[OF demo_bus_paths_ok r, THEN conjunct1] show ?thesis
    unfolding r prod.case by (auto simp: case_prod_beta)
qed

section \<open>A disconnect that does not last\<close>

text \<open>While auto-reconnect is on, which is the default, a disconnect the user asked for is undone at the next tick: as
  soon as the device reports that it is disconnected, the last network is joined again.
\<close>
theorem tick_undoes_disconnect:
  assumes "nm_state s = Opened" and "wf_state (nm_wifi s) = Connected" and "wf_device (nm_wifi s) = Some d"
    and "wf_devicePath (nm_wifi s) = d" and "d \<noteq> []" and "wf_autoReconnect (nm_wifi s)" and "wf_lastSsid (nm_wifi s) \<noteq> []"
    and "\<not> wf_refreshPending (nm_wifi s)"
    and "bus w (DisconnectDevice d) = (Some x, w1)" and "bus w1 (DeviceState d) = (Some (RU32 30), w2)"
    and "bus w2 (AddAndActivate (wifi_settings (wf_lastSsid (nm_wifi s)) (wf_lastPassword (nm_wifi s))) d) = (Some (RPair c a), w3)"
  shows "case nm_handle bus WifiDisconnectRequest s w of (s1, out, _, v) \<Rightarrow>
      out = [(''cmd'', WifiDisconnectResult True)] \<and> wf_state (nm_wifi s1) = Disconnected \<and>
      (case nm_handle bus NmTick s1 v of (s2, _) \<Rightarrow> wf_state (nm_wifi s2) = Connected \<and> wf_activePath (nm_wifi s2) = a)"
  using assms
  by (simp add: nm_handle_def nm_dispatch_def nm_tick_def disconnectDevice_def autoReconnect_def addAndActivateConnection_def
      syncDeviceState_def getDeviceState_def mapDeviceState_def consumeScanRefreshPending_def case_prod_beta Let_def)

theorem tick_undoes_disconnect_witness:
  "case nm_handle demo_bus WifiDisconnectRequest (fst (nm_runs demo_bus demo_nm_events (network_manager_new, 30))) 100 of (s1, out, _, v) \<Rightarrow>
      out = [(''cmd'', WifiDisconnectResult True)] \<and> wf_state (nm_wifi s1) = Disconnected \<and>
      (case nm_handle demo_bus NmTick s1 v of (s2, _) \<Rightarrow> wf_state (nm_wifi s2) = Connected \<and> wf_activePath (nm_wifi s2) = ''/active/1'')"
  by (rule tick_undoes_disconnect[where d = "''/dev/1''" and x = RUnit and c = "''/conn/1''" and ?w1.0 = 30 and ?w2.0 = 30 and ?w3.0 = 100])
    (simp_all add: demo_nm_events_def network_manager_new_def wifi_new_def nm_open_def wifi_open_def findWirelessDevice_def
      syncDeviceState_def getDeviceState_def mapDeviceState_def nm_handle_def nm_dispatch_def addAndActivateConnection_def
      wifi_attempts_4 Let_def)

end
