(* ===== verification/Cmd_Actor.thy ===== *)
theory Cmd_Actor
  imports Text_Format Wifi_Handler Metrics_Model Monitor_Data
begin

text \<open>
  The command actor (\<open>src/src/service/cmd/cmd_actor.cpp\<close>): it takes a command line apart, runs one of four handlers,
  and answers through the command socket. The registry of actors and the printing of floating-point numbers are
  parameters; the metrics are the model of \<open>Metrics_Model\<close>.
\<close>

section \<open>State and surroundings\<close>

record 'f cmd_actor =
  cm_state :: actor_state
  cm_name :: string
  cm_hasHandlers :: bool
  cm_lastScan :: "wifi_ap list"
  cm_lastStatus :: wifi_status
  cm_pendingConn :: int
  cm_pmuPending :: bool
  cm_lastConnectResult :: string
  cm_lastDisconnectResult :: string

datatype cmd_out =
    ToDeviceManager bool | ToWifi nm_msg | ToActor bool string | CmdResponse int string bool

text \<open>What the registry shows of an actor.\<close>

record actor_view =
  av_id :: u64
  av_name :: string
  av_state :: actor_state
  av_essential :: bool

record 'f cmd_env =
  ce_actors :: "actor_view option list"
  ce_byName :: "string \<Rightarrow> actor_view option"
  ce_byId :: "nat \<Rightarrow> actor_view option"
  ce_hasRegistry :: bool
  ce_float :: "'f \<Rightarrow> string"

section \<open>Formatting\<close>

fun state_text :: "actor_state \<Rightarrow> string" where
  "state_text Closed = ''Closed''"
| "state_text Closing = ''Closing''"
| "state_text Opening = ''Opening''"
| "state_text Opened = ''Opened''"
| "state_text Inherited = ''Inherited''"

definition quoted :: "string \<Rightarrow> string" where
  "quoted s = CHR 0x27 # s @ [CHR 0x27]"

text \<open>One line of the list goes through a buffer of 256 bytes.\<close>

definition actor_line :: "actor_view \<Rightarrow> string" where
  "actor_line a =
     take 255 (''  '' @ pad_left 3 (dec (unat (av_id a))) @ ''  '' @ pad_right 17 (av_name a) @ '' ''
       @ pad_right 10 (state_text (av_state a)) @ '' '' @ (if av_essential a then ''yes'' else ''no'') @ nl)"

definition doActorList :: "'f cmd_env \<Rightarrow> string" where
  "doActorList E =
     (if \<not> ce_hasRegistry E then ''error: actor registry unavailable'' @ nl
      else ''actor_count: '' @ dec (length (ce_actors E)) @ nl @ nl
        @ ''  ID  NAME              STATE      ESSENTIAL'' @ nl @ ''  --- ----------------- ---------- ---------'' @ nl
        @ concat (map (\<lambda>h. case h of None \<Rightarrow> [] | Some a \<Rightarrow> actor_line a) (ce_actors E)))"

definition doActorToggle :: "'f cmd_env \<Rightarrow> bool \<Rightarrow> string \<Rightarrow> string \<times> cmd_out list" where
  "doActorToggle E enable name =
     (if \<not> ce_hasRegistry E then (''error: actor registry unavailable'' @ nl, [])
      else case ce_byName E name of
             None \<Rightarrow> (''error: not found '' @ quoted name @ nl, [])
           | Some a \<Rightarrow>
               if av_essential a then (''error: '' @ quoted name @ '' is essential'' @ nl, [])
               else (''ok: '' @ quoted name @ '' '' @ (if enable then ''enabled'' else ''disabled'') @ nl, [ToActor enable name]))"

definition formatPmuStatus :: "'f cmd_env \<Rightarrow> 'f pmu_data \<Rightarrow> string" where
  "formatPmuStatus E d =
     (let hot = (pd_throttled d \<noteq> 0); f = ce_float E; mhz = (\<lambda>w. dec (unat w div 1000000)) in
      ''ARM   : '' @ mhz (pd_clockArmHz d) @ '' MHz'' @ nl
      @ ''Core  : '' @ mhz (pd_clockCoreHz d) @ '' MHz'' @ nl
      @ ''V3D   : '' @ mhz (pd_clockV3dHz d) @ '' MHz'' @ nl
      @ ''Temp  : '' @ f (pd_tempCelsius d) @ CHR '' '' # CHR 0xC2 # CHR 0xB0 # ''C'' @ nl
      @ ''Vcore : '' @ f (pd_voltCore d) @ '' V'' @ nl
      @ ''Icore : '' @ f (pd_currentVddCoreA d) @ '' A'' @ nl
      @ ''Mem   : ARM='' @ dec (unat (pd_memArmMb d)) @ ''M  GPU='' @ dec (unat (pd_memGpuMb d)) @ ''M'' @ nl
      @ (if hot then ''THROTTLED'' else ''Throttle'') @ '': 0x'' @ hex (unat (pd_throttled d))
      @ (if hot then '' (THROTTLED!)'' else '' (OK)'') @ nl)"

definition ap_line :: "wifi_ap \<Rightarrow> string" where
  "ap_line a =
     (let shown = ap_ssid a @ (if ap_connected a then '' (connected)'' else []);
          shown = (if shown = [] then ''[Unknown]'' else shown)
      in pad_right 40 shown @ pad_right 18 (ap_bssid a) @ pad_right 6 (ap_security a)
         @ pad_right 5 (dec_int (ap_signalStrength a)) @ pad_right 8 (dec (unat (ap_frequency a))) @ nl)"

definition formatApList :: "wifi_ap list \<Rightarrow> string" where
  "formatApList aps =
     pad_right 40 ''SSID'' @ pad_right 18 ''BSSID'' @ pad_right 6 ''SEC'' @ pad_right 5 ''SIG'' @ pad_right 8 ''FREQ''
     @ nl @ replicate 62 CHR ''-'' @ nl @ concat (map ap_line aps)"

fun wifi_state_text :: "wifi_state \<Rightarrow> string" where
  "wifi_state_text Disconnected = ''disconnected''"
| "wifi_state_text Scanning = ''scanning''"
| "wifi_state_text Connecting = ''connecting''"
| "wifi_state_text Connected = ''connected''"
| "wifi_state_text Disconnecting = ''disconnecting''"
| "wifi_state_text WifiError = ''error''"

definition formatStatus :: "wifi_status \<Rightarrow> string" where
  "formatStatus t =
     (let connected = (wt_state t = Connected); shown = (\<lambda>s. if connected then s else ''N/A'') in
      ''State: '' @ wifi_state_text (wt_state t) @ nl @ ''SSID: '' @ shown (wt_ssid t) @ nl @ ''IP: '' @ shown (wt_ipAddress t) @ nl
      @ ''Signal: '' @ shown (dec_int (wt_signalStrength t)) @ nl @ ''Interface: '' @ wt_interfaceName t @ nl
      @ ''Auto-reconnect: '' @ (if wt_autoReconnect t then ''On'' else ''Off'') @ nl)"

definition metrics_actor_line :: "'f cmd_env \<Rightarrow> nat \<Rightarrow> actor_metrics \<Rightarrow> string" where
  "metrics_actor_line E i d =
     pad_right 5 (dec i) @ pad_right 18 (case ce_byId E i of Some a \<Rightarrow> av_name a | None \<Rightarrow> ''unknown'')
     @ pad_left 10 (dec (unat (mx_enqueued d))) @ pad_left 10 (dec (unat (mx_processed d)))
     @ pad_left 8 (dec (unat (mx_dropped d))) @ pad_left 6 (dec (unat (mx_peakDepth d)))
     @ pad_left 16 (dec (unat (mx_handleTimeNs d))) @ pad_left 8 (dec (unat (mx_batches d))) @ nl"

definition metrics_worker_line :: "nat \<Rightarrow> worker_metrics \<Rightarrow> string" where
  "metrics_worker_line i d =
     pad_left 5 (dec i) @ pad_left 10 (dec (unat (mw_batches d))) @ pad_left 16 (dec (unat (mw_busyTimeNs d)))
     @ pad_left 16 (dec (unat (mw_idleTimeNs d))) @ pad_left 10 (dec (unat (mw_messages d))) @ nl"

definition formatMetricsSnapshot :: "'f cmd_env \<Rightarrow> metrics \<Rightarrow> string" where
  "formatMetricsSnapshot E m =
     (let d = me_dispatcher m; num = (\<lambda>w :: u64. dec (unat w)) in
      ''=== Metrics ==='' @ nl @ ''Status: '' @ (if me_enabled m then ''enabled'' else ''disabled'') @ nl
      @ nl @ ''[Actors]'' @ nl
      @ pad_right 5 ''ID'' @ pad_right 18 ''Name'' @ pad_left 10 ''Enqueued'' @ pad_left 10 ''Processed'' @ pad_left 8 ''Dropped''
      @ pad_left 6 ''Peak'' @ pad_left 16 ''HandleTime(ns)'' @ pad_left 8 ''Batches'' @ nl @ replicate 81 CHR ''-'' @ nl
      @ concat (map2 (metrics_actor_line E) [0..<length (me_actors m)] (me_actors m))
      @ nl @ ''[Workers]'' @ nl
      @ pad_left 5 ''ID'' @ pad_left 10 ''Batches'' @ pad_left 16 ''BusyTime(ns)'' @ pad_left 16 ''IdleTime(ns)''
      @ pad_left 10 ''Messages'' @ nl @ replicate 57 CHR ''-'' @ nl
      @ concat (map2 metrics_worker_line [0..<length (me_workers m)] (me_workers m))
      @ nl @ ''[Dispatcher]'' @ nl
      @ ''Dispatches: '' @ num (md_dispatchCount d) @ ''    Acquires: '' @ num (md_acquireCount d)
      @ ''    Deduplicated: '' @ num (md_deduplicated d) @ ''    Steals: '' @ num (md_stealCount d)
      @ ''    StealFails: '' @ num (md_stealFailCount d) @ ''    QueuePeak: '' @ num (md_readyQueuePeak d) @ nl)"

section \<open>The four commands\<close>

definition missing_subcommand :: string where
  "missing_subcommand = ''error: missing subcommand'' @ nl"

definition handleActor :: "'f cmd_env \<Rightarrow> string list \<Rightarrow> string \<times> cmd_out list" where
  "handleActor E args =
     (case args of
        [] \<Rightarrow> (missing_subcommand, [])
      | cmd # rest \<Rightarrow>
          if cmd = ''list'' then (doActorList E, [])
          else if cmd = ''enable'' \<and> 2 \<le> length args then doActorToggle E True (args ! 1)
          else if cmd = ''disable'' \<and> 2 \<le> length args then doActorToggle E False (args ! 1)
          else (''error: unknown actor subcommand '' @ quoted cmd @ nl, []))"

definition handlePmu :: "string list \<Rightarrow> 'f cmd_actor \<Rightarrow> string \<times> 'f cmd_actor \<times> cmd_out list" where
  "handlePmu args s =
     (case args of
        [] \<Rightarrow> (missing_subcommand, s, [])
      | cmd # rest \<Rightarrow>
          if cmd = ''status'' then (''Reading...'' @ nl, s\<lparr>cm_pmuPending := True\<rparr>, [ToDeviceManager True])
          else (''error: unknown pmu subcommand '' @ quoted cmd @ nl, s, []))"

definition handleWifi :: "string list \<Rightarrow> 'f cmd_actor \<Rightarrow> string \<times> cmd_out list" where
  "handleWifi args s =
     (case args of
        [] \<Rightarrow> (missing_subcommand, [])
      | cmd # rest \<Rightarrow>
          if cmd = ''scan'' then (''Scanning...'' @ nl, [ToWifi WifiScanRequest])
          else if cmd = ''list'' then
            (if cm_lastScan s = [] then ''No scan results. Try '' @ quoted ''wifi scan'' @ '' first.'' @ nl
             else formatApList (cm_lastScan s), [])
          else if cmd = ''connect'' then
            (if length args < 2 then (''error: wifi connect <ssid> [password]'' @ nl, [])
             else (''Connecting to '' @ quoted (args ! 1) @ ''...'' @ nl,
                   [ToWifi (WifiConnectRequest (args ! 1) (if 3 \<le> length args then args ! 2 else []))]))
          else if cmd = ''disconnect'' then (''Disconnecting...'' @ nl, [ToWifi WifiDisconnectRequest])
          else if cmd = ''status'' then (formatStatus (cm_lastStatus s), [])
          else if cmd = ''autoconnect'' then
            (if length args < 2 then (''error: wifi autoconnect <on|off>'' @ nl, [])
             else (if args ! 1 = ''on'' then ''Auto-reconnect enabled'' @ nl else ''Auto-reconnect disabled'' @ nl,
                   [ToWifi (WifiAutoReconnectRequest (args ! 1 = ''on''))]))
          else (''error: unknown wifi subcommand '' @ quoted cmd @ nl, []))"

definition handleMetrics :: "'f cmd_env \<Rightarrow> string list \<Rightarrow> metrics \<Rightarrow> string \<times> metrics" where
  "handleMetrics E args m =
     (case args of
        [] \<Rightarrow> (missing_subcommand, m)
      | cmd # rest \<Rightarrow>
          if cmd = ''enable'' then (''ok: metrics enabled'' @ nl, setEnabled True m)
          else if cmd = ''disable'' then (''ok: metrics disabled'' @ nl, setEnabled False m)
          else if cmd = ''snapshot'' then
            (if me_enabled m then formatMetricsSnapshot E m else ''error: metrics is disabled'' @ nl, m)
          else if cmd = ''reset'' then (''ok: metrics reset'' @ nl, metrics_reset m)
          else (''error: unknown metrics subcommand '' @ quoted cmd @ nl, m))"

section \<open>Dispatch\<close>

text \<open>
  The name ends at the first space; the arguments are the words of the rest.
\<close>

definition cmd_words :: "string \<Rightarrow> string \<times> string list" where
  "cmd_words cmd = (word_of_line cmd, case after_word cmd of [] \<Rightarrow> [] | _ # rest \<Rightarrow> split_args rest)"

text \<open>
  The handler registered under the name, if any, applied to the arguments. The result: the response, the new state and
  metrics, and what the handler sends.
\<close>

definition call_handler ::
  "'f cmd_env \<Rightarrow> string \<Rightarrow> string list \<Rightarrow> 'f cmd_actor \<Rightarrow> metrics \<Rightarrow> string \<times> 'f cmd_actor \<times> metrics \<times> cmd_out list" where
  "call_handler E name args s m =
     (if \<not> cm_hasHandlers s \<or> name \<notin> {''actor'', ''pmu'', ''wifi'', ''metrics''}
      then (''error: unknown command '' @ quoted name @ nl, s, m, [])
      else if name = ''actor'' then (let (r, out) = handleActor E args in (r, s, m, out))
      else if name = ''pmu'' then (let (r, s, out) = handlePmu args s in (r, s, m, out))
      else if name = ''wifi'' then (let (r, out) = handleWifi args s in (r, s, m, out))
      else (let (r, m) = handleMetrics E args m in (r, s, m, [])))"

definition cmd_dispatch ::
  "'f cmd_env \<Rightarrow> string \<Rightarrow> 'f cmd_actor \<Rightarrow> metrics \<Rightarrow> string \<times> 'f cmd_actor \<times> metrics \<times> cmd_out list" where
  "cmd_dispatch E cmd s m = (case cmd_words cmd of (name, args) \<Rightarrow> call_handler E name args s m)"

datatype 'f cmd_msg =
    CmdRequest int string | CmdPmuData "'f pmu_data" | CmdWifiScan "wifi_ap list" | CmdWifiStatus wifi_status
  | CmdWifiConnect bool string | CmdWifiDisconnect bool

definition cmd_request ::
  "'f cmd_env \<Rightarrow> int \<Rightarrow> string \<Rightarrow> 'f cmd_actor \<Rightarrow> metrics \<Rightarrow> 'f cmd_actor \<times> metrics \<times> cmd_out list" where
  "cmd_request E conn cmd s m =
     (let (response, s, m, out) = cmd_dispatch E cmd s m;
          s = (if cm_pmuPending s then s\<lparr>cm_pendingConn := conn\<rparr> else s)
      in (s, m, out @ [CmdResponse conn response (\<not> cm_pmuPending s)]))"

definition cmd_pmu_data :: "'f cmd_env \<Rightarrow> 'f pmu_data \<Rightarrow> 'f cmd_actor \<Rightarrow> 'f cmd_actor \<times> cmd_out list" where
  "cmd_pmu_data E d s =
     (if \<not> cm_pmuPending s then (s, [])
      else (s\<lparr>cm_pmuPending := False\<rparr>,
            [ToDeviceManager False, CmdResponse (cm_pendingConn s) (formatPmuStatus E d) True]))"

definition cmd_handle ::
  "'f cmd_env \<Rightarrow> 'f cmd_msg \<Rightarrow> 'f cmd_actor \<Rightarrow> metrics \<Rightarrow> 'f cmd_actor \<times> metrics \<times> cmd_out list" where
  "cmd_handle E msg s m =
     (if \<not> accepts (cm_state s) then (s, m, [])
      else case msg of
             CmdRequest conn cmd \<Rightarrow> cmd_request E conn cmd s m
           | CmdPmuData d \<Rightarrow> (let (s, out) = cmd_pmu_data E d s in (s, m, out))
           | CmdWifiScan aps \<Rightarrow> (s\<lparr>cm_lastScan := aps\<rparr>, m, [])
           | CmdWifiStatus t \<Rightarrow> (s\<lparr>cm_lastStatus := t\<rparr>, m, [])
           | CmdWifiConnect ok err \<Rightarrow>
               (s\<lparr>cm_lastConnectResult := (if ok then ''Connected successfully'' else ''Failed'' @ err)\<rparr>, m, [])
           | CmdWifiDisconnect ok \<Rightarrow>
               (s\<lparr>cm_lastDisconnectResult := (if ok then ''Disconnected successfully'' else ''Failed to disconnect'')\<rparr>, m, []))"

definition cmd_close :: "'f cmd_actor \<Rightarrow> 'f cmd_actor \<times> cmd_out list" where
  "cmd_close s =
     (if cm_state s = Closed then (s, [])
      else (s\<lparr>cm_pmuPending := False, cm_state := Closed\<rparr>, if cm_pmuPending s then [ToDeviceManager False] else []))"

definition cmd_open :: "'f cmd_actor \<Rightarrow> 'f cmd_actor \<times> cmd_out list" where
  "cmd_open s =
     (let (s, out) = (if cm_state s \<noteq> Closed then cmd_close s else (s, [])) in
      (s\<lparr>cm_hasHandlers := True, cm_state := Opened\<rparr>, out))"

section \<open>Every request is answered once\<close>

text \<open>The connections that get their final response, in order.\<close>

definition answered :: "cmd_out list \<Rightarrow> int list" where
  "answered out = List.map_filter (\<lambda>r. case r of CmdResponse c t True \<Rightarrow> Some c | _ \<Rightarrow> None) out"

lemma answered_simps [simp]:
  "answered [] = []"
  "answered (CmdResponse c t True # out) = c # answered out"
  "answered (CmdResponse c t False # out) = answered out"
  "answered (ToActor b n # out) = answered out"
  "answered (ToWifi w # out) = answered out"
  "answered (ToDeviceManager b # out) = answered out"
  "answered (out @ out') = answered out @ answered out'"
  by (simp_all add: answered_def map_filter_def)

text \<open>Handlers send no responses themselves, and only \<open>pmu status\<close> makes the actor wait.\<close>

lemma toggle_answers_nothing: "answered (snd (doActorToggle E b n)) = []"
  by (simp add: doActorToggle_def split: option.split)

lemma handleActor_answers_nothing: "answered (snd (handleActor E args)) = []"
  by (simp add: handleActor_def toggle_answers_nothing split: list.split)

lemma handleWifi_answers_nothing: "answered (snd (handleWifi args s)) = []"
  by (simp add: handleWifi_def Let_def split: list.split)

lemma handlePmu_effect:
  "answered (snd (snd (handlePmu args s))) = []
   \<and> (fst (snd (handlePmu args s)) = s \<or> fst (snd (handlePmu args s)) = s\<lparr>cm_pmuPending := True\<rparr>)"
  by (simp add: handlePmu_def split: list.split)

lemma cmd_dispatch_effect:
  assumes "cmd_dispatch E cmd s m = (r, s', m', out)"
  shows "answered out = [] \<and> (s' = s \<or> s' = s\<lparr>cm_pmuPending := True\<rparr>)"
  using assms handlePmu_effect[of "snd (cmd_words cmd)" s]
  by (auto simp: cmd_dispatch_def call_handler_def Let_def case_prod_beta handleActor_answers_nothing handleWifi_answers_nothing
      split: if_splits)

fun cmd_runs :: "'f cmd_env \<Rightarrow> 'f cmd_msg list \<Rightarrow> 'f cmd_actor \<Rightarrow> metrics \<Rightarrow> 'f cmd_actor \<times> metrics \<times> cmd_out list" where
  "cmd_runs E [] s m = (s, m, [])"
| "cmd_runs E (x # xs) s m =
     (let (s, m, out) = cmd_handle E x s m; (s, m, out') = cmd_runs E xs s m in (s, m, out @ out'))"

fun requests :: "'f cmd_msg list \<Rightarrow> int list" where
  "requests [] = []"
| "requests (CmdRequest c x # ms) = c # requests ms"
| "requests (_ # ms) = requests ms"

text \<open>No request arrives while the actor waits for PMU data.\<close>

fun one_at_a_time :: "'f cmd_env \<Rightarrow> 'f cmd_msg list \<Rightarrow> 'f cmd_actor \<Rightarrow> metrics \<Rightarrow> bool" where
  "one_at_a_time E [] s m \<longleftrightarrow> True"
| "one_at_a_time E (x # xs) s m \<longleftrightarrow>
     ((\<exists>c l. x = CmdRequest c l) \<longrightarrow> \<not> cm_pmuPending s) \<and>
     (case cmd_handle E x s m of (s, m, _) \<Rightarrow> one_at_a_time E xs s m)"

definition still_waiting :: "'f cmd_actor \<Rightarrow> int list" where
  "still_waiting s = (if cm_pmuPending s then [cm_pendingConn s] else [])"

lemma cmd_handle_answers:
  assumes "cm_state s = Opened" and "(\<exists>c l. x = CmdRequest c l) \<longrightarrow> \<not> cm_pmuPending s"
    and "cmd_handle E x s m = (s', m', out)"
  shows "cm_state s' = Opened \<and> still_waiting s @ requests [x] = answered out @ still_waiting s'"
proof (cases x)
  case (CmdRequest c l)
  obtain r s1 m1 o1 where d: "cmd_dispatch E l s m = (r, s1, m1, o1)" by (metis prod_cases4)
  show ?thesis
    using assms cmd_dispatch_effect[OF d]
    by (auto simp: CmdRequest cmd_handle_def cmd_request_def d still_waiting_def Let_def)
next
  case (CmdPmuData d)
  then show ?thesis
    using assms by (auto simp: cmd_handle_def cmd_pmu_data_def still_waiting_def Let_def split: if_splits)
qed (use assms in \<open>auto simp: cmd_handle_def still_waiting_def Let_def\<close>)

lemma requests_append: "requests (x # xs) = requests [x] @ requests xs"
  by (cases x) simp_all

lemma cmd_runs_answers:
  assumes "cm_state s = Opened" and "one_at_a_time E xs s m" and "cmd_runs E xs s m = (s', m', out)"
  shows "still_waiting s @ requests xs = answered out @ still_waiting s'"
  using assms
proof (induction xs arbitrary: s m out)
  case (Cons x xs)
  obtain s1 m1 o1 where h: "cmd_handle E x s m = (s1, m1, o1)" by (metis prod_cases3)
  obtain o2 where r: "cmd_runs E xs s1 m1 = (s', m', o2)" and e: "out = o1 @ o2"
    using Cons.prems(3) by (auto simp: h split: prod.splits)
  have a: "cm_state s1 = Opened \<and> still_waiting s @ requests [x] = answered o1 @ still_waiting s1"
    by (rule cmd_handle_answers[OF Cons.prems(1) _ h]) (use Cons.prems(2) in simp)
  have "still_waiting s1 @ requests xs = answered o2 @ still_waiting s'"
    by (rule Cons.IH[OF _ _ r]) (use a Cons.prems(2) h in simp_all)
  then show ?case using a requests_append[of x xs] by (simp add: e) (metis append_assoc)
qed simp


text \<open>A command that arrives while PMU data is awaited takes the place of the one that waits: its connection gets the
  PMU data as well, and the connection that asked for them never gets a final response.
\<close>
theorem second_command_steals_pmu_answer:
  assumes "cm_state s = Opened" and "cm_hasHandlers s" and "\<not> cm_pmuPending s" and "c1 \<noteq> c2"
  shows "case cmd_runs E [CmdRequest c1 ''pmu status'', CmdRequest c2 line, CmdPmuData d] s m of (s', _, out) \<Rightarrow>
    \<not> cm_pmuPending s' \<and> answered out = [c2] \<and> CmdResponse c2 (formatPmuStatus E d) True \<in> set out \<and> c1 \<notin> set (answered out)"
proof -
  have w: "word_of_line ''pmu status'' = ''pmu''" "after_word ''pmu status'' = '' status''"
    by (simp_all add: word_of_line_def after_word_def)
  have a: "split_args ''status'' = [''status'']"
    by (rule split_args_word(2)) (simp add: plain_word_def)
  let ?s1 = "s\<lparr>cm_pmuPending := True, cm_pendingConn := c1\<rparr>"
  have one: "cmd_handle E (CmdRequest c1 ''pmu status'') s m
      = (?s1, m, [ToDeviceManager True, CmdResponse c1 (''Reading...'' @ nl) False])"
    using assms by (simp add: cmd_handle_def cmd_request_def cmd_dispatch_def call_handler_def cmd_words_def w a handlePmu_def Let_def)
  obtain r s2 m2 o2 where d: "cmd_dispatch E line ?s1 m = (r, s2, m2, o2)" by (metis prod_cases4)
  have s2: "s2 = ?s1" "answered o2 = []" using cmd_dispatch_effect[OF d] by auto
  have two: "cmd_handle E (CmdRequest c2 line) ?s1 m = (?s1\<lparr>cm_pendingConn := c2\<rparr>, m2, o2 @ [CmdResponse c2 r False])"
    using assms by (simp add: cmd_handle_def cmd_request_def d s2)
  show ?thesis
    using assms by (simp add: one two s2) (simp add: cmd_handle_def cmd_pmu_data_def s2)
qed

definition demo_cmd_env :: "unit cmd_env" where
  "demo_cmd_env = \<lparr>ce_actors = [], ce_byName = (\<lambda>_. None), ce_byId = (\<lambda>_. None), ce_hasRegistry = True, ce_float = (\<lambda>_. ''1'')\<rparr>"

definition demo_cmd :: "unit cmd_actor" where
  "demo_cmd = \<lparr>cm_state = Opened, cm_name = ''cmd'', cm_hasHandlers = True, cm_lastScan = [],
     cm_lastStatus = \<lparr>wt_connected = False, wt_ssid = [], wt_ipAddress = [], wt_state = Disconnected, wt_interfaceName = [],
       wt_signalStrength = 0, wt_autoReconnect = False\<rparr>,
     cm_pendingConn = 0, cm_pmuPending = False, cm_lastConnectResult = [], cm_lastDisconnectResult = []\<rparr>"

definition demo_pmu :: "unit pmu_data" where
  "demo_pmu = \<lparr>pd_clockArmHz = 0, pd_clockCoreHz = 0, pd_clockV3dHz = 0, pd_memArmMb = 0, pd_memGpuMb = 0,
     pd_throttled = 0, pd_tempCelsius = (), pd_voltCore = (), pd_currentVddCoreA = ()\<rparr>"

theorem second_command_steals_pmu_answer_witness:
  "case cmd_runs demo_cmd_env [CmdRequest 7 ''pmu status'', CmdRequest 8 ''actor list'', CmdPmuData demo_pmu] demo_cmd (metrics_new 1)
   of (s', _, out) \<Rightarrow>
     \<not> cm_pmuPending s' \<and> answered out = [8] \<and> CmdResponse 8 (formatPmuStatus demo_cmd_env demo_pmu) True \<in> set out
     \<and> 7 \<notin> set (answered out)"
  by (rule second_command_steals_pmu_answer) (simp_all add: demo_cmd_def)


end
