(* ===== verification/Uds_Transport.thy ===== *)
theory Uds_Transport
  imports V2_Prelude
begin

text \<open>
  Unix-domain transport (\<open>src/src/infra/transport/uds/uds_client.cpp\<close>, \<open>uds_server.cpp\<close>). The kernel is a parameter: a
  function from the number of the system call to its outcome, with the documented promise, stated where it is needed,
  that a transfer of a positive length moves at least one byte and no more than asked. The descriptor table is
  explicit, so that closing a number twice shows.
\<close>

section \<open>Outcomes of system calls\<close>

datatype sys_count = SysN nat | SysIntr | SysErr
datatype 'b sys_recv = RecvBytes "'b list" | RecvIntr | RecvErr
datatype sys_accept = AcceptFd nat | AcceptIntr | AcceptErr

section \<open>Sending\<close>

text \<open>
  \<open>sent\<close> counts the bytes gone, \<open>wire\<close> holds what the peer will see, \<open>t\<close> numbers the system calls. A loop that may be
  interrupted for ever need not return.
\<close>

partial_function (option) send_loop ::
  "(nat \<Rightarrow> nat \<Rightarrow> sys_count) \<Rightarrow> nat \<Rightarrow> 'b list \<Rightarrow> nat \<Rightarrow> 'b list \<Rightarrow> (result_code \<times> 'b list \<times> nat) option" where
  "send_loop os t d sent wire =
     (if sent < length d
      then (case os t (length d - sent) of
              SysErr \<Rightarrow> Some (Fail, wire, Suc t)
            | SysIntr \<Rightarrow> send_loop os (Suc t) d sent wire
            | SysN n \<Rightarrow> send_loop os (Suc t) d (sent + n) (wire @ take n (drop sent d)))
      else Some (Ok, wire, t))"

definition server_send :: "(nat \<Rightarrow> nat \<Rightarrow> sys_count) \<Rightarrow> nat \<Rightarrow> 'b list \<Rightarrow> 'b list \<Rightarrow> (result_code \<times> 'b list \<times> nat) option" where
  "server_send os t d wire = send_loop os t d 0 wire"

definition client_send ::
  "int \<Rightarrow> (nat \<Rightarrow> nat \<Rightarrow> sys_count) \<Rightarrow> nat \<Rightarrow> 'b list \<Rightarrow> 'b list \<Rightarrow> (result_code \<times> 'b list \<times> nat) option" where
  "client_send clientFd os t d wire =
     (if clientFd < 0 then Some (InvalidArg, wire, t) else send_loop os t d 0 wire)"

section \<open>Receiving\<close>

text \<open>
  \<open>UdsServer::recv\<close> reads until the buffer is full, the peer has closed or an error; \<open>UdsClient::recv\<close> makes one call
  and answers zero both for the end of the stream and for an interrupted call.
\<close>

partial_function (option) recv_loop ::
  "(nat \<Rightarrow> nat \<Rightarrow> 'b sys_recv) \<Rightarrow> nat \<Rightarrow> nat \<Rightarrow> 'b list \<Rightarrow> ((int \<times> 'b list) \<times> nat) option" where
  "recv_loop os t sz got =
     (if length got < sz
      then (case os t (sz - length got) of
              RecvErr \<Rightarrow> Some ((result_value Fail, got), Suc t)
            | RecvIntr \<Rightarrow> recv_loop os (Suc t) sz got
            | RecvBytes bs \<Rightarrow> (if bs = [] then Some ((int (length got), got), Suc t)
                               else recv_loop os (Suc t) sz (got @ bs)))
      else Some ((int (length got), got), t))"

definition server_recv :: "(nat \<Rightarrow> nat \<Rightarrow> 'b sys_recv) \<Rightarrow> nat \<Rightarrow> nat \<Rightarrow> ((int \<times> 'b list) \<times> nat) option" where
  "server_recv os t sz = recv_loop os t sz []"

definition client_recv :: "int \<Rightarrow> 'b sys_recv \<Rightarrow> int \<times> 'b list" where
  "client_recv clientFd r =
     (if clientFd < 0 then (result_value InvalidArg, [])
      else case r of
             RecvBytes bs \<Rightarrow> (if bs = [] then (0, []) else (int (length bs), bs))
           | RecvIntr \<Rightarrow> (0, [])
           | RecvErr \<Rightarrow> (result_value Fail, []))"

partial_function (option) accept_loop :: "(nat \<Rightarrow> sys_accept) \<Rightarrow> nat \<Rightarrow> (int \<times> nat) option" where
  "accept_loop os t =
     (case os t of AcceptFd fd \<Rightarrow> Some (int fd, Suc t) | AcceptIntr \<Rightarrow> accept_loop os (Suc t)
      | AcceptErr \<Rightarrow> Some (result_value Fail, Suc t))"

definition server_accept :: "int \<Rightarrow> (nat \<Rightarrow> sys_accept) \<Rightarrow> nat \<Rightarrow> (int \<times> nat) option" where
  "server_accept serverFd os t =
     (if serverFd < 0 then Some (result_value InvalidState, t) else accept_loop os t)"

declare send_loop.simps [simp del] recv_loop.simps [simp del] accept_loop.simps [simp del]

section \<open>Descriptors\<close>

text \<open>The process' open descriptors, and the paths bound in the file system.\<close>

record os_table =
  ot_open :: "int set"
  ot_paths :: "string set"

definition os_close :: "int \<Rightarrow> os_table \<Rightarrow> os_table" where
  "os_close fd w = (if 0 \<le> fd then w\<lparr>ot_open := ot_open w - {fd}\<rparr> else w)"

definition os_unlink :: "string \<Rightarrow> os_table \<Rightarrow> os_table" where
  "os_unlink p w = w\<lparr>ot_paths := ot_paths w - {p}\<rparr>"

record uds_server =
  us_path :: string
  us_fd :: int

definition uds_server_new :: uds_server where
  "uds_server_new = \<lparr>us_path = [], us_fd = -1\<rparr>"

text \<open>The address field holds 107 characters: a longer path is cut.\<close>

definition sun_path :: "string \<Rightarrow> string" where
  "sun_path p = take 107 p"

text \<open>What the kernel answers to \<open>start\<close>: the new descriptor, if any, and whether \<open>bind\<close> and \<open>listen\<close> succeed.\<close>

record start_env =
  se_fd :: "int option"
  se_bind :: bool
  se_listen :: bool

definition uds_start :: "start_env \<Rightarrow> string \<Rightarrow> uds_server \<Rightarrow> os_table \<Rightarrow> result_code \<times> uds_server \<times> os_table" where
  "uds_start e path s w =
     (let w = os_unlink path w in
      case se_fd e of
        None \<Rightarrow> (Fail, s\<lparr>us_fd := -1\<rparr>, w)
      | Some fd \<Rightarrow>
          (let s = s\<lparr>us_fd := fd\<rparr>; w = w\<lparr>ot_open := insert fd (ot_open w)\<rparr> in
           if \<not> se_bind e then (Fail, s, os_close (us_fd s) w)
           else let w = w\<lparr>ot_paths := insert (sun_path path) (ot_paths w)\<rparr> in
             if \<not> se_listen e then (Fail, s, os_close (us_fd s) w)
             else (Ok, s\<lparr>us_path := path\<rparr>, w)))"

definition uds_shutdown :: "uds_server \<Rightarrow> os_table \<Rightarrow> uds_server \<times> os_table" where
  "uds_shutdown s w =
     (let (s, w) = (if 0 \<le> us_fd s then (s\<lparr>us_fd := -1\<rparr>, os_close (us_fd s) w) else (s, w)) in
      if us_path s \<noteq> [] then (s\<lparr>us_path := []\<rparr>, os_unlink (us_path s) w) else (s, w))"

definition uds_closeClient :: "int \<Rightarrow> os_table \<Rightarrow> os_table" where
  "uds_closeClient fd w = (if 0 \<le> fd then os_close fd w else w)"

text \<open>The moving constructor and assignment: the source gives up its descriptor, and its moved-from path is empty.\<close>

definition uds_server_move :: "uds_server \<Rightarrow> uds_server \<times> uds_server" where
  "uds_server_move other = (\<lparr>us_path = us_path other, us_fd = us_fd other\<rparr>, \<lparr>us_path = [], us_fd = -1\<rparr>)"

definition uds_server_assign :: "uds_server \<Rightarrow> uds_server \<Rightarrow> os_table \<Rightarrow> uds_server \<times> uds_server \<times> os_table" where
  "uds_server_assign this other w =
     (let (_, w) = uds_shutdown this w; (this, other) = uds_server_move other in (this, other, w))"

text \<open>The client: \<open>connect\<close>, \<open>disconnect\<close> and \<open>shutdown\<close>, and its moves.\<close>

definition uds_client_connect :: "int option \<Rightarrow> bool \<Rightarrow> int \<Rightarrow> os_table \<Rightarrow> result_code \<times> int \<times> os_table" where
  "uds_client_connect fd ok clientFd w =
     (case fd of
        None \<Rightarrow> (Fail, -1, w)
      | Some f \<Rightarrow>
          (let w = w\<lparr>ot_open := insert f (ot_open w)\<rparr> in
           if ok then (Ok, f, w) else (Fail, -1, os_close f w)))"

definition uds_client_disconnect :: "int \<Rightarrow> os_table \<Rightarrow> int \<times> os_table" where
  "uds_client_disconnect clientFd w = (if 0 \<le> clientFd then (-1, os_close clientFd w) else (clientFd, w))"

definition uds_client_move :: "int \<Rightarrow> int \<times> int" where
  "uds_client_move other = (other, -1)"

definition uds_client_assign :: "int \<Rightarrow> int \<Rightarrow> os_table \<Rightarrow> int \<times> int \<times> os_table" where
  "uds_client_assign this other w =
     (let (_, w) = uds_client_disconnect this w; (this, other) = uds_client_move other in (this, other, w))"

section \<open>What the loops do\<close>

text \<open>The documented promise of a transfer call, and that interruptions come to an end.\<close>

definition counts_ok :: "(nat \<Rightarrow> nat \<Rightarrow> sys_count) \<Rightarrow> bool" where
  "counts_ok os \<longleftrightarrow> (\<forall>t k n. 0 < k \<longrightarrow> os t k = SysN n \<longrightarrow> 0 < n \<and> n \<le> k)"

definition interrupts_end :: "(nat \<Rightarrow> nat \<Rightarrow> sys_count) \<Rightarrow> bool" where
  "interrupts_end os \<longleftrightarrow> (\<forall>k t. \<exists>t' \<ge> t. os t' k \<noteq> SysIntr)"

lemma send_loop_done: "\<not> sent < length d \<Longrightarrow> send_loop os t d sent wire = Some (Ok, wire, t)"
  by (subst send_loop.simps) simp

lemma send_loop_step:
  "sent < length d \<Longrightarrow> send_loop os t d sent wire =
     (case os t (length d - sent) of SysErr \<Rightarrow> Some (Fail, wire, Suc t)
      | SysIntr \<Rightarrow> send_loop os (Suc t) d sent wire
      | SysN n \<Rightarrow> send_loop os (Suc t) d (sent + n) (wire @ take n (drop sent d)))"
  by (subst send_loop.simps) simp

lemma send_loop_skip_interrupts:
  assumes "sent < length d" and "\<forall>u. t \<le> u \<and> u < t + m \<longrightarrow> os u (length d - sent) = SysIntr"
  shows "send_loop os t d sent wire = send_loop os (t + m) d sent wire"
  using assms(2)
proof (induction m)
  case (Suc m)
  then have "send_loop os t d sent wire = send_loop os (t + m) d sent wire" by simp
  also have "\<dots> = send_loop os (t + Suc m) d sent wire"
    using Suc.prems by (subst send_loop_step[OF assms(1)]) simp
  finally show ?case .
qed simp

lemma first_other_outcome:
  assumes "interrupts_end os"
  obtains m where "\<forall>u. t \<le> u \<and> u < t + m \<longrightarrow> os u k = SysIntr" and "os (t + m) k \<noteq> SysIntr"
proof -
  have "\<exists>m. os (t + m) k \<noteq> SysIntr"
    using assms unfolding interrupts_end_def by (metis le_add_diff_inverse)
  define m where "m = (LEAST m. os (t + m) k \<noteq> SysIntr)"
  have "os (t + m) k \<noteq> SysIntr" unfolding m_def by (rule LeastI_ex) fact
  moreover have "\<forall>u. t \<le> u \<and> u < t + m \<longrightarrow> os u k = SysIntr"
  proof (intro allI impI)
    fix u assume u: "t \<le> u \<and> u < t + m"
    then have "u - t < m" by linarith
    then have "\<not> os (t + (u - t)) k \<noteq> SysIntr" unfolding m_def by (rule not_less_Least)
    then show "os u k = SysIntr" using u by simp
  qed
  ultimately show ?thesis by (rule that[rotated])
qed

definition sent_so_far :: "'b list \<Rightarrow> 'b list \<Rightarrow> (result_code \<times> 'b list \<times> nat) option \<Rightarrow> bool" where
  "sent_so_far d wire r \<longleftrightarrow>
     (\<exists>t. r = Some (Ok, wire @ d, t)) \<or> (\<exists>k t. k < length d \<and> r = Some (Fail, wire @ take k d, t))"

lemma send_loop_delivers:
  assumes ok: "counts_ok os" and fin: "interrupts_end os"
  shows "sent \<le> length d \<Longrightarrow> sent_so_far d wire (send_loop os t d sent (wire @ take sent d))"
proof (induction "length d - sent" arbitrary: sent t rule: less_induct)
  case less
  show ?case
  proof (cases "sent < length d")
    case False
    then have "take sent d = d" using less.prems by simp
    then show ?thesis unfolding send_loop_done[OF False] sent_so_far_def by metis
  next
    case True
    obtain m where m: "\<forall>u. t \<le> u \<and> u < t + m \<longrightarrow> os u (length d - sent) = SysIntr"
        and stop: "os (t + m) (length d - sent) \<noteq> SysIntr"
      by (rule first_other_outcome[OF fin])
    have skip: "send_loop os t d sent (wire @ take sent d) = send_loop os (t + m) d sent (wire @ take sent d)"
      using True m by (rule send_loop_skip_interrupts)
    show ?thesis
    proof (cases "os (t + m) (length d - sent)")
      case (SysN n)
      then have n: "0 < n" "n \<le> length d - sent" using ok True unfolding counts_ok_def by (metis zero_less_diff)+
      have "send_loop os t d sent (wire @ take sent d)
            = send_loop os (Suc (t + m)) d (sent + n) (wire @ take (sent + n) d)"
        unfolding skip by (subst send_loop_step[OF True]) (simp add: SysN take_add)
      then show ?thesis using less.hyps[of "sent + n" "Suc (t + m)"] n True by simp
    next
      case SysErr
      then have "send_loop os t d sent (wire @ take sent d) = Some (Fail, wire @ take sent d, Suc (t + m))"
        unfolding skip by (subst send_loop_step[OF True]) simp
      then show ?thesis using True unfolding sent_so_far_def by blast
    qed (use stop in simp)
  qed
qed

text \<open>
  C23: With a kernel that keeps its promise and does not interrupt for ever, sending returns; it answers Ok exactly when
  the peer has been given all bytes in order, and Fail when it has been given a proper prefix.
\<close>
theorem send_is_all_or_prefix:
  assumes "counts_ok os" and "interrupts_end os"
  shows "sent_so_far d wire (server_send os t d wire)
    \<and> (clientFd < 0 \<longrightarrow> client_send clientFd os t d wire = Some (InvalidArg, wire, t))
    \<and> (\<not> clientFd < 0 \<longrightarrow> sent_so_far d wire (client_send clientFd os t d wire))"
  using send_loop_delivers[OF assms, of 0 d wire t] by (simp add: server_send_def client_send_def)

definition demo_kernel :: "nat \<Rightarrow> nat \<Rightarrow> sys_count" where
  "demo_kernel t k = (if t = 0 then SysIntr else SysN (min 2 k))"

theorem send_is_all_or_prefix_witness:
  "sent_so_far [1, 2, 3 :: nat] [] (server_send demo_kernel 0 [1, 2, 3] [])
   \<and> server_send demo_kernel 0 [1, 2, 3 :: nat] [] = Some (Ok, [1, 2, 3], 3)"
proof
  have "counts_ok demo_kernel" by (auto simp: counts_ok_def demo_kernel_def split: if_splits)
  moreover have "interrupts_end demo_kernel"
    unfolding interrupts_end_def demo_kernel_def by (metis le_Suc_eq le_refl nat.distinct(1) sys_count.distinct(1) zero_less_Suc)
  ultimately show "sent_so_far [1, 2, 3 :: nat] [] (server_send demo_kernel 0 [1, 2, 3] [])"
    using send_is_all_or_prefix[of demo_kernel "[1, 2, 3]" "[]" 0 0] by blast
  show "server_send demo_kernel 0 [1, 2, 3 :: nat] [] = Some (Ok, [1, 2, 3], 3)"
    by (simp add: server_send_def send_loop_step send_loop_done demo_kernel_def)
qed

section \<open>Descriptors closed twice\<close>

text \<open>A server that is started and shut down again leaves no descriptor behind.\<close>

lemma start_then_shutdown:
  assumes "uds_start e path s w = (Ok, s', w')" and "se_fd e = Some fd" and "0 \<le> fd" and "fd \<notin> ot_open w"
  shows "ot_open (snd (uds_shutdown s' w')) = ot_open w \<and> us_fd (fst (uds_shutdown s' w')) = -1"
  using assms by (auto simp: uds_start_def uds_shutdown_def os_close_def os_unlink_def Let_def split: if_splits)

text \<open>When \<open>bind\<close> or \<open>listen\<close> fails, \<open>start\<close> closes its descriptor but keeps the number; whatever part of the process is
  given that number next loses it when the server is shut down.
\<close>
theorem failed_start_closes_foreign_descriptor:
  assumes "se_fd e = Some fd" and "0 \<le> fd" and "fd \<notin> ot_open w" and "\<not> se_bind e \<or> \<not> se_listen e" and "us_path s = []"
  shows "case uds_start e path s w of (r, s', w') \<Rightarrow>
    r = Fail \<and> fd \<notin> ot_open w' \<and>
    (let w2 = w'\<lparr>ot_open := insert fd (ot_open w')\<rparr> in fd \<notin> ot_open (snd (uds_shutdown s' w2)))"
  using assms by (auto simp: uds_start_def uds_shutdown_def os_close_def os_unlink_def Let_def)

theorem failed_start_closes_foreign_descriptor_witness:
  "case uds_start \<lparr>se_fd = Some 7, se_bind = False, se_listen = True\<rparr> ''/tmp/ipc'' uds_server_new
          \<lparr>ot_open = {0, 1, 2}, ot_paths = {}\<rparr> of (r, s', w') \<Rightarrow>
    r = Fail \<and> 7 \<notin> ot_open w' \<and>
    (let w2 = w'\<lparr>ot_open := insert 7 (ot_open w')\<rparr> in 7 \<notin> ot_open (snd (uds_shutdown s' w2)))"
  by (rule failed_start_closes_foreign_descriptor) (simp_all add: uds_server_new_def)

end
