(* ===== verification/Event_Loop.thy ===== *)
theory Event_Loop
  imports Uds_Transport
begin

text \<open>
  The epoll event loop (\<open>src/src/infra/platform/linux/event_loop_epoll.cpp\<close>, \<open>epoll.cpp\<close>). Other threads register and
  withdraw descriptors: the table of handlers changes at once, the interest set of the kernel only when the loop thread
  runs the posted operation; between the two any other thread may act. The kernel's part is its documented behaviour:
  \<open>EPOLL_CTL_ADD\<close> fails for a closed descriptor and for one already in the set, \<open>close\<close> takes a descriptor out of the set.
\<close>

section \<open>State\<close>

datatype el_op = OpAdd int | OpUnsub int

record 'h evloop =
  el_running :: bool
  el_stopFd :: int
  el_handlers :: "int \<Rightarrow> 'h option"
  el_interest :: "int set"
  el_ops :: "el_op list"
  el_wakeups :: nat
  el_os :: os_table

definition kPendingOpsCapacity :: nat where "kPendingOpsCapacity = 128"

definition el_new :: "os_table \<Rightarrow> 'h evloop" where
  "el_new w = \<lparr>el_running = False, el_stopFd = -1, el_handlers = (\<lambda>_. None), el_interest = {}, el_ops = [], el_wakeups = 0, el_os = w\<rparr>"

section \<open>Operations\<close>

definition el_open_fd :: "int \<Rightarrow> 'h evloop \<Rightarrow> 'h evloop" where
  "el_open_fd fd s = s\<lparr>el_os := (el_os s)\<lparr>ot_open := insert fd (ot_open (el_os s))\<rparr>\<rparr>"

definition el_close_fd :: "int \<Rightarrow> 'h evloop \<Rightarrow> 'h evloop" where
  "el_close_fd fd s = s\<lparr>el_os := os_close fd (el_os s), el_interest := el_interest s - {fd}\<rparr>"

text \<open>
  \<open>start\<close> for the descriptor of the epoll instance, the answer of \<open>eventfd\<close> (a new descriptor, or negative) and whether
  \<open>EPOLL_CTL_ADD\<close> succeeds. \<open>None\<close>: one of the three assertions fails.
\<close>

definition el_start :: "int \<Rightarrow> int \<Rightarrow> bool \<Rightarrow> 'h evloop \<Rightarrow> 'h evloop option" where
  "el_start epfd evfd ctl s =
     (if epfd < 0 then None
      else let s = (if 0 \<le> evfd then el_open_fd evfd s else s)\<lparr>el_stopFd := evfd\<rparr> in
        if evfd < 0 then None
        else if \<not> ctl then None
        else Some (s\<lparr>el_interest := insert evfd (el_interest s), el_running := True\<rparr>))"

definition el_stop :: "'h evloop \<Rightarrow> 'h evloop" where
  "el_stop s = s\<lparr>el_running := False, el_wakeups := el_wakeups s + 1\<rparr>"

definition el_destroy :: "'h evloop \<Rightarrow> 'h evloop" where
  "el_destroy s = (if 0 \<le> el_stopFd s then el_close_fd (el_stopFd s) s else s)"

text \<open>The operation \<open>subscribe\<close> builds for the loop thread.\<close>

definition el_add :: "int \<Rightarrow> 'h evloop \<Rightarrow> result_code \<times> 'h evloop" where
  "el_add fd s =
     (if fd \<in> ot_open (el_os s) \<and> fd \<notin> el_interest s
      then (Ok, s\<lparr>el_interest := insert fd (el_interest s)\<rparr>)
      else (Fail, s\<lparr>el_handlers := (el_handlers s)(fd := None)\<rparr>))"

fun el_run_op :: "el_op \<Rightarrow> 'h evloop \<Rightarrow> 'h evloop" where
  "el_run_op (OpAdd fd) s = snd (el_add fd s)"
| "el_run_op (OpUnsub fd) s = s\<lparr>el_handlers := (el_handlers s)(fd := None), el_interest := el_interest s - {fd}\<rparr>"

fun drain_ops :: "el_op list \<Rightarrow> 'h evloop \<Rightarrow> 'h evloop" where
  "drain_ops [] s = s\<lparr>el_ops := []\<rparr>"
| "drain_ops (p # ps) s = drain_ops ps (el_run_op p (s\<lparr>el_ops := ps\<rparr>))"

definition drainPendingOps :: "'h evloop \<Rightarrow> 'h evloop" where
  "drainPendingOps s = drain_ops (el_ops s) s"

text \<open>One turn of \<open>drainPendingOps\<close>' loop, and one attempt of \<open>post\<close>'s.\<close>

definition el_pop_op :: "'h evloop \<Rightarrow> 'h evloop" where
  "el_pop_op s = (case el_ops s of [] \<Rightarrow> s | p # ps \<Rightarrow> el_run_op p (s\<lparr>el_ops := ps\<rparr>))"

definition el_try_post :: "el_op \<Rightarrow> 'h evloop \<Rightarrow> bool \<times> 'h evloop" where
  "el_try_post p s =
     (if length (el_ops s) < kPendingOpsCapacity
      then (True, s\<lparr>el_ops := el_ops s @ [p], el_wakeups := el_wakeups s + 1\<rparr>) else (False, s))"

text \<open>
  \<open>post\<close> spins while the queue is full, that is until the loop thread has made room: for a caller that is not disturbed,
  until it has drained the queue. The loop thread itself does not post.
\<close>

definition el_post :: "el_op \<Rightarrow> 'h evloop \<Rightarrow> 'h evloop" where
  "el_post p s = (case el_try_post p s of (True, s') \<Rightarrow> s' | (False, s') \<Rightarrow> snd (el_try_post p (drainPendingOps s')))"

text \<open>
  \<open>subscribe\<close> and \<open>unsubscribe\<close> first change the table of handlers under its lock; the operation that is left over is then
  carried out, by the loop thread at once, by another thread with \<open>post\<close>.
\<close>

definition sub_begin :: "int \<Rightarrow> 'h \<Rightarrow> 'h evloop \<Rightarrow> el_op option \<times> 'h evloop" where
  "sub_begin fd h s =
     (if el_handlers s fd \<noteq> None then (None, s) else (Some (OpAdd fd), s\<lparr>el_handlers := (el_handlers s)(fd \<mapsto> h)\<rparr>))"

definition unsub_begin :: "int \<Rightarrow> 'h evloop \<Rightarrow> el_op option \<times> 'h evloop" where
  "unsub_begin fd s = (Some (OpUnsub fd), s\<lparr>el_handlers := (el_handlers s)(fd := None)\<rparr>)"

definition el_at_once :: "el_op \<Rightarrow> 'h evloop \<Rightarrow> result_code \<times> 'h evloop" where
  "el_at_once p s =
     (case p of OpAdd fd \<Rightarrow> el_add fd s | OpUnsub fd \<Rightarrow> (Ok, s\<lparr>el_interest := el_interest s - {fd}\<rparr>))"

definition el_finish :: "bool \<Rightarrow> el_op option \<times> 'h evloop \<Rightarrow> result_code \<times> 'h evloop" where
  "el_finish isLoopThread r =
     (case r of (None, s) \<Rightarrow> (Fail, s)
      | (Some p, s) \<Rightarrow> (if isLoopThread then el_at_once p s else (Ok, el_post p s)))"

definition el_subscribe :: "bool \<Rightarrow> int \<Rightarrow> 'h \<Rightarrow> 'h evloop \<Rightarrow> result_code \<times> 'h evloop" where
  "el_subscribe isLoopThread fd h s = el_finish isLoopThread (sub_begin fd h s)"

definition el_unsubscribe :: "bool \<Rightarrow> int \<Rightarrow> 'h evloop \<Rightarrow> result_code \<times> 'h evloop" where
  "el_unsubscribe isLoopThread fd s = el_finish isLoopThread (unsub_begin fd s)"

text \<open>
  One round of \<open>run\<close> for the answer of \<open>epoll_wait\<close>, with whether the loop goes on: an interrupted wait starts the next
  round, any other error ends the loop. Of the ready descriptors the wake-up descriptor is read empty, one without a
  handler is skipped, the handlers of the others are called in order.
\<close>

datatype wait_answer = WaitReady "int list" | WaitIntr | WaitErr

fun el_dispatch :: "int list \<Rightarrow> 'h evloop \<Rightarrow> 'h list \<times> 'h evloop" where
  "el_dispatch [] s = ([], s)"
| "el_dispatch (fd # fds) s =
     (if fd = el_stopFd s then el_dispatch fds (s\<lparr>el_wakeups := 0\<rparr>)
      else case el_handlers s fd of
             None \<Rightarrow> el_dispatch fds s
           | Some h \<Rightarrow> (let (hs, s) = el_dispatch fds s in (h # hs, s)))"

definition el_round :: "wait_answer \<Rightarrow> 'h evloop \<Rightarrow> bool \<times> 'h list \<times> 'h evloop" where
  "el_round r s =
     (if \<not> el_running s then (False, [], s)
      else let s = drainPendingOps s in
        case r of WaitIntr \<Rightarrow> (True, [], s) | WaitErr \<Rightarrow> (False, [], s) | WaitReady fds \<Rightarrow> (True, el_dispatch fds s))"

section \<open>Runs\<close>

text \<open>
  Threads are numbered, the loop thread is 0. A call is two steps: the change of the table, and its completion, which for
  another thread is an attempt to post (a full queue leaves the call under way). The loop thread drains one operation at a
  time, and not in the middle of a call of its own. The rest of the process opens and closes descriptors.
\<close>

record 'h loop_run =
  lr_loop :: "'h evloop"
  lr_calls :: "nat \<Rightarrow> el_op option"

datatype 'h loop_move =
    MSubscribe nat int 'h | MUnsubscribe nat int | MFinish nat | MDrain | MOpen int | MClose int

definition lr_begin :: "nat \<Rightarrow> ('h evloop \<Rightarrow> el_op option \<times> 'h evloop) \<Rightarrow> 'h loop_run \<Rightarrow> 'h loop_run" where
  "lr_begin t f r =
     (if lr_calls r t \<noteq> None then r
      else case f (lr_loop r) of (p, s) \<Rightarrow> r\<lparr>lr_loop := s, lr_calls := (lr_calls r)(t := p)\<rparr>)"

definition lr_finish :: "nat \<Rightarrow> 'h loop_run \<Rightarrow> 'h loop_run" where
  "lr_finish t r =
     (case lr_calls r t of None \<Rightarrow> r
      | Some p \<Rightarrow>
          if t = 0 then r\<lparr>lr_loop := snd (el_at_once p (lr_loop r)), lr_calls := (lr_calls r)(t := None)\<rparr>
          else (case el_try_post p (lr_loop r) of
                  (True, s) \<Rightarrow> r\<lparr>lr_loop := s, lr_calls := (lr_calls r)(t := None)\<rparr> | (False, s) \<Rightarrow> r))"

fun el_move :: "'h loop_move \<Rightarrow> 'h loop_run \<Rightarrow> 'h loop_run" where
  "el_move (MSubscribe t fd h) r = lr_begin t (sub_begin fd h) r"
| "el_move (MUnsubscribe t fd) r = lr_begin t (unsub_begin fd) r"
| "el_move (MFinish t) r = lr_finish t r"
| "el_move MDrain r = (if lr_calls r 0 = None then r\<lparr>lr_loop := el_pop_op (lr_loop r)\<rparr> else r)"
| "el_move (MOpen fd) r = r\<lparr>lr_loop := el_open_fd fd (lr_loop r)\<rparr>"
| "el_move (MClose fd) r = r\<lparr>lr_loop := el_close_fd fd (lr_loop r)\<rparr>"

text \<open>
  The discipline the loop relies on: nobody closes a descriptor that has a handler, nobody subscribes a number whose
  withdrawal is queued or under way, nobody withdraws a number whose subscription is under way (the loop thread also not
  while it is queued), and the wake-up descriptor is the loop's own.
\<close>

fun el_clean :: "'h loop_move \<Rightarrow> 'h loop_run \<Rightarrow> bool" where
  "el_clean (MSubscribe t fd h) r \<longleftrightarrow>
     fd \<noteq> el_stopFd (lr_loop r) \<and> OpUnsub fd \<notin> set (el_ops (lr_loop r)) \<and> (\<forall>u. lr_calls r u \<noteq> Some (OpUnsub fd))"
| "el_clean (MUnsubscribe t fd) r \<longleftrightarrow>
     fd \<noteq> el_stopFd (lr_loop r) \<and> (\<forall>u. lr_calls r u \<noteq> Some (OpAdd fd)) \<and> (t = 0 \<longrightarrow> OpAdd fd \<notin> set (el_ops (lr_loop r)))"
| "el_clean (MClose fd) r \<longleftrightarrow> fd \<noteq> el_stopFd (lr_loop r) \<and> el_handlers (lr_loop r) fd = None"
| "el_clean _ r \<longleftrightarrow> True"

fun el_runs :: "'h loop_move list \<Rightarrow> 'h loop_run \<Rightarrow> 'h loop_run" where
  "el_runs [] r = r"
| "el_runs (m # ms) r = el_runs ms (el_move m r)"

fun el_clean_run :: "'h loop_move list \<Rightarrow> 'h loop_run \<Rightarrow> bool" where
  "el_clean_run [] r \<longleftrightarrow> True"
| "el_clean_run (m # ms) r \<longleftrightarrow> el_clean m r \<and> el_clean_run ms (el_move m r)"

section \<open>Handlers and interest agree\<close>

fun op_fd :: "el_op \<Rightarrow> int" where "op_fd (OpAdd fd) = fd" | "op_fd (OpUnsub fd) = fd"

definition ops_of :: "int \<Rightarrow> el_op list \<Rightarrow> el_op list" where
  "ops_of fd ps = filter (\<lambda>p. op_fd p = fd) ps"

lemma ops_of_simps [simp]:
  "ops_of fd [] = []"
  "ops_of fd (p # ps) = (if op_fd p = fd then p # ops_of fd ps else ops_of fd ps)"
  "ops_of fd (ps @ qs) = ops_of fd ps @ ops_of fd qs"
  by (simp_all add: ops_of_def)

lemma in_ops_of [simp]: "OpAdd fd \<in> set (ops_of fd ps) \<longleftrightarrow> OpAdd fd \<in> set ps" "OpUnsub fd \<in> set (ops_of fd ps) \<longleftrightarrow> OpUnsub fd \<in> set ps"
  by (simp_all add: ops_of_def)

definition callers :: "el_op \<Rightarrow> (nat \<Rightarrow> el_op option) \<Rightarrow> nat set" where
  "callers p c = {t. c t = Some p}"

lemma callers_update [simp]:
  "callers p (c(t := None)) = callers p c - {t}"
  "callers p (c(t \<mapsto> p)) = insert t (callers p c)"
  "p \<noteq> q \<Longrightarrow> callers p (c(t \<mapsto> q)) = callers p c - {t}"
  by (auto simp: callers_def)

text \<open>What may be queued and under way for one descriptor, given its handler and whether it is watched.\<close>

definition queued_ok :: "int \<Rightarrow> el_op list \<Rightarrow> nat set \<Rightarrow> nat set \<Rightarrow> bool \<Rightarrow> bool \<Rightarrow> bool" where
  "queued_ok fd qs A U handled watched \<longleftrightarrow>
     (qs = [] \<and> A = {} \<and> U = {} \<and> (handled \<longleftrightarrow> watched))
     \<or> (qs = [] \<and> (\<exists>t. A = {t}) \<and> U = {} \<and> handled \<and> \<not> watched)
     \<or> (qs = [OpAdd fd] \<and> A = {} \<and> U = {} \<and> handled \<and> \<not> watched)
     \<or> (set qs \<subseteq> {OpUnsub fd} \<and> (qs \<noteq> [] \<or> U \<noteq> {}) \<and> A = {} \<and> \<not> handled)
     \<or> (\<exists>us. qs = OpAdd fd # us \<and> set us \<subseteq> {OpUnsub fd} \<and> (us \<noteq> [] \<or> U \<noteq> {}) \<and> 0 \<notin> U \<and> A = {} \<and> \<not> handled \<and> \<not> watched)"

definition fd_ok :: "'h loop_run \<Rightarrow> int \<Rightarrow> bool" where
  "fd_ok r fd \<longleftrightarrow> (let s = lr_loop r; qs = ops_of fd (el_ops s); A = callers (OpAdd fd) (lr_calls r); U = callers (OpUnsub fd) (lr_calls r) in
     if fd = el_stopFd s then qs = [] \<and> A = {} \<and> U = {} \<and> el_handlers s fd = None \<and> fd \<in> el_interest s
     else queued_ok fd qs A U (el_handlers s fd \<noteq> None) (fd \<in> el_interest s))"

definition el_inv :: "'h loop_run \<Rightarrow> bool" where
  "el_inv r \<longleftrightarrow> (\<forall>fd. fd_ok r fd)"

lemma el_at_once_other:
  "op_fd p \<noteq> fd \<Longrightarrow> el_handlers (snd (el_at_once p s)) fd = el_handlers s fd"
  "op_fd p \<noteq> fd \<Longrightarrow> fd \<in> el_interest (snd (el_at_once p s)) \<longleftrightarrow> fd \<in> el_interest s"
  "el_ops (snd (el_at_once p s)) = el_ops s" "el_stopFd (snd (el_at_once p s)) = el_stopFd s"
  by (cases p; simp add: el_at_once_def el_add_def)+

lemma el_run_op_other:
  "op_fd p \<noteq> fd \<Longrightarrow> el_handlers (el_run_op p s) fd = el_handlers s fd"
  "op_fd p \<noteq> fd \<Longrightarrow> fd \<in> el_interest (el_run_op p s) \<longleftrightarrow> fd \<in> el_interest s"
  "el_ops (el_run_op p s) = el_ops s" "el_stopFd (el_run_op p s) = el_stopFd s"
  by (cases p; simp add: el_add_def)+

lemma callers_other: "op_fd p \<noteq> op_fd q \<Longrightarrow> c t = Some p \<Longrightarrow> callers q (c(t := None)) = callers q c"
  by (auto simp: callers_def)

lemma callers_begin_other: "op_fd q \<noteq> op_fd p \<Longrightarrow> c t = None \<Longrightarrow> callers q (c(t := Some p)) = callers q c"
  by (auto simp: callers_def)

lemma queued_ok_simps:
  "queued_ok fd [] {} {} h w \<longleftrightarrow> h = w"
  by (auto simp: queued_ok_def)



lemma q_sub:
  "queued_ok fd qs A U False w \<Longrightarrow> OpUnsub fd \<notin> set qs \<Longrightarrow> U = {} \<Longrightarrow> qs = [] \<and> A = {} \<and> \<not> w"
  unfolding queued_ok_def by (elim disjE conjE exE) (auto simp: neq_Nil_conv subset_singleton_iff)

lemma q_unsub:
  "queued_ok fd qs A U h w \<Longrightarrow> A = {} \<Longrightarrow> (t = 0 \<Longrightarrow> OpAdd fd \<notin> set qs) \<Longrightarrow> queued_ok fd qs {} (insert t U) False w"
  unfolding queued_ok_def by (elim disjE conjE exE) auto

lemma q_adder: "queued_ok fd qs A U h w \<Longrightarrow> t \<in> A \<Longrightarrow> qs = [] \<and> A = {t} \<and> U = {} \<and> h \<and> \<not> w"
  unfolding queued_ok_def by (elim disjE conjE exE) auto

lemma q_post_unsub: "queued_ok fd qs A U h w \<Longrightarrow> t \<in> U \<Longrightarrow> queued_ok fd (qs @ [OpUnsub fd]) A (U - {t}) h w"
  unfolding queued_ok_def by (elim disjE conjE exE) auto

lemma q_unsub_at_once: "queued_ok fd qs A U h w \<Longrightarrow> 0 \<in> U \<Longrightarrow> queued_ok fd qs A (U - {0}) h False"
  unfolding queued_ok_def by (elim disjE conjE exE) auto

lemma q_pop_unsub:
  "queued_ok fd (OpUnsub fd # qs) A U h w \<Longrightarrow> queued_ok fd qs A U False False"
  unfolding queued_ok_def by (elim disjE conjE exE) auto

lemma q_pop_add: "queued_ok fd (OpAdd fd # qs) A U h w \<Longrightarrow> \<not> w \<and> queued_ok fd qs A U False False \<and> queued_ok fd qs A U h h \<and> queued_ok fd qs A U h True"
  unfolding queued_ok_def by (elim disjE conjE exE) auto

text \<open>Every move keeps what is queued for a descriptor it is not about.\<close>

lemma fd_ok_same:
  assumes "fd_ok r fd" and "ops_of fd (el_ops (lr_loop r')) = ops_of fd (el_ops (lr_loop r))"
    and "callers (OpAdd fd) (lr_calls r') = callers (OpAdd fd) (lr_calls r)"
    and "callers (OpUnsub fd) (lr_calls r') = callers (OpUnsub fd) (lr_calls r)"
    and "el_handlers (lr_loop r') fd = el_handlers (lr_loop r) fd" and "fd \<in> el_interest (lr_loop r') \<longleftrightarrow> fd \<in> el_interest (lr_loop r)"
    and "el_stopFd (lr_loop r') = el_stopFd (lr_loop r)"
  shows "fd_ok r' fd"
  using assms unfolding fd_ok_def Let_def by (simp only:)

lemma fd_ok_begin_sub:
  assumes i: "\<forall>fd. fd_ok r fd" and c: "el_clean (MSubscribe t a h) r"
  shows "fd_ok (lr_begin t (sub_begin a h) r) fd"
proof (cases "lr_calls r t \<noteq> None \<or> el_handlers (lr_loop r) a \<noteq> None")
  case True
  have "lr_calls r t = None \<Longrightarrow> (lr_calls r)(t := None) = lr_calls r" by auto
  then have "lr_begin t (sub_begin a h) r = r" using True by (auto simp: lr_begin_def sub_begin_def)
  then show ?thesis using i by simp
next
  case False
  then have idle: "lr_calls r t = None" and free: "el_handlers (lr_loop r) a = None" by simp_all
  let ?c = "(lr_calls r)(t \<mapsto> OpAdd a)"
  have e: "lr_begin t (sub_begin a h) r = r\<lparr>lr_loop := (lr_loop r)\<lparr>el_handlers := (el_handlers (lr_loop r))(a \<mapsto> h)\<rparr>, lr_calls := ?c\<rparr>"
    using idle free by (simp add: lr_begin_def sub_begin_def)
  show ?thesis
  proof (cases "fd = a")
    case False
    have "fd_ok r fd" using i by blast
    then show ?thesis using False idle by (rule_tac fd_ok_same) (simp_all add: e callers_begin_other del: callers_update)
  next
    case True
    have U: "callers (OpUnsub a) (lr_calls r) = {}" using c by (simp add: callers_def)
    have "queued_ok a (ops_of a (el_ops (lr_loop r))) (callers (OpAdd a) (lr_calls r)) (callers (OpUnsub a) (lr_calls r)) False (a \<in> el_interest (lr_loop r))"
      using i[rule_format, of a] c free by (simp add: fd_ok_def Let_def)
    from q_sub[OF this _ U] c have "ops_of a (el_ops (lr_loop r)) = []" "callers (OpAdd a) (lr_calls r) = {}" "a \<notin> el_interest (lr_loop r)"
      by simp_all
    then show ?thesis using c U True by (simp add: e fd_ok_def Let_def queued_ok_def)
  qed
qed

lemma fd_ok_begin_unsub:
  assumes i: "\<forall>fd. fd_ok r fd" and c: "el_clean (MUnsubscribe t a) r"
  shows "fd_ok (lr_begin t (unsub_begin a) r) fd"
proof (cases "lr_calls r t = None")
  case False
  then show ?thesis using i by (simp add: lr_begin_def)
next
  case True
  let ?c = "(lr_calls r)(t \<mapsto> OpUnsub a)"
  have e: "lr_begin t (unsub_begin a) r = r\<lparr>lr_loop := (lr_loop r)\<lparr>el_handlers := (el_handlers (lr_loop r))(a := None)\<rparr>, lr_calls := ?c\<rparr>"
    using True by (simp add: lr_begin_def unsub_begin_def)
  show ?thesis
  proof (cases "fd = a")
    case False
    have "fd_ok r fd" using i by blast
    then show ?thesis using False True by (rule_tac fd_ok_same) (simp_all add: e callers_begin_other del: callers_update)
  next
    case same: True
    have A: "callers (OpAdd a) (lr_calls r) = {}" using c by (simp add: callers_def)
    have "queued_ok a (ops_of a (el_ops (lr_loop r))) (callers (OpAdd a) (lr_calls r)) (callers (OpUnsub a) (lr_calls r))
        (el_handlers (lr_loop r) a \<noteq> None) (a \<in> el_interest (lr_loop r))"
      using i[rule_format, of a] c by (simp add: fd_ok_def Let_def)
    from q_unsub[OF this A, of t] show ?thesis using c A same by (simp add: e fd_ok_def Let_def)
  qed
qed

lemma fd_ok_finish:
  assumes i: "\<forall>fd. fd_ok r fd"
  shows "fd_ok (lr_finish t r) fd"
proof (cases "lr_calls r t")
  case None
  then show ?thesis using i by (simp add: lr_finish_def)
next
  case (Some p)
  let ?s = "lr_loop r" and ?c = "(lr_calls r)(t := None)"
  have me: "t \<in> callers p (lr_calls r)" using Some by (simp add: callers_def)
  have ok: "fd_ok r fd" using i by blast
  have stop: "op_fd p = fd \<Longrightarrow> fd \<noteq> el_stopFd ?s" using ok me by (cases p) (auto simp: fd_ok_def Let_def)
  have q: "op_fd p = fd \<Longrightarrow> queued_ok fd (ops_of fd (el_ops ?s)) (callers (OpAdd fd) (lr_calls r)) (callers (OpUnsub fd) (lr_calls r))
      (el_handlers ?s fd \<noteq> None) (fd \<in> el_interest ?s)"
    using ok stop by (simp add: fd_ok_def Let_def)
  show ?thesis
  proof (cases "t = 0")
    case True
    have e: "lr_finish t r = r\<lparr>lr_loop := snd (el_at_once p ?s), lr_calls := ?c\<rparr>" using Some True by (simp add: lr_finish_def)
    show ?thesis
    proof (cases "op_fd p = fd")
      case False
      show ?thesis by (rule fd_ok_same[OF ok]) (use False Some in \<open>simp_all add: e el_at_once_other callers_other del: callers_update\<close>)
    next
      case same: True
      show ?thesis
      proof (cases p)
        case (OpAdd a)
        then have a: "a = fd" "0 \<in> callers (OpAdd fd) (lr_calls r)" using same me True by simp_all
        from q_adder[OF q[OF same] a(2)] show ?thesis unfolding e using OpAdd a(1) True stop[OF same]
          by (simp add: fd_ok_def Let_def el_at_once_def el_add_def queued_ok_simps)
      next
        case (OpUnsub a)
        then have "0 \<in> callers (OpUnsub fd) (lr_calls r)" and zero: "0 \<notin> callers (OpAdd fd) (lr_calls r)"
          using me same True Some by (simp_all add: callers_def)
        from q_unsub_at_once[OF q[OF same] this(1)] show ?thesis unfolding e using OpUnsub same True stop zero
          by (simp add: fd_ok_def Let_def el_at_once_def)
      qed
    qed
  next
    case False
    show ?thesis
    proof (cases "length (el_ops ?s) < kPendingOpsCapacity")
      case full: False
      then show ?thesis using Some False ok by (simp add: lr_finish_def el_try_post_def)
    next
      case True
      then have e: "lr_finish t r = r\<lparr>lr_loop := ?s\<lparr>el_ops := el_ops ?s @ [p], el_wakeups := el_wakeups ?s + 1\<rparr>, lr_calls := ?c\<rparr>"
        using Some False by (simp add: lr_finish_def el_try_post_def)
      show ?thesis
      proof (cases "op_fd p = fd")
        case False
        show ?thesis by (rule fd_ok_same[OF ok]) (use False Some in \<open>simp_all add: e callers_other del: callers_update\<close>)
      next
        case same: True
        show ?thesis
        proof (cases p)
          case (OpAdd a)
          then show ?thesis using q_adder[OF q[OF same]] me stop same by (auto simp: e fd_ok_def Let_def queued_ok_def)
        next
          case (OpUnsub a)
          then have "t \<in> callers (OpUnsub fd) (lr_calls r)" and none: "t \<notin> callers (OpAdd fd) (lr_calls r)"
            using me same Some by (simp_all add: callers_def)
          from q_post_unsub[OF q[OF same] this(1)] show ?thesis using OpUnsub stop same none by (simp add: e fd_ok_def Let_def)
        qed
      qed
    qed
  qed
qed

lemma fd_ok_pop:
  assumes i: "\<forall>fd. fd_ok r fd"
  shows "fd_ok (r\<lparr>lr_loop := el_pop_op (lr_loop r)\<rparr>) fd"
proof (cases "el_ops (lr_loop r)")
  case Nil
  then show ?thesis using i by (simp add: el_pop_op_def)
next
  case (Cons p ps)
  let ?s = "(lr_loop r)\<lparr>el_ops := ps\<rparr>"
  have ok: "fd_ok r fd" using i by blast
  have e: "el_pop_op (lr_loop r) = el_run_op p ?s" using Cons by (simp add: el_pop_op_def)
  show ?thesis
  proof (cases "op_fd p = fd")
    case False
    show ?thesis by (rule fd_ok_same[OF ok]) (use False Cons in \<open>simp_all add: e el_run_op_other\<close>)
  next
    case True
    then have stop: "fd \<noteq> el_stopFd (lr_loop r)" using ok Cons by (auto simp: fd_ok_def Let_def)
    have q: "queued_ok fd (p # ops_of fd ps) (callers (OpAdd fd) (lr_calls r)) (callers (OpUnsub fd) (lr_calls r))
        (el_handlers (lr_loop r) fd \<noteq> None) (fd \<in> el_interest (lr_loop r))"
      using ok stop Cons True by (simp add: fd_ok_def Let_def)
    show ?thesis
    proof (cases p)
      case (OpAdd a)
      then have "p = OpAdd fd" using True by simp
      with q_pop_add[OF q[unfolded this]] show ?thesis using stop True OpAdd
        by (auto simp: e fd_ok_def Let_def el_add_def el_run_op_other)
    next
      case (OpUnsub a)
      then have "p = OpUnsub fd" using True by simp
      with q_pop_unsub[OF q[unfolded this]] show ?thesis using stop True OpUnsub
        by (simp add: e fd_ok_def Let_def el_run_op_other)
    qed
  qed
qed

lemma el_inv_move:
  assumes i: "el_inv r" and c: "el_clean m r"
  shows "el_inv (el_move m r)"
proof -
  have i: "\<forall>fd. fd_ok r fd" using i by (simp add: el_inv_def)
  have "fd_ok (el_move m r) fd" for fd
  proof (cases m)
    case (MSubscribe t a h)
    then show ?thesis using fd_ok_begin_sub[OF i] c by simp
  next
    case (MUnsubscribe t a)
    then show ?thesis using fd_ok_begin_unsub[OF i] c by simp
  next
    case (MFinish t)
    then show ?thesis using fd_ok_finish[OF i] by simp
  next
    case MDrain
    then show ?thesis using fd_ok_pop[OF i] i by simp
  next
    case (MOpen a)
    show ?thesis by (rule fd_ok_same[OF i[rule_format]]) (simp_all add: MOpen el_open_fd_def)
  next
    case (MClose a)
    show ?thesis
    proof (cases "fd = a")
      case False
      show ?thesis by (rule fd_ok_same[OF i[rule_format]]) (use False in \<open>simp_all add: MClose el_close_fd_def\<close>)
    next
      case True
      then have "queued_ok a (ops_of a (el_ops (lr_loop r))) (callers (OpAdd a) (lr_calls r)) (callers (OpUnsub a) (lr_calls r)) False
          (a \<in> el_interest (lr_loop r))"
        using i[rule_format, of a] c by (simp add: fd_ok_def Let_def MClose)
      then have "queued_ok a (ops_of a (el_ops (lr_loop r))) (callers (OpAdd a) (lr_calls r)) (callers (OpUnsub a) (lr_calls r)) False False"
        unfolding queued_ok_def by blast
      then show ?thesis using True c by (simp add: fd_ok_def Let_def MClose el_close_fd_def)
    qed
  qed
  then show ?thesis by (simp add: el_inv_def)
qed

lemma el_inv_runs: "el_inv r \<Longrightarrow> el_clean_run ms r \<Longrightarrow> el_inv (el_runs ms r)"
  by (induction ms arbitrary: r) (simp_all add: el_inv_move)

definition lr_started :: "'h evloop \<Rightarrow> 'h loop_run" where
  "lr_started s = \<lparr>lr_loop = s, lr_calls = (\<lambda>_. None)\<rparr>"

lemma el_inv_started:
  assumes "el_start epfd evfd ctl (el_new w) = Some s"
  shows "el_inv (lr_started s)"
proof -
  have "el_stopFd s = evfd" "el_interest s = {evfd}" "el_handlers s = (\<lambda>_. None)" "el_ops s = []"
    using assms by (auto simp: el_start_def el_new_def el_open_fd_def Let_def split: if_splits)
  then show ?thesis by (auto simp: el_inv_def fd_ok_def lr_started_def callers_def queued_ok_def)
qed


text \<open>
  Worker 1 subscribes 7 while worker 2 subscribes 8; 7 is withdrawn, closed and handed out again once the loop has
  drained, and the loop thread's own withdrawal of 8 comes in between.
\<close>

definition demo_moves :: "nat loop_move list" where
  "demo_moves = [MSubscribe 1 7 1, MSubscribe 2 8 2, MFinish 2, MFinish 1, MDrain, MDrain, MUnsubscribe 1 7, MUnsubscribe 0 8,
     MFinish 0, MFinish 1, MDrain, MClose 7, MOpen 7, MSubscribe 2 7 3, MFinish 2, MDrain]"

definition demo_started :: "nat evloop" where
  "demo_started = the (el_start 3 4 True (el_new \<lparr>ot_open = {3, 7, 8}, ot_paths = {}\<rparr>))"

lemmas el_move_defs = el_subscribe_def el_unsubscribe_def el_post_def el_open_fd_def el_close_fd_def el_new_def
  drainPendingOps_def el_add_def os_close_def Let_def kPendingOpsCapacity_def el_try_post_def sub_begin_def unsub_begin_def
  el_at_once_def el_finish_def lr_begin_def lr_finish_def el_pop_op_def el_start_def lr_started_def

lemma demo_started: "el_start 3 4 True (el_new \<lparr>ot_open = {3, 7, 8}, ot_paths = {}\<rparr>) = Some demo_started"
  by (simp add: demo_started_def el_start_def el_new_def Let_def)


text \<open>
  The discipline is needed. Withdrawing a descriptor, closing it, and subscribing the same number for a new connection
  before the loop thread has drained its queue leaves the new connection watched without a handler: its events are skipped
  for good. So does a withdrawal whose call overtakes the subscription's between the table and the queue.
\<close>
theorem resubscribed_descriptor_loses_handler:
  "let s = lr_loop (el_runs [MSubscribe 1 7 h, MFinish 1, MDrain, MUnsubscribe 1 7, MFinish 1, MClose 7, MOpen 7, MSubscribe 1 7 h', MFinish 1,
       MDrain, MDrain] (lr_started demo_started))
   in 7 \<in> el_interest s \<and> el_handlers s 7 = None \<and> fst (el_dispatch [7] s) = []"
  by (simp add: el_move_defs demo_started_def)

lemma overtaken_subscription_loses_handler:
  "let s = lr_loop (el_runs [MSubscribe 1 7 h, MUnsubscribe 2 7, MFinish 2, MFinish 1, MDrain, MDrain] (lr_started demo_started))
   in 7 \<in> el_interest s \<and> el_handlers s 7 = None \<and> fst (el_dispatch [7] s) = []"
  by (simp add: el_move_defs demo_started_def)

end
