(* ===== verification/Ipc_Server.thy ===== *)
theory Ipc_Server
  imports Event_Loop Actor_Base
begin

text \<open>
  The command socket (\<open>src/src/service/ipc/ipc_server_actor.cpp\<close>): connections are accepted on the loop thread, one
  command is read from each, passed to the command actor, and its response is written back. The actor runs against the
  models of the event loop and of the transport; the outcomes of system calls are arguments.
\<close>

section \<open>State\<close>

datatype io_handler = OnListener | OnClient int

datatype ipc_msg = IpcNewConnection int | IpcDataReceived int | CmdResponse int string bool

record ipc =
  ic_state :: actor_state
  ic_server :: uds_server
  ic_socketPath :: string
  ic_connections :: "int list"
  ic_recvBufferSize :: nat

text \<open>The loop, the actor's own mailbox, the requests sent to the command actor and what was written to descriptors.\<close>

record ipc_world =
  iw_loop :: "io_handler evloop"
  iw_mailbox :: "ipc_msg list"
  iw_requests :: "(int \<times> string) list"
  iw_wire :: "(int \<times> string) list"

definition ipc_new :: "string \<Rightarrow> nat \<Rightarrow> ipc" where
  "ipc_new path buf = \<lparr>ic_state = Closed, ic_server = uds_server_new, ic_socketPath = path, ic_connections = [],
     ic_recvBufferSize = buf\<rparr>"

section \<open>Subscriptions\<close>

definition ipc_subscribeListener :: "ipc \<Rightarrow> ipc_world \<Rightarrow> ipc_world" where
  "ipc_subscribeListener a w = w\<lparr>iw_loop := snd (el_subscribe False (us_fd (ic_server a)) OnListener (iw_loop w))\<rparr>"

text \<open>The listener's handler: \<open>conn\<close> is the answer of \<open>accept\<close>.\<close>

definition ipc_on_accept :: "int \<Rightarrow> ipc \<Rightarrow> ipc_world \<Rightarrow> ipc \<times> ipc_world" where
  "ipc_on_accept conn a w =
     (if 0 \<le> conn
      then (a\<lparr>ic_connections := List.insert conn (ic_connections a)\<rparr>,
            w\<lparr>iw_loop := el_open_fd conn (iw_loop w), iw_mailbox := iw_mailbox w @ [IpcNewConnection conn]\<rparr>)
      else (a, w))"

definition ipc_subscribeClient :: "int \<Rightarrow> ipc_world \<Rightarrow> ipc_world" where
  "ipc_subscribeClient conn w = w\<lparr>iw_loop := snd (el_subscribe False conn (OnClient conn) (iw_loop w))\<rparr>"

definition ipc_on_readable :: "int \<Rightarrow> ipc_world \<Rightarrow> ipc_world" where
  "ipc_on_readable conn w = w\<lparr>iw_mailbox := iw_mailbox w @ [IpcDataReceived conn]\<rparr>"

definition unsubscribe_and_close :: "int \<Rightarrow> 'h evloop \<Rightarrow> 'h evloop" where
  "unsubscribe_and_close conn l = el_close_fd conn (snd (el_unsubscribe False conn l))"

definition ipc_unsubscribeAll :: "ipc \<Rightarrow> ipc_world \<Rightarrow> ipc \<times> ipc_world" where
  "ipc_unsubscribeAll a w =
     (let l = foldl (\<lambda>l conn. unsubscribe_and_close conn l) (iw_loop w) (ic_connections a);
          l = (if 0 \<le> us_fd (ic_server a) then snd (el_unsubscribe False (us_fd (ic_server a)) l) else l)
      in (a\<lparr>ic_connections := []\<rparr>, w\<lparr>iw_loop := l\<rparr>))"

section \<open>Open and close\<close>

text \<open>\<open>UdsServer::shutdown\<close> and \<open>start\<close> on the descriptor table of the loop's process.\<close>

definition loop_shutdown :: "uds_server \<Rightarrow> 'h evloop \<Rightarrow> uds_server \<times> 'h evloop" where
  "loop_shutdown sv l =
     (let (sv', t) = uds_shutdown sv (el_os l) in (sv', l\<lparr>el_os := t, el_interest := el_interest l - {us_fd sv}\<rparr>))"

definition loop_start :: "start_env \<Rightarrow> string \<Rightarrow> uds_server \<Rightarrow> 'h evloop \<Rightarrow> result_code \<times> uds_server \<times> 'h evloop" where
  "loop_start e path sv l = (let (r, sv, t) = uds_start e path sv (el_os l) in (r, sv, l\<lparr>el_os := t\<rparr>))"

definition ipc_close :: "ipc \<Rightarrow> ipc_world \<Rightarrow> result_code \<times> ipc \<times> ipc_world" where
  "ipc_close a w =
     (if ic_state a = Closed then (Ok, a, w)
      else let a = a\<lparr>ic_state := Closing\<rparr>;
               (a, w) = ipc_unsubscribeAll a w;
               (sv, l) = loop_shutdown (ic_server a) (iw_loop w)
           in (Ok, a\<lparr>ic_server := sv, ic_state := Closed\<rparr>, w\<lparr>iw_loop := l\<rparr>))"

definition ipc_open :: "start_env \<Rightarrow> ipc \<Rightarrow> ipc_world \<Rightarrow> result_code \<times> ipc \<times> ipc_world" where
  "ipc_open e a w =
     (let (_, a, w) = (if ic_state a \<noteq> Closed then ipc_close a w else (Ok, a, w));
          a = a\<lparr>ic_state := Opening\<rparr>;
          (r, sv, l) = loop_start e (ic_socketPath a) (ic_server a) (iw_loop w);
          a = a\<lparr>ic_server := sv\<rparr>; w = w\<lparr>iw_loop := l\<rparr>
      in if r \<noteq> Ok then (Fail, a\<lparr>ic_state := Closed\<rparr>, w)
         else (Ok, a\<lparr>ic_state := Opened\<rparr>, ipc_subscribeListener a w))"

definition ipc_destroy :: "ipc \<Rightarrow> ipc_world \<Rightarrow> ipc_world" where
  "ipc_destroy a w =
     (let (a, w) = ipc_unsubscribeAll a w; (_, l) = loop_shutdown (ic_server a) (iw_loop w) in w\<lparr>iw_loop := l\<rparr>)"

section \<open>Messages\<close>

definition ipc_handleCommand :: "int \<Rightarrow> string \<Rightarrow> ipc_world \<Rightarrow> ipc_world" where
  "ipc_handleCommand conn cmd w = w\<lparr>iw_requests := iw_requests w @ [(conn, cmd)]\<rparr>"

definition strip_newline :: "string \<Rightarrow> string" where
  "strip_newline s = (if s \<noteq> [] \<and> last s = CHR 0x0A then butlast s else s)"

definition ipc_unsubscribe :: "int \<Rightarrow> ipc_world \<Rightarrow> ipc_world" where
  "ipc_unsubscribe conn w = w\<lparr>iw_loop := snd (el_unsubscribe False conn (iw_loop w))\<rparr>"

definition ipc_closeClient :: "int \<Rightarrow> ipc_world \<Rightarrow> ipc_world" where
  "ipc_closeClient conn w = (if 0 \<le> conn then w\<lparr>iw_loop := el_close_fd conn (iw_loop w)\<rparr> else w)"

text \<open>\<open>r\<close> is the answer of the non-blocking read, which yields at most the buffer size.\<close>

definition ipc_dataReceived :: "char sys_recv \<Rightarrow> int \<Rightarrow> ipc \<Rightarrow> ipc_world \<Rightarrow> ipc \<times> ipc_world" where
  "ipc_dataReceived r conn a w =
     (case r of
        RecvBytes bs \<Rightarrow>
          (if bs \<noteq> []
           then (a, ipc_unsubscribe conn (ipc_handleCommand conn (strip_newline (take (ic_recvBufferSize a) bs)) w))
           else (a\<lparr>ic_connections := removeAll conn (ic_connections a)\<rparr>, ipc_closeClient conn (ipc_unsubscribe conn w)))
      | _ \<Rightarrow> (a, w))"

text \<open>\<open>k\<close> bytes of the response reach the wire before the send loop ends; writing to a closed descriptor fails.\<close>

definition ipc_cmdResponse :: "nat \<Rightarrow> int \<Rightarrow> string \<Rightarrow> bool \<Rightarrow> ipc \<Rightarrow> ipc_world \<Rightarrow> ipc \<times> ipc_world" where
  "ipc_cmdResponse k conn result closeOnSend a w =
     (let w = (if conn \<in> ot_open (el_os (iw_loop w)) then w\<lparr>iw_wire := iw_wire w @ [(conn, take k result)]\<rparr> else w) in
      if closeOnSend
      then (a\<lparr>ic_connections := removeAll conn (ic_connections a)\<rparr>, ipc_closeClient conn (ipc_unsubscribe conn w))
      else (a, w))"

definition ipc_handle :: "char sys_recv \<Rightarrow> nat \<Rightarrow> ipc_msg \<Rightarrow> ipc \<Rightarrow> ipc_world \<Rightarrow> ipc \<times> ipc_world" where
  "ipc_handle r k m a w =
     (if \<not> accepts (ic_state a) then (a, w)
      else case m of
             IpcNewConnection conn \<Rightarrow> (a, ipc_subscribeClient conn w)
           | IpcDataReceived conn \<Rightarrow> ipc_dataReceived r conn a w
           | CmdResponse conn result closeOnSend \<Rightarrow> ipc_cmdResponse k conn result closeOnSend a w)"

section \<open>The event loop leaves the descriptor table alone\<close>

lemma el_os_drain_ops [simp]: "el_os (drain_ops ps l) = el_os l"
proof (induction ps arbitrary: l)
  case (Cons p ps)
  then show ?case by (cases p) (simp_all add: el_add_def)
qed simp

lemma el_os_calls [simp]:
  "el_os (drainPendingOps l) = el_os l"
  "el_os (snd (el_try_post p l)) = el_os l"
  "el_os (el_post p l) = el_os l"
  "el_os (snd (el_subscribe b fd h l)) = el_os l"
  "el_os (snd (el_unsubscribe b fd l)) = el_os l"
  by (simp_all add: drainPendingOps_def el_try_post_def el_post_def el_subscribe_def el_unsubscribe_def sub_begin_def unsub_begin_def
      el_finish_def el_at_once_def el_add_def Let_def)

lemma open_after_close_fd [simp]:
  "0 \<le> fd \<Longrightarrow> ot_open (el_os (el_close_fd fd l)) = ot_open (el_os l) - {fd}"
  "ot_open (el_os (el_open_fd fd l)) = insert fd (ot_open (el_os l))"
  by (simp_all add: el_close_fd_def el_open_fd_def os_close_def)

lemma drain_ops_no_handler: "el_handlers s fd = None \<Longrightarrow> el_handlers (drain_ops ps s) fd = None"
proof (induction ps arbitrary: s)
  case (Cons p ps)
  have "el_handlers (el_run_op p (s\<lparr>el_ops := ps\<rparr>)) fd = None" using Cons.prems by (cases p) (simp_all add: el_add_def)
  from Cons.IH[OF this] show ?case by simp
qed simp

lemma no_handler_after_post: "el_handlers l fd = None \<Longrightarrow> el_handlers (el_post p l) fd = None"
  by (simp add: el_post_def el_try_post_def drainPendingOps_def drain_ops_no_handler)

lemma no_handler_after_unsubscribe:
  "el_handlers (snd (el_unsubscribe False fd l)) fd = None"
  "el_handlers l c = None \<Longrightarrow> el_handlers (snd (el_unsubscribe False fd l)) c = None"
  by (simp_all add: el_unsubscribe_def unsub_begin_def el_finish_def no_handler_after_post)

lemma closing_all:
  assumes "\<forall>c \<in> set cs. 0 \<le> c"
  shows "ot_open (el_os (foldl (\<lambda>l conn. unsubscribe_and_close conn l) l cs)) = ot_open (el_os l) - set cs
    \<and> (\<forall>c. c \<in> set cs \<or> el_handlers l c = None \<longrightarrow> el_handlers (foldl (\<lambda>l conn. unsubscribe_and_close conn l) l cs) c = None)"
  using assms
proof (induction cs arbitrary: l)
  case (Cons a cs)
  let ?l = "unsubscribe_and_close a l"
  have h: "el_handlers ?l c = None" if "c = a \<or> el_handlers l c = None" for c
    using that no_handler_after_unsubscribe[where fd = a and l = l] by (auto simp: unsubscribe_and_close_def el_close_fd_def)
  have o: "ot_open (el_os ?l) = ot_open (el_os l) - {a}"
    using Cons.prems by (simp add: unsubscribe_and_close_def)
  have IH: "ot_open (el_os (foldl (\<lambda>l conn. unsubscribe_and_close conn l) ?l cs)) = ot_open (el_os ?l) - set cs
    \<and> (\<forall>c. c \<in> set cs \<or> el_handlers ?l c = None \<longrightarrow> el_handlers (foldl (\<lambda>l conn. unsubscribe_and_close conn l) ?l cs) c = None)"
    using Cons.prems by (intro Cons.IH) simp
  show ?case using IH h o by auto
qed simp

text \<open>Closing the actor leaves none of its descriptors open and no handler behind.\<close>

lemma ipc_close_releases:
  assumes "ic_state a \<noteq> Closed" and "\<forall>c \<in> set (ic_connections a). 0 \<le> c" and "0 \<le> us_fd (ic_server a)"
  shows "case ipc_close a w of (r, a', w') \<Rightarrow>
     r = Ok \<and> ic_state a' = Closed \<and> ic_connections a' = [] \<and> us_fd (ic_server a') = -1
     \<and> ot_open (el_os (iw_loop w')) = ot_open (el_os (iw_loop w)) - insert (us_fd (ic_server a)) (set (ic_connections a))
     \<and> (\<forall>c \<in> insert (us_fd (ic_server a)) (set (ic_connections a)). el_handlers (iw_loop w') c = None)"
proof -
  define l where "l = foldl (\<lambda>l conn. unsubscribe_and_close conn l) (iw_loop w) (ic_connections a)"
  have o: "ot_open (el_os l) = ot_open (el_os (iw_loop w)) - set (ic_connections a)"
    and h: "\<And>c. c \<in> set (ic_connections a) \<Longrightarrow> el_handlers l c = None"
    using closing_all[OF assms(2), of "iw_loop w"] unfolding l_def by blast+
  show ?thesis
    using assms o h no_handler_after_unsubscribe[where fd = "us_fd (ic_server a)" and l = l]
    by (auto simp: ipc_close_def ipc_unsubscribeAll_def loop_shutdown_def uds_shutdown_def os_close_def os_unlink_def
        Let_def l_def[symmetric] split: prod.splits)
qed

section \<open>Who gets the response\<close>

text \<open>
  A run numbers the clients in the order they are accepted. \<open>ir_peer\<close> is the client behind a descriptor, \<open>ir_waiting\<close>
  the requests that have no final response yet, and \<open>ir_answers\<close> records, for each response, the client that asked, the
  bytes the socket took of it, and what the actor in fact wrote: for every write the client behind the descriptor and the
  bytes. The loop drains its queue at any time.
\<close>

record ipc_run =
  ir_ipc :: ipc
  ir_world :: ipc_world
  ir_peer :: "int \<Rightarrow> nat"
  ir_clients :: nat
  ir_waiting :: "(int \<times> nat) list"
  ir_answers :: "(nat \<times> string \<times> (nat \<times> string) list) list"

datatype ipc_event = IAccept int | INew int | IData int "char sys_recv" | IRespond int nat nat string bool | IDrain

definition written :: "ipc_run \<Rightarrow> ipc_world \<Rightarrow> (nat \<times> string) list" where
  "written s w = map (\<lambda>(fd, bs). (ir_peer s fd, bs)) (drop (length (iw_wire (ir_world s))) (iw_wire w))"

fun ipc_step :: "ipc_event \<Rightarrow> ipc_run \<Rightarrow> ipc_run" where
  "ipc_step (IAccept conn) s =
     (let (a, w) = ipc_on_accept conn (ir_ipc s) (ir_world s) in
      s\<lparr>ir_ipc := a, ir_world := w, ir_peer := (ir_peer s)(conn := ir_clients s), ir_clients := ir_clients s + 1\<rparr>)"
| "ipc_step (INew conn) s =
     (let (a, w) = ipc_handle RecvErr 0 (IpcNewConnection conn) (ir_ipc s) (ir_world s) in s\<lparr>ir_ipc := a, ir_world := w\<rparr>)"
| "ipc_step (IData conn r) s =
     (let (a, w) = ipc_handle r 0 (IpcDataReceived conn) (ir_ipc s) (ir_world s) in
      s\<lparr>ir_ipc := a, ir_world := w,
        ir_waiting := ir_waiting s @
          (if length (iw_requests w) > length (iw_requests (ir_world s)) then [(conn, ir_peer s conn)] else [])\<rparr>)"
| "ipc_step (IRespond conn n k text closeOnSend) s =
     (let (a, w) = ipc_handle RecvErr k (CmdResponse conn text closeOnSend) (ir_ipc s) (ir_world s) in
      s\<lparr>ir_ipc := a, ir_world := w,
        ir_waiting := (if closeOnSend then remove1 (conn, n) (ir_waiting s) else ir_waiting s),
        ir_answers := ir_answers s @ [(n, take k text, written s w)]\<rparr>)"
| "ipc_step IDrain s =
     s\<lparr>ir_world := (ir_world s)\<lparr>iw_loop := drainPendingOps (iw_loop (ir_world s))\<rparr>\<rparr>"

text \<open>The kernel hands out numbers that are not open, and responses answer requests.\<close>

fun ipc_possible :: "ipc_event \<Rightarrow> ipc_run \<Rightarrow> bool" where
  "ipc_possible (IAccept conn) s \<longleftrightarrow> 0 \<le> conn \<and> conn \<notin> ot_open (el_os (iw_loop (ir_world s)))"
| "ipc_possible (IData conn r) s \<longleftrightarrow> conn \<in> ot_open (el_os (iw_loop (ir_world s))) \<or> r = RecvErr"
| "ipc_possible (IRespond conn n k text closeOnSend) s \<longleftrightarrow> (conn, n) \<in> set (ir_waiting s)"
| "ipc_possible _ s \<longleftrightarrow> True"

text \<open>A client that sends one command and then waits: nothing, not even the end of its stream, arrives before the response.\<close>

fun ipc_patient :: "ipc_event \<Rightarrow> ipc_run \<Rightarrow> bool" where
  "ipc_patient (IData conn r) s \<longleftrightarrow> (conn \<in> fst ` set (ir_waiting s) \<longrightarrow> r = RecvIntr \<or> r = RecvErr)"
| "ipc_patient _ s \<longleftrightarrow> True"

fun ipc_runs :: "ipc_event list \<Rightarrow> ipc_run \<Rightarrow> ipc_run" where
  "ipc_runs [] s = s"
| "ipc_runs (e # es) s = ipc_runs es (ipc_step e s)"

fun ipc_run_ok :: "(ipc_event \<Rightarrow> ipc_run \<Rightarrow> bool) \<Rightarrow> ipc_event list \<Rightarrow> ipc_run \<Rightarrow> bool" where
  "ipc_run_ok P [] s \<longleftrightarrow> True"
| "ipc_run_ok P (e # es) s \<longleftrightarrow> P e s \<and> ipc_run_ok P es (ipc_step e s)"

definition ipc_serving :: "ipc_run \<Rightarrow> bool" where
  "ipc_serving s \<longleftrightarrow> ic_state (ir_ipc s) = Opened \<and> distinct (map fst (ir_waiting s))
     \<and> (\<forall>(c, n) \<in> set (ir_waiting s). 0 \<le> c \<and> c \<in> ot_open (el_os (iw_loop (ir_world s))) \<and> ir_peer s c = n)
     \<and> (\<forall>c \<in> ot_open (el_os (iw_loop (ir_world s))). 0 \<le> c)
     \<and> (\<forall>(n, body, ws) \<in> set (ir_answers s). ws = [(n, body)])"

lemma remove1_distinct_fst:
  assumes "distinct (map fst xs)" and "(c, n) \<in> set xs" and "(c', n') \<in> set (remove1 (c, n) xs)"
  shows "c' \<noteq> c"
proof
  assume "c' = c"
  have "distinct xs" "inj_on fst (set xs)" using assms(1) by (simp_all add: distinct_map)
  then have m: "(c', n') \<in> set xs - {(c, n)}" using assms(3) by (simp add: set_remove1_eq)
  have "(c', n') = (c, n)"
    by (rule inj_onD[OF \<open>inj_on fst (set xs)\<close> _ _ assms(2)]) (use m \<open>c' = c\<close> in simp_all)
  then show False using m by blast
qed

lemma distinct_fst_remove1: "distinct (map fst xs) \<Longrightarrow> distinct (map fst (remove1 x xs))"
  unfolding distinct_map by (meson distinct_remove1 inj_on_subset set_remove1_subset)

text \<open>What one message does to the descriptors and the requests, for an open actor.\<close>

lemma handle_data_effect:
  assumes "ic_state a = Opened" and "conn \<in> ot_open (el_os (iw_loop w)) \<or> r = RecvErr" and "\<forall>c \<in> ot_open (el_os (iw_loop w)). 0 \<le> c"
  shows "let (a', w') = ipc_handle r 0 (IpcDataReceived conn) a w in
     ic_state a' = Opened
     \<and> (if \<exists>bs. r = RecvBytes bs \<and> bs \<noteq> [] then
          ot_open (el_os (iw_loop w')) = ot_open (el_os (iw_loop w)) \<and> length (iw_requests w') = Suc (length (iw_requests w))
        else length (iw_requests w') = length (iw_requests w) \<and>
          ot_open (el_os (iw_loop w')) = ot_open (el_os (iw_loop w)) - (if r = RecvBytes [] then {conn} else {}))"
proof (cases r)
  case (RecvBytes bs)
  note d = ipc_handle_def ipc_dataReceived_def ipc_unsubscribe_def ipc_closeClient_def ipc_handleCommand_def
  show ?thesis
  proof (cases "bs = []")
    case True
    have "0 \<le> conn" using assms(2,3) by (auto simp: RecvBytes)
    then show ?thesis using assms(1) by (simp add: RecvBytes True d)
  next
    case False
    then show ?thesis using assms(1) by (simp add: RecvBytes d)
  qed
qed (use assms(1) in \<open>simp_all add: ipc_handle_def ipc_dataReceived_def\<close>)

lemma handle_response_effect:
  assumes "ic_state a = Opened" and "0 \<le> conn"
  shows "let (a', w') = ipc_handle RecvErr k (CmdResponse conn body cl) a w in
     ic_state a' = Opened \<and> iw_wire w' = iw_wire w @ (if conn \<in> ot_open (el_os (iw_loop w)) then [(conn, take k body)] else [])
     \<and> ot_open (el_os (iw_loop w')) = ot_open (el_os (iw_loop w)) - (if cl then {conn} else {})"
  using assms by (simp add: ipc_handle_def ipc_cmdResponse_def ipc_unsubscribe_def ipc_closeClient_def Let_def)

lemma ipc_serving_step:
  assumes i: "ipc_serving s" and p: "ipc_possible e s" and q: "ipc_patient e s"
  shows "ipc_serving (ipc_step e s)"
proof (cases e)
  case (IAccept conn)
  then show ?thesis
    using i p by (auto simp: ipc_serving_def ipc_on_accept_def split: prod.splits)
next
  case (INew conn)
  then show ?thesis
    using i by (simp add: ipc_serving_def ipc_handle_def ipc_subscribeClient_def)
next
  case (IData conn r)
  obtain a' w' where h: "ipc_handle r 0 (IpcDataReceived conn) (ir_ipc s) (ir_world s) = (a', w')" by fastforce
  have eff: "ic_state a' = Opened
     \<and> (if \<exists>bs. r = RecvBytes bs \<and> bs \<noteq> [] then
          ot_open (el_os (iw_loop w')) = ot_open (el_os (iw_loop (ir_world s))) \<and> length (iw_requests w') = Suc (length (iw_requests (ir_world s)))
        else length (iw_requests w') = length (iw_requests (ir_world s)) \<and>
          ot_open (el_os (iw_loop w')) = ot_open (el_os (iw_loop (ir_world s))) - (if r = RecvBytes [] then {conn} else {}))"
    using handle_data_effect[of "ir_ipc s" conn "ir_world s" r] i p unfolding h ipc_serving_def IData by simp
  show ?thesis
  proof (cases "\<exists>bs. r = RecvBytes bs \<and> bs \<noteq> []")
    case True
    then have "conn \<in> ot_open (el_os (iw_loop (ir_world s)))" "conn \<notin> fst ` set (ir_waiting s)"
      using p q unfolding IData by auto
    then show ?thesis using i eff True unfolding IData ipc_serving_def by (auto simp: h)
  next
    case False
    then have "ir_waiting (ipc_step e s) = ir_waiting s" "ir_answers (ipc_step e s) = ir_answers s"
        "ir_peer (ipc_step e s) = ir_peer s" "ir_ipc (ipc_step e s) = a'" "ir_world (ipc_step e s) = w'"
      using eff by (simp_all add: IData h)
    note eqs = this
    have "c \<noteq> conn \<or> r \<noteq> RecvBytes []" if "(c, n) \<in> set (ir_waiting s)" for c n
      using q that unfolding IData by (metis fst_conv imageI ipc_patient.simps(1) sys_recv.distinct(1) sys_recv.distinct(3))
    then show ?thesis
      using i eff False unfolding ipc_serving_def eqs by (auto split: if_splits)
  qed
next
  case (IRespond conn n k body cl)
  obtain a' w' where h: "ipc_handle RecvErr k (CmdResponse conn body cl) (ir_ipc s) (ir_world s) = (a', w')" by fastforce
  have w: "(conn, n) \<in> set (ir_waiting s)" using p unfolding IRespond by simp
  then have c: "0 \<le> conn" "conn \<in> ot_open (el_os (iw_loop (ir_world s)))" "ir_peer s conn = n" using i unfolding ipc_serving_def by auto
  then have eff: "ic_state a' = Opened \<and> iw_wire w' = iw_wire (ir_world s) @ [(conn, take k body)]
     \<and> ot_open (el_os (iw_loop w')) = ot_open (el_os (iw_loop (ir_world s))) - (if cl then {conn} else {})"
    using handle_response_effect[of "ir_ipc s" conn k body cl "ir_world s"] i unfolding h ipc_serving_def by simp
  then have wr: "written s w' = [(n, take k body)]" using c by (simp add: written_def)
  have d: "distinct (map fst (ir_waiting s))" using i unfolding ipc_serving_def by blast
  have keep: "(c', n') \<in> set (ir_waiting s) \<and> c' \<noteq> conn" if "(c', n') \<in> set (remove1 (conn, n) (ir_waiting s))" for c' n'
    using remove1_distinct_fst[OF d w that] notin_set_remove1[OF _, of "(c', n')" "ir_waiting s" "(conn, n)"] that
    by (meson notin_set_remove1)
  show ?thesis
  proof (cases cl)
    case True
    have "ir_waiting (ipc_step e s) = remove1 (conn, n) (ir_waiting s)" "ir_answers (ipc_step e s) = ir_answers s @ [(n, take k body, [(n, take k body)])]"
         "ir_peer (ipc_step e s) = ir_peer s" "ir_ipc (ipc_step e s) = a'" "ir_world (ipc_step e s) = w'"
      unfolding IRespond ipc_step.simps h Let_def prod.case if_P[OF True] by (simp_all add: wr)
    note eqs = this
    have o: "ot_open (el_os (iw_loop w')) = ot_open (el_os (iw_loop (ir_world s))) - {conn}" using eff True by simp
    have wait: "\<forall>(c, n) \<in> set (ir_waiting s). 0 \<le> c \<and> c \<in> ot_open (el_os (iw_loop (ir_world s))) \<and> ir_peer s c = n"
      and low: "\<forall>c \<in> ot_open (el_os (iw_loop (ir_world s))). 0 \<le> c"
      and ans: "\<forall>(n, body, ws) \<in> set (ir_answers s). ws = [(n, body)]"
      by (rule i[unfolded ipc_serving_def, THEN conjunct2, THEN conjunct2, THEN conjunct1],
          rule i[unfolded ipc_serving_def, THEN conjunct2, THEN conjunct2, THEN conjunct2, THEN conjunct1],
          rule i[unfolded ipc_serving_def, THEN conjunct2, THEN conjunct2, THEN conjunct2, THEN conjunct2])
    show ?thesis
      unfolding ipc_serving_def eqs o
    proof (intro conjI)
      show "\<forall>(c, n) \<in> set (remove1 (conn, n) (ir_waiting s)).
          0 \<le> c \<and> c \<in> ot_open (el_os (iw_loop (ir_world s))) - {conn} \<and> ir_peer s c = n"
      proof (rule ballI)
        fix x assume x: "x \<in> set (remove1 (conn, n) (ir_waiting s))"
        obtain c' n' where x': "x = (c', n')" by fastforce
        have k: "(c', n') \<in> set (ir_waiting s) \<and> c' \<noteq> conn" using x unfolding x' by (rule keep)
        have "0 \<le> c' \<and> c' \<in> ot_open (el_os (iw_loop (ir_world s))) \<and> ir_peer s c' = n'"
          using bspec[OF wait k[THEN conjunct1]] by (simp only: prod.case)
        then show "case x of (c, n) \<Rightarrow> 0 \<le> c \<and> c \<in> ot_open (el_os (iw_loop (ir_world s))) - {conn} \<and> ir_peer s c = n"
          using k unfolding x' prod.case by blast
      qed
      show "distinct (map fst (remove1 (conn, n) (ir_waiting s)))" by (rule distinct_fst_remove1[OF d])
      show "\<forall>c \<in> ot_open (el_os (iw_loop (ir_world s))) - {conn}. 0 \<le> c" using low by blast
      show "\<forall>(n, body, ws) \<in> set (ir_answers s @ [(n, take k body, [(n, take k body)])]). ws = [(n, body)]" using ans by simp
    qed (use eff in simp)
  next
    case False
    have "ir_waiting (ipc_step e s) = ir_waiting s" "ir_answers (ipc_step e s) = ir_answers s @ [(n, take k body, [(n, take k body)])]"
         "ir_peer (ipc_step e s) = ir_peer s" "ir_ipc (ipc_step e s) = a'" "ir_world (ipc_step e s) = w'"
      unfolding IRespond ipc_step.simps h Let_def prod.case if_not_P[OF False] by (simp_all add: wr)
    then show ?thesis using i eff False unfolding ipc_serving_def by simp
  qed
next
  case IDrain
  then show ?thesis using i by (simp add: ipc_serving_def)
qed

lemma ipc_serving_runs:
  "ipc_serving s \<Longrightarrow> ipc_run_ok (\<lambda>e s. ipc_possible e s \<and> ipc_patient e s) es s \<Longrightarrow> ipc_serving (ipc_runs es s)"
  by (induction es arbitrary: s) (simp_all add: ipc_serving_step)

text \<open>A freshly opened server.\<close>

definition ipc_demo_start :: "ipc_run" where
  "ipc_demo_start =
     (let (_, a, w) = ipc_open \<lparr>se_fd = Some 5, se_bind = True, se_listen = True\<rparr> (ipc_new ''/tmp/v2.sock'' 64)
            \<lparr>iw_loop = el_new \<lparr>ot_open = {0, 1, 2}, ot_paths = {}\<rparr>, iw_mailbox = [], iw_requests = [], iw_wire = []\<rparr>
      in \<lparr>ir_ipc = a, ir_world = w, ir_peer = (\<lambda>_. 0), ir_clients = 0, ir_waiting = [], ir_answers = []\<rparr>)"

lemmas ipc_defs = ipc_open_def ipc_new_def loop_start_def uds_start_def uds_server_new_def os_unlink_def os_close_def
  ipc_subscribeListener_def ipc_subscribeClient_def ipc_handle_def ipc_on_accept_def ipc_dataReceived_def
  ipc_cmdResponse_def ipc_unsubscribe_def ipc_closeClient_def ipc_handleCommand_def strip_newline_def written_def

lemma ipc_serving_demo: "ipc_serving ipc_demo_start"
  by (simp add: ipc_serving_def ipc_demo_start_def ipc_defs el_new_def Let_def)


definition ipc_demo_events :: "ipc_event list" where
  "ipc_demo_events = [IAccept 7, INew 7, IData 7 (RecvBytes ''actor list''), IDrain, IRespond 7 0 4 ''none'' True, IDrain,
     IAccept 7, INew 7, IAccept 8, IData 7 (RecvBytes ''pmu''), INew 8, IData 8 (RecvBytes ''actor list''),
     IRespond 8 2 3 ''none'' True, IRespond 7 1 5 ''error'' True]"


text \<open>A client that sends a second command before the answer to the first gives its second answer away: the first
  answer closes the descriptor, the next client gets the number, and is sent the answer to a question it never asked
  and then disconnected.
\<close>
theorem second_command_answers_next_client:
  "let es = [IAccept 7, INew 7, IData 7 (RecvBytes ''actor list''), IData 7 (RecvBytes ''metrics snapshot''),
             IRespond 7 0 9 ''response1'' True, IAccept 7, IRespond 7 0 9 ''response2'' True];
       s = ipc_runs es ipc_demo_start
   in ipc_run_ok ipc_possible es ipc_demo_start
      \<and> ir_answers s = [(0, ''response1'', [(0, ''response1'')]), (0, ''response2'', [(1, ''response2'')])]
      \<and> 7 \<notin> ot_open (el_os (iw_loop (ir_world s)))"
  by (simp add: ipc_demo_start_def ipc_defs el_new_def el_move_defs)

end
