(* ===== verification/Cli_App.thy ===== *)
theory Cli_App
  imports Cmd_Actor Ipc_Server
begin

text \<open>
  The command-line client (\<open>src/src/app/cli/cli_app.cpp\<close>): the arguments become one command line, which travels through
  the command socket to the command actor. Terminal, process and socket calls are arguments.
\<close>

section \<open>Arguments\<close>

datatype sub_def = SubDef (sd_name: string) (sd_usage: string) (sd_desc: string) (sd_children: "sub_def list")

definition subCmds :: "sub_def list" where
  "subCmds =
     [SubDef ''actor'' [] ''Actor management''
        [SubDef ''list'' [] ''List actors'' [], SubDef ''enable'' ''<name>'' ''Enable actor'' [],
         SubDef ''disable'' ''<name>'' ''Disable actor'' []],
      SubDef ''wifi'' [] ''Wi-Fi management''
        [SubDef ''scan'' [] ''Scan access points'' [], SubDef ''list'' [] ''List scanned APs'' [],
         SubDef ''connect'' ''<ssid> [password]'' ''Connect to a network'' [],
         SubDef ''disconnect'' [] ''Disconnect current network'' [], SubDef ''status'' [] ''Show connection status'' [],
         SubDef ''autoconnect'' ''<on|off>'' ''Toggle autoconnect'' []],
      SubDef ''pmu'' [] ''PMU operations'' [SubDef ''status'' [] ''Show PMU status'' []],
      SubDef ''metrics'' [] ''Metrics operations''
        [SubDef ''enable'' [] ''Enable metrics'' [], SubDef ''disable'' [] ''Disable metrics'' [],
         SubDef ''snapshot'' [] ''Show metrics snapshot'' [], SubDef ''reset'' [] ''Reset metrics'' []]]"

datatype cli_action =
    ShowHelp string | ShowVersion | ShowStatus | LaunchTui | UnknownOption string | SendCommand string | DoNothing

definition is_dash :: "string \<Rightarrow> bool" where
  "is_dash s \<longleftrightarrow> s \<noteq> [] \<and> hd s = CHR ''-''"

text \<open>The loop over the arguments; an action ends it early.\<close>

fun cli_scan :: "string list \<Rightarrow> string \<Rightarrow> string list \<Rightarrow> bool \<Rightarrow> cli_action + string \<times> string list \<times> bool" where
  "cli_scan [] sub args helpSeen = Inr (sub, args, helpSeen)"
| "cli_scan (s # rest) sub args helpSeen =
     (if s = ''-h'' \<or> s = ''--help'' then cli_scan rest sub args True
      else if s = ''-v'' \<or> s = ''--version'' then Inl ShowVersion
      else if s = ''-s'' \<or> s = ''--status'' then Inl ShowStatus
      else if s = ''-m'' \<or> s = ''--monitor'' then Inl LaunchTui
      else if sub = [] \<and> \<not> is_dash s then cli_scan rest s args helpSeen
      else if is_dash s \<and> sub = [] then Inl (UnknownOption s)
      else cli_scan rest sub (args @ [s]) helpSeen)"

text \<open>An argument with an equals sign becomes an option and its value.\<close>

definition cli_argument :: "string \<Rightarrow> string" where
  "cli_argument a =
     (if CHR ''='' \<in> set a
      then '' --'' @ takeWhile (\<lambda>c. c \<noteq> CHR ''='') a @ '' '' @ tl (dropWhile (\<lambda>c. c \<noteq> CHR ''='') a)
      else '' '' @ a)"

definition cli_command :: "string \<Rightarrow> string list \<Rightarrow> string" where
  "cli_command sub args = (if sub \<noteq> [] then sub @ concat (map cli_argument args) else join_words args)"

definition cli_run :: "string list \<Rightarrow> cli_action" where
  "cli_run argv =
     (if length argv < 2 then ShowHelp []
      else if argv ! 1 = ''help'' then ShowHelp (if 2 < length argv then argv ! 2 else [])
      else case cli_scan (tl argv) [] [] False of
             Inl a \<Rightarrow> a
           | Inr (sub, args, helpSeen) \<Rightarrow>
               if helpSeen then ShowHelp sub
               else if sub = ''version'' then ShowVersion
               else if sub = ''status'' then ShowStatus
               else if sub = ''monitor'' then LaunchTui
               else if cli_command sub args \<noteq> [] then SendCommand (cli_command sub args) else DoNothing)"

section \<open>Help\<close>

definition terminalWidth :: "nat option \<Rightarrow> int option \<Rightarrow> int" where
  "terminalWidth ws cols =
     (case ws of
        Some n \<Rightarrow> if 0 < n then int n else (case cols of Some c \<Rightarrow> if 0 < c then c else 80 | None \<Rightarrow> 80)
      | None \<Rightarrow> (case cols of Some c \<Rightarrow> if 0 < c then c else 80 | None \<Rightarrow> 80))"

definition opt_line :: "nat \<Rightarrow> string \<Rightarrow> string \<Rightarrow> string" where
  "opt_line cw name desc = ''  '' @ pad_right cw name @ ''  '' @ desc @ nl"

definition usage_text :: "sub_def \<Rightarrow> string" where
  "usage_text d = sd_name d @ (if sd_usage d \<noteq> [] then '' '' @ sd_usage d else [])"

definition helpText :: "int \<Rightarrow> sub_def option \<Rightarrow> string" where
  "helpText tw sub =
     (let cw = nat (min 50 (max 20 (tw * 2 div 5)));
          items = (case sub of Some d \<Rightarrow> sd_children d | None \<Rightarrow> subCmds);
          wide = foldr max (map (\<lambda>d. length (usage_text d)) items) 0
      in (case sub of Some d \<Rightarrow> sd_desc d @ nl | None \<Rightarrow> ''V2 Engine CLI'' @ nl)
         @ ''Usage: v2'' @ (case sub of Some d \<Rightarrow> '' '' @ sd_name d | None \<Rightarrow> []) @ '' [OPTIONS]''
         @ (if items \<noteq> [] then '' [SUBCOMMANDS]'' else []) @ nl @ nl @ ''OPTIONS:'' @ nl
         @ opt_line cw ''-h, --help'' ''Print this help message and exit''
         @ (if sub = None
            then opt_line cw ''-v, --version'' ''Show version information''
               @ opt_line cw ''-s, --status'' ''Show daemon connection status''
               @ opt_line cw ''-m, --monitor'' ''Open TUI monitor application'' else [])
         @ (if items \<noteq> []
            then nl @ ''Subcommands:'' @ nl @ concat (map (\<lambda>d. opt_line (max cw (wide + 4)) (usage_text d) (sd_desc d)) items)
            else []))"

text \<open>Output and error output.\<close>

definition printHelp :: "int \<Rightarrow> string \<Rightarrow> string \<times> string" where
  "printHelp tw sub =
     (if sub = [] then (helpText tw None, [])
      else case List.find (\<lambda>d. sd_name d = sub) subCmds of
             Some d \<Rightarrow> (helpText tw (Some d), [])
           | None \<Rightarrow> ([], ''Unknown subcommand: '' @ sub @ nl))"

section \<open>Talking to the daemon\<close>

text \<open>The response is read until a call yields nothing; an interrupted call ends it as well.\<close>

fun read_response :: "int \<Rightarrow> char sys_recv list \<Rightarrow> string \<Rightarrow> string" where
  "read_response fd [] resp = resp"
| "read_response fd (r # rs) resp =
     (case client_recv fd r of (n, bs) \<Rightarrow> if n \<le> 0 then resp else read_response fd rs (resp @ bs))"

definition sendToDaemon ::
  "int \<Rightarrow> (nat \<Rightarrow> nat \<Rightarrow> sys_count) \<Rightarrow> char sys_recv list \<Rightarrow> string \<Rightarrow> string option \<times> string" where
  "sendToDaemon fd os rs cmd =
     (case client_send fd os 0 cmd [] of
        Some (Ok, wire, t) \<Rightarrow> (Some (read_response fd rs []), wire)
      | Some (_, wire, t) \<Rightarrow> (None, wire)
      | None \<Rightarrow> (None, []))"

text \<open>Where the terminal interface is looked for: beside the program, then on the search path.\<close>

definition launch_candidates :: "string \<Rightarrow> string list" where
  "launch_candidates self =
     (if CHR ''/'' \<in> set self
      then [rev (dropWhile (\<lambda>c. c \<noteq> CHR ''/'') (rev self)) @ ''v2_tui'', ''v2_tui''] else [''v2_tui''])"

definition printStatus :: "bool \<Rightarrow> bool \<Rightarrow> string \<Rightarrow> string option \<Rightarrow> string" where
  "printStatus sockExists alive path pid =
     (if \<not> sockExists then ''Daemon: stopped'' @ nl @ ''  Socket: '' @ path @ '' (not found)'' @ nl
      else (if alive then ''Daemon: running'' else ''Daemon: dead (stale socket)'') @ nl @ ''  Socket: '' @ path @ nl
        @ (case pid of Some p \<Rightarrow> ''  PID: '' @ take 15 p | None \<Rightarrow> []))"

section \<open>From the arguments to the handler\<close>

definition plain_argument :: "string \<Rightarrow> bool" where
  "plain_argument a \<longleftrightarrow> plain_word a \<and> CHR ''='' \<notin> set a \<and> CHR 0x0A \<notin> set a
     \<and> a \<notin> {''-h'', ''--help'', ''-v'', ''--version'', ''-s'', ''--status'', ''-m'', ''--monitor''}"

lemma cli_scan_plain:
  "sub \<noteq> [] \<Longrightarrow> \<forall>a \<in> set as. plain_argument a \<Longrightarrow> cli_scan as sub acc h = Inr (sub, acc @ as, h)"
  by (induction as arbitrary: acc) (auto simp: plain_argument_def)

lemma cli_command_join:
  "\<forall>a \<in> set as. plain_argument a \<Longrightarrow> sub @ concat (map cli_argument as) = join_words (sub # as)"
proof (induction as arbitrary: sub)
  case (Cons a as)
  then have "cli_argument a = CHR '' '' # a" by (simp add: cli_argument_def plain_argument_def)
  then show ?case using Cons.IH[of a] Cons.prems by simp
qed simp

lemma first_word:
  assumes "plain_word sub"
  shows "word_of_line (join_words (sub # as)) = sub"
    and "after_word (join_words (sub # as)) = (if as = [] then [] else CHR '' '' # join_words as)"
proof -
  have "CHR '' '' \<notin> set sub" using assms by (simp add: plain_word_def)
  then have *: "takeWhile (\<lambda>c. c \<noteq> CHR '' '') sub = sub \<and> dropWhile (\<lambda>c. c \<noteq> CHR '' '') sub = []
    \<and> takeWhile (\<lambda>c. c \<noteq> CHR '' '') (sub @ CHR '' '' # s) = sub
    \<and> dropWhile (\<lambda>c. c \<noteq> CHR '' '') (sub @ CHR '' '' # s) = CHR '' '' # s" for s
    by (induction sub) auto
  show "word_of_line (join_words (sub # as)) = sub"
    "after_word (join_words (sub # as)) = (if as = [] then [] else CHR '' '' # join_words as)"
    by (cases as; simp add: word_of_line_def after_word_def *)+
qed

lemma cmd_words_join: "plain_word sub \<Longrightarrow> \<forall>a \<in> set as. plain_word a \<Longrightarrow> cmd_words (join_words (sub # as)) = (sub, as)"
  by (simp add: cmd_words_def first_word split_join)

lemma join_words_not_Nil [simp]: "w \<noteq> [] \<Longrightarrow> join_words (w # ws) \<noteq> []"
  by (cases ws) simp_all

lemma join_words_last: "ws \<noteq> [] \<Longrightarrow> \<forall>w \<in> set ws. w \<noteq> [] \<Longrightarrow> last (join_words ws) = last (last ws)"
  by (induction ws rule: join_words.induct) (auto simp: last_append)



text \<open>A Wi-Fi password with an equals sign does not arrive: the client takes it for an option, and the network manager is
  asked to join with a password made of two dashes and what stood before the sign.
\<close>
theorem password_with_equals_is_rewritten:
  assumes "plain_argument ssid" and "plain_word x" and "plain_word y" and "CHR ''='' \<notin> set x" and "\<not> is_dash x"
  shows "\<exists>line. cli_run [prog, ''wifi'', ''connect'', ssid, x @ CHR ''='' # y] = SendCommand line
    \<and> snd (handleWifi (snd (cmd_words line)) s) = [ToWifi (WifiConnectRequest ssid (''--'' @ x))]"
proof -
  have wifi: "plain_argument ''wifi''" "plain_argument ''connect''" by (simp_all add: plain_argument_def plain_word_def)
  have x: "x \<noteq> []" "CHR '' '' \<notin> set x" "hd x \<noteq> CHR ''-''" using assms(2,5) by (auto simp: plain_word_def is_dash_def)
  have "x @ CHR ''='' # y \<noteq> o'" if "o' \<in> {''-h'', ''--help'', ''-v'', ''--version'', ''-s'', ''--status'', ''-m'', ''--monitor''}" for o'
    using x that by (cases x) auto
  then have scan: "cli_scan [''wifi'', ''connect'', ssid, x @ CHR ''='' # y] [] [] False
      = Inr (''wifi'', [''connect'', ssid, x @ CHR ''='' # y], False)"
    using assms(1) by (auto simp: is_dash_def plain_argument_def)
  have eq: "takeWhile (\<lambda>c. c \<noteq> CHR ''='') (x @ CHR ''='' # y) = x" "dropWhile (\<lambda>c. c \<noteq> CHR ''='') (x @ CHR ''='' # y) = CHR ''='' # y"
    using assms(4) by (induction x) auto
  let ?line = "join_words [''wifi'', ''connect'', ssid, ''--'' @ x, y]"
  have "cli_command ''wifi'' [''connect'', ssid, x @ CHR ''='' # y] = ?line"
    using assms(1) by (simp add: cli_command_def cli_argument_def plain_argument_def eq)
  then have "cli_run [prog, ''wifi'', ''connect'', ssid, x @ CHR ''='' # y] = SendCommand ?line"
    using scan by (simp add: cli_run_def)
  moreover have "cmd_words ?line = (''wifi'', [''connect'', ssid, ''--'' @ x, y])"
    by (rule cmd_words_join) (use assms(1,2,3) in \<open>auto simp: plain_argument_def plain_word_def\<close>)
  ultimately show ?thesis by (intro exI[of _ ?line]) (simp add: handleWifi_def)
qed

theorem password_with_equals_is_rewritten_witness:
  "\<exists>line. cli_run [''v2'', ''wifi'', ''connect'', ''home'', ''a=b''] = SendCommand line
    \<and> snd (handleWifi (snd (cmd_words line)) demo_cmd) = [ToWifi (WifiConnectRequest ''home'' ''--a'')]"
  using password_with_equals_is_rewritten[of "''home''" "''a''" "''b''" "''v2''" demo_cmd]
  by (simp add: plain_argument_def plain_word_def is_dash_def)

end
