(* ===== verification/Dbus_Service.thy ===== *)
theory Dbus_Service
  imports Actor_Base
begin

text \<open>
  The D-Bus actor (\<open>src/src/service/dbus\<close>): \<open>DbusServerHandler\<close> keeps the registered methods and the calls still waiting
  for an answer, \<open>DbusClientHandler\<close> the proxies and the signal subscriptions, and \<open>DbusActor\<close> opens and closes both with
  the connection. The bus library is a parameter: whether an object, a proxy or a connection can be made, and what a
  remote method answers. A received call (\<open>sdbus::MethodCall\<close>) is a value of type \<open>'c\<close>.
\<close>

section \<open>Messages\<close>

datatype dbus_msg =
    DbusRegisterMethod (rq_path: string) (rq_iface: string) (rq_method: string) (rq_owner: string)
  | DbusUnregisterMethod string string string
  | DbusMethodCallResult u64 string bool
  | DbusProxyCallRequest u64 string string string string string string
  | DbusSubscribeSignal string string string string string

datatype dbus_out =
    DbusIncomingMethodCall u64 string string string string string
  | DbusProxyCallResult u64 string bool
  | DbusSignalEvent string string string string string

datatype dbus_reply = MethodReturn string | MethodError string

section \<open>Methods of our own: DbusServerHandler\<close>

text \<open>A registered object and what its callback has captured.\<close>

record registered_method =
  rm_owner :: string
  rm_path :: string
  rm_iface :: string
  rm_method :: string

record 'c dbus_server =
  bs_methods :: "string \<rightharpoonup> registered_method"
  bs_pending :: "u64 \<rightharpoonup> 'c"
  bs_nextCallId :: u64

definition bs_new :: "'c dbus_server" where
  "bs_new = \<lparr>bs_methods = Map.empty, bs_pending = Map.empty, bs_nextCallId = 0\<rparr>"

definition bs_close :: "'c dbus_server \<Rightarrow> 'c dbus_server" where
  "bs_close s = s\<lparr>bs_methods := Map.empty, bs_pending := Map.empty\<rparr>"

definition method_key :: "string \<Rightarrow> string \<Rightarrow> string" where
  "method_key iface meth = iface @ ''.'' @ meth"

text \<open>\<open>created\<close> says whether the library made the object and its table; otherwise it has thrown.\<close>

definition handleRegisterMethod :: "bool \<Rightarrow> string \<Rightarrow> string \<Rightarrow> string \<Rightarrow> string \<Rightarrow> 'c dbus_server \<Rightarrow> 'c dbus_server" where
  "handleRegisterMethod created path iface meth owner s =
     (let key = method_key iface meth in
      if bs_methods s key \<noteq> None then s
      else if \<not> created then s
      else s\<lparr>bs_methods := (bs_methods s)(key \<mapsto> \<lparr>rm_owner = owner, rm_path = path, rm_iface = iface, rm_method = meth\<rparr>)\<rparr>)"

definition handleUnregisterMethod :: "string \<Rightarrow> string \<Rightarrow> 'c dbus_server \<Rightarrow> 'c dbus_server" where
  "handleUnregisterMethod iface meth s = s\<lparr>bs_methods := (bs_methods s)(method_key iface meth := None)\<rparr>"

text \<open>The callback of a registered method, on the bus thread: arguments that cannot be read (\<open>Inl\<close>, with the error) are
  refused at once; otherwise the call waits under a fresh id and the owner is told.\<close>

definition on_method_call :: "string \<Rightarrow> registered_method \<Rightarrow> 'c \<Rightarrow> string + string \<Rightarrow> 'c dbus_server
    \<Rightarrow> 'c dbus_server \<times> dbus_out outgoing \<times> ('c \<times> dbus_reply) option" where
  "on_method_call self m call args s =
     (case args of
        Inl what \<Rightarrow> (s, [], Some (call, MethodError what))
      | Inr a \<Rightarrow> (let callId = bs_nextCallId s in
          (s\<lparr>bs_nextCallId := callId + 1, bs_pending := (bs_pending s)(callId \<mapsto> call)\<rparr>,
           [(rm_owner m, DbusIncomingMethodCall callId (rm_path m) (rm_iface m) (rm_method m) a self)], None)))"

definition reply_of :: "string \<Rightarrow> bool \<Rightarrow> dbus_reply" where
  "reply_of result isError = (if isError then MethodError result else MethodReturn result)"

text \<open>The owner's answer: the waiting call is taken out of the table, and one reply to it is attempted.\<close>

definition handleMethodCallResult :: "u64 \<Rightarrow> string \<Rightarrow> bool \<Rightarrow> 'c dbus_server \<Rightarrow> 'c dbus_server \<times> ('c \<times> dbus_reply) option" where
  "handleMethodCallResult callId result isError s =
     (case bs_pending s callId of
        None \<Rightarrow> (s, None)
      | Some call \<Rightarrow> (s\<lparr>bs_pending := (bs_pending s)(callId := None)\<rparr>, Some (call, reply_of result isError)))"

section \<open>Calls to others: DbusClientHandler\<close>

text \<open>What the library does: \<open>en_proxy\<close> is the error of \<open>createProxy\<close>, if any; \<open>en_signal\<close> and \<open>en_object\<close> say whether a
  signal handler and a method object could be made.\<close>

record dbus_env =
  en_proxy :: "string \<Rightarrow> string \<Rightarrow> string option"
  en_invoke :: "string \<Rightarrow> string \<Rightarrow> string \<Rightarrow> string \<Rightarrow> string option \<Rightarrow> string + string"
  en_signal :: "string \<Rightarrow> string \<Rightarrow> bool"
  en_object :: bool

record subscription =
  su_actor :: string
  su_dest :: string
  su_path :: string
  su_iface :: string
  su_signal :: string

record dbus_client =
  dc_proxies :: "string \<rightharpoonup> string \<times> string"
  dc_subscriptions :: "string \<rightharpoonup> subscription"

definition dc_new :: dbus_client where
  "dc_new = \<lparr>dc_proxies = Map.empty, dc_subscriptions = Map.empty\<rparr>"

definition dc_close :: "dbus_client \<Rightarrow> dbus_client" where
  "dc_close s = s\<lparr>dc_subscriptions := Map.empty, dc_proxies := Map.empty\<rparr>"

text \<open>\<open>createProxy\<close>: the cached proxy, or a new one; \<open>Inl\<close> is the library's exception.\<close>

definition dc_createProxy :: "dbus_env \<Rightarrow> string \<Rightarrow> string \<Rightarrow> dbus_client \<Rightarrow> (string + string \<times> string) \<times> dbus_client" where
  "dc_createProxy E dest path s =
     (let key = dest @ '':'' @ path in
      case dc_proxies s key of
        Some p \<Rightarrow> (Inr p, s)
      | None \<Rightarrow> (case en_proxy E dest path of
          Some what \<Rightarrow> (Inl what, s)
        | None \<Rightarrow> (Inr (dest, path), s\<lparr>dc_proxies := (dc_proxies s)(key \<mapsto> (dest, path))\<rparr>)))"

definition handleProxyCallRequest :: "dbus_env \<Rightarrow> u64 \<Rightarrow> string \<Rightarrow> string \<Rightarrow> string \<Rightarrow> string \<Rightarrow> string \<Rightarrow> string \<Rightarrow> dbus_client
    \<Rightarrow> dbus_client \<times> dbus_out outgoing" where
  "handleProxyCallRequest E callId dest path iface meth args requester s =
     (case dc_createProxy E dest path s of
        (Inl what, s) \<Rightarrow> (s, [(requester, DbusProxyCallResult callId what True)])
      | (Inr (d, p), s) \<Rightarrow>
          (case en_invoke E d p iface meth (if args = [] then None else Some args) of
             Inl what \<Rightarrow> (s, [(requester, DbusProxyCallResult callId what True)])
           | Inr result \<Rightarrow> (s, [(requester, DbusProxyCallResult callId result False)])))"

definition signal_key :: "string \<Rightarrow> string \<Rightarrow> string \<Rightarrow> string \<Rightarrow> string" where
  "signal_key dest path iface sig = dest @ '':'' @ path @ '':'' @ iface @ ''.'' @ sig"

definition handleSubscribeSignal :: "dbus_env \<Rightarrow> string \<Rightarrow> string \<Rightarrow> string \<Rightarrow> string \<Rightarrow> string \<Rightarrow> dbus_client \<Rightarrow> dbus_client" where
  "handleSubscribeSignal E dest path iface sig subscriber s =
     (let key = signal_key dest path iface sig in
      if dc_subscriptions s key \<noteq> None then s
      else if en_proxy E dest path \<noteq> None \<or> \<not> en_signal E iface sig then s
      else s\<lparr>dc_subscriptions := (dc_subscriptions s)(key \<mapsto>
             \<lparr>su_actor = subscriber, su_dest = dest, su_path = path, su_iface = iface, su_signal = sig\<rparr>)\<rparr>)"

definition handleUnsubscribeSignal :: "string \<Rightarrow> string \<Rightarrow> string \<Rightarrow> string \<Rightarrow> dbus_client \<Rightarrow> dbus_client" where
  "handleUnsubscribeSignal dest path iface sig s =
     s\<lparr>dc_subscriptions := (dc_subscriptions s)(signal_key dest path iface sig := None)\<rparr>"

text \<open>The callback of a subscription, on the bus thread.\<close>

definition on_signal :: "subscription \<Rightarrow> string \<Rightarrow> dbus_out outgoing" where
  "on_signal u args = [(su_actor u, DbusSignalEvent (su_dest u) (su_path u) (su_iface u) (su_signal u) args)]"

section \<open>The actor\<close>

record 'c dbus_actor =
  da_state :: actor_state
  da_connected :: bool
  da_server :: "'c dbus_server option"
  da_client :: "dbus_client option"

definition dbus_actor_new :: "'c dbus_actor" where
  "dbus_actor_new = \<lparr>da_state = Closed, da_connected = False, da_server = None, da_client = None\<rparr>"

definition dbus_close :: "'c dbus_actor \<Rightarrow> result_code \<times> 'c dbus_actor" where
  "dbus_close s =
     (if da_state s = Closed then (Ok, s)
      else (Ok, s\<lparr>da_server := None, da_client := None, da_connected := False, da_state := Closed\<rparr>))"

text \<open>\<open>open\<close>: \<open>connected\<close> says whether the bus connection was made, \<open>looping\<close> whether its event loop was entered.\<close>

definition dbus_open :: "bool \<Rightarrow> bool \<Rightarrow> 'c dbus_actor \<Rightarrow> result_code \<times> 'c dbus_actor" where
  "dbus_open connected looping s =
     (let s = (if da_state s \<noteq> Closed then snd (dbus_close s) else s) in
      if connected \<and> looping
      then (Ok, s\<lparr>da_connected := True, da_server := Some bs_new, da_client := Some dc_new, da_state := Opened\<rparr>)
      else (Fail, s\<lparr>da_client := None, da_server := None, da_connected := False, da_state := Closed\<rparr>))"

text \<open>A handler reads its pointer without a test: \<open>None\<close> is a null pointer dereferenced.\<close>

definition dbus_dispatch :: "dbus_env \<Rightarrow> dbus_msg \<Rightarrow> 'c dbus_actor
    \<Rightarrow> ('c dbus_actor \<times> dbus_out outgoing \<times> ('c \<times> dbus_reply) option) option" where
  "dbus_dispatch E m s =
     (case m of
        DbusRegisterMethod path iface meth owner \<Rightarrow>
          map_option (\<lambda>b. (s\<lparr>da_server := Some (handleRegisterMethod (en_object E) path iface meth owner b)\<rparr>, [], None)) (da_server s)
      | DbusUnregisterMethod path iface meth \<Rightarrow>
          map_option (\<lambda>b. (s\<lparr>da_server := Some (handleUnregisterMethod iface meth b)\<rparr>, [], None)) (da_server s)
      | DbusMethodCallResult callId result isError \<Rightarrow>
          map_option (\<lambda>b. case handleMethodCallResult callId result isError b of
            (b, r) \<Rightarrow> (s\<lparr>da_server := Some b\<rparr>, [], r)) (da_server s)
      | DbusProxyCallRequest callId dest path iface meth args requester \<Rightarrow>
          map_option (\<lambda>c. case handleProxyCallRequest E callId dest path iface meth args requester c of
            (c, out) \<Rightarrow> (s\<lparr>da_client := Some c\<rparr>, out, None)) (da_client s)
      | DbusSubscribeSignal dest path iface sig subscriber \<Rightarrow>
          map_option (\<lambda>c. (s\<lparr>da_client := Some (handleSubscribeSignal E dest path iface sig subscriber c)\<rparr>, [], None)) (da_client s))"

definition dbus_handle :: "dbus_env \<Rightarrow> dbus_msg \<Rightarrow> 'c dbus_actor
    \<Rightarrow> ('c dbus_actor \<times> dbus_out outgoing \<times> ('c \<times> dbus_reply) option) option" where
  "dbus_handle E m s = (if \<not> accepts (da_state s) then Some (s, [], None) else dbus_dispatch E m s)"

text \<open>What happens to the actor: it is opened or closed, handles a message, or the bus thread delivers a call to a method
  that is registered or a signal that is subscribed.\<close>

datatype 'c dbus_event =
    DbusOpen bool bool | DbusClose | DbusMessage dbus_env dbus_msg
  | DbusCall string 'c "string + string" | DbusSignal string string

fun dbus_step :: "string \<Rightarrow> 'c dbus_event \<Rightarrow> 'c dbus_actor
    \<Rightarrow> ('c dbus_actor \<times> dbus_out outgoing \<times> ('c \<times> dbus_reply) option) option" where
  "dbus_step self (DbusOpen c l) s = Some (snd (dbus_open c l s), [], None)"
| "dbus_step self DbusClose s = Some (snd (dbus_close s), [], None)"
| "dbus_step self (DbusMessage E m) s = dbus_handle E m s"
| "dbus_step self (DbusCall key c args) s =
     (case da_server s of
        None \<Rightarrow> Some (s, [], None)
      | Some b \<Rightarrow> (case bs_methods b key of
          None \<Rightarrow> Some (s, [], None)
        | Some m \<Rightarrow> (case on_method_call self m c args b of (b, out, r) \<Rightarrow> Some (s\<lparr>da_server := Some b\<rparr>, out, r))))"
| "dbus_step self (DbusSignal key args) s =
     (case da_client s of
        None \<Rightarrow> Some (s, [], None)
      | Some d \<Rightarrow> (case dc_subscriptions d key of
          None \<Rightarrow> Some (s, [], None)
        | Some u \<Rightarrow> Some (s, on_signal u args, None)))"

text \<open>A run collects what was sent and the replies, in order.\<close>

fun dbus_runs :: "string \<Rightarrow> 'c dbus_event list \<Rightarrow> 'c dbus_actor
    \<Rightarrow> ('c dbus_actor \<times> dbus_out outgoing \<times> ('c \<times> dbus_reply) list) option" where
  "dbus_runs self [] s = Some (s, [], [])"
| "dbus_runs self (e # es) s =
     (case dbus_step self e s of
        None \<Rightarrow> None
      | Some (s, out, r) \<Rightarrow> (case dbus_runs self es s of
          None \<Rightarrow> None
        | Some (s', out', rs) \<Rightarrow> Some (s', out @ out', (case r of None \<Rightarrow> [] | Some x \<Rightarrow> [x]) @ rs)))"

section \<open>Every call is answered at most once, by its own answer\<close>

text \<open>What a session handed out, with the call each id stands for, and the replies it attempted, with the id of the
  answer that caused them.\<close>

definition handed :: "'c dbus_event \<Rightarrow> 'c dbus_actor \<Rightarrow> (u64 \<times> 'c) list" where
  "handed e s = (case e of
     DbusCall key c (Inr a) \<Rightarrow> (case da_server s of
        None \<Rightarrow> [] | Some b \<Rightarrow> (if bs_methods b key = None then [] else [(bs_nextCallId b, c)]))
   | _ \<Rightarrow> [])"

definition answers :: "'c dbus_event \<Rightarrow> ('c \<times> dbus_reply) option \<Rightarrow> (u64 \<times> 'c \<times> dbus_reply) list" where
  "answers e r = (case e of
     DbusMessage E (DbusMethodCallResult i result isError) \<Rightarrow> (case r of None \<Rightarrow> [] | Some (c, rep) \<Rightarrow> [(i, c, rep)])
   | _ \<Rightarrow> [])"

fun dbus_track :: "string \<Rightarrow> 'c dbus_event list \<Rightarrow> 'c dbus_actor \<times> (u64 \<times> 'c) list \<times> (u64 \<times> 'c \<times> dbus_reply) list
    \<Rightarrow> 'c dbus_actor \<times> (u64 \<times> 'c) list \<times> (u64 \<times> 'c \<times> dbus_reply) list" where
  "dbus_track self [] t = t"
| "dbus_track self (e # es) (s, H, A) =
     (case dbus_step self e s of
        None \<Rightarrow> (s, H, A)
      | Some (s', out, r) \<Rightarrow> dbus_track self es (s', H @ handed e s, A @ answers e r))"

fun keeps_session :: "'c dbus_event \<Rightarrow> bool" where
  "keeps_session (DbusOpen c l) = False"
| "keeps_session DbusClose = False"
| "keeps_session _ = True"

definition waiting_is :: "'c dbus_server \<Rightarrow> (u64 \<times> 'c) list \<Rightarrow> (u64 \<times> 'c \<times> dbus_reply) list \<Rightarrow> bool" where
  "waiting_is b H A \<longleftrightarrow>
     bs_nextCallId b = of_nat (length H) \<and> map fst H = map of_nat [0..<length H] \<and> distinct (map fst A)
     \<and> (\<forall>(i, c, r) \<in> set A. map_of H i = Some c)
     \<and> bs_pending b = (\<lambda>i. if i \<in> fst ` set A then None else map_of H i)"

definition in_session :: "'c dbus_actor \<times> (u64 \<times> 'c) list \<times> (u64 \<times> 'c \<times> dbus_reply) list \<Rightarrow> bool" where
  "in_session = (\<lambda>(s, H, A). da_state s = Opened \<and> da_client s \<noteq> None \<and> (\<exists>b. da_server s = Some b \<and> waiting_is b H A))"

lemma waiting_is_new: "waiting_is bs_new [] []"
  by (simp add: waiting_is_def bs_new_def)

lemma waiting_is_methods: "waiting_is (b\<lparr>bs_methods := f\<rparr>) H A = waiting_is b H A"
  by (simp add: waiting_is_def)

lemma next_id_unused:
  assumes "map fst H = map of_nat [0..<length H]" and "length H < 2 ^ 64"
  shows "(of_nat (length H) :: u64) \<notin> fst ` set H"
proof
  assume "(of_nat (length H) :: u64) \<in> fst ` set H"
  then have "(of_nat (length H) :: u64) \<in> of_nat ` {0..<length H}"
    using assms(1) by (metis image_set set_map set_upt list.set_map)
  then obtain k where k: "k < length H" "(of_nat (length H) :: u64) = of_nat k" by auto
  then have "unat (of_nat (length H) :: u64) = unat (of_nat k :: u64)" by simp
  with k(1) assms(2) have "length H = k" by (simp add: unat_of_nat)
  with k show False by simp
qed

lemma waiting_is_call:
  assumes "waiting_is b H A" and "length H < 2 ^ 64"
  shows "waiting_is (b\<lparr>bs_nextCallId := bs_nextCallId b + 1, bs_pending := (bs_pending b)(bs_nextCallId b \<mapsto> c)\<rparr>)
           (H @ [(bs_nextCallId b, c)]) A"
proof -
  let ?n = "of_nat (length H) :: u64"
  have b: "bs_nextCallId b = ?n" and H: "map fst H = map of_nat [0..<length H]" using assms(1) by (auto simp: waiting_is_def)
  have new: "?n \<notin> fst ` set H" by (rule next_id_unused[OF H assms(2)])
  have old: "\<forall>(i, c, r) \<in> set A. map_of H i = Some c" using assms(1) by (simp add: waiting_is_def)
  have notA: "?n \<notin> fst ` set A"
    using old new by (force dest: map_of_SomeD)
  have fresh: "map_of H ?n = None" using new by (simp add: map_of_eq_None_iff)
  have keep: "\<forall>(i, c', r) \<in> set A. map_of (H @ [(?n, c)]) i = Some c'"
    using old by (auto simp: map_add_def)
  have "(bs_pending b)(?n \<mapsto> c) = (\<lambda>i. if i \<in> fst ` set A then None else map_of (H @ [(?n, c)]) i)"
    using assms(1) notA fresh by (auto simp: waiting_is_def fun_eq_iff map_add_def split: option.split)
  then show ?thesis
    using assms(1) keep H by (simp add: waiting_is_def b)
qed

lemma waiting_is_result:
  assumes "waiting_is b H A" and "bs_pending b i = Some c"
  shows "waiting_is (b\<lparr>bs_pending := (bs_pending b)(i := None)\<rparr>) H (A @ [(i, c, r)])"
proof -
  have i: "i \<notin> fst ` set A" and h: "map_of H i = Some c"
    using assms by (auto simp: waiting_is_def split: if_splits)
  then show ?thesis using assms(1) by (auto simp: waiting_is_def fun_eq_iff)
qed

lemma in_session_step:
  assumes "in_session (s, H, A)" and "keeps_session e" and "length H < 2 ^ 64"
  shows "\<exists>s' out r. dbus_step self e s = Some (s', out, r) \<and> in_session (s', H @ handed e s, A @ answers e r)
           \<and> length (handed e s) \<le> 1"
proof -
  obtain b d where s: "da_state s = Opened" "da_client s = Some d" "da_server s = Some b" and w: "waiting_is b H A"
    using assms(1) by (auto simp: in_session_def)
  show ?thesis
  proof (cases e)
    case (DbusCall key c args)
    show ?thesis
    proof (cases "bs_methods b key")
      case (Some m)
      show ?thesis
      proof (cases args)
        case (Inr a)
        show ?thesis
          using waiting_is_call[OF w assms(3), of c]
          by (simp add: DbusCall Some Inr s in_session_def handed_def answers_def on_method_call_def Let_def)
      qed (use w in \<open>simp add: DbusCall Some s in_session_def handed_def answers_def on_method_call_def\<close>)
    qed (use w in \<open>cases args; simp add: DbusCall s in_session_def handed_def answers_def\<close>)
  next
    case (DbusSignal key args)
    then show ?thesis
      using w s by (cases "dc_subscriptions d key") (simp_all add: in_session_def handed_def answers_def)
  next
    case (DbusMessage E m)
    show ?thesis
    proof (cases m)
      case (DbusMethodCallResult i result isError)
      show ?thesis
      proof (cases "bs_pending b i")
        case (Some c)
        show ?thesis
          using waiting_is_result[OF w Some, of "reply_of result isError"]
          by (simp add: DbusMessage DbusMethodCallResult Some s in_session_def handed_def answers_def dbus_handle_def
              dbus_dispatch_def handleMethodCallResult_def)
      qed (use w in \<open>simp add: DbusMessage DbusMethodCallResult s in_session_def handed_def answers_def dbus_handle_def
              dbus_dispatch_def handleMethodCallResult_def\<close>)
    qed (use w in \<open>simp_all add: DbusMessage s in_session_def handed_def answers_def dbus_handle_def dbus_dispatch_def
           handleRegisterMethod_def handleUnregisterMethod_def waiting_is_methods Let_def split_beta\<close>)
  qed (use assms(2) in simp_all)
qed

lemma in_session_track:
  assumes "in_session (s, H, A)" and "list_all keeps_session es" and "length H + length es \<le> 2 ^ 64"
  shows "in_session (dbus_track self es (s, H, A)) \<and> length (fst (snd (dbus_track self es (s, H, A)))) \<le> length H + length es"
  using assms
proof (induction es arbitrary: s H A)
  case (Cons e es)
  from Cons.prems(2) have ks: "keeps_session e" and kes: "list_all keeps_session es" by simp_all
  from Cons.prems(3) have len: "length H < 2 ^ 64" by simp
  from in_session_step[OF Cons.prems(1) ks len]
  obtain s' out r where st: "dbus_step self e s = Some (s', out, r)"
    and in': "in_session (s', H @ handed e s, A @ answers e r)" and l: "length (handed e s) \<le> 1" by blast
  have "length (H @ handed e s) + length es \<le> 2 ^ 64" using Cons.prems(3) l by simp
  from Cons.IH[OF in' kes this] l show ?case by (simp add: st)
qed simp


definition demo_dbus_env :: dbus_env where
  "demo_dbus_env = \<lparr>en_proxy = (\<lambda>_ _. None), en_invoke = (\<lambda>_ _ _ _ _. Inr ''pong''), en_signal = (\<lambda>_ _. True), en_object = True\<rparr>"

definition demo_calls :: "char dbus_event list" where
  "demo_calls = [DbusMessage demo_dbus_env (DbusRegisterMethod ''/v2'' ''v2'' ''ping'' ''cmd''),
     DbusCall ''v2.ping'' (CHR ''a'') (Inr ''1''), DbusCall ''v2.ping'' (CHR ''b'') (Inr ''2''),
     DbusMessage demo_dbus_env (DbusMethodCallResult 1 ''two'' False),
     DbusMessage demo_dbus_env (DbusMethodCallResult 1 ''again'' True)]"

lemmas dbus_step_defs = dbus_open_def dbus_close_def dbus_actor_new_def dbus_handle_def dbus_dispatch_def bs_new_def dc_new_def
  handleRegisterMethod_def handleUnregisterMethod_def handleMethodCallResult_def on_method_call_def reply_of_def
  handleProxyCallRequest_def handleSubscribeSignal_def on_signal_def dc_createProxy_def method_key_def signal_key_def
  demo_dbus_env_def handed_def answers_def


text \<open>Closing forgets the numbering: after a reopening the answer to a call of the previous session is sent to a call of
  the new one, because the ids start again at zero.\<close>

theorem stale_answer_reaches_new_call:
  "let es = [DbusOpen True True, DbusMessage demo_dbus_env (DbusRegisterMethod ''/v2'' ''v2'' ''ping'' ''cmd''),
             DbusCall ''v2.ping'' (CHR ''a'') (Inr ''1''),
             DbusClose, DbusOpen True True,
             DbusMessage demo_dbus_env (DbusRegisterMethod ''/v2'' ''v2'' ''ping'' ''cmd''),
             DbusCall ''v2.ping'' (CHR ''b'') (Inr ''2''),
             DbusMessage demo_dbus_env (DbusMethodCallResult 0 ''answer to a'' False)]
   in map_option (\<lambda>(_, _, rs). rs) (dbus_runs ''dbus'' es dbus_actor_new) = Some [(CHR ''b'', MethodReturn ''answer to a'')]"
  by (simp add: dbus_step_defs Let_def)

text \<open>A second actor that subscribes to the same signal is never told: the key of a subscription does not name it.\<close>

theorem second_subscriber_is_ignored:
  "let es = [DbusOpen True True, DbusMessage demo_dbus_env (DbusSubscribeSignal ''d'' ''/p'' ''i'' ''s'' ''first_actor''),
             DbusMessage demo_dbus_env (DbusSubscribeSignal ''d'' ''/p'' ''i'' ''s'' ''second_actor''), DbusSignal ''d:/p:i.s'' ''x'']
   in map_option (\<lambda>(_, out, _). out) (dbus_runs ''dbus'' es (dbus_actor_new :: char dbus_actor))
      = Some [(''first_actor'', DbusSignalEvent ''d'' ''/p'' ''i'' ''s'' ''x'')]"
  by (simp add: dbus_step_defs Let_def)

section \<open>No handler is missing, every request is answered\<close>

definition da_ok :: "'c dbus_actor \<Rightarrow> bool" where
  "da_ok s \<longleftrightarrow> (da_state s = Opened \<and> da_connected s \<and> da_server s \<noteq> None \<and> da_client s \<noteq> None)
     \<or> (da_state s = Closed \<and> \<not> da_connected s \<and> da_server s = None \<and> da_client s = None)"

text \<open>The requests for a call that arrive while the actor is open, with who asked and under which id.\<close>

fun call_requests :: "'c dbus_event list \<Rightarrow> bool \<Rightarrow> (string \<times> u64) list" where
  "call_requests [] op = []"
| "call_requests (DbusOpen c l # es) op = call_requests es (c \<and> l)"
| "call_requests (DbusClose # es) op = call_requests es False"
| "call_requests (DbusMessage E (DbusProxyCallRequest i d p f m a requester) # es) op =
     (if op then [(requester, i)] else []) @ call_requests es op"
| "call_requests (e # es) op = call_requests es op"

fun call_result :: "string \<times> dbus_out \<Rightarrow> (string \<times> u64) list" where
  "call_result (who, DbusProxyCallResult i result isError) = [(who, i)]"
| "call_result _ = []"

definition call_results :: "dbus_out outgoing \<Rightarrow> (string \<times> u64) list" where
  "call_results out = concat (map call_result out)"

lemma call_results_simps [simp]:
  "call_results [] = []" "call_results (x # out) = call_result x @ call_results out"
  "call_results (out @ out') = call_results out @ call_results out'"
  by (simp_all add: call_results_def)

lemma proxy_request_answered:
  "\<exists>d' result isError. handleProxyCallRequest E i dest path iface meth args requester d
      = (d', [(requester, DbusProxyCallResult i result isError)])"
  by (auto simp: handleProxyCallRequest_def split: prod.split sum.split)

lemma da_ok_dispatch:
  assumes "da_ok s" and "da_state s = Opened"
  shows "\<exists>s' out r. dbus_dispatch E m s = Some (s', out, r) \<and> da_ok s' \<and> da_state s' = Opened
     \<and> call_results out = call_requests [DbusMessage E m] True"
proof -
  obtain b d where bd: "da_server s = Some b" "da_client s = Some d" using assms by (auto simp: da_ok_def)
  show ?thesis
  proof (cases m)
    case (DbusProxyCallRequest i dest path iface meth args requester)
    obtain d' result isError where "handleProxyCallRequest E i dest path iface meth args requester d
        = (d', [(requester, DbusProxyCallResult i result isError)])"
      using proxy_request_answered by blast
    then show ?thesis
      using assms bd by (simp add: dbus_dispatch_def DbusProxyCallRequest da_ok_def)
  qed (use assms bd in \<open>simp_all add: dbus_dispatch_def da_ok_def case_prod_beta\<close>)
qed

lemma da_ok_step:
  assumes "da_ok s"
  shows "\<exists>s' out r. dbus_step self e s = Some (s', out, r) \<and> da_ok s'
     \<and> call_requests (e # es) (da_state s = Opened) = call_results out @ call_requests es (da_state s' = Opened)"
proof (cases e)
  case (DbusOpen c l)
  then show ?thesis using assms by (auto simp: dbus_open_def dbus_close_def da_ok_def Let_def)
next
  case DbusClose
  then show ?thesis using assms by (auto simp: dbus_close_def da_ok_def)
next
  case (DbusMessage E m)
  show ?thesis
  proof (cases "da_state s = Opened")
    case True
    with da_ok_dispatch[OF assms True, of E m] show ?thesis
      by (cases m) (auto simp: DbusMessage dbus_handle_def)
  next
    case False
    with assms show ?thesis by (cases m) (auto simp: DbusMessage dbus_handle_def da_ok_def)
  qed
next
  case (DbusCall key c args)
  then show ?thesis
    using assms by (auto simp: da_ok_def on_method_call_def Let_def split: option.split sum.split)
next
  case (DbusSignal key args)
  then show ?thesis using assms by (auto simp: da_ok_def on_signal_def split: option.split)
qed

text \<open>
  C36: The D-Bus actor never reaches for a handler it does not have, whatever opens, fails to open, closes, messages, calls
  and signals come in which order; and every request for a remote call it accepts gets exactly one result, in order, sent
  to the actor that asked and under the id it gave.
\<close>
theorem dbus_requests_answered_once:
  "\<exists>s out rs. dbus_runs self es dbus_actor_new = Some (s, out, rs) \<and> da_ok s \<and> call_results out = call_requests es False"
proof -
  have "\<exists>s' out rs. dbus_runs self es s = Some (s', out, rs) \<and> da_ok s' \<and> call_results out = call_requests es (da_state s = Opened)"
    if "da_ok s" for s
    using that
  proof (induction es arbitrary: s)
    case (Cons e es)
    obtain s1 out r where 1: "dbus_step self e s = Some (s1, out, r)" "da_ok s1"
      and q: "call_requests (e # es) (da_state s = Opened) = call_results out @ call_requests es (da_state s1 = Opened)"
      using da_ok_step[OF Cons.prems] by blast
    from Cons.IH[OF 1(2)] 1 q show ?case by auto
  qed simp
  from this[of dbus_actor_new] show ?thesis by (simp add: da_ok_def dbus_actor_new_def)
qed

end
