(* ===== verification/Hal_Readers.thy ===== *)
theory Hal_Readers
  imports Monitor_Data Number_Text
begin

text \<open>
  The readers of the hardware layer: \<open>SysLinux\<close> (\<open>infra/hal/sys/sys_linux.cpp\<close>), which reads the kernel's status files
  line by line and keeps a window of processor-time samples, and \<open>PmuRsp5\<close> (\<open>infra/hal/pmu/pmu_rsp5.cpp\<close>), which runs
  firmware commands and takes numbers out of what they print. The files, the clocks and the commands' output are
  arguments; floating-point values are opaque, with the operations used on them as parameters. The first component of
  a result is the exception that left the function, if one did: its output parameter then holds what was written before.
\<close>

section \<open>Status files\<close>

definition starts_with :: "string \<Rightarrow> string \<Rightarrow> bool" where
  "starts_with key line \<longleftrightarrow> take (length key) line = key"

type_synonym 'r key_table = "(string \<times> (u64 \<Rightarrow> 'r \<Rightarrow> 'r)) list"

fun read_line :: "'r key_table \<Rightarrow> string \<Rightarrow> 'r \<Rightarrow> num_error option \<times> 'r" where
  "read_line [] line r = (None, r)"
| "read_line ((key, put) # es) line r =
     (if starts_with key line
      then (case sto_ull 10 (drop (length key) line) of Inl e \<Rightarrow> (Some e, r) | Inr v \<Rightarrow> (None, put v r))
      else read_line es line r)"

fun read_lines :: "'r key_table \<Rightarrow> string list \<Rightarrow> 'r \<Rightarrow> num_error option \<times> 'r" where
  "read_lines tab [] r = (None, r)"
| "read_lines tab (l # ls) r =
     (case read_line tab l r of (Some e, r) \<Rightarrow> (Some e, r) | (None, r) \<Rightarrow> read_lines tab ls r)"

definition status_table :: "'f sys_res key_table" where
  "status_table =
     [(''VmRSS:'', \<lambda>v r. r\<lparr>sr_memoryRssKb := v\<rparr>), (''VmSize:'', \<lambda>v r. r\<lparr>sr_memoryTotalKb := v\<rparr>),
      (''Threads:'', \<lambda>v r. r\<lparr>sr_threadCount := v\<rparr>), (''VmPeak:'', \<lambda>v r. r\<lparr>sr_vmPeakKb := v\<rparr>),
      (''VmHWM:'', \<lambda>v r. r\<lparr>sr_vmHwmKb := v\<rparr>), (''VmSwap:'', \<lambda>v r. r\<lparr>sr_vmSwapKb := v\<rparr>)]"

definition meminfo_table :: "'f sys_res key_table" where
  "meminfo_table =
     [(''MemTotal:'', \<lambda>v r. r\<lparr>sr_sysMemTotalKb := v\<rparr>), (''MemAvailable:'', \<lambda>v r. r\<lparr>sr_sysMemAvailKb := v\<rparr>)]"

section \<open>Processor time\<close>

type_synonym cpu_sample = "u64 \<times> u64"

definition kCpuWindowMs :: u64 where "kCpuWindowMs = 1000"

fun drop_old :: "u64 \<Rightarrow> cpu_sample list \<Rightarrow> cpu_sample list" where
  "drop_old now (s # t # h) = (if now - snd s > kCpuWindowMs then drop_old now (t # h) else s # t # h)"
| "drop_old now h = h"

definition add_sample :: "cpu_sample \<Rightarrow> cpu_sample list \<Rightarrow> cpu_sample list" where
  "add_sample s h = drop_old (snd s) (h @ [s])"

text \<open>\<open>cf_percent c w\<close> is \<open>(double)c * 100.0 / (w * 1000000.0)\<close>, \<open>cf_over\<close> the comparison with 100.\<close>

record 'f cpu_float =
  cf_zero :: 'f
  cf_percent :: "u64 \<Rightarrow> u64 \<Rightarrow> 'f"
  cf_over :: "'f \<Rightarrow> bool"
  cf_hundred :: 'f

definition cpu_percent :: "'f cpu_float \<Rightarrow> cpu_sample list \<Rightarrow> 'f option" where
  "cpu_percent F h =
     (if length h \<ge> 2
      then let deltaCpu = fst (last h) - fst (hd h); deltaWall = snd (last h) - snd (hd h) in
        if deltaWall > 0
        then let p = cf_percent F deltaCpu deltaWall in Some (if cf_over F p then cf_hundred F else p)
        else None
      else None)"

section \<open>\<open>SysLinux::collect\<close>\<close>

record 'f proc_files =
  pf_status :: "string list"
  pf_loadavg :: "('f \<times> 'f \<times> 'f) option"
  pf_meminfo :: "string list"
  pf_cpuNs :: u64
  pf_wallMs :: u64

definition no_resources :: "'f cpu_float \<Rightarrow> 'f sys_res" where
  "no_resources F =
     \<lparr>sr_memoryRssKb = 0, sr_memoryTotalKb = 0, sr_cpuPercent = cf_zero F, sr_uptimeMs = 0, sr_threadCount = 0,
      sr_vmPeakKb = 0, sr_vmHwmKb = 0, sr_vmSwapKb = 0, sr_loadAvg1 = cf_zero F, sr_loadAvg5 = cf_zero F,
      sr_loadAvg15 = cf_zero F, sr_sysMemTotalKb = 0, sr_sysMemAvailKb = 0\<rparr>"

definition sys_collect ::
  "'f cpu_float \<Rightarrow> 'f proc_files \<Rightarrow> cpu_sample list \<Rightarrow> num_error option \<times> 'f sys_res \<times> cpu_sample list" where
  "sys_collect F P h =
     (case read_lines status_table (pf_status P) (no_resources F) of
        (Some e, r) \<Rightarrow> (Some e, r, h)
      | (None, r) \<Rightarrow>
          (let r = (case pf_loadavg P of None \<Rightarrow> r
                    | Some (a, b, c) \<Rightarrow> r\<lparr>sr_loadAvg1 := a, sr_loadAvg5 := b, sr_loadAvg15 := c\<rparr>) in
           case read_lines meminfo_table (pf_meminfo P) r of
             (Some e, r) \<Rightarrow> (Some e, r, h)
           | (None, r) \<Rightarrow>
               (let h = add_sample (pf_cpuNs P, pf_wallMs P) h in
                (None, case cpu_percent F h of None \<Rightarrow> r | Some p \<Rightarrow> r\<lparr>sr_cpuPercent := p\<rparr>, h))))"

definition sys_close :: "cpu_sample list \<Rightarrow> cpu_sample list" where "sys_close h = []"

section \<open>\<open>PmuRsp5\<close>\<close>

text \<open>\<open>exec\<close>: \<open>None\<close> is a pipe that could not be opened.\<close>

definition pmu_exec :: "string option \<Rightarrow> string" where
  "pmu_exec out =
     (case out of None \<Rightarrow> ''''
      | Some s \<Rightarrow> rev (dropWhile (\<lambda>c. c = CHR 0x0A \<or> c = CHR 0x0D \<or> c = CHR '' '') (rev s)))"

text \<open>The text after the first \<open>=\<close>, if there is one.\<close>

definition after_eq :: "string \<Rightarrow> string option" where
  "after_eq s = (case dropWhile (\<lambda>c. c \<noteq> CHR ''='') s of [] \<Rightarrow> None | _ # v \<Rightarrow> Some v)"

definition parseMemMb :: "string \<Rightarrow> num_error + u64" where
  "parseMemMb s =
     (case after_eq s of None \<Rightarrow> Inr 0
      | Some v \<Rightarrow> sto_ull 10 (if v \<noteq> [] \<and> last v = CHR ''M'' then butlast v else v))"

definition parseThrottled :: "string \<Rightarrow> num_error + u64" where
  "parseThrottled s = (case after_eq s of None \<Rightarrow> Inr 0 | Some v \<Rightarrow> sto_ull 16 v)"

text \<open>The floating-point parsers: \<open>stof\<close> is the library's, \<open>toU\<close> the conversion to an unsigned integer.\<close>

record 'f pmu_float =
  mf_zero :: 'f
  mf_stof :: "string \<Rightarrow> num_error + 'f"
  mf_toU :: "'f \<Rightarrow> u64"

definition parseClock :: "'f pmu_float \<Rightarrow> string \<Rightarrow> num_error + u64" where
  "parseClock F s = (case after_eq s of None \<Rightarrow> Inr 0 | Some v \<Rightarrow> map_sum id (mf_toU F) (mf_stof F v))"

definition parseTemp :: "'f pmu_float \<Rightarrow> string \<Rightarrow> num_error + 'f" where
  "parseTemp F s = (case after_eq s of None \<Rightarrow> Inr (mf_zero F) | Some v \<Rightarrow> mf_stof F v)"

definition parseVolt :: "'f pmu_float \<Rightarrow> string \<Rightarrow> num_error + 'f" where
  "parseVolt F s = (case after_eq s of None \<Rightarrow> Inr (mf_zero F) | Some v \<Rightarrow> mf_stof F v)"

definition parseCurrent :: "'f pmu_float \<Rightarrow> string \<Rightarrow> num_error + 'f" where
  "parseCurrent F s = mf_stof F (case after_eq s of None \<Rightarrow> s | Some v \<Rightarrow> v)"

definition or_zero :: "'z \<Rightarrow> (string \<Rightarrow> num_error + 'z) \<Rightarrow> string \<Rightarrow> num_error + 'z" where
  "or_zero z p s = (if s = [] then Inr z else p s)"

type_synonym 'f pmu_query = "string \<times> (string \<Rightarrow> 'f pmu_data \<Rightarrow> num_error + 'f pmu_data)"

definition pmu_field :: "'z \<Rightarrow> (string \<Rightarrow> num_error + 'z) \<Rightarrow> ('z \<Rightarrow> 'f pmu_data \<Rightarrow> 'f pmu_data) \<Rightarrow> string \<Rightarrow> 'f pmu_data
    \<Rightarrow> num_error + 'f pmu_data" where
  "pmu_field z p put s d = map_sum id (\<lambda>v. put v d) (or_zero z p s)"

definition pmu_queries :: "'f pmu_float \<Rightarrow> 'f pmu_query list" where
  "pmu_queries F =
     [(''vcgencmd measure_clock arm'', pmu_field 0 (parseClock F) (\<lambda>v d. d\<lparr>pd_clockArmHz := v\<rparr>)),
      (''vcgencmd measure_clock core'', pmu_field 0 (parseClock F) (\<lambda>v d. d\<lparr>pd_clockCoreHz := v\<rparr>)),
      (''vcgencmd measure_clock v3d'', pmu_field 0 (parseClock F) (\<lambda>v d. d\<lparr>pd_clockV3dHz := v\<rparr>)),
      (''vcgencmd measure_temp'', pmu_field (mf_zero F) (parseTemp F) (\<lambda>v d. d\<lparr>pd_tempCelsius := v\<rparr>)),
      (''vcgencmd measure_volts core'', pmu_field (mf_zero F) (parseVolt F) (\<lambda>v d. d\<lparr>pd_voltCore := v\<rparr>)),
      (''vcgencmd pmic_read_adc VDD_CORE_A'', pmu_field (mf_zero F) (parseCurrent F) (\<lambda>v d. d\<lparr>pd_currentVddCoreA := v\<rparr>)),
      (''vcgencmd get_mem arm'', pmu_field 0 parseMemMb (\<lambda>v d. d\<lparr>pd_memArmMb := v\<rparr>)),
      (''vcgencmd get_mem gpu'', pmu_field 0 parseMemMb (\<lambda>v d. d\<lparr>pd_memGpuMb := v\<rparr>)),
      (''vcgencmd get_throttled'', pmu_field 0 parseThrottled (\<lambda>v d. d\<lparr>pd_throttled := v\<rparr>))]"

fun run_queries :: "(string \<Rightarrow> string option) \<Rightarrow> 'f pmu_query list \<Rightarrow> 'f pmu_data \<Rightarrow> num_error option \<times> 'f pmu_data" where
  "run_queries out [] d = (None, d)"
| "run_queries out ((cmd, q) # qs) d =
     (case q (pmu_exec (out cmd)) d of Inl e \<Rightarrow> (Some e, d) | Inr d \<Rightarrow> run_queries out qs d)"

definition readPmuData :: "'f pmu_float \<Rightarrow> (string \<Rightarrow> string option) \<Rightarrow> 'f pmu_data \<Rightarrow> num_error option \<times> 'f pmu_data" where
  "readPmuData F out d = run_queries out (pmu_queries F) d"

section \<open>Status files read back\<close>

text \<open>The lines of a status file: a key that ends in its only colon, and after it a number with a unit, or, for a key
  that the table does not name, anything.\<close>

type_synonym proc_entry = "string \<times> nat option \<times> string"

definition key_ok :: "string \<Rightarrow> bool" where
  "key_ok k \<longleftrightarrow> k \<noteq> [] \<and> last k = CHR '':'' \<and> CHR '':'' \<notin> set (butlast k)"

fun proc_line :: "proc_entry \<Rightarrow> string" where
  "proc_line (k, Some n, unit) = k @ CHR 0x09 # dec n @ CHR '' '' # unit"
| "proc_line (k, None, txt) = k @ txt"

fun proc_ok :: "'r key_table \<Rightarrow> proc_entry \<Rightarrow> bool" where
  "proc_ok tab (k, Some n, unit) \<longleftrightarrow> key_ok k \<and> n < 2 ^ 64"
| "proc_ok tab (k, None, txt) \<longleftrightarrow> key_ok k \<and> map_of tab k = None"

fun put_entry :: "'r key_table \<Rightarrow> proc_entry \<Rightarrow> 'r \<Rightarrow> 'r" where
  "put_entry tab (k, Some n, unit) r = (case map_of tab k of None \<Rightarrow> r | Some put \<Rightarrow> put (word_of_nat n) r)"
| "put_entry tab (k, None, txt) r = r"

lemma key_split: "key_ok k \<Longrightarrow> \<exists>k0. k = k0 @ '':'' \<and> CHR '':'' \<notin> set k0"
  unfolding key_ok_def by (metis append_butlast_last_id)

lemma key_cut: "CHR '':'' \<notin> set a \<Longrightarrow> CHR '':'' \<notin> set b \<Longrightarrow> a @ CHR '':'' # v = b @ CHR '':'' # w \<longleftrightarrow> a = b \<and> v = w"
proof (induction a arbitrary: b)
  case Nil
  then show ?case by (cases b) auto
next
  case (Cons c a)
  then show ?case by (cases b) auto
qed

lemma starts_with_key:
  assumes "key_ok k" and "key_ok key"
  shows "starts_with key (k @ v) \<longleftrightarrow> key = k"
proof -
  obtain k0 key0 where k: "k = k0 @ '':''" "CHR '':'' \<notin> set k0" "key = key0 @ '':''" "CHR '':'' \<notin> set key0"
    using key_split[OF assms(1)] key_split[OF assms(2)] by blast
  show ?thesis
  proof
    assume "starts_with key (k @ v)"
    then have "key @ drop (length key) (k @ v) = k @ v" unfolding starts_with_def by (metis append_take_drop_id)
    then show "key = k" using k key_cut[OF k(4,2)] by simp
  qed (simp add: starts_with_def)
qed

lemma dec_reads_back:
  "n < 2 ^ 64 \<Longrightarrow> sto_ull 10 (CHR 0x09 # dec n @ CHR '' '' # unit) = Inr (word_of_nat n)"
  using sto_ull_digits[of 10 n "[CHR 0x09]" "CHR '' '' # unit"]
  by (simp add: dec_def is_blank_def is_digit_def digit_of_def)

lemma read_line_entry:
  assumes "\<forall>key \<in> fst ` set tab. key_ok key" and "proc_ok tab e"
  shows "read_line tab (proc_line e) r = (None, put_entry tab e r)"
  using assms
proof (induction tab)
  case Nil
  then show ?case by (cases e rule: proc_line.cases) simp_all
next
  case (Cons p tab)
  obtain key put where p: "p = (key, put)" by (cases p)
  have key: "key_ok key" "\<forall>key \<in> fst ` set tab. key_ok key" using Cons(2) p by simp_all
  show ?case
  proof (cases e rule: proc_line.cases)
    case (1 k n unit)
    then have ok: "key_ok k" "n < 2 ^ 64" using Cons(3) by simp_all
    show ?thesis using Cons(1)[OF key(2)] 1 p ok starts_with_key[OF ok(1) key(1)] dec_reads_back[OF ok(2)] by simp
  next
    case (2 k rest)
    then have ok: "key_ok k" "key \<noteq> k" "map_of tab k = None" using Cons(3) p by (simp_all split: if_splits)
    show ?thesis using Cons(1)[OF key(2)] 2 p ok starts_with_key[OF ok(1) key(1)] by simp
  qed
qed

lemma read_lines_entries:
  assumes "\<forall>key \<in> fst ` set tab. key_ok key" and "\<forall>e \<in> set es. proc_ok tab e"
  shows "read_lines tab (map proc_line es) r = (None, fold (put_entry tab) es r)"
  using assms(2) by (induction es arbitrary: r) (simp_all add: read_line_entry[OF assms(1)])

lemma tables_ok: "\<forall>key \<in> fst ` set status_table. key_ok key" "\<forall>key \<in> fst ` set meminfo_table. key_ok key"
  by (simp_all add: status_table_def meminfo_table_def key_ok_def)

section \<open>The window of samples\<close>

definition recent :: "u64 \<Rightarrow> cpu_sample list \<Rightarrow> cpu_sample list" where
  "recent now h = filter (\<lambda>s. now - snd s \<le> kCpuWindowMs) h"

lemma word_age:
  fixes a b c :: u64
  assumes "a \<le> b" and "b \<le> c"
  shows "c - b \<le> c - a" and "b - a \<le> c - a"
  using assms order_trans[OF assms] by (simp_all add: word_le_nat_alt unat_sub)

lemma drop_old_recent:
  assumes "sorted (map snd (h @ [s]))" and "snd s = now"
  shows "drop_old now (h @ [s]) = recent now (h @ [s])"
  using assms
proof (induction h)
  case Nil
  then show ?case by (simp add: recent_def kCpuWindowMs_def)
next
  case (Cons a h)
  show ?case
  proof (cases "now - snd a > kCpuWindowMs")
    case True
    then show ?thesis using Cons by (cases h) (auto simp: recent_def)
  next
    case False
    then have a: "now - snd a \<le> kCpuWindowMs" by simp
    have "now - snd b \<le> kCpuWindowMs" if "b \<in> set (h @ [s])" for b
    proof -
      have ab: "snd a \<le> snd b" "snd b \<le> now" using that Cons(2,3) by (auto simp: sorted_append)
      then have "now - snd b \<le> now - snd a" by (rule word_age(1))
      then show ?thesis using a by (rule order_trans)
    qed
    then have "filter (\<lambda>s. now - snd s \<le> kCpuWindowMs) (h @ [s]) = h @ [s]" by (intro filter_True) blast
    then show ?thesis using False by (cases h) (auto simp: recent_def)
  qed
qed

lemma recent_recent:
  assumes "now' \<le> now" and "\<forall>s \<in> set h. snd s \<le> now'"
  shows "recent now (recent now' h) = recent now h"
proof -
  have "now' - snd s \<le> kCpuWindowMs" if "s \<in> set h" "now - snd s \<le> kCpuWindowMs" for s
  proof -
    have "now' - snd s \<le> now - snd s" using assms that(1) by (intro word_age(2)) blast+
    then show ?thesis using that(2) by (rule order_trans)
  qed
  then have "filter (\<lambda>s. now - snd s \<le> kCpuWindowMs \<and> now' - snd s \<le> kCpuWindowMs) h = filter (\<lambda>s. now - snd s \<le> kCpuWindowMs) h"
    by (intro filter_cong) auto
  then show ?thesis by (simp add: recent_def conj_commute)
qed

lemma samples_window:
  "sorted (map snd ss) \<Longrightarrow> ss \<noteq> [] \<Longrightarrow> fold add_sample ss [] = recent (snd (last ss)) ss"
proof (induction ss rule: rev_induct)
  case Nil
  then show ?case by simp
next
  case (snoc s ss)
  show ?case
  proof (cases "ss = []")
    case True
    then show ?thesis by (simp add: add_sample_def recent_def kCpuWindowMs_def)
  next
    case False
    have so: "sorted (map snd ss)" "\<forall>x \<in> set ss. snd x \<le> snd s" using snoc(2) by (auto simp: sorted_append)
    have l: "snd (last ss) \<le> snd s" using so(2) False by simp
    have up: "\<forall>x \<in> set ss. snd x \<le> snd (last ss)"
      using so(1) False by (cases ss rule: rev_cases) (auto simp: sorted_append)
    have s': "sorted (map snd (recent (snd (last ss)) ss @ [s]))"
      using so by (auto simp: recent_def sorted_append intro: sorted_filter)
    have "fold add_sample (ss @ [s]) [] = drop_old (snd s) (recent (snd (last ss)) ss @ [s])"
      by (simp add: snoc(1)[OF so(1) False] add_sample_def[of s])
    also have "\<dots> = recent (snd s) (recent (snd (last ss)) ss @ [s])" by (rule drop_old_recent[OF s' refl])
    also have "\<dots> = recent (snd s) (ss @ [s])" using recent_recent[OF l up] by (simp add: recent_def)
    finally show ?thesis by simp
  qed
qed

section \<open>Properties\<close>

text \<open>What a collection should yield, from the entries of the files and the window of samples.\<close>

definition collected :: "'f cpu_float \<Rightarrow> ('f \<times> 'f \<times> 'f) option \<Rightarrow> proc_entry list \<Rightarrow> proc_entry list \<Rightarrow> cpu_sample list
    \<Rightarrow> 'f sys_res" where
  "collected F load status mem window =
     (let st = fold (put_entry status_table) status (no_resources F);
          ld = (case load of None \<Rightarrow> st | Some (a, b, c) \<Rightarrow> st\<lparr>sr_loadAvg1 := a, sr_loadAvg5 := b, sr_loadAvg15 := c\<rparr>);
          mm = fold (put_entry meminfo_table) mem ld
      in case cpu_percent F window of None \<Rightarrow> mm | Some p \<Rightarrow> mm\<lparr>sr_cpuPercent := p\<rparr>)"


definition demo_cpu :: "bool cpu_float" where
  "demo_cpu = \<lparr>cf_zero = False, cf_percent = \<lambda>c w. c > w, cf_over = \<lambda>_. False, cf_hundred = True\<rparr>"

definition demo_status :: "proc_entry list" where
  "demo_status = [(''Name:'', None, ''v2_main''), (''VmRSS:'', Some 12345, ''kB''), (''Threads:'', Some 9, '''')]"

definition demo_files :: "bool proc_files" where
  "demo_files = \<lparr>pf_status = map proc_line demo_status, pf_loadavg = None, pf_meminfo = [], pf_cpuNs = 70, pf_wallMs = 1700\<rparr>"


text \<open>A line with one of the keys and no number after it makes \<open>collect\<close> throw, with the members read so far.\<close>

lemma collect_throws:
  "pf_status P = map proc_line es @ (key @ v) # ls \<Longrightarrow> \<forall>e \<in> set es. proc_ok (status_table :: 'f sys_res key_table) e \<Longrightarrow> key_ok key \<Longrightarrow>
     map_of (status_table :: 'f sys_res key_table) key \<noteq> None \<Longrightarrow> sto_ull 10 v = Inl x \<Longrightarrow>
     sys_collect F P h = (Some x, fold (put_entry status_table) es (no_resources F :: 'f sys_res), h)"
proof -
  assume a: "pf_status P = map proc_line es @ (key @ v) # ls" "\<forall>e \<in> set es. proc_ok (status_table :: 'f sys_res key_table) e" "key_ok key"
    "map_of (status_table :: 'f sys_res key_table) key \<noteq> None" "sto_ull 10 v = Inl x"
  have l: "read_line tab (key @ v) r = (Some x, r)"
    if "\<forall>k \<in> fst ` set tab. key_ok k" "map_of tab key \<noteq> None" for tab and r :: "'f sys_res"
    using that
  proof (induction tab)
    case (Cons p tab)
    obtain k put where p: "p = (k, put)" by (cases p)
    then have "key_ok k" using Cons(2) by simp
    from starts_with_key[OF a(3) this] show ?case using Cons p a(5) by (cases "k = key") auto
  qed simp
  have "read_lines status_table (map proc_line es @ (key @ v) # ls) r = (Some x, fold (put_entry status_table) es r)"
    for r :: "'f sys_res"
    using a(2) by (induction es arbitrary: r) (simp_all add: l[OF tables_ok(1) a(4)] read_line_entry[OF tables_ok(1)])
  then show ?thesis by (simp add: sys_collect_def a(1))
qed

text \<open>What the firmware prints for memory and throttling reads back, with the unit and the line end taken off.\<close>

lemma pmu_exec_trims:
  "s \<noteq> [] \<Longrightarrow> last s \<notin> {CHR 0x0A, CHR 0x0D, CHR '' ''} \<Longrightarrow> \<forall>c \<in> set t. c \<in> {CHR 0x0A, CHR 0x0D, CHR '' ''} \<Longrightarrow>
     pmu_exec (Some (s @ t)) = s"
proof -
  assume a: "s \<noteq> []" "last s \<notin> {CHR 0x0A, CHR 0x0D, CHR '' ''}" "\<forall>c \<in> set t. c \<in> {CHR 0x0A, CHR 0x0D, CHR '' ''}"
  let ?P = "\<lambda>c. c = CHR 0x0A \<or> c = CHR 0x0D \<or> c = CHR '' ''"
  have "dropWhile ?P (rev t @ rev s) = dropWhile ?P (rev s)" by (rule dropWhile_append2) (use a(3) in simp)
  also have "dropWhile ?P (rev s) = rev s" using a(1,2) by (cases s rule: rev_cases) simp_all
  finally show ?thesis by (simp add: pmu_exec_def)
qed

lemma after_eq_app: "CHR ''='' \<notin> set k \<Longrightarrow> after_eq (k @ CHR ''='' # v) = Some v"
  by (induction k) (auto simp: after_eq_def)

theorem firmware_numbers_read_back:
  assumes "n < 2 ^ 64" and "CHR ''='' \<notin> set k"
  shows "parseMemMb (k @ CHR ''='' # dec n @ ''M'') = Inr (word_of_nat n)"
    and "parseThrottled (k @ ''=0x'' @ hex n) = Inr (word_of_nat n)"
  using sto_ull_digits[of 10 n "[]" "[]"] sto_ull_hex[of n "[]"] assms
  by (simp_all add: parseMemMb_def parseThrottled_def after_eq_app dec_def)

text \<open>A board without the firmware tool: every command fails, and every member reads as zero.\<close>

lemma pmu_without_firmware:
  "readPmuData F (\<lambda>_. None) d =
     (None, \<lparr>pd_clockArmHz = 0, pd_clockCoreHz = 0, pd_clockV3dHz = 0, pd_memArmMb = 0, pd_memGpuMb = 0, pd_throttled = 0,
        pd_tempCelsius = mf_zero F, pd_voltCore = mf_zero F, pd_currentVddCoreA = mf_zero F\<rparr>)"
  by (simp add: readPmuData_def pmu_queries_def pmu_exec_def pmu_field_def or_zero_def)

text \<open>A current without \<open>=\<close> is taken whole: where the other parsers yield zero, this one throws, and the members that
  come after it keep their previous values.\<close>

lemma current_without_equals_throws:
  assumes "\<forall>cmd. out cmd = (if cmd = ''vcgencmd pmic_read_adc VDD_CORE_A'' then Some ''unknown command'' else None)"
    and "mf_stof F ''unknown command'' = Inl NoNumber"
  shows "fst (readPmuData F out d) = Some NoNumber \<and> pd_throttled (snd (readPmuData F out d)) = pd_throttled d"
  using assms by (simp add: readPmuData_def pmu_queries_def pmu_exec_def pmu_field_def or_zero_def parseCurrent_def after_eq_def)

end
