(* ===== verification/Linux_Timer.thy ===== *)
theory Linux_Timer
  imports Timer_Loop
begin

text \<open>
  The timer of the Linux build (\<open>infra/platform/linux/timer_linux.cpp\<close>): instead of a thread of its own,
  \<open>LinuxTimer\<close> arms a timer descriptor for the earliest expiry and runs the expired timers in the event
  loop, when the descriptor becomes readable. Pool, heap and id map are those of \<open>Timer_Base\<close>, whose
  counter \<open>tm_sema\<close> counts the calls of the hook \<open>scheduleNextTimer\<close> here. Time is in nanoseconds. The
  descriptor is one-shot: it becomes readable at the time it is armed for, a read that finds it readable
  leaves it disarmed, and setting it to zero disarms it. Every operation takes the time at which the code
  reads the clock and the time at which the system call takes effect.
\<close>

section \<open>State and operations\<close>

datatype lt_pc = LtIdle | LtWoken | LtExec "ready_node list" "ready_node list"

text \<open>\<open>lt_armed\<close> is the time for which the open descriptor is armed. Two fields exist for the statements
  only: \<open>lt_last\<close> is the time of the last \<open>timerfd_settime\<close>, \<open>lt_seen\<close> the clock value that call had read
  and the earliest expiry it had found.\<close>

record ltimer =
  lt_timer :: timer
  lt_open :: bool
  lt_subscribed :: bool
  lt_armed :: "nat option"
  lt_pc :: lt_pc
  lt_last :: nat
  lt_seen :: "(nat \<times> nat) option"

definition lt_new :: "bool \<Rightarrow> ltimer" where
  "lt_new opened = \<lparr>lt_timer = timer_new, lt_open = opened, lt_subscribed = False, lt_armed = None, lt_pc = LtIdle,
     lt_last = 0, lt_seen = None\<rparr>"

definition lt_schedule :: "nat \<Rightarrow> nat \<Rightarrow> ltimer \<Rightarrow> ltimer" where
  "lt_schedule now at l =
     (if \<not> lt_open l then l
      else
        let t = purge_dead (lt_timer l);
            ns = int (next_expiry t) - int now;
            it_value = (if has_live_top t then (if ns < 0 then 1 else nat ns) else 0)
        in l\<lparr>lt_timer := t, lt_armed := (if it_value = 0 then None else Some (at + it_value)),
             lt_last := at, lt_seen := (if has_live_top t then Some (now, next_expiry t) else None)\<rparr>)"

definition lt_start :: "bool \<Rightarrow> ltimer \<Rightarrow> ltimer" where
  "lt_start subscribes l =
     (if \<not> lt_subscribed l \<and> lt_open l then l\<lparr>lt_subscribed := subscribes\<rparr> else l)"

definition lt_clear :: "nat \<Rightarrow> nat \<Rightarrow> ltimer \<Rightarrow> ltimer" where
  "lt_clear now at l = lt_schedule now at (l\<lparr>lt_timer := timer_clear (lt_timer l)\<rparr>)"

definition lt_stop :: "nat \<Rightarrow> nat \<Rightarrow> ltimer \<Rightarrow> ltimer" where
  "lt_stop now at l = lt_clear now at (l\<lparr>lt_subscribed := False, lt_open := False, lt_armed := None\<rparr>)"

definition lt_add :: "nat \<Rightarrow> nat \<Rightarrow> nat \<Rightarrow> bool \<Rightarrow> nat \<Rightarrow> nat \<Rightarrow> ltimer \<Rightarrow> int \<times> ltimer" where
  "lt_add now at delayMs rep cb pl l =
     (case timer_add now (delayMs * 1000000) rep cb pl (lt_timer l) of
        (d, t) \<Rightarrow> (d, if tm_sema t \<noteq> tm_sema (lt_timer l) then lt_schedule now at (l\<lparr>lt_timer := t\<rparr>)
                      else l\<lparr>lt_timer := t\<rparr>))"

definition lt_cancel :: "int \<Rightarrow> ltimer \<Rightarrow> ltimer" where
  "lt_cancel d l = l\<lparr>lt_timer := timer_cancel d (lt_timer l)\<rparr>"

definition lt_onWake :: "nat \<Rightarrow> ltimer \<Rightarrow> ltimer" where
  "lt_onWake at l =
     (case lt_armed l of
        Some e \<Rightarrow> (if lt_open l \<and> e \<le> at then l\<lparr>lt_armed := None\<rparr> else l)
      | None \<Rightarrow> l)"

text \<open>\<open>handleTimerEvent\<close>, in the steps between which other threads can use the timer: the read, the collection of
  the expired timers, each callback, and the re-arming. The second component is the callback a step runs.\<close>

definition lt_step :: "nat \<Rightarrow> nat \<Rightarrow> ltimer \<Rightarrow> ltimer \<times> ready_node option" where
  "lt_step now at l =
     (case lt_pc l of
        LtIdle \<Rightarrow> (if lt_subscribed l then (lt_onWake at l\<lparr>lt_pc := LtWoken\<rparr>, None) else (l, None))
      | LtWoken \<Rightarrow> (case collect now (lt_timer l) of (rs, t) \<Rightarrow> (l\<lparr>lt_timer := t, lt_pc := LtExec rs rs\<rparr>, None))
      | LtExec (r # todo) rs \<Rightarrow> (l\<lparr>lt_pc := LtExec todo rs\<rparr>, Some r)
      | LtExec [] rs \<Rightarrow> (lt_schedule now at (l\<lparr>lt_timer := finish rs (lt_timer l), lt_pc := LtIdle\<rparr>), None))"

text \<open>Everything that can happen to a timer whose calls take at most \<open>L\<close> nanoseconds from reading the clock to
  setting the descriptor.\<close>

inductive lt_reach :: "nat \<Rightarrow> ltimer \<Rightarrow> bool" for L where
  lt_r_new: "lt_reach L (lt_new opened)"
| lt_r_start: "lt_reach L l \<Longrightarrow> lt_reach L (lt_start subscribes l)"
| lt_r_stop: "lt_reach L l \<Longrightarrow> lt_reach L (lt_stop now at l)"
| lt_r_clear: "lt_reach L l \<Longrightarrow> lt_reach L (lt_clear now at l)"
| lt_r_add: "lt_reach L l \<Longrightarrow> at \<le> now + L \<Longrightarrow> lt_reach L (snd (lt_add now at delayMs rep cb pl l))"
| lt_r_cancel: "lt_reach L l \<Longrightarrow> lt_reach L (lt_cancel d l)"
| lt_r_step: "lt_reach L l \<Longrightarrow> at \<le> now + L \<Longrightarrow> lt_reach L (fst (lt_step now at l))"

section \<open>Invariant\<close>

definition lt_pending :: "lt_pc \<Rightarrow> ready_node list" where
  "lt_pending pc = (case pc of LtExec _ rs \<Rightarrow> rs | _ \<Rightarrow> [])"

text \<open>What a timer with the given expiry finds: the descriptor is armed for it in time, or the call that set the
  descriptor read the clock at exactly the earliest expiry, and the descriptor is disarmed.\<close>

definition lt_finds :: "nat \<Rightarrow> ltimer \<Rightarrow> nat \<Rightarrow> bool" where
  "lt_finds L l x \<longleftrightarrow>
     (case lt_seen l of
        None \<Rightarrow> False
      | Some (now, first) \<Rightarrow>
          first \<le> x \<and> (if now = first then lt_armed l = None
            else (\<exists>e. lt_armed l = Some e \<and> e \<le> max (x + L) (lt_last l + 1))))"

lemma lt_finds_fields [simp]:
  "lt_finds L (l\<lparr>lt_timer := t\<rparr>) x = lt_finds L l x" "lt_finds L (l\<lparr>lt_pc := pc\<rparr>) x = lt_finds L l x"
  "lt_finds L (l\<lparr>lt_subscribed := b\<rparr>) x = lt_finds L l x"
  by (simp_all add: lt_finds_def split: option.split)

lemma lt_finds_later: "lt_finds L l x \<Longrightarrow> x \<le> y \<Longrightarrow> lt_finds L l y"
  by (fastforce simp: lt_finds_def split: option.splits if_splits)

definition lt_wakes :: "nat \<Rightarrow> ltimer \<Rightarrow> bool" where
  "lt_wakes L l \<longleftrightarrow> (lt_pc l = LtIdle \<and> lt_open l \<longrightarrow>
     (\<forall>i \<in> set (tm_heap (lt_timer l)). lt_finds L l (expiry_at (lt_timer l) i)))"

definition lt_inv :: "nat \<Rightarrow> ltimer \<Rightarrow> bool" where
  "lt_inv L l \<longleftrightarrow> (\<exists>R. timer_inv R (fst ` set (lt_pending (lt_pc l))) (lt_timer l)) \<and>
     distinct (map fst (lt_pending (lt_pc l))) \<and> (lt_subscribed l \<longrightarrow> lt_open l) \<and> lt_wakes L l"

lemma lt_schedule_wakes:
  assumes R: "timer_inv R rdy (lt_timer l)" and lag: "at \<le> now + L \<or> tm_heap (lt_timer l) = []"
  shows "lt_wakes L (lt_schedule now at l)"
proof (cases "lt_open l \<and> tm_heap (purge_dead (lt_timer l)) \<noteq> []")
  case True
  let ?t = "purge_dead (lt_timer l)"
  have live: "has_live_top ?t" using purge_dead_ok[OF R] True by blast
  have "set (tm_heap ?t) \<subseteq> set (tm_heap (lt_timer l))" using purge_heap[OF timer_invD(1)[OF R]] by blast
  then have le: "at \<le> now + L" using lag True by auto
  obtain i where i: "heap_top ?t = Some i" using True by (cases "heap_top ?t") auto
  have least: "next_expiry ?t \<le> expiry_at ?t j" if "j \<in> set (tm_heap ?t)" for j
    using heap_top_Some(2)[OF i] that i by (simp add: next_expiry_def)
  show ?thesis
    unfolding lt_wakes_def lt_finds_def lt_schedule_def using True live le
    by (auto simp: Let_def max_def dest!: least)
next
  case False
  then show ?thesis by (auto simp: lt_wakes_def lt_schedule_def Let_def)
qed

lemma lt_schedule_fields [simp]:
  "lt_pc (lt_schedule now at l) = lt_pc l" "lt_open (lt_schedule now at l) = lt_open l"
  "lt_subscribed (lt_schedule now at l) = lt_subscribed l"
  by (simp_all add: lt_schedule_def Let_def)

lemma lt_schedule_timer:
  assumes "timer_inv R rdy (lt_timer l)"
  shows "timer_inv R rdy (lt_timer (lt_schedule now at l))" and "armed (lt_timer (lt_schedule now at l)) = armed (lt_timer l)"
  using purge_dead_ok[OF assms] assms by (simp_all add: lt_schedule_def Let_def)

lemma lt_schedule_inv:
  assumes R: "timer_inv R (fst ` set (lt_pending (lt_pc l))) (lt_timer l)"
    and "distinct (map fst (lt_pending (lt_pc l)))" and "lt_subscribed l \<longrightarrow> lt_open l"
    and lag: "at \<le> now + L \<or> tm_heap (lt_timer l) = []"
  shows "lt_inv L (lt_schedule now at l)"
  unfolding lt_inv_def using assms(2,3) lt_schedule_timer(1)[OF R] lt_schedule_wakes[OF R lag] by auto

lemma lt_invE:
  assumes "lt_inv L l"
  obtains R where "timer_inv R (fst ` set (lt_pending (lt_pc l))) (lt_timer l)"
    "distinct (map fst (lt_pending (lt_pc l)))" "lt_subscribed l \<longrightarrow> lt_open l" "lt_wakes L l"
  using assms unfolding lt_inv_def by blast

lemma lt_clear_inv:
  assumes "lt_inv L l" and "lt_subscribed l' \<longrightarrow> lt_open l'" and "lt_timer l' = lt_timer l" "lt_pc l' = lt_pc l"
  shows "lt_inv L (lt_clear now at l')"
proof -
  obtain R where R: "timer_inv R (fst ` set (lt_pending (lt_pc l))) (lt_timer l)"
    "distinct (map fst (lt_pending (lt_pc l)))" by (rule lt_invE[OF assms(1)])
  show ?thesis unfolding lt_clear_def
    by (rule lt_schedule_inv[where R = "{}"])
      (use timer_clear_inv[OF R(1)] R(2) assms(2-4) in \<open>simp_all add: timer_clear_def schedule_next_def\<close>)
qed

lemma lt_add_inv:
  assumes inv: "lt_inv L l" and lag: "at \<le> now + L"
  shows "lt_inv L (snd (lt_add now at delayMs rep cb pl l))"
proof -
  let ?t = "lt_timer l"
  obtain R where R: "timer_inv R (fst ` set (lt_pending (lt_pc l))) ?t" "distinct (map fst (lt_pending (lt_pc l)))"
    "lt_subscribed l \<longrightarrow> lt_open l" "lt_wakes L l" by (rule lt_invE[OF inv])
  obtain d t' where a: "timer_add now (delayMs * 1000000) rep cb pl ?t = (d, t')"
    by (cases "timer_add now (delayMs * 1000000) rep cb pl ?t")
  note A = timer_add_ok[OF R(1) a]
  show ?thesis
  proof (cases "tm_sema t' = tm_sema ?t")
    case False
    then have "snd (lt_add now at delayMs rep cb pl l) = lt_schedule now at (l\<lparr>lt_timer := t'\<rparr>)"
      using a by (simp add: lt_add_def)
    moreover have "lt_inv L (lt_schedule now at (l\<lparr>lt_timer := t'\<rparr>))"
      by (rule lt_schedule_inv[where R = R]) (use A(1) R lag in simp_all)
    ultimately show ?thesis by simp
  next
    case True
    then have e: "snd (lt_add now at delayMs rep cb pl l) = l\<lparr>lt_timer := t'\<rparr>" using a by (simp add: lt_add_def)
    obtain j where j: "j \<in> set (tm_heap ?t)" "expiry_at ?t j \<le> now + delayMs * 1000000" using A(7) True by blast
    obtain i where i: "tm_heap t' = tm_heap ?t @ [i]" "expiry_at t' i = now + delayMs * 1000000"
      "\<forall>j \<in> set (tm_heap ?t). expiry_at t' j = expiry_at ?t j" using A(8) by blast
    have "lt_wakes L (l\<lparr>lt_timer := t'\<rparr>)"
      using R(4) j i lt_finds_later[of L l] unfolding lt_wakes_def by auto
    then show ?thesis unfolding e lt_inv_def using A(1) R by auto
  qed
qed

lemma lt_cancel_inv:
  assumes inv: "lt_inv L l"
  shows "lt_inv L (lt_cancel d l)"
proof -
  obtain R where R: "timer_inv R (fst ` set (lt_pending (lt_pc l))) (lt_timer l)" "distinct (map fst (lt_pending (lt_pc l)))"
    "lt_subscribed l \<longrightarrow> lt_open l" "lt_wakes L l" by (rule lt_invE[OF inv])
  note H = cancel_heap[OF timer_invD(1)[OF R(1)], of d]
  have "lt_wakes L (lt_cancel d l)" using R(4) H unfolding lt_wakes_def lt_cancel_def by fastforce
  then show ?thesis unfolding lt_inv_def using timer_cancel_ok(1)[OF R(1), of d] R by (auto simp: lt_cancel_def)
qed

lemma lt_onWake_fields [simp]:
  "lt_timer (lt_onWake at l) = lt_timer l" "lt_pc (lt_onWake at l) = lt_pc l"
  "lt_open (lt_onWake at l) = lt_open l" "lt_subscribed (lt_onWake at l) = lt_subscribed l"
  by (auto simp: lt_onWake_def split: option.split)

lemma lt_step_inv:
  assumes inv: "lt_inv L l" and lag: "at \<le> now + L"
  shows "lt_inv L (fst (lt_step now at l))"
proof -
  obtain R where R: "timer_inv R (fst ` set (lt_pending (lt_pc l))) (lt_timer l)" "distinct (map fst (lt_pending (lt_pc l)))"
    "lt_subscribed l \<longrightarrow> lt_open l" "lt_wakes L l" by (rule lt_invE[OF inv])
  show ?thesis
  proof (cases "lt_pc l")
    case LtIdle
    then show ?thesis using inv R by (auto simp: lt_step_def lt_inv_def lt_pending_def lt_wakes_def)
  next
    case LtWoken
    then have R': "timer_inv R {} (lt_timer l)" using R(1) by (simp add: lt_pending_def)
    obtain rs t where c: "collect now (lt_timer l) = (rs, t)" by (cases "collect now (lt_timer l)")
    obtain R1 where "timer_inv R1 (fst ` set rs) t" "distinct (map fst rs)" using collect_ok[OF R' c] by auto
    then show ?thesis using LtWoken R c by (auto simp: lt_step_def lt_inv_def lt_pending_def lt_wakes_def)
  next
    case (LtExec todo rs)
    then have R': "timer_inv R (fst ` set rs) (lt_timer l)" "distinct (map fst rs)" using R(1,2) by (simp_all add: lt_pending_def)
    show ?thesis
    proof (cases todo)
      case Nil
      obtain R1 where "timer_inv R1 {} (finish rs (lt_timer l))" using finish_ok[OF R'] by auto
      then have "lt_inv L (lt_schedule now at (l\<lparr>lt_timer := finish rs (lt_timer l), lt_pc := LtIdle\<rparr>))"
        by (intro lt_schedule_inv[where R = R1]) (use R(3) lag in \<open>simp_all add: lt_pending_def\<close>)
      then show ?thesis using LtExec Nil by (simp add: lt_step_def)
    next
      case (Cons r todo')
      then show ?thesis using LtExec R R' by (auto simp: lt_step_def lt_inv_def lt_pending_def lt_wakes_def)
    qed
  qed
qed

lemma lt_reach_inv: "lt_reach L l \<Longrightarrow> lt_inv L l"
proof (induction rule: lt_reach.induct)
  case (lt_r_new opened)
  show ?case using timer_new_inv by (auto simp: lt_inv_def lt_new_def lt_pending_def lt_wakes_def timer_new_def)
next
  case (lt_r_start l subscribes)
  then show ?case by (auto simp: lt_start_def lt_inv_def lt_wakes_def)
next
  case (lt_r_stop l now at)
  show ?case unfolding lt_stop_def by (rule lt_clear_inv[OF lt_r_stop(2)]) simp_all
next
  case (lt_r_clear l now at)
  show ?case by (rule lt_clear_inv[OF lt_r_clear(2)]) (use lt_r_clear(2) in \<open>simp_all add: lt_inv_def\<close>)
qed (simp_all add: lt_add_inv lt_cancel_inv lt_step_inv)

section \<open>Properties\<close>


definition demo_ltimer :: ltimer where
  "demo_ltimer = snd (lt_add 5 9 1 True 7 8 (snd (lt_add 0 3 2 False 1 2 (lt_start True (lt_new True)))))"

lemmas lt_eval = lt_add_def lt_start_def lt_new_def lt_schedule_def timer_new_def timer_add_def alloc_node_def Let_def
  schedule_next_def heap_top_def least_by_def purge_dead.simps has_live_top_def next_expiry_def expiry_at_def armed_def
  new_node_def fresh_node_def

lemma demo_ltimer_state:
  "lt_reach 4 demo_ltimer" "lt_pc demo_ltimer = LtIdle \<and> lt_open demo_ltimer \<and> lt_seen demo_ltimer = Some (5, 1000005)"
  "armed (lt_timer demo_ltimer) 1 = Some (new_node 0 2000000 False 1 2 1)"
  "lt_armed demo_ltimer = Some 1000009" "lt_last demo_ltimer = 9"
proof -
  show "lt_reach 4 demo_ltimer" unfolding demo_ltimer_def by (intro lt_reach.intros) simp_all
  show "lt_pc demo_ltimer = LtIdle \<and> lt_open demo_ltimer \<and> lt_seen demo_ltimer = Some (5, 1000005)"
    "armed (lt_timer demo_ltimer) 1 = Some (new_node 0 2000000 False 1 2 1)"
    "lt_armed demo_ltimer = Some 1000009" "lt_last demo_ltimer = 9"
    unfolding demo_ltimer_def by (simp_all add: lt_eval)
qed


text \<open>The exception is real: \<open>add\<close> computes the expiry and the remaining time from the same clock value, so a timer
  added with delay 0 that becomes the earliest sets the descriptor to zero. That disarms it: the timer stays in the
  heap, alive, and nothing wakes the event loop for it or for any later one.\<close>

theorem zero_delay_disarms:
  "armed (lt_timer l) 1 = Some n \<and> tn_expiry n = 0 \<and> lt_armed l = None \<and> lt_pc l = LtIdle \<and> lt_subscribed l"
  if "l = snd (lt_add 0 0 5 True 3 4 (snd (lt_add 0 0 0 False 1 2 (lt_start True (lt_new True)))))"
    and "n = new_node 0 0 False 1 2 1"
  using that by (simp add: lt_eval)

text \<open>Stopping closes the descriptor for good: a stopped timer can not be started again.\<close>

lemma stopped_stays_closed:
  "\<not> lt_open (lt_start subscribes (lt_stop now at l)) \<and> \<not> lt_subscribed (lt_start subscribes (lt_stop now at l))"
  by (simp add: lt_start_def lt_stop_def lt_clear_def)

text \<open>A round of the handler runs exactly the timers that were due when it read the clock, each once, earliest first.\<close>

theorem handler_runs_due:
  assumes "lt_reach L l" and "lt_pc l = LtWoken"
  shows "\<exists>rs. lt_pc (fst (lt_step now at l)) = LtExec rs rs \<and> fst ` set rs = due now {} (armed (lt_timer l)) \<and>
     distinct (map fst rs) \<and> sorted (map (\<lambda>r. tn_expiry (the (armed (lt_timer l) (fst r)))) rs)"
proof -
  obtain R where R: "timer_inv R {} (lt_timer l)"
    using lt_reach_inv[OF assms(1)] assms(2) by (auto simp: lt_inv_def lt_pending_def)
  obtain rs t where c: "collect now (lt_timer l) = (rs, t)" by (cases "collect now (lt_timer l)")
  then show ?thesis using collect_ok[OF R c] assms(2) by (auto simp: lt_step_def)
qed

end
