(* ===== verification/Linux_Scheduler.thy ===== *)
theory Linux_Scheduler
  imports Scheduler_Model Linux_Timer
begin

text \<open>
  The scheduler on the timer the daemon gives it: \<open>LinuxTimer\<close> provides the same interface as the timer thread, so
  everything \<open>Scheduler_Model\<close> proves about the scheduler holds for the Linux build too. Two differences are visible
  in the interface. The timer has no thread of its own: \<open>stop\<close> has nothing to join and clears the timers at once, and
  what the scheduler relies on is that the event loop is not inside the timer's handler then, which holds because
  the loop has returned before \<open>ActorSystem::stop\<close> runs. And adding a timer reads the clock twice, once for the expiry
  and, on the way to the descriptor, a little later.
\<close>

section \<open>The interface\<close>

text \<open>The first part of \<open>stop\<close>: withdraw and close the descriptor.\<close>

definition lt_close :: "ltimer \<Rightarrow> ltimer" where
  "lt_close l = l\<lparr>lt_subscribed := False, lt_open := False, lt_armed := None\<rparr>"

lemma lt_stop_parts: "lt_stop now at l = lt_clear now at (lt_close l)"
  by (simp add: lt_stop_def lt_close_def)

definition lt_isAlive :: "int \<Rightarrow> ltimer \<Rightarrow> bool" where
  "lt_isAlive d l = timer_isAlive d (lt_timer l)"

text \<open>
  \<open>late\<close> gives the second clock reading of a call, \<open>subscribes\<close> what the event loop answers to \<open>subscribe\<close>. \<open>clear\<close>
  leaves nothing to arm the descriptor for, so the clock it reads does not matter.
\<close>

definition linux_timer_iface :: "(nat \<Rightarrow> nat) \<Rightarrow> bool \<Rightarrow> ltimer timer_iface" where
  "linux_timer_iface late subscribes =
     \<lparr>ti_start = lt_start subscribes, ti_add = (\<lambda>now dl rep cb pl. lt_add now (late now) dl rep cb pl),
      ti_cancel = lt_cancel, ti_clear = lt_clear 0 0, ti_alive = lt_isAlive, ti_stop = lt_close,
      ti_step = (\<lambda>now. lt_step now (late now)), ti_ended = (\<lambda>l. lt_pc l = LtIdle)\<rparr>"

section \<open>The laws\<close>

definition linux_inv :: "ltimer \<Rightarrow> bool" where
  "linux_inv l \<longleftrightarrow> (\<exists>R. timer_inv R (fst ` set (lt_pending (lt_pc l))) (lt_timer l)) \<and>
     distinct (map fst (lt_pending (lt_pc l))) \<and>
     (case lt_pc l of LtExec todo rs \<Rightarrow> set todo \<subseteq> set rs | _ \<Rightarrow> True)"

definition linux_live :: "ltimer \<Rightarrow> int set" where "linux_live l = dom (armed (lt_timer l))"
definition linux_firing :: "ltimer \<Rightarrow> int set" where "linux_firing l = fst ` set (lt_pending (lt_pc l))"
definition linux_bound :: "ltimer \<Rightarrow> int" where "linux_bound l = tm_next (lt_timer l)"

lemmas linux_defs = linux_inv_def linux_live_def linux_firing_def linux_bound_def

lemma linux_invE:
  assumes "linux_inv l"
  obtains R where "timer_inv R (linux_firing l) (lt_timer l)"
  using assms by (auto simp: linux_inv_def linux_firing_def)

text \<open>Setting the descriptor changes nothing the scheduler can see.\<close>

lemma purge_next: "tm_next (purge_dead t) = tm_next t" if "timer_inv R rdy t"
  using purge_dead_ok[OF that] by simp

lemma linux_schedule:
  assumes "linux_inv l"
  shows "linux_inv (lt_schedule now at l) \<and> linux_live (lt_schedule now at l) = linux_live l \<and>
    linux_firing (lt_schedule now at l) = linux_firing l \<and> linux_bound (lt_schedule now at l) = linux_bound l"
proof -
  obtain R where R: "timer_inv R (fst ` set (lt_pending (lt_pc l))) (lt_timer l)" using assms by (auto simp: linux_inv_def)
  have "tm_next (lt_timer (lt_schedule now at l)) = tm_next (lt_timer l)"
    using purge_next[OF R] by (simp add: lt_schedule_def Let_def)
  then show ?thesis using assms lt_schedule_timer[OF R, of now at] by (auto simp: linux_defs)
qed

lemma linux_step:
  assumes inv: "linux_inv l" and st: "lt_step now at l = (l', r)"
  shows "linux_inv l' \<and> linux_live l' \<subseteq> linux_live l \<and> linux_firing l' \<subseteq> linux_firing l \<union> linux_live l' \<and>
    linux_firing l' \<inter> linux_live l \<subseteq> linux_live l' \<and> linux_bound l' = linux_bound l \<and>
    (\<forall>x. r = Some x \<longrightarrow> fst x \<in> linux_firing l)"
proof (cases "lt_pc l")
  case LtIdle
  then show ?thesis using inv st by (auto simp: lt_step_def linux_defs lt_pending_def split: if_splits)
next
  case LtWoken
  then obtain R where R: "timer_inv R {} (lt_timer l)" using inv by (auto simp: linux_inv_def lt_pending_def)
  obtain rs t where c: "collect now (lt_timer l) = (rs, t)" by (cases "collect now (lt_timer l)")
  from collect_ok[OF R c] obtain R1 where C: "timer_inv R1 (fst ` set rs) t" "distinct (map fst rs)"
    "armed t = armed (lt_timer l)" "tm_next t = tm_next (lt_timer l)" "fst ` set rs = due now {} (armed (lt_timer l))" by auto
  have "l' = l\<lparr>lt_timer := t, lt_pc := LtExec rs rs\<rparr>" "r = None" using LtWoken st c by (simp_all add: lt_step_def)
  moreover have "fst ` set rs \<subseteq> dom (armed t)" unfolding C(3,5) due_def by auto
  ultimately show ?thesis using C(1,2,4) unfolding linux_defs C(3)[symmetric] by (auto simp: lt_pending_def simp del: dom_def)
next
  case (LtExec todo rs)
  then have R: "\<exists>R. timer_inv R (fst ` set rs) (lt_timer l)" and ds: "distinct (map fst rs)" and sub: "set todo \<subseteq> set rs"
    using inv by (simp_all add: linux_inv_def lt_pending_def)
  then obtain R where R: "timer_inv R (fst ` set rs) (lt_timer l)" by blast
  show ?thesis
  proof (cases todo)
    case Nil
    let ?l = "l\<lparr>lt_timer := finish rs (lt_timer l), lt_pc := LtIdle\<rparr>"
    have l': "l' = lt_schedule now at ?l" "r = None" using st LtExec Nil by (auto simp: lt_step_def)
    from finish_ok[OF R ds] obtain R1 where F: "timer_inv R1 {} (finish rs (lt_timer l))"
      "armed (finish rs (lt_timer l)) = fold spec_finish_one (map fst rs) (armed (lt_timer l))"
      "tm_next (finish rs (lt_timer l)) = tm_next (lt_timer l)" by auto
    have i: "linux_inv ?l" using F(1) by (auto simp: linux_inv_def lt_pending_def)
    show ?thesis using linux_schedule[OF i, of now at] fold_spec_finish_dom[of "map fst rs" "armed (lt_timer l)"] F(2,3)
      by (auto simp: l' linux_live_def linux_firing_def linux_bound_def lt_pending_def)
  next
    case (Cons x xs)
    have l': "l' = l\<lparr>lt_pc := LtExec xs rs\<rparr>" "r = Some x" using st LtExec Cons by (auto simp: lt_step_def)
    have "fst x \<in> fst ` set rs" using sub Cons by simp
    then show ?thesis using l' LtExec Cons R ds sub by (auto simp: linux_defs lt_pending_def simp del: image_iff)
  qed
qed

interpretation linux_timer: timer_service "linux_timer_iface late subscribes" linux_inv linux_live linux_firing linux_bound
  for late subscribes
proof (unfold_locales, goal_cases)
  case (1 t d)
  obtain R where R: "timer_inv R (linux_firing t) (lt_timer t)" using 1(1) by (rule linux_invE)
  show ?case using 1(2) timer_invD(9)[OF R, of d] timer_invD(7)[OF R, of d]
    by (auto simp: linux_live_def linux_bound_def armed_Some)
next
  case (2 t)
  then show ?case by (auto simp: linux_timer_iface_def lt_start_def linux_defs)
next
  case (3 t)
  then show ?case by (auto simp: linux_timer_iface_def lt_close_def linux_defs)
next
  case (4 t now dl rep cb pl d t')
  obtain R where R: "timer_inv R (linux_firing t) (lt_timer t)" using 4(1) by (rule linux_invE)
  obtain d' u where u: "timer_add now (dl * 1000000) rep cb pl (lt_timer t) = (d', u)" by fastforce
  from timer_add_ok(1,2,5)[OF R u] have A: "d' = tm_next (lt_timer t)" "\<exists>R. timer_inv R (linux_firing t) u"
    "dom (armed u) = insert d' (dom (armed (lt_timer t)))" "tm_next u = tm_next (lt_timer t) + 1"
    using timer_add_ok(4)[OF R u] by auto
  let ?l = "t\<lparr>lt_timer := u\<rparr>"
  have i: "linux_inv ?l" using 4(1) A(2) by (auto simp: linux_inv_def linux_firing_def)
  have "t' = ?l \<or> t' = lt_schedule now (late now) ?l" "d = d'"
    using 4(2) u by (auto simp: linux_timer_iface_def lt_add_def split: if_splits)
  moreover have "linux_live ?l = insert d' (linux_live t)" "linux_firing ?l = linux_firing t"
    "linux_bound ?l = linux_bound t + 1" "d' = linux_bound t"
    using A(1,3,4) by (simp_all add: linux_live_def linux_firing_def linux_bound_def)
  ultimately show ?case using linux_schedule[OF i, of now "late now"] i by auto
next
  case (5 t d)
  obtain R where R: "timer_inv R (linux_firing t) (lt_timer t)" using 5 by (rule linux_invE)
  show ?case using 5 timer_cancel_ok(1-3)[OF R, of d]
    by (auto simp: linux_timer_iface_def lt_cancel_def linux_defs)
next
  case (6 t d)
  obtain R where R: "timer_inv R (linux_firing t) (lt_timer t)" using 6 by (rule linux_invE)
  show ?case using timer_invD(7)[OF R, of d]
    by (auto simp: linux_timer_iface_def lt_isAlive_def timer_isAlive_def linux_live_def armed_def split: option.splits)
next
  case (7 t)
  let ?l = "t\<lparr>lt_timer := timer_clear (lt_timer t)\<rparr>"
  have idle: "lt_pc t = LtIdle" using 7(2) by (simp add: linux_timer_iface_def)
  obtain R where R: "timer_inv R {} (lt_timer t)" using 7(1) idle by (auto simp: linux_inv_def lt_pending_def)
  have i: "linux_inv ?l" using timer_clear_inv[OF R] idle by (auto simp: linux_inv_def lt_pending_def)
  have "tm_next (timer_clear (lt_timer t)) = tm_next (lt_timer t)" by (simp add: timer_clear_def schedule_next_def)
  then show ?case using linux_schedule[OF i, of 0 0] i idle armed_clear[of "lt_timer t"]
    by (auto simp: linux_timer_iface_def lt_clear_def linux_live_def linux_firing_def linux_bound_def lt_pending_def)
next
  case (8 t now t' r)
  then show ?case using linux_step[of t now "late now" t' r] by (simp add: linux_timer_iface_def)
qed

section \<open>What the scheduler gets\<close>

text \<open>The scheduler of the Linux build delivers what was registered.\<close>

theorem linux_scheduler_delivers_registered:
  assumes "sched_reach (linux_timer_iface late subscribes) clone (lt_new opened) s tr"
  shows "history_ok clone tr"
proof -
  have "linux_inv (lt_new opened)" "linux_live (lt_new opened) = {}" "linux_firing (lt_new opened) = {}"
    using timer_new_inv by (auto simp: linux_defs lt_new_def lt_pending_def timer_new_def armed_def)
  then show ?thesis using linux_timer.sched_reach_inv[OF assms] by blast
qed

section \<open>Property\<close>

text \<open>
  C11: the scheduler delivers what was registered, when it should, on both timers the program has. In every run with the
  timer thread or with the timer of the Linux build - timers added, cancelled and firing in any interleaving, the timer
  stopped and started again - a timer that fires while it is registered has a clone of its own message enqueued at its
  own target, and a callback is ignored only for a timer that has been cancelled or was dropped by a stop: no delivery
  after cancel returns, no delivery of another timer's message, and no firing lost to the clean-up of contexts.
\<close>

theorem scheduler_delivers_registered:
  assumes "(\<exists>s. sched_reach thread_timer_iface clone tl_new s tr) \<or>
    (\<exists>late subscribes opened s. sched_reach (linux_timer_iface late subscribes) clone (lt_new opened) s tr)"
  shows "history_ok clone tr"
  using assms thread_scheduler_delivers_registered linux_scheduler_delivers_registered by blast

theorem scheduler_delivers_registered_witness:
  "history_ok Some [Delivered 1 7 (42 :: nat), Added 1 7 42]"
  by (rule scheduler_delivers_registered) (use demo_run in blast)

end
