(* ===== verification/Message_Memory.thy ===== *)
theory Message_Memory
  imports Message_Model Memory_Objects
begin

text \<open>
  Messages over the memory pool. \<open>Message_Model\<close> takes the allocator as a parameter and a payload type as three facts; here the
  facts are computed from the type's size and alignment as \<open>make\<close> and \<open>opsFor\<close> do (\<open>message.hpp\<close>), pooled payloads are objects of
  the pool of \<open>Memory_Objects\<close>, and any thread may handle any message. The result is the composition of the two: a program that
  passes messages around never frees a block twice, leaks none, and the payloads it holds never share a byte.
\<close>

section \<open>Payload types\<close>

record payload_type =
  pt_id :: message_id
  pt_layout :: ctype
  pt_nothrowMove :: bool
  pt_copyable :: bool

definition kInlineSize :: nat where "kInlineSize = 64"

text \<open>The test of \<open>make\<close>, and the one of \<open>opsFor\<close>.\<close>

definition fits_inline :: "payload_type \<Rightarrow> bool" where
  "fits_inline ty \<longleftrightarrow> ct_size (pt_layout ty) \<le> kInlineSize \<and> ct_align (pt_layout ty) \<le> max_align \<and> pt_nothrowMove ty"

definition isPool :: "payload_type \<Rightarrow> bool" where
  "isPool ty \<longleftrightarrow> ct_size (pt_layout ty) > kInlineSize \<or> ct_align (pt_layout ty) > max_align \<or> \<not> pt_nothrowMove ty"

text \<open>The table of operations: what \<open>destroy\<close> gives back, and which of the two clone functions there is.\<close>

datatype destroy_op = CallDestructor | CallDestructorAndFree ctype

record message_ops =
  mo_destroy :: destroy_op
  mo_cloneConstruct :: bool
  mo_cloneAllocate :: bool

definition opsFor :: "payload_type \<Rightarrow> message_ops" where
  "opsFor ty =
     (if isPool ty
      then \<lparr>mo_destroy = CallDestructorAndFree (pt_layout ty), mo_cloneConstruct = False, mo_cloneAllocate = pt_copyable ty\<rparr>
      else \<lparr>mo_destroy = CallDestructor, mo_cloneConstruct = pt_copyable ty, mo_cloneAllocate = False\<rparr>)"

definition kind_of :: "payload_type \<Rightarrow> mkind" where
  "kind_of ty = \<lparr>mk_id = pt_id ty, mk_pool = isPool ty, mk_copyable = pt_copyable ty\<rparr>"

text \<open>The two tests never disagree, so a message's table always fits the place of its payload.\<close>

lemma place_agrees: "isPool ty \<longleftrightarrow> \<not> fits_inline ty"
  by (auto simp: isPool_def fits_inline_def)

section \<open>Messages\<close>

text \<open>A pooled message with its pointer and, for the proof, the value behind it.\<close>

datatype 'v pmessage = PEmpty | PInline payload_type 'v | PPooled payload_type pool_ptr 'v

text \<open>
  An operation is done, ends with an exception that leaves every variable as it was, or does what it must not: it uses a pointer
  that is no live object of the pool, destroys a payload that was never constructed, or fails an assertion.
\<close>

datatype 'a pooled = PDone 'a | PThrew | PBad

definition pm_entry :: "'v pmessage \<Rightarrow> (pool_ptr \<times> ctype \<times> 'v option) list" where
  "pm_entry msg = (case msg of PPooled ty p v \<Rightarrow> [(p, pt_layout ty, Some v)] | _ \<Rightarrow> [])"

definition pm_destroy :: "nat \<Rightarrow> 'v pmessage \<Rightarrow> 'v Memory_Objects.heap \<Rightarrow> 'v Memory_Objects.heap pooled" where
  "pm_destroy t msg h =
     (case msg of
        PPooled ty p v \<Rightarrow>
          (case mo_destroy (opsFor ty) of
             CallDestructor \<Rightarrow> PBad
           | CallDestructorAndFree lay \<Rightarrow>
               (if (p, lay, Some v) \<notin> set (hp_objs h) then PBad
                else (case typed_deallocate t lay p (hp_pool h) of
                        None \<Rightarrow> PBad
                      | Some pl \<Rightarrow> PDone (h\<lparr>hp_pool := pl, hp_objs := remove1 (p, lay, Some v) (hp_objs h)\<rparr>))))
      | _ \<Rightarrow> PDone h)"

text \<open>
  A payload put into a fresh block. Without memory, or when the payload's constructor throws, an exception leaves; in the second
  case the block is lost.
\<close>

definition pm_place :: "nat \<Rightarrow> payload_type \<Rightarrow> 'v construction \<Rightarrow> 'v Memory_Objects.heap \<Rightarrow> ('v pmessage \<times> 'v Memory_Objects.heap) pooled" where
  "pm_place t ty ctor h =
     (case typed_allocate t (pt_layout ty) ctor (hp_pool h) of
        None \<Rightarrow> PBad
      | Some (Object p v, pl) \<Rightarrow> PDone (PPooled ty p v, h\<lparr>hp_pool := pl, hp_objs := (p, pt_layout ty, Some v) # hp_objs h\<rparr>)
      | Some (CtorThrew p, pl) \<Rightarrow> PThrew
      | Some (AllocFailed, pl) \<Rightarrow> PThrew)"

text \<open>
  \<open>make\<close> marks its message before there is a payload. An exception destroys that half-built message: the pointer of a pooled one
  was never set, and an inline one holds no payload, so what its destructor does is undefined (as in \<open>Message_Model\<close>).
\<close>

definition pm_make :: "nat \<Rightarrow> payload_type \<Rightarrow> 'v construction \<Rightarrow> 'v Memory_Objects.heap \<Rightarrow> ('v pmessage \<times> 'v Memory_Objects.heap) pooled" where
  "pm_make t ty ctor h =
     (if fits_inline ty then (case ctor of Constructed v \<Rightarrow> PDone (PInline ty v, h) | Throws \<Rightarrow> PBad)
      else (case pm_place t ty ctor h of PDone r \<Rightarrow> PDone r | PThrew \<Rightarrow> PBad | PBad \<Rightarrow> PBad))"

text \<open>\<open>clone\<close> marks its result last; \<open>copy\<close> is the payload's copy constructor.\<close>

definition pm_clone :: "('v \<Rightarrow> 'v construction) \<Rightarrow> nat \<Rightarrow> 'v pmessage \<Rightarrow> 'v Memory_Objects.heap \<Rightarrow> ('v pmessage \<times> 'v Memory_Objects.heap) pooled" where
  "pm_clone copy t msg h =
     (case msg of
        PEmpty \<Rightarrow> PDone (PEmpty, h)
      | PInline ty v \<Rightarrow>
          (if mo_cloneConstruct (opsFor ty) then (case copy v of Constructed w \<Rightarrow> PDone (PInline ty w, h) | Throws \<Rightarrow> PThrew)
           else PDone (PEmpty, h))
      | PPooled ty p v \<Rightarrow> (if mo_cloneAllocate (opsFor ty) then pm_place t ty (copy v) h else PDone (PEmpty, h)))"

text \<open>Programs over message variables, as in \<open>Message_Model\<close>; each command is run by a thread of its own choice.\<close>

datatype 'v pm_cmd = PMake nat payload_type "'v construction" | PMove nat nat | PClone nat nat | PReset nat

text \<open>A new value for a variable: what it held is destroyed first.\<close>

definition pm_store :: "nat \<Rightarrow> nat \<Rightarrow> 'v pmessage \<Rightarrow> 'v pmessage list \<times> 'v Memory_Objects.heap \<Rightarrow> ('v pmessage list \<times> 'v Memory_Objects.heap) pooled" where
  "pm_store t i msg s =
     (case s of (vs, h) \<Rightarrow> (case pm_destroy t (vs ! i) h of PDone h' \<Rightarrow> PDone (vs[i := msg], h') | PThrew \<Rightarrow> PThrew | PBad \<Rightarrow> PBad))"

definition pm_exec :: "('v \<Rightarrow> 'v construction) \<Rightarrow> nat \<Rightarrow> 'v pm_cmd \<Rightarrow> 'v pmessage list \<times> 'v Memory_Objects.heap \<Rightarrow> ('v pmessage list \<times> 'v Memory_Objects.heap) pooled" where
  "pm_exec copy t c s =
     (case s of (vs, h) \<Rightarrow>
       (case c of
          PMake i ty ctor \<Rightarrow> (case pm_make t ty ctor h of PDone (msg, h) \<Rightarrow> pm_store t i msg (vs, h) | PThrew \<Rightarrow> PThrew | PBad \<Rightarrow> PBad)
        | PMove i j \<Rightarrow> (if i = j then PDone s
             else (case pm_store t i (vs ! j) (vs, h) of PDone (vs', h) \<Rightarrow> PDone (vs'[j := PEmpty], h) | PThrew \<Rightarrow> PThrew | PBad \<Rightarrow> PBad))
        | PClone i j \<Rightarrow> (case pm_clone copy t (vs ! j) h of PDone (msg, h) \<Rightarrow> pm_store t i msg (vs, h) | PThrew \<Rightarrow> PThrew | PBad \<Rightarrow> PBad)
        | PReset i \<Rightarrow> pm_store t i PEmpty s))"

fun pm_run :: "('v \<Rightarrow> 'v construction) \<Rightarrow> (nat \<times> 'v pm_cmd) list \<Rightarrow> 'v pmessage list \<times> 'v Memory_Objects.heap \<Rightarrow> ('v pmessage list \<times> 'v Memory_Objects.heap) pooled" where
  "pm_run copy [] s = PDone s"
| "pm_run copy ((t, c) # cs) s = (case pm_exec copy t c s of PDone s' \<Rightarrow> pm_run copy cs s' | PThrew \<Rightarrow> PThrew | PBad \<Rightarrow> PBad)"

definition pm_cmd_ok :: "nat \<Rightarrow> nat \<Rightarrow> nat \<times> 'v pm_cmd \<Rightarrow> bool" where
  "pm_cmd_ok threads len tc \<longleftrightarrow> fst tc < threads \<and> (case snd tc of
      PMake i ty _ \<Rightarrow> i < len \<and> ctype_ok (pt_layout ty) | PMove i j \<Rightarrow> i < len \<and> j < len | PClone i j \<Rightarrow> i < len \<and> j < len | PReset i \<Rightarrow> i < len)"

text \<open>
  What \<open>make\<close> needs at the moment it is called: a constructor that does not throw, and for a pooled payload a block. \<open>pm_fed\<close> asks it
  of every \<open>make\<close> of a program's run.
\<close>

definition make_fed :: "nat \<Rightarrow> 'v pm_cmd \<Rightarrow> 'v Memory_Objects.heap \<Rightarrow> bool" where
  "make_fed t c h \<longleftrightarrow> (case c of
      PMake i ty ctor \<Rightarrow> ctor \<noteq> Throws \<and> (fits_inline ty \<or>
        (case typed_allocate t (pt_layout ty) ctor (hp_pool h) of Some (AllocFailed, _) \<Rightarrow> False | _ \<Rightarrow> True))
    | _ \<Rightarrow> True)"

fun pm_fed :: "('v \<Rightarrow> 'v construction) \<Rightarrow> (nat \<times> 'v pm_cmd) list \<Rightarrow> 'v pmessage list \<times> 'v Memory_Objects.heap \<Rightarrow> bool" where
  "pm_fed copy [] s \<longleftrightarrow> True"
| "pm_fed copy ((t, c) # cs) s \<longleftrightarrow> make_fed t c (snd s) \<and> (case pm_exec copy t c s of PDone s' \<Rightarrow> pm_fed copy cs s' | _ \<Rightarrow> True)"

section \<open>Ownership\<close>

text \<open>The objects the variables own are exactly the objects of the pool, and every variable's payload is where its type says.\<close>

definition pm_ok :: "'v pmessage \<Rightarrow> bool" where
  "pm_ok msg \<longleftrightarrow> (case msg of PEmpty \<Rightarrow> True | PInline ty _ \<Rightarrow> fits_inline ty | PPooled ty _ _ \<Rightarrow> isPool ty \<and> ctype_ok (pt_layout ty))"

definition pm_entries :: "'v pmessage list \<Rightarrow> (pool_ptr \<times> ctype \<times> 'v option) multiset" where
  "pm_entries vs = mset (concat (map pm_entry vs))"

definition pm_inv :: "nat \<Rightarrow> nat \<Rightarrow> (pool_ptr \<times> ctype \<times> 'v option) multiset \<Rightarrow> 'v pmessage list \<times> 'v Memory_Objects.heap \<Rightarrow> bool" where
  "pm_inv m n spare s \<longleftrightarrow> (case s of (vs, h) \<Rightarrow> heap_inv m n h \<and> (\<forall>msg \<in> set vs. pm_ok msg) \<and> pm_entries vs + spare = mset (hp_objs h))"

lemma entries_update:
  assumes "i < length vs"
  shows "pm_entries (vs[i := msg]) + mset (pm_entry (vs ! i)) = pm_entries vs + mset (pm_entry msg)"
  using assms
proof (induction vs arbitrary: i)
  case (Cons x vs)
  then show ?case
  proof (cases i)
    case (Suc k)
    with Cons show ?thesis by (simp add: pm_entries_def union_assoc)
  qed (simp add: pm_entries_def)
qed simp

lemma entry_in: "i < length vs \<Longrightarrow> e \<in> set (pm_entry (vs ! i)) \<Longrightarrow> e \<in># pm_entries vs"
  by (auto simp: pm_entries_def)

lemma destroy_ok:
  fixes vs :: "'v pmessage list"
  assumes inv: "pm_inv m n spare (vs, h)" and i: "i < length vs" and t: "t < n"
  shows "\<exists>h'. pm_destroy t (vs ! i) h = PDone h' \<and> pm_inv m n spare (vs[i := PEmpty], h')"
proof -
  have inv': "heap_inv m n h" "\<forall>msg \<in> set vs. pm_ok msg" "pm_entries vs + spare = mset (hp_objs h)"
    using inv by (simp_all add: pm_inv_def)
  have ok: "\<forall>msg \<in> set (vs[i := PEmpty]). pm_ok msg"
    using inv'(2) set_update_subset_insert[of vs i PEmpty] by (auto simp: pm_ok_def)
  have up: "pm_entries (vs[i := PEmpty]) + mset (pm_entry (vs ! i)) = pm_entries vs"
    using entries_update[OF i, of PEmpty] by (simp add: pm_entry_def)
  show ?thesis
  proof (cases "\<exists>ty p v. vs ! i = PPooled ty p v")
    case True
    then obtain ty p v where v: "vs ! i = PPooled ty p v" by blast
    let ?e = "(p, pt_layout ty, Some v)"
    have pool: "isPool ty" using inv'(2) nth_mem[OF i] by (auto simp: v pm_ok_def)
    have "?e \<in># pm_entries vs" by (rule entry_in[OF i]) (simp add: v pm_entry_def)
    then have mem: "?e \<in> set (hp_objs h)" by (metis inv'(3) union_iff set_mset_mset)
    from drop_ok[OF inv'(1) t mem] obtain pl where pl: "typed_deallocate t (pt_layout ty) p (hp_pool h) = Some pl"
      "heap_inv m n (h\<lparr>hp_pool := pl, hp_objs := remove1 ?e (hp_objs h)\<rparr>)" by blast
    have "pm_entries (vs[i := PEmpty]) + spare + {#?e#} = mset (hp_objs h)"
      unfolding inv'(3)[symmetric] up[symmetric] by (simp add: v pm_entry_def)
    then have "pm_entries (vs[i := PEmpty]) + spare = mset (remove1 ?e (hp_objs h))"
      by (metis add_diff_cancel_right' mset_remove1)
    then show ?thesis
      using pl mem ok by (simp add: v pm_destroy_def opsFor_def pool pm_inv_def)
  next
    case False
    then have d: "pm_destroy t (vs ! i) h = PDone h" and e: "pm_entry (vs ! i) = []"
      by (cases "vs ! i"; simp add: pm_destroy_def pm_entry_def)+
    then show ?thesis using inv' ok up by (simp add: pm_inv_def)
  qed
qed

lemma store_ok:
  fixes vs :: "'v pmessage list"
  assumes "pm_inv m n (mset (pm_entry msg)) (vs, h)" and "i < length vs" and "t < n" and "pm_ok msg"
  shows "\<exists>h'. pm_store t i msg (vs, h) = PDone (vs[i := msg], h') \<and> pm_inv m n {#} (vs[i := msg], h')"
proof -
  from destroy_ok[OF assms(1-3)] obtain h' where h': "pm_destroy t (vs ! i) h = PDone h'"
    "pm_inv m n (mset (pm_entry msg)) (vs[i := PEmpty], h')" by blast
  have "pm_entries (vs[i := msg]) = pm_entries (vs[i := PEmpty]) + mset (pm_entry msg)"
    using entries_update[of i "vs[i := PEmpty]" msg] assms(2) by (simp add: pm_entry_def)
  moreover have "\<forall>x \<in> set (vs[i := msg]). pm_ok x"
  proof
    fix x assume "x \<in> set (vs[i := msg])"
    then obtain k where "k < length vs" "x = vs[i := msg] ! k" by (auto simp: in_set_conv_nth)
    then show "pm_ok x" using assms(1,4) by (cases "k = i") (auto simp: pm_inv_def)
  qed
  ultimately show ?thesis using h' by (simp add: pm_store_def pm_inv_def)
qed

lemma place_ok:
  fixes vs :: "'v pmessage list"
  assumes inv: "pm_inv m n {#} (vs, h)" and t: "t < n" and ty: "isPool ty" "ctype_ok (pt_layout ty)"
  shows "(pm_place t ty ctor h = PThrew \<and> (ctor = Throws \<or>
      (\<exists>pl. typed_allocate t (pt_layout ty) ctor (hp_pool h) = Some (AllocFailed, pl)))) \<or> (\<exists>msg h'. pm_place t ty ctor h = PDone (msg, h') \<and> pm_ok msg \<and> pm_inv m n (mset (pm_entry msg)) (vs, h'))"
proof -
  have "heap_inv m n h" using inv by (simp add: pm_inv_def)
  from make_ok[OF this t ty(2), of ctor] obtain res pl where r:
    "typed_allocate t (pt_layout ty) ctor (hp_pool h) = Some (res, pl)"
    "heap_inv m n (h\<lparr>hp_pool := pl, hp_objs := made res (pt_layout ty) @ hp_objs h\<rparr>)" by blast
  show ?thesis
  proof (cases res)
    case (Object p v')
    then show ?thesis
      using r inv ty by (auto simp: pm_place_def pm_ok_def pm_inv_def pm_entry_def)
  next
    case AllocFailed
    then show ?thesis using r by (simp add: pm_place_def)
  next
    case (CtorThrew p)
    then have "ctor = Throws" using r(1)
      by (cases ctor) (auto simp: typed_allocate_def split: option.splits prod.splits pool_ptr.splits)
    then show ?thesis using r CtorThrew by (simp add: pm_place_def)
  qed
qed

lemma exec_ok:
  fixes vs :: "'v pmessage list"
  assumes inv: "pm_inv m n {#} (vs, h)" and c: "pm_cmd_ok n (length vs) (t, c)" and fed: "make_fed t c h"
  shows "pm_exec copy t c (vs, h) = PThrew
    \<or> (\<exists>vs' h'. pm_exec copy t c (vs, h) = PDone (vs', h') \<and> length vs' = length vs \<and> pm_inv m n {#} (vs', h'))"
proof (cases c)
  case (PMake i ty ctor)
  obtain v where v: "ctor = Constructed v" using fed by (cases ctor) (simp_all add: make_fed_def PMake)
  have p: "t < n" "i < length vs" "ctype_ok (pt_layout ty)" using c by (simp_all add: pm_cmd_ok_def PMake)
  show ?thesis
  proof (cases "fits_inline ty")
    case True
    have "pm_inv m n (mset (pm_entry (PInline ty v))) (vs, h)" using inv by (simp add: pm_entry_def)
    from store_ok[OF this p(2,1)] True show ?thesis by (auto simp: pm_exec_def PMake pm_make_def pm_ok_def v)
  next
    case False
    then have "isPool ty" by (simp add: place_agrees)
    from place_ok[OF inv p(1) this p(3), of ctor] show ?thesis
    proof (elim disjE exE conjE)
      fix msg h' assume "pm_place t ty ctor h = PDone (msg, h')" "pm_ok msg" "pm_inv m n (mset (pm_entry msg)) (vs, h')"
      with store_ok[OF this(3) p(2,1) this(2)] False show ?thesis by (auto simp: pm_exec_def PMake pm_make_def)
    qed (use fed in \<open>auto simp: make_fed_def PMake False v\<close>)
  qed
next
  case (PMove i j)
  have p: "t < n" "i < length vs" "j < length vs" using c by (simp_all add: pm_cmd_ok_def PMove)
  show ?thesis
  proof (cases "i = j")
    case True
    then show ?thesis using inv by (simp add: pm_exec_def PMove)
  next
    case False
    let ?vs = "vs[j := PEmpty]"
    have ok: "\<forall>msg \<in> set vs. pm_ok msg" using inv by (simp add: pm_inv_def)
    have "pm_entries ?vs + mset (pm_entry (vs ! j)) = pm_entries vs"
      using entries_update[OF p(3), of PEmpty] by (simp add: pm_entry_def)
    moreover have "\<forall>msg \<in> set ?vs. pm_ok msg"
      using ok set_update_subset_insert[of vs j PEmpty] by (auto simp: pm_ok_def)
    ultimately have "pm_inv m n (mset (pm_entry (vs ! j))) (?vs, h)" using inv by (simp add: pm_inv_def)
    from store_ok[OF this _ p(1)] p ok obtain h' where h': "pm_store t i (vs ! j) (?vs, h) = PDone (?vs[i := vs ! j], h')"
      "pm_inv m n {#} (?vs[i := vs ! j], h')" by force
    have "pm_store t i (vs ! j) (vs, h) = PDone (vs[i := vs ! j], h')"
      using h'(1) False by (auto simp: pm_store_def split: pooled.splits)
    moreover have "vs[i := vs ! j, j := PEmpty] = ?vs[i := vs ! j]" using False by (simp add: list_update_swap)
    ultimately show ?thesis using h'(2) False by (simp add: pm_exec_def PMove)
  qed
next
  case (PClone i j)
  have p: "t < n" "i < length vs" "j < length vs" using c by (simp_all add: pm_cmd_ok_def PClone)
  have ok: "pm_ok (vs ! j)" using inv p(3) by (simp add: pm_inv_def)
  have "pm_clone copy t (vs ! j) h = PThrew
      \<or> (\<exists>msg h'. pm_clone copy t (vs ! j) h = PDone (msg, h') \<and> pm_ok msg \<and> pm_inv m n (mset (pm_entry msg)) (vs, h'))"
  proof (cases "vs ! j")
    case (PPooled ty q v)
    then show ?thesis
      using place_ok[OF inv p(1), of ty "copy v"] ok inv by (auto simp: pm_clone_def pm_ok_def pm_entry_def)
  qed (use ok inv in \<open>auto simp: pm_clone_def pm_ok_def pm_entry_def split: construction.split\<close>)
  then show ?thesis
  proof (elim disjE exE conjE)
    fix msg h' assume "pm_clone copy t (vs ! j) h = PDone (msg, h')" "pm_ok msg" "pm_inv m n (mset (pm_entry msg)) (vs, h')"
    with store_ok[OF this(3) p(2,1) this(2)] show ?thesis by (auto simp: pm_exec_def PClone)
  qed (simp add: pm_exec_def PClone)
next
  case (PReset i)
  have p: "t < n" "i < length vs" using c by (simp_all add: pm_cmd_ok_def PReset)
  have "pm_inv m n (mset (pm_entry PEmpty)) (vs, h)" using inv by (simp add: pm_entry_def)
  from store_ok[OF this p(2,1)] show ?thesis by (auto simp: pm_exec_def PReset pm_ok_def)
qed

lemma run_owned:
  fixes vs :: "'v pmessage list"
  assumes "pm_inv m n {#} (vs, h)" and "\<forall>tc \<in> set cs. pm_cmd_ok n (length vs) tc" and "pm_fed copy cs (vs, h)"
  shows "pm_run copy cs (vs, h) = PThrew
    \<or> (\<exists>vs' h'. pm_run copy cs (vs, h) = PDone (vs', h') \<and> length vs' = length vs \<and> pm_inv m n {#} (vs', h'))"
  using assms
proof (induction cs arbitrary: vs h)
  case (Cons tc cs)
  obtain t c where tc: "tc = (t, c)" by (cases tc)
  have "pm_cmd_ok n (length vs) (t, c)" "make_fed t c h" using Cons.prems(2,3) by (simp_all add: tc)
  from exec_ok[OF Cons.prems(1) this, of copy] show ?case
  proof (elim disjE exE conjE)
    fix vs' h' assume e: "pm_exec copy t c (vs, h) = PDone (vs', h')" "length vs' = length vs" "pm_inv m n {#} (vs', h')"
    show ?thesis using Cons.IH[OF e(3)] Cons.prems(2,3) e(1,2) by (simp add: tc)
  qed (simp add: tc)
qed simp

text \<open>The bytes of a variable's payload in the pool.\<close>

definition payload_bytes :: "'v pmessage \<Rightarrow> addr set" where
  "payload_bytes msg = (case msg of PPooled ty p _ \<Rightarrow> ptr_bytes p (pt_layout ty) | _ \<Rightarrow> {})"

lemma pm_entry_simps [simp]:
  "pm_entry PEmpty = []" "pm_entry (PInline ty v) = []" "pm_entry (PPooled ty p v) = [(p, pt_layout ty, Some v)]"
  by (simp_all add: pm_entry_def)

lemma apart_payloads:
  assumes "apart (concat (map pm_entry vs))" and "i < j" and "j < length vs"
  shows "payload_bytes (vs ! i) \<inter> payload_bytes (vs ! j) = {}"
  using assms
proof (induction vs arbitrary: i j)
  case (Cons x vs)
  obtain j' where j: "j = Suc j'" using Cons.prems(2) by (cases j) auto
  have tail: "apart (concat (map pm_entry vs))"
    using Cons.prems(1) by (cases x) auto
  show ?case
  proof (cases i)
    case (Suc i')
    then show ?thesis using Cons.IH[OF tail, of i' j'] Cons.prems(2,3) by (simp add: j)
  next
    case 0
    show ?thesis
    proof (cases x)
      case (PPooled ty p v)
      have "ptr_bytes p (pt_layout ty) \<inter> ptr_bytes q ty' = {}" if "(q, ty', v') \<in> set (concat (map pm_entry vs))" for q ty' v'
        using Cons.prems(1) that by (fastforce simp: PPooled)
      moreover have "vs ! j' \<in> set vs" using Cons.prems(3) by (simp add: j)
      ultimately show ?thesis
        by (cases "vs ! j'") (force simp: 0 j PPooled payload_bytes_def)+
    qed (simp_all add: 0 j payload_bytes_def)
  qed
qed simp

lemma owned_apart:
  assumes "pm_inv m n {#} (vs, h)"
  shows "apart (concat (map pm_entry vs))"
proof -
  have h: "heap_inv m n h" "mset (concat (map pm_entry vs)) = mset (hp_objs h)" using assms by (simp_all add: pm_inv_def pm_entries_def)
  have P: "pool_inv m n (class_held (hp_objs h)) (hp_pool h)" "\<forall>e \<in> set (hp_objs h). entry_ok (hp_pool h) e"
    "distinct (concat (map block_of (hp_objs h)))" using h(1) by (simp_all add: heap_inv_def)
  have "set (concat (map pm_entry vs)) = set (hp_objs h)" using h(2) by (metis set_mset_mset)
  moreover have "mset (concat (map block_of (concat (map pm_entry vs)))) = mset (concat (map block_of (hp_objs h)))"
    using h(2) by (simp only: mset_concat sum_mset_sum_list[symmetric] mset_map image_mset.compositionality)
  then have "distinct (concat (map block_of (concat (map pm_entry vs))))"
    using P(3) mset_eq_imp_distinct_iff by blast
  ultimately show ?thesis using heap_apart[OF P(1,2)] by blast
qed


text \<open>A program that makes a pooled message in the fresh pool of \<open>demo_heap\<close> is fed.\<close>

abbreviation "demo_payload \<equiv> \<lparr>pt_id = CmdResponse, pt_layout = demo_large, pt_nothrowMove = True, pt_copyable = True\<rparr>"

lemma make_fed_other [simp]: "make_fed t (PMove i j) h" "make_fed t (PClone i j) h" "make_fed t (PReset i) h"
  by (simp_all add: make_fed_def)

lemma demo_make_fed: "make_fed 0 (PMake i demo_payload (Constructed v)) demo_heap"
proof -
  have c: "4 < num_size_classes" by (simp add: num_size_classes_def)
  show ?thesis
    using fresh_object[OF demo_heap_reach, of demo_large 4 v] demo_heap_fresh[OF c] c demo_classes
    by (auto simp: make_fed_def ctype_ok_def max_align_def)
qed


text \<open>What \<open>make\<close> does when it is not fed.\<close>

lemma starved_make_is_undefined:
  assumes "\<not> make_fed t c h"
  shows "pm_exec copy t c (vs, h) = PBad"
  using assms by (cases c)
    (auto simp: make_fed_def pm_exec_def pm_make_def pm_place_def typed_allocate_def split: construction.splits option.splits prod.splits
      make_result.splits pool_ptr.splits)

end
