(* ===== verification/Monitor_Flow.thy ===== *)
theory Monitor_Flow
  imports Ipc_Server Monitor_Data
begin

text \<open>
  The publishers and the monitor (\<open>src/src/service/device_manager\<close>, \<open>system_manager\<close>, \<open>monitor\<close>, \<open>tick\<close>): hardware and
  system readings are taken only while somebody wants them. Demand travels from the sockets of the bridge to the
  monitor and from there to the two managers, as messages between actors.
\<close>

section \<open>Messages\<close>

datatype 'f svc_msg =
    MonitorNewConnection int | MonitorClientDisconnected int | MonitorSubscribe string | MonitorUnsubscribe string
  | MonitorSnapshotUpdate "'f monitor_snapshot"
  | SysDataTick | SysDataSubscribe string | SysDataUnsubscribe string | SysDataUpdate "'f sys_res" | SignalNotify int
  | PmuDataTick | PmuDataSubscribe string | PmuDataUnsubscribe string | PmuDataUpdate "'f pmu_data"

section \<open>Device manager\<close>

record 'f device_manager =
  dm_state :: actor_state
  dm_hasPmu :: bool
  dm_latest :: "'f pmu_data"
  dm_subscribers :: "string list"
  dm_timers :: nat

definition pmu_zero :: "'f \<Rightarrow> 'f pmu_data" where
  "pmu_zero z = \<lparr>pd_clockArmHz = 0, pd_clockCoreHz = 0, pd_clockV3dHz = 0, pd_memArmMb = 0, pd_memGpuMb = 0,
     pd_throttled = 0, pd_tempCelsius = z, pd_voltCore = z, pd_currentVddCoreA = z\<rparr>"

definition dm_close :: "'f \<Rightarrow> 'f device_manager \<Rightarrow> result_code \<times> 'f device_manager" where
  "dm_close z s = (if dm_state s = Closed then (Ok, s) else (Ok, s\<lparr>dm_latest := pmu_zero z, dm_state := Closed\<rparr>))"

definition dm_open :: "'f \<Rightarrow> 'f device_manager \<Rightarrow> result_code \<times> 'f device_manager" where
  "dm_open z s =
     (let (_, s) = (if dm_state s \<noteq> Closed then dm_close z s else (Ok, s)) in
      (Ok, s\<lparr>dm_timers := dm_timers s + 1, dm_state := Opened\<rparr>))"

text \<open>\<open>e\<close> is what \<open>readPmuData\<close> answers and leaves in its argument.\<close>

definition dm_pump :: "result_code \<times> 'f pmu_data \<Rightarrow> 'f device_manager \<Rightarrow> 'f device_manager \<times> 'f svc_msg outgoing" where
  "dm_pump e s =
     (if \<not> dm_hasPmu s then (s, [])
      else let s = s\<lparr>dm_latest := snd e\<rparr> in
        if fst e \<noteq> Ok then (s, []) else (s, map (\<lambda>sub. (sub, PmuDataUpdate (dm_latest s))) (dm_subscribers s)))"

definition dm_handle ::
  "'f \<Rightarrow> result_code \<times> 'f pmu_data \<Rightarrow> 'f svc_msg \<Rightarrow> 'f device_manager \<Rightarrow> 'f device_manager \<times> 'f svc_msg outgoing" where
  "dm_handle z e m s =
     (if \<not> accepts (dm_state s) then (s, [])
      else case m of
             PmuDataSubscribe n \<Rightarrow> dm_pump e (s\<lparr>dm_subscribers := List.insert n (dm_subscribers s)\<rparr>)
           | PmuDataUnsubscribe n \<Rightarrow>
               (let s = s\<lparr>dm_subscribers := removeAll n (dm_subscribers s)\<rparr> in
                (if dm_subscribers s = [] then s\<lparr>dm_latest := pmu_zero z\<rparr> else s, []))
           | PmuDataTick \<Rightarrow> if dm_subscribers s \<noteq> [] then dm_pump e s else (s, [])
           | _ \<Rightarrow> (s, []))"

section \<open>System manager\<close>

record 'f system_manager =
  sm_state :: actor_state
  sm_hasSys :: bool
  sm_latest :: "'f sys_res"
  sm_subscribers :: "string list"
  sm_timers :: nat
  sm_signalPipeFd :: int
  sm_startTime :: int

definition sys_zero :: "'f \<Rightarrow> 'f sys_res" where
  "sys_zero z = \<lparr>sr_memoryRssKb = 0, sr_memoryTotalKb = 0, sr_cpuPercent = z, sr_uptimeMs = 0, sr_threadCount = 0,
     sr_vmPeakKb = 0, sr_vmHwmKb = 0, sr_vmSwapKb = 0, sr_loadAvg1 = z, sr_loadAvg5 = z, sr_loadAvg15 = z,
     sr_sysMemTotalKb = 0, sr_sysMemAvailKb = 0\<rparr>"

text \<open>The event loop, when there is one, is told of the signal pipe.\<close>

definition sm_close :: "'f system_manager \<Rightarrow> 'h evloop option \<Rightarrow> result_code \<times> 'f system_manager \<times> 'h evloop option" where
  "sm_close s lp =
     (if sm_state s = Closed then (Ok, s, lp)
      else (Ok, s\<lparr>sm_state := Closed\<rparr>,
        (if 0 \<le> sm_signalPipeFd s then map_option (\<lambda>l. snd (el_unsubscribe False (sm_signalPipeFd s) l)) lp else lp)))"

definition sm_open ::
  "int \<Rightarrow> int \<Rightarrow> 'h \<Rightarrow> 'f system_manager \<Rightarrow> 'h evloop option \<Rightarrow> result_code \<times> 'f system_manager \<times> 'h evloop option" where
  "sm_open pipeFd now h s lp =
     (let (_, s, lp) = (if sm_state s \<noteq> Closed then sm_close s lp else (Ok, s, lp));
          s = s\<lparr>sm_signalPipeFd := pipeFd\<rparr>;
          lp = (if 0 \<le> pipeFd then map_option (\<lambda>l. snd (el_subscribe False pipeFd h l)) lp else lp)
      in (Ok, s\<lparr>sm_startTime := now, sm_timers := sm_timers s + 1, sm_state := Opened\<rparr>, lp))"

definition sm_pump ::
  "result_code \<times> 'f sys_res \<Rightarrow> int \<Rightarrow> 'f system_manager \<Rightarrow> 'f system_manager \<times> 'f svc_msg outgoing" where
  "sm_pump e now s =
     (if \<not> sm_hasSys s then (s, [])
      else let s = s\<lparr>sm_latest := snd e\<rparr> in
        if fst e \<noteq> Ok then (s, [])
        else let s = s\<lparr>sm_latest := (sm_latest s)\<lparr>sr_uptimeMs := word_of_int (now - sm_startTime s)\<rparr>\<rparr> in
          (s, map (\<lambda>sub. (sub, SysDataUpdate (sm_latest s))) (sm_subscribers s)))"

text \<open>The last component lists the signal numbers given to \<open>SignalHandler::dispatch\<close>.\<close>

definition sm_handle ::
  "'f \<Rightarrow> result_code \<times> 'f sys_res \<Rightarrow> int \<Rightarrow> 'f svc_msg \<Rightarrow> 'f system_manager
   \<Rightarrow> 'f system_manager \<times> 'f svc_msg outgoing \<times> int list" where
  "sm_handle z e now m s =
     (if \<not> accepts (sm_state s) then (s, [], [])
      else case m of
             SignalNotify sig \<Rightarrow> (s, [], [sig])
           | SysDataTick \<Rightarrow> (let (s, out) = (if sm_subscribers s \<noteq> [] then sm_pump e now s else (s, [])) in (s, out, []))
           | SysDataSubscribe n \<Rightarrow>
               (let (s, out) = sm_pump e now (s\<lparr>sm_subscribers := List.insert n (sm_subscribers s)\<rparr>) in (s, out, []))
           | SysDataUnsubscribe n \<Rightarrow>
               (let s = s\<lparr>sm_subscribers := removeAll n (sm_subscribers s)\<rparr> in
                (if sm_subscribers s = [] then s\<lparr>sm_latest := sys_zero z\<rparr> else s, [], []))
           | _ \<Rightarrow> (s, [], []))"

section \<open>Monitor\<close>

record 'f monitor =
  mn_state :: actor_state
  mn_pmuCache :: "'f pmu_data"
  mn_sysCache :: "'f sys_res"
  mn_dataSubscribed :: bool
  mn_subscribers :: "string list"

definition mn_open :: "'f \<Rightarrow> 'f monitor \<Rightarrow> result_code \<times> 'f monitor" where
  "mn_open z s =
     (let s = (if mn_state s \<noteq> Closed
               then s\<lparr>mn_subscribers := [], mn_dataSubscribed := False, mn_sysCache := sys_zero z, mn_pmuCache := pmu_zero z,
                      mn_state := Closed\<rparr>
               else s)
      in (Ok, s\<lparr>mn_state := Opened\<rparr>))"

definition mn_close :: "'f \<Rightarrow> 'f monitor \<Rightarrow> result_code \<times> 'f monitor" where
  "mn_close z s =
     (if mn_state s = Closed then (Ok, s)
      else (Ok, s\<lparr>mn_subscribers := [], mn_dataSubscribed := False, mn_sysCache := sys_zero z, mn_pmuCache := pmu_zero z,
                  mn_state := Closed\<rparr>))"

definition subscribeToData :: "'f monitor \<Rightarrow> 'f monitor \<times> 'f svc_msg outgoing" where
  "subscribeToData s =
     (s\<lparr>mn_dataSubscribed := True\<rparr>,
      [(''system_manager'', SysDataSubscribe ''monitor''), (''device_manager'', PmuDataSubscribe ''monitor'')])"

definition unsubscribeFromData :: "'f \<Rightarrow> 'f monitor \<Rightarrow> 'f monitor \<times> 'f svc_msg outgoing" where
  "unsubscribeFromData z s =
     (s\<lparr>mn_dataSubscribed := False, mn_sysCache := sys_zero z, mn_pmuCache := pmu_zero z\<rparr>,
      [(''system_manager'', SysDataUnsubscribe ''monitor''), (''device_manager'', PmuDataUnsubscribe ''monitor'')])"

text \<open>What the registry says of an actor behind a handle that still resolves; dead handles are skipped.\<close>

definition collectActorInfo :: "actor_info option list \<Rightarrow> actor_info list" where
  "collectActorInfo hs = List.map_filter (\<lambda>h. h) hs"

definition tryPublish :: "u64 \<Rightarrow> actor_info option list \<Rightarrow> 'f monitor \<Rightarrow> 'f svc_msg outgoing" where
  "tryPublish now hs s =
     (if mn_subscribers s = [] then []
      else let snap = \<lparr>ss_timestampMs = now, ss_clientCount = 0, ss_actors = collectActorInfo hs,
                       ss_resources = mn_sysCache s, ss_pmu = mn_pmuCache s\<rparr>
           in map (\<lambda>sub. (sub, MonitorSnapshotUpdate snap)) (mn_subscribers s))"

definition mn_handle ::
  "'f \<Rightarrow> u64 \<Rightarrow> actor_info option list \<Rightarrow> 'f svc_msg \<Rightarrow> 'f monitor \<Rightarrow> 'f monitor \<times> 'f svc_msg outgoing" where
  "mn_handle z now hs m s =
     (if \<not> accepts (mn_state s) then (s, [])
      else case m of
             MonitorSubscribe n \<Rightarrow>
               (let s = s\<lparr>mn_subscribers := List.insert n (mn_subscribers s)\<rparr> in
                if \<not> mn_dataSubscribed s then subscribeToData s else (s, []))
           | MonitorUnsubscribe n \<Rightarrow>
               (let s = s\<lparr>mn_subscribers := removeAll n (mn_subscribers s)\<rparr> in
                if mn_subscribers s = [] \<and> mn_dataSubscribed s then unsubscribeFromData z s else (s, []))
           | SysDataUpdate d \<Rightarrow> (let s = s\<lparr>mn_sysCache := d\<rparr> in (s, tryPublish now hs s))
           | PmuDataUpdate d \<Rightarrow> (let s = s\<lparr>mn_pmuCache := d\<rparr> in (s, tryPublish now hs s))
           | _ \<Rightarrow> (s, []))"

section \<open>Bridge\<close>

record bridge =
  br_state :: actor_state
  br_server :: uds_server
  br_socketPath :: string
  br_connections :: "int list"

record 'f bridge_world =
  bw_loop :: "io_handler evloop"
  bw_mailbox :: "'f svc_msg list"
  bw_wire :: "(int \<times> string) list"

definition br_unsubscribeAll :: "bridge \<Rightarrow> 'f bridge_world \<Rightarrow> bridge \<times> 'f bridge_world" where
  "br_unsubscribeAll a w =
     (let l = foldl (\<lambda>l conn. unsubscribe_and_close conn l) (bw_loop w) (br_connections a);
          l = (if 0 \<le> us_fd (br_server a) then snd (el_unsubscribe False (us_fd (br_server a)) l) else l)
      in (a\<lparr>br_connections := []\<rparr>, w\<lparr>bw_loop := l\<rparr>))"

definition br_close :: "bridge \<Rightarrow> 'f bridge_world \<Rightarrow> result_code \<times> bridge \<times> 'f bridge_world" where
  "br_close a w =
     (if br_state a = Closed then (Ok, a, w)
      else let (a, w) = br_unsubscribeAll (a\<lparr>br_state := Closing\<rparr>) w;
               (sv, l) = loop_shutdown (br_server a) (bw_loop w)
           in (Ok, a\<lparr>br_server := sv, br_state := Closed\<rparr>, w\<lparr>bw_loop := l\<rparr>))"

definition br_open :: "start_env \<Rightarrow> bridge \<Rightarrow> 'f bridge_world \<Rightarrow> result_code \<times> bridge \<times> 'f bridge_world" where
  "br_open e a w =
     (let (_, a, w) = (if br_state a \<noteq> Closed then br_close a w else (Ok, a, w));
          a = a\<lparr>br_state := Opening\<rparr>;
          (r, sv, l) = loop_start e (br_socketPath a) (br_server a) (bw_loop w);
          a = a\<lparr>br_server := sv\<rparr>; w = w\<lparr>bw_loop := l\<rparr>
      in if r \<noteq> Ok then (Fail, a\<lparr>br_state := Closed\<rparr>, w)
         else (Ok, a\<lparr>br_state := Opened\<rparr>, w\<lparr>bw_loop := snd (el_subscribe False (us_fd sv) OnListener l)\<rparr>))"

definition br_on_accept :: "int \<Rightarrow> 'f bridge_world \<Rightarrow> 'f bridge_world" where
  "br_on_accept conn w =
     (if 0 \<le> conn
      then w\<lparr>bw_loop := el_open_fd conn (bw_loop w), bw_mailbox := bw_mailbox w @ [MonitorNewConnection conn]\<rparr> else w)"

text \<open>A client that becomes readable has hung up: the handler peeks at one byte.\<close>

datatype peek = PeekData | PeekEof | PeekAgain | PeekError

definition br_on_readable :: "peek \<Rightarrow> int \<Rightarrow> 'f bridge_world \<Rightarrow> 'f bridge_world" where
  "br_on_readable p conn w =
     (if p = PeekEof \<or> p = PeekError then w\<lparr>bw_mailbox := bw_mailbox w @ [MonitorClientDisconnected conn]\<rparr> else w)"

text \<open>\<open>dump\<close> is the serialiser of the JSON library; \<open>k\<close> bytes of the line reach each open client.\<close>

definition br_handle ::
  "('f json \<Rightarrow> string) \<Rightarrow> (int \<Rightarrow> nat) \<Rightarrow> 'f svc_msg \<Rightarrow> bridge \<Rightarrow> 'f bridge_world
   \<Rightarrow> bridge \<times> 'f bridge_world \<times> 'f svc_msg outgoing" where
  "br_handle dump k m a w =
     (if \<not> accepts (br_state a) then (a, w, [])
      else case m of
             MonitorNewConnection conn \<Rightarrow>
               (let a = a\<lparr>br_connections := List.insert conn (br_connections a)\<rparr> in
                (a, w\<lparr>bw_loop := snd (el_subscribe False conn (OnClient conn) (bw_loop w))\<rparr>,
                 if length (br_connections a) = 1 then [(''monitor'', MonitorSubscribe ''monitor_bridge'')] else []))
           | MonitorClientDisconnected conn \<Rightarrow>
               (if conn \<notin> set (br_connections a) then (a, w, [])
                else let a = a\<lparr>br_connections := removeAll conn (br_connections a)\<rparr> in
                  (a, w\<lparr>bw_loop := unsubscribe_and_close conn (bw_loop w)\<rparr>,
                   if br_connections a = [] then [(''monitor'', MonitorUnsubscribe ''monitor_bridge'')] else []))
           | MonitorSnapshotUpdate snap \<Rightarrow>
               (let snap = snap\<lparr>ss_clientCount := word_of_nat (length (br_connections a))\<rparr>;
                    payload = dump (snapshot_to_json snap) @ [CHR 0x0A] in
                (a, w\<lparr>bw_wire := bw_wire w @
                        map (\<lambda>conn. (conn, if conn \<in> ot_open (el_os (bw_loop w)) then take (k conn) payload else []))
                          (br_connections a)\<rparr>, []))
           | _ \<Rightarrow> (a, w, []))"

section \<open>Tick\<close>

record tick_actor =
  tk_state :: actor_state
  tk_timers :: nat

definition tick_close :: "tick_actor \<Rightarrow> result_code \<times> tick_actor" where
  "tick_close s = (if tk_state s = Closed then (Ok, s) else (Ok, s\<lparr>tk_timers := 0, tk_state := Closed\<rparr>))"

definition tick_open :: "tick_actor \<Rightarrow> result_code \<times> tick_actor" where
  "tick_open s =
     (let (_, s) = (if tk_state s \<noteq> Closed then tick_close s else (Ok, s)) in
      (Ok, s\<lparr>tk_timers := tk_timers s + 1, tk_state := Opened\<rparr>))"

section \<open>Demand between two actors\<close>

text \<open>
  Three pairs of actors share a protocol: the receiver keeps a list of subscribers, and the sender's messages tell it
  whether the sender wants data. What the receiver will believe once it has read its mailbox follows the messages.
\<close>

locale demand_link =
  fixes wanted :: "'s \<Rightarrow> bool"
    and ready :: "'s \<Rightarrow> bool"
    and tells :: "'m \<Rightarrow> bool option"
    and receive :: "'m \<Rightarrow> 's \<Rightarrow> 's"
  assumes receive_wanted: "ready s \<Longrightarrow> wanted (receive m s) = (case tells m of None \<Rightarrow> wanted s | Some b \<Rightarrow> b)"
    and receive_ready: "ready s \<Longrightarrow> ready (receive m s)"
begin

fun believes :: "'m list \<Rightarrow> bool \<Rightarrow> bool" where
  "believes [] b = b"
| "believes (m # ms) b = believes ms (case tells m of None \<Rightarrow> b | Some v \<Rightarrow> v)"

definition in_step :: "'m list \<Rightarrow> 's \<Rightarrow> bool \<Rightarrow> bool" where
  "in_step q s w \<longleftrightarrow> believes q (wanted s) = w"

lemma believes_append: "believes (q @ ms) b = believes ms (believes q b)"
  by (induction q arbitrary: b) simp_all

lemma in_step_receive: "ready s \<Longrightarrow> in_step (m # q) s w \<Longrightarrow> in_step q (receive m s) w"
  by (simp add: in_step_def receive_wanted)

lemma in_step_tell: "in_step q s w \<Longrightarrow> tells m = Some b \<Longrightarrow> in_step (q @ [m]) s b"
  by (simp add: in_step_def believes_append)

lemma believes_silent: "\<forall>m \<in> set ms. tells m = None \<Longrightarrow> believes ms b = b"
  by (induction ms arbitrary: b) simp_all

lemma in_step_silent: "\<forall>m \<in> set ms. tells m = None \<Longrightarrow> in_step (q @ ms) s w = in_step q s w"
  by (simp add: in_step_def believes_append believes_silent)

lemma in_step_idle: "in_step [] s w \<Longrightarrow> wanted s = w"
  by (simp add: in_step_def)

lemma in_step_quiet: "\<forall>m \<in> set q. tells m = None \<Longrightarrow> in_step q s w \<Longrightarrow> wanted s = w"
  by (simp add: in_step_def believes_silent)

end

fun tells_monitor :: "'f svc_msg \<Rightarrow> bool option" where
  "tells_monitor (MonitorSubscribe n) = (if n = ''monitor_bridge'' then Some True else None)"
| "tells_monitor (MonitorUnsubscribe n) = (if n = ''monitor_bridge'' then Some False else None)"
| "tells_monitor _ = None"

fun tells_sys :: "'f svc_msg \<Rightarrow> bool option" where
  "tells_sys (SysDataSubscribe n) = (if n = ''monitor'' then Some True else None)"
| "tells_sys (SysDataUnsubscribe n) = (if n = ''monitor'' then Some False else None)"
| "tells_sys _ = None"

fun tells_dev :: "'f svc_msg \<Rightarrow> bool option" where
  "tells_dev (PmuDataSubscribe n) = (if n = ''monitor'' then Some True else None)"
| "tells_dev (PmuDataUnsubscribe n) = (if n = ''monitor'' then Some False else None)"
| "tells_dev _ = None"

lemma dm_pump_subscribers [simp]:
  "dm_subscribers (fst (dm_pump e s)) = dm_subscribers s" "dm_state (fst (dm_pump e s)) = dm_state s"
  by (simp_all add: dm_pump_def Let_def)

lemma sm_pump_subscribers [simp]:
  "sm_subscribers (fst (sm_pump e now s)) = sm_subscribers s" "sm_state (fst (sm_pump e now s)) = sm_state s"
  by (simp_all add: sm_pump_def Let_def)

lemma insert_not_Nil [simp]: "List.insert x xs \<noteq> []"
  by (auto simp: List.insert_def)

lemma removeAll_Nil_iff: "removeAll x xs = [] \<longleftrightarrow> set xs \<subseteq> {x}"
  by (induction xs) auto

interpretation mon_link: demand_link "\<lambda>s. ''monitor_bridge'' \<in> set (mn_subscribers s)" "\<lambda>s. mn_state s = Opened" tells_monitor
    "\<lambda>m s. fst (mn_handle z now hs m s)"
  for z :: 'f and now hs
proof
  fix s :: "'f monitor" and m :: "'f svc_msg"
  assume o: "mn_state s = Opened"
  show "(''monitor_bridge'' \<in> set (mn_subscribers (fst (mn_handle z now hs m s))))
      = (case tells_monitor m of None \<Rightarrow> ''monitor_bridge'' \<in> set (mn_subscribers s) | Some b \<Rightarrow> b)"
    using o by (cases m) (auto simp: removeAll_Nil_iff mn_handle_def Let_def subscribeToData_def unsubscribeFromData_def)
  show "mn_state (fst (mn_handle z now hs m s)) = Opened"
    using o by (cases m) (simp_all add: mn_handle_def Let_def subscribeToData_def unsubscribeFromData_def)
qed

interpretation sys_link: demand_link "\<lambda>s. ''monitor'' \<in> set (sm_subscribers s)" "\<lambda>s. sm_state s = Opened" tells_sys
    "\<lambda>m s. fst (sm_handle z e now m s)"
  for z :: 'f and e now
proof
  fix s :: "'f system_manager" and m :: "'f svc_msg"
  assume o: "sm_state s = Opened"
  show "(''monitor'' \<in> set (sm_subscribers (fst (sm_handle z e now m s))))
      = (case tells_sys m of None \<Rightarrow> ''monitor'' \<in> set (sm_subscribers s) | Some b \<Rightarrow> b)"
    using o by (cases m) (auto simp: removeAll_Nil_iff sm_handle_def Let_def case_prod_beta)
  show "sm_state (fst (sm_handle z e now m s)) = Opened"
    using o by (cases m) (simp_all add: sm_handle_def Let_def case_prod_beta)
qed

interpretation dev_link: demand_link "\<lambda>s. ''monitor'' \<in> set (dm_subscribers s)" "\<lambda>s. dm_state s = Opened" tells_dev
    "\<lambda>m s. fst (dm_handle z e m s)"
  for z :: 'f and e
proof
  fix s :: "'f device_manager" and m :: "'f svc_msg"
  assume o: "dm_state s = Opened"
  show "(''monitor'' \<in> set (dm_subscribers (fst (dm_handle z e m s))))
      = (case tells_dev m of None \<Rightarrow> ''monitor'' \<in> set (dm_subscribers s) | Some b \<Rightarrow> b)"
    using o by (cases m) (auto simp: removeAll_Nil_iff dm_handle_def Let_def)
  show "dm_state (fst (dm_handle z e m s)) = Opened"
    using o by (cases m) (simp_all add: dm_handle_def Let_def)
qed

section \<open>The four actors and their mailboxes\<close>

record 'f net_env =
  ne_zero :: 'f
  ne_pmu :: "nat \<Rightarrow> result_code \<times> 'f pmu_data"
  ne_sys :: "nat \<Rightarrow> result_code \<times> 'f sys_res"
  ne_now :: "nat \<Rightarrow> int"
  ne_actors :: "nat \<Rightarrow> actor_info option list"
  ne_dump :: "'f json \<Rightarrow> string"
  ne_written :: "nat \<Rightarrow> int \<Rightarrow> nat"

record 'f net =
  nt_clock :: nat
  nt_bridge :: bridge
  nt_world :: "'f bridge_world"
  nt_monitor :: "'f monitor"
  nt_sys :: "'f system_manager"
  nt_dev :: "'f device_manager"
  nt_mail :: "string \<Rightarrow> 'f svc_msg list"
  nt_cap :: "string \<Rightarrow> nat"
  nt_lost :: "(string \<times> 'f svc_msg) list"

text \<open>
  A full mailbox refuses a message, which is then gone; \<open>nt_lost\<close> keeps the refused ones for the theorems.
\<close>

definition post :: "string \<times> 'f svc_msg \<Rightarrow> 'f net \<Rightarrow> 'f net" where
  "post tm s =
     (if length (nt_mail s (fst tm)) < nt_cap s (fst tm)
      then s\<lparr>nt_mail := (nt_mail s)(fst tm := nt_mail s (fst tm) @ [snd tm])\<rparr>
      else s\<lparr>nt_lost := nt_lost s @ [tm]\<rparr>)"

definition post_all :: "'f svc_msg outgoing \<Rightarrow> 'f net \<Rightarrow> 'f net" where
  "post_all out s = fold post out s"

datatype net_event =
    NConnect int | NHangup int | NSysTick | NPmuTick | NCmdPmu bool
  | NBridge | NMonitor | NSys | NDev | NRestartMonitor

text \<open>
  A client connects or hangs up, a timer fires, the command actor asks for or gives up the PMU data, one of the actors
  handles the message at the head of its mailbox, or the monitor is restarted, that is closed and opened again.
\<close>

fun net_step :: "'f net_env \<Rightarrow> net_event \<Rightarrow> 'f net \<Rightarrow> 'f net" where
  "net_step E (NConnect c) s = post (''monitor_bridge'', MonitorNewConnection c) s"
| "net_step E (NHangup c) s = post (''monitor_bridge'', MonitorClientDisconnected c) s"
| "net_step E NSysTick s = post (''system_manager'', SysDataTick) s"
| "net_step E NPmuTick s = post (''device_manager'', PmuDataTick) s"
| "net_step E (NCmdPmu b) s = post (''device_manager'', if b then PmuDataSubscribe ''cmd'' else PmuDataUnsubscribe ''cmd'') s"
| "net_step E NBridge s =
     (case nt_mail s ''monitor_bridge'' of
        [] \<Rightarrow> s
      | m # ms \<Rightarrow>
          (case br_handle (ne_dump E) (ne_written E (nt_clock s)) m (nt_bridge s) (nt_world s) of (a, w, out) \<Rightarrow>
             post_all out (s\<lparr>nt_clock := nt_clock s + 1, nt_bridge := a, nt_world := w, nt_mail := (nt_mail s)(''monitor_bridge'' := ms)\<rparr>)))"
| "net_step E NMonitor s =
     (case nt_mail s ''monitor'' of
        [] \<Rightarrow> s
      | m # ms \<Rightarrow>
          (case mn_handle (ne_zero E) (word_of_int (ne_now E (nt_clock s))) (ne_actors E (nt_clock s)) m (nt_monitor s) of (a, out) \<Rightarrow>
             post_all out (s\<lparr>nt_clock := nt_clock s + 1, nt_monitor := a, nt_mail := (nt_mail s)(''monitor'' := ms)\<rparr>)))"
| "net_step E NSys s =
     (case nt_mail s ''system_manager'' of
        [] \<Rightarrow> s
      | m # ms \<Rightarrow>
          (case sm_handle (ne_zero E) (ne_sys E (nt_clock s)) (ne_now E (nt_clock s)) m (nt_sys s) of (a, out, _) \<Rightarrow>
             post_all out (s\<lparr>nt_clock := nt_clock s + 1, nt_sys := a, nt_mail := (nt_mail s)(''system_manager'' := ms)\<rparr>)))"
| "net_step E NDev s =
     (case nt_mail s ''device_manager'' of
        [] \<Rightarrow> s
      | m # ms \<Rightarrow>
          (case dm_handle (ne_zero E) (ne_pmu E (nt_clock s)) m (nt_dev s) of (a, out) \<Rightarrow>
             post_all out (s\<lparr>nt_clock := nt_clock s + 1, nt_dev := a, nt_mail := (nt_mail s)(''device_manager'' := ms)\<rparr>)))"
| "net_step E NRestartMonitor s =
     s\<lparr>nt_monitor := snd (mn_open (ne_zero E) (snd (mn_close (ne_zero E) (nt_monitor s))))\<rparr>"

fun net_runs :: "'f net_env \<Rightarrow> net_event list \<Rightarrow> 'f net \<Rightarrow> 'f net" where
  "net_runs E [] s = s"
| "net_runs E (e # es) s = net_runs E es (net_step E e s)"

section \<open>Demand follows the clients\<close>

lemma post_all_simps [simp]:
  "post_all [] s = s" "post_all (p # out) s = post_all out (post p s)"
  by (simp_all add: post_all_def)

lemma post_keeps [simp]:
  "nt_clock (post p s) = nt_clock s" "nt_bridge (post p s) = nt_bridge s" "nt_world (post p s) = nt_world s"
  "nt_monitor (post p s) = nt_monitor s" "nt_sys (post p s) = nt_sys s" "nt_dev (post p s) = nt_dev s"
  by (simp_all add: post_def)

lemma post_all_keeps [simp]:
  "nt_clock (post_all out s) = nt_clock s" "nt_bridge (post_all out s) = nt_bridge s" "nt_world (post_all out s) = nt_world s"
  "nt_monitor (post_all out s) = nt_monitor s" "nt_sys (post_all out s) = nt_sys s" "nt_dev (post_all out s) = nt_dev s"
  by (induction out arbitrary: s) simp_all

text \<open>Posting appends some of the messages for a mailbox, all of them when none is lost, and loses only what was to be posted.\<close>

lemma post_all_adds: "\<exists>ms. nt_mail (post_all out s) t = nt_mail s t @ ms \<and> set ms \<subseteq> snd ` set (filter (\<lambda>p. fst p = t) out)"
proof (induction out arbitrary: s)
  case (Cons p out)
  from Cons.IH[of "post p s"] obtain ms where
    "nt_mail (post_all out (post p s)) t = nt_mail (post p s) t @ ms" "set ms \<subseteq> snd ` set (filter (\<lambda>p. fst p = t) out)" by blast
  then show ?case
    by (intro exI[of _ "(if fst p = t \<and> length (nt_mail s t) < nt_cap s t then [snd p] else []) @ ms"]) (auto simp: post_def)
qed simp

lemma post_all_elsewhere: "filter (\<lambda>p. fst p = t) out = [] \<Longrightarrow> nt_mail (post_all out s) t = nt_mail s t"
  using post_all_adds[of out s t] by auto

lemma post_all_loses: "\<exists>ls. nt_lost (post_all out s) = nt_lost s @ ls \<and> set ls \<subseteq> set out"
proof (induction out arbitrary: s)
  case (Cons p out)
  from Cons.IH[of "post p s"] obtain ls where "nt_lost (post_all out (post p s)) = nt_lost (post p s) @ ls" "set ls \<subseteq> set out" by blast
  then show ?case
    by (intro exI[of _ "(if length (nt_mail s (fst p)) < nt_cap s (fst p) then [] else [p]) @ ls"]) (auto simp: post_def)
qed simp

lemma post_all_kept:
  assumes "p \<in> set out" and "p \<notin> set (nt_lost (post_all out s))" and "filter (\<lambda>q. fst q = fst p) out = [p]"
  shows "nt_mail (post_all out s) (fst p) = nt_mail s (fst p) @ [snd p]"
  using assms
proof (induction out arbitrary: s)
  case (Cons q out)
  show ?case
  proof (cases "fst q = fst p")
    case True
    then have q: "q = p" and rest: "filter (\<lambda>q. fst q = fst p) out = []" using Cons.prems(3) by simp_all
    have "p \<notin> set (nt_lost (post p s))" using Cons.prems(2) post_all_loses[of out "post p s"] unfolding q by auto
    then show ?thesis using post_all_elsewhere[OF rest, of "post p s"] unfolding q by (auto simp: post_def split: if_splits)
  next
    case False
    have "nt_mail (post_all out (post q s)) (fst p) = nt_mail (post q s) (fst p) @ [snd p]"
      by (rule Cons.IH) (use Cons.prems False in auto)
    then show ?thesis using False by (auto simp: post_def)
  qed
qed simp

text \<open>Only the bridge speaks to the monitor about subscriptions.\<close>

fun to_monitor_ok :: "'f svc_msg \<Rightarrow> bool" where
  "to_monitor_ok (MonitorSubscribe n) \<longleftrightarrow> n = ''monitor_bridge''"
| "to_monitor_ok (MonitorUnsubscribe n) \<longleftrightarrow> n = ''monitor_bridge''"
| "to_monitor_ok _ \<longleftrightarrow> True"

definition links_ok :: "'f net \<Rightarrow> bool" where
  "links_ok s \<longleftrightarrow>
     mon_link.in_step (nt_mail s ''monitor'') (nt_monitor s) (br_connections (nt_bridge s) \<noteq> [])
     \<and> sys_link.in_step (nt_mail s ''system_manager'') (nt_sys s) (mn_dataSubscribed (nt_monitor s))
     \<and> dev_link.in_step (nt_mail s ''device_manager'') (nt_dev s) (mn_dataSubscribed (nt_monitor s))"

definition subscribers_ok :: "'f monitor \<Rightarrow> bool" where
  "subscribers_ok a \<longleftrightarrow> (mn_dataSubscribed a \<longleftrightarrow> mn_subscribers a \<noteq> []) \<and> set (mn_subscribers a) \<subseteq> {''monitor_bridge''}"

definition monitor_ok :: "'f net \<Rightarrow> bool" where
  "monitor_ok s \<longleftrightarrow> subscribers_ok (nt_monitor s) \<and> (\<forall>m \<in> set (nt_mail s ''monitor''). to_monitor_ok m)"

definition all_open :: "'f net \<Rightarrow> bool" where
  "all_open s \<longleftrightarrow> br_state (nt_bridge s) = Opened \<and> mn_state (nt_monitor s) = Opened
     \<and> sm_state (nt_sys s) = Opened \<and> dm_state (nt_dev s) = Opened"

definition net_inv :: "'f net \<Rightarrow> bool" where
  "net_inv s \<longleftrightarrow> all_open s \<and> links_ok s \<and> monitor_ok s
     \<and> distinct (sm_subscribers (nt_sys s)) \<and> distinct (dm_subscribers (nt_dev s))"

text \<open>What the actors send.\<close>

lemma publish_elsewhere:
  "set (mn_subscribers s) \<subseteq> {''monitor_bridge''} \<Longrightarrow> t \<noteq> ''monitor_bridge'' \<Longrightarrow> filter (\<lambda>p. fst p = t) (tryPublish now hs s) = []"
  by (auto simp: tryPublish_def Let_def filter_empty_conv)

definition data_demand :: "bool \<Rightarrow> bool \<Rightarrow> 'f svc_msg outgoing \<Rightarrow> bool" where
  "data_demand old new out \<longleftrightarrow>
     (new = old \<and> filter (\<lambda>p. fst p = ''system_manager'') out = [] \<and> filter (\<lambda>p. fst p = ''device_manager'') out = [])
     \<or> (new \<and> out = [(''system_manager'', SysDataSubscribe ''monitor''), (''device_manager'', PmuDataSubscribe ''monitor'')])
     \<or> (\<not> new \<and> out = [(''system_manager'', SysDataUnsubscribe ''monitor''), (''device_manager'', PmuDataUnsubscribe ''monitor'')])"

lemma mn_handle_effect:
  assumes "mn_state s = Opened" and "subscribers_ok s" and "to_monitor_ok m" and h: "mn_handle z now hs m s = (s', out)"
  shows "mn_state s' = Opened \<and> subscribers_ok s'
    \<and> data_demand (mn_dataSubscribed s) (mn_dataSubscribed s') out \<and> filter (\<lambda>p. fst p = ''monitor'') out = []"
proof -
  have assms: "mn_state s = Opened" "mn_dataSubscribed s \<longleftrightarrow> mn_subscribers s \<noteq> []"
    "set (mn_subscribers s) \<subseteq> {''monitor_bridge''}" "to_monitor_ok m" "mn_handle z now hs m s = (s', out)"
    using assms unfolding subscribers_ok_def by blast+
  show ?thesis
  proof (cases m)
  case (MonitorSubscribe n)
  then show ?thesis
    using assms by (auto simp: mn_handle_def Let_def subscribeToData_def data_demand_def subscribers_ok_def split: if_splits)
next
  case (MonitorUnsubscribe n)
  have "removeAll n (mn_subscribers s) = []" using assms(3,4) by (auto simp: MonitorUnsubscribe removeAll_Nil_iff)
  then show ?thesis
    using assms by (auto simp: MonitorUnsubscribe mn_handle_def Let_def unsubscribeFromData_def data_demand_def subscribers_ok_def split: if_splits)
next
  case (SysDataUpdate d)
  then show ?thesis
    using assms publish_elsewhere[of "s\<lparr>mn_sysCache := d\<rparr>"] by (auto simp: mn_handle_def Let_def data_demand_def subscribers_ok_def)
next
  case (PmuDataUpdate d)
  then show ?thesis
    using assms publish_elsewhere[of "s\<lparr>mn_pmuCache := d\<rparr>"] by (auto simp: mn_handle_def Let_def data_demand_def subscribers_ok_def)
  qed (use assms in \<open>auto simp: mn_handle_def data_demand_def subscribers_ok_def\<close>)
qed

lemma br_handle_effect:
  assumes "br_state a = Opened" and "br_handle dump k m a w = (a', w', out)"
  shows "br_state a' = Opened \<and>
    ((out = [] \<and> (br_connections a' \<noteq> [] \<longleftrightarrow> br_connections a \<noteq> []))
     \<or> (out = [(''monitor'', MonitorSubscribe ''monitor_bridge'')] \<and> br_connections a' \<noteq> [])
     \<or> (out = [(''monitor'', MonitorUnsubscribe ''monitor_bridge'')] \<and> br_connections a' = []))"
proof (cases m)
  case (MonitorNewConnection c)
  have "br_connections a \<noteq> []" if "length (List.insert c (br_connections a)) \<noteq> 1"
    using that by (auto simp: List.insert_def)
  then show ?thesis using assms by (auto simp: MonitorNewConnection br_handle_def Let_def split: if_splits)
next
  case (MonitorClientDisconnected c)
  then show ?thesis using assms by (auto simp: br_handle_def Let_def split: if_splits)
qed (use assms in \<open>auto simp: br_handle_def Let_def\<close>)

lemma sm_sends_updates:
  assumes "sm_handle z e now m s = (s', out, sigs)"
  shows "\<forall>p \<in> set out. \<exists>d. snd p = SysDataUpdate d"
  using assms
  by (cases m) (auto simp: sm_handle_def sm_pump_def Let_def split: if_splits prod.splits)

lemma sm_handle_distinct:
  assumes "distinct (sm_subscribers s)" and "sm_handle z e now m s = (s', out, sigs)"
  shows "distinct (sm_subscribers s')"
proof -
  have "s' = fst (sm_handle z e now m s)" using assms(2) by simp
  then show ?thesis using assms(1) by (cases m) (auto simp: sm_handle_def Let_def case_prod_beta distinct_removeAll)
qed

lemma dm_handle_distinct:
  assumes "distinct (dm_subscribers s)" and "dm_handle z e m s = (s', out)"
  shows "distinct (dm_subscribers s')"
proof -
  have "s' = fst (dm_handle z e m s)" using assms(2) by simp
  then show ?thesis using assms(1) by (cases m) (auto simp: dm_handle_def Let_def distinct_removeAll)
qed

lemma dm_sends_updates:
  assumes "dm_handle z e m s = (s', out)"
  shows "\<forall>p \<in> set out. \<exists>d. snd p = PmuDataUpdate d"
  using assms
  by (cases m) (auto simp: dm_handle_def dm_pump_def Let_def split: if_splits prod.splits)


text \<open>Messages that say nothing about demand may be posted anywhere; data updates are such messages.\<close>

definition silent :: "'f svc_msg \<Rightarrow> bool" where
  "silent m \<longleftrightarrow> tells_monitor m = None \<and> tells_sys m = None \<and> tells_dev m = None \<and> to_monitor_ok m"

lemma net_inv_silent:
  assumes "net_inv s" and "\<forall>p \<in> set out. silent (snd p)"
  shows "net_inv (post_all out s)"
proof -
  have q: "\<exists>ms. nt_mail (post_all out s) t = nt_mail s t @ ms \<and> (\<forall>m \<in> set ms. silent m)" for t
    using post_all_adds[of out s t] assms(2) by fastforce
  from q[of "''monitor''"] obtain mm where mm: "nt_mail (post_all out s) ''monitor'' = nt_mail s ''monitor'' @ mm" "\<forall>m \<in> set mm. silent m" by blast
  from q[of "''system_manager''"] obtain ms where
    ms: "nt_mail (post_all out s) ''system_manager'' = nt_mail s ''system_manager'' @ ms" "\<forall>m \<in> set ms. silent m" by blast
  from q[of "''device_manager''"] obtain md where
    md: "nt_mail (post_all out s) ''device_manager'' = nt_mail s ''device_manager'' @ md" "\<forall>m \<in> set md. silent m" by blast
  have "mon_link.in_step (nt_mail (post_all out s) ''monitor'') (nt_monitor s) w = mon_link.in_step (nt_mail s ''monitor'') (nt_monitor s) w" for w
    unfolding mm(1) by (rule mon_link.in_step_silent) (use mm(2) in \<open>simp add: silent_def\<close>)
  moreover have "sys_link.in_step (nt_mail (post_all out s) ''system_manager'') (nt_sys s) w
      = sys_link.in_step (nt_mail s ''system_manager'') (nt_sys s) w" for w
    unfolding ms(1) by (rule sys_link.in_step_silent) (use ms(2) in \<open>simp add: silent_def\<close>)
  moreover have "dev_link.in_step (nt_mail (post_all out s) ''device_manager'') (nt_dev s) w
      = dev_link.in_step (nt_mail s ''device_manager'') (nt_dev s) w" for w
    unfolding md(1) by (rule dev_link.in_step_silent) (use md(2) in \<open>simp add: silent_def\<close>)
  moreover have "\<forall>m \<in> set (nt_mail (post_all out s) ''monitor''). to_monitor_ok m"
    using assms(1) mm(2) unfolding mm(1) net_inv_def monitor_ok_def silent_def by (simp add: ball_Un)
  ultimately show ?thesis
    using assms(1) unfolding net_inv_def links_ok_def monitor_ok_def all_open_def by simp
qed

text \<open>No message about demand has been refused by a full mailbox.\<close>

definition keeps_demand :: "'f net \<Rightarrow> bool" where
  "keeps_demand s \<longleftrightarrow> (\<forall>p \<in> set (nt_lost s). tells_monitor (snd p) = None \<and> tells_sys (snd p) = None \<and> tells_dev (snd p) = None)"

lemma told_kept:
  assumes "keeps_demand (post_all out s)" and "tells_monitor m \<noteq> None \<or> tells_sys m \<noteq> None \<or> tells_dev m \<noteq> None"
    and "filter (\<lambda>q. fst q = t) out = [(t, m)]"
  shows "nt_mail (post_all out s) t = nt_mail s t @ [m]"
proof -
  have "(t, m) \<in> set (filter (\<lambda>q. fst q = t) out)" unfolding assms(3) by simp
  then have "(t, m) \<in> set out" by simp
  moreover have "(t, m) \<notin> set (nt_lost (post_all out s))" using assms(1,2) by (auto simp: keeps_demand_def)
  ultimately show ?thesis using post_all_kept[of "(t, m)" out s] assms(3) by simp
qed

lemma net_inv_bridge: "net_inv s \<Longrightarrow> keeps_demand (net_step E NBridge s) \<Longrightarrow> net_inv (net_step E NBridge s)"
proof (cases "nt_mail s ''monitor_bridge''")
  case (Cons m ms)
  assume i: "net_inv s" and k: "keeps_demand (net_step E NBridge s)"
  obtain a w out where h: "br_handle (ne_dump E) (ne_written E (nt_clock s)) m (nt_bridge s) (nt_world s) = (a, w, out)"
    by (metis prod_cases3)
  let ?s = "s\<lparr>nt_clock := nt_clock s + 1, nt_bridge := a, nt_world := w, nt_mail := (nt_mail s)(''monitor_bridge'' := ms)\<rparr>"
  have e: "net_step E NBridge s = post_all out ?s" using Cons h by simp
  have open': "br_state (nt_bridge s) = Opened" using i by (simp add: net_inv_def all_open_def)
  have link: "mon_link.in_step (nt_mail s ''monitor'') (nt_monitor s) (br_connections (nt_bridge s) \<noteq> [])"
    using i by (simp add: net_inv_def links_ok_def)
  consider "out = []" "br_connections a \<noteq> [] \<longleftrightarrow> br_connections (nt_bridge s) \<noteq> []"
    | "out = [(''monitor'', MonitorSubscribe ''monitor_bridge'')]" "br_connections a \<noteq> []"
    | "out = [(''monitor'', MonitorUnsubscribe ''monitor_bridge'')]" "br_connections a = []"
    using br_handle_effect[OF open' h] by blast
  then have "mon_link.in_step (nt_mail (post_all out ?s) ''monitor'') (nt_monitor s) (br_connections a \<noteq> [])"
    and "\<forall>m \<in> set (nt_mail (post_all out ?s) ''monitor''). to_monitor_ok m"
    and "filter (\<lambda>p. fst p = ''system_manager'') out = []" "filter (\<lambda>p. fst p = ''device_manager'') out = []"
  proof (atomize (full), cases)
    case 1
    then show "mon_link.in_step (nt_mail (post_all out ?s) ''monitor'') (nt_monitor s) (br_connections a \<noteq> [])
        \<and> (\<forall>m \<in> set (nt_mail (post_all out ?s) ''monitor''). to_monitor_ok m)
        \<and> filter (\<lambda>p. fst p = ''system_manager'') out = [] \<and> filter (\<lambda>p. fst p = ''device_manager'') out = []"
      using link i by (simp add: net_inv_def monitor_ok_def)
  next
    case 2
    then show "mon_link.in_step (nt_mail (post_all out ?s) ''monitor'') (nt_monitor s) (br_connections a \<noteq> [])
        \<and> (\<forall>m \<in> set (nt_mail (post_all out ?s) ''monitor''). to_monitor_ok m)
        \<and> filter (\<lambda>p. fst p = ''system_manager'') out = [] \<and> filter (\<lambda>p. fst p = ''device_manager'') out = []"
      using mon_link.in_step_tell[OF link, of "MonitorSubscribe ''monitor_bridge''" True] i
        told_kept[OF k[unfolded e], of "MonitorSubscribe ''monitor_bridge''" "''monitor''"] by (simp add: net_inv_def monitor_ok_def)
  next
    case 3
    then show "mon_link.in_step (nt_mail (post_all out ?s) ''monitor'') (nt_monitor s) (br_connections a \<noteq> [])
        \<and> (\<forall>m \<in> set (nt_mail (post_all out ?s) ''monitor''). to_monitor_ok m)
        \<and> filter (\<lambda>p. fst p = ''system_manager'') out = [] \<and> filter (\<lambda>p. fst p = ''device_manager'') out = []"
      using mon_link.in_step_tell[OF link, of "MonitorUnsubscribe ''monitor_bridge''" False] i
        told_kept[OF k[unfolded e], of "MonitorUnsubscribe ''monitor_bridge''" "''monitor''"] by (simp add: net_inv_def monitor_ok_def)
  qed
  then show ?thesis
    using i br_handle_effect[OF open' h] post_all_elsewhere[of "''system_manager''" out ?s] post_all_elsewhere[of "''device_manager''" out ?s]
    unfolding net_inv_def links_ok_def monitor_ok_def all_open_def e by simp
qed simp

lemma net_inv_monitor: "net_inv s \<Longrightarrow> keeps_demand (net_step E NMonitor s) \<Longrightarrow> net_inv (net_step E NMonitor s)"
proof (cases "nt_mail s ''monitor''")
  case (Cons m ms)
  assume i: "net_inv s" and k: "keeps_demand (net_step E NMonitor s)"
  obtain a out where h: "mn_handle (ne_zero E) (word_of_int (ne_now E (nt_clock s))) (ne_actors E (nt_clock s)) m (nt_monitor s) = (a, out)"
    by fastforce
  let ?s = "s\<lparr>nt_clock := nt_clock s + 1, nt_monitor := a, nt_mail := (nt_mail s)(''monitor'' := ms)\<rparr>"
  have e: "net_step E NMonitor s = post_all out ?s" using Cons h by simp
  have mo: "mn_state (nt_monitor s) = Opened" "subscribers_ok (nt_monitor s)" "to_monitor_ok m"
    using i Cons by (simp_all add: net_inv_def monitor_ok_def all_open_def)
  note eff = mn_handle_effect[OF mo h]
  have mon: "nt_mail (post_all out ?s) ''monitor'' = ms" using post_all_elsewhere[of "''monitor''" out ?s] eff by simp
  have "mon_link.in_step (m # ms) (nt_monitor s) (br_connections (nt_bridge s) \<noteq> [])"
    using i Cons by (simp add: net_inv_def links_ok_def)
  from mon_link.in_step_receive[OF mo(1) this, of "ne_zero E" "word_of_int (ne_now E (nt_clock s))" "ne_actors E (nt_clock s)"]
  have L1: "mon_link.in_step (nt_mail (post_all out ?s) ''monitor'') a (br_connections (nt_bridge s) \<noteq> [])"
    unfolding mon by (simp add: h)
  have L2: "sys_link.in_step (nt_mail s ''system_manager'') (nt_sys s) (mn_dataSubscribed (nt_monitor s))"
    and L3: "dev_link.in_step (nt_mail s ''device_manager'') (nt_dev s) (mn_dataSubscribed (nt_monitor s))"
    using i by (simp_all add: net_inv_def links_ok_def)
  note K = told_kept[OF k[unfolded e]]
  have "sys_link.in_step (nt_mail (post_all out ?s) ''system_manager'') (nt_sys s) (mn_dataSubscribed a)
    \<and> dev_link.in_step (nt_mail (post_all out ?s) ''device_manager'') (nt_dev s) (mn_dataSubscribed a)"
    using eff[THEN conjunct2, THEN conjunct2, THEN conjunct1] unfolding data_demand_def
  proof (elim disjE conjE)
    assume "filter (\<lambda>p. fst p = ''system_manager'') out = []" "filter (\<lambda>p. fst p = ''device_manager'') out = []"
      "mn_dataSubscribed a = mn_dataSubscribed (nt_monitor s)"
    then show ?thesis using L2 L3 post_all_elsewhere[of _ out ?s] by simp
  next
    assume o: "mn_dataSubscribed a" "out = [(''system_manager'', SysDataSubscribe ''monitor''), (''device_manager'', PmuDataSubscribe ''monitor'')]"
    then show ?thesis using K[of "SysDataSubscribe ''monitor''" "''system_manager''"] K[of "PmuDataSubscribe ''monitor''" "''device_manager''"]
        sys_link.in_step_tell[OF L2, of "SysDataSubscribe ''monitor''" True] dev_link.in_step_tell[OF L3, of "PmuDataSubscribe ''monitor''" True]
      by (simp del: post_all_simps)
  next
    assume o: "\<not> mn_dataSubscribed a" "out = [(''system_manager'', SysDataUnsubscribe ''monitor''), (''device_manager'', PmuDataUnsubscribe ''monitor'')]"
    then show ?thesis using K[of "SysDataUnsubscribe ''monitor''" "''system_manager''"] K[of "PmuDataUnsubscribe ''monitor''" "''device_manager''"]
        sys_link.in_step_tell[OF L2, of "SysDataUnsubscribe ''monitor''" False] dev_link.in_step_tell[OF L3, of "PmuDataUnsubscribe ''monitor''" False]
      by (simp del: post_all_simps)
  qed
  moreover have "\<forall>m \<in> set (nt_mail (post_all out ?s) ''monitor''). to_monitor_ok m"
    unfolding mon using i Cons by (simp add: net_inv_def monitor_ok_def)
  ultimately show ?thesis
    using i eff L1 unfolding net_inv_def links_ok_def monitor_ok_def all_open_def e by simp
qed simp

lemma net_inv_sys: "net_inv s \<Longrightarrow> net_inv (net_step E NSys s)"
proof (cases "nt_mail s ''system_manager''")
  case (Cons m ms)
  assume i: "net_inv s"
  obtain a out sigs where h: "sm_handle (ne_zero E) (ne_sys E (nt_clock s)) (ne_now E (nt_clock s)) m (nt_sys s) = (a, out, sigs)"
    by (metis prod_cases3)
  have o: "sm_state (nt_sys s) = Opened" using i by (simp add: net_inv_def all_open_def)
  have "sys_link.in_step (m # ms) (nt_sys s) (mn_dataSubscribed (nt_monitor s))"
    using i Cons by (simp add: net_inv_def links_ok_def)
  moreover have "distinct (sm_subscribers a)" using sm_handle_distinct[OF _ h] i by (simp add: net_inv_def)
  ultimately have "net_inv (s\<lparr>nt_clock := nt_clock s + 1, nt_sys := a, nt_mail := (nt_mail s)(''system_manager'' := ms)\<rparr>)"
    using i sys_link.in_step_receive[OF o, of m ms _ "ne_zero E" "ne_sys E (nt_clock s)" "ne_now E (nt_clock s)"]
      sys_link.receive_ready[OF o, of "ne_zero E" "ne_sys E (nt_clock s)" "ne_now E (nt_clock s)" m]
    by (simp add: h net_inv_def links_ok_def monitor_ok_def all_open_def)
  moreover have "\<forall>p \<in> set out. silent (snd p)" using sm_sends_updates[OF h] by (fastforce simp: silent_def)
  ultimately show ?thesis using net_inv_silent[of _ out] Cons h by fastforce
qed simp

lemma net_inv_dev: "net_inv s \<Longrightarrow> net_inv (net_step E NDev s)"
proof (cases "nt_mail s ''device_manager''")
  case (Cons m ms)
  assume i: "net_inv s"
  obtain a out where h: "dm_handle (ne_zero E) (ne_pmu E (nt_clock s)) m (nt_dev s) = (a, out)" by fastforce
  have o: "dm_state (nt_dev s) = Opened" using i by (simp add: net_inv_def all_open_def)
  have "dev_link.in_step (m # ms) (nt_dev s) (mn_dataSubscribed (nt_monitor s))"
    using i Cons by (simp add: net_inv_def links_ok_def)
  moreover have "distinct (dm_subscribers a)" using dm_handle_distinct[OF _ h] i by (simp add: net_inv_def)
  ultimately have "net_inv (s\<lparr>nt_clock := nt_clock s + 1, nt_dev := a, nt_mail := (nt_mail s)(''device_manager'' := ms)\<rparr>)"
    using i dev_link.in_step_receive[OF o, of m ms _ "ne_zero E" "ne_pmu E (nt_clock s)"]
      dev_link.receive_ready[OF o, of "ne_zero E" "ne_pmu E (nt_clock s)" m]
    by (simp add: h net_inv_def links_ok_def monitor_ok_def all_open_def)
  moreover have "\<forall>p \<in> set out. silent (snd p)" using dm_sends_updates[OF h] by (fastforce simp: silent_def)
  ultimately show ?thesis using net_inv_silent[of _ out] Cons h by fastforce
qed simp

lemma net_inv_post: "net_inv s \<Longrightarrow> silent m \<Longrightarrow> net_inv (post (t, m) s)"
  using net_inv_silent[of s "[(t, m)]"] by simp

lemma net_inv_step: "net_inv s \<Longrightarrow> NRestartMonitor \<noteq> e \<Longrightarrow> keeps_demand (net_step E e s) \<Longrightarrow> net_inv (net_step E e s)"
proof (cases e)
  case (NCmdPmu b)
  assume "net_inv s"
  then show ?thesis
    using net_inv_post[of s "if b then PmuDataSubscribe ''cmd'' else PmuDataUnsubscribe ''cmd''" "''device_manager''"]
    by (simp add: NCmdPmu silent_def)
qed (simp_all add: net_inv_post silent_def net_inv_bridge net_inv_monitor net_inv_sys net_inv_dev del: net_step.simps(6-9))

lemma net_step_loses: "set (nt_lost s) \<subseteq> set (nt_lost (net_step E e s))"
proof -
  have "set (nt_lost s) \<subseteq> set (nt_lost (post_all out s))" for out and s :: "'a net" using post_all_loses[of out s] by auto
  note L = this
  show ?thesis
  proof (cases e)
    case NBridge
    then show ?thesis using L[of "s\<lparr>nt_clock := _, nt_bridge := _, nt_world := _, nt_mail := _\<rparr>"] by (auto split: list.split prod.split)
  next
    case NMonitor
    then show ?thesis using L[of "s\<lparr>nt_clock := _, nt_monitor := _, nt_mail := _\<rparr>"] by (auto split: list.split prod.split)
  next
    case NSys
    then show ?thesis using L[of "s\<lparr>nt_clock := _, nt_sys := _, nt_mail := _\<rparr>"] by (auto split: list.split prod.split)
  next
    case NDev
    then show ?thesis using L[of "s\<lparr>nt_clock := _, nt_dev := _, nt_mail := _\<rparr>"] by (auto split: list.split prod.split)
  qed (auto simp: post_def)
qed

lemma net_runs_loses: "set (nt_lost s) \<subseteq> set (nt_lost (net_runs E es s))"
proof (induction es arbitrary: s)
  case (Cons e es)
  then show ?case using net_step_loses[of s E e] by (auto intro: subset_trans)
qed simp

lemma net_inv_runs: "net_inv s \<Longrightarrow> NRestartMonitor \<notin> set es \<Longrightarrow> keeps_demand (net_runs E es s) \<Longrightarrow> net_inv (net_runs E es s)"
proof (induction es arbitrary: s)
  case (Cons e es)
  have "keeps_demand (net_step E e s)"
    using Cons.prems(3) net_runs_loses[of "net_step E e s" E es] by (auto simp: keeps_demand_def)
  then show ?case using Cons net_inv_step[of s e E] by simp
qed simp

definition net_start :: "(string \<Rightarrow> nat) \<Rightarrow> 'f net_env \<Rightarrow> 'f net" where
  "net_start caps E =
     \<lparr>nt_clock = 0,
      nt_bridge = \<lparr>br_state = Opened, br_server = \<lparr>us_path = ''/tmp/mon'', us_fd = 6\<rparr>, br_socketPath = ''/tmp/mon'', br_connections = []\<rparr>,
      nt_world = \<lparr>bw_loop = el_new \<lparr>ot_open = {6}, ot_paths = {''/tmp/mon''}\<rparr>, bw_mailbox = [], bw_wire = []\<rparr>,
      nt_monitor = \<lparr>mn_state = Opened, mn_pmuCache = pmu_zero (ne_zero E), mn_sysCache = sys_zero (ne_zero E),
        mn_dataSubscribed = False, mn_subscribers = []\<rparr>,
      nt_sys = \<lparr>sm_state = Opened, sm_hasSys = True, sm_latest = sys_zero (ne_zero E), sm_subscribers = [], sm_timers = 1,
        sm_signalPipeFd = 3, sm_startTime = 0\<rparr>,
      nt_dev = \<lparr>dm_state = Opened, dm_hasPmu = True, dm_latest = pmu_zero (ne_zero E), dm_subscribers = [], dm_timers = 1\<rparr>,
      nt_mail = (\<lambda>_. []), nt_cap = caps, nt_lost = []\<rparr>"

lemma net_inv_start: "net_inv (net_start caps E)"
  by (simp add: net_inv_def links_ok_def monitor_ok_def all_open_def net_start_def subscribers_ok_def mon_link.in_step_def
      sys_link.in_step_def dev_link.in_step_def)

text \<open>What the managers send the monitor when their timer fires.\<close>

lemma filter_to_one: "distinct xs \<Longrightarrow> filter (\<lambda>p. fst p = x) (map (\<lambda>sub. (sub, v)) xs) = (if x \<in> set xs then [(x, v)] else [])"
  by (induction xs) auto

lemma sm_tick_sends:
  assumes "sm_state s = Opened" and "distinct (sm_subscribers s)" and "sm_hasSys s" and "fst e = Ok"
  shows "filter (\<lambda>p. fst p = ''monitor'') (fst (snd (sm_handle z e now SysDataTick s))) =
    (if ''monitor'' \<in> set (sm_subscribers s)
     then [(''monitor'', SysDataUpdate ((snd e)\<lparr>sr_uptimeMs := word_of_int (now - sm_startTime s)\<rparr>))] else [])"
  using assms(1,3,4) by (auto simp: sm_handle_def sm_pump_def Let_def filter_to_one[OF assms(2)])

lemma dm_tick_sends:
  assumes "dm_state s = Opened" and "distinct (dm_subscribers s)" and "dm_hasPmu s" and "fst e = Ok"
  shows "filter (\<lambda>p. fst p = ''monitor'') (snd (dm_handle z e PmuDataTick s)) =
    (if ''monitor'' \<in> set (dm_subscribers s) then [(''monitor'', PmuDataUpdate (snd e))] else [])"
  using assms(1,3,4) by (auto simp: dm_handle_def dm_pump_def Let_def filter_to_one[OF assms(2)])


definition demo_env :: "unit net_env" where
  "demo_env = \<lparr>ne_zero = (), ne_pmu = (\<lambda>_. (Ok, pmu_zero ())), ne_sys = (\<lambda>_. (Ok, sys_zero ())), ne_now = int,
     ne_actors = (\<lambda>_. []), ne_dump = (\<lambda>_. ''{}''), ne_written = (\<lambda>_ _. 3)\<rparr>"

definition demo_net_events :: "net_event list" where
  "demo_net_events = [NConnect 9, NBridge, NMonitor, NSys, NDev, NCmdPmu True, NDev]"

definition demo_hangup :: "net_event list" where
  "demo_hangup = [NConnect 9, NBridge, NMonitor, NSys, NDev, NHangup 9, NMonitor, NMonitor, NBridge, NMonitor, NSys, NDev]"

lemmas net_defs = net_start_def demo_env_def post_def br_handle_def mn_handle_def sm_handle_def dm_handle_def
  sm_pump_def dm_pump_def subscribeToData_def unsubscribeFromData_def tryPublish_def Let_def keeps_demand_def

text \<open>With a client, the system manager sends; after it has hung up the device manager does not.\<close>

definition demo_net :: "net_event list \<Rightarrow> unit net" where
  "demo_net es = net_runs demo_env es (net_start (\<lambda>_. 8) demo_env)"

definition demo_quiet :: "net_event list \<Rightarrow> bool" where
  "demo_quiet es \<longleftrightarrow> nt_lost (demo_net es) = [] \<and> sm_startTime (nt_sys (demo_net es)) = 0 \<and> sm_hasSys (nt_sys (demo_net es)) \<and> dm_hasPmu (nt_dev (demo_net es))
     \<and> list_all (\<lambda>m. tells_monitor m = None) (nt_mail (demo_net es) ''monitor'')
     \<and> list_all (\<lambda>m. tells_sys m = None) (nt_mail (demo_net es) ''system_manager'')
     \<and> list_all (\<lambda>m. tells_dev m = None) (nt_mail (demo_net es) ''device_manager'')"

lemma demo_quiet: "demo_quiet demo_net_events" "demo_quiet demo_hangup"
  by code_simp+

lemma demo_connections: "br_connections (nt_bridge (demo_net demo_net_events)) = [9]" "br_connections (nt_bridge (demo_net demo_hangup)) = []"
  by code_simp+


section \<open>A monitor that is restarted\<close>

fun no_subscribe :: "'f svc_msg \<Rightarrow> bool" where
  "no_subscribe (MonitorSubscribe n) \<longleftrightarrow> False"
| "no_subscribe _ \<longleftrightarrow> True"

fun harmless_to_bridge :: "'f svc_msg \<Rightarrow> bool" where
  "harmless_to_bridge (MonitorNewConnection c) \<longleftrightarrow> c \<noteq> 9"
| "harmless_to_bridge (MonitorClientDisconnected c) \<longleftrightarrow> False"
| "harmless_to_bridge (MonitorSnapshotUpdate x) \<longleftrightarrow> False"
| "harmless_to_bridge _ \<longleftrightarrow> True"

definition starving :: "'f net \<Rightarrow> bool" where
  "starving s \<longleftrightarrow> mn_subscribers (nt_monitor s) = [] \<and> mn_dataSubscribed (nt_monitor s) = False \<and> 9 \<in> set (br_connections (nt_bridge s))
     \<and> bw_wire (nt_world s) = [] \<and> (\<forall>m \<in> set (nt_mail s ''monitor_bridge''). harmless_to_bridge m)
     \<and> (\<forall>m \<in> set (nt_mail s ''monitor''). no_subscribe m)"

definition harmless :: "'f svc_msg \<Rightarrow> bool" where
  "harmless m \<longleftrightarrow> harmless_to_bridge m \<and> no_subscribe m"

lemma starving_post_all:
  assumes "starving s" and "\<forall>p \<in> set out. harmless (snd p)"
  shows "starving (post_all out s)"
proof -
  have "set (nt_mail (post_all out s) t) \<subseteq> set (nt_mail s t) \<union> snd ` set out" for t using post_all_adds[of out s t] by auto
  then show ?thesis using assms unfolding starving_def harmless_def by (simp, blast)
qed

lemma starving_post: "starving s \<Longrightarrow> harmless m \<Longrightarrow> starving (post (t, m) s)"
  using starving_post_all[of s "[(t, m)]"] by simp

lemma mn_handle_starving:
  "mn_subscribers s = [] \<Longrightarrow> mn_dataSubscribed s = False \<Longrightarrow> no_subscribe m \<Longrightarrow> mn_handle z now hs m s = (s', out)
   \<Longrightarrow> mn_subscribers s' = [] \<and> mn_dataSubscribed s' = False \<and> out = []"
  by (cases m) (auto simp: mn_handle_def Let_def tryPublish_def split: if_splits)

lemma insert_second: "9 \<in> set xs \<Longrightarrow> c \<noteq> 9 \<Longrightarrow> length (List.insert c xs) \<noteq> 1" for c :: int
  by (auto simp: List.insert_def length_Suc_conv)

lemma br_handle_starving:
  assumes "9 \<in> set (br_connections a)" and "harmless_to_bridge m" and "br_handle dump k m a w = (a', w', out)"
  shows "9 \<in> set (br_connections a') \<and> bw_wire w' = bw_wire w \<and> out = []"
  using assms insert_second by (cases m) (auto simp: br_handle_def Let_def split: if_splits)

lemma starving_step:
  assumes s: "starving s" and e: "case e of NConnect c \<Rightarrow> c \<noteq> 9 | NHangup _ \<Rightarrow> False | _ \<Rightarrow> True"
  shows "starving (net_step E e s)"
proof (cases e)
  case NBridge
  show ?thesis
  proof (cases "nt_mail s ''monitor_bridge''")
    case (Cons m ms)
    obtain a w out where h: "br_handle (ne_dump E) (ne_written E (nt_clock s)) m (nt_bridge s) (nt_world s) = (a, w, out)"
      by (metis prod_cases3)
    have "9 \<in> set (br_connections a) \<and> bw_wire w = bw_wire (nt_world s) \<and> out = []"
      by (rule br_handle_starving[OF _ _ h]) (use s Cons in \<open>simp_all add: starving_def\<close>)
    then show ?thesis using s Cons by (simp add: NBridge h starving_def)
  qed (use s NBridge in simp)
next
  case NMonitor
  show ?thesis
  proof (cases "nt_mail s ''monitor''")
    case (Cons m ms)
    obtain a out where h: "mn_handle (ne_zero E) (word_of_int (ne_now E (nt_clock s))) (ne_actors E (nt_clock s)) m (nt_monitor s) = (a, out)"
      by fastforce
    have "mn_subscribers a = [] \<and> mn_dataSubscribed a = False \<and> out = []"
      by (rule mn_handle_starving[OF _ _ _ h]) (use s Cons in \<open>simp_all add: starving_def\<close>)
    then show ?thesis using s Cons by (simp add: NMonitor h starving_def)
  qed (use s NMonitor in simp)
next
  case NSys
  show ?thesis
  proof (cases "nt_mail s ''system_manager''")
    case (Cons m ms)
    obtain a out sigs where h: "sm_handle (ne_zero E) (ne_sys E (nt_clock s)) (ne_now E (nt_clock s)) m (nt_sys s) = (a, out, sigs)"
      by (metis prod_cases3)
    have "starving (s\<lparr>nt_clock := nt_clock s + 1, nt_sys := a, nt_mail := (nt_mail s)(''system_manager'' := ms)\<rparr>)"
      using s by (simp add: starving_def)
    moreover have "\<forall>p \<in> set out. harmless (snd p)" using sm_sends_updates[OF h] by (fastforce simp: harmless_def)
    ultimately show ?thesis using starving_post_all[of _ out] Cons h by (fastforce simp: NSys)
  qed (use s NSys in simp)
next
  case NDev
  show ?thesis
  proof (cases "nt_mail s ''device_manager''")
    case (Cons m ms)
    obtain a out where h: "dm_handle (ne_zero E) (ne_pmu E (nt_clock s)) m (nt_dev s) = (a, out)" by fastforce
    have "starving (s\<lparr>nt_clock := nt_clock s + 1, nt_dev := a, nt_mail := (nt_mail s)(''device_manager'' := ms)\<rparr>)"
      using s by (simp add: starving_def)
    moreover have "\<forall>p \<in> set out. harmless (snd p)" using dm_sends_updates[OF h] by (fastforce simp: harmless_def)
    ultimately show ?thesis using starving_post_all[of _ out] Cons h by (fastforce simp: NDev)
  qed (use s NDev in simp)
next
  case NRestartMonitor
  then show ?thesis using s by (simp add: starving_def mn_open_def mn_close_def Let_def)
qed (use s e in \<open>auto intro!: starving_post simp: harmless_def\<close>)

lemma net_runs_append: "net_runs E (xs @ ys) s = net_runs E ys (net_runs E xs s)"
  by (induction xs arbitrary: s) simp_all

lemma starving_runs:
  "starving s \<Longrightarrow> \<forall>e \<in> set es. case e of NConnect c \<Rightarrow> c \<noteq> 9 | NHangup _ \<Rightarrow> False | _ \<Rightarrow> True \<Longrightarrow> starving (net_runs E es s)"
  by (induction es arbitrary: s) (simp_all add: starving_step)

text \<open>After the monitor has been closed and opened, as by a restart, while a client is connected, no client is ever sent a snapshot,
  whoever else connects, until the clients hang up: the bridge asks for data only for its first connection.
\<close>
theorem monitor_restart_starves_clients:
  assumes "\<forall>e \<in> set es. case e of NConnect c \<Rightarrow> c \<noteq> 9 | NHangup _ \<Rightarrow> False | _ \<Rightarrow> True"
    and "\<forall>t. 0 < caps t"
  shows "let s = net_runs E ([NConnect 9, NBridge, NMonitor, NRestartMonitor] @ es) (net_start caps E)
    in bw_wire (nt_world s) = [] \<and> 9 \<in> set (br_connections (nt_bridge s))"
proof -
  have c: "0 < caps t" for t using assms(2) by simp
  have "starving (net_runs E [NConnect 9, NBridge, NMonitor, NRestartMonitor] (net_start caps E))"
    by (simp add: c net_start_def post_def br_handle_def mn_handle_def subscribeToData_def starving_def
        mn_open_def mn_close_def Let_def)
  from starving_runs[OF this assms(1), of E] show ?thesis
    unfolding net_runs_append Let_def starving_def by blast
qed

theorem monitor_restart_starves_clients_witness:
  "let s = net_runs demo_env ([NConnect 9, NBridge, NMonitor, NRestartMonitor] @ [NConnect 10, NSysTick, NSys, NMonitor, NBridge])
             (net_start (\<lambda>_. 8) demo_env)
    in bw_wire (nt_world s) = [] \<and> 9 \<in> set (br_connections (nt_bridge s))"
  by (rule monitor_restart_starves_clients) simp_all

end
