(* ===== verification/Owned_Descriptors.thy ===== *)
theory Owned_Descriptors
  imports Uds_Transport Text_Format
begin

text \<open>
  Classes that own a descriptor: \<open>I2c\<close> (\<open>infra/hal/i2c/i2c_linux.cpp\<close>) and \<open>Epoll\<close> (\<open>infra/platform/linux/epoll.cpp\<close>).
  Both close it in the destructor, hand it on when they are moved from, and close their own before they take another's
  in an assignment. The objects live in a store under addresses of their own, the descriptors in a table of the
  process; closing a descriptor that is not open sets a flag. The discipline is stated once, as an interface, and both
  classes provide it. The system calls' answers are arguments.
\<close>

unbundle bit_operations_syntax

section \<open>Objects and descriptors\<close>

record 'o fd_world =
  fw_objs :: "nat \<Rightarrow> 'o option"
  fw_open :: "int set"
  fw_bad :: bool

definition fw_empty :: "'o fd_world" where
  "fw_empty = \<lparr>fw_objs = (\<lambda>_. None), fw_open = {}, fw_bad = False\<rparr>"

definition fd_close :: "int \<Rightarrow> 'o fd_world \<Rightarrow> 'o fd_world" where
  "fd_close fd w = (if fd \<in> fw_open w then w\<lparr>fw_open := fw_open w - {fd}\<rparr> else w\<lparr>fw_bad := True\<rparr>)"

definition put_obj :: "nat \<Rightarrow> 'o option \<Rightarrow> 'o fd_world \<Rightarrow> 'o fd_world" where
  "put_obj p x w = w\<lparr>fw_objs := (fw_objs w)(p := x)\<rparr>"

text \<open>What a class with a descriptor member does with it: \<open>held\<close> reads it, \<open>closed\<close> is the object after \<open>close\<close>,
  \<open>taken a b\<close> the object \<open>a\<close> after it has taken the members of \<open>b\<close>, \<open>moved b\<close> what is left of \<open>b\<close>.\<close>

definition fw_drop :: "('o \<Rightarrow> int) \<Rightarrow> 'o \<Rightarrow> 'o fd_world \<Rightarrow> 'o fd_world" where
  "fw_drop held x w = (if held x \<ge> 0 then fd_close (held x) w else w)"

definition fw_close :: "('o \<Rightarrow> int) \<Rightarrow> ('o \<Rightarrow> 'o) \<Rightarrow> nat \<Rightarrow> 'o fd_world \<Rightarrow> 'o fd_world" where
  "fw_close held closed p w =
     (case fw_objs w p of None \<Rightarrow> w | Some x \<Rightarrow> put_obj p (Some (closed x)) (fw_drop held x w))"

definition fw_destroy :: "('o \<Rightarrow> int) \<Rightarrow> nat \<Rightarrow> 'o fd_world \<Rightarrow> 'o fd_world" where
  "fw_destroy held p w = (case fw_objs w p of None \<Rightarrow> w | Some x \<Rightarrow> put_obj p None (fw_drop held x w))"

definition fw_move_new :: "('o \<Rightarrow> 'o \<Rightarrow> 'o) \<Rightarrow> ('o \<Rightarrow> 'o) \<Rightarrow> 'o \<Rightarrow> nat \<Rightarrow> nat \<Rightarrow> 'o fd_world \<Rightarrow> 'o fd_world" where
  "fw_move_new taken moved fresh p q w =
     (case (fw_objs w p, fw_objs w q) of
        (None, Some y) \<Rightarrow> put_obj q (Some (moved y)) (put_obj p (Some (taken fresh y)) w)
      | _ \<Rightarrow> w)"

definition fw_assign :: "('o \<Rightarrow> int) \<Rightarrow> ('o \<Rightarrow> 'o \<Rightarrow> 'o) \<Rightarrow> ('o \<Rightarrow> 'o) \<Rightarrow> nat \<Rightarrow> nat \<Rightarrow> 'o fd_world \<Rightarrow> 'o fd_world" where
  "fw_assign held taken moved p q w =
     (if p = q then w
      else case (fw_objs w p, fw_objs w q) of
             (Some x, Some y) \<Rightarrow> put_obj q (Some (moved y)) (put_obj p (Some (taken x y)) (fw_drop held x w))
           | _ \<Rightarrow> w)"

text \<open>Every open descriptor is held by exactly one object, no object holds one that is not open, and nothing has been
  closed that was not open.\<close>

definition holds :: "('o \<Rightarrow> int) \<Rightarrow> 'o fd_world \<Rightarrow> nat \<Rightarrow> int option" where
  "holds held w p = (case fw_objs w p of None \<Rightarrow> None | Some x \<Rightarrow> if held x < 0 then None else Some (held x))"

definition exclusive :: "(nat \<Rightarrow> int option) \<Rightarrow> int set \<Rightarrow> bool" where
  "exclusive m S \<longleftrightarrow> (\<forall>fd. fd \<in> S \<longleftrightarrow> (\<exists>p. m p = Some fd)) \<and> (\<forall>p q fd. m p = Some fd \<longrightarrow> m q = Some fd \<longrightarrow> p = q)"

definition owned_once :: "('o \<Rightarrow> int) \<Rightarrow> 'o fd_world \<Rightarrow> bool" where
  "owned_once held w \<longleftrightarrow> \<not> fw_bad w \<and> exclusive (holds held w) (fw_open w)"

lemma owned_empty: "owned_once held fw_empty"
  by (simp add: owned_once_def fw_empty_def exclusive_def holds_def)

lemma exclusive_open:
  assumes e: "exclusive m S" and p: "m p = None" and fd: "fd \<notin> S"
  shows "exclusive (m(p \<mapsto> fd)) (insert fd S)"
  unfolding exclusive_def
proof (intro conjI allI impI)
  fix f show "f \<in> insert fd S \<longleftrightarrow> (\<exists>q. (m(p \<mapsto> fd)) q = Some f)"
  proof
    assume "f \<in> insert fd S"
    then consider "f = fd" | q where "m q = Some f" using e unfolding exclusive_def by blast
    then show "\<exists>q. (m(p \<mapsto> fd)) q = Some f"
    proof cases
      case 1
      then show ?thesis by (intro exI[of _ p]) simp
    next
      case (2 q)
      then show ?thesis using p by (intro exI[of _ q]) auto
    qed
  next
    assume "\<exists>q. (m(p \<mapsto> fd)) q = Some f"
    then show "f \<in> insert fd S" using e unfolding exclusive_def by (auto split: if_splits)
  qed
next
  fix q r f assume "(m(p \<mapsto> fd)) q = Some f" "(m(p \<mapsto> fd)) r = Some f"
  then show "q = r" using e fd unfolding exclusive_def by (metis fun_upd_apply option.inject)
qed

lemma exclusive_close:
  assumes e: "exclusive m S" and p: "m p = Some fd"
  shows "fd \<in> S" and "exclusive (m(p := None)) (S - {fd})"
proof -
  show "fd \<in> S" using assms unfolding exclusive_def by blast
  show "exclusive (m(p := None)) (S - {fd})"
    unfolding exclusive_def
  proof (intro conjI allI impI)
    fix f show "f \<in> S - {fd} \<longleftrightarrow> (\<exists>q. (m(p := None)) q = Some f)"
      using e p unfolding exclusive_def by (metis Diff_iff fun_upd_apply option.distinct(1) option.inject singletonD singletonI)
  next
    fix q r f assume "(m(p := None)) q = Some f" "(m(p := None)) r = Some f"
    then show "q = r" using e unfolding exclusive_def by (metis fun_upd_apply option.distinct(1))
  qed
qed

lemma exclusive_move:
  assumes e: "exclusive m S" and p: "m p = None" and pq: "p \<noteq> q"
  shows "exclusive (m(p := m q, q := None)) S"
  unfolding exclusive_def
proof (intro conjI allI impI)
  fix f show "f \<in> S \<longleftrightarrow> (\<exists>r. (m(p := m q, q := None)) r = Some f)"
    using e p pq unfolding exclusive_def by (metis fun_upd_apply option.distinct(1))
next
  fix r t f assume "(m(p := m q, q := None)) r = Some f" "(m(p := m q, q := None)) t = Some f"
  then show "r = t" using e p unfolding exclusive_def by (metis fun_upd_apply option.distinct(1))
qed

lemma holds_put:
  "holds held (put_obj p x w) = (holds held w)(p := (case x of None \<Rightarrow> None | Some y \<Rightarrow> if held y < 0 then None else Some (held y)))"
  by (auto simp: holds_def put_obj_def fun_eq_iff)

lemma holds_drop [simp]: "holds held (fw_drop held' x w) = holds held w"
  by (simp add: holds_def fw_drop_def fd_close_def fun_eq_iff)

lemma put_obj_fields [simp]: "fw_open (put_obj p x w) = fw_open w" "fw_bad (put_obj p x w) = fw_bad w"
  by (simp_all add: put_obj_def)

section \<open>The interface\<close>

locale fd_owner =
  fixes held :: "'o \<Rightarrow> int" and closed moved :: "'o \<Rightarrow> 'o" and taken :: "'o \<Rightarrow> 'o \<Rightarrow> 'o"
  assumes held_closed: "held (closed x) < 0" and held_moved: "held (moved x) < 0" and held_taken: "held (taken x y) = held y"
begin

lemma keeps_new:
  "owned_once held w \<Longrightarrow> fw_objs w p = None \<Longrightarrow> held x < 0 \<Longrightarrow> owned_once held (put_obj p (Some x) w)"
  by (simp add: owned_once_def holds_put fun_upd_idem holds_def)

lemma keeps_opened:
  assumes "owned_once held w" and "fw_objs w p = Some x" "held x < 0" and "held y = fd" "0 \<le> fd" "fd \<notin> fw_open w"
  shows "owned_once held ((put_obj p (Some y) w)\<lparr>fw_open := insert fd (fw_open w)\<rparr>)"
proof -
  have "holds held ((put_obj p (Some y) w)\<lparr>fw_open := insert fd (fw_open w)\<rparr>) = (holds held w)(p \<mapsto> fd)"
    using assms(4,5) by (auto simp: holds_def put_obj_def fun_eq_iff)
  moreover have "holds held w p = None" using assms(2,3) by (simp add: holds_def)
  ultimately show ?thesis using assms(1,6) exclusive_open[of "holds held w" "fw_open w" p fd]
    by (simp add: owned_once_def)
qed

text \<open>After the descriptor of \<open>p\<close> is closed, with the object gone or holding none.\<close>

lemma keeps_dropped:
  assumes "owned_once held w" and "fw_objs w p = Some x" and "case y of None \<Rightarrow> True | Some z \<Rightarrow> held z < 0"
  shows "owned_once held (put_obj p y (fw_drop held x w))"
proof (cases "held x < 0")
  case True
  then show ?thesis using assms by (simp add: owned_once_def holds_put fun_upd_idem holds_def fw_drop_def split: option.splits)
next
  case False
  then have p: "holds held w p = Some (held x)" using assms(2) by (simp add: holds_def)
  have e: "exclusive (holds held w) (fw_open w)" using assms(1) by (simp add: owned_once_def)
  note c = exclusive_close[OF e p]
  have "holds held (put_obj p y (fw_drop held x w)) = (holds held w)(p := None)"
    using assms(3) by (simp add: holds_put split: option.splits)
  then show ?thesis using False c assms(1) by (simp add: owned_once_def fw_drop_def fd_close_def)
qed

lemma keeps_close: "owned_once held w \<Longrightarrow> owned_once held (fw_close held closed p w)"
  by (auto simp: fw_close_def held_closed intro!: keeps_dropped split: option.split)

lemma keeps_destroy: "owned_once held w \<Longrightarrow> owned_once held (fw_destroy held p w)"
  by (auto simp: fw_destroy_def intro!: keeps_dropped split: option.split)

lemma keeps_handed:
  assumes "owned_once held w" and "holds held w p = None" and "fw_objs w q = Some y" and "p \<noteq> q"
  shows "owned_once held (put_obj q (Some (moved y)) (put_obj p (Some (taken x y)) w))"
proof -
  have "holds held (put_obj q (Some (moved y)) (put_obj p (Some (taken x y)) w)) = (holds held w)(p := holds held w q, q := None)"
    using assms(3) by (simp add: holds_put held_moved held_taken) (simp add: holds_def)
  then show ?thesis using exclusive_move[where m = "holds held w" and p = p and q = q and S = "fw_open w"] assms
    by (simp add: owned_once_def)
qed

lemma keeps_move_new: "owned_once held w \<Longrightarrow> owned_once held (fw_move_new taken moved fresh p q w)"
  unfolding fw_move_new_def
  by (auto intro!: keeps_handed simp: holds_def split: option.split)

lemma keeps_assign: "owned_once held w \<Longrightarrow> owned_once held (fw_assign held taken moved p q w)"
proof -
  assume w: "owned_once held w"
  have "owned_once held (put_obj q (Some (moved y)) (put_obj p (Some (taken x y)) (fw_drop held x w)))"
    if "fw_objs w p = Some x" "fw_objs w q = Some y" "p \<noteq> q" for x y
  proof -
    let ?w = "put_obj p (Some (closed x)) (fw_drop held x w)"
    have "owned_once held ?w" by (rule keeps_dropped[OF w that(1)]) (simp add: held_closed)
    moreover have "holds held ?w p = None" by (simp add: holds_def put_obj_def held_closed)
    moreover have "fw_objs ?w q = Some y" using that by (simp add: put_obj_def fw_drop_def fd_close_def)
    ultimately have "owned_once held (put_obj q (Some (moved y)) (put_obj p (Some (taken x y)) ?w))"
      using keeps_handed that(3) by blast
    then show ?thesis by (simp add: put_obj_def)
  qed
  then show ?thesis using w by (auto simp: fw_assign_def split: option.split)
qed

end

section \<open>\<open>I2c\<close>\<close>

record i2c =
  ic_fd :: int
  ic_bus :: int

definition i2c_new :: i2c where "i2c_new = \<lparr>ic_fd = -1, ic_bus = -1\<rparr>"
definition i2c_closed :: "i2c \<Rightarrow> i2c" where "i2c_closed x = (if ic_fd x \<ge> 0 then \<lparr>ic_fd = -1, ic_bus = -1\<rparr> else x)"
definition i2c_moved :: "i2c \<Rightarrow> i2c" where "i2c_moved x = x\<lparr>ic_fd := -1, ic_bus := -1\<rparr>"
definition i2c_taken :: "i2c \<Rightarrow> i2c \<Rightarrow> i2c" where "i2c_taken x y = x\<lparr>ic_fd := ic_fd y, ic_bus := ic_bus y\<rparr>"

text \<open>The path is formatted into 32 bytes; \<open>alloc\<close> is the kernel's choice of a descriptor for \<open>open\<close>, \<open>funcs\<close> its answer
  to \<open>I2C_FUNCS\<close>.\<close>

definition i2c_path :: "int \<Rightarrow> string" where "i2c_path bus = ''/dev/i2c-'' @ dec_int bus"

definition i2c_open :: "(int set \<Rightarrow> int option) \<Rightarrow> u64 option \<Rightarrow> int \<Rightarrow> nat \<Rightarrow> i2c fd_world \<Rightarrow> result_code \<times> i2c fd_world" where
  "i2c_open alloc funcs bus p w =
     (case fw_objs w p of
        None \<Rightarrow> (Fail, w)
      | Some x \<Rightarrow>
          if ic_fd x \<ge> 0 then (InvalidState, w)
          else if length (i2c_path bus) \<ge> 32 then (InvalidArg, w)
          else (case alloc (fw_open w) of
                  None \<Rightarrow> (Fail, put_obj p (Some (x\<lparr>ic_fd := -1\<rparr>)) w)
                | Some fd \<Rightarrow>
                    (let w1 = (put_obj p (Some (x\<lparr>ic_fd := fd\<rparr>)) w)\<lparr>fw_open := insert fd (fw_open w)\<rparr> in
                     case funcs of
                       None \<Rightarrow> (Fail, put_obj p (Some (x\<lparr>ic_fd := -1\<rparr>)) (fd_close fd w1))
                     | Some f \<Rightarrow>
                         if f AND 1 = 0 then (Fail, put_obj p (Some (x\<lparr>ic_fd := -1\<rparr>)) (fd_close fd w1))
                         else (Ok, put_obj p (Some (x\<lparr>ic_fd := fd, ic_bus := bus\<rparr>)) w1))))"

interpretation i2c: fd_owner ic_fd i2c_closed i2c_moved i2c_taken
  by unfold_locales (simp_all add: i2c_closed_def i2c_moved_def i2c_taken_def)

section \<open>\<open>Epoll\<close>\<close>

record epoll = ep_fd :: int

definition epoll_moved :: "epoll \<Rightarrow> epoll" where "epoll_moved x = x\<lparr>ep_fd := -1\<rparr>"
definition epoll_taken :: "epoll \<Rightarrow> epoll \<Rightarrow> epoll" where "epoll_taken x y = x\<lparr>ep_fd := ep_fd y\<rparr>"

definition epoll_new :: "(int set \<Rightarrow> int option) \<Rightarrow> nat \<Rightarrow> epoll fd_world \<Rightarrow> epoll fd_world" where
  "epoll_new alloc p w =
     (case fw_objs w p of
        Some _ \<Rightarrow> w
      | None \<Rightarrow>
          (case alloc (fw_open w) of
             None \<Rightarrow> put_obj p (Some \<lparr>ep_fd = -1\<rparr>) w
           | Some fd \<Rightarrow> (put_obj p (Some \<lparr>ep_fd = fd\<rparr>) (put_obj p (Some \<lparr>ep_fd = -1\<rparr>) w))\<lparr>fw_open := insert fd (fw_open w)\<rparr>))"

text \<open>\<open>add\<close>, \<open>mod\<close> and \<open>del\<close> pass the kernel's verdict on; \<open>wait\<close> repeats an interrupted call, \<open>t\<close> numbers the calls.\<close>

definition epoll_ctl_result :: "bool \<Rightarrow> result_code" where
  "epoll_ctl_result ok = (if ok then Ok else Fail)"

partial_function (option) epoll_wait :: "(nat \<Rightarrow> sys_count) \<Rightarrow> nat \<Rightarrow> (int \<times> nat) option" where
  "epoll_wait os t =
     (case os t of
        SysIntr \<Rightarrow> epoll_wait os (Suc t)
      | SysErr \<Rightarrow> Some (result_value Fail, Suc t)
      | SysN n \<Rightarrow> Some (int n, Suc t))"

interpretation epoll: fd_owner ep_fd epoll_moved epoll_moved epoll_taken
  by unfold_locales (simp_all add: epoll_moved_def epoll_taken_def)

section \<open>Histories\<close>

datatype i2c_op =
    I2cNew nat | I2cOpen nat int "u64 option" | I2cClose nat | I2cDestroy nat | I2cMoveNew nat nat | I2cAssign nat nat

fun i2c_step :: "(int set \<Rightarrow> int option) \<Rightarrow> i2c_op \<Rightarrow> i2c fd_world \<Rightarrow> i2c fd_world" where
  "i2c_step alloc (I2cNew p) w = (case fw_objs w p of None \<Rightarrow> put_obj p (Some i2c_new) w | Some _ \<Rightarrow> w)"
| "i2c_step alloc (I2cOpen p bus funcs) w = snd (i2c_open alloc funcs bus p w)"
| "i2c_step alloc (I2cClose p) w = fw_close ic_fd i2c_closed p w"
| "i2c_step alloc (I2cDestroy p) w = fw_destroy ic_fd p w"
| "i2c_step alloc (I2cMoveNew p q) w = fw_move_new i2c_taken i2c_moved i2c_new p q w"
| "i2c_step alloc (I2cAssign p q) w = fw_assign ic_fd i2c_taken i2c_moved p q w"

datatype epoll_op = EpNew nat | EpDestroy nat | EpMoveNew nat nat | EpAssign nat nat

fun epoll_step :: "(int set \<Rightarrow> int option) \<Rightarrow> epoll_op \<Rightarrow> epoll fd_world \<Rightarrow> epoll fd_world" where
  "epoll_step alloc (EpNew p) w = epoll_new alloc p w"
| "epoll_step alloc (EpDestroy p) w = fw_destroy ep_fd p w"
| "epoll_step alloc (EpMoveNew p q) w = fw_move_new epoll_taken epoll_moved \<lparr>ep_fd = -1\<rparr> p q w"
| "epoll_step alloc (EpAssign p q) w = fw_assign ep_fd epoll_taken epoll_moved p q w"

text \<open>The kernel hands out descriptors that are not in use.\<close>

definition fresh_fds :: "(int set \<Rightarrow> int option) \<Rightarrow> bool" where
  "fresh_fds alloc \<longleftrightarrow> (\<forall>S fd. alloc S = Some fd \<longrightarrow> 0 \<le> fd \<and> fd \<notin> S)"

lemma put_put [simp]: "put_obj p x (put_obj p y w) = put_obj p x w"
  by (simp add: put_obj_def)

lemma i2c_open_owned:
  assumes "fresh_fds alloc" and w: "owned_once ic_fd w"
  shows "owned_once ic_fd (snd (i2c_open alloc funcs bus p w))"
proof (cases "fw_objs w p")
  case None
  then show ?thesis using w by (simp add: i2c_open_def)
next
  case (Some x)
  show ?thesis
  proof (cases "ic_fd x \<ge> 0 \<or> length (i2c_path bus) \<ge> 32")
    case True
    then show ?thesis using w Some by (auto simp: i2c_open_def)
  next
    case False
    have gone: "owned_once ic_fd (put_obj p (Some (x\<lparr>ic_fd := -1\<rparr>)) w)"
      using i2c.keeps_dropped[OF w Some, of "Some (x\<lparr>ic_fd := -1\<rparr>)"] False by (simp add: fw_drop_def)
    show ?thesis
    proof (cases "alloc (fw_open w)")
      case None
      then show ?thesis using Some False gone by (simp add: i2c_open_def)
    next
      case fd: (Some fd)
      then have f: "0 \<le> fd" "fd \<notin> fw_open w" using assms(1) by (simp_all add: fresh_fds_def)
      let ?w1 = "(put_obj p (Some (x\<lparr>ic_fd := fd\<rparr>)) w)\<lparr>fw_open := insert fd (fw_open w)\<rparr>"
      have opened: "owned_once ic_fd ((put_obj p (Some y) w)\<lparr>fw_open := insert fd (fw_open w)\<rparr>)" if "ic_fd y = fd" for y
        by (rule i2c.keeps_opened[OF w Some]) (use that f False in simp_all)
      have closed: "put_obj p (Some (x\<lparr>ic_fd := -1\<rparr>)) (fd_close fd ?w1) = put_obj p (Some (x\<lparr>ic_fd := -1\<rparr>)) w"
        using f(2) by (simp add: fd_close_def put_obj_def)
      have put: "put_obj p (Some y) ?w1 = (put_obj p (Some y) w)\<lparr>fw_open := insert fd (fw_open w)\<rparr>" for y
        by (simp add: put_obj_def)
      show ?thesis using Some False fd gone opened
        by (simp add: i2c_open_def Let_def closed put split: option.split)
    qed
  qed
qed

lemma i2c_step_owned: "fresh_fds alloc \<Longrightarrow> owned_once ic_fd w \<Longrightarrow> owned_once ic_fd (i2c_step alloc op w)"
  by (cases op) (simp_all add: i2c_open_owned i2c.keeps_close i2c.keeps_destroy i2c.keeps_move_new i2c.keeps_assign
      i2c.keeps_new i2c_new_def split: option.split)

lemma epoll_step_owned:
  assumes "fresh_fds alloc" and w: "owned_once ep_fd w"
  shows "owned_once ep_fd (epoll_step alloc op w)"
proof (cases op)
  case (EpNew p)
  show ?thesis
  proof (cases "fw_objs w p")
    case None
    have bare: "owned_once ep_fd (put_obj p (Some \<lparr>ep_fd = -1\<rparr>) w)" by (rule epoll.keeps_new[OF w None]) simp
    show ?thesis
    proof (cases "alloc (fw_open w)")
      case (Some fd)
      then have "0 \<le> fd" "fd \<notin> fw_open w" using assms(1) by (simp_all add: fresh_fds_def)
      moreover have "fw_objs (put_obj p (Some \<lparr>ep_fd = -1\<rparr>) w) p = Some \<lparr>ep_fd = -1\<rparr>" by (simp add: put_obj_def)
      ultimately have "owned_once ep_fd ((put_obj p (Some \<lparr>ep_fd = fd\<rparr>) (put_obj p (Some \<lparr>ep_fd = -1\<rparr>) w))
          \<lparr>fw_open := insert fd (fw_open (put_obj p (Some \<lparr>ep_fd = -1\<rparr>) w))\<rparr>)"
        by (intro epoll.keeps_opened[OF bare, where x = "\<lparr>ep_fd = -1\<rparr>"]) simp_all
      then show ?thesis using EpNew None Some by (simp add: epoll_new_def)
    qed (use EpNew None bare in \<open>simp add: epoll_new_def\<close>)
  qed (use EpNew w in \<open>simp add: epoll_new_def\<close>)
qed (use w in \<open>simp_all add: epoll.keeps_destroy epoll.keeps_move_new epoll.keeps_assign\<close>)

lemma owned_none: "owned_once held w \<Longrightarrow> \<forall>p. fw_objs w p = None \<Longrightarrow> fw_open w = {}"
  by (auto simp: owned_once_def exclusive_def holds_def)

section \<open>Transfers\<close>

type_synonym i2c_msg = "u16 \<times> bool \<times> u16"

definition i2c_msgs :: "u16 \<Rightarrow> u64 \<Rightarrow> u64 \<Rightarrow> i2c_msg list" where
  "i2c_msgs addr wlen rlen =
     (if wlen > 0 then [(addr, False, ucast wlen)] else []) @ (if rlen > 0 then [(addr, True, ucast rlen)] else [])"

text \<open>\<open>transfer\<close> returns the number of bytes or a negative code, and what it asks of the kernel; \<open>ok\<close> is the kernel's
  verdict on the combined transaction.\<close>

definition i2c_transfer :: "bool \<Rightarrow> u16 \<Rightarrow> u64 \<Rightarrow> u64 \<Rightarrow> i2c \<Rightarrow> int \<times> i2c_msg list" where
  "i2c_transfer ok addr wlen rlen x =
     (if ic_fd x < 0 then (result_value InvalidState, [])
      else if wlen = 0 \<and> rlen = 0 then (result_value InvalidArg, [])
      else if ok then (sint (ucast (wlen + rlen) :: u32), i2c_msgs addr wlen rlen)
      else (result_value Fail, i2c_msgs addr wlen rlen))"

definition i2c_read :: "bool \<Rightarrow> u16 \<Rightarrow> u64 \<Rightarrow> i2c \<Rightarrow> int \<times> i2c_msg list" where
  "i2c_read ok addr len x = i2c_transfer ok addr 0 len x"

definition i2c_write :: "bool \<Rightarrow> u16 \<Rightarrow> u64 \<Rightarrow> i2c \<Rightarrow> int \<times> i2c_msg list" where
  "i2c_write ok addr len x = i2c_transfer ok addr len 0 x"

text \<open>The message lengths have 16 bits. Below that the number returned is the number of bytes the kernel was asked for;
  a write of 64 kilobytes asks for none and reports them all.\<close>

lemma transfer_counts_bytes:
  assumes "0 \<le> ic_fd x" and "wlen < 2 ^ 16" "rlen < 2 ^ 16" "wlen \<noteq> 0 \<or> rlen \<noteq> 0"
  shows "fst (i2c_transfer True addr wlen rlen x) = sum_list (map (\<lambda>(_, _, n). uint n) (i2c_msgs addr wlen rlen))"
proof -
  have l: "uint wlen < 2 ^ 16" "uint rlen < 2 ^ 16" using assms(2,3) by (simp_all add: word_less_def)
  have u: "uint (ucast wlen :: u16) = uint wlen" "uint (ucast rlen :: u16) = uint rlen"
    using l by (simp_all add: unsigned_ucast_eq take_bit_int_eq_self)
  have s: "uint (wlen + rlen) = uint wlen + uint rlen"
    using l by (simp add: uint_word_ariths)
  have "- (2 ^ 31) \<le> uint wlen + uint rlen" by (rule order_trans[of _ 0]) simp_all
  then have "signed_take_bit 31 (uint wlen + uint rlen) = uint wlen + uint rlen"
    using l by (intro signed_take_bit_int_eq_self) simp_all
  then have "sint (ucast (wlen + rlen) :: u32) = uint wlen + uint rlen"
    using l by (simp add: sint_uint unsigned_ucast_eq s take_bit_int_eq_self)
  then show ?thesis using assms(1,4) u by (auto simp: i2c_transfer_def i2c_msgs_def word_neq_0_conv[symmetric])
qed

theorem long_write_reports_untransferred_bytes:
  "0 \<le> ic_fd x \<Longrightarrow> i2c_write True addr 65536 x = (65536, [(addr, False, 0)])"
  by (simp add: i2c_write_def i2c_transfer_def i2c_msgs_def)

section \<open>Properties\<close>

text \<open>
  C38: Descriptors have one owner. Whatever objects of the two classes are created, opened, moved into new objects,
  assigned - to themselves also -, closed and destroyed, and whatever the kernel answers: every open descriptor is held
  by exactly one object, none is closed twice or after it was handed on, and when all objects are gone none is left open.
\<close>

theorem descriptors_have_one_owner:
  assumes "fresh_fds alloc"
  shows "(let w = fold (i2c_step alloc) ops fw_empty in
      owned_once ic_fd w \<and> ((\<forall>p. fw_objs w p = None) \<longrightarrow> fw_open w = {})) \<and>
    (let w = fold (epoll_step alloc) eops fw_empty in
      owned_once ep_fd w \<and> ((\<forall>p. fw_objs w p = None) \<longrightarrow> fw_open w = {}))"
proof -
  have i: "owned_once ic_fd (fold (i2c_step alloc) ops w)" if "owned_once ic_fd w" for w
    using that by (induction ops arbitrary: w) (simp_all add: i2c_step_owned[OF assms])
  have e: "owned_once ep_fd (fold (epoll_step alloc) eops w)" if "owned_once ep_fd w" for w
    using that by (induction eops arbitrary: w) (simp_all add: epoll_step_owned[OF assms])
  note I = i[OF owned_empty] and E = e[OF owned_empty]
  show ?thesis using I E owned_none[OF I] owned_none[OF E] by (simp add: Let_def)
qed

definition demo_alloc :: "int set \<Rightarrow> int option" where
  "demo_alloc S = (if 3 \<notin> S then Some 3 else if 4 \<notin> S then Some 4 else None)"

definition demo_bus_ops :: "i2c_op list" where
  "demo_bus_ops = [I2cNew 0, I2cOpen 0 1 (Some 1), I2cNew 1, I2cOpen 1 2 (Some 1), I2cAssign 0 1, I2cMoveNew 2 0,
     I2cOpen 0 1 None, I2cDestroy 1]"

lemma demo_bus_state:
  "fw_objs (fold (i2c_step demo_alloc) demo_bus_ops fw_empty) 2 = Some \<lparr>ic_fd = 4, ic_bus = 2\<rparr>"
  "fw_open (fold (i2c_step demo_alloc) demo_bus_ops fw_empty) = {4}"
  by (auto simp: demo_bus_ops_def demo_alloc_def fw_empty_def i2c_new_def i2c_open_def i2c_path_def dec_int_def dec_def
      digits.simps put_obj_def fw_assign_def fw_move_new_def fw_destroy_def fw_drop_def fd_close_def i2c_taken_def i2c_moved_def
      Let_def)

theorem descriptors_have_one_owner_witness:
  "owned_once ic_fd (fold (i2c_step demo_alloc) demo_bus_ops fw_empty)
   \<and> fw_open (fold (i2c_step demo_alloc) demo_bus_ops fw_empty) = {4}
   \<and> owned_once ep_fd (fold (epoll_step demo_alloc) [EpNew 0, EpMoveNew 1 0, EpAssign 1 1] fw_empty)"
  using descriptors_have_one_owner[of demo_alloc demo_bus_ops "[EpNew 0, EpMoveNew 1 0, EpAssign 1 1]"] demo_bus_state(2)
  by (simp add: fresh_fds_def demo_alloc_def Let_def split: if_splits del: fold_simps)

text \<open>\<open>wait\<close> returns exactly when some call is not interrupted, with that call's answer.\<close>

declare epoll_wait.simps [simp del]

lemma epoll_wait_skip: "\<forall>u. t \<le> u \<and> u < t + m \<longrightarrow> os u = SysIntr \<Longrightarrow> epoll_wait os t = epoll_wait os (t + m)"
proof (induction m)
  case (Suc m)
  then have "epoll_wait os t = epoll_wait os (t + m)" by simp
  also have "\<dots> = epoll_wait os (t + Suc m)" using Suc.prems by (subst epoll_wait.simps) simp
  finally show ?case .
qed simp

lemma epoll_wait_answers:
  assumes "os (t + m) \<noteq> SysIntr" and "\<forall>u. t \<le> u \<and> u < t + m \<longrightarrow> os u = SysIntr"
  shows "epoll_wait os t = Some (case os (t + m) of SysN n \<Rightarrow> int n | _ \<Rightarrow> result_value Fail, Suc (t + m))"
  unfolding epoll_wait_skip[OF assms(2)] using assms(1) by (subst epoll_wait.simps) (simp split: sys_count.split)

end
