(* ===== verification/Ring_Buffer.thy ===== *)
theory Ring_Buffer
  imports V2_Prelude
begin

text \<open>
  The byte ring buffer of \<open>src/src/core/common/container/ring_buffer.cpp\<close>. The record holds the
  members of \<open>RingBuffer\<close> (\<open>buffer_\<close>, \<open>head_\<close>, \<open>tail_\<close>, \<open>count_\<close>); \<open>head_\<close> is the write index and
  \<open>tail_\<close> the read index. A pointer argument is an option (\<open>None\<close> is \<open>nullptr\<close>) over the bytes it
  points to, of which the call may use \<open>size\<close>. Every index stays below the capacity of the vector
  and every sum below twice of it, so \<open>size_t\<close> does not wrap and \<open>nat\<close> is used.
  \<open>rb_contents\<close> is the abstract byte sequence the buffer stands for.
\<close>

section \<open>State and operations\<close>

record ring_buffer =
  rb_buf :: "u8 list"
  rb_head :: nat
  rb_tail :: nat
  rb_count :: nat

definition rb_new :: "nat \<Rightarrow> ring_buffer option" where
  "rb_new sz =
     (if sz > 0
      then Some \<lparr>rb_buf = replicate sz 0, rb_head = 0, rb_tail = 0, rb_count = 0\<rparr>
      else None)"

definition rb_capacity :: "ring_buffer \<Rightarrow> nat" where
  "rb_capacity b = length (rb_buf b)"

definition rb_free :: "ring_buffer \<Rightarrow> nat" where
  "rb_free b = rb_capacity b - rb_count b"

definition rb_push :: "u8 list option \<Rightarrow> nat \<Rightarrow> ring_buffer \<Rightarrow> ring_buffer \<times> result_code" where
  "rb_push data sz b =
     (case data of
        None \<Rightarrow> (b, InvalidArg)
      | Some d \<Rightarrow>
          if sz = 0 then (b, InvalidArg)
          else if sz > rb_free b then (b, Fail)
          else
            let first = min sz (rb_capacity b - rb_head b);
                buf1 = mem_write (rb_buf b) (rb_head b) (take first d);
                remain = sz - first;
                buf2 = (if remain > 0 then mem_write buf1 0 (take remain (drop first d)) else buf1)
            in (\<lparr>rb_buf = buf2, rb_head = (rb_head b + sz) mod rb_capacity b,
                 rb_tail = rb_tail b, rb_count = rb_count b + sz\<rparr>, Ok))"

text \<open>
  \<open>rb_pop\<close> returns the bytes written to \<open>out\<close>; \<open>out_null\<close> says the caller passed \<open>nullptr\<close>.
\<close>

definition rb_pop :: "bool \<Rightarrow> nat \<Rightarrow> ring_buffer \<Rightarrow> ring_buffer \<times> result_code \<times> u8 list" where
  "rb_pop out_null sz b =
     (if out_null \<or> sz = 0 then (b, InvalidArg, [])
      else if sz > rb_count b then (b, Fail, [])
      else
        let first = min sz (rb_capacity b - rb_tail b);
            part1 = take first (drop (rb_tail b) (rb_buf b));
            remain = sz - first;
            part2 = (if remain > 0 then take remain (rb_buf b) else [])
        in (b\<lparr>rb_tail := (rb_tail b + sz) mod rb_capacity b, rb_count := rb_count b - sz\<rparr>,
            Ok, part1 @ part2))"

definition rb_reset :: "ring_buffer \<Rightarrow> ring_buffer" where
  "rb_reset b = b\<lparr>rb_head := 0, rb_tail := 0, rb_count := 0\<rparr>"

definition rb_empty :: "ring_buffer \<Rightarrow> bool" where
  "rb_empty b \<longleftrightarrow> rb_count b = 0"

definition rb_full :: "ring_buffer \<Rightarrow> bool" where
  "rb_full b \<longleftrightarrow> rb_count b = rb_capacity b"

section \<open>Invariant and abstraction\<close>

definition rb_inv :: "ring_buffer \<Rightarrow> bool" where
  "rb_inv b \<longleftrightarrow> rb_tail b < rb_capacity b \<and> rb_count b \<le> rb_capacity b \<and>
     rb_head b = (rb_tail b + rb_count b) mod rb_capacity b"

definition rb_contents :: "ring_buffer \<Rightarrow> u8 list" where
  "rb_contents b = map (\<lambda>k. rb_buf b ! ((rb_tail b + k) mod rb_capacity b)) [0..<rb_count b]"

lemma length_rb_contents [simp]: "length (rb_contents b) = rb_count b"
  by (simp add: rb_contents_def)

lemma rb_inv_new: "rb_new n = Some b \<Longrightarrow> rb_inv b \<and> rb_contents b = [] \<and> rb_capacity b = n"
  by (auto simp: rb_new_def rb_inv_def rb_contents_def rb_capacity_def split: if_splits)

lemma rb_inv_reset: "rb_inv b \<Longrightarrow> rb_inv (rb_reset b) \<and> rb_contents (rb_reset b) = []"
  by (auto simp: rb_reset_def rb_inv_def rb_contents_def rb_capacity_def)

text \<open>Both copies of a push together write byte \<open>k\<close> of the data at index \<open>(head + k) mod cap\<close>.\<close>

lemma rb_push_nth:
  fixes n h sz :: nat
  assumes "length buf = n" "h < n" "sz \<le> n" "sz \<le> length d" "i < n"
  defines "first \<equiv> min sz (n - h)"
  defines "buf1 \<equiv> mem_write buf h (take first d)"
  defines "buf2 \<equiv> (if sz - first > 0 then mem_write buf1 0 (take (sz - first) (drop first d)) else buf1)"
  shows "length buf2 = n"
    and "buf2 ! i = (if h \<le> i \<and> i < h + sz then d ! (i - h)
                     else if i + n < h + sz then d ! (i + n - h) else buf ! i)"
proof -
  have l1: "length buf1 = n"
    using assms by (simp add: buf1_def first_def)
  show "length buf2 = n"
    using assms l1 by (auto simp: buf2_def first_def)
  show "buf2 ! i = (if h \<le> i \<and> i < h + sz then d ! (i - h)
                     else if i + n < h + sz then d ! (i + n - h) else buf ! i)"
  proof (cases "sz \<le> n - h")
    case True
    then have "buf2 = mem_write buf h (take sz d)"
      by (simp add: buf2_def buf1_def first_def)
    then show ?thesis using assms(1-5) True
      by (auto simp: nth_mem_write)
  next
    case False
    define m where "m = sz - (n - h)"
    have b2: "buf2 = mem_write buf1 0 (take m (drop (n - h) d))" and b1: "buf1 = mem_write buf h (take (n - h) d)"
      using False by (simp_all add: buf2_def buf1_def first_def m_def)
    have lt: "length (take m (drop (n - h) d)) = m" "m \<le> n" "length (take (n - h) d) = n - h"
      using assms(2-4) False by (simp_all add: m_def)
    have "buf2 ! i = (if i < m then d ! (n - h + i) else buf1 ! i)"
      unfolding b2 using lt l1 assms(4,5) False by (simp add: nth_mem_write m_def)
    moreover have "buf1 ! i = (if h \<le> i then d ! (i - h) else buf ! i)"
      unfolding b1 using lt assms(1,2,5) by (simp add: nth_mem_write)
    moreover have "i < m \<longleftrightarrow> i + n < h + sz" "i < m \<Longrightarrow> i < h" "n - h + i = i + n - h"
      using assms(2,3) False by (auto simp: m_def)
    ultimately show ?thesis using assms(2,5) False by auto
  qed
qed

lemma rb_push_Ok:
  assumes "rb_inv b" and "sz \<le> length d" and "0 < sz" and "sz \<le> rb_free b"
  obtains b' where "rb_push (Some d) sz b = (b', Ok)"
    and "rb_inv b'" and "rb_capacity b' = rb_capacity b"
    and "rb_contents b' = rb_contents b @ take sz d"
proof -
  define n h t c where "n = rb_capacity b" and "h = rb_head b" and "t = rb_tail b" and "c = rb_count b"
  note ds = n_def h_def t_def c_def
  have inv: "t < n" "c \<le> n" "h = (t + c) mod n" "sz \<le> n - c" "length (rb_buf b) = n"
    using assms by (auto simp: rb_inv_def rb_free_def ds rb_capacity_def)
  have hn: "h < n" using inv by simp
  define buf1 where "buf1 = mem_write (rb_buf b) h (take (min sz (n - h)) d)"
  define buf2 where "buf2 = (if sz - min sz (n - h) > 0
    then mem_write buf1 0 (take (sz - min sz (n - h)) (drop (min sz (n - h)) d)) else buf1)"
  define b' where "b' = \<lparr>rb_buf = buf2, rb_head = (h + sz) mod n, rb_tail = t, rb_count = c + sz\<rparr>"
  have b': "rb_push (Some d) sz b = (b', Ok)"
    using assms(3,4) unfolding rb_push_def Let_def b'_def buf2_def buf1_def ds by simp
  have f: "rb_head b' = (h + sz) mod n" "rb_tail b' = t" "rb_count b' = c + sz" "rb_buf b' = buf2"
    by (simp_all add: b'_def)
  have len: "length buf2 = n"
    unfolding buf2_def buf1_def using rb_push_nth(1)[OF inv(5) hn _ assms(2) hn] inv by simp
  have nth: "buf2 ! i = (if h \<le> i \<and> i < h + sz then d ! (i - h)
                     else if i + n < h + sz then d ! (i + n - h) else rb_buf b ! i)" if "i < n" for i
    unfolding buf2_def buf1_def using rb_push_nth(2)[OF inv(5) hn _ assms(2) that] inv by simp
  have cap: "rb_capacity b' = n" using len by (simp add: rb_capacity_def f)
  have "rb_inv b'"
    using inv f cap by (auto simp: rb_inv_def mod_simps ac_simps)
  moreover have "rb_contents b' = rb_contents b @ take sz d"
  proof (rule nth_equalityI)
    show "length (rb_contents b') = length (rb_contents b @ take sz d)"
      using f assms by (simp add: c_def)
    fix k assume "k < length (rb_contents b')"
    then have k: "k < c + sz" by (simp add: f)
    have lhs: "rb_contents b' ! k = buf2 ! ((t + k) mod n)"
      using k by (simp add: rb_contents_def f cap)
    have kn: "k < n" using k inv by linarith
    define j where "j = (t + k) mod n"
    have j: "j = (if t + k < n then t + k else t + k - n)"
      unfolding j_def by (rule mod_less_double) (use kn inv in linarith)
    have jn: "j < n" using inv by (simp add: j_def)
    have hh: "h = (if t + c < n then t + c else t + c - n)"
      using inv by (simp add: mod_less_double)
    show "rb_contents b' ! k = (rb_contents b @ take sz d) ! k"
    proof (cases "k < c")
      case True
      have "rb_contents b ! k = rb_buf b ! j"
        using True by (simp add: rb_contents_def ds j_def)
      moreover have "\<not> (h \<le> j \<and> j < h + sz) \<and> \<not> j + n < h + sz"
        using True inv j hh by (cases "t + k < n"; cases "t + c < n") auto
      then have "buf2 ! j = rb_buf b ! j"
        using nth[OF jn] by auto
      ultimately show ?thesis using lhs True by (simp add: nth_append c_def j_def)
    next
      case False
      then have "if t + k < n \<or> \<not> t + c < n then h \<le> j \<and> j < h + sz \<and> j - h = k - c
          else j < h \<and> j + n < h + sz \<and> j + n - h = k - c"
        using inv k j hh by (cases "t + k < n"; cases "t + c < n") auto
      then have "buf2 ! j = d ! (k - c)"
        using nth[OF jn] by (auto split: if_splits)
      then show ?thesis using lhs False k by (simp add: nth_append c_def j_def)
    qed
  qed
  ultimately show ?thesis using that b' cap by (simp add: n_def)
qed

lemma rb_pop_Ok:
  assumes "rb_inv b" and "0 < sz" and "sz \<le> rb_count b"
  obtains b' out where "rb_pop False sz b = (b', Ok, out)"
    and "rb_inv b'" and "rb_capacity b' = rb_capacity b"
    and "length out = sz" and "rb_contents b = out @ rb_contents b'"
proof -
  define n t c where "n = rb_capacity b" and "t = rb_tail b" and "c = rb_count b"
  note ds = n_def t_def c_def
  have inv: "t < n" "c \<le> n" "rb_head b = (t + c) mod n" "sz \<le> c" "length (rb_buf b) = n"
    using assms by (auto simp: rb_inv_def ds rb_capacity_def)
  define first where "first = min sz (n - t)"
  define out where "out = take first (drop t (rb_buf b)) @
      (if sz - first > 0 then take (sz - first) (rb_buf b) else [])"
  define b' where "b' = b\<lparr>rb_tail := (t + sz) mod n, rb_count := c - sz\<rparr>"
  have eq: "rb_pop False sz b = (b', Ok, out)"
    using assms by (auto simp: rb_pop_def Let_def out_def b'_def first_def ds)
  have f: "rb_buf b' = rb_buf b" "rb_tail b' = (t + sz) mod n" "rb_count b' = c - sz"
      "rb_head b' = rb_head b" "rb_capacity b' = n"
    by (simp_all add: b'_def rb_capacity_def n_def)
  have len: "length out = sz"
    using inv by (auto simp: out_def first_def min_def)
  have "((t + sz) mod n + (c - sz)) mod n = (t + c) mod n"
    using inv by (simp only: mod_add_left_eq) simp
  then have "rb_inv b'"
    using inv f by (simp add: rb_inv_def)
  moreover have "rb_contents b = out @ rb_contents b'"
  proof (rule nth_equalityI)
    show "length (rb_contents b) = length (out @ rb_contents b')"
      using len f inv by (simp add: c_def)
    fix k assume "k < length (rb_contents b)"
    then have k: "k < c" by (simp add: c_def)
    have lhs: "rb_contents b ! k = rb_buf b ! ((t + k) mod n)"
      using k by (simp add: rb_contents_def ds)
    show "rb_contents b ! k = (out @ rb_contents b') ! k"
    proof (cases "k < sz")
      case True
      have "out ! k = rb_buf b ! ((t + k) mod n)"
      proof -
        have "(t + k) mod n = (if t + k < n then t + k else t + k - n)"
          by (rule mod_less_double) (use True inv in linarith)
        then show ?thesis using True inv by (auto simp: out_def first_def nth_append min_def add.commute)
      qed
      then show ?thesis using lhs True len by (simp add: nth_append)
    next
      case False
      then have "k - sz < c - sz" using k by linarith
      then have "rb_contents b' ! (k - sz) = rb_buf b ! (((t + sz) mod n + (k - sz)) mod n)"
        by (simp add: rb_contents_def f)
      also have "((t + sz) mod n + (k - sz)) mod n = (t + k) mod n"
        using False by (simp only: mod_add_left_eq) simp
      finally show ?thesis using lhs False len by (simp add: nth_append)
    qed
  qed
  ultimately show ?thesis using that eq len f by (simp add: n_def)
qed

section \<open>One operation\<close>

text \<open>
  A push of \<open>size\<close> bytes onto a well-formed ring buffer refines appending them to the byte
  sequence: it succeeds exactly when they fit, splits the copy at the wrap, and on any other
  outcome leaves the buffer untouched.
\<close>

lemma rb_push_refines:
  assumes "rb_inv b" and "sz \<le> length d"
  shows "rb_inv (fst (rb_push (Some d) sz b)) \<and>
    rb_push (Some d) sz b =
      (if sz = 0 then (b, InvalidArg)
       else if rb_count b + sz \<le> rb_capacity b then (fst (rb_push (Some d) sz b), Ok)
       else (b, Fail)) \<and>
    rb_contents (fst (rb_push (Some d) sz b)) =
      (if 0 < sz \<and> rb_count b + sz \<le> rb_capacity b
       then rb_contents b @ take sz d else rb_contents b)"
proof (cases "0 < sz \<and> rb_count b + sz \<le> rb_capacity b")
  case True
  then have "sz \<le> rb_free b" unfolding rb_free_def by linarith
  from rb_push_Ok[OF assms(1,2) conjunct1[OF True] this] obtain b' where
    "rb_push (Some d) sz b = (b', Ok)" "rb_inv b'" "rb_contents b' = rb_contents b @ take sz d"
    by blast
  with True show ?thesis by simp
next
  case False
  then have "rb_push (Some d) sz b = (b, if sz = 0 then InvalidArg else Fail)"
    by (auto simp: rb_push_def rb_free_def)
  then show ?thesis using assms False by (cases "sz = 0") auto
qed

text \<open>
  A pop returns exactly the oldest \<open>size\<close> bytes and leaves the rest, in order; asking for
  more than is stored fails and changes nothing.
\<close>

lemma rb_pop_refines:
  assumes "rb_inv b"
  shows "case rb_pop False sz b of (b', rc, out) \<Rightarrow>
     rb_inv b' \<and>
     (if sz = 0 then rc = InvalidArg \<and> b' = b
      else if sz \<le> rb_count b
      then rc = Ok \<and> out = take sz (rb_contents b) \<and> rb_contents b' = drop sz (rb_contents b)
      else rc = Fail \<and> b' = b)"
proof (cases "0 < sz \<and> sz \<le> rb_count b")
  case True
  from rb_pop_Ok[OF assms] True obtain b' out where
    "rb_pop False sz b = (b', Ok, out)" "rb_inv b'" "length out = sz"
    "rb_contents b = out @ rb_contents b'" by blast
  then show ?thesis using True by simp
next
  case False
  then show ?thesis using assms by (auto simp: rb_pop_def)
qed

lemma rb_capacity_push:
  assumes "rb_inv b" and "sz \<le> length d"
  shows "rb_capacity (fst (rb_push (Some d) sz b)) = rb_capacity b"
proof (cases "0 < sz \<and> sz \<le> rb_free b")
  case True
  then obtain b' where "rb_push (Some d) sz b = (b', Ok)" "rb_capacity b' = rb_capacity b"
    using rb_push_Ok[OF assms] by metis
  then show ?thesis by simp
next
  case False
  then show ?thesis by (auto simp: rb_push_def)
qed

lemma rb_capacity_kept [simp]:
  "rb_capacity (fst (rb_pop nul sz b)) = rb_capacity b" "rb_capacity (rb_reset b) = rb_capacity b"
  by (auto simp: rb_pop_def rb_reset_def rb_capacity_def Let_def)

section \<open>Sequences of operations\<close>

text \<open>The calls a client can make, a null pointer in place of the data included, and what they return.\<close>

datatype rb_op = RPush "u8 list option" nat | RPop bool nat | RReset | RQuery

datatype rb_answer = Outcome result_code "u8 list" nat | Status bool bool nat

fun rb_step :: "rb_op \<Rightarrow> ring_buffer \<Rightarrow> ring_buffer \<times> rb_answer" where
  "rb_step (RPush d sz) b = (case rb_push d sz b of (b, rc) \<Rightarrow> (b, Outcome rc [] (rb_count b)))"
| "rb_step (RPop nul sz) b = (case rb_pop nul sz b of (b, rc, out) \<Rightarrow> (b, Outcome rc out (rb_count b)))"
| "rb_step RReset b = (rb_reset b, Outcome Ok [] (rb_count (rb_reset b)))"
| "rb_step RQuery b = (b, Status (rb_empty b) (rb_full b) (rb_free b))"

text \<open>The same calls on a bounded sequence of bytes.\<close>

fun bytes_step :: "nat \<Rightarrow> rb_op \<Rightarrow> u8 list \<Rightarrow> u8 list \<times> rb_answer" where
  "bytes_step cap (RPush d sz) q =
     (case d of
        None \<Rightarrow> (q, Outcome InvalidArg [] (length q))
      | Some bs \<Rightarrow>
          if sz = 0 then (q, Outcome InvalidArg [] (length q))
          else if length q + sz \<le> cap then (q @ take sz bs, Outcome Ok [] (length q + sz))
          else (q, Outcome Fail [] (length q)))"
| "bytes_step cap (RPop nul sz) q =
     (if nul \<or> sz = 0 then (q, Outcome InvalidArg [] (length q))
      else if sz \<le> length q then (drop sz q, Outcome Ok (take sz q) (length q - sz))
      else (q, Outcome Fail [] (length q)))"
| "bytes_step cap RReset q = ([], Outcome Ok [] 0)"
| "bytes_step cap RQuery q = (q, Status (q = []) (length q = cap) (cap - length q))"

fun rb_run :: "('o \<Rightarrow> 's \<Rightarrow> 's \<times> 'a) \<Rightarrow> 'o list \<Rightarrow> 's \<Rightarrow> 'a list" where
  "rb_run step [] s = []"
| "rb_run step (op # ops) s = (case step op s of (s', a) \<Rightarrow> a # rb_run step ops s')"

text \<open>The caller's part of the contract: the data are at least as long as the size says.\<close>

fun op_in_bounds :: "rb_op \<Rightarrow> bool" where
  "op_in_bounds (RPush (Some d) sz) = (sz \<le> length d)"
| "op_in_bounds _ = True"

lemma rb_step_refines:
  assumes "rb_inv b" and "op_in_bounds op"
  shows "\<exists>b' a. rb_step op b = (b', a) \<and> rb_inv b' \<and> rb_capacity b' = rb_capacity b \<and>
    bytes_step (rb_capacity b) op (rb_contents b) = (rb_contents b', a)"
proof (cases op)
  case (RPush d sz)
  show ?thesis
  proof (cases d)
    case None
    then show ?thesis using RPush assms(1) by (simp add: rb_push_def)
  next
    case (Some bs)
    then have sz: "sz \<le> length bs" using assms(2) RPush by simp
    obtain b' rc where r: "rb_push (Some bs) sz b = (b', rc)" by (cases "rb_push (Some bs) sz b")
    note P = rb_push_refines[OF assms(1) sz]
    have c: "rb_capacity b' = rb_capacity b" using rb_capacity_push[OF assms(1) sz] r by simp
    have l: "rb_count b' = length (rb_contents b')" by simp
    show ?thesis using P c unfolding RPush Some rb_step.simps bytes_step.simps r l
      using sz by (auto simp del: length_rb_contents simp: length_rb_contents[symmetric] split: if_splits)
  qed
next
  case (RPop nul sz)
  show ?thesis
  proof (cases nul)
    case True
    then show ?thesis using RPop assms(1) by (simp add: rb_pop_def)
  next
    case False
    obtain b' rc out where r: "rb_pop False sz b = (b', rc, out)" by (cases "rb_pop False sz b")
    note P = rb_pop_refines[OF assms(1), of sz, unfolded r prod.case]
    have c: "rb_capacity b' = rb_capacity b" using rb_capacity_kept(1)[of False sz b] r by simp
    have l: "rb_count b' = length (rb_contents b')" by simp
    have e: "\<not> (0 < sz \<and> sz \<le> rb_count b) \<Longrightarrow> out = []" using r by (auto simp: rb_pop_def Let_def split: if_splits)
    have n: "0 < sz \<and> sz \<le> rb_count b \<Longrightarrow> rb_count b' = rb_count b - sz" using P l by (auto simp del: length_rb_contents) simp
    show ?thesis using P c e n False r by (auto simp: RPop split: if_splits)
  qed
next
  case RReset
  then show ?thesis using rb_inv_reset[OF assms(1)] by (simp add: rb_reset_def rb_capacity_def)
next
  case RQuery
  have "rb_contents b = [] \<longleftrightarrow> rb_count b = 0" by (metis length_0_conv length_rb_contents)
  then show ?thesis using RQuery assms(1) by (simp add: rb_empty_def rb_full_def rb_free_def)
qed

section \<open>Properties\<close>

text \<open>
  C1: The ring buffer is a bounded queue of bytes. From a new buffer of any capacity, every sequence of pushes, pops,
  resets and queries - with sizes of zero, sizes that do not fit, more than is stored, null pointers, across any number
  of wraps - is answered, result code, bytes and fill level, exactly as by a bounded sequence of bytes: a push
  appends all of its bytes or none, a pop takes the oldest bytes or none.
\<close>

theorem ring_buffer_refines_byte_queue:
  assumes "rb_new n = Some b" and "list_all op_in_bounds ops"
  shows "rb_run rb_step ops b = rb_run (bytes_step n) ops []"
proof -
  have "rb_run rb_step ops b = rb_run (bytes_step n) ops (rb_contents b)" if "rb_inv b" "rb_capacity b = n" for b
    using that assms(2)
  proof (induction ops arbitrary: b)
    case (Cons op ops)
    obtain b' a where s: "rb_step op b = (b', a)" "rb_inv b'" "rb_capacity b' = rb_capacity b"
      "bytes_step (rb_capacity b) op (rb_contents b) = (rb_contents b', a)"
      using rb_step_refines[OF Cons(2), of op] Cons(4) by auto
    then show ?case using Cons(1)[OF s(2)] Cons(3,4) by simp
  qed simp
  then show ?thesis using rb_inv_new[OF assms(1)] by metis
qed

theorem ring_buffer_refines_byte_queue_witness:
  "rb_run rb_step [RPush (Some [1, 2, 3]) 3, RPop False 2, RPush (Some [4, 5, 6]) 3, RPop False 4, RPop False 1] (the (rb_new 4)) =
     [Outcome Ok [] 3, Outcome Ok [1, 2] 1, Outcome Ok [] 4, Outcome Ok [3, 4, 5, 6] 0, Outcome Fail [] 0]"
  using ring_buffer_refines_byte_queue[of 4 "the (rb_new 4)"
      "[RPush (Some [1, 2, 3]) 3, RPop False 2, RPush (Some [4, 5, 6]) 3, RPop False 4, RPop False 1]"]
  by (simp add: rb_new_def)

end
