(* ===== verification/Ring_Concurrent.thy ===== *)
theory Ring_Concurrent
  imports V2_Prelude "HOL-Library.Multiset"
begin

text \<open>
  The lock-free rings under interference: any number of threads push, and either any number of threads
  pop with the code of \<open>LockFreeMpmcQueue\<close> or one thread pops with the code of \<open>LockFreeMpscQueue\<close>.
  Every atomic access of \<open>push\<close> and \<open>pop\<close> is one step; a thread's program counter (\<open>ring_pc\<close>) says
  which access comes next and carries the locals \<open>msg\<close>, \<open>pos\<close> and the element moved out. Steps
  interleave in a sequentially consistent order, and a weak compare-exchange may also fail with the
  expected value present (\<open>spurious\<close>).
  The fields \<open>r_front\<close>, \<open>r_phase\<close>, \<open>r_rlog\<close> and \<open>r_clog\<close> are ghost state: they are written by the
  steps and never read by them. \<open>r_rlog\<close> lists the messages in the order in which their positions
  were reserved, \<open>r_clog\<close> the (position, message) pairs in the order in which \<open>pop\<close> returned them.
\<close>

section \<open>State\<close>

datatype 'a ring_pc =
    Idle
  | PStart 'a | PCheck 'a nat | PCas 'a nat | PWrite 'a nat | PPublish 'a nat
  | CStart | CCheck nat | CCas nat | CRead nat | CRelease nat "'a option"
  | SStart | SCheck nat | SMove nat | SHead nat "'a option" | SRelease nat "'a option"

datatype 'a phase =
    PhFree | PhReserved nat 'a | PhWritten nat 'a | PhFull 'a
  | PhTaken nat 'a | PhRead nat 'a | PhDone 'a

record 'a ring =
  r_cap :: nat
  r_seq :: "nat list"
  r_elem :: "'a option list"
  r_head :: nat
  r_tail :: nat
  r_pcs :: "nat \<Rightarrow> 'a ring_pc"
  r_single :: bool
  r_front :: nat
  r_phase :: "nat \<Rightarrow> 'a phase"
  r_rlog :: "'a list"
  r_clog :: "(nat \<times> 'a option) list"

definition ring_init :: "bool \<Rightarrow> nat \<Rightarrow> 'a ring" where
  "ring_init single n = \<lparr>r_cap = n, r_seq = [0..<n], r_elem = replicate n None, r_head = 0, r_tail = 0,
     r_pcs = (\<lambda>_. Idle), r_single = single, r_front = 0, r_phase = (\<lambda>_. PhFree), r_rlog = [], r_clog = []\<rparr>"

definition goto :: "nat \<Rightarrow> 'a ring_pc \<Rightarrow> 'a ring \<Rightarrow> 'a ring" where
  "goto t pc s = s\<lparr>r_pcs := (r_pcs s)(t := pc)\<rparr>"

definition phase_val :: "'a phase \<Rightarrow> 'a option" where
  "phase_val ph = (case ph of PhFree \<Rightarrow> None | PhReserved _ v \<Rightarrow> Some v | PhWritten _ v \<Rightarrow> Some v
     | PhFull v \<Rightarrow> Some v | PhTaken _ v \<Rightarrow> Some v | PhRead _ v \<Rightarrow> Some v | PhDone v \<Rightarrow> Some v)"

definition ghost_at :: "nat \<Rightarrow> ('a \<Rightarrow> 'a phase) \<Rightarrow> 'a ring \<Rightarrow> 'a ring" where
  "ghost_at p f s = (case phase_val (r_phase s p) of None \<Rightarrow> s
     | Some v \<Rightarrow> s\<lparr>r_phase := (r_phase s)(p := f v)\<rparr>)"

text \<open>A pop that returns logs the element it moved out of the slot, whatever that is.\<close>

definition ghost_log :: "nat \<Rightarrow> 'a option \<Rightarrow> 'a ring \<Rightarrow> 'a ring" where
  "ghost_log p x s = (ghost_at p PhDone s)\<lparr>r_clog := r_clog s @ [(p, x)]\<rparr>"

section \<open>The steps of the code\<close>

definition seq_diff :: "'a ring \<Rightarrow> nat \<Rightarrow> nat \<Rightarrow> int" where
  "seq_diff s pos target = int (r_seq s ! (pos mod r_cap s)) - int target"

definition push_step :: "bool \<Rightarrow> nat \<Rightarrow> 'a ring \<Rightarrow> 'a ring" where
  "push_step spurious t s =
     (case r_pcs s t of
        PStart v \<Rightarrow> goto t (PCheck v (r_tail s)) s
      | PCheck v pos \<Rightarrow>
          (let diff = seq_diff s pos pos in
           if diff = 0 then goto t (PCas v pos) s
           else if diff < 0 then goto t Idle s
           else goto t (PStart v) s)
      | PCas v pos \<Rightarrow>
          (if r_tail s = pos \<and> \<not> spurious
           then goto t (PWrite v pos)
                  (s\<lparr>r_tail := pos + 1, r_rlog := r_rlog s @ [v],
                     r_phase := (r_phase s)(pos := PhReserved t v)\<rparr>)
           else goto t (PCheck v (r_tail s)) s)
      | PWrite v pos \<Rightarrow>
          goto t (PPublish v pos)
            (ghost_at pos (PhWritten t) (s\<lparr>r_elem := (r_elem s)[pos mod r_cap s := Some v]\<rparr>))
      | PPublish v pos \<Rightarrow>
          goto t Idle
            (ghost_at pos PhFull (s\<lparr>r_seq := (r_seq s)[pos mod r_cap s := pos + 1]\<rparr>))
      | _ \<Rightarrow> s)"

definition mpmc_pop_step :: "bool \<Rightarrow> nat \<Rightarrow> 'a ring \<Rightarrow> 'a ring" where
  "mpmc_pop_step spurious t s =
     (case r_pcs s t of
        CStart \<Rightarrow> goto t (CCheck (r_head s)) s
      | CCheck pos \<Rightarrow>
          (let diff = seq_diff s pos (pos + 1) in
           if diff = 0 then goto t (CCas pos) s
           else if diff < 0 then goto t Idle s
           else goto t CStart s)
      | CCas pos \<Rightarrow>
          (if r_head s = pos \<and> \<not> spurious
           then goto t (CRead pos)
                  (ghost_at pos (PhTaken t) (s\<lparr>r_head := pos + 1, r_front := pos + 1\<rparr>))
           else goto t (CCheck (r_head s)) s)
      | CRead pos \<Rightarrow>
          goto t (CRelease pos (r_elem s ! (pos mod r_cap s)))
            (ghost_at pos (PhRead t) (s\<lparr>r_elem := (r_elem s)[pos mod r_cap s := None]\<rparr>))
      | CRelease pos x \<Rightarrow>
          goto t Idle
            (ghost_log pos x (s\<lparr>r_seq := (r_seq s)[pos mod r_cap s := pos + r_cap s]\<rparr>))
      | _ \<Rightarrow> s)"

definition mpsc_pop_step :: "nat \<Rightarrow> 'a ring \<Rightarrow> 'a ring" where
  "mpsc_pop_step t s =
     (case r_pcs s t of
        SStart \<Rightarrow> goto t (SCheck (r_head s)) s
      | SCheck pos \<Rightarrow>
          (if seq_diff s pos (pos + 1) \<noteq> 0 then goto t Idle s
           else goto t (SMove pos) (ghost_at pos (PhTaken t) (s\<lparr>r_front := pos + 1\<rparr>)))
      | SMove pos \<Rightarrow>
          goto t (SHead pos (r_elem s ! (pos mod r_cap s)))
            (ghost_at pos (PhRead t) (s\<lparr>r_elem := (r_elem s)[pos mod r_cap s := None]\<rparr>))
      | SHead pos x \<Rightarrow> goto t (SRelease pos x) (s\<lparr>r_head := pos + 1\<rparr>)
      | SRelease pos x \<Rightarrow>
          goto t Idle
            (ghost_log pos x (s\<lparr>r_seq := (r_seq s)[pos mod r_cap s := pos + r_cap s]\<rparr>))
      | _ \<Rightarrow> s)"

text \<open>
  \<open>call_push\<close> and \<open>call_pop\<close> start an operation on an idle thread; on the single-consumer ring only
  thread 0 may pop.
\<close>

definition call_push :: "nat \<Rightarrow> 'a \<Rightarrow> 'a ring \<Rightarrow> 'a ring" where
  "call_push t v s = (if r_pcs s t = Idle then goto t (PStart v) s else s)"

definition call_pop :: "nat \<Rightarrow> 'a ring \<Rightarrow> 'a ring" where
  "call_pop t s =
     (if r_pcs s t \<noteq> Idle then s
      else if r_single s then (if t = 0 then goto t SStart s else s)
      else goto t CStart s)"

inductive ring_reach :: "bool \<Rightarrow> nat \<Rightarrow> 'a ring \<Rightarrow> bool" for single n where
  reach_init: "ring_reach single n (ring_init single n)"
| reach_call_push: "ring_reach single n s \<Longrightarrow> ring_reach single n (call_push t v s)"
| reach_call_pop: "ring_reach single n s \<Longrightarrow> ring_reach single n (call_pop t s)"
| reach_push: "ring_reach single n s \<Longrightarrow> ring_reach single n (push_step spurious t s)"
| reach_mpmc_pop: "ring_reach single n s \<Longrightarrow> ring_reach single n (mpmc_pop_step spurious t s)"
| reach_mpsc_pop: "ring_reach single n s \<Longrightarrow> ring_reach single n (mpsc_pop_step t s)"

section \<open>Invariant\<close>

definition is_done :: "'a phase \<Rightarrow> bool" where
  "is_done ph \<longleftrightarrow> (\<exists>v. ph = PhDone v)"

definition is_taken :: "'a phase \<Rightarrow> bool" where
  "is_taken ph \<longleftrightarrow> (\<exists>t v. ph = PhTaken t v \<or> ph = PhRead t v) \<or> is_done ph"

definition phase_off :: "'a phase \<Rightarrow> nat" where
  "phase_off ph = (case ph of PhFull _ \<Rightarrow> 1 | PhTaken _ _ \<Rightarrow> 1 | PhRead _ _ \<Rightarrow> 1 | _ \<Rightarrow> 0)"

definition phase_live :: "'a phase \<Rightarrow> 'a option" where
  "phase_live ph = (case ph of PhWritten _ v \<Rightarrow> Some v | PhFull v \<Rightarrow> Some v | PhTaken _ v \<Rightarrow> Some v | _ \<Rightarrow> None)"

definition current :: "nat \<Rightarrow> (nat \<Rightarrow> 'a phase) \<Rightarrow> nat \<Rightarrow> bool" where
  "current n ph p \<longleftrightarrow> p < n \<or> is_done (ph (p - n))"

definition slots_ok :: "nat \<Rightarrow> nat list \<Rightarrow> 'a option list \<Rightarrow> (nat \<Rightarrow> 'a phase) \<Rightarrow> bool" where
  "slots_ok n sq el ph \<longleftrightarrow> 2 \<le> n \<and> length sq = n \<and> length el = n \<and>
     (\<forall>p. ph p \<noteq> PhFree \<longrightarrow> current n ph p) \<and>
     (\<forall>p. current n ph p \<longrightarrow> \<not> is_done (ph p) \<longrightarrow> sq ! (p mod n) = p + phase_off (ph p)) \<and>
     (\<forall>p v. phase_live (ph p) = Some v \<longrightarrow> el ! (p mod n) = Some v)"

definition logs_ok :: "nat \<Rightarrow> nat \<Rightarrow> (nat \<Rightarrow> 'a phase) \<Rightarrow> 'a list \<Rightarrow> (nat \<times> 'a option) list \<Rightarrow> bool" where
  "logs_ok tp fr ph rl cl \<longleftrightarrow> length rl = tp \<and>
     (\<forall>p. ph p = PhFree \<longleftrightarrow> tp \<le> p) \<and> (\<forall>p. is_taken (ph p) \<longleftrightarrow> p < fr) \<and>
     (\<forall>p v. phase_val (ph p) = Some v \<longrightarrow> rl ! p = v) \<and>
     distinct (map fst cl) \<and> set cl = {(p, x). \<exists>v. x = Some v \<and> ph p = PhDone v}"

text \<open>What a program counter claims about the shared state; \<open>owned\<close> is the phase it holds.\<close>

definition owned :: "nat \<Rightarrow> 'a ring_pc \<Rightarrow> (nat \<times> 'a phase set) option" where
  "owned t pc = (case pc of
       PWrite v p \<Rightarrow> Some (p, {PhReserved t v}) | PPublish v p \<Rightarrow> Some (p, {PhWritten t v})
     | CRead p \<Rightarrow> Some (p, {PhTaken t v |v. True}) | SMove p \<Rightarrow> Some (p, {PhTaken t v |v. True})
     | CRelease p x \<Rightarrow> Some (p, {PhRead t v |v. x = Some v})
     | SHead p x \<Rightarrow> Some (p, {PhRead t v |v. x = Some v})
     | SRelease p x \<Rightarrow> Some (p, {PhRead t v |v. x = Some v})
     | _ \<Rightarrow> None)"

definition owner :: "'a phase \<Rightarrow> nat option" where
  "owner ph = (case ph of PhReserved t _ \<Rightarrow> Some t | PhWritten t _ \<Rightarrow> Some t
     | PhTaken t _ \<Rightarrow> Some t | PhRead t _ \<Rightarrow> Some t | _ \<Rightarrow> None)"

definition threads_own :: "(nat \<Rightarrow> 'a ring_pc) \<Rightarrow> (nat \<Rightarrow> 'a phase) \<Rightarrow> bool" where
  "threads_own pcs ph \<longleftrightarrow>
     (\<forall>t p P. owned t (pcs t) = Some (p, P) \<longrightarrow> ph p \<in> P) \<and>
     (\<forall>t p. owner (ph p) = Some t \<longrightarrow> (\<exists>P. owned t (pcs t) = Some (p, P)))"

definition pc_seen :: "nat \<Rightarrow> nat \<Rightarrow> nat \<Rightarrow> (nat \<Rightarrow> 'a phase) \<Rightarrow> 'a ring_pc \<Rightarrow> bool" where
  "pc_seen n tp fr ph pc = (case pc of
       PCheck v p \<Rightarrow> p \<le> tp | PCas v p \<Rightarrow> p \<le> tp \<and> current n ph p
     | CCheck p \<Rightarrow> p \<le> fr | CCas p \<Rightarrow> p \<le> fr \<and> (p = fr \<longrightarrow> (\<exists>v. ph p = PhFull v))
     | _ \<Rightarrow> True)"

definition is_cpop :: "'a ring_pc \<Rightarrow> bool" where
  "is_cpop pc = (case pc of CStart \<Rightarrow> True | CCheck _ \<Rightarrow> True | CCas _ \<Rightarrow> True | CRead _ \<Rightarrow> True
     | CRelease _ _ \<Rightarrow> True | _ \<Rightarrow> False)"

definition is_spop :: "'a ring_pc \<Rightarrow> bool" where
  "is_spop pc = (case pc of SStart \<Rightarrow> True | SCheck _ \<Rightarrow> True | SMove _ \<Rightarrow> True | SHead _ _ \<Rightarrow> True
     | SRelease _ _ \<Rightarrow> True | _ \<Rightarrow> False)"

definition front_ok :: "nat \<Rightarrow> nat \<Rightarrow> 'a ring_pc \<Rightarrow> bool" where
  "front_ok hp fr pc \<longleftrightarrow> (case pc of SCheck p \<Rightarrow> hp = p \<and> fr = p | SMove p \<Rightarrow> hp = p \<and> fr = p + 1
     | SHead p _ \<Rightarrow> hp = p \<and> fr = p + 1 | _ \<Rightarrow> hp = fr)"

definition head_ok :: "bool \<Rightarrow> nat \<Rightarrow> nat \<Rightarrow> (nat \<Rightarrow> 'a ring_pc) \<Rightarrow> bool" where
  "head_ok single hp fr pcs \<longleftrightarrow>
     (if single
      then (\<forall>t. \<not> is_cpop (pcs t)) \<and> (\<forall>t. t \<noteq> 0 \<longrightarrow> \<not> is_spop (pcs t)) \<and>
        front_ok hp fr (pcs 0)
      else (\<forall>t. \<not> is_spop (pcs t)) \<and> hp = fr)"

definition ring_inv :: "'a ring \<Rightarrow> bool" where
  "ring_inv s \<longleftrightarrow> slots_ok (r_cap s) (r_seq s) (r_elem s) (r_phase s) \<and>
     logs_ok (r_tail s) (r_front s) (r_phase s) (r_rlog s) (r_clog s) \<and>
     threads_own (r_pcs s) (r_phase s) \<and>
     (\<forall>t. pc_seen (r_cap s) (r_tail s) (r_front s) (r_phase s) (r_pcs s t)) \<and>
     head_ok (r_single s) (r_head s) (r_front s) (r_pcs s)"

section \<open>Slots and phases\<close>

lemmas phase_simps = is_done_def is_taken_def phase_off_def phase_live_def phase_val_def owner_def

lemma phase_facts [simp]:
  "\<not> is_done PhFree" "\<not> is_done (PhReserved t v)" "\<not> is_done (PhWritten t v)" "\<not> is_done (PhFull v)"
  "\<not> is_done (PhTaken t v)" "\<not> is_done (PhRead t v)" "is_done (PhDone v)"
  "\<not> is_taken PhFree" "\<not> is_taken (PhReserved t v)" "\<not> is_taken (PhWritten t v)" "\<not> is_taken (PhFull v)"
  "is_taken (PhTaken t v)" "is_taken (PhRead t v)" "is_taken (PhDone v)"
  by (simp_all add: phase_simps)

lemma current_down:
  assumes closed: "\<forall>p. ph p \<noteq> PhFree \<longrightarrow> current n ph p"
  shows "current n ph (p + (k + 1) * n) \<Longrightarrow> is_done (ph p)"
proof (induction k)
  case 0
  then show ?case by (simp add: current_def)
next
  case (Suc k)
  have "p + (Suc k + 1) * n - n = p + (k + 1) * n" by simp
  then have "is_done (ph (p + (k + 1) * n)) \<or> p + (Suc k + 1) * n < n"
    using Suc.prems by (auto simp: current_def)
  moreover have "\<not> p + (Suc k + 1) * n < n" by simp
  ultimately have "ph (p + (k + 1) * n) \<noteq> PhFree" by auto
  then show ?case using closed Suc.IH by blast
qed

lemma current_unique:
  assumes closed: "\<forall>p. ph p \<noteq> PhFree \<longrightarrow> current n ph p" and n: "0 < n"
    and "current n ph p" "\<not> is_done (ph p)" "current n ph q" "\<not> is_done (ph q)" "p mod n = q mod n"
  shows "p = q"
proof -
  have *: "\<not> a < b" if "current n ph b" "\<not> is_done (ph a)" "a mod n = b mod n" for a b
  proof
    assume "a < b"
    then have "n dvd b - a" using that(3) by (metis less_imp_le mod_eq_dvd_iff_nat)
    then obtain k where k: "b - a = n * k" by blast
    then obtain j where "k = Suc j" using \<open>a < b\<close> by (cases k) auto
    then have "b = a + (j + 1) * n" using k \<open>a < b\<close> by (simp add: algebra_simps)
    then show False using current_down[OF closed, of a j] that by simp
  qed
  show ?thesis using *[of q p] *[of p q] assms by force
qed

lemma current_cong:
  "(\<And>q. is_done (ph' q) \<longleftrightarrow> is_done (ph q)) \<Longrightarrow> current n ph' p \<longleftrightarrow> current n ph p"
  by (simp add: current_def)

lemma slots_ok_current: "slots_ok n sq el ph \<Longrightarrow> ph p \<noteq> PhFree \<Longrightarrow> current n ph p"
  by (simp add: slots_ok_def)

lemma slots_ok_seq:
  "slots_ok n sq el ph \<Longrightarrow> current n ph p \<Longrightarrow> \<not> is_done (ph p) \<Longrightarrow> sq ! (p mod n) = p + phase_off (ph p)"
  by (simp add: slots_ok_def)

lemma slots_ok_len: "slots_ok n sq el ph \<Longrightarrow> 2 \<le> n \<and> length sq = n \<and> length el = n"
  by (simp add: slots_ok_def)

lemma slots_ok_elem: "slots_ok n sq el ph \<Longrightarrow> phase_live (ph p) = Some v \<Longrightarrow> el ! (p mod n) = Some v"
  by (simp add: slots_ok_def)

lemma slots_other:
  assumes ok: "slots_ok n sq el ph" and p: "current n ph p" "\<not> is_done (ph p)"
    and q: "current n ph q" "\<not> is_done (ph q)" "q \<noteq> p"
  shows "q mod n \<noteq> p mod n"
  using current_unique[of ph n p q] ok p q by (auto simp: slots_ok_def)

lemma live_not_done: "phase_live ph = Some v \<Longrightarrow> \<not> is_done ph \<and> ph \<noteq> PhFree"
  by (cases ph) (simp_all add: phase_live_def)

text \<open>One position moves on, its slot is rewritten, and no other current position sees it.\<close>

lemma slots_move:
  assumes ok: "slots_ok n sq el ph"
    and p: "ph p \<noteq> PhFree \<or> current n ph p" "\<not> is_done (ph p)"
    and b: "b \<noteq> PhFree" "\<not> is_done b"
    and sq': "length sq' = n" "sq' ! (p mod n) = p + phase_off b" "\<And>i. i \<noteq> p mod n \<Longrightarrow> sq' ! i = sq ! i"
    and el': "length el' = n" "\<And>v. phase_live b = Some v \<Longrightarrow> el' ! (p mod n) = Some v"
      "\<And>i. i \<noteq> p mod n \<Longrightarrow> el' ! i = el ! i"
  shows "slots_ok n sq' el' (ph(p := b))"
proof -
  have cp: "current n ph p" using slots_ok_current[OF ok, of p] p by blast
  have cc: "current n (ph(p := b)) q \<longleftrightarrow> current n ph q" for q
    by (rule current_cong) (use p(2) b(2) in auto)
  have "\<forall>q. current n (ph(p := b)) q \<longrightarrow> \<not> is_done ((ph(p := b)) q) \<longrightarrow>
      sq' ! (q mod n) = q + phase_off ((ph(p := b)) q)"
  proof (intro allI impI)
    fix q assume q: "current n (ph(p := b)) q" "\<not> is_done ((ph(p := b)) q)"
    show "sq' ! (q mod n) = q + phase_off ((ph(p := b)) q)"
    proof (cases "q = p")
      case True
      then show ?thesis using sq' by simp
    next
      case False
      then have "q mod n \<noteq> p mod n" using slots_other[OF ok cp p(2)] q cc by simp
      then show ?thesis using sq'(3) slots_ok_seq[OF ok, of q] q cc False by simp
    qed
  qed
  moreover have "\<forall>q v. phase_live ((ph(p := b)) q) = Some v \<longrightarrow> el' ! (q mod n) = Some v"
  proof (intro allI impI)
    fix q v assume q: "phase_live ((ph(p := b)) q) = Some v"
    show "el' ! (q mod n) = Some v"
    proof (cases "q = p")
      case True
      then show ?thesis using el' q by simp
    next
      case False
      then have l: "phase_live (ph q) = Some v" using q by simp
      then have "q mod n \<noteq> p mod n"
        using slots_other[OF ok cp p(2)] live_not_done[OF l] slots_ok_current[OF ok, of q] False by blast
      then show ?thesis using el'(3) slots_ok_elem[OF ok l] by simp
    qed
  qed
  moreover have "\<forall>q. (ph(p := b)) q \<noteq> PhFree \<longrightarrow> current n (ph(p := b)) q"
    using cc cp slots_ok_current[OF ok] by auto
  ultimately show ?thesis using slots_ok_len[OF ok] sq'(1) el'(1) by (simp add: slots_ok_def)
qed

text \<open>A released slot becomes current for the position one round later.\<close>

lemma slots_release:
  assumes ok: "slots_ok n sq el ph" and p: "ph p \<noteq> PhFree" "\<not> is_done (ph p)"
  shows "slots_ok n (sq[p mod n := p + n]) el (ph(p := PhDone v))"
proof -
  have n: "2 \<le> n" "length sq = n" using slots_ok_len[OF ok] by auto
  have cp: "current n ph p" by (rule slots_ok_current[OF ok p(1)])
  have next_free: "ph (p + n) = PhFree"
    using slots_ok_current[OF ok, of "p + n"] p(2) by (auto simp: current_def)
  let ?ph = "ph(p := PhDone v)"
  have cc: "current n ?ph q \<longleftrightarrow> current n ph q \<or> q = p + n" for q
    using n by (auto simp: current_def)
  have "\<forall>q. current n ?ph q \<longrightarrow> \<not> is_done (?ph q) \<longrightarrow> (sq[p mod n := p + n]) ! (q mod n) = q + phase_off (?ph q)"
  proof (intro allI impI)
    fix q assume q: "current n ?ph q" "\<not> is_done (?ph q)"
    then have ne: "q \<noteq> p" by auto
    show "(sq[p mod n := p + n]) ! (q mod n) = q + phase_off (?ph q)"
    proof (cases "q = p + n")
      case True
      then show ?thesis using n next_free by (simp add: phase_off_def)
    next
      case False
      then have c: "current n ph q" "\<not> is_done (ph q)" using q cc ne by auto
      then have "q mod n \<noteq> p mod n" using slots_other[OF ok cp p(2)] ne by blast
      then show ?thesis using slots_ok_seq[OF ok c] ne by simp
    qed
  qed
  moreover have "\<forall>q w. phase_live (?ph q) = Some w \<longrightarrow> el ! (q mod n) = Some w"
    using slots_ok_elem[OF ok] by (auto simp: phase_live_def)
  moreover have "\<forall>q. ?ph q \<noteq> PhFree \<longrightarrow> current n ?ph q"
    using cc cp slots_ok_current[OF ok] by auto
  ultimately show ?thesis using slots_ok_len[OF ok] by (simp add: slots_ok_def)
qed

section \<open>Threads\<close>

lemma owned_owner: "owned t pc = Some (p, P) \<Longrightarrow> x \<in> P \<Longrightarrow> owner x = Some t"
  by (auto simp: owned_def owner_def split: ring_pc.splits)

lemma threads_move:
  assumes ok: "threads_own pcs ph"
    and old: "(\<exists>P. owned t (pcs t) = Some (p, P)) \<or> (owned t (pcs t) = None \<and> owner (ph p) = None)"
    and new: "(\<exists>P. owned t pc = Some (p, P) \<and> b \<in> P) \<or> (owned t pc = None \<and> owner b = None)"
  shows "threads_own (pcs(t := pc)) (ph(p := b))"
proof -
  have own: "owned u (pcs u) = Some (q, P) \<Longrightarrow> ph q \<in> P" for u q P
    using ok by (auto simp: threads_own_def)
  have bk: "owner (ph q) = Some u \<Longrightarrow> \<exists>P. owned u (pcs u) = Some (q, P)" for u q
    using ok by (auto simp: threads_own_def)
  have own_owner: "owner (ph q) = Some u" if "owned u (pcs u) = Some (q, P)" for u q P
    by (rule owned_owner[OF that own[OF that]])
  have op: "owner (ph p) = Some t \<or> owner (ph p) = None"
    using old own_owner by metis
  have 1: "(ph(p := b)) q \<in> P" if "owned u ((pcs(t := pc)) u) = Some (q, P)" for u q P
  proof (cases "u = t")
    case True
    then show ?thesis using that new by auto
  next
    case False
    then have o: "owned u (pcs u) = Some (q, P)" using that by simp
    then have "owner (ph q) = Some u" by (rule own_owner)
    then have "q \<noteq> p" using op False by auto
    then show ?thesis using own[OF o] by simp
  qed
  have 2: "\<exists>P. owned u ((pcs(t := pc)) u) = Some (q, P)" if "owner ((ph(p := b)) q) = Some u" for u q
  proof (cases "q = p")
    case True
    then have "owner b = Some u" using that by simp
    then show ?thesis using new owned_owner True by fastforce
  next
    case False
    then have b: "\<exists>P. owned u (pcs u) = Some (q, P)" using bk that by simp
    then have "u \<noteq> t" using old False by auto
    then show ?thesis using b by simp
  qed
  show ?thesis using 1 2 unfolding threads_own_def by blast
qed

lemma threads_pc:
  assumes ok: "threads_own pcs ph" and "owned t (pcs t) = None" and "owned t pc = None"
  shows "threads_own (pcs(t := pc)) ph"
  using assms unfolding threads_own_def by (metis fun_upd_apply option.distinct(1))

lemma threads_same:
  assumes ok: "threads_own pcs ph" and "owned t pc = owned t (pcs t)"
  shows "threads_own (pcs(t := pc)) ph"
  using assms unfolding threads_own_def by (metis fun_upd_apply)

lemma pc_seen_mono:
  assumes "tp \<le> tp'" "fr \<le> fr'" "\<And>p. current n ph p \<Longrightarrow> current n ph' p"
    "\<And>v. fr' = fr \<Longrightarrow> ph fr = PhFull v \<Longrightarrow> \<exists>v. ph' fr = PhFull v"
  shows "pc_seen n tp fr ph pc \<Longrightarrow> pc_seen n tp' fr' ph' pc"
  using assms by (fastforce simp: pc_seen_def split: ring_pc.splits)

section \<open>Logs\<close>

lemma logs_move:
  assumes "logs_ok tp fr ph rl cl" and "ph p \<noteq> PhFree" "b \<noteq> PhFree"
    and "phase_val b = phase_val (ph p)" "is_taken b \<longleftrightarrow> is_taken (ph p)" "\<not> is_done b" "\<not> is_done (ph p)"
  shows "logs_ok tp fr (ph(p := b)) rl cl"
proof -
  have "{(q, x). \<exists>v. x = Some v \<and> (ph(p := b)) q = PhDone v} = {(q, x). \<exists>v. x = Some v \<and> ph q = PhDone v}"
    using assms(6,7) by (auto simp: is_done_def split: if_splits)
  then show ?thesis using assms by (simp add: logs_ok_def)
qed

lemma logs_reserve:
  assumes "logs_ok tp fr ph rl cl"
  shows "logs_ok (tp + 1) fr (ph(tp := PhReserved t v)) (rl @ [v]) cl"
proof -
  have l: "length rl = tp" "\<And>p. ph p = PhFree \<longleftrightarrow> tp \<le> p" "\<And>p. is_taken (ph p) \<longleftrightarrow> p < fr"
    "\<And>p v. phase_val (ph p) = Some v \<Longrightarrow> rl ! p = v" "distinct (map fst cl)"
    "set cl = {(p, x). \<exists>v. x = Some v \<and> ph p = PhDone v}"
    using assms by (simp_all add: logs_ok_def)
  have f: "ph tp = PhFree" using l(2) by simp
  then have nt: "\<not> tp < fr" using l(3)[of tp] by simp
  have "{(q, x). \<exists>w. x = Some w \<and> (ph(tp := PhReserved t v)) q = PhDone w} = {(q, x). \<exists>w. x = Some w \<and> ph q = PhDone w}"
    using f by (auto split: if_splits)
  moreover have "(rl @ [v]) ! p = w" if "phase_val ((ph(tp := PhReserved t v)) p) = Some w" for p w
  proof (cases "p = tp")
    case True
    then show ?thesis using that by (simp add: phase_val_def nth_append l(1))
  next
    case False
    then have h: "phase_val (ph p) = Some w" using that by simp
    then have "ph p \<noteq> PhFree" by (auto simp: phase_val_def)
    then have "p < tp" using l(2) by (simp add: not_le)
    then show ?thesis using l(4)[OF h] l(1) by (simp add: nth_append)
  qed
  ultimately show ?thesis
    using l(1,2,3,5,6) nt unfolding logs_ok_def by auto
qed

lemma logs_take:
  assumes "logs_ok tp fr ph rl cl" and "ph fr = PhFull v"
  shows "logs_ok tp (fr + 1) (ph(fr := PhTaken t v)) rl cl"
proof -
  have "{(q, x). \<exists>w. x = Some w \<and> (ph(fr := PhTaken t v)) q = PhDone w} = {(q, x). \<exists>w. x = Some w \<and> ph q = PhDone w}"
    using assms(2) by (auto split: if_splits)
  moreover have "\<forall>p. is_taken ((ph(fr := PhTaken t v)) p) \<longleftrightarrow> p < fr + 1"
    using assms by (auto simp: logs_ok_def less_Suc_eq)
  moreover have "\<not> tp \<le> fr" using assms by (metis logs_ok_def phase.distinct(5))
  ultimately show ?thesis using assms by (auto simp: logs_ok_def phase_val_def)
qed

lemma logs_done:
  assumes "logs_ok tp fr ph rl cl" and "ph p = PhRead t v"
  shows "logs_ok tp fr (ph(p := PhDone v)) rl (cl @ [(p, Some v)])"
proof -
  have c: "set cl = {(q, x). \<exists>w. x = Some w \<and> ph q = PhDone w}" using assms(1) by (simp add: logs_ok_def)
  then have "p \<notin> fst ` set cl" using assms(2) by auto
  moreover have "set (cl @ [(p, Some v)]) = {(q, x). \<exists>w. x = Some w \<and> (ph(p := PhDone v)) q = PhDone w}"
    using c assms(2) by (auto split: if_splits)
  moreover have "\<forall>q. is_taken ((ph(p := PhDone v)) q) \<longleftrightarrow> q < fr"
    using assms by (auto simp: logs_ok_def)
  moreover have "\<not> tp \<le> p" using assms by (metis logs_ok_def phase.distinct(9))
  ultimately show ?thesis using assms by (auto simp: logs_ok_def phase_val_def)
qed

section \<open>The invariant is kept\<close>

lemma ring_invD:
  assumes "ring_inv s"
  shows "slots_ok (r_cap s) (r_seq s) (r_elem s) (r_phase s)"
    and "logs_ok (r_tail s) (r_front s) (r_phase s) (r_rlog s) (r_clog s)"
    and "threads_own (r_pcs s) (r_phase s)"
    and "pc_seen (r_cap s) (r_tail s) (r_front s) (r_phase s) (r_pcs s t)"
    and "head_ok (r_single s) (r_head s) (r_front s) (r_pcs s)"
  using assms by (auto simp: ring_inv_def)

lemma ring_free: "ring_inv s \<Longrightarrow> r_phase s p = PhFree \<longleftrightarrow> r_tail s \<le> p"
  by (simp add: ring_inv_def logs_ok_def)

lemma ring_owned:
  assumes "ring_inv s" and "owned t (r_pcs s t) = Some (p, P)"
  shows "r_phase s p \<in> P"
  using assms by (auto simp: ring_inv_def threads_own_def)

lemma inv_goto:
  assumes inv: "ring_inv s" and o: "owned t pc = owned t (r_pcs s t)"
    and seen: "pc_seen (r_cap s) (r_tail s) (r_front s) (r_phase s) pc"
    and hd: "head_ok (r_single s) (r_head s) (r_front s) ((r_pcs s)(t := pc))"
  shows "ring_inv (goto t pc s)"
  using inv seen hd threads_same[of "r_pcs s" "r_phase s" t pc] o by (simp add: ring_inv_def goto_def)

lemma front_ok_plain: "\<not> is_spop pc \<Longrightarrow> front_ok hp fr pc \<longleftrightarrow> hp = fr"
  by (cases pc) (simp_all add: front_ok_def is_spop_def)

lemma head_ok_push:
  assumes "head_ok sg hp fr pcs" and "\<not> is_cpop pc" "\<not> is_spop pc" "\<not> is_spop (pcs t)"
  shows "head_ok sg hp fr (pcs(t := pc))"
  using assms by (auto simp: head_ok_def front_ok_plain)

lemma head_ok_multi:
  assumes "head_ok sg hp fr pcs" and "is_cpop (pcs t)" "\<not> is_spop pc"
  shows "\<not> sg \<and> hp = fr \<and> head_ok sg x x (pcs(t := pc))"
  using assms by (auto simp: head_ok_def split: if_splits)

lemma head_ok_single:
  assumes "head_ok sg hp fr pcs" and "is_spop (pcs t)"
  shows "sg \<and> t = 0"
  using assms by (auto simp: head_ok_def split: if_splits)

text \<open>A free slot seen at the tail means that the position of the previous round was released.\<close>

lemma check_current:
  assumes inv: "ring_inv s" and le: "pos \<le> r_tail s" and d: "seq_diff s pos pos = 0"
  shows "current (r_cap s) (r_phase s) pos"
proof (rule ccontr)
  note ok = ring_invD(1)[OF inv]
  let ?n = "r_cap s"
  assume nc: "\<not> current ?n (r_phase s) pos"
  then have p: "?n \<le> pos" "\<not> is_done (r_phase s (pos - ?n))" by (auto simp: current_def)
  have n: "2 \<le> ?n" using slots_ok_len[OF ok] by simp
  have "pos - ?n < r_tail s" using p(1) le n by linarith
  then have "r_phase s (pos - ?n) \<noteq> PhFree" using ring_free[OF inv] by (simp add: not_le)
  from slots_ok_seq[OF ok slots_ok_current[OF ok this] p(2)]
  have "r_seq s ! (pos mod ?n) = pos - ?n + phase_off (r_phase s (pos - ?n))"
    using p(1) by (simp add: le_mod_geq)
  moreover have "phase_off ph \<le> 1" for ph :: "'a phase" by (cases ph) (simp_all add: phase_off_def)
  ultimately have "r_seq s ! (pos mod ?n) \<le> pos - ?n + 1" by simp
  then have "r_seq s ! (pos mod ?n) < pos" using n p(1) by linarith
  then show False using d by (simp add: seq_diff_def)
qed

text \<open>A filled slot seen at the front holds the message of that position.\<close>

lemma check_full:
  assumes inv: "ring_inv s" and d: "seq_diff s (r_front s) (r_front s + 1) = 0"
  shows "\<exists>v. r_phase s (r_front s) = PhFull v"
proof -
  note ok = ring_invD(1)[OF inv]
  let ?n = "r_cap s" and ?p = "r_front s"
  have n: "2 \<le> ?n" using slots_ok_len[OF ok] by simp
  have sq: "r_seq s ! (?p mod ?n) = ?p + 1" using d by (simp add: seq_diff_def)
  have nt: "\<not> is_taken (r_phase s ?p)" using ring_invD(2)[OF inv] by (simp add: logs_ok_def)
  then have nd: "\<not> is_done (r_phase s ?p)" by (auto simp: is_taken_def)
  show ?thesis
  proof (cases "current ?n (r_phase s) ?p")
    case True
    then have "phase_off (r_phase s ?p) = 1" using slots_ok_seq[OF ok True nd] sq by simp
    then show ?thesis using nt by (cases "r_phase s ?p") (simp_all add: phase_off_def)
  next
    case False
    then have p: "?n \<le> ?p" "\<not> is_done (r_phase s (?p - ?n))" by (auto simp: current_def)
    have "?p - ?n < ?p" using n p(1) by linarith
    then have "is_taken (r_phase s (?p - ?n))" using ring_invD(2)[OF inv] by (simp add: logs_ok_def)
    then have nf: "r_phase s (?p - ?n) \<noteq> PhFree" by auto
    from slots_ok_seq[OF ok slots_ok_current[OF ok nf] p(2)]
    have "r_seq s ! (?p mod ?n) = ?p - ?n + phase_off (r_phase s (?p - ?n))"
      using p(1) by (simp add: le_mod_geq)
    moreover have "phase_off ph \<le> 1" for ph :: "'a phase" by (cases ph) (simp_all add: phase_off_def)
    ultimately have "r_seq s ! (?p mod ?n) \<le> ?p - ?n + 1" by simp
    then show ?thesis using sq n p(1) by linarith
  qed
qed

lemma inv_update:
  assumes inv: "ring_inv s" and pcs: "r_pcs s' = (r_pcs s)(t := pc)"
    and eq: "r_cap s' = r_cap s" "r_single s' = r_single s"
    and sl: "slots_ok (r_cap s') (r_seq s') (r_elem s') (r_phase s')"
    and lo: "logs_ok (r_tail s') (r_front s') (r_phase s') (r_rlog s') (r_clog s')"
    and th: "threads_own ((r_pcs s)(t := pc)) (r_phase s')"
    and hd: "head_ok (r_single s) (r_head s') (r_front s') ((r_pcs s)(t := pc))"
    and seen: "pc_seen (r_cap s) (r_tail s') (r_front s') (r_phase s') pc"
    and mono: "r_tail s \<le> r_tail s'" "r_front s \<le> r_front s'"
      "\<And>p. current (r_cap s) (r_phase s) p \<Longrightarrow> current (r_cap s) (r_phase s') p"
      "\<And>v. r_front s' = r_front s \<Longrightarrow> r_phase s (r_front s) = PhFull v \<Longrightarrow> \<exists>v. r_phase s' (r_front s) = PhFull v"
  shows "ring_inv s'"
proof -
  have "pc_seen (r_cap s) (r_tail s') (r_front s') (r_phase s') (r_pcs s' u)" for u
    using pc_seen_mono[OF mono ring_invD(4)[OF inv, of u]] seen by (simp add: pcs)
  then show ?thesis using sl lo th hd eq by (simp add: ring_inv_def pcs)
qed

lemma ghost_at_eq:
  "phase_val (r_phase s p) = Some v \<Longrightarrow> ghost_at p f s = s\<lparr>r_phase := (r_phase s)(p := f v)\<rparr>"
  by (simp add: ghost_at_def)

lemma current_upd:
  "\<not> is_done (ph p) \<Longrightarrow> current n ph q \<Longrightarrow> current n (ph(p := b)) q"
  by (auto simp: current_def)

lemma inv_reserve:
  assumes inv: "ring_inv s" and pc: "r_pcs s t = PCas v pos" and tail: "r_tail s = pos"
  shows "ring_inv (goto t (PWrite v pos) (s\<lparr>r_tail := pos + 1, r_rlog := r_rlog s @ [v],
    r_phase := (r_phase s)(pos := PhReserved t v)\<rparr>))" (is "ring_inv ?s")
proof (rule inv_update[OF inv, where t = t and pc = "PWrite v pos"])
  note ok = ring_invD(1)[OF inv]
  have free: "r_phase s pos = PhFree" using ring_free[OF inv] tail by simp
  have cur: "current (r_cap s) (r_phase s) pos" using ring_invD(4)[OF inv, of t] pc by (simp add: pc_seen_def)
  have sq: "r_seq s ! (pos mod r_cap s) = pos"
    using slots_ok_seq[OF ok cur] free by (simp add: phase_off_def)
  show "slots_ok (r_cap ?s) (r_seq ?s) (r_elem ?s) (r_phase ?s)"
    using slots_move[OF ok, of pos "PhReserved t v" "r_seq s" "r_elem s"] cur free sq slots_ok_len[OF ok]
    by (simp add: goto_def phase_off_def phase_live_def)
  show "logs_ok (r_tail ?s) (r_front ?s) (r_phase ?s) (r_rlog ?s) (r_clog ?s)"
    using logs_reserve[OF ring_invD(2)[OF inv], of t v] by (simp add: goto_def tail)
  show "threads_own ((r_pcs s)(t := PWrite v pos)) (r_phase ?s)"
    using threads_move[OF ring_invD(3)[OF inv], of t pos "PWrite v pos" "PhReserved t v"] pc free
    by (simp add: goto_def owned_def owner_def)
  show "head_ok (r_single s) (r_head ?s) (r_front ?s) ((r_pcs s)(t := PWrite v pos))"
    using head_ok_push[OF ring_invD(5)[OF inv], of "PWrite v pos" t] pc
    by (simp add: goto_def is_cpop_def is_spop_def)
  show "\<exists>w. r_phase ?s (r_front s) = PhFull w" if "r_phase s (r_front s) = PhFull v'" for v'
    using that free by (auto simp: goto_def)
qed (use ring_free[OF inv, of pos] tail in \<open>auto simp: goto_def pc_seen_def intro: current_upd\<close>)

text \<open>A step of the owner of a position that neither takes nor releases it.\<close>

lemma inv_owner_move:
  assumes inv: "ring_inv s" and old: "owned t (r_pcs s t) = Some (pos, P)"
    and ph: "r_phase s pos = a" "\<not> is_done a" "a \<noteq> PhFree" "\<forall>v. a \<noteq> PhFull v"
    and b: "b \<noteq> PhFree" "\<not> is_done b" "phase_val b = phase_val a" "is_taken b = is_taken a"
    and own: "(\<exists>P. owned t pc = Some (pos, P) \<and> b \<in> P) \<or> (owned t pc = None \<and> owner b = None)"
    and sq: "sq' = (r_seq s)[pos mod r_cap s := pos + phase_off b]"
    and el: "el' = (r_elem s)[pos mod r_cap s := e]" "\<And>v. phase_live b = Some v \<Longrightarrow> e = Some v"
    and hd: "head_ok (r_single s) (r_head s) (r_front s) ((r_pcs s)(t := pc))"
    and seen: "\<And>n tp fr ph. pc_seen n tp fr ph pc"
  shows "ring_inv (s\<lparr>r_seq := sq', r_elem := el', r_phase := (r_phase s)(pos := b), r_pcs := (r_pcs s)(t := pc)\<rparr>)"
    (is "ring_inv ?s")
proof (rule inv_update[OF inv, where t = t and pc = pc])
  note ok = ring_invD(1)[OF inv]
  have n: "0 < r_cap s" using slots_ok_len[OF ok] by simp
  show "slots_ok (r_cap ?s) (r_seq ?s) (r_elem ?s) (r_phase ?s)"
    using slots_move[OF ok, of pos b sq' el'] ph b sq el n slots_ok_len[OF ok] by simp
  show "logs_ok (r_tail ?s) (r_front ?s) (r_phase ?s) (r_rlog ?s) (r_clog ?s)"
    using logs_move[OF ring_invD(2)[OF inv], of pos b] ph b by simp
  show "threads_own ((r_pcs s)(t := pc)) (r_phase ?s)"
    using threads_move[OF ring_invD(3)[OF inv], of t pos pc b] old own by simp
  show "head_ok (r_single s) (r_head ?s) (r_front ?s) ((r_pcs s)(t := pc))" using hd by simp
  show "\<exists>w. r_phase ?s (r_front s) = PhFull w" if "r_phase s (r_front s) = PhFull v'" for v'
    using that ph by auto
qed (use ph seen in \<open>auto intro: current_upd\<close>)

lemma inv_take:
  assumes inv: "ring_inv s" and pos: "pos = r_front s" and full: "r_phase s pos = PhFull v"
    and old: "owned t (r_pcs s t) = None" and own: "\<exists>P. owned t pc = Some (pos, P) \<and> PhTaken t v \<in> P"
    and hd: "head_ok (r_single s) hp' (pos + 1) ((r_pcs s)(t := pc))"
    and seen: "\<And>n tp fr ph. pc_seen n tp fr ph pc"
  shows "ring_inv (s\<lparr>r_head := hp', r_front := pos + 1,
    r_phase := (r_phase s)(pos := PhTaken t v), r_pcs := (r_pcs s)(t := pc)\<rparr>)" (is "ring_inv ?s")
proof (rule inv_update[OF inv, where t = t and pc = pc])
  note ok = ring_invD(1)[OF inv]
  have cur: "current (r_cap s) (r_phase s) pos" using slots_ok_current[OF ok, of pos] full by simp
  have sq: "r_seq s ! (pos mod r_cap s) = pos + 1"
    using slots_ok_seq[OF ok cur] full by (simp add: phase_off_def)
  have el: "r_elem s ! (pos mod r_cap s) = Some v"
    using slots_ok_elem[OF ok, of pos v] full by (simp add: phase_live_def)
  show "slots_ok (r_cap ?s) (r_seq ?s) (r_elem ?s) (r_phase ?s)"
    using slots_move[OF ok, of pos "PhTaken t v" "r_seq s" "r_elem s"] cur full sq el slots_ok_len[OF ok]
    by (simp add: phase_off_def phase_live_def)
  show "logs_ok (r_tail ?s) (r_front ?s) (r_phase ?s) (r_rlog ?s) (r_clog ?s)"
    using logs_take[OF ring_invD(2)[OF inv], of v t] full pos by simp
  show "threads_own ((r_pcs s)(t := pc)) (r_phase ?s)"
    using threads_move[OF ring_invD(3)[OF inv], of t pos pc "PhTaken t v"] old own full
    by (simp add: owner_def)
  show "head_ok (r_single s) (r_head ?s) (r_front ?s) ((r_pcs s)(t := pc))" using hd by simp
qed (use full pos seen in \<open>auto intro: current_upd\<close>)

lemma inv_release:
  assumes inv: "ring_inv s" and old: "owned t (r_pcs s t) = Some (pos, P)" and ph: "r_phase s pos = PhRead t v"
    and own: "owned t pc = None"
    and hd: "head_ok (r_single s) (r_head s) (r_front s) ((r_pcs s)(t := pc))"
    and seen: "\<And>n tp fr ph. pc_seen n tp fr ph pc"
  shows "ring_inv (s\<lparr>r_seq := (r_seq s)[pos mod r_cap s := pos + r_cap s],
    r_phase := (r_phase s)(pos := PhDone v), r_clog := r_clog s @ [(pos, Some v)], r_pcs := (r_pcs s)(t := pc)\<rparr>)" (is "ring_inv ?s")
proof (rule inv_update[OF inv, where t = t and pc = pc])
  show "slots_ok (r_cap ?s) (r_seq ?s) (r_elem ?s) (r_phase ?s)"
    using slots_release[OF ring_invD(1)[OF inv], of pos v] ph by simp
  show "logs_ok (r_tail ?s) (r_front ?s) (r_phase ?s) (r_rlog ?s) (r_clog ?s)"
    using logs_done[OF ring_invD(2)[OF inv] ph] by simp
  show "threads_own ((r_pcs s)(t := pc)) (r_phase ?s)"
    using threads_move[OF ring_invD(3)[OF inv], of t pos pc "PhDone v"] old own by (simp add: owner_def)
  show "head_ok (r_single s) (r_head ?s) (r_front ?s) ((r_pcs s)(t := pc))" using hd by simp
  show "\<exists>w. r_phase ?s (r_front s) = PhFull w" if "r_phase s (r_front s) = PhFull v'" for v'
    using that ph by auto
qed (use ph seen in \<open>auto simp: current_def\<close>)

lemma push_step_inv:
  assumes inv: "ring_inv s"
  shows "ring_inv (push_step spurious t s)"
proof -
  note hd = head_ok_push[OF ring_invD(5)[OF inv], of _ t]
  have seen: "pc_seen (r_cap s) (r_tail s) (r_front s) (r_phase s) (r_pcs s t)" by (rule ring_invD(4)[OF inv])
  show ?thesis
  proof (cases "r_pcs s t")
    case (PStart v)
    then show ?thesis unfolding push_step_def
      by (simp, intro inv_goto[OF inv] hd)
        (simp_all add: owned_def pc_seen_def is_cpop_def is_spop_def)
  next
    case (PCheck v pos)
    then have le: "pos \<le> r_tail s" using seen by (simp add: pc_seen_def)
    have "pc_seen (r_cap s) (r_tail s) (r_front s) (r_phase s) (PCas v pos)" if "seq_diff s pos pos = 0"
      using check_current[OF inv le that] le by (simp add: pc_seen_def)
    with PCheck show ?thesis unfolding push_step_def Let_def
      by (simp, intro conjI impI inv_goto[OF inv] hd)
        (simp_all add: owned_def pc_seen_def is_cpop_def is_spop_def)
  next
    case (PCas v pos)
    have "ring_inv (goto t (PCheck v (r_tail s)) s)"
      by (intro inv_goto[OF inv] hd) (simp_all add: PCas owned_def pc_seen_def is_cpop_def is_spop_def)
    then show ?thesis using inv_reserve[OF inv PCas] PCas unfolding push_step_def by simp
  next
    case (PWrite v pos)
    have o: "owned t (r_pcs s t) = Some (pos, {PhReserved t v})" using PWrite by (simp add: owned_def)
    then have ph: "r_phase s pos = PhReserved t v" using ring_owned[OF inv o] by simp
    have sq: "r_seq s = (r_seq s)[pos mod r_cap s := pos + phase_off (PhWritten t v)]"
      using slots_ok_seq[OF ring_invD(1)[OF inv] slots_ok_current[OF ring_invD(1)[OF inv], of pos]] ph
      by (simp add: phase_off_def) (metis list_update_id)
    have "ring_inv (s\<lparr>r_seq := r_seq s, r_elem := (r_elem s)[pos mod r_cap s := Some v],
        r_phase := (r_phase s)(pos := PhWritten t v), r_pcs := (r_pcs s)(t := PPublish v pos)\<rparr>)"
      by (rule inv_owner_move[OF inv o ph _ _ _ _ _ _ _ _ sq refl])
        (use PWrite hd in \<open>simp_all add: phase_val_def phase_live_def owned_def pc_seen_def is_cpop_def is_spop_def\<close>)
    then show ?thesis using PWrite ph unfolding push_step_def by (simp add: ghost_at_def phase_val_def goto_def)
  next
    case (PPublish v pos)
    have o: "owned t (r_pcs s t) = Some (pos, {PhWritten t v})" using PPublish by (simp add: owned_def)
    then have ph: "r_phase s pos = PhWritten t v" using ring_owned[OF inv o] by simp
    have el: "r_elem s = (r_elem s)[pos mod r_cap s := Some v]"
      using slots_ok_elem[OF ring_invD(1)[OF inv], of pos v] ph
      by (simp add: phase_live_def) (metis list_update_id)
    have "ring_inv (s\<lparr>r_seq := (r_seq s)[pos mod r_cap s := pos + 1], r_elem := r_elem s,
        r_phase := (r_phase s)(pos := PhFull v), r_pcs := (r_pcs s)(t := Idle)\<rparr>)"
      by (rule inv_owner_move[OF inv o ph _ _ _ _ _ _ _ _ _ el])
        (use PPublish hd in \<open>simp_all add: phase_val_def phase_live_def phase_off_def owned_def owner_def pc_seen_def is_cpop_def is_spop_def\<close>)
    then show ?thesis using PPublish ph unfolding push_step_def by (simp add: ghost_at_def phase_val_def goto_def)
  qed (use inv in \<open>simp_all add: push_step_def\<close>)
qed

lemma read_step_inv:
  assumes inv: "ring_inv s" and o: "owned t (r_pcs s t) = Some (pos, {PhTaken t v |v. True})"
    and pc: "\<And>x. owned t (pc x) = Some (pos, {PhRead t v |v. x = Some v})"
    and hd: "\<And>x. head_ok (r_single s) (r_head s) (r_front s) ((r_pcs s)(t := pc x))"
    and seen: "\<And>n tp fr ph x. pc_seen n tp fr ph (pc x)"
  shows "ring_inv (goto t (pc (r_elem s ! (pos mod r_cap s)))
    (ghost_at pos (PhRead t) (s\<lparr>r_elem := (r_elem s)[pos mod r_cap s := None]\<rparr>)))"
proof -
  obtain v where ph: "r_phase s pos = PhTaken t v" using ring_owned[OF inv o] by auto
  note ok = ring_invD(1)[OF inv]
  have el: "r_elem s ! (pos mod r_cap s) = Some v"
    using slots_ok_elem[OF ok, of pos v] ph by (simp add: phase_live_def)
  have sq: "r_seq s = (r_seq s)[pos mod r_cap s := pos + phase_off (PhRead t v)]"
    using slots_ok_seq[OF ok slots_ok_current[OF ok, of pos]] ph
    by (simp add: phase_off_def) (metis list_update_id)
  have "ring_inv (s\<lparr>r_seq := r_seq s, r_elem := (r_elem s)[pos mod r_cap s := None],
      r_phase := (r_phase s)(pos := PhRead t v), r_pcs := (r_pcs s)(t := pc (Some v))\<rparr>)"
    by (rule inv_owner_move[OF inv o ph _ _ _ _ _ _ _ _ sq refl])
      (use pc hd seen in \<open>simp_all add: phase_val_def phase_live_def\<close>)
  then show ?thesis using el ph by (simp add: ghost_at_def phase_val_def goto_def)
qed

lemma release_step_inv:
  assumes inv: "ring_inv s" and o: "owned t (r_pcs s t) = Some (pos, {PhRead t v |v. x = Some v})"
    and hd: "head_ok (r_single s) (r_head s) (r_front s) ((r_pcs s)(t := Idle))"
  shows "ring_inv (goto t Idle (ghost_log pos x (s\<lparr>r_seq := (r_seq s)[pos mod r_cap s := pos + r_cap s]\<rparr>)))"
proof -
  obtain v where ph: "r_phase s pos = PhRead t v" and x: "x = Some v" using ring_owned[OF inv o] by auto
  show ?thesis
    using inv_release[OF inv o ph, of Idle] hd ph x
    by (simp add: ghost_log_def ghost_at_def phase_val_def goto_def owned_def pc_seen_def)
qed

lemma mpmc_pop_step_inv:
  assumes inv: "ring_inv s"
  shows "ring_inv (mpmc_pop_step spurious t s)"
proof -
  have seen: "pc_seen (r_cap s) (r_tail s) (r_front s) (r_phase s) (r_pcs s t)" by (rule ring_invD(4)[OF inv])
  note hd = head_ok_multi[OF ring_invD(5)[OF inv], of t]
  have hd': "r_head s = r_front s \<and> \<not> r_single s \<and> head_ok (r_single s) (r_head s) (r_front s) ((r_pcs s)(t := pc))"
    if "is_cpop (r_pcs s t)" "\<not> is_spop pc" for pc
    using hd[OF that] by metis
  show ?thesis
  proof (cases "r_pcs s t")
    case CStart
    then have h: "r_head s = r_front s" using hd'[of Idle] by (simp add: is_cpop_def is_spop_def)
    then show ?thesis using CStart hd' unfolding mpmc_pop_step_def
      by (simp, intro inv_goto[OF inv])
        (simp_all add: owned_def pc_seen_def is_cpop_def is_spop_def)
  next
    case (CCheck pos)
    then have le: "pos \<le> r_front s" using seen by (simp add: pc_seen_def)
    have "pc_seen (r_cap s) (r_tail s) (r_front s) (r_phase s) (CCas pos)" if "seq_diff s pos (pos + 1) = 0"
      using check_full[OF inv] that le by (auto simp: pc_seen_def)
    with CCheck show ?thesis using hd' unfolding mpmc_pop_step_def Let_def
      by (simp, intro conjI impI inv_goto[OF inv])
        (simp_all add: owned_def pc_seen_def is_cpop_def is_spop_def)
  next
    case (CCas pos)
    have h: "r_head s = r_front s" "\<not> r_single s" using hd'[of Idle] CCas by (simp_all add: is_cpop_def is_spop_def)
    have fail: "ring_inv (goto t (CCheck (r_head s)) s)"
      using hd' by (intro inv_goto[OF inv]) (simp_all add: h CCas owned_def pc_seen_def is_cpop_def is_spop_def)
    have "ring_inv (goto t (CRead pos) (ghost_at pos (PhTaken t) (s\<lparr>r_head := pos + 1, r_front := pos + 1\<rparr>)))"
      if hp: "r_head s = pos"
    proof -
      obtain v where ph: "r_phase s pos = PhFull v" using seen CCas h hp by (auto simp: pc_seen_def)
      show ?thesis
        using inv_take[OF inv _ ph, of t "CRead pos" "pos + 1"] hd[of "CRead pos"] CCas hp h ph
        by (simp add: ghost_at_def phase_val_def goto_def owned_def pc_seen_def is_cpop_def is_spop_def)
    qed
    then show ?thesis using fail CCas unfolding mpmc_pop_step_def by simp
  next
    case (CRead pos)
    show ?thesis
      using read_step_inv[OF inv, of t pos "CRelease pos"] hd' CRead
      by (simp add: mpmc_pop_step_def owned_def pc_seen_def is_cpop_def is_spop_def)
  next
    case (CRelease pos x)
    show ?thesis
      using release_step_inv[OF inv, of t pos x] hd' CRelease
      by (simp add: mpmc_pop_step_def owned_def is_cpop_def is_spop_def)
  qed (use inv in \<open>simp_all add: mpmc_pop_step_def\<close>)
qed

lemma mpsc_pop_step_inv:
  assumes inv: "ring_inv s"
  shows "ring_inv (mpsc_pop_step t s)"
proof -
  note hd = ring_invD(5)[OF inv]
  have st: "r_single s \<and> t = 0" if "is_spop (r_pcs s t)" using head_ok_single[OF hd that] .
  have fr: "front_ok (r_head s) (r_front s) (r_pcs s t)" if "is_spop (r_pcs s t)"
    using hd st[OF that] by (simp add: head_ok_def)
  have hd': "head_ok (r_single s) hp' fr' ((r_pcs s)(t := pc))"
    if "is_spop (r_pcs s t)" "\<not> is_cpop pc" "front_ok hp' fr' pc" for pc hp' fr'
    using hd st[OF that(1)] that by (simp add: head_ok_def)
  show ?thesis
  proof (cases "r_pcs s t")
    case SStart
    then show ?thesis using hd' fr unfolding mpsc_pop_step_def
      by (simp, intro inv_goto[OF inv])
        (simp_all add: owned_def pc_seen_def is_cpop_def is_spop_def front_ok_def)
  next
    case (SCheck pos)
    then have h: "r_head s = pos" "r_front s = pos" using fr by (simp_all add: is_spop_def front_ok_def)
    have empty: "ring_inv (goto t Idle s)"
      using hd' SCheck h by (intro inv_goto[OF inv]) (simp_all add: owned_def pc_seen_def is_cpop_def is_spop_def front_ok_def)
    have "ring_inv (goto t (SMove pos) (ghost_at pos (PhTaken t) (s\<lparr>r_front := pos + 1\<rparr>)))"
      if d: "seq_diff s pos (pos + 1) = 0"
    proof -
      obtain v where ph: "r_phase s pos = PhFull v" using check_full[OF inv] d h by auto
      have "head_ok (r_single s) (r_head s) (pos + 1) ((r_pcs s)(t := SMove pos))"
        using hd'[of "SMove pos"] SCheck h by (simp add: is_cpop_def is_spop_def front_ok_def)
      then show ?thesis
        using inv_take[OF inv _ ph, of t "SMove pos" "r_head s"] SCheck h(2) ph
        by (simp add: ghost_at_def phase_val_def goto_def owned_def pc_seen_def is_cpop_def is_spop_def front_ok_def)
    qed
    then show ?thesis using empty SCheck unfolding mpsc_pop_step_def by simp
  next
    case (SMove pos)
    have f: "r_head s = pos" "r_front s = pos + 1" using fr SMove by (simp_all add: is_spop_def front_ok_def)
    show ?thesis
      using read_step_inv[OF inv, of t pos "SHead pos"] hd' SMove f
      by (simp add: mpsc_pop_step_def owned_def pc_seen_def is_cpop_def is_spop_def front_ok_def)
  next
    case (SHead pos x)
    have f: "r_head s = pos" "r_front s = pos + 1" using fr SHead by (simp_all add: is_spop_def front_ok_def)
    show ?thesis
    proof (rule inv_update[OF inv, where t = t and pc = "SRelease pos x"])
      show "threads_own ((r_pcs s)(t := SRelease pos x)) (r_phase (mpsc_pop_step t s))"
        using threads_same[OF ring_invD(3)[OF inv], of t "SRelease pos x"] SHead
        by (simp add: mpsc_pop_step_def goto_def owned_def)
      show "head_ok (r_single s) (r_head (mpsc_pop_step t s)) (r_front (mpsc_pop_step t s)) ((r_pcs s)(t := SRelease pos x))"
        using hd'[of "SRelease pos x" "pos + 1" "pos + 1"] SHead f
        by (simp add: mpsc_pop_step_def goto_def is_spop_def is_cpop_def front_ok_def)
    qed (use SHead ring_invD[OF inv] in \<open>simp_all add: mpsc_pop_step_def goto_def pc_seen_def\<close>)
  next
    case (SRelease pos x)
    have f: "r_head s = r_front s" using fr SRelease by (simp add: is_spop_def front_ok_def)
    show ?thesis
      using release_step_inv[OF inv, of t pos x] hd' SRelease f
      by (simp add: mpsc_pop_step_def owned_def is_cpop_def is_spop_def front_ok_def)
  qed (use inv in \<open>simp_all add: mpsc_pop_step_def\<close>)
qed

lemma ring_init_inv: "2 \<le> n \<Longrightarrow> ring_inv (ring_init single n)"
proof -
  assume n: "2 \<le> n"
  have "slots_ok n [0..<n] (replicate n None) (\<lambda>_. PhFree)"
    using n by (auto simp: slots_ok_def current_def phase_off_def phase_live_def)
  then show ?thesis
    by (auto simp: ring_init_def ring_inv_def logs_ok_def threads_own_def owned_def owner_def
      pc_seen_def head_ok_def front_ok_def is_cpop_def is_spop_def phase_val_def)
qed

lemma call_inv:
  assumes inv: "ring_inv s"
  shows "ring_inv (call_push t v s)" and "ring_inv (call_pop t s)"
proof -
  have hd: "head_ok (r_single s) (r_head s) (r_front s) ((r_pcs s)(t := PStart v))" if "r_pcs s t = Idle"
    using head_ok_push[OF ring_invD(5)[OF inv], of "PStart v" t] that by (simp add: is_cpop_def is_spop_def)
  show "ring_inv (call_push t v s)"
    using inv hd inv_goto[OF inv, of t "PStart v"] by (simp add: call_push_def owned_def pc_seen_def)
  have hc: "head_ok (r_single s) (r_head s) (r_front s) ((r_pcs s)(t := CStart))"
    if "\<not> r_single s" using ring_invD(5)[OF inv] that by (simp add: head_ok_def is_spop_def)
  have hs: "head_ok (r_single s) (r_head s) (r_front s) ((r_pcs s)(0 := SStart))"
    if "r_single s" "r_pcs s 0 = Idle"
    using ring_invD(5)[OF inv] that by (simp add: head_ok_def is_cpop_def front_ok_def)
  show "ring_inv (call_pop t s)"
    using inv hc hs inv_goto[OF inv, of t CStart] inv_goto[OF inv, of 0 SStart]
    by (simp add: call_pop_def owned_def pc_seen_def)
qed

lemma ring_reach_inv: "ring_reach single n s \<Longrightarrow> 2 \<le> n \<Longrightarrow> ring_inv s"
  by (induction rule: ring_reach.induct)
    (simp_all add: ring_init_inv call_inv push_step_inv mpmc_pop_step_inv mpsc_pop_step_inv)

lemma ghost_fields [simp]:
  "r_cap (ghost_at p f s) = r_cap s" "r_cap (ghost_log p x s) = r_cap s" "r_cap (goto t pc s) = r_cap s"
  by (simp_all add: ghost_at_def ghost_log_def goto_def split: option.split)

lemma ring_reach_cap: "ring_reach single n s \<Longrightarrow> r_cap s = n"
  by (induction rule: ring_reach.induct)
    (auto simp: ring_init_def call_push_def call_pop_def push_step_def mpmc_pop_step_def mpsc_pop_step_def
      Let_def split: ring_pc.split)

section \<open>Properties\<close>

lemma ring_positions:
  assumes inv: "ring_inv s"
  shows "r_head s \<le> r_front s" "r_front s \<le> r_head s + 1" "r_front s \<le> r_tail s" "r_tail s \<le> r_front s + r_cap s"
proof -
  note lo = ring_invD(2)[OF inv] and ok = ring_invD(1)[OF inv]
  show "r_head s \<le> r_front s" "r_front s \<le> r_head s + 1"
    using ring_invD(5)[OF inv] by (auto simp: head_ok_def front_ok_def split: if_splits ring_pc.splits)
  show "r_front s \<le> r_tail s"
  proof (rule ccontr)
    assume "\<not> ?thesis"
    then have "is_taken (r_phase s (r_tail s))" using lo by (simp add: logs_ok_def)
    moreover have "r_phase s (r_tail s) = PhFree" using ring_free[OF inv] by simp
    ultimately show False by simp
  qed
  show "r_tail s \<le> r_front s + r_cap s"
  proof (cases "r_tail s \<le> r_cap s")
    case False
    let ?p = "r_tail s - 1"
    have "r_phase s ?p \<noteq> PhFree" using ring_free[OF inv, of ?p] False by simp
    then have "?p < r_cap s \<or> is_done (r_phase s (?p - r_cap s))"
      using slots_ok_current[OF ok, of ?p] by (simp add: current_def)
    moreover have "is_done ph \<Longrightarrow> is_taken ph" for ph :: "'a phase" by (simp add: is_taken_def)
    ultimately have "?p - r_cap s < r_front s" using False lo by (auto simp: logs_ok_def)
    then show ?thesis by linarith
  qed simp
qed

lemma ring_value:
  assumes inv: "ring_inv s" and "phase_val (r_phase s p) = Some v"
  shows "r_rlog s ! p = v"
  using ring_invD(2)[OF inv] assms(2) by (simp add: logs_ok_def)

lemma ring_log:
  assumes inv: "ring_inv s"
  shows "distinct (map fst (r_clog s))"
    and "(p, x) \<in> set (r_clog s) \<Longrightarrow> p < r_front s \<and> x = Some (r_rlog s ! p)"
proof -
  note lo = ring_invD(2)[OF inv]
  show "distinct (map fst (r_clog s))" using lo by (simp add: logs_ok_def)
  assume "(p, x) \<in> set (r_clog s)"
  then obtain v where ph: "r_phase s p = PhDone v" and x: "x = Some v" using lo by (auto simp: logs_ok_def)
  then have "is_taken (r_phase s p)" by simp
  then have "p < r_front s" using lo unfolding logs_ok_def by blast
  then show "p < r_front s \<and> x = Some (r_rlog s ! p)"
    using ring_value[OF inv, of p v] ph x by (simp add: phase_val_def)
qed

lemma mset_positions:
  assumes "distinct (map fst cl)" and "\<And>p x. (p, x) \<in> set cl \<Longrightarrow> p < length rl \<and> x = Some (rl ! p)"
  shows "mset (map snd cl) \<subseteq># mset (map Some rl)"
proof -
  have "map snd cl = map (\<lambda>p. Some (rl ! p)) (map fst cl)"
    using assms(2) by (auto simp: comp_def)
  moreover have "mset (map fst cl) \<subseteq># mset [0..<length rl]"
  proof -
    have "set (map fst cl) \<subseteq> {0..<length rl}" using assms(2) by fastforce
    then have "mset_set (set (map fst cl)) \<subseteq># mset_set {0..<length rl}" by (simp add: subset_imp_msubset_mset_set)
    then show ?thesis by (metis assms(1) mset_set_set mset_upt)
  qed
  ultimately have "mset (map snd cl) \<subseteq># image_mset (\<lambda>p. Some (rl ! p)) (mset [0..<length rl])"
    by (metis image_mset_subseteq_mono mset_map)
  also have "image_mset (\<lambda>p. Some (rl ! p)) (mset [0..<length rl]) = mset (map Some rl)"
  proof -
    have "map (\<lambda>p. Some (rl ! p)) [0..<length rl] = map Some (map ((!) rl) [0..<length rl])" by simp
    then show ?thesis by (metis map_nth mset_map)
  qed
  finally show ?thesis .
qed

text \<open>The position and the element of a pop that has moved its element out of the slot.\<close>

definition popped :: "'a ring_pc \<Rightarrow> (nat \<times> 'a option) option" where
  "popped pc = (case pc of CRelease p x \<Rightarrow> Some (p, x) | SHead p x \<Rightarrow> Some (p, x) | SRelease p x \<Rightarrow> Some (p, x)
     | _ \<Rightarrow> None)"

lemma popped_value:
  assumes inv: "ring_inv s" and "popped (r_pcs s t) = Some (p, x)"
  shows "x = Some (r_rlog s ! p)"
proof -
  have "owned t (r_pcs s t) = Some (p, {PhRead t v |v. x = Some v})"
    using assms(2) by (auto simp: popped_def owned_def split: ring_pc.splits)
  from ring_owned[OF inv this] obtain v where v: "r_phase s p = PhRead t v" "x = Some v" by auto
  then show ?thesis using ring_value[OF inv, of p v] by (simp add: phase_val_def)
qed


text \<open>A run: thread 0 pushes 7 and pops it again.\<close>

definition demo_at :: "nat list \<Rightarrow> nat option list \<Rightarrow> nat \<Rightarrow> nat \<Rightarrow> nat ring_pc \<Rightarrow> nat phase \<Rightarrow>
    nat list \<Rightarrow> (nat \<times> nat option) list \<Rightarrow> nat ring" where
  "demo_at sq el hp tp a ph rl cl = \<lparr>r_cap = 2, r_seq = sq, r_elem = el, r_head = hp, r_tail = tp,
     r_pcs = (\<lambda>t. if t = 0 then a else Idle), r_single = False, r_front = hp,
     r_phase = (\<lambda>p. if p = 0 then ph else PhFree), r_rlog = rl, r_clog = cl\<rparr>"



lemma demo_reach: "ring_reach False 2 (demo_at [2, 1] [None, None] 1 1 Idle (PhDone 7) [7] [(0, Some 7)])"
proof -
  let ?R = "ring_reach False 2"
  have "ring_init False 2 = demo_at [0, 1] [None, None] 0 0 Idle PhFree [] []"
    by (simp add: ring_init_def demo_at_def fun_eq_iff numeral_2_eq_2)
  then have "?R (demo_at [0, 1] [None, None] 0 0 Idle PhFree [] [])" by (metis reach_init)
  from reach_call_push[OF this, of 0 7]
  have "?R (demo_at [0, 1] [None, None] 0 0 (PStart 7) PhFree [] [])"
    by (simp add: call_push_def demo_at_def goto_def fun_upd_def cong: if_cong)
  from reach_push[OF this, of False 0]
  have "?R (demo_at [0, 1] [None, None] 0 0 (PCheck 7 0) PhFree [] [])"
    by (simp add: push_step_def demo_at_def goto_def fun_upd_def cong: if_cong)
  from reach_push[OF this, of False 0]
  have "?R (demo_at [0, 1] [None, None] 0 0 (PCas 7 0) PhFree [] [])"
    by (simp add: push_step_def demo_at_def goto_def seq_diff_def fun_upd_def cong: if_cong)
  from reach_push[OF this, of False 0]
  have "?R (demo_at [0, 1] [None, None] 0 1 (PWrite 7 0) (PhReserved 0 7) [7] [])"
    by (simp add: push_step_def demo_at_def goto_def fun_upd_def cong: if_cong)
  from reach_push[OF this, of False 0]
  have "?R (demo_at [0, 1] [Some 7, None] 0 1 (PPublish 7 0) (PhWritten 0 7) [7] [])"
    by (simp add: push_step_def demo_at_def goto_def ghost_at_def phase_val_def fun_upd_def cong: if_cong)
  from reach_push[OF this, of False 0]
  have "?R (demo_at [1, 1] [Some 7, None] 0 1 Idle (PhFull 7) [7] [])"
    by (simp add: push_step_def demo_at_def goto_def ghost_at_def phase_val_def fun_upd_def cong: if_cong)
  from reach_call_pop[OF this, of 0]
  have "?R (demo_at [1, 1] [Some 7, None] 0 1 CStart (PhFull 7) [7] [])"
    by (simp add: call_pop_def demo_at_def goto_def fun_upd_def cong: if_cong)
  from reach_mpmc_pop[OF this, of False 0]
  have "?R (demo_at [1, 1] [Some 7, None] 0 1 (CCheck 0) (PhFull 7) [7] [])"
    by (simp add: mpmc_pop_step_def demo_at_def goto_def fun_upd_def cong: if_cong)
  from reach_mpmc_pop[OF this, of False 0]
  have "?R (demo_at [1, 1] [Some 7, None] 0 1 (CCas 0) (PhFull 7) [7] [])"
    by (simp add: mpmc_pop_step_def demo_at_def goto_def seq_diff_def fun_upd_def cong: if_cong)
  from reach_mpmc_pop[OF this, of False 0]
  have "?R (demo_at [1, 1] [Some 7, None] 1 1 (CRead 0) (PhTaken 0 7) [7] [])"
    by (simp add: mpmc_pop_step_def demo_at_def goto_def ghost_at_def phase_val_def fun_upd_def cong: if_cong)
  from reach_mpmc_pop[OF this, of False 0]
  have "?R (demo_at [1, 1] [None, None] 1 1 (CRelease 0 (Some 7)) (PhRead 0 7) [7] [])"
    by (simp add: mpmc_pop_step_def demo_at_def goto_def ghost_at_def phase_val_def fun_upd_def cong: if_cong)
  from reach_mpmc_pop[OF this, of False 0]
  show ?thesis
    by (simp add: mpmc_pop_step_def demo_at_def goto_def ghost_log_def ghost_at_def phase_val_def fun_upd_def numeral_2_eq_2
        cong: if_cong)
qed


text \<open>The position whose storage a thread at a program point may touch without synchronisation.\<close>

definition slot_access :: "'a ring_pc \<Rightarrow> nat option" where
  "slot_access pc = (case pc of PWrite _ p \<Rightarrow> Some p | PPublish _ p \<Rightarrow> Some p | CRead p \<Rightarrow> Some p
     | CRelease p _ \<Rightarrow> Some p | SMove p \<Rightarrow> Some p | SHead p _ \<Rightarrow> Some p | SRelease p _ \<Rightarrow> Some p | _ \<Rightarrow> None)"

lemma slot_access_owned:
  "slot_access pc = Some p \<Longrightarrow> \<exists>P. owned t pc = Some (p, P) \<and> (\<forall>x \<in> P. \<not> is_done x \<and> x \<noteq> PhFree)"
  by (auto simp: slot_access_def owned_def split: ring_pc.splits)

text \<open>The slot whose storage a thread may touch without synchronisation.\<close>

definition slot_held :: "nat \<Rightarrow> 'a ring_pc \<Rightarrow> nat option" where
  "slot_held n pc = map_option (\<lambda>p. p mod n) (slot_access pc)"


text \<open>Threads 0 and 1 push at the same time: both have reserved their slots and write them.\<close>

definition ring_demo2 :: "nat ring" where
  "ring_demo2 =
     push_step False 1 (push_step False 1 (push_step False 1 (push_step False 0 (push_step False 0 (push_step False 0
       (call_push 1 8 (call_push 0 7 (ring_init True 2))))))))"

lemma ring_demo2_reach: "ring_reach True 2 ring_demo2"
  unfolding ring_demo2_def by (intro ring_reach.intros)

lemma ring_demo2_pcs: "r_pcs ring_demo2 0 = PWrite 7 0 \<and> r_pcs ring_demo2 1 = PWrite 8 1"
  by code_simp


end
