(* ===== verification/Time_Units.thy ===== *)
theory Time_Units
  imports Number_Text Logger_Model "HOL-Library.Signed_Division"
begin

text \<open>
  The small utilities every layer uses: the conversions and the date text of \<open>Time\<close> (\<open>src/src/core/common/time/time.cpp\<close>), the
  arguments of \<open>Sleep\<close> (\<open>sleep.hpp\<close>), and the reports of a failed assertion (\<open>core/common/util/debug.hpp\<close>). A \<open>Duration\<close> is a
  64-bit count of nanoseconds, as on Linux; a result that does not fit is undefined behaviour and \<open>None\<close>.
\<close>

section \<open>Durations\<close>

definition fits64 :: "int \<Rightarrow> bool" where
  "fits64 i \<longleftrightarrow> - (2 ^ 63) \<le> i \<and> i < 2 ^ 63"

definition checked64 :: "int \<Rightarrow> int option" where
  "checked64 i = (if fits64 i then Some i else None)"

text \<open>\<open>duration_cast\<close> to a coarser unit cuts off towards zero.\<close>

definition toMs :: "int \<Rightarrow> int" where "toMs d = d sdiv 1000000"
definition toUs :: "int \<Rightarrow> int" where "toUs d = d sdiv 1000"
definition toNs :: "int \<Rightarrow> int" where "toNs d = d"

definition dur_ms :: "int \<Rightarrow> int option" where "dur_ms v = checked64 (v * 1000000)"
definition dur_us :: "int \<Rightarrow> int option" where "dur_us v = checked64 (v * 1000)"
definition dur_ns :: "int \<Rightarrow> int option" where "dur_ns v = checked64 v"

definition nowMs :: "int \<Rightarrow> int" where "nowMs now = toMs now"
definition nowUs :: "int \<Rightarrow> int" where "nowUs now = toUs now"
definition nowNs :: "int \<Rightarrow> int" where "nowNs now = toNs now"

definition afterMs :: "int \<Rightarrow> int \<Rightarrow> int option" where "afterMs now v = Option.bind (dur_ms v) (\<lambda>d. checked64 (now + d))"
definition afterUs :: "int \<Rightarrow> int \<Rightarrow> int option" where "afterUs now v = Option.bind (dur_us v) (\<lambda>d. checked64 (now + d))"
definition afterNs :: "int \<Rightarrow> int \<Rightarrow> int option" where "afterNs now v = Option.bind (dur_ns v) (\<lambda>d. checked64 (now + d))"

text \<open>\<open>Sleep::sleepMs\<close> takes 32 unsigned bits: the \<open>int\<close> of a configuration is converted first.\<close>

definition sleepMs :: "32 word \<Rightarrow> nat" where "sleepMs v = unat v * 1000000"
definition sleepSec :: "32 word \<Rightarrow> nat" where "sleepSec v = unat v * 1000000000"
definition sleepUs :: "64 word \<Rightarrow> int option" where "sleepUs v = checked64 (sint v * 1000)"

lemma sdiv_bounds:
  assumes "0 < (k :: int)"
  shows "\<bar>d sdiv k\<bar> * k \<le> \<bar>d\<bar> \<and> \<bar>d\<bar> < (\<bar>d sdiv k\<bar> + 1) * k"
proof -
  have a: "\<bar>d sdiv k\<bar> = \<bar>d\<bar> div k"
    using assms by (simp add: signed_divide_int_def abs_mult sgn_if pos_imp_zdiv_nonneg_iff abs_of_nonneg)
  have "\<bar>d\<bar> div k * k + \<bar>d\<bar> mod k = \<bar>d\<bar>" by simp
  moreover have "0 \<le> \<bar>d\<bar> mod k" "\<bar>d\<bar> mod k < k" using assms by simp_all
  ultimately show ?thesis unfolding a unfolding distrib_right mult_1 by linarith
qed

lemma sdiv_of_product:
  assumes "0 < (k :: int)"
  shows "(v * k) sdiv k = v"
proof -
  have "sgn (v * k) = sgn v" and "\<bar>v * k\<bar> div k = \<bar>v\<bar>" using assms by (simp_all add: sgn_mult abs_mult)
  then show ?thesis using assms by (simp add: signed_divide_int_def mult_sgn_abs)
qed

text \<open>
  A time in milliseconds or microseconds survives the conversion there and back whenever it is representable, and reading a
  duration in a coarser unit loses less than one of it, towards zero.
\<close>
theorem durations_convert_back:
  "(\<forall>d. dur_ms v = Some d \<longrightarrow> toMs d = v) \<and> (\<forall>d. dur_us v = Some d \<longrightarrow> toUs d = v) \<and> (\<forall>d. dur_ns v = Some d \<longrightarrow> toNs d = v)
   \<and> \<bar>toMs d\<bar> * 1000000 \<le> \<bar>d\<bar> \<and> \<bar>d\<bar> < (\<bar>toMs d\<bar> + 1) * 1000000 \<and> \<bar>toUs d\<bar> * 1000 \<le> \<bar>d\<bar> \<and> \<bar>d\<bar> < (\<bar>toUs d\<bar> + 1) * 1000"
  using sdiv_bounds[of 1000000 d] sdiv_bounds[of 1000 d]
  by (auto simp: dur_ms_def dur_us_def dur_ns_def toMs_def toUs_def toNs_def checked64_def sdiv_of_product split: if_splits)

text \<open>A deadline lies as far ahead as was asked for, or overflows: from 292 years on.\<close>

theorem deadlines_are_exact_or_overflow:
  assumes "0 \<le> now" and "0 \<le> v"
  shows "(\<forall>t. afterMs now v = Some t \<longrightarrow> t - now = v * 1000000) \<and> (afterMs now v = None \<longleftrightarrow> now + v * 1000000 \<ge> 2 ^ 63)"
proof (cases "v * 1000000 < 2 ^ 63")
  case True
  then have "dur_ms v = Some (v * 1000000)" using assms by (simp add: dur_ms_def checked64_def fits64_def)
  then show ?thesis using assms by (auto simp: afterMs_def checked64_def fits64_def)
next
  case False
  then show ?thesis using assms by (auto simp: afterMs_def dur_ms_def checked64_def fits64_def)
qed

text \<open>A negative pause, as a configuration file may ask for, is one of about 49 days.\<close>

lemma negative_sleep_is_long: "sleepMs (word_of_int (-1)) = 4294967295 * 1000000"
  by (simp add: sleepMs_def unsigned_minus_1_eq_mask mask_eq_exp_minus_1)

section \<open>The date\<close>

record date =
  dt_year :: int
  dt_month :: int
  dt_day :: int
  dt_hour :: int
  dt_min :: int
  dt_sec :: int

text \<open>\<open>nowDate\<close> from what \<open>localtime_r\<close> yields: the year counts from 1900 and the month from zero.\<close>

definition nowDate :: "date \<Rightarrow> date" where
  "nowDate tm = tm\<lparr>dt_year := dt_year tm + 1900, dt_month := dt_month tm + 1\<rparr>"

text \<open>\<open>%0wd\<close>: zeros between the sign and the digits; \<open>snprintf\<close> keeps what fits the buffer of 64.\<close>

definition pad_zero :: "nat \<Rightarrow> int \<Rightarrow> string" where
  "pad_zero w i =
     (if i < 0 then CHR ''-'' # replicate (w - 1 - length (dec (nat (- i)))) CHR ''0'' @ dec (nat (- i))
      else replicate (w - length (dec (nat i))) CHR ''0'' @ dec (nat i))"

definition nowDateString :: "date \<Rightarrow> string" where
  "nowDateString tm =
     (let d = nowDate tm in
      take 63 (pad_zero 4 (dt_year d) @ ''-'' @ pad_zero 2 (dt_month d) @ ''-'' @ pad_zero 2 (dt_day d) @ '' ''
        @ pad_zero 2 (dt_hour d) @ '':'' @ pad_zero 2 (dt_min d) @ '':'' @ pad_zero 2 (dt_sec d)))"

lemma length_dec: "n < 10 ^ k \<Longrightarrow> 0 < k \<Longrightarrow> length (dec n) \<le> k"
proof (induction k arbitrary: n)
  case (Suc k)
  show ?case
  proof (cases "n < 10")
    case True
    then show ?thesis by (simp add: dec_def digits.simps)
  next
    case False
    then have "k \<noteq> 0" using Suc.prems(1) by (cases k) auto
    moreover have "n div 10 < 10 ^ k" using Suc.prems(1) by (simp add: less_mult_imp_div_less mult.commute)
    ultimately have "length (dec (n div 10)) \<le> k" using Suc.IH by simp
    then show ?thesis using False by (subst dec_def, subst digits.simps) (simp add: dec_def)
  qed
qed simp

lemma digits_value_zeros: "digits_value 10 (replicate k CHR ''0'' @ s) = digits_value 10 s"
  by (induction k) (simp_all add: digits_value_def digit_of_def)

text \<open>A field of \<open>w\<close> digits: as long as that, and its value reads back.\<close>

lemma pad_zero_field:
  assumes "0 \<le> i" and "i < 10 ^ w" and "0 < w"
  shows "length (pad_zero w i) = w \<and> int (digits_value 10 (pad_zero w i)) = i"
proof -
  have "nat i < 10 ^ w" using assms(1,2) by (simp add: nat_less_iff)
  then have "length (dec (nat i)) \<le> w" using assms(3) by (rule length_dec)
  moreover have "digits_value 10 (dec (nat i)) = nat i" by (simp add: dec_def digits_value_digits)
  ultimately show ?thesis using assms(1) by (simp add: pad_zero_def digits_value_zeros)
qed

definition field_at :: "nat \<Rightarrow> nat \<Rightarrow> string \<Rightarrow> int" where
  "field_at k n s = int (digits_value 10 (take n (drop k s)))"

text \<open>Until the year 9999 a time stamp has nineteen characters, its separators at fixed places, and its fields read back.\<close>

theorem date_text_reads_back:
  assumes "nowDate tm = \<lparr>dt_year = y, dt_month = mo, dt_day = d, dt_hour = h, dt_min = mi, dt_sec = s\<rparr>"
    and "0 \<le> y" "y \<le> 9999" "0 \<le> mo" "mo \<le> 99" "0 \<le> d" "d \<le> 99" "0 \<le> h" "h \<le> 99" "0 \<le> mi" "mi \<le> 99" "0 \<le> s" "s \<le> 99"
  shows "length (nowDateString tm) = 19 \<and> nowDateString tm ! 4 = CHR ''-'' \<and> nowDateString tm ! 10 = CHR '' ''
    \<and> map (\<lambda>(k, n). field_at k n (nowDateString tm)) [(0, 4), (5, 2), (8, 2), (11, 2), (14, 2), (17, 2)] = [y, mo, d, h, mi, s]"
proof -
  have f: "length (pad_zero 4 y) = 4" "int (digits_value 10 (pad_zero 4 y)) = y"
    "length (pad_zero 2 mo) = 2" "int (digits_value 10 (pad_zero 2 mo)) = mo"
    "length (pad_zero 2 d) = 2" "int (digits_value 10 (pad_zero 2 d)) = d"
    "length (pad_zero 2 h) = 2" "int (digits_value 10 (pad_zero 2 h)) = h"
    "length (pad_zero 2 mi) = 2" "int (digits_value 10 (pad_zero 2 mi)) = mi"
    "length (pad_zero 2 s) = 2" "int (digits_value 10 (pad_zero 2 s)) = s"
    using assms(2-) pad_zero_field[of y 4] pad_zero_field[of mo 2] pad_zero_field[of d 2] pad_zero_field[of h 2]
      pad_zero_field[of mi 2] pad_zero_field[of s 2] by simp_all
  show ?thesis
    by (simp add: nowDateString_def assms(1) Let_def f field_at_def nth_append)
qed

section \<open>Failed assertions\<close>

text \<open>
  \<open>V2_ASSERT\<close> of a debug build and \<open>V2_PANIC\<close>: a fatal line through the active logger, which flushes the thread's buffer, then
  the box, then the process ends. In a release build an assertion is nothing.
\<close>

definition panic_box :: "string \<Rightarrow> log_call \<Rightarrow> string option \<Rightarrow> string" where
  "panic_box title c expr =
     nl @ title @ nl @ ''Message    : '' @ lc_msg c @ nl
     @ (case expr of Some x \<Rightarrow> ''Expression : '' @ x @ nl | None \<Rightarrow> [])
     @ ''File       : '' @ lc_file c @ nl @ ''Line       : '' @ dec (lc_line c) @ nl @ ''Function   : '' @ lc_func c @ nl"

definition v2_panic :: "nat \<Rightarrow> log_call \<Rightarrow> log_world \<Rightarrow> log_world" where
  "v2_panic t c w =
     (let w = v2_log t (c\<lparr>lc_level := Fatal\<rparr>) w in logBlock (activeLogger w) (panic_box ''[PANIC]'' c None) w)"

text \<open>The second component is whether the process goes on.\<close>

definition v2_assert :: "bool \<Rightarrow> nat \<Rightarrow> string \<Rightarrow> log_call \<Rightarrow> bool \<Rightarrow> log_world \<Rightarrow> log_world \<times> bool" where
  "v2_assert release t expr c holds w =
     (if release \<or> holds then (w, True)
      else let w = v2_log t (c\<lparr>lc_level := Fatal\<rparr>) w
           in (logBlock (activeLogger w) (panic_box ''[ASSERT FAILED]'' c (Some expr)) w, False))"

lemma v2_log_active: "activeLogger (v2_log t c w) = activeLogger w"
  by (auto simp: v2_log_def log_write_def flushBuffer_def write_block_def activeLogger_def Let_def split: option.split)

text \<open>
  When an assertion fails, what the thread had logged so far and the fatal line are written out before the box, and nothing
  of it is left in the buffer, whatever the level: only a level above the highest would swallow the fatal line.
\<close>
theorem assertion_report_is_complete:
  assumes "v2_assert False t expr c False w = (w', go)" and "lg_level (lw_logger w (activeLogger w)) \<le> 5"
  shows "\<not> go \<and> lw_buf w' t = [] \<and> (\<exists>blocks. lw_stderr w' = lw_stderr w @ blocks @ [(None, panic_box ''[ASSERT FAILED]'' c (Some expr))]
    \<and> concat (map snd blocks) = lw_buf w t @ log_line (c\<lparr>lc_level := Fatal\<rparr>))"
proof -
  let ?v = "v2_log t (c\<lparr>lc_level := Fatal\<rparr>) w"
  have w': "w' = logBlock (activeLogger ?v) (panic_box ''[ASSERT FAILED]'' c (Some expr)) ?v" "\<not> go"
    using assms(1) by (auto simp: v2_assert_def Let_def)
  have b: "lw_buf (write_block l x s u) = lw_buf u" "lw_stderr (write_block l x s u) = lw_stderr u @ [(x, s)]" for l x s u
    by (auto simp: write_block_def Let_def split: option.split)
  have v: "lw_buf ?v t = [] \<and> (\<exists>blocks. lw_stderr ?v = lw_stderr w @ blocks
      \<and> concat (map snd blocks) = lw_buf w t @ log_line (c\<lparr>lc_level := Fatal\<rparr>))"
    using assms(2) by (auto simp: v2_log_def log_write_def flushBuffer_def b Let_def)
  then obtain blocks where "lw_stderr ?v = lw_stderr w @ blocks"
    "concat (map snd blocks) = lw_buf w t @ log_line (c\<lparr>lc_level := Fatal\<rparr>)" by blast
  then show ?thesis using v by (simp add: w' logBlock_def b)
qed

end
