(* ===== verification/Token_Protocol.thy ===== *)
theory Token_Protocol
  imports V2_Prelude
begin

text \<open>
  The in-flight token of an actor (\<open>work_dispatcher.cpp\<close>: \<open>dispatch\<close>, \<open>settleToken\<close>, \<open>enqueueEntry\<close>,
  \<open>drainPendedActor\<close>; \<open>actor_runtime.cpp\<close>: \<open>enqueue\<close>, \<open>run\<close>), under interleaving. A sender pushes to the
  mailbox and then exchanges the token flag; whoever turns it from 0 to 1 must enter the actor in a worker
  queue. A worker that takes an entry out runs the actor, gives the flag back, and looks at the mailbox
  again, because a sender that came between saw the flag still set. Every access to shared memory is one
  step, and any number of threads act at once.

  The model follows one actor. Its mailbox is a count (the order of messages is the rings' business), its
  entries in the worker queues and in \<open>pendedActorList_\<close> are counts, and whether a queue or the mailbox has
  room is left open, since other actors share the queues. \<open>pendingWork_\<close> is an integer; \<open>tk_refused\<close> is a
  ghost that counts refused re-dispatches.
\<close>

section \<open>State\<close>

text \<open>
  Program points. The flag of a sender's point says whether the sender is the actor itself, sending from
  within its own handler: afterwards it goes on running.
\<close>

datatype tk_pc =
    TIdle
  | SPush bool | SExchange bool | SEnter bool | SCount bool
  | WRun | WRelease | WStopped | WMailbox | WClaim | WEnter | WRetire

record tk =
  tk_held :: bool
  tk_mail :: nat
  tk_stopped :: bool
  tk_queued :: nat
  tk_pended :: nat
  tk_pending :: int
  tk_pcs :: "tk_pc list"
  tk_refused :: nat

definition tk_init :: "nat \<Rightarrow> tk" where
  "tk_init n = \<lparr>tk_held = False, tk_mail = 0, tk_stopped = False, tk_queued = 0, tk_pended = 0, tk_pending = 0,
     tk_pcs = replicate n TIdle, tk_refused = 0\<rparr>"

definition after_send :: "bool \<Rightarrow> tk_pc" where
  "after_send self = (if self then WRun else TIdle)"

definition tk_goto :: "nat \<Rightarrow> tk_pc \<Rightarrow> tk \<Rightarrow> tk" where
  "tk_goto t pc s = s\<lparr>tk_pcs := (tk_pcs s)[t := pc]\<rparr>"

section \<open>Steps\<close>

text \<open>Thread \<open>t\<close> takes one step; \<open>room\<close> says whether the queue it pushes to has room.\<close>

fun sender_step :: "bool \<Rightarrow> nat \<Rightarrow> tk_pc \<Rightarrow> tk \<Rightarrow> tk" where
  "sender_step room t (SPush self) s =
     (if room then tk_goto t (SExchange self) (s\<lparr>tk_mail := tk_mail s + 1\<rparr>) else tk_goto t (after_send self) s)"
| "sender_step room t (SExchange self) s =
     (if tk_held s then tk_goto t (after_send self) s
      else tk_goto t (SEnter self) (s\<lparr>tk_held := True\<rparr>))"
| "sender_step room t (SEnter self) s =
     (if room then tk_goto t (SCount self) (s\<lparr>tk_queued := tk_queued s + 1\<rparr>)
      else tk_goto t (after_send self) (s\<lparr>tk_pended := tk_pended s + 1\<rparr>))"
| "sender_step room t (SCount self) s = tk_goto t (after_send self) (s\<lparr>tk_pending := tk_pending s + 1\<rparr>)"
| "sender_step room t pc s = s"

fun settle_step :: "bool \<Rightarrow> nat \<Rightarrow> tk_pc \<Rightarrow> tk \<Rightarrow> tk" where
  "settle_step room t WRelease s = tk_goto t WStopped (s\<lparr>tk_held := False\<rparr>)"
| "settle_step room t WStopped s = tk_goto t (if tk_stopped s then WRetire else WMailbox) s"
| "settle_step room t WMailbox s = tk_goto t (if tk_mail s = 0 then WRetire else WClaim) s"
| "settle_step room t WClaim s =
     (if tk_held s then tk_goto t WRetire s else tk_goto t WEnter (s\<lparr>tk_held := True\<rparr>))"
| "settle_step room t WEnter s =
     (if room then tk_goto t TIdle (s\<lparr>tk_queued := tk_queued s + 1\<rparr>)
      else tk_goto t TIdle (s\<lparr>tk_pended := tk_pended s + 1, tk_refused := tk_refused s + 1\<rparr>))"
| "settle_step room t WRetire s = tk_goto t TIdle (s\<lparr>tk_pending := tk_pending s - 1\<rparr>)"
| "settle_step room t pc s = s"

text \<open>
  What threads may do: start to send, take an entry from a queue, handle a message (the batch, or the
  supervisor draining the mailbox), send to itself while handling, end the batch, shut the actor down,
  move a pended entry to a queue.
\<close>

inductive tk_step :: "tk \<Rightarrow> tk \<Rightarrow> bool" where
  tk_send: "t < length (tk_pcs s) \<Longrightarrow> tk_pcs s ! t = TIdle \<Longrightarrow> tk_step s (tk_goto t (SPush False) s)"
| tk_sender: "t < length (tk_pcs s) \<Longrightarrow> tk_step s (sender_step room t (tk_pcs s ! t) s)"
| tk_acquire: "t < length (tk_pcs s) \<Longrightarrow> tk_pcs s ! t = TIdle \<Longrightarrow> 0 < tk_queued s \<Longrightarrow>
    tk_step s (tk_goto t WRun (s\<lparr>tk_queued := tk_queued s - 1\<rparr>))"
| tk_handle: "t < length (tk_pcs s) \<Longrightarrow> tk_pcs s ! t = WRun \<Longrightarrow> 0 < tk_mail s \<Longrightarrow>
    tk_step s (s\<lparr>tk_mail := tk_mail s - 1\<rparr>)"
| tk_self: "t < length (tk_pcs s) \<Longrightarrow> tk_pcs s ! t = WRun \<Longrightarrow> tk_step s (tk_goto t (SPush True) s)"
| tk_shutdown: "t < length (tk_pcs s) \<Longrightarrow> tk_pcs s ! t = WRun \<Longrightarrow> tk_step s (s\<lparr>tk_stopped := True\<rparr>)"
| tk_end_batch: "t < length (tk_pcs s) \<Longrightarrow> tk_pcs s ! t = WRun \<Longrightarrow> tk_step s (tk_goto t WRelease s)"
| tk_settle: "t < length (tk_pcs s) \<Longrightarrow> tk_step s (settle_step room t (tk_pcs s ! t) s)"
| tk_drain: "t < length (tk_pcs s) \<Longrightarrow> tk_pcs s ! t = TIdle \<Longrightarrow> 0 < tk_pended s \<Longrightarrow>
    tk_step s (s\<lparr>tk_pended := tk_pended s - 1, tk_queued := tk_queued s + 1, tk_pending := tk_pending s + 1\<rparr>)"

inductive tk_reach :: "nat \<Rightarrow> tk \<Rightarrow> bool" for n where
  tk_start: "tk_reach n (tk_init n)"
| tk_next: "tk_reach n s \<Longrightarrow> tk_step s s' \<Longrightarrow> tk_reach n s'"

section \<open>Counting threads\<close>

definition cnt :: "(tk_pc \<Rightarrow> bool) \<Rightarrow> tk_pc list \<Rightarrow> int" where
  "cnt P pcs = int (length (filter P pcs))"

definition one_if :: "bool \<Rightarrow> int" where
  "one_if b = (if b then 1 else 0)"

lemma cnt_Cons: "cnt P (x # xs) = one_if (P x) + cnt P xs"
  by (simp add: cnt_def one_if_def)

lemma cnt_update: "t < length pcs \<Longrightarrow> cnt P (pcs[t := pc]) = cnt P pcs - one_if (P (pcs ! t)) + one_if (P pc)"
proof (induction pcs arbitrary: t)
  case (Cons x xs)
  then show ?case by (cases t) (simp_all add: cnt_Cons)
qed simp

lemma cnt_ge: "0 \<le> cnt P pcs" by (simp add: cnt_def)

lemma cnt_card: "cnt P pcs = int (card {i. i < length pcs \<and> P (pcs ! i)})"
  by (simp add: cnt_def length_filter_conv_card)

lemma cnt_pos:
  assumes "t < length pcs" "P (pcs ! t)"
  shows "1 \<le> cnt P pcs"
proof -
  have "{t} \<subseteq> {i. i < length pcs \<and> P (pcs ! i)}" using assms by simp
  then have "card {t} \<le> card {i. i < length pcs \<and> P (pcs ! i)}" by (rule card_mono[rotated]) simp
  then show ?thesis by (simp add: cnt_card)
qed

lemma cnt_two:
  assumes "t < length pcs" "u < length pcs" "t \<noteq> u" "P (pcs ! t)" "P (pcs ! u)"
  shows "2 \<le> cnt P pcs"
proof -
  have "{t, u} \<subseteq> {i. i < length pcs \<and> P (pcs ! i)}" using assms by simp
  then have "card {t, u} \<le> card {i. i < length pcs \<and> P (pcs ! i)}" by (rule card_mono[rotated]) simp
  then show ?thesis using assms(3) by (simp add: cnt_card)
qed

section \<open>Invariant\<close>

text \<open>The actor's runner; the threads about to enter it in a queue; those about to look again; those counted as work.\<close>

fun runs :: "tk_pc \<Rightarrow> bool" where
  "runs WRun = True" | "runs WRelease = True"
| "runs (SPush self) = self" | "runs (SExchange self) = self" | "runs (SEnter self) = self" | "runs (SCount self) = self"
| "runs _ = False"

fun enters :: "tk_pc \<Rightarrow> bool" where
  "enters (SEnter _) = True" | "enters WEnter = True" | "enters _ = False"

fun looks_again :: "tk_pc \<Rightarrow> bool" where
  "looks_again (SExchange _) = True" | "looks_again WStopped = True" | "looks_again WMailbox = True"
| "looks_again WClaim = True" | "looks_again _ = False"

fun busy :: "tk_pc \<Rightarrow> bool" where
  "busy WStopped = True" | "busy WMailbox = True" | "busy WClaim = True" | "busy WEnter = True" | "busy WRetire = True"
| "busy pc = runs pc"

fun counts :: "tk_pc \<Rightarrow> bool" where
  "counts (SCount _) = True" | "counts _ = False"

definition tk_inv :: "tk \<Rightarrow> bool" where
  "tk_inv s \<longleftrightarrow>
     int (tk_queued s) + int (tk_pended s) + cnt runs (tk_pcs s) + cnt enters (tk_pcs s) = one_if (tk_held s) \<and>
     (0 < tk_mail s \<longrightarrow> \<not> tk_stopped s \<longrightarrow> \<not> tk_held s \<longrightarrow> 1 \<le> cnt looks_again (tk_pcs s)) \<and>
     tk_pending s + cnt counts (tk_pcs s) = int (tk_queued s) + cnt busy (tk_pcs s) + int (tk_refused s)"

lemma tk_init_inv: "tk_inv (tk_init n)"
proof -
  have "cnt P (replicate n TIdle) = 0" if "\<not> P TIdle" for P
    using that by (simp add: cnt_def)
  then show ?thesis by (simp add: tk_inv_def tk_init_def one_if_def)
qed

lemma tk_goto_fields [simp]:
  "tk_held (tk_goto t pc s) = tk_held s" "tk_mail (tk_goto t pc s) = tk_mail s" "tk_stopped (tk_goto t pc s) = tk_stopped s"
  "tk_queued (tk_goto t pc s) = tk_queued s" "tk_pended (tk_goto t pc s) = tk_pended s"
  "tk_pending (tk_goto t pc s) = tk_pending s" "tk_refused (tk_goto t pc s) = tk_refused s"
  "tk_pcs (tk_goto t pc s) = (tk_pcs s)[t := pc]"
  by (simp_all add: tk_goto_def)

lemma sender_step_inv:
  assumes inv: "tk_inv s" and t: "t < length (tk_pcs s)"
  shows "tk_inv (sender_step room t (tk_pcs s ! t) s)"
proof -
  note facts = cnt_ge[of runs "tk_pcs s"] cnt_ge[of enters "tk_pcs s"] cnt_ge[of looks_again "tk_pcs s"]
    cnt_pos[OF t, of runs] cnt_pos[OF t, of enters]
  show ?thesis using inv t facts
    by (cases "tk_pcs s ! t") (auto simp: tk_inv_def cnt_update one_if_def after_send_def split: if_splits)
qed

lemma settle_step_inv:
  assumes inv: "tk_inv s" and t: "t < length (tk_pcs s)"
  shows "tk_inv (settle_step room t (tk_pcs s ! t) s)"
proof -
  note facts = cnt_ge[of runs "tk_pcs s"] cnt_ge[of enters "tk_pcs s"] cnt_ge[of looks_again "tk_pcs s"]
    cnt_pos[OF t, of runs] cnt_pos[OF t, of enters]
  show ?thesis using inv t facts
    by (cases "tk_pcs s ! t") (auto simp: tk_inv_def cnt_update one_if_def split: if_splits)
qed

lemma tk_step_inv: "tk_step s s' \<Longrightarrow> tk_inv s \<Longrightarrow> tk_inv s'"
proof (induction rule: tk_step.induct)
  case (tk_sender t s room)
  then show ?case using sender_step_inv by blast
next
  case (tk_settle t s room)
  then show ?case using settle_step_inv by blast
next
  case (tk_acquire t s)
  note cnt_ge[of runs "tk_pcs s"] cnt_ge[of enters "tk_pcs s"]
  then show ?case using tk_acquire by (auto simp: tk_inv_def cnt_update one_if_def of_nat_diff split: if_splits)
next
  case (tk_handle t s)
  note cnt_pos[OF tk_handle(1), of runs] cnt_ge[of enters "tk_pcs s"]
  then show ?case using tk_handle by (auto simp: tk_inv_def one_if_def split: if_splits)
next
  case (tk_drain t s)
  note cnt_ge[of runs "tk_pcs s"] cnt_ge[of enters "tk_pcs s"]
  then show ?case using tk_drain by (auto simp: tk_inv_def one_if_def of_nat_diff split: if_splits)
qed (auto simp: tk_inv_def cnt_update one_if_def split: if_splits)

lemma tk_reach_inv: "tk_reach n s \<Longrightarrow> tk_inv s \<and> length (tk_pcs s) = n"
proof (induction rule: tk_reach.induct)
  case tk_start
  then show ?case using tk_init_inv by (simp add: tk_init_def)
next
  case (tk_next s s')
  have "length (tk_pcs s') = length (tk_pcs s)" using tk_next(2)
  proof (induction rule: tk_step.induct)
    case (tk_sender t s room)
    then show ?case by (cases "tk_pcs s ! t") simp_all
  next
    case (tk_settle t s room)
    then show ?case by (cases "tk_pcs s ! t") simp_all
  qed simp_all
  then show ?case using tk_next tk_step_inv by auto
qed

section \<open>Properties\<close>

text \<open>
  C17: an actor is run by one thread at a time. In no interleaving are two threads inside the actor - in
  its batch, in a handler that sends, or about to give the token back - and while one is, the actor is in
  no queue and no other thread is about to enter it in one.
\<close>

theorem one_runner_at_a_time:
  assumes "tk_reach n s" and "t < n" and "u < n" and "runs (tk_pcs s ! t)"
  shows "(runs (tk_pcs s ! u) \<longrightarrow> t = u) \<and> \<not> enters (tk_pcs s ! u) \<and> tk_queued s = 0 \<and> tk_pended s = 0 \<and> tk_held s"
proof -
  have inv: "tk_inv s" and len: "length (tk_pcs s) = n" using tk_reach_inv[OF assms(1)] by simp_all
  have tn: "t < length (tk_pcs s)" and un: "u < length (tk_pcs s)" using assms(2,3) len by simp_all
  have r: "1 \<le> cnt runs (tk_pcs s)" by (rule cnt_pos[where P = runs, OF tn assms(4)])
  have sum: "int (tk_queued s) + int (tk_pended s) + cnt runs (tk_pcs s) + cnt enters (tk_pcs s) = one_if (tk_held s)"
    using inv by (simp add: tk_inv_def)
  have le: "one_if (tk_held s) \<le> 1" by (simp add: one_if_def)
  have "t = u" if "runs (tk_pcs s ! u)"
  proof (rule ccontr)
    assume "t \<noteq> u"
    then have "2 \<le> cnt runs (tk_pcs s)" using cnt_two[OF tn un] assms(4) that by blast
    then show False using sum le cnt_ge[of enters "tk_pcs s"] by linarith
  qed
  moreover have "\<not> enters (tk_pcs s ! u)"
    using cnt_pos[where P = enters, OF un] sum le r by fastforce
  moreover have "tk_queued s = 0" "tk_pended s = 0" "one_if (tk_held s) = 1"
    using sum le r cnt_ge[of enters "tk_pcs s"] by linarith+
  ultimately show ?thesis by (auto simp: one_if_def split: if_splits)
qed


text \<open>Runs written down as lists of moves.\<close>

datatype tk_move = MvSend nat | MvSender nat bool | MvAcquire nat | MvHandle nat | MvEnd nat | MvSettle nat bool | MvDrain nat

definition at_pc :: "nat \<Rightarrow> tk_pc \<Rightarrow> tk \<Rightarrow> bool" where
  "at_pc t pc s \<longleftrightarrow> t < length (tk_pcs s) \<and> tk_pcs s ! t = pc"

fun do_move :: "tk_move \<Rightarrow> tk \<Rightarrow> tk option" where
  "do_move (MvSend t) s = (if at_pc t TIdle s then Some (tk_goto t (SPush False) s) else None)"
| "do_move (MvSender t room) s = (if t < length (tk_pcs s) then Some (sender_step room t (tk_pcs s ! t) s) else None)"
| "do_move (MvAcquire t) s =
     (if at_pc t TIdle s \<and> 0 < tk_queued s then Some (tk_goto t WRun (s\<lparr>tk_queued := tk_queued s - 1\<rparr>)) else None)"
| "do_move (MvHandle t) s = (if at_pc t WRun s \<and> 0 < tk_mail s then Some (s\<lparr>tk_mail := tk_mail s - 1\<rparr>) else None)"
| "do_move (MvEnd t) s = (if at_pc t WRun s then Some (tk_goto t WRelease s) else None)"
| "do_move (MvSettle t room) s = (if t < length (tk_pcs s) then Some (settle_step room t (tk_pcs s ! t) s) else None)"
| "do_move (MvDrain t) s =
     (if at_pc t TIdle s \<and> 0 < tk_pended s
      then Some (s\<lparr>tk_pended := tk_pended s - 1, tk_queued := tk_queued s + 1, tk_pending := tk_pending s + 1\<rparr>) else None)"

fun tk_moves :: "tk_move list \<Rightarrow> tk \<Rightarrow> tk option" where
  "tk_moves [] s = Some s"
| "tk_moves (m # ms) s = (case do_move m s of None \<Rightarrow> None | Some s' \<Rightarrow> tk_moves ms s')"

lemma tk_move_step: "do_move m s = Some s' \<Longrightarrow> tk_step s s'"
  by (cases m) (auto simp: at_pc_def split: if_splits
    intro: tk_step.intros tk_acquire[simplified] tk_handle[simplified] tk_drain[simplified])

lemma tk_moves_reach: "tk_moves ms s = Some s' \<Longrightarrow> tk_reach n s \<Longrightarrow> tk_reach n s'"
proof (induction ms arbitrary: s)
  case (Cons m ms)
  then obtain s1 where s1: "do_move m s = Some s1" "tk_moves ms s1 = Some s'" by (auto split: option.splits)
  show ?case by (rule Cons.IH[OF s1(2) tk_next[OF Cons.prems(2) tk_move_step[OF s1(1)]]])
qed simp

definition send_and_settle :: "tk_move list" where
  "send_and_settle = [MvSend 0, MvSender 0 True, MvSender 0 True, MvSender 0 True, MvSender 0 True, MvAcquire 0, MvHandle 0,
     MvSend 1, MvSender 1 True, MvSender 1 True, MvEnd 0, MvSettle 0 True, MvSettle 0 True, MvSettle 0 True, MvSettle 0 True,
     MvSettle 0 False, MvDrain 1, MvAcquire 0, MvHandle 0, MvEnd 0, MvSettle 0 True, MvSettle 0 True, MvSettle 0 True, MvSettle 0 True]"

lemma send_and_settle_run:
  "tk_moves send_and_settle (tk_init 2) =
     Some \<lparr>tk_held = False, tk_mail = 0, tk_stopped = False, tk_queued = 0, tk_pended = 0, tk_pending = 1,
       tk_pcs = [TIdle, TIdle], tk_refused = 1\<rparr>"
  by (simp add: send_and_settle_def tk_init_def numeral_2_eq_2 at_pc_def tk_goto_def after_send_def)

theorem one_runner_at_a_time_witness:
  "\<exists>s. tk_reach 2 s \<and> runs (tk_pcs s ! 0) \<and> (runs (tk_pcs s ! 1) \<longrightarrow> (0::nat) = 1) \<and> \<not> enters (tk_pcs s ! 1) \<and> tk_queued s = 0 \<and>
     tk_pended s = 0 \<and> tk_held s"
proof -
  obtain s where m: "tk_moves (take 6 send_and_settle) (tk_init 2) = Some s" and r: "runs (tk_pcs s ! 0)"
    by (simp add: send_and_settle_def tk_init_def numeral_2_eq_2 at_pc_def tk_goto_def after_send_def)
  have "tk_reach 2 s" by (rule tk_moves_reach[OF m tk_start])
  then show ?thesis using one_runner_at_a_time[of 2 s 0 1] r by auto
qed


text \<open>
  C19: what \<open>pendingWork_\<close> counts. When every thread is at rest it is the number of entries in the worker
  queues plus the number of re-dispatches that were ever refused by a full queue.
\<close>

theorem pending_work_at_rest:
  assumes "tk_reach n s" and "\<forall>t < n. tk_pcs s ! t = TIdle"
  shows "tk_pending s = int (tk_queued s) + int (tk_refused s)"
proof -
  have inv: "tk_inv s" and len: "length (tk_pcs s) = n" using tk_reach_inv[OF assms(1)] by simp_all
  have "cnt P (tk_pcs s) = 0" if "\<not> P TIdle" for P
    using that assms(2) len by (auto simp: cnt_card)
  then show ?thesis using inv by (simp add: tk_inv_def)
qed

theorem pending_work_at_rest_witness:
  "\<exists>s. tk_reach 2 s \<and> tk_pcs s = [TIdle, TIdle] \<and> tk_pending s = int (tk_queued s) + int (tk_refused s)"
proof -
  from send_and_settle_run obtain s where m: "tk_moves send_and_settle (tk_init 2) = Some s" and p: "tk_pcs s = [TIdle, TIdle]"
    by simp
  have "tk_reach 2 s" by (rule tk_moves_reach[OF m tk_start])
  then show ?thesis using pending_work_at_rest[of 2 s] p by (auto simp: less_2_cases_iff)
qed

text \<open>So a refused re-dispatch leaves the count too high for good. There is a run with two threads after
  which all work is done - mailbox, queues and pended list empty, every thread at rest - and
  \<open>pendingWork_\<close> is still 1. A drain waits for 0, so the workers then never leave it.
\<close>

theorem refused_redispatch_blocks_drain:
  "\<exists>s. tk_reach 2 s \<and> tk_mail s = 0 \<and> tk_queued s = 0 \<and> tk_pended s = 0 \<and> \<not> tk_held s \<and> tk_pcs s = [TIdle, TIdle] \<and>
     tk_pending s = 1"
proof -
  from send_and_settle_run obtain s where m: "tk_moves send_and_settle (tk_init 2) = Some s" and
    p: "tk_mail s = 0 \<and> tk_queued s = 0 \<and> tk_pended s = 0 \<and> \<not> tk_held s \<and> tk_pcs s = [TIdle, TIdle] \<and> tk_pending s = 1"
    by simp
  have "tk_reach 2 s" by (rule tk_moves_reach[OF m tk_start])
  then show ?thesis using p by blast
qed

end
