(* ===== verification/Tui_App.thy ===== *)
theory Tui_App
  imports Monitor_Data Uds_Transport Text_Format
begin

text \<open>
  The terminal monitor (\<open>src/src/app/tui/tui_app.cpp\<close>): its receiving thread cuts the byte stream into lines and keeps
  the snapshot of the last line that parses. The JSON parser is a parameter; \<open>None\<close> is its exception. What the
  interface library draws is not modelled, only what it is given.
\<close>

section \<open>Receiving\<close>

record 's tui_rx =
  rx_line :: string
  rx_snapshot :: 's

text \<open>The loop over the complete lines in the buffer.\<close>

definition take_line :: "string \<Rightarrow> string" where "take_line s = takeWhile (\<lambda>c. c \<noteq> CHR 0x0A) s"
definition drop_line :: "string \<Rightarrow> string" where "drop_line s = tl (dropWhile (\<lambda>c. c \<noteq> CHR 0x0A) s)"

definition apply_line :: "(string \<Rightarrow> 's option) \<Rightarrow> string \<Rightarrow> 's \<Rightarrow> 's" where
  "apply_line parse line snap = (if line \<noteq> [] then (case parse line of Some s \<Rightarrow> s | None \<Rightarrow> snap) else snap)"

lemma drop_line_shorter: "CHR 0x0A \<in> set s \<Longrightarrow> length (drop_line s) < length s"
proof -
  assume "CHR 0x0A \<in> set s"
  then have "dropWhile (\<lambda>c. c \<noteq> CHR 0x0A) s \<noteq> []" by (simp add: dropWhile_eq_Nil_conv)
  then show ?thesis
    using length_dropWhile_le[of "\<lambda>c. c \<noteq> CHR 0x0A" s]
    by (cases "dropWhile (\<lambda>c. c \<noteq> CHR 0x0A) s") (simp_all add: drop_line_def)
qed

function drain_lines :: "(string \<Rightarrow> 's option) \<Rightarrow> 's tui_rx \<Rightarrow> 's tui_rx" where
  "drain_lines parse t =
     (if CHR 0x0A \<in> set (rx_line t)
      then drain_lines parse (t\<lparr>rx_line := drop_line (rx_line t),
             rx_snapshot := apply_line parse (take_line (rx_line t)) (rx_snapshot t)\<rparr>)
      else t)"
  by auto
termination
  by (relation "measure (\<lambda>(_, t). length (rx_line t))") (simp_all add: drop_line_shorter)

declare drain_lines.simps [simp del]

definition kMaxLine :: nat where "kMaxLine = 65536"

definition recv_chunk :: "(string \<Rightarrow> 's option) \<Rightarrow> string \<Rightarrow> 's tui_rx \<Rightarrow> 's tui_rx" where
  "recv_chunk parse chunk t =
     (let t = drain_lines parse (t\<lparr>rx_line := rx_line t @ chunk\<rparr>) in
      if length (rx_line t) > kMaxLine then t\<lparr>rx_line := []\<rparr> else t)"

text \<open>
  The thread's loop over the outcomes of its calls: an error is retried after a pause, an answer of zero ends it. The
  flag says whether the application still runs before each round.
\<close>

fun recv_rounds :: "(string \<Rightarrow> 's option) \<Rightarrow> int \<Rightarrow> (bool \<times> char sys_recv) list \<Rightarrow> 's tui_rx \<Rightarrow> 's tui_rx" where
  "recv_rounds parse fd [] t = t"
| "recv_rounds parse fd ((running, r) # rs) t =
     (if \<not> running then t
      else case client_recv fd r of (n, bs) \<Rightarrow>
        if 0 < n then recv_rounds parse fd rs (recv_chunk parse bs t)
        else if n = 0 then t
        else recv_rounds parse fd rs t)"

section \<open>Commands and notices\<close>

text \<open>A command over its own connection: \<open>conn\<close> says whether it is accepted, \<open>r\<close> is what one read yields.\<close>

definition sendIpcCommand :: "int option \<Rightarrow> char sys_recv \<Rightarrow> string" where
  "sendIpcCommand conn r =
     (case conn of
        None \<Rightarrow> ''error: connect failed''
      | Some fd \<Rightarrow> (case client_recv fd r of (n, bs) \<Rightarrow> if 0 < n then bs else ''error: no response''))"

definition toggle_command :: "string \<Rightarrow> bool \<Rightarrow> string" where
  "toggle_command name wasOn = (if wasOn then ''actor disable '' @ name else ''actor enable '' @ name)"

definition toast_text :: "string \<Rightarrow> string" where
  "toast_text msg = take_line msg"

text \<open>Time is in nanoseconds, the unit of the steady clock.\<close>

record toast =
  to_text :: string
  to_until :: int

definition setToast :: "string \<Rightarrow> int \<Rightarrow> int \<Rightarrow> toast" where
  "setToast msg now durationSec = \<lparr>to_text = toast_text msg, to_until = now + durationSec * 1000000000\<rparr>"

section \<open>The stream and its lines\<close>

text \<open>The lines of a stream as such: what stands before each newline, and the rest after the last.\<close>

function complete_lines :: "string \<Rightarrow> string list" where
  "complete_lines s = (if CHR 0x0A \<in> set s then take_line s # complete_lines (drop_line s) else [])"
  by auto
termination
  by (relation "measure length") (simp_all add: drop_line_shorter)

declare complete_lines.simps [simp del]

definition rest_line :: "string \<Rightarrow> string" where
  "rest_line s = rev (takeWhile (\<lambda>c. c \<noteq> CHR 0x0A) (rev s))"

text \<open>The snapshot after a list of lines: the last one that parses wins.\<close>

definition snapshot_of :: "(string \<Rightarrow> 's option) \<Rightarrow> string list \<Rightarrow> 's \<Rightarrow> 's" where
  "snapshot_of parse ls s = fold (apply_line parse) ls s"

lemma rest_line_no_newline: "CHR 0x0A \<notin> set s \<Longrightarrow> rest_line s = s"
proof -
  assume "CHR 0x0A \<notin> set s"
  then have "takeWhile (\<lambda>c. c \<noteq> CHR 0x0A) (rev s) = rev s" by (intro takeWhile_eq_all_conv[THEN iffD2]) auto
  then show ?thesis by (simp only: rest_line_def rev_rev_ident)
qed

lemma split_at_newline: "CHR 0x0A \<in> set s \<Longrightarrow> s = take_line s @ CHR 0x0A # drop_line s"
proof -
  assume "CHR 0x0A \<in> set s"
  then obtain x xs where d: "dropWhile (\<lambda>c. c \<noteq> CHR 0x0A) s = x # xs"
    by (cases "dropWhile (\<lambda>c. c \<noteq> CHR 0x0A) s") (auto simp: dropWhile_eq_Nil_conv)
  then have "x = CHR 0x0A" by (metis (mono_tags, lifting) dropWhile_eq_Cons_conv)
  then show ?thesis
    using takeWhile_dropWhile_id[of "\<lambda>c. c \<noteq> CHR 0x0A" s] by (simp add: take_line_def drop_line_def d)
qed

lemma rest_line_after_newline: "rest_line (u @ CHR 0x0A # v) = rest_line v"
proof (cases "CHR 0x0A \<in> set v")
  case True
  then show ?thesis by (simp add: rest_line_def takeWhile_append1[of "CHR 0x0A"])
next
  case False
  then have "takeWhile (\<lambda>c. c \<noteq> CHR 0x0A) (rev v @ CHR 0x0A # rev u) = rev v"
    by (subst takeWhile_append2) auto
  then have "rest_line (u @ CHR 0x0A # v) = v" by (simp only: rest_line_def rev_append rev.simps append_assoc append.simps rev_rev_ident)
  then show ?thesis by (simp only: rest_line_no_newline[OF False])
qed

lemma cut_at_newline:
  assumes "CHR 0x0A \<notin> set a"
  shows "take_line (a @ CHR 0x0A # x) = a" and "drop_line (a @ CHR 0x0A # x) = x"
  using assms by (induction a) (auto simp: take_line_def drop_line_def)

lemma drain_lines_eq:
  "drain_lines parse t = t\<lparr>rx_line := rest_line (rx_line t),
     rx_snapshot := snapshot_of parse (complete_lines (rx_line t)) (rx_snapshot t)\<rparr>"
proof (induction parse t rule: drain_lines.induct)
  case (1 parse t)
  show ?case
  proof (cases "CHR 0x0A \<in> set (rx_line t)")
    case True
    have r: "rest_line (rx_line t) = rest_line (drop_line (rx_line t))"
      using rest_line_after_newline[of "take_line (rx_line t)" "drop_line (rx_line t)"] split_at_newline[OF True] by simp
    show ?thesis
      using 1 True by (subst drain_lines.simps, subst complete_lines.simps) (simp add: r snapshot_of_def)
  next
    case False
    then show ?thesis
      by (subst drain_lines.simps, subst complete_lines.simps) (simp add: rest_line_no_newline snapshot_of_def)
  qed
qed

text \<open>Lines of a stream that is continued.\<close>

lemma complete_lines_append:
  "complete_lines (u @ v) = complete_lines u @ complete_lines (rest_line u @ v) \<and> rest_line (u @ v) = rest_line (rest_line u @ v)"
proof (induction u rule: complete_lines.induct)
  case (1 u)
  show ?case
  proof (cases "CHR 0x0A \<in> set u")
    case True
    let ?a = "take_line u" and ?b = "drop_line u"
    have u: "u = ?a @ CHR 0x0A # ?b" by (rule split_at_newline[OF True])
    have na: "CHR 0x0A \<notin> set ?a" by (auto simp: take_line_def dest: set_takeWhileD)
    have uv: "u @ v = ?a @ CHR 0x0A # (?b @ v)" using arg_cong[OF u, of "\<lambda>x. x @ v"] by simp
    have t: "take_line (u @ v) = ?a" "drop_line (u @ v) = ?b @ v"
      unfolding uv by (rule cut_at_newline[OF na])+
    have r: "rest_line u = rest_line ?b" using rest_line_after_newline[of ?a ?b] u by simp
    have "complete_lines (u @ v) = ?a # complete_lines (?b @ v)"
      using True by (subst complete_lines.simps) (simp add: t)
    moreover have "complete_lines u = ?a # complete_lines ?b"
      using True by (subst complete_lines.simps) simp
    moreover have "rest_line (u @ v) = rest_line (?b @ v)"
      unfolding uv by (rule rest_line_after_newline)
    ultimately show ?thesis using 1[OF True] by (simp add: r)
  next
    case False
    then show ?thesis by (subst (2) complete_lines.simps) (simp add: rest_line_no_newline)
  qed
qed

lemma recv_chunk_eq:
  assumes "length (rest_line (rx_line t @ c)) \<le> kMaxLine"
  shows "recv_chunk parse c t = t\<lparr>rx_line := rest_line (rx_line t @ c),
     rx_snapshot := snapshot_of parse (complete_lines (rx_line t @ c)) (rx_snapshot t)\<rparr>"
  using assms by (simp add: recv_chunk_def drain_lines_eq Let_def)

text \<open>How the stream is cut into reads does not matter, as long as no unfinished line grows beyond the limit.\<close>

lemma chunks_do_not_matter:
  assumes "\<forall>k \<le> length cs. length (rest_line (concat (take k cs))) \<le> kMaxLine"
  shows "fold (recv_chunk parse) cs \<lparr>rx_line = [], rx_snapshot = s\<rparr>
    = \<lparr>rx_line = rest_line (concat cs), rx_snapshot = snapshot_of parse (complete_lines (concat cs)) s\<rparr>"
  using assms
proof (induction cs rule: rev_induct)
  case Nil
  then show ?case by (simp add: rest_line_def snapshot_of_def complete_lines.simps[of "[]"])
next
  case (snoc c cs)
  have len: "\<forall>k \<le> length cs. length (rest_line (concat (take k cs))) \<le> kMaxLine"
  proof (intro allI impI)
    fix k assume "k \<le> length cs"
    then show "length (rest_line (concat (take k cs))) \<le> kMaxLine"
      using snoc.prems[rule_format, of k] by simp
  qed
  have "length (rest_line (concat cs @ c)) \<le> kMaxLine"
    using snoc.prems[rule_format, of "Suc (length cs)"] by simp
  then have "length (rest_line (rest_line (concat cs) @ c)) \<le> kMaxLine"
    using complete_lines_append[of "concat cs" c] by simp
  then show ?case
    using snoc.IH[OF len] complete_lines_append[of "concat cs" c] by (simp add: recv_chunk_eq snapshot_of_def)
qed

end
