(* ===== verification/Tui_Session.thy ===== *)
theory Tui_Session
  imports Tui_App Main_App Logger_Model
begin

text \<open>
  The terminal monitor as a program (\<open>src/src/app/tui/tui_app.cpp\<close>, \<open>main.cpp\<close>): opening, the main thread in the interface
  library's loop, closing, the receiving thread beside them, and the threads that carry a toggle to the daemon. Each access
  to what the threads share is one step. What a blocked \<open>recv\<close> returns, and when, is an event of its own: closing a
  descriptor does not wake a thread that waits in a system call on it (\<open>close(2)\<close>).
\<close>

section \<open>State\<close>

datatype rx_pc = RxNone | RxCheck | RxCall | RxBlocked int | RxPause | RxGone

datatype tui_pc = TuiRun | TuiLoop | TuiClose | TuiShutdown | TuiJoin | TuiScreen | TuiDone

text \<open>
  \<open>tu_fd\<close> is the client's descriptor, \<open>tu_screen\<close> whether \<open>screen_\<close> holds the interface library's object, \<open>tu_exit\<close> whether that
  has been told to leave its loop. \<open>tu_asking\<close> lists the commands of the toggle threads under way; \<open>tu_crashed\<close> is set when one
  uses \<open>screen_\<close> after it was destroyed.
\<close>

record 's tui =
  tu_cfg :: runtime_config
  tu_log :: log_world
  tu_signals :: "unit signal_handler"
  tu_running :: bool
  tu_fd :: int
  tu_os :: os_table
  tu_screen :: bool
  tu_exit :: bool
  tu_thread :: rx_pc
  tu_main :: tui_pc
  tu_rx :: "'s tui_rx"
  tu_asking :: "string list"
  tu_toast :: toast
  tu_crashed :: bool

section \<open>Opening\<close>

text \<open>
  The answers of the system: the descriptor of the socket and whether the daemon accepted, the pipe's ends, the log file. The
  result of \<open>open\<close> decides whether \<open>main\<close> goes on to \<open>run\<close>; the destructor closes either way.
\<close>

definition tui_open :: "'f fconv \<Rightarrow> 32 word \<Rightarrow> 'f json option option \<Rightarrow> nat \<Rightarrow> nat option \<Rightarrow> (int \<times> int) option \<Rightarrow> int option \<Rightarrow> bool \<Rightarrow>
    's tui \<Rightarrow> result_code \<times> 's tui" where
  "tui_open cv level json me opened ends fd ok t =
     (let c = loadFromFile cv level json;
          w = setActiveLogger (Some me) (tu_log t);
          w = setLevel (At me) (nat (sint (cf_logLevel c))) w;
          w = setLogFile (At me) ''log/v2_tui.log'' opened w;
          h = snd (sg_init ends (tu_signals t));
          h = snd (sg_install 2 () h);
          h = snd (sg_install 15 () h);
          (r, f, os) = uds_client_connect fd ok (tu_fd t) (tu_os t);
          t = t\<lparr>tu_cfg := c, tu_log := w, tu_signals := h, tu_fd := f, tu_os := os\<rparr>
      in if r \<noteq> Ok then (Fail, t\<lparr>tu_main := TuiClose\<rparr>)
         else (Ok, t\<lparr>tu_screen := True, tu_running := True, tu_thread := RxCheck, tu_main := TuiRun\<rparr>))"

section \<open>Steps\<close>

text \<open>\<open>run\<close>, and after the loop \<open>close\<close>, which the destructor calls; \<open>join\<close> waits for a thread that was started.\<close>

definition main_step :: "'s tui \<Rightarrow> 's tui" where
  "main_step t =
     (case tu_main t of
        TuiRun \<Rightarrow> t\<lparr>tu_running := True, tu_main := (if tu_screen t then TuiLoop else TuiClose)\<rparr>
      | TuiLoop \<Rightarrow> (if tu_exit t then t\<lparr>tu_main := TuiClose\<rparr> else t)
      | TuiClose \<Rightarrow> t\<lparr>tu_running := False, tu_main := TuiShutdown\<rparr>
      | TuiShutdown \<Rightarrow> (case uds_client_disconnect (tu_fd t) (tu_os t) of (f, os) \<Rightarrow> t\<lparr>tu_fd := f, tu_os := os, tu_main := TuiJoin\<rparr>)
      | TuiJoin \<Rightarrow> (case tu_thread t of
            RxNone \<Rightarrow> t\<lparr>tu_main := TuiScreen\<rparr>
          | RxGone \<Rightarrow> t\<lparr>tu_thread := RxNone, tu_main := TuiScreen\<rparr>
          | _ \<Rightarrow> t)
      | TuiScreen \<Rightarrow> t\<lparr>tu_screen := False, tu_main := TuiDone\<rparr>
      | TuiDone \<Rightarrow> t)"

text \<open>\<open>recvLoop\<close>: the flag, the call, and the pause after an error.\<close>

definition rx_step :: "'s tui \<Rightarrow> 's tui" where
  "rx_step t =
     (case tu_thread t of
        RxCheck \<Rightarrow> t\<lparr>tu_thread := (if tu_running t then RxCall else RxGone)\<rparr>
      | RxCall \<Rightarrow> t\<lparr>tu_thread := (if tu_fd t < 0 then RxPause else RxBlocked (tu_fd t))\<rparr>
      | RxPause \<Rightarrow> t\<lparr>tu_thread := RxCheck\<rparr>
      | _ \<Rightarrow> t)"

definition rx_return :: "(string \<Rightarrow> 's option) \<Rightarrow> char sys_recv \<Rightarrow> 's tui \<Rightarrow> 's tui" where
  "rx_return parse r t =
     (case tu_thread t of
        RxBlocked fd \<Rightarrow> (case client_recv fd r of (n, bs) \<Rightarrow>
          if 0 < n then t\<lparr>tu_rx := recv_chunk parse bs (tu_rx t), tu_thread := RxCheck\<rparr>
          else t\<lparr>tu_thread := (if n = 0 then RxGone else RxPause)\<rparr>)
      | _ \<Rightarrow> t)"

text \<open>A click starts a thread of its own, which asks the daemon and then posts the answer to the screen.\<close>

definition toggle :: "int \<Rightarrow> string \<Rightarrow> bool \<Rightarrow> 's tui \<Rightarrow> 's tui" where
  "toggle now name wasOn t =
     (if tu_main t = TuiLoop
      then t\<lparr>tu_toast := setToast (''toggle '' @ name @ ''...'') now 2, tu_asking := tu_asking t @ [toggle_command name wasOn]\<rparr>
      else t)"

definition toggle_reply :: "int \<Rightarrow> int option \<Rightarrow> char sys_recv \<Rightarrow> 's tui \<Rightarrow> 's tui" where
  "toggle_reply now conn r t =
     (case tu_asking t of
        [] \<Rightarrow> t
      | _ # rest \<Rightarrow>
          (let t = t\<lparr>tu_asking := rest\<rparr> in
           if tu_screen t then t\<lparr>tu_toast := setToast (sendIpcCommand conn r) now 3\<rparr> else t\<lparr>tu_crashed := True\<rparr>))"

definition tui_requestStop :: "'s tui \<Rightarrow> 's tui" where
  "tui_requestStop t = t\<lparr>tu_running := False, tu_exit := tu_exit t \<or> tu_screen t\<rparr>"

text \<open>The key \<open>q\<close>; a signal the process catches; nobody reads the signal handler's pipe, so there is no event for that.\<close>

datatype tui_event =
    MainMoves | RxMoves | RecvReturns "char sys_recv" | KeyQ | Toggled int string bool
  | ToggleAnswered int "int option" "char sys_recv" | SignalCaught int

fun tui_step :: "(string \<Rightarrow> 's option) \<Rightarrow> nat \<Rightarrow> tui_event \<Rightarrow> 's tui \<Rightarrow> 's tui" where
  "tui_step parse room MainMoves t = main_step t"
| "tui_step parse room RxMoves t = rx_step t"
| "tui_step parse room (RecvReturns r) t = rx_return parse r t"
| "tui_step parse room KeyQ t = (if tu_main t = TuiLoop then t\<lparr>tu_exit := True\<rparr> else t)"
| "tui_step parse room (Toggled now name wasOn) t = toggle now name wasOn t"
| "tui_step parse room (ToggleAnswered now conn r) t = toggle_reply now conn r t"
| "tui_step parse room (SignalCaught sig) t = t\<lparr>tu_signals := on_signal_caught room sig (tu_signals t)\<rparr>"

definition tui_runs :: "(string \<Rightarrow> 's option) \<Rightarrow> nat \<Rightarrow> tui_event list \<Rightarrow> 's tui \<Rightarrow> 's tui" where
  "tui_runs parse room es t = fold (tui_step parse room) es t"

definition tui_new :: "32 word \<Rightarrow> log_world \<Rightarrow> os_table \<Rightarrow> 's \<Rightarrow> 's tui" where
  "tui_new level w os s =
     \<lparr>tu_cfg = runtime_config_default level, tu_log = w, tu_signals = signal_handler_new, tu_running = False, tu_fd = -1, tu_os = os,
      tu_screen = False, tu_exit = False, tu_thread = RxNone, tu_main = TuiClose, tu_rx = \<lparr>rx_line = [], rx_snapshot = s\<rparr>,
      tu_asking = [], tu_toast = \<lparr>to_text = [], to_until = 0\<rparr>, tu_crashed = False\<rparr>"

section \<open>What holds at every moment\<close>

definition rx_alive :: "'s tui \<Rightarrow> bool" where
  "rx_alive t \<longleftrightarrow> tu_thread t \<notin> {RxNone, RxGone}"

definition before_shutdown :: "tui_pc \<Rightarrow> bool" where
  "before_shutdown pc \<longleftrightarrow> pc \<in> {TuiRun, TuiLoop, TuiClose, TuiShutdown}"

text \<open>
  \<open>fds\<close> are the descriptors open besides the client's. The client's is open until \<open>shutdown\<close> and its number is forgotten then;
  the receiving thread is gone before the screen is.
\<close>

definition tui_inv :: "int set \<Rightarrow> 's tui \<Rightarrow> bool" where
  "tui_inv fds t \<longleftrightarrow>
     (before_shutdown (tu_main t) \<longrightarrow> ot_open (tu_os t) = fds \<union> (if 0 \<le> tu_fd t then {tu_fd t} else {}) \<and> (0 \<le> tu_fd t \<longrightarrow> tu_fd t \<notin> fds))
     \<and> (\<not> before_shutdown (tu_main t) \<longrightarrow> tu_fd t < 0 \<and> ot_open (tu_os t) = fds)
     \<and> (rx_alive t \<longrightarrow> tu_screen t \<and> tu_main t \<notin> {TuiScreen, TuiDone})
     \<and> (tu_main t \<in> {TuiShutdown, TuiJoin, TuiScreen, TuiDone} \<longrightarrow> \<not> tu_running t)
     \<and> (tu_main t \<in> {TuiRun, TuiLoop} \<longrightarrow> tu_screen t)
     \<and> (tu_main t \<in> {TuiScreen, TuiDone} \<longrightarrow> tu_thread t = RxNone)
     \<and> (tu_main t = TuiDone \<longrightarrow> \<not> tu_screen t)
     \<and> (\<forall>fd. tu_thread t = RxBlocked fd \<longrightarrow> 0 \<le> fd)"

lemma tui_inv_open:
  assumes "ot_open os = fds" and "\<forall>f. fd = Some f \<longrightarrow> 0 \<le> f \<and> f \<notin> fds"
  shows "tui_inv fds (snd (tui_open cv level json me opened ends fd ok (tui_new lv w os s)))"
  using assms
  by (cases fd) (auto simp: tui_inv_def tui_open_def tui_new_def uds_client_connect_def os_close_def before_shutdown_def rx_alive_def Let_def)

lemma tui_inv_main:
  assumes "tui_inv fds t" shows "tui_inv fds (main_step t)"
  using assms
  by (cases "tu_main t"; cases "tu_thread t")
    (auto simp: tui_inv_def main_step_def before_shutdown_def rx_alive_def uds_client_disconnect_def os_close_def)

text \<open>What the receiving thread and the screen's users do touches little of the state.\<close>

lemma tui_inv_cong:
  assumes "tui_inv fds t" and "tu_main u = tu_main t" and "tu_os u = tu_os t" and "tu_fd u = tu_fd t" and "tu_screen u = tu_screen t"
    and "tu_running u = tu_running t" and "rx_alive u \<longrightarrow> rx_alive t" and "tu_thread t = RxNone \<longrightarrow> tu_thread u = RxNone"
    and "\<And>fd. tu_thread u = RxBlocked fd \<Longrightarrow> 0 \<le> fd"
  shows "tui_inv fds u"
  using assms unfolding tui_inv_def by simp

lemma tui_inv_step:
  assumes "tui_inv fds t" shows "tui_inv fds (tui_step parse room e t)"
proof -
  have fd: "0 \<le> fd" if "tu_thread t = RxBlocked fd" for fd using assms that by (simp add: tui_inv_def)
  show ?thesis
  proof (cases e)
  case MainMoves
  then show ?thesis using tui_inv_main[OF assms] by simp
next
  case RxMoves
  show ?thesis
    unfolding RxMoves tui_step.simps
    by (rule tui_inv_cong[OF assms]; cases "tu_thread t")
      (auto simp: rx_step_def rx_alive_def fd split: if_splits)
next
  case (RecvReturns r)
  have "tu_thread (rx_return parse r t) \<in> {tu_thread t, RxCheck, RxGone, RxPause}"
    by (auto simp: rx_return_def split: rx_pc.split prod.split)
  moreover have "tu_main (rx_return parse r t) = tu_main t" "tu_os (rx_return parse r t) = tu_os t"
    "tu_fd (rx_return parse r t) = tu_fd t" "tu_screen (rx_return parse r t) = tu_screen t"
    "tu_running (rx_return parse r t) = tu_running t"
    by (auto simp: rx_return_def split: rx_pc.split prod.split)
  moreover have "tu_thread (rx_return parse r t) = tu_thread t" if "\<forall>fd. tu_thread t \<noteq> RxBlocked fd"
    using that by (auto simp: rx_return_def split: rx_pc.split)
  ultimately show ?thesis
    unfolding RecvReturns tui_step.simps
    by (intro tui_inv_cong[OF assms]) (auto simp: rx_alive_def fd)
next
  case KeyQ
  show ?thesis by (rule tui_inv_cong[OF assms]) (auto simp: KeyQ rx_alive_def fd split: if_splits)
next
  case (Toggled now name wasOn)
  show ?thesis by (rule tui_inv_cong[OF assms]) (auto simp: Toggled toggle_def rx_alive_def fd split: if_splits)
next
  case (ToggleAnswered now conn r)
  show ?thesis
    by (rule tui_inv_cong[OF assms])
      (auto simp: ToggleAnswered toggle_reply_def rx_alive_def fd Let_def split: list.splits if_splits)
next
  case (SignalCaught sig)
  show ?thesis by (rule tui_inv_cong[OF assms]) (auto simp: SignalCaught rx_alive_def fd)
qed
qed

lemma tui_inv_runs: "tui_inv fds t \<Longrightarrow> tui_inv fds (tui_runs parse room es t)"
  by (induction es arbitrary: t) (simp_all add: tui_runs_def tui_inv_step)

text \<open>
  However the threads interleave: while the receiving thread lives, the screen it posts to does; when \<open>main\<close> returns, the thread
  has been joined and the process' descriptors are the ones it had before, the connection closed exactly once.
\<close>
theorem monitor_closes_what_it_opened:
  assumes "\<forall>f. fd = Some f \<longrightarrow> 0 \<le> f \<and> f \<notin> ot_open os"
    and "t = tui_runs parse room es (snd (tui_open cv level json me opened ends fd ok (tui_new lv w os s)))"
  shows "(rx_alive t \<longrightarrow> tu_screen t) \<and> (tu_main t = TuiDone \<longrightarrow> tu_thread t = RxNone \<and> ot_open (tu_os t) = ot_open os \<and> tu_fd t < 0)"
proof -
  have "tui_inv (ot_open os) t"
    unfolding assms(2) by (intro tui_inv_runs tui_inv_open assms(1) refl)
  then show ?thesis by (auto simp: tui_inv_def before_shutdown_def)
qed

section \<open>Closing\<close>

lemma runs_append: "tui_runs parse room (xs @ ys) t = tui_runs parse room ys (tui_runs parse room xs t)"
  by (simp add: tui_runs_def)

lemma runs_Cons: "tui_runs parse room (e # es) t = tui_runs parse room es (tui_step parse room e t)"
  by (simp add: tui_runs_def)

text \<open>From \<open>join\<close> on, the flag is down and the client has no descriptor, so the thread will not call \<open>recv\<close> again.\<close>

definition closing :: "'s tui \<Rightarrow> bool" where
  "closing t \<longleftrightarrow> tu_main t \<in> {TuiJoin, TuiScreen, TuiDone} \<and> tu_fd t < 0 \<and> \<not> tu_running t
     \<and> (tu_main t \<in> {TuiScreen, TuiDone} \<longrightarrow> tu_thread t = RxNone)"

definition rx_rank :: "rx_pc \<Rightarrow> nat" where
  "rx_rank pc = (case pc of RxNone \<Rightarrow> 0 | RxGone \<Rightarrow> 0 | RxCheck \<Rightarrow> 1 | RxPause \<Rightarrow> 2 | RxCall \<Rightarrow> 3 | RxBlocked _ \<Rightarrow> 4)"

definition main_rank :: "tui_pc \<Rightarrow> nat" where
  "main_rank pc = (case pc of TuiDone \<Rightarrow> 0 | TuiScreen \<Rightarrow> 1 | _ \<Rightarrow> 2)"

lemma rx_return_cases:
  "rx_return parse r t = t \<or> tu_thread (rx_return parse r t) \<in> {RxCheck, RxGone, RxPause}"
  by (auto simp: rx_return_def split: rx_pc.split prod.split)

lemma rx_return_unblocks: "rx_rank (tu_thread (rx_return parse r t)) \<le> 3"
  by (cases "tu_thread t") (auto simp: rx_return_def rx_rank_def split: prod.split)

lemma rx_return_frame [simp]:
  "tu_main (rx_return parse r t) = tu_main t" "tu_fd (rx_return parse r t) = tu_fd t" "tu_running (rx_return parse r t) = tu_running t"
  by (auto simp: rx_return_def split: rx_pc.split prod.split)

lemma toggles_frame [simp]:
  "tu_main (toggle now name wasOn t) = tu_main t" "tu_fd (toggle now name wasOn t) = tu_fd t"
  "tu_running (toggle now name wasOn t) = tu_running t" "tu_thread (toggle now name wasOn t) = tu_thread t"
  "tu_main (toggle_reply now conn r t) = tu_main t" "tu_fd (toggle_reply now conn r t) = tu_fd t"
  "tu_running (toggle_reply now conn r t) = tu_running t" "tu_thread (toggle_reply now conn r t) = tu_thread t"
  by (auto simp: toggle_def toggle_reply_def Let_def split: list.split)

lemma rx_return_not_started: "tu_thread t = RxNone \<Longrightarrow> rx_return parse r t = t"
  by (simp add: rx_return_def)

lemma closing_step:
  assumes "closing t"
  shows "closing (tui_step parse room e t)
    \<and> rx_rank (tu_thread (tui_step parse room e t)) \<le> rx_rank (tu_thread t)
    \<and> main_rank (tu_main (tui_step parse room e t)) \<le> main_rank (tu_main t)"
proof (cases e)
  case MainMoves
  show ?thesis using assms unfolding MainMoves tui_step.simps
    by (cases "tu_main t"; cases "tu_thread t") (auto simp: closing_def main_step_def rx_rank_def main_rank_def)
next
  case RxMoves
  show ?thesis using assms unfolding RxMoves tui_step.simps
    by (cases "tu_thread t") (auto simp: closing_def rx_step_def rx_rank_def)
next
  case (RecvReturns r)
  have "rx_rank (tu_thread (rx_return parse r t)) \<le> rx_rank (tu_thread t)"
    by (cases "tu_thread t") (auto simp: rx_return_def rx_rank_def split: prod.split)
  then show ?thesis using assms rx_return_not_started[of t parse r] by (auto simp: RecvReturns closing_def)
qed (use assms in \<open>auto simp: closing_def\<close>)

lemma closing_runs:
  assumes "closing t"
  shows "closing (tui_runs parse room es t)
    \<and> rx_rank (tu_thread (tui_runs parse room es t)) \<le> rx_rank (tu_thread t)
    \<and> main_rank (tu_main (tui_runs parse room es t)) \<le> main_rank (tu_main t)"
  using assms
proof (induction es arbitrary: t)
  case (Cons e es)
  note s = closing_step[OF Cons.prems, of parse room e]
  from Cons.IH[OF conjunct1[OF s]] s show ?case unfolding runs_Cons by linarith
qed (simp add: tui_runs_def)

lemma thread_goes:
  assumes "closing t" and "rx_rank (tu_thread t) \<le> n" and "n \<le> 3" and "n \<le> count_list es RxMoves"
  shows "rx_rank (tu_thread (tui_runs parse room es t)) = 0"
  using assms
proof (induction es arbitrary: t n)
  case (Cons e es)
  note s = closing_step[OF Cons.prems(1), of parse room e]
  show ?case
  proof (cases "e = RxMoves")
    case True
    have "rx_rank (tu_thread (rx_step t)) \<le> n - 1"
      using Cons.prems(1-3) by (cases "tu_thread t") (auto simp: closing_def rx_step_def rx_rank_def)
    then show ?thesis using Cons.IH[of "rx_step t" "n - 1"] s Cons.prems True by (simp add: runs_Cons)
  next
    case False
    then show ?thesis using Cons.IH[of "tui_step parse room e t" n] s Cons.prems by (simp add: runs_Cons)
  qed
qed (simp add: tui_runs_def)

lemma main_goes:
  assumes "closing t" and "rx_rank (tu_thread t) = 0" and "main_rank (tu_main t) \<le> n" and "n \<le> count_list es MainMoves"
  shows "tu_main (tui_runs parse room es t) = TuiDone"
  using assms
proof (induction es arbitrary: t n)
  case Nil
  then show ?case by (auto simp: tui_runs_def main_rank_def split: tui_pc.splits)
next
  case (Cons e es)
  note s = closing_step[OF Cons.prems(1), of parse room e]
  show ?case
  proof (cases "e = MainMoves")
    case True
    have "main_rank (tu_main (main_step t)) \<le> n - 1"
      using Cons.prems(1-3) by (cases "tu_main t"; cases "tu_thread t") (auto simp: closing_def main_step_def rx_rank_def main_rank_def)
    then show ?thesis using Cons.IH[of "main_step t" "n - 1"] s Cons.prems True by (simp add: runs_Cons)
  next
    case False
    then show ?thesis using Cons.IH[of "tui_step parse room e t" n] s Cons.prems by (simp add: runs_Cons)
  qed
qed

lemma return_unblocks:
  assumes "closing t" and "RecvReturns r \<in> set es"
  shows "rx_rank (tu_thread (tui_runs parse room es t)) \<le> 3"
proof -
  obtain xs ys where es: "es = xs @ RecvReturns r # ys" using assms(2) by (meson split_list)
  let ?u = "tui_runs parse room xs t"
  have "closing ?u" using closing_runs[OF assms(1)] by blast
  from closing_step[OF this, of parse room "RecvReturns r"] have "closing (rx_return parse r ?u)" by simp
  from closing_runs[OF this, of parse room ys] rx_return_unblocks[of parse r ?u]
  show ?thesis unfolding es runs_append runs_Cons tui_step.simps by linarith
qed

text \<open>
  \<open>close\<close> returns once the call of \<open>recv\<close> under way has returned, whatever it yields: three steps of the receiving thread and
  two of the main thread later, whatever else happens between.
\<close>
theorem close_returns_after_recv:
  assumes "closing t" and "RecvReturns r \<in> set es" and "3 \<le> count_list es' RxMoves" and "2 \<le> count_list es'' MainMoves"
  shows "tu_main (tui_runs parse room (es @ es' @ es'') t) = TuiDone"
proof -
  let ?u = "tui_runs parse room es t"
  have u: "closing ?u" using closing_runs[OF assms(1)] by blast
  have "rx_rank (tu_thread (tui_runs parse room es' ?u)) = 0"
    using thread_goes[OF u return_unblocks[OF assms(1,2)] order_refl assms(3)] .
  moreover have "closing (tui_runs parse room es' ?u)" using closing_runs[OF u] by blast
  moreover have "main_rank (tu_main (tui_runs parse room es' ?u)) \<le> 2" by (simp add: main_rank_def split: tui_pc.split)
  ultimately show ?thesis unfolding runs_append using main_goes assms(4) by blast
qed

text \<open>Until then it does not: a daemon that is silent keeps the monitor from closing.\<close>

lemma blocked_step:
  assumes "tu_thread t = RxBlocked fd" and "tu_main t \<notin> {TuiScreen, TuiDone}" and "e \<notin> range RecvReturns"
  shows "tu_thread (tui_step parse room e t) = RxBlocked fd \<and> tu_main (tui_step parse room e t) \<notin> {TuiScreen, TuiDone}"
  using assms
  by (cases e; cases "tu_main t") (auto simp: main_step_def rx_step_def split: prod.split)

theorem silent_peer_holds_close:
  assumes "tu_thread t = RxBlocked fd" and "tu_main t \<notin> {TuiScreen, TuiDone}" and "\<forall>e \<in> set es. e \<notin> range RecvReturns"
  shows "tu_main (tui_runs parse room es t) \<noteq> TuiDone"
  using assms
proof (induction es arbitrary: t)
  case (Cons e es)
  have "e \<notin> range RecvReturns" using Cons.prems(3) by simp
  note s = blocked_step[OF Cons.prems(1,2) this, of parse room]
  from Cons.IH[OF conjunct1[OF s] conjunct2[OF s]] Cons.prems(3) show ?case by (simp add: runs_Cons)
qed (simp add: tui_runs_def)

section \<open>What the monitor shows\<close>

definition is_blocked :: "rx_pc \<Rightarrow> bool" where
  "is_blocked pc \<longleftrightarrow> (case pc of RxBlocked _ \<Rightarrow> True | _ \<Rightarrow> False)"

text \<open>The pieces of the stream the calls of \<open>recv\<close> handed over, in order.\<close>

fun handed_over :: "tui_event \<Rightarrow> 's tui \<Rightarrow> string list" where
  "handed_over (RecvReturns (RecvBytes bs)) t = (if is_blocked (tu_thread t) \<and> bs \<noteq> [] then [bs] else [])"
| "handed_over _ t = []"

fun delivered :: "(string \<Rightarrow> 's option) \<Rightarrow> nat \<Rightarrow> tui_event list \<Rightarrow> 's tui \<Rightarrow> string list" where
  "delivered parse room [] t = []"
| "delivered parse room (e # es) t = handed_over e t @ delivered parse room es (tui_step parse room e t)"

lemma rx_of_step:
  assumes "tui_inv fds t"
  shows "tu_rx (tui_step parse room e t) = fold (recv_chunk parse) (handed_over e t) (tu_rx t)"
proof (cases e)
  case MainMoves
  then show ?thesis by (auto simp: main_step_def split: tui_pc.split rx_pc.split prod.split)
next
  case RxMoves
  then show ?thesis by (auto simp: rx_step_def split: rx_pc.split)
next
  case (RecvReturns r)
  have "0 \<le> fd" if "tu_thread t = RxBlocked fd" for fd using assms that by (simp add: tui_inv_def)
  then show ?thesis
    by (cases r; cases "tu_thread t") (auto simp: RecvReturns rx_return_def is_blocked_def client_recv_def split: prod.split)
qed (auto simp: toggle_def toggle_reply_def Let_def split: list.split)

lemma rx_of_runs:
  assumes "tui_inv fds t"
  shows "tu_rx (tui_runs parse room es t) = fold (recv_chunk parse) (delivered parse room es t) (tu_rx t)"
  using assms
proof (induction es arbitrary: t)
  case (Cons e es)
  from Cons.IH[OF tui_inv_step[OF Cons.prems]] rx_of_step[OF Cons.prems] show ?case by (simp add: runs_Cons)
qed (simp add: tui_runs_def)

lemma rx_of_open: "tu_rx (snd (tui_open cv level json me opened ends fd ok (tui_new lv w os s))) = \<lparr>rx_line = [], rx_snapshot = s\<rparr>"
  by (simp add: tui_open_def tui_new_def Let_def split: prod.split)


text \<open>A session of the monitor: it connects as descriptor 5, and two reads bring one and a half lines.\<close>

definition demo_session :: "nat tui" where
  "demo_session = snd (tui_open (\<lambda>_::int. 0, \<lambda>i. i) 2 None 0 None (Some (3, 4)) (Some 5) True
     (tui_new 2 log_start \<lparr>ot_open = {0, 1, 2}, ot_paths = {}\<rparr> 0))"

definition demo_events :: "tui_event list" where
  "demo_events = [MainMoves, RxMoves, RxMoves, RecvReturns (RecvBytes ''{a''), RxMoves, RxMoves,
     RecvReturns (RecvBytes [CHR ''}'', CHR 0x0A, CHR ''{''])]"

lemma demo_delivered: "delivered (\<lambda>l. Some (length l)) 16 demo_events demo_session = [''{a'', [CHR ''}'', CHR 0x0A, CHR ''{'']]"
  by (simp add: demo_events_def demo_session_def tui_open_def tui_new_def uds_client_connect_def main_step_def rx_step_def rx_return_def
      client_recv_def is_blocked_def Let_def)


section \<open>Stopping otherwise\<close>

text \<open>
  The callbacks for the two signals are registered, but the pipe they are announced through has no reader here: without the key
  (or what the interface library makes of the signal) the main thread stays in its loop.
\<close>
theorem signals_do_not_stop_the_monitor:
  assumes "tu_main t = TuiLoop" and "\<not> tu_exit t" and "KeyQ \<notin> set es"
  shows "tu_main (tui_runs parse room es t) = TuiLoop"
  using assms
proof (induction es arbitrary: t)
  case (Cons e es)
  have "tu_main (tui_step parse room e t) = TuiLoop \<and> \<not> tu_exit (tui_step parse room e t)"
  proof (cases e)
    case (RecvReturns r)
    have "tu_exit (rx_return parse r t) = tu_exit t" by (auto simp: rx_return_def split: rx_pc.split prod.split)
    then show ?thesis using Cons.prems by (simp add: RecvReturns)
  next
    case RxMoves
    then show ?thesis using Cons.prems by (auto simp: rx_step_def split: rx_pc.split)
  qed (use Cons.prems in \<open>auto simp: main_step_def toggle_def toggle_reply_def Let_def split: list.split\<close>)
  then show ?case using Cons.IH[of "tui_step parse room e t"] Cons.prems(3) by (simp add: runs_Cons)
qed (simp add: tui_runs_def)

text \<open>The callback would stop it: with a screen, the loop is left at the next step.\<close>

lemma stop_leaves_loop: "tu_main t = TuiLoop \<Longrightarrow> tu_screen t \<Longrightarrow> tu_main (main_step (tui_requestStop t)) = TuiClose"
  by (simp add: main_step_def tui_requestStop_def)

text \<open>A toggle thread is detached: its answer may come after the screen is gone.\<close>

lemma quit_destroys_screen:
  assumes "tu_main u = TuiLoop" and "tu_exit u" and "tu_thread u = RxGone"
  shows "\<not> tu_screen (main_step (main_step (main_step (main_step (main_step u)))))
    \<and> tu_asking (main_step (main_step (main_step (main_step (main_step u))))) = tu_asking u"
  using assms by (simp add: main_step_def split: prod.split)

lemma late_reply_crashes: "\<not> tu_screen u \<Longrightarrow> tu_asking u \<noteq> [] \<Longrightarrow> tu_crashed (toggle_reply now conn r u)"
  by (auto simp: toggle_reply_def Let_def split: list.split)

theorem toggle_thread_outlives_screen:
  assumes "tu_main t = TuiLoop" and "tu_thread t = RxGone"
  shows "tu_crashed (tui_runs parse room
    [Toggled now name wasOn, KeyQ, MainMoves, MainMoves, MainMoves, MainMoves, MainMoves, ToggleAnswered later conn r] t)"
proof -
  let ?u = "tui_step parse room KeyQ (toggle now name wasOn t)"
  have u: "tu_main ?u = TuiLoop" "tu_exit ?u" "tu_thread ?u = RxGone" "tu_asking ?u \<noteq> []"
    using assms by (simp_all add: toggle_def)
  note q = quit_destroys_screen[OF u(1-3)]
  from q u(4) have "tu_crashed (toggle_reply later conn r (main_step (main_step (main_step (main_step (main_step ?u))))))"
    by (intro late_reply_crashes) simp_all
  then show ?thesis by (simp only: tui_runs_def fold_simps tui_step.simps(1,2,5,6))
qed

end
