(* ===== verification/Tui_Widgets.thy ===== *)
theory Tui_Widgets
  imports Tui_App
begin

text \<open>
  What the terminal monitor draws (\<open>src/src/app/tui/widgets\<close> and \<open>render_util.cpp\<close>) and how a click is traced back to
  an actor. The elements of the interface library are free constructors, one for each call the program makes, since
  only their arguments are the program's doing; the library's layout, the terminal's size and the operations on
  floating-point values are parameters. Characters outside ASCII are their UTF-8 bytes.
\<close>

unbundle bit_operations_syntax

section \<open>Elements and numbers\<close>

datatype colour = Cyan | Green | Yellow | Red | Blue | White | Dim | GaugeBg

datatype element =
    Txt string | HBox "element list" | VBox "element list" | Separator | SeparatorHeavy | Filler
  | Coloured colour element | BoldFace element | Flexed element | HCenter element | MinWidth nat element
  | Reflect nat element | Window element element | BorderRounded element

text \<open>\<open>fo_lit n d\<close> is the literal \<open>n/d\<close>, \<open>fo_fixed p x\<close> what a stream with \<open>fixed\<close> and precision \<open>p\<close> prints.\<close>

record 'f float_ops =
  fo_of :: "u64 \<Rightarrow> 'f"
  fo_lit :: "nat \<Rightarrow> nat \<Rightarrow> 'f"
  fo_div :: "'f \<Rightarrow> 'f \<Rightarrow> 'f"
  fo_mul :: "'f \<Rightarrow> 'f \<Rightarrow> 'f"
  fo_sub :: "'f \<Rightarrow> 'f \<Rightarrow> 'f"
  fo_ge :: "'f \<Rightarrow> 'f \<Rightarrow> bool"
  fo_int :: "'f \<Rightarrow> int"
  fo_fixed :: "nat \<Rightarrow> 'f \<Rightarrow> string"

definition fmtPercent :: "'f float_ops \<Rightarrow> 'f \<Rightarrow> string" where "fmtPercent F x = fo_fixed F 1 x"

definition fmtUptime :: "u64 \<Rightarrow> string" where
  "fmtUptime ms =
     (let sec = ms div 1000; mins = sec div 60; sec = sec mod 60; hr = mins div 60; mins = mins mod 60;
          day = hr div 24; hr = hr mod 24 in
      (if day > 0 then dec (unat day) @ ''d '' else []) @
      dec (unat hr) @ ''h '' @ dec (unat mins) @ ''m '' @ dec (unat sec) @ ''s'')"

definition gaugeColor :: "'f float_ops \<Rightarrow> 'f \<Rightarrow> colour" where
  "gaugeColor F x = (if fo_ge F x (fo_lit F 4 5) then Red else if fo_ge F x (fo_lit F 1 2) then Yellow else Green)"

text \<open>\<open>int\<close> division truncates; the width of the terminal is not negative.\<close>

definition gaugeCells :: "nat \<Rightarrow> int" where
  "gaugeCells dimx =
     (let cells = int (dimx div 4) - 3; cells = (if cells < 15 then 15 else cells) in
      if cells > 35 then 35 else cells)"

definition cellGauge :: "'f float_ops \<Rightarrow> 'f \<Rightarrow> colour \<Rightarrow> int \<Rightarrow> element" where
  "cellGauge F progress col cells =
     (let filled = fo_int F (fo_mul F progress (fo_of F (word_of_int cells)));
          filled = (if filled > cells then cells else filled);
          filled = (if filled < 0 then 0 else filled) in
      HBox ([Txt '' ''] @
            (if filled > 0 then [Coloured col (Txt (replicate (nat filled) CHR ''|''))] else []) @
            (if filled < cells then [Coloured GaugeBg (Txt (replicate (nat (cells - filled)) CHR ''|''))] else []) @
            [Txt '' '']))"

section \<open>The list of actors\<close>

text \<open>The check box of an actor and the box of the screen that its element occupied when it was last drawn.\<close>

record 'b actor_list =
  al_actors :: "actor_info list"
  al_states :: "bool list"
  al_boxes :: "'b list"

definition al_new :: "'b actor_list" where "al_new = \<lparr>al_actors = [], al_states = [], al_boxes = []\<rparr>"

definition rebuildCheckboxes :: "'b actor_list \<Rightarrow> 'b actor_list" where
  "rebuildCheckboxes s =
     s\<lparr>al_states := map (\<lambda>a. 3 \<le>s ai_state a) (filter (\<lambda>a. \<not> ai_essential a) (al_actors s))\<rparr>"

definition setActors :: "actor_info list \<Rightarrow> 'b actor_list \<Rightarrow> 'b actor_list" where
  "setActors actors s = rebuildCheckboxes (s\<lparr>al_actors := actors\<rparr>)"

definition square :: string where "square = [CHR 0xE2, CHR 0x96, CHR 0xA0]"
definition bullet :: string where "bullet = [CHR 0xE2, CHR 0x97, CHR 0x8F]"
definition circle :: string where "circle = [CHR 0xE2, CHR 0x97, CHR 0x8B]"

definition checkbox_element :: "bool \<Rightarrow> element" where
  "checkbox_element on = Coloured Dim (Txt (if on then ''['' @ square @ '']'' else ''[ ]''))"

definition renderTitle :: "'b actor_list \<Rightarrow> element" where
  "renderTitle s = Coloured Cyan (BoldFace (Txt ('' Actors ('' @ dec (length (al_actors s)) @ '') '')))"

definition renderEmpty :: element where
  "renderEmpty = HCenter (Coloured Dim (Txt '' No actors connected''))"

definition renderTableHeader :: element where
  "renderTableHeader = Coloured Dim (HBox
     [BoldFace (MinWidth 7 (Txt '' ID '')), Separator, BoldFace (MinWidth 24 (Txt '' NAME '')), Separator,
      BoldFace (MinWidth 10 (Txt '' STATUS '')), Separator, BoldFace (Txt '' MAILBOX '')])"

text \<open>\<open>cb\<close> is the index of the actor's check box, \<open>None\<close> for an essential actor.\<close>

definition renderRow :: "'f float_ops \<Rightarrow> int \<Rightarrow> bool list \<Rightarrow> actor_info \<Rightarrow> nat option \<Rightarrow> element" where
  "renderRow F cells states a cb =
     (let progress = (if ai_mailboxCapacity a > 0 then fo_div F (fo_of F (ai_mailboxCount a)) (fo_of F (ai_mailboxCapacity a))
                      else fo_lit F 0 1);
          idElem = MinWidth 3 (Coloured Blue (Txt (dec (unat (ai_id a)))));
          stateElem = MinWidth 4 (case cb of
              None \<Rightarrow> Coloured Dim (Txt ''[*]'')
            | Some k \<Rightarrow> Reflect k (checkbox_element (states ! k)));
          nameElem = MinWidth 24 (Coloured White (Txt ('' '' @ ai_name a @ '' '')));
          running = ai_mailboxCount a > 0;
          statusColor = (if running then Green else Dim);
          statusElem = HBox [Coloured statusColor (Txt (if running then '' '' @ bullet @ '' '' else '' '' @ circle @ '' '')),
                             MinWidth 7 (Coloured statusColor (Txt (if running then ''Active '' else ''Idle '')))];
          bar = Flexed (cellGauge F progress (gaugeColor F progress) cells);
          mailboxPercent = fo_mul F progress (fo_lit F 100 1);
          mailboxElem = HBox [Txt ('' '' @ dec (unat (ai_mailboxCount a)) @ ''/'' @ dec (unat (ai_mailboxCapacity a)) @ '' ''),
                              Coloured (gaugeColor F progress) (Txt (''('' @ fmtPercent F mailboxPercent @ ''%) ''))]
      in HBox [stateElem, idElem, Separator, nameElem, Separator, statusElem, Separator, bar, Filler, mailboxElem])"

text \<open>The rows with the running index of the check boxes.\<close>

fun actor_rows :: "'f float_ops \<Rightarrow> int \<Rightarrow> bool list \<Rightarrow> actor_info list \<Rightarrow> nat \<Rightarrow> element list" where
  "actor_rows F cells states [] cb = []"
| "actor_rows F cells states (a # as) cb =
     (if \<not> ai_essential a then renderRow F cells states a (Some cb) # actor_rows F cells states as (cb + 1)
      else renderRow F cells states a None # actor_rows F cells states as cb)"

text \<open>\<open>resize\<close> of the boxes keeps the old ones and adds default ones.\<close>

definition resize_to :: "nat \<Rightarrow> 'b \<Rightarrow> 'b list \<Rightarrow> 'b list" where
  "resize_to n d xs = take n xs @ replicate (n - length xs) d"

definition al_render :: "'f float_ops \<Rightarrow> nat \<Rightarrow> 'b \<Rightarrow> 'b actor_list \<Rightarrow> element \<times> 'b actor_list" where
  "al_render F dimx d s =
     (let s = s\<lparr>al_boxes := resize_to (length (al_states s)) d (al_boxes s)\<rparr>;
          rows = renderTableHeader # SeparatorHeavy # actor_rows F (gaugeCells dimx) (al_states s) (al_actors s) 0
      in (if al_actors s = [] then Window (renderTitle s) (Flexed renderEmpty)
          else Window (renderTitle s) (Flexed (VBox rows)), s))"

text \<open>After a frame is drawn, the library has stored the place of every reflected element in its box.\<close>

definition al_drawn :: "(element \<Rightarrow> nat \<Rightarrow> 'b) \<Rightarrow> element \<times> 'b actor_list \<Rightarrow> 'b actor_list" where
  "al_drawn layout es = (case es of (e, s) \<Rightarrow> s\<lparr>al_boxes := map (layout e) [0..<length (al_boxes s)]\<rparr>)"

text \<open>A press of the left button at \<open>pos\<close>: the result says whether the event was consumed, the actor to toggle and
  whether its box was checked.\<close>

fun click_scan :: "('b \<Rightarrow> 'p \<Rightarrow> bool) \<Rightarrow> 'p \<Rightarrow> 'b actor_list \<Rightarrow> actor_info list \<Rightarrow> nat \<Rightarrow> nat option \<times> string" where
  "click_scan inside pos s [] cb = (None, '''')"
| "click_scan inside pos s (a # as) cb =
     (if ai_essential a then click_scan inside pos s as cb
      else if cb < length (al_boxes s) \<and> inside (al_boxes s ! cb) pos then (Some cb, ai_name a)
      else click_scan inside pos s as (cb + 1))"

definition al_event :: "('b \<Rightarrow> 'p \<Rightarrow> bool) \<Rightarrow> bool \<Rightarrow> 'p \<Rightarrow> 'b actor_list \<Rightarrow> (string \<times> bool) option \<times> 'b actor_list" where
  "al_event inside leftPress pos s =
     (if \<not> leftPress then (None, s)
      else case click_scan inside pos s (al_actors s) 0 of
             (None, _) \<Rightarrow> (None, s)
           | (Some k, name) \<Rightarrow>
               (let wasOn = al_states s ! k in (Some (name, wasOn), s\<lparr>al_states := (al_states s)[k := \<not> wasOn]\<rparr>)))"

section \<open>The panels\<close>

definition processInfo :: "'f float_ops \<Rightarrow> nat \<Rightarrow> 'f sys_res \<Rightarrow> element" where
  "processInfo F pid r =
     (let mb = (\<lambda>v. fmtPercent F (fo_div F (fo_of F v) (fo_lit F 1024 1)) @ '' MB'');
          row = (\<lambda>key val. HBox [MinWidth 10 (Coloured Dim (Txt ('' '' @ key @ '':''))), Filler,
                                 Coloured White (Txt ('' '' @ val @ '' ''))])
      in Window (Coloured Cyan (BoldFace (Txt '' Process Info '')))
           (VBox [row ''PID'' (dec pid), row ''Threads'' (dec (unat (sr_threadCount r))), row ''RSS'' (mb (sr_memoryRssKb r)),
                  row ''Peak'' (mb (sr_vmPeakKb r)), row ''HWM'' (mb (sr_vmHwmKb r)), row ''Swap'' (mb (sr_vmSwapKb r))]))"

definition ratio_or_zero :: "'f float_ops \<Rightarrow> u64 \<Rightarrow> u64 \<Rightarrow> 'f" where
  "ratio_or_zero F a b = (if b > 0 then fo_div F (fo_of F a) (fo_of F b) else fo_lit F 0 1)"

definition sysRow :: "string \<Rightarrow> element \<Rightarrow> element \<Rightarrow> element" where
  "sysRow label gauge val =
     HBox [Coloured Cyan (MinWidth 6 (BoldFace (Txt ('' '' @ label @ '' '')))), Separator, gauge, Separator, Filler, val]"

definition systemResources :: "'f float_ops \<Rightarrow> nat \<Rightarrow> nat \<Rightarrow> 'f sys_res \<Rightarrow> element" where
  "systemResources F dimx concurrency r =
     (let cells = gaugeCells dimx;
          pct = (\<lambda>x. fmtPercent F (fo_mul F x (fo_lit F 100 1)));
          cpuFrac = fo_div F (sr_cpuPercent r) (fo_lit F 100 1);
          memFrac = ratio_or_zero F (sr_memoryRssKb r) (sr_memoryTotalKb r);
          mb = (\<lambda>v. fo_div F (fo_of F v) (fo_lit F 1024 1));
          nproc = (if concurrency > 0 then concurrency else 1);
          per = (\<lambda>l. fo_div F l (fo_of F (word_of_nat nproc)));
          loadFrac = (if fo_ge F (fo_lit F 1 1) (per (sr_loadAvg1 r)) then per (sr_loadAvg1 r) else fo_lit F 1 1);
          sysMemFrac = (if sr_sysMemTotalKb r > 0
             then fo_sub F (fo_lit F 1 1) (fo_div F (fo_of F (sr_sysMemAvailKb r)) (fo_of F (sr_sysMemTotalKb r)))
             else fo_lit F 0 1);
          gauge = (\<lambda>x. cellGauge F x (gaugeColor F x) cells);
          load = (\<lambda>label l. Coloured (gaugeColor F (per l)) (Txt ('' '' @ label @ '':'' @ pct (per l) @ ''% '')))
      in Window (Coloured Cyan (BoldFace (Txt '' System Resources '')))
           (VBox [sysRow ''CPU'' (gauge cpuFrac)
                    (Coloured (gaugeColor F cpuFrac) (Txt ('' '' @ fmtPercent F (sr_cpuPercent r) @ ''% ''))),
                  Separator,
                  sysRow ''MEM'' (gauge memFrac)
                    (HBox [Coloured White (Txt ('' '' @ fmtPercent F (mb (sr_memoryRssKb r)) @ '' / '' @
                             fmtPercent F (mb (sr_memoryTotalKb r)) @ '' MB '')),
                           Coloured (gaugeColor F memFrac) (Txt (''('' @ pct memFrac @ ''%) ''))]),
                  Separator,
                  sysRow ''SYS'' (gauge sysMemFrac)
                    (HBox [Coloured White (Txt ('' '' @
                             fmtPercent F (fo_sub F (mb (sr_sysMemTotalKb r)) (mb (sr_sysMemAvailKb r))) @ '' / '' @
                             fmtPercent F (mb (sr_sysMemTotalKb r)) @ '' MB '')),
                           Coloured (gaugeColor F sysMemFrac) (Txt (''('' @ pct sysMemFrac @ ''%) ''))]),
                  Separator,
                  sysRow ''LOAD'' (gauge loadFrac)
                    (HBox [load ''1m'' (sr_loadAvg1 r), Separator, load ''5m'' (sr_loadAvg5 r), Separator,
                           load ''15m'' (sr_loadAvg15 r), Separator,
                           Coloured White (Txt ('' '' @ dec nproc @ '' cores ''))])]))"

definition fmtHz :: "'f float_ops \<Rightarrow> u64 \<Rightarrow> string" where
  "fmtHz F hz =
     (if hz \<ge> 1000000000 then fmtPercent F (fo_div F (fo_of F hz) (fo_lit F 1000000000 1)) @ '' GHz''
      else if hz \<ge> 1000000 then dec (unat (hz div 1000000)) @ '' MHz''
      else if hz \<ge> 1000 then dec (unat (hz div 1000)) @ '' KHz''
      else dec (unat hz) @ '' Hz'')"

definition throttle_flags :: "(nat \<times> string) list" where
  "throttle_flags =
     [(0, '' UNDER-VOLTAGE''), (1, '' FREQ-CAPPED''), (2, '' THROTTLING''), (3, '' SOFT-TEMP''),
      (16, '' [HIST:UNDER-VOLTAGE]''), (17, '' [HIST:FREQ-CAPPED]''), (18, '' [HIST:THROTTLING]''), (19, '' [HIST:SOFT-TEMP]'')]"

definition fmtThrottled :: "u64 \<Rightarrow> string" where
  "fmtThrottled v =
     (if v = 0 then ''OK''
      else let s = concat (map snd (filter (\<lambda>(i, _). bit v i) throttle_flags)) in
        if s = [] then ''0x'' @ dec (unat v) else s)"

definition degree_c :: string where "degree_c = '' '' @ [CHR 0xC2, CHR 0xB0] @ ''C''"

definition pmuInfo :: "'f float_ops \<Rightarrow> 'f pmu_data \<Rightarrow> element" where
  "pmuInfo F d =
     (let row = (\<lambda>key val col. HBox [MinWidth 12 (Coloured Dim (Txt ('' '' @ key @ '':''))), Filler,
                                     Coloured col (Txt ('' '' @ val @ '' ''))]);
          tempCol = (if fo_ge F (pd_tempCelsius d) (fo_lit F 80 1) then Red
                     else if fo_ge F (pd_tempCelsius d) (fo_lit F 70 1) then Yellow else Green);
          throtCol = (if pd_throttled d = 0 then Green else Red);
          voltCol = (if fo_ge F (pd_voltCore d) (fo_lit F 4 5) \<and> fo_ge F (fo_lit F 7 5) (pd_voltCore d) then Green else Yellow)
      in Window (Coloured Cyan (BoldFace (Txt '' PMU Status '')))
           (VBox [row ''ARM Clock'' (fmtHz F (pd_clockArmHz d)) White,
                  row ''Core Clock'' (fmtHz F (pd_clockCoreHz d)) White,
                  row ''V3D Clock'' (fmtHz F (pd_clockV3dHz d)) White,
                  row ''Temperature'' (fo_fixed F 1 (pd_tempCelsius d) @ degree_c) tempCol,
                  row ''Core Voltage'' (fo_fixed F 2 (pd_voltCore d) @ '' V'') voltCol,
                  row ''VDD_CORE'' (fo_fixed F 3 (pd_currentVddCoreA d) @ '' A'') White,
                  row ''ARM/GPU Mem'' (dec (unat (pd_memArmMb d)) @ '' / '' @ dec (unat (pd_memGpuMb d)) @ '' MB'') White,
                  row ''Throttled'' (fmtThrottled (pd_throttled d)) throtCol]))"

record header =
  hd_connected :: bool
  hd_actorCount :: int
  hd_clientCount :: "32 word"
  hd_uptimeMs :: u64

definition header_element :: "string \<Rightarrow> header \<Rightarrow> element" where
  "header_element version h = HBox
     [Coloured Cyan (BoldFace (Txt ('' '' @ square @ '' V2 Engine TUI ''))), Separator,
      Coloured Dim (Txt ('' v'' @ version @ '' '')), Separator,
      Coloured Dim (Txt ('' '' @ fmtUptime (hd_uptimeMs h) @ '' '')), Filler,
      Coloured Dim (Txt (dec_int (hd_actorCount h) @ '' actors '')), Separator,
      Coloured Dim (Txt (dec_int (sint (hd_clientCount h)) @ '' client '')), Separator,
      Coloured (if hd_connected h then Green else Red)
        (Txt (if hd_connected h then '' '' @ bullet @ '' Connected'' else '' '' @ circle @ '' Disconnected''))]"

definition footer_element :: "string \<Rightarrow> int \<Rightarrow> toast \<Rightarrow> element" where
  "footer_element date now toast = HBox
     ([Coloured Dim (Txt ('' '' @ date @ '' '')), Filler] @
      (if to_text toast \<noteq> [] \<and> now < to_until toast then [Coloured Yellow (Txt ('' '' @ to_text toast @ '' '')), Separator] else []) @
      [Coloured Dim (Txt '' [q] quit '')])"

text \<open>\<open>TuiApp::render\<close>: the snapshot is handed to the widgets, and the three parts are stacked. \<open>split\<close> is what the
  resizable containers make of the four panes.\<close>

record 'b tui_frame =
  tf_list :: "'b actor_list"
  tf_header :: header

definition tui_render ::
  "'f float_ops \<Rightarrow> nat \<Rightarrow> nat \<Rightarrow> nat \<Rightarrow> string \<Rightarrow> string \<Rightarrow> (element \<Rightarrow> element \<Rightarrow> element \<Rightarrow> element \<Rightarrow> element) \<Rightarrow> 'b
   \<Rightarrow> int \<Rightarrow> int \<Rightarrow> toast \<Rightarrow> 'f monitor_snapshot \<Rightarrow> 'b actor_list \<Rightarrow> element \<times> 'b tui_frame" where
  "tui_render F dimx concurrency pid version date split box fd now toast snap al =
     (let h = \<lparr>hd_connected = (fd \<ge> 0), hd_actorCount = int (length (ss_actors snap)),
               hd_clientCount = ss_clientCount snap, hd_uptimeMs = sr_uptimeMs (ss_resources snap)\<rparr>;
          (e, al) = al_render F dimx box (setActors (ss_actors snap) al)
      in (VBox [BorderRounded (header_element version h), Separator,
                Flexed (split e (pmuInfo F (ss_pmu snap)) (processInfo F pid (ss_resources snap))
                          (systemResources F dimx concurrency (ss_resources snap))),
                Separator, BorderRounded (footer_element date now toast)],
          \<lparr>tf_list = al, tf_header = h\<rparr>))"

section \<open>Facts\<close>

text \<open>A gauge always has the same number of cells, whatever the value: between 15 and 35.\<close>

fun bars :: "element \<Rightarrow> nat" where
  "bars (HBox es) = sum_list (map bars es)"
| "bars (Coloured c e) = bars e"
| "bars (Txt s) = length (filter (\<lambda>c. c = CHR ''|'') s)"
| "bars _ = 0"

lemma gauge_cells_range: "15 \<le> gaugeCells n \<and> gaugeCells n \<le> 35"
  by (simp add: gaugeCells_def Let_def)

lemma gauge_is_full: "0 \<le> cells \<Longrightarrow> bars (cellGauge F x col cells) = nat cells"
  by (auto simp: cellGauge_def Let_def nat_diff_distrib)

text \<open>The uptime's parts are in range and add up to the whole seconds.\<close>

lemma uptime_parts:
  fixes ms :: nat
  defines "sec \<equiv> ms div 1000"
  shows "sec = ((sec div 60 div 60 div 24 * 24 + sec div 60 div 60 mod 24) * 60 + sec div 60 mod 60) * 60 + sec mod 60"
  by simp

text \<open>Throttling flags: \<open>OK\<close> is printed for no flag at all. A value whose flags are all unknown is printed as \<open>0x\<close> with
  its decimal digits.\<close>

lemma throttled_ok: "fmtThrottled v = ''OK'' \<longleftrightarrow> v = 0"
proof
  assume a: "fmtThrottled v = ''OK''"

  show "v = 0"
  proof (rule ccontr)
    assume v: "v \<noteq> 0"
    let ?fs = "filter (\<lambda>(i, _). bit v i) throttle_flags"
    have t: "take 1 s = '' ''" if "(i, s) \<in> set throttle_flags" for i s using that by (auto simp: throttle_flags_def)
    show False
    proof (cases ?fs)
      case Nil
      then have "fmtThrottled v = ''0x'' @ dec (unat v)" using v by (simp add: fmtThrottled_def Let_def)
      then show False using a by simp
    next
      case (Cons f fs)
      obtain i s where f: "f = (i, s)" by (cases f)
      have "f \<in> set throttle_flags" using Cons by (metis filter_is_subset list.set_intros(1) subsetD)
      then have s: "take 1 s = '' ''" using t f by blast
      then obtain s' where s': "s = CHR '' '' # s'" by (cases s) simp_all
      have "fmtThrottled v = concat (map snd ?fs)" using v Cons f s' by (simp add: fmtThrottled_def Let_def)
      then show False using a Cons f s' by simp
    qed
  qed
qed (simp add: fmtThrottled_def)

theorem unknown_flag_printed_as_decimal_hex: "fmtThrottled 0x10 = ''0x16''"
proof -
  have "filter (\<lambda>(i, _). bit (0x10 :: u64) i) throttle_flags = []" by (simp add: throttle_flags_def)
  moreover have "dec 16 = ''16''" by code_simp
  ultimately show ?thesis by (simp add: fmtThrottled_def Let_def)
qed

section \<open>Clicks\<close>

definition togglable :: "actor_info list \<Rightarrow> actor_info list" where
  "togglable as = filter (\<lambda>a. \<not> ai_essential a) as"

lemma al_states_length: "length (al_states (setActors as s)) = length (togglable as)"
  by (simp add: setActors_def rebuildCheckboxes_def togglable_def)

lemma al_states_nth: "k < length (togglable as) \<Longrightarrow> al_states (setActors as s) ! k = (3 \<le>s ai_state (togglable as ! k))"
  by (simp add: setActors_def rebuildCheckboxes_def togglable_def)

lemma resize_length [simp]: "length (resize_to n d xs) = n"
  by (simp add: resize_to_def)

text \<open>The row of the \<open>k\<close>-th actor that can be toggled reflects box \<open>k\<close>, and no other row does.\<close>

fun reflected :: "element \<Rightarrow> nat list" where
  "reflected (HBox es) = concat (map reflected es)"
| "reflected (VBox es) = concat (map reflected es)"
| "reflected (Coloured c e) = reflected e"
| "reflected (BoldFace e) = reflected e"
| "reflected (Flexed e) = reflected e"
| "reflected (HCenter e) = reflected e"
| "reflected (MinWidth n e) = reflected e"
| "reflected (Reflect k e) = k # reflected e"
| "reflected (Window t e) = reflected t @ reflected e"
| "reflected (BorderRounded e) = reflected e"
| "reflected (Txt s) = []"
| "reflected Separator = []"
| "reflected SeparatorHeavy = []"
| "reflected Filler = []"

lemma reflected_row: "reflected (renderRow F c st a cb) = (case cb of None \<Rightarrow> [] | Some k \<Rightarrow> [k])"
  by (simp add: renderRow_def cellGauge_def checkbox_element_def Let_def split: option.split)

lemma reflected_rows: "concat (map reflected (actor_rows F c st as cb)) = [cb..<cb + length (togglable as)]"
proof (induction as arbitrary: cb)
  case (Cons a as)
  show ?case
    using Cons[of cb] Cons[of "Suc cb"] upt_conv_Cons[of cb "cb + Suc (length (togglable as))"]
    by (simp add: togglable_def reflected_row)
qed (simp add: togglable_def)

lemma row_of_box:
  "k < length (togglable as) \<Longrightarrow> renderRow F c st (togglable as ! k) (Some (cb + k)) \<in> set (actor_rows F c st as cb)"
proof (induction as arbitrary: cb k)
  case (Cons a as)
  show ?case
  proof (cases "ai_essential a")
    case True
    then show ?thesis using Cons by (simp add: togglable_def)
  next
    case False
    then have t: "togglable (a # as) = a # togglable as" by (simp add: togglable_def)
    show ?thesis
    proof (cases k)
      case 0
      then show ?thesis using False t by simp
    next
      case (Suc j)
      then have "renderRow F c st (togglable as ! j) (Some (Suc cb + j)) \<in> set (actor_rows F c st as (Suc cb))"
        using Cons t by (intro Cons(1)) simp
      then show ?thesis using False t Suc by simp
    qed
  qed
qed (simp add: togglable_def)

lemma click_finds:
  assumes "k < length (togglable as)" and "cb + length (togglable as) \<le> length (al_boxes s)"
    and "inside (al_boxes s ! (cb + k)) pos" and "\<forall>j < k. \<not> inside (al_boxes s ! (cb + j)) pos"
  shows "click_scan inside pos s as cb = (Some (cb + k), ai_name (togglable as ! k))"
  using assms
proof (induction as arbitrary: cb k)
  case (Cons a as)
  show ?case
  proof (cases "ai_essential a")
    case True
    then show ?thesis using Cons by (simp add: togglable_def)
  next
    case False
    then have t: "togglable (a # as) = a # togglable as" by (simp add: togglable_def)
    show ?thesis
    proof (cases k)
      case 0
      then show ?thesis using False t Cons by simp
    next
      case (Suc j)
      have "\<not> inside (al_boxes s ! cb) pos" using Cons(5) Suc by (metis add_0_right zero_less_Suc)
      moreover have "click_scan inside pos s as (cb + 1) = (Some (cb + 1 + j), ai_name (togglable as ! j))"
      proof (rule Cons(1))
        show "\<forall>i < j. \<not> inside (al_boxes s ! (cb + 1 + i)) pos"
          using Cons(5) Suc by (metis Suc_mono add.assoc plus_1_eq_Suc)
      qed (use Cons(2-4) t Suc in simp_all)
      ultimately show ?thesis using False t Suc by simp
    qed
  qed
qed (simp add: togglable_def)

lemma al_drawn_fields [simp]:
  "al_states (al_drawn layout (al_render F dimx d s)) = al_states s"
  "al_actors (al_drawn layout (al_render F dimx d s)) = al_actors s"
  "al_boxes (al_drawn layout (al_render F dimx d s)) = map (layout (fst (al_render F dimx d s))) [0..<length (al_states s)]"
  by (simp_all add: al_drawn_def al_render_def Let_def)

lemma setActors_actors [simp]: "al_actors (setActors as s) = as"
  by (simp add: setActors_def rebuildCheckboxes_def)

text \<open>
  A click toggles the actor whose check box it hits. After any frame - whatever was shown before - in which the
  library gave the reflected elements their places, a left press inside exactly one of the boxes asks to toggle the
  actor in whose row that box was drawn, tells whether that row's box was checked, and inverts this box and no other.
\<close>

theorem click_toggles_shown_actor:
  assumes frame: "frame = al_render F dimx d (setActors as s)" and k: "k < length (togglable as)" and hit: "inside (layout (fst frame) k) pos"
    and only: "list_all (\<lambda>j. inside (layout (fst frame) j) pos \<longrightarrow> j = k) [0..<length (togglable as)]"
  shows "let a = togglable as ! k; shown = al_drawn layout frame; on = (3 \<le>s ai_state a) in
    renderRow F (gaugeCells dimx) (al_states shown) a (Some k) \<in> set (actor_rows F (gaugeCells dimx) (al_states shown) as 0) \<and>
    concat (map reflected (actor_rows F (gaugeCells dimx) (al_states shown) as 0)) = [0..<length (togglable as)] \<and>
    al_event inside True pos shown = (Some (ai_name a, on), shown\<lparr>al_states := (al_states shown)[k := \<not> on]\<rparr>)"
proof -
  let ?shown = "al_drawn layout frame"
  have b: "al_boxes ?shown = map (layout (fst frame)) [0..<length (togglable as)]"
    unfolding frame by (simp add: al_states_length)
  have "click_scan inside pos ?shown as 0 = (Some (0 + k), ai_name (togglable as ! k))"
  proof (rule click_finds[OF k])
    show "inside (al_boxes ?shown ! (0 + k)) pos" using hit k by (simp add: b)
    show "\<forall>j < k. \<not> inside (al_boxes ?shown ! (0 + j)) pos" using only k by (auto simp: b list_all_iff)
  qed (simp add: b)
  moreover have "al_actors ?shown = as" "al_states ?shown ! k = (3 \<le>s ai_state (togglable as ! k))"
    unfolding frame using k by (simp_all add: al_states_nth)
  ultimately show ?thesis
    using row_of_box[OF k, of F "gaugeCells dimx" "al_states ?shown" 0] reflected_rows[of F "gaugeCells dimx" "al_states ?shown" as 0]
    by (simp add: al_event_def Let_def)
qed

definition demo_floats :: "int float_ops" where
  "demo_floats = \<lparr>fo_of = uint, fo_lit = \<lambda>n d. int n, fo_div = \<lambda>a b. a div b, fo_mul = \<lambda>a b. a * b, fo_sub = \<lambda>a b. a - b,
     fo_ge = \<lambda>a b. a \<ge> b, fo_int = id, fo_fixed = \<lambda>p x. dec_int x\<rparr>"

definition demo_actors :: "actor_info list" where
  "demo_actors =
     [\<lparr>ai_name = ''ipc'', ai_id = 0, ai_mailboxCount = 0, ai_mailboxCapacity = 8, ai_state = 3, ai_essential = True\<rparr>,
      \<lparr>ai_name = ''tick'', ai_id = 1, ai_mailboxCount = 0, ai_mailboxCapacity = 8, ai_state = 3, ai_essential = False\<rparr>,
      \<lparr>ai_name = ''monitor'', ai_id = 2, ai_mailboxCount = 2, ai_mailboxCapacity = 8, ai_state = 0, ai_essential = False\<rparr>]"

theorem click_toggles_shown_actor_witness:
  "fst (al_event (\<lambda>b y. b = y) True (3 :: nat)
     (al_drawn (\<lambda>e k. k + 2) (al_render demo_floats 100 0 (setActors demo_actors al_new)))) = Some (''monitor'', False)"
proof -
  let ?frame = "al_render demo_floats 100 (0 :: nat) (setActors demo_actors al_new)"
  have t: "togglable demo_actors = tl demo_actors" by (simp add: togglable_def demo_actors_def)
  have k: "(1 :: nat) < length (togglable demo_actors)" unfolding t by (simp add: demo_actors_def)
  have only: "list_all (\<lambda>j. (\<lambda>b y. b = y) ((\<lambda>e k. k + 2) (fst ?frame) j) (3 :: nat) \<longrightarrow> j = 1) [0..<length (togglable demo_actors)]"
    by (simp add: list_all_iff)
  have hit: "(\<lambda>b y. b = y) ((\<lambda>e k. k + 2) (fst ?frame) 1) (3 :: nat)" by simp
  note R = click_toggles_shown_actor[OF refl k, where inside = "\<lambda>b y. b = y" and layout = "\<lambda>e k. k + 2" and pos = 3
      and F = demo_floats and dimx = 100 and d = 0 and s = al_new, OF hit only]
  have "fst (al_event (\<lambda>b y. b = y) True (3 :: nat) (al_drawn (\<lambda>e k. k + 2) ?frame)) =
      Some (ai_name (togglable demo_actors ! 1), 3 \<le>s ai_state (togglable demo_actors ! 1))"
    using R unfolding Let_def by simp
  moreover have "\<not> 3 \<le>s (0 :: 32 word)" by code_simp
  ultimately show ?thesis unfolding t by (simp add: demo_actors_def)
qed

end
