(* ===== verification/Worker_Waits.thy ===== *)
theory Worker_Waits
  imports Work_Dispatcher
begin

text \<open>
  The waiting loops of the dispatcher and the worker's thread (\<open>runtime/dispatcher/work_dispatcher.cpp\<close>, \<open>worker.cpp\<close>):
  the spin on the own queue before a worker parks, the grace spin before an actor's token is given back, the whole of
  \<open>acquire\<close>, and \<open>Worker::start\<close> and \<open>stop\<close>. Between any two accesses other threads may change the dispatcher in any way:
  \<open>env k d\<close> is what the \<open>k\<close>-th access of this thread finds when it left \<open>d\<close>, and \<open>clock k\<close> is what the clock shows then,
  in nanoseconds. The loops are partial functions, so that they return is a theorem: the spins end when the clock has
  passed their budget, \<open>acquire\<close> when the dispatcher has stopped or its drain is over.
\<close>

section \<open>The spin before parking\<close>

definition kSpinPauseStride :: nat where "kSpinPauseStride = 32"

text \<open>The inner loop: up to \<open>n\<close> attempts, a pause before each.\<close>

fun spin_tries :: "(nat \<Rightarrow> dispatcher \<Rightarrow> dispatcher) \<Rightarrow> nat \<Rightarrow> nat \<Rightarrow> nat \<Rightarrow> dispatcher \<Rightarrow> nat option \<times> nat \<times> dispatcher" where
  "spin_tries env w 0 k d = (None, k, d)"
| "spin_tries env w (Suc n) k d =
     (case try_acquire_own w (env k d) of
        (Some a, d1) \<Rightarrow> (Some a, k + 1, d1)
      | (None, d1) \<Rightarrow> spin_tries env w n (k + 1) d1)"

partial_function (option) spin_loop ::
  "(nat \<Rightarrow> dispatcher \<Rightarrow> dispatcher) \<Rightarrow> (nat \<Rightarrow> int) \<Rightarrow> wdcfg \<Rightarrow> nat \<Rightarrow> int \<Rightarrow> nat \<Rightarrow> dispatcher \<Rightarrow> (nat option \<times> nat \<times> dispatcher) option" where
  "spin_loop env clock cfg w start k d =
     (let d0 = env k d in
      if \<not> ds_running d0 then Some (None, k + 1, d0)
      else
        (case spin_tries env w kSpinPauseStride (k + 1) d0 of
           (Some a, k1, d1) \<Rightarrow> Some (Some a, k1, d1)
         | (None, k1, d1) \<Rightarrow>
             (if clock k1 - start \<ge> wc_parkSpinNs cfg then Some (None, k1 + 1, d1)
              else spin_loop env clock cfg w start (k1 + 1) d1)))"

definition spin_acquire ::
  "(nat \<Rightarrow> dispatcher \<Rightarrow> dispatcher) \<Rightarrow> (nat \<Rightarrow> int) \<Rightarrow> wdcfg \<Rightarrow> nat \<Rightarrow> nat \<Rightarrow> dispatcher \<Rightarrow> (nat option \<times> nat \<times> dispatcher) option" where
  "spin_acquire env clock cfg w k d = spin_loop env clock cfg w (clock k) (k + 1) d"

section \<open>The grace spin\<close>

text \<open>
  What the grace spin looks at: the mailbox count and the stopped flag of the actor's runtime and the dispatcher's
  draining flag, each as its access finds it.
\<close>

record grace_view =
  gv_mailboxCount :: nat
  gv_stopped :: bool
  gv_draining :: bool

partial_function (option) grace_loop :: "(nat \<Rightarrow> grace_view) \<Rightarrow> (nat \<Rightarrow> int) \<Rightarrow> wdcfg \<Rightarrow> int \<Rightarrow> nat \<Rightarrow> nat option" where
  "grace_loop view clock cfg start k =
     (if gv_mailboxCount (view k) \<noteq> 0 then Some (k + 1)
      else if gv_stopped (view (k + 1)) then Some (k + 2)
      else if gv_draining (view (k + 2)) then Some (k + 3)
      else if clock (k + 3) - start \<ge> wc_tokenGraceNs cfg then Some (k + 4)
      else grace_loop view clock cfg start (k + 4))"

definition grace_spin :: "(nat \<Rightarrow> grace_view) \<Rightarrow> (nat \<Rightarrow> int) \<Rightarrow> wdcfg \<Rightarrow> nat \<Rightarrow> nat option" where
  "grace_spin view clock cfg k = grace_loop view clock cfg (clock k) (k + 1)"

section \<open>Acquiring\<close>

text \<open>
  The loop of \<open>acquire\<close>. The wait on the semaphore is one access: it finds a permit when it ends, or it has timed out.
  Stealing visits the victims in one access.
\<close>

partial_function (option) acquire_loop ::
  "(nat \<Rightarrow> dispatcher \<Rightarrow> dispatcher) \<Rightarrow> (nat \<Rightarrow> int) \<Rightarrow> wdcfg \<Rightarrow> nat \<Rightarrow> nat \<Rightarrow> dispatcher \<Rightarrow> (nat option \<times> nat \<times> dispatcher) option" where
  "acquire_loop env clock cfg w k d =
     (let d1 = env k d; d2 = env (k + 1) d1; d3 = env (k + 2) d2; d4 = env (k + 3) d3 in
      if \<not> ds_running d1 \<and> \<not> ds_draining d2 then Some (None, k + 2, d2)
      else if ds_draining d3 \<and> ds_pending d4 = 0 then Some (None, k + 4, d4)
      else
        (case (if 0 < wc_parkSpinNs cfg then spin_acquire env clock cfg w (k + 4) d4 else Some (None, k + 4, d4)) of
           None \<Rightarrow> None
         | Some (Some a, k5, d5) \<Rightarrow> Some (Some a, k5, set_backoff w False d5)
         | Some (None, k5, d5) \<Rightarrow>
             (let d6 = env k5 d5 in
              if 0 < ds_semas d6 ! w then
                (case try_acquire_own w (env (k5 + 1) (d6\<lparr>ds_semas := (ds_semas d6)[w := ds_semas d6 ! w - 1]\<rparr>)) of
                   (Some a, d7) \<Rightarrow> Some (Some a, k5 + 2, set_backoff w False d7)
                 | (None, d7) \<Rightarrow> acquire_loop env clock cfg w (k5 + 2) d7)
              else
                (case try_steal w (env (k5 + 1) d6) of
                   (Some a, d7) \<Rightarrow> Some (Some a, k5 + 2, set_backoff w False d7)
                 | (None, d7) \<Rightarrow> acquire_loop env clock cfg w (k5 + 2) (set_backoff w True d7)))))"

definition acquire ::
  "(nat \<Rightarrow> dispatcher \<Rightarrow> dispatcher) \<Rightarrow> (nat \<Rightarrow> int) \<Rightarrow> wdcfg \<Rightarrow> nat \<Rightarrow> nat \<Rightarrow> dispatcher \<Rightarrow> (nat option \<times> nat \<times> dispatcher) option" where
  "acquire env clock cfg w k d =
     (case try_acquire_own w (env k d) of
        (Some a, d1) \<Rightarrow> Some (Some a, k + 1, set_backoff w False d1)
      | (None, d1) \<Rightarrow> acquire_loop env clock cfg w (k + 1) d1)"

section \<open>The worker's thread\<close>

text \<open>
  The flag that keeps the loop going and the thread object. Starting a worker again while its thread has not been joined
  assigns to a joinable \<open>std::thread\<close>, which terminates the process (\<open>None\<close>); \<open>stop\<close> from the own thread does not join.
\<close>

record worker =
  wk_running :: bool
  wk_joinable :: bool

definition worker_new :: worker where "worker_new = \<lparr>wk_running = False, wk_joinable = False\<rparr>"

definition worker_start :: "worker \<Rightarrow> worker option" where
  "worker_start wk = (if wk_joinable wk then None else Some (wk\<lparr>wk_running := True, wk_joinable := True\<rparr>))"

definition worker_stop :: "bool \<Rightarrow> worker \<Rightarrow> worker" where
  "worker_stop own_thread wk =
     (let wk1 = wk\<lparr>wk_running := False\<rparr> in
      if wk_joinable wk1 \<and> \<not> own_thread then wk1\<lparr>wk_joinable := False\<rparr> else wk1)"

section \<open>The spins end\<close>

lemma spin_tries_ticks:
  "spin_tries env w n k d = (r, k', d') \<Longrightarrow> k \<le> k' \<and> k' \<le> k + n \<and> (r = None \<longrightarrow> k' = k + n)"
proof (induction n arbitrary: k d)
  case (Suc n)
  obtain r1 d1 where t: "try_acquire_own w (env k d) = (r1, d1)" by fastforce
  show ?case
  proof (cases r1)
    case None
    then have "spin_tries env w n (k + 1) d1 = (r, k', d')" using Suc.prems t by simp
    from Suc.IH[OF this] show ?thesis by auto
  qed (use Suc.prems t in auto)
qed simp

text \<open>
  From the access \<open>K\<close> on the spin has a reason to end: the clock is past its budget, or the dispatcher has stopped.
\<close>

definition spin_ends :: "(nat \<Rightarrow> dispatcher \<Rightarrow> dispatcher) \<Rightarrow> (nat \<Rightarrow> int) \<Rightarrow> wdcfg \<Rightarrow> int \<Rightarrow> nat \<Rightarrow> bool" where
  "spin_ends env clock cfg start K \<longleftrightarrow>
     (\<forall>j \<ge> K. clock j - start \<ge> wc_parkSpinNs cfg) \<or> (\<forall>j \<ge> K. \<forall>d. \<not> ds_running (env j d))"

lemma spin_loop_at_once:
  assumes "spin_ends env clock cfg start K" and "K \<le> k"
  shows "\<exists>r k' d'. spin_loop env clock cfg w start k d = Some (r, k', d') \<and> k < k' \<and> k' \<le> k + kSpinPauseStride + 2"
proof (cases "ds_running (env k d)")
  case True
  obtain r1 k1 d1 where t: "spin_tries env w kSpinPauseStride (k + 1) (env k d) = (r1, k1, d1)"
    by (cases "spin_tries env w kSpinPauseStride (k + 1) (env k d)")
  note T = spin_tries_ticks[OF t]
  have "wc_parkSpinNs cfg \<le> clock k1 - start" using assms True T unfolding spin_ends_def by auto
  then show ?thesis using t T True by (subst spin_loop.simps) (auto simp: Let_def split: option.split)
qed (subst spin_loop.simps, simp add: Let_def)

lemma spin_loop_returns:
  assumes E: "spin_ends env clock cfg start K"
  shows "\<exists>r k' d'. spin_loop env clock cfg w start k d = Some (r, k', d') \<and> k < k' \<and>
    k' \<le> max k (K + kSpinPauseStride + 2) + kSpinPauseStride + 2"
proof (induction "K - k" arbitrary: k d rule: less_induct)
  case less
  show ?case
  proof (cases "K \<le> k")
    case True
    then show ?thesis using spin_loop_at_once[OF E True, of w d] by auto
  next
    case False
    obtain r1 k1 d1 where t: "spin_tries env w kSpinPauseStride (k + 1) (env k d) = (r1, k1, d1)"
      by (cases "spin_tries env w kSpinPauseStride (k + 1) (env k d)")
    note T = spin_tries_ticks[OF t]
    show ?thesis
    proof (cases "ds_running (env k d) \<and> r1 = None \<and> clock k1 - start < wc_parkSpinNs cfg")
      case False
      then show ?thesis using t T by (subst spin_loop.simps) (auto simp: Let_def not_less split: option.split)
    next
      case True
      then have e: "spin_loop env clock cfg w start k d = spin_loop env clock cfg w start (k1 + 1) d1"
        using t by (subst spin_loop.simps) (auto simp: Let_def not_less)
      have k1: "k1 = k + 1 + kSpinPauseStride" using T True by simp
      then have "K - (k1 + 1) < K - k" using False by simp
      from less.hyps[OF this, of d1] show ?thesis unfolding e using False k1 by (auto simp: max_def split: if_splits)
    qed
  qed
qed

lemma spin_acquire_returns:
  assumes "spin_ends env clock cfg (clock k) K"
  shows "\<exists>r k' d'. spin_acquire env clock cfg w k d = Some (r, k', d') \<and> k < k'"
  using spin_loop_returns[OF assms, of w "k + 1" d] by (auto simp: spin_acquire_def)

lemma grace_loop_returns:
  assumes "\<forall>j \<ge> K. clock j - start \<ge> wc_tokenGraceNs cfg"
  shows "\<exists>k'. grace_loop view clock cfg start k = Some k' \<and> k' \<le> max k K + 4"
proof (induction "K - k" arbitrary: k rule: less_induct)
  case less
  show ?case
  proof (cases "K \<le> k + 3")
    case True
    then show ?thesis using assms by (subst grace_loop.simps) (auto simp: max_def)
  next
    case False
    then have "K - (k + 4) < K - k" by simp
    from less.hyps[OF this] show ?thesis using False by (subst grace_loop.simps) (auto simp: max_def)
  qed
qed

section \<open>Acquire ends\<close>

text \<open>
  Once the dispatcher has stopped, or its drain is over: from the access \<open>K\<close> on the loop condition is false, or the
  dispatcher no longer runs, drains and has no work left. A worker that is still in \<open>acquire\<close> then leaves it.
\<close>

definition shut_down :: "(nat \<Rightarrow> dispatcher \<Rightarrow> dispatcher) \<Rightarrow> nat \<Rightarrow> bool" where
  "shut_down env K \<longleftrightarrow> (\<forall>j \<ge> K. \<forall>d. \<not> ds_running (env j d)) \<and>
     ((\<forall>j \<ge> K. \<forall>d. \<not> ds_draining (env j d)) \<or> (\<forall>j \<ge> K. \<forall>d. ds_draining (env j d) \<and> ds_pending (env j d) = 0))"

lemma acquire_loop_returns:
  assumes S: "shut_down env K"
  shows "\<exists>r k' d'. acquire_loop env clock cfg w k d = Some (r, k', d')"
proof (induction "K - k" arbitrary: k d rule: less_induct)
  case less
  show ?case
  proof (cases "K \<le> k")
    case True
    then show ?thesis using S unfolding shut_down_def by (subst acquire_loop.simps) (auto simp: Let_def)
  next
    case False
    define d4 where "d4 = env (k + 3) (env (k + 2) (env (k + 1) (env k d)))"
    have "spin_ends env clock cfg (clock (k + 4)) K" using S by (simp add: shut_down_def spin_ends_def)
    from spin_acquire_returns[OF this, of w d4] obtain r5 k5 d5 where
      s: "(if 0 < wc_parkSpinNs cfg then spin_acquire env clock cfg w (k + 4) d4 else Some (None, k + 4, d4)) = Some (r5, k5, d5)"
      and k5: "k + 4 \<le> k5" by (cases "0 < wc_parkSpinNs cfg") auto
    have IH: "\<exists>r k' d'. acquire_loop env clock cfg w (k5 + 2) d = Some (r, k', d')" for d
      by (rule less.hyps) (use False k5 in simp)
    show ?thesis
    proof (cases r5)
      case None
      define d6 where "d6 = env k5 d5"
      define p where "p = try_acquire_own w (env (k5 + 1) (d6\<lparr>ds_semas := (ds_semas d6)[w := ds_semas d6 ! w - 1]\<rparr>))"
      define q where "q = try_steal w (env (k5 + 1) d6)"
      show ?thesis
        by (subst acquire_loop.simps, unfold Let_def d4_def[symmetric] s None d6_def[symmetric] p_def[symmetric] q_def[symmetric]
            option.case prod.case)
          (cases p; cases "fst p"; cases q; cases "fst q"; simp add: IH[simplified])
    qed (subst acquire_loop.simps, unfold Let_def d4_def[symmetric] s, simp)
  qed
qed

lemma acquire_returns:
  assumes "shut_down env K"
  shows "\<exists>r k' d'. acquire env clock cfg w k d = Some (r, k', d')"
  using acquire_loop_returns[OF assms] by (auto simp: acquire_def split: prod.split option.split)

section \<open>Finding work\<close>

text \<open>
  What the other threads leave to worker \<open>w\<close>: the dispatcher runs and some queue holds an entry. Every whole call of
  another thread keeps the slack, the permits of \<open>w\<close> less the entries of its queue: \<open>dispatch\<close> adds an entry and its
  permit, a thief takes an entry and a permit if there is one.
\<close>

definition has_work :: "nat \<Rightarrow> dispatcher \<Rightarrow> bool" where
  "has_work w d \<longleftrightarrow> w < ds_workers d \<and> w < length (ds_semas d) \<and> ds_running d \<and> \<not> ds_draining d \<and> queue_entries d \<noteq> {#}"

definition slack :: "nat \<Rightarrow> dispatcher \<Rightarrow> int" where
  "slack w d = int (ds_semas d ! w) - int (length (bq_items (ds_queues d ! w)))"

definition leaves_work :: "(nat \<Rightarrow> dispatcher \<Rightarrow> dispatcher) \<Rightarrow> nat \<Rightarrow> bool" where
  "leaves_work env w \<longleftrightarrow> (\<forall>k d. has_work w d \<longrightarrow> has_work w (env k d) \<and> slack w d \<le> slack w (env k d))"

definition quiet_from :: "(nat \<Rightarrow> dispatcher \<Rightarrow> dispatcher) \<Rightarrow> nat \<Rightarrow> bool" where
  "quiet_from env K \<longleftrightarrow> (\<forall>k \<ge> K. \<forall>d. env k d = d)"

definition clock_advances :: "(nat \<Rightarrow> int) \<Rightarrow> bool" where
  "clock_advances clock \<longleftrightarrow> (\<forall>t. \<exists>K. \<forall>j \<ge> K. t \<le> clock j)"

text \<open>
  What an attempt that ran from access \<open>k\<close> shows of its result: a failed one has lost nothing, a successful one has,
  where no other thread acted, taken exactly its entry.
\<close>

definition attempt_ok :: "nat \<Rightarrow> nat \<Rightarrow> nat \<Rightarrow> dispatcher \<Rightarrow> nat option \<Rightarrow> dispatcher \<Rightarrow> bool" where
  "attempt_ok K w k d r d' \<longleftrightarrow>
     (r = None \<longrightarrow> has_work w d' \<and> slack w d \<le> slack w d' \<and> (K \<le> k \<longrightarrow> d' = d)) \<and>
     (\<forall>a. r = Some a \<longrightarrow> K \<le> k \<longrightarrow> all_entries d = add_mset a (all_entries d'))"

lemma attempt_ok_first:
  "has_work w d' \<Longrightarrow> slack w d \<le> slack w d' \<Longrightarrow> (K \<le> k \<Longrightarrow> d' = d) \<Longrightarrow> k \<le> k' \<Longrightarrow> attempt_ok K w k' d' r d'' \<Longrightarrow>
     attempt_ok K w k d r d''"
  by (fastforce simp: attempt_ok_def)

lemma own_nothing: "try_acquire_own w d = (None, d1) \<Longrightarrow> d1 = d \<and> bq_items (ds_queues d ! w) = []"
  by (auto simp: try_acquire_own_def bq_pop_def split: list.splits)

lemma own_something:
  "try_acquire_own w d = (Some a, d1) \<Longrightarrow> w < ds_workers d \<Longrightarrow> all_entries d = add_mset a (all_entries d1)"
  using pop_entry[of w d a _ d1] by (auto simp: try_acquire_own_def bq_pop_def all_entries_def split: list.splits)

definition shares :: "(nat \<Rightarrow> dispatcher \<Rightarrow> dispatcher) \<Rightarrow> nat \<Rightarrow> nat \<Rightarrow> bool" where
  "shares env w K \<longleftrightarrow> leaves_work env w \<and> quiet_from env K"

lemma env_step: "shares env w K \<Longrightarrow> has_work w d \<Longrightarrow> has_work w (env k d) \<and> slack w d \<le> slack w (env k d) \<and> (K \<le> k \<longrightarrow> env k d = d)"
  by (simp add: shares_def leaves_work_def quiet_from_def)

lemma own_attempt:
  assumes "shares env w K" and "has_work w d" and "try_acquire_own w (env k d) = (r, d')"
  shows "attempt_ok K w k d r d'"
  using env_step[OF assms(1,2), of k] assms(3) own_nothing[of w "env k d" d'] own_something[of w "env k d" _ d']
  by (auto simp: attempt_ok_def has_work_def)

lemma spin_tries_attempt: "shares env w K \<Longrightarrow> has_work w d \<Longrightarrow> spin_tries env w n k d = (r, k', d') \<Longrightarrow> attempt_ok K w k d r d'"
proof (induction n arbitrary: k d)
  case 0
  then show ?case by (simp add: attempt_ok_def)
next
  case (Suc n)
  obtain r1 d1 where t: "try_acquire_own w (env k d) = (r1, d1)" by fastforce
  note A = own_attempt[OF Suc.prems(1,2) t]
  show ?case
  proof (cases r1)
    case None
    then have "has_work w d1" "spin_tries env w n (k + 1) d1 = (r, k', d')" using A Suc.prems(3) t by (simp_all add: attempt_ok_def)
    from Suc.IH[OF Suc.prems(1) this] show ?thesis
      by (rule attempt_ok_first[rotated -1]) (use A None in \<open>simp_all add: attempt_ok_def\<close>)
  qed (use Suc.prems A t in simp)
qed

lemma spin_loop_attempt:
  assumes sh: "shares env w K" and J: "\<forall>j \<ge> J. clock j - start \<ge> wc_parkSpinNs cfg" and "has_work w d"
  shows "\<exists>r k' d'. spin_loop env clock cfg w start k d = Some (r, k', d') \<and> k \<le> k' \<and> attempt_ok K w k d r d'"
  using assms(3)
proof (induction "J - k" arbitrary: k d rule: less_induct)
  case less
  note S = env_step[OF sh less.prems, of k]
  have run: "ds_running (env k d)" using S by (simp add: has_work_def)
  obtain r1 k1 d1 where t: "spin_tries env w kSpinPauseStride (k + 1) (env k d) = (r1, k1, d1)"
    by (cases "spin_tries env w kSpinPauseStride (k + 1) (env k d)")
  note T = spin_tries_ticks[OF t]
  have A: "attempt_ok K w k d r1 d1"
    by (rule attempt_ok_first[OF _ _ _ _ spin_tries_attempt[OF sh _ t]]) (use S in simp_all)
  show ?case
  proof (cases "r1 = None \<and> \<not> wc_parkSpinNs cfg \<le> clock k1 - start")
    case False
    then show ?thesis using run t A T by (subst spin_loop.simps) (auto simp: Let_def split: option.splits)
  next
    case True
    then have "\<not> J \<le> k1" using J by blast
    then have m: "J - (k1 + 1) < J - k" using T by linarith
    have h: "has_work w d1" "slack w d \<le> slack w d1" "K \<le> k \<Longrightarrow> d1 = d" using A True by (simp_all add: attempt_ok_def)
    have k1: "k \<le> k1 + 1" using T by simp
    from less.hyps[OF m h(1)] obtain r k' d' where
      "spin_loop env clock cfg w start (k1 + 1) d1 = Some (r, k', d')" "k1 + 1 \<le> k'" "attempt_ok K w (k1 + 1) d1 r d'" by blast
    moreover have "spin_loop env clock cfg w start k d = spin_loop env clock cfg w start (k1 + 1) d1"
      using True run t by (subst spin_loop.simps) (simp add: Let_def)
    ultimately show ?thesis using attempt_ok_first[OF h k1] T by auto
  qed
qed

lemma spin_attempt:
  assumes sh: "shares env w K" and "has_work w d" and clk: "clock_advances clock"
  shows "\<exists>r k' d'. (if 0 < wc_parkSpinNs cfg then spin_acquire env clock cfg w k d else Some (None, k, d)) = Some (r, k', d') \<and>
    k \<le> k' \<and> attempt_ok K w k d r d'"
proof (cases "0 < wc_parkSpinNs cfg")
  case True
  obtain J where "\<forall>j \<ge> J. wc_parkSpinNs cfg + clock k \<le> clock j" using clk unfolding clock_advances_def by blast
  then have "\<forall>j \<ge> J. clock j - clock k \<ge> wc_parkSpinNs cfg" by (metis le_diff_eq)
  from spin_loop_attempt[OF sh this assms(2), of "k + 1"] obtain r k' d' where
    s: "spin_acquire env clock cfg w k d = Some (r, k', d')" and k': "k + 1 \<le> k'" and A: "attempt_ok K w (k + 1) d r d'"
    by (auto simp: spin_acquire_def)
  have "attempt_ok K w k d r d'" by (rule attempt_ok_first[OF assms(2) _ _ _ A]) simp_all
  then show ?thesis using s k' True by auto
qed (use assms(2) in \<open>simp add: attempt_ok_def\<close>)


lemma set_backoff_same [simp]:
  "has_work w (set_backoff v b d) = has_work w d" "slack w (set_backoff v b d) = slack w d"
  "all_entries (set_backoff v b d) = all_entries d" "ds_semas (set_backoff v b d) = ds_semas d"
  by (simp_all add: set_backoff_def has_work_def slack_def all_entries_def queue_entries_def)

text \<open>
  Permits and entries do not go together: an entry taken by \<open>acquire\<close>'s first attempt or by the spin leaves its permit
  behind. A worker with an empty queue uses up such permits one round each, and only then looks at the other queues.
\<close>

lemma acquire_loop_unfold:
  assumes sh: "shares env w K" and H: "has_work w d" and clk: "clock_advances clock"
  shows "\<exists>r5 k5 d5. k + 4 \<le> k5 \<and> attempt_ok K w k d r5 d5 \<and> acquire_loop env clock cfg w k d =
    (case r5 of Some a \<Rightarrow> Some (Some a, k5, set_backoff w False d5)
     | None \<Rightarrow> (let d6 = env k5 d5 in
              if 0 < ds_semas d6 ! w then
                (case try_acquire_own w (env (k5 + 1) (d6\<lparr>ds_semas := (ds_semas d6)[w := ds_semas d6 ! w - 1]\<rparr>)) of
                   (Some a, d7) \<Rightarrow> Some (Some a, k5 + 2, set_backoff w False d7)
                 | (None, d7) \<Rightarrow> acquire_loop env clock cfg w (k5 + 2) d7)
              else
                (case try_steal w (env (k5 + 1) d6) of
                   (Some a, d7) \<Rightarrow> Some (Some a, k5 + 2, set_backoff w False d7)
                 | (None, d7) \<Rightarrow> acquire_loop env clock cfg w (k5 + 2) (set_backoff w True d7))))"
proof -
  define d1 d2 d3 d4 where d: "d1 = env k d" "d2 = env (k + 1) d1" "d3 = env (k + 2) d2" "d4 = env (k + 3) d3"
  note h1 = env_step[OF sh H, of k, folded d]
  note h2 = env_step[OF sh conjunct1[OF h1], of "k + 1", folded d]
  note h3 = env_step[OF sh conjunct1[OF h2], of "k + 2", folded d]
  note h4 = env_step[OF sh conjunct1[OF h3], of "k + 3", folded d]
  from spin_attempt[OF sh conjunct1[OF h4] clk, of cfg "k + 4"] obtain r5 k5 d5 where
    s: "(if 0 < wc_parkSpinNs cfg then spin_acquire env clock cfg w (k + 4) d4 else Some (None, k + 4, d4)) = Some (r5, k5, d5)"
    and k5: "k + 4 \<le> k5" and A: "attempt_ok K w (k + 4) d4 r5 d5" by blast
  have "attempt_ok K w k d r5 d5"
    by (rule attempt_ok_first[OF conjunct1[OF h4] _ _ _ A]) (use h1 h2 h3 h4 in auto)
  moreover have run: "\<not> (\<not> ds_running d1 \<and> \<not> ds_draining d2)" "\<not> (ds_draining d3 \<and> ds_pending d4 = 0)"
    using h1 h3 by (simp_all add: has_work_def)
  ultimately show ?thesis
    by (intro exI[of _ r5] exI[of _ k5] exI[of _ d5], subst acquire_loop.simps, unfold Let_def d[symmetric] s if_not_P[OF run(1)] if_not_P[OF run(2)])
      (cases r5; simp add: k5)
qed

text \<open>One round of the loop takes an entry, or it goes round; when no other thread acts, with one permit less.\<close>

lemma acquire_round_progress:
  assumes sh: "shares env w K" and H: "has_work w d" and clk: "clock_advances clock" and sl: "0 \<le> slack w d"
  shows "(\<exists>a k' d'. acquire_loop env clock cfg w k d = Some (Some a, k', d') \<and> (K \<le> k \<longrightarrow> all_entries d = add_mset a (all_entries d'))) \<or>
    (\<exists>k' d'. acquire_loop env clock cfg w k d = acquire_loop env clock cfg w k' d' \<and> k < k' \<and> has_work w d' \<and> 0 \<le> slack w d' \<and>
       (K \<le> k \<longrightarrow> all_entries d' = all_entries d \<and> ds_semas d' ! w < ds_semas d ! w))"
proof -
  from acquire_loop_unfold[OF sh H clk, of k cfg] obtain r5 k5 d5 where k5: "k + 4 \<le> k5" and A: "attempt_ok K w k d r5 d5"
    and U: "acquire_loop env clock cfg w k d =
      (case r5 of Some a \<Rightarrow> Some (Some a, k5, set_backoff w False d5)
       | None \<Rightarrow> (let d6 = env k5 d5 in
          if 0 < ds_semas d6 ! w then
            (case try_acquire_own w (env (k5 + 1) (d6\<lparr>ds_semas := (ds_semas d6)[w := ds_semas d6 ! w - 1]\<rparr>)) of
               (Some a, d7) \<Rightarrow> Some (Some a, k5 + 2, set_backoff w False d7)
             | (None, d7) \<Rightarrow> acquire_loop env clock cfg w (k5 + 2) d7)
          else
            (case try_steal w (env (k5 + 1) d6) of
               (Some a, d7) \<Rightarrow> Some (Some a, k5 + 2, set_backoff w False d7)
             | (None, d7) \<Rightarrow> acquire_loop env clock cfg w (k5 + 2) (set_backoff w True d7))))" by blast
  show ?thesis
  proof (cases r5)
    case (Some a)
    then show ?thesis using U A by (auto simp: attempt_ok_def)
  next
    case None
    define d6 where "d6 = env k5 d5"
    have h5: "has_work w d5" "slack w d \<le> slack w d5" "K \<le> k \<Longrightarrow> d5 = d" using A None by (simp_all add: attempt_ok_def)
    note h6 = env_step[OF sh h5(1), of k5, folded d6_def]
    have q6: "K \<le> k \<Longrightarrow> d6 = d" using h5(3) h6 k5 by simp
    show ?thesis
    proof (cases "0 < ds_semas d6 ! w")
      case True
      define dp where "dp = d6\<lparr>ds_semas := (ds_semas d6)[w := ds_semas d6 ! w - 1]\<rparr>"
      have hp: "has_work w dp" "slack w dp = slack w d6 - 1" "all_entries dp = all_entries d6" "ds_semas dp ! w = ds_semas d6 ! w - 1"
        using h6 True by (simp_all add: dp_def has_work_def slack_def all_entries_def queue_entries_def)
      define d7 where "d7 = env (k5 + 1) dp"
      note h7 = env_step[OF sh hp(1), of "k5 + 1", folded d7_def]
      obtain r d8 where t: "try_acquire_own w d7 = (r, d8)" by fastforce
      have e: "acquire_loop env clock cfg w k d = (case r of Some a \<Rightarrow> Some (Some a, k5 + 2, set_backoff w False d8)
          | None \<Rightarrow> acquire_loop env clock cfg w (k5 + 2) d8)"
        unfolding U None option.case Let_def d6_def[symmetric] dp_def[symmetric] d7_def[symmetric] t prod.case using True by simp
      show ?thesis
      proof (cases r)
        case (Some a)
        then show ?thesis using e own_something[OF t[unfolded Some]] h7 hp(3) q6 k5 by (auto simp: has_work_def)
      next
        case None
        note N = own_nothing[OF t[unfolded None]]
        then have "0 \<le> slack w d8" by (simp add: slack_def)
        moreover have "K \<le> k \<Longrightarrow> all_entries d8 = all_entries d \<and> ds_semas d8 ! w < ds_semas d ! w"
          using N h7 hp(3,4) q6 k5 True by simp
        ultimately show ?thesis using e None N h7 k5 by (intro disjI2 exI[of _ "k5 + 2"] exI[of _ d8]) simp
      qed
    next
      case False
      define d7 where "d7 = env (k5 + 1) d6"
      note h7 = env_step[OF sh conjunct1[OF h6], of "k5 + 1", folded d7_def]
      obtain r d8 where t: "try_steal w d7 = (r, d8)" by fastforce
      have e: "acquire_loop env clock cfg w k d = (case r of Some a \<Rightarrow> Some (Some a, k5 + 2, set_backoff w False d8)
          | None \<Rightarrow> acquire_loop env clock cfg w (k5 + 2) (set_backoff w True d8))"
        unfolding U None option.case Let_def d6_def[symmetric] d7_def[symmetric] t prod.case using False by simp
      have w7: "w < ds_workers d7" using h7 by (simp add: has_work_def)
      have S: "case r of None \<Rightarrow> d8 = d7 | Some a \<Rightarrow> queue_entries d7 = add_mset a (queue_entries d8) \<and> ds_pended d8 = ds_pended d7"
        using steal_from_ok[OF w7, of 1] t by (simp add: try_steal_def split: option.splits)
      show ?thesis
      proof (cases r)
        case (Some a)
        then have "all_entries d7 = add_mset a (all_entries d8)" using S by (simp add: all_entries_def)
        moreover have "K \<le> k \<Longrightarrow> d7 = d" using h7 q6 k5 by simp
        ultimately show ?thesis using Some e by auto
      next
        case None
        have "\<not> K \<le> k"
        proof
          assume "K \<le> k"
          then have "d7 = d" using q6 h7 k5 by simp
          moreover have "bq_items (ds_queues d ! w) = []" using sl False q6[OF \<open>K \<le> k\<close>] by (simp add: slack_def)
          ultimately have "(case try_acquire_own w d of (Some a, d1) \<Rightarrow> (Some a, d1) | (None, d1) \<Rightarrow> try_steal w d1) = (None, d8)"
            using t None by (simp add: try_acquire_own_def bq_pop_def)
          with own_or_steal_finds_work[OF w7[unfolded \<open>d7 = d\<close>] this] H show False by (simp add: has_work_def)
        qed
        then show ?thesis using e None S h5 h6 h7 sl k5
          by (intro disjI2 exI[of _ "k5 + 2"] exI[of _ "set_backoff w True d8"]) simp
      qed
    qed
  qed
qed

lemma acquire_loop_finds_work:
  assumes sh: "shares env w K" and H: "has_work w d" and clk: "clock_advances clock" and sl: "0 \<le> slack w d"
  shows "\<exists>a k' d'. acquire_loop env clock cfg w k d = Some (Some a, k', d') \<and> (K \<le> k \<longrightarrow> all_entries d = add_mset a (all_entries d'))"
  using H sl
proof (induction "(K - k, ds_semas d ! w)" arbitrary: k d rule: wf_induct_rule[OF wf_lex_prod[OF wf_less_than wf_less_than]])
  case (1 k d)
  from acquire_round_progress[OF sh 1(2) clk 1(3), of cfg k] show ?case
  proof (elim disjE)
    assume "\<exists>k' d'. acquire_loop env clock cfg w k d = acquire_loop env clock cfg w k' d' \<and> k < k' \<and> has_work w d' \<and> 0 \<le> slack w d' \<and>
       (K \<le> k \<longrightarrow> all_entries d' = all_entries d \<and> ds_semas d' ! w < ds_semas d ! w)"
    then obtain k' d' where e: "acquire_loop env clock cfg w k d = acquire_loop env clock cfg w k' d'" and "k < k'"
      and h: "has_work w d'" "0 \<le> slack w d'" and q: "K \<le> k \<longrightarrow> all_entries d' = all_entries d \<and> ds_semas d' ! w < ds_semas d ! w" by blast
    have "((K - k', ds_semas d' ! w), (K - k, ds_semas d ! w)) \<in> less_than <*lex*> less_than" using \<open>k < k'\<close> q by auto
    from 1(1)[OF this h] show ?thesis unfolding e using q \<open>k < k'\<close> by auto
  qed
qed


text \<open>
  The calls of the other threads are of this kind: a dispatch leaves the work where it is and brings no entry without its
  permit, and a thief that does not take the last entry takes at most one permit, and that with its entry.
\<close>

lemma push_keeps_slack:
  assumes "has_work w d" and "v < ds_workers d" and "bq_push (ds_queues d ! v) a = (q, True)"
  shows "has_work w (release_sema v (d\<lparr>ds_queues := (ds_queues d)[v := q]\<rparr>)) \<and>
    slack w d \<le> slack w (release_sema v (d\<lparr>ds_queues := (ds_queues d)[v := q]\<rparr>))"
proof -
  have q: "bq_items q = bq_items (ds_queues d ! v) @ [a]" using assms(3) by (auto simp: bq_push_def split: if_splits)
  have "v < length (ds_queues d)" using assms(2) .
  then have "queue_entries (d\<lparr>ds_queues := (ds_queues d)[v := q]\<rparr>) \<noteq> {#}"
    using q assms(2) by (force simp: entries_empty)
  then show ?thesis using assms q by (cases "v = w") (auto simp: has_work_def slack_def release_sema_def queue_entries_def)
qed

lemma dispatch_leaves_work:
  assumes "has_work w d"
  shows "has_work w (snd (dispatch a d)) \<and> slack w d \<le> slack w (snd (dispatch a d))"
proof -
  define d0 where "d0 = d\<lparr>ds_held := (ds_held d)[a mod kMaxActors := True]\<rparr>"
  have h0: "has_work w d0" "slack w d0 = slack w d" using assms by (simp_all add: d0_def has_work_def slack_def queue_entries_def)
  then have "0 < ds_workers d0" by (auto simp: has_work_def)
  from push_keeps_slack[OF h0(1) pick_worker_range[OF this]] h0 assms show ?thesis
    by (cases "bq_push (ds_queues d0 ! pick_worker a d0) a"; cases "snd (bq_push (ds_queues d0 ! pick_worker a d0) a)")
      (auto simp: dispatch_def Let_def d0_def[symmetric] enqueue_entry_def has_work_def slack_def queue_entries_def split: bool.splits)
qed

lemma steal_keeps_slack:
  assumes "v < ds_workers d"
  shows "ds_workers (snd (steal_from v i d)) = ds_workers d \<and> length (ds_semas (snd (steal_from v i d))) = length (ds_semas d) \<and>
    ds_running (snd (steal_from v i d)) = ds_running d \<and> ds_draining (snd (steal_from v i d)) = ds_draining d \<and>
    (w < ds_workers d \<longrightarrow> w < length (ds_semas d) \<longrightarrow> slack w d \<le> slack w (snd (steal_from v i d)))"
  using assms
proof (induction v i d rule: steal_from.induct)
  case (1 v i d)
  let ?u = "(v + i) mod ds_workers d"
  show ?case
  proof (cases "i < ds_workers d \<and> bq_items (ds_queues d ! ?u) \<noteq> []")
    case True
    then obtain a as where q: "bq_items (ds_queues d ! ?u) = a # as" by (cases "bq_items (ds_queues d ! ?u)") auto
    have "steal_from v i d = (Some a, d\<lparr>ds_queues := (ds_queues d)[?u := (ds_queues d ! ?u)\<lparr>bq_items := as\<rparr>],
        ds_semas := (ds_semas d)[?u := ds_semas d ! ?u - 1]\<rparr>)"
      using True q by (simp add: steal_from.simps[of v i] bq_empty_def bq_pop_def Let_def)
    then show ?thesis using q by (cases "?u = w") (auto simp: slack_def)
  next
    case False
    show ?thesis
    proof (cases "i < ds_workers d")
      case True
      then have "steal_from v i d = steal_from v (i + 1) d" using False by (simp add: steal_from.simps[of v i] bq_empty_def)
      then show ?thesis using 1(1)[OF True refl _ 1(3)] False True by (simp add: bq_empty_def)
    qed (simp add: steal_from.simps[of v i])
  qed
qed

lemma thief_leaves_work:
  assumes "has_work w d" and "v < ds_workers d" and "queue_entries (snd (try_steal v d)) \<noteq> {#}"
  shows "has_work w (snd (try_steal v d)) \<and> slack w d \<le> slack w (snd (try_steal v d))"
  using steal_keeps_slack[OF assms(2), of 1 w] assms(1,3) by (simp add: has_work_def try_steal_def)

text \<open>Before the worker's fourth access another thread dispatches actor 4, whose home is this worker.\<close>

definition demo_other :: "nat \<Rightarrow> dispatcher \<Rightarrow> dispatcher" where
  "demo_other k d = (if k = 3 then snd (dispatch 4 d) else d)"


section \<open>The waits end\<close>

text \<open>
  Whatever other threads do meanwhile: while the clock advances both spins return, and once the dispatcher has been shut
  down every worker leaves \<open>acquire\<close>.
\<close>

theorem waits_end:
  assumes clk: "clock_advances clock" and down: "shut_down env K"
  shows "(\<exists>r k' d'. spin_acquire env' clock cfg w k d = Some (r, k', d')) \<and> (\<exists>k'. grace_spin view clock cfg k = Some k') \<and>
    (\<exists>r k' d'. acquire env clock cfg w k d = Some (r, k', d'))"
proof (intro conjI)
  obtain K1 where "\<forall>j \<ge> K1. wc_parkSpinNs cfg + clock k \<le> clock j" using clk unfolding clock_advances_def by blast
  then have "spin_ends env' clock cfg (clock k) K1" unfolding spin_ends_def by (metis le_diff_eq)
  from spin_acquire_returns[OF this, of w d] show "\<exists>r k' d'. spin_acquire env' clock cfg w k d = Some (r, k', d')" by blast
  obtain K2 where "\<forall>j \<ge> K2. wc_tokenGraceNs cfg + clock k \<le> clock j" using clk unfolding clock_advances_def by blast
  then have "\<forall>j \<ge> K2. clock j - clock k \<ge> wc_tokenGraceNs cfg" by (metis le_diff_eq)
  from grace_loop_returns[OF this, of view "k + 1"] show "\<exists>k'. grace_spin view clock cfg k = Some k'"
    by (auto simp: grace_spin_def)
  show "\<exists>r k' d'. acquire env clock cfg w k d = Some (r, k', d')" by (rule acquire_returns[OF down])
qed

section \<open>Permits outlive their entries\<close>

text \<open>
  One message to an idle actor whose home worker is looking for work: dispatched, acquired by the first attempt, run, its
  token given back. The queue is as before, the semaphore has one permit more, and nothing ever bounds their number.
\<close>

definition busy_round :: "nat \<Rightarrow> dispatcher \<Rightarrow> dispatcher" where
  "busy_round a d = retire_pending (release_in_flight a (snd (acquire_first (a mod ds_workers d) (snd (dispatch a d)))))"

definition idle_home :: "nat \<Rightarrow> dispatcher \<Rightarrow> bool" where
  "idle_home a d \<longleftrightarrow> 0 < ds_workers d \<and> length (ds_semas d) = ds_workers d \<and> 0 < ds_high d \<and>
     length (ds_held d) = kMaxActors \<and> \<not> ds_held d ! (a mod kMaxActors) \<and>
     bq_items (ds_queues d ! (a mod ds_workers d)) = [] \<and> 0 < bq_cap (ds_queues d ! (a mod ds_workers d)) \<and> \<not> ds_draining d"

lemma busy_round_ok:
  assumes I: "idle_home a d"
  shows "idle_home a (busy_round a d) \<and> ds_workers (busy_round a d) = ds_workers d \<and>
    ds_semas (busy_round a d) ! (a mod ds_workers d) = ds_semas d ! (a mod ds_workers d) + 1"
proof -
  let ?w = "a mod ds_workers d" and ?h = "(ds_held d)[a mod kMaxActors := True]"
  have w: "?w < ds_workers d" and k: "a mod kMaxActors < length (ds_held d)" using I by (simp_all add: idle_home_def kMaxActors_def)
  have "pick_worker a (d\<lparr>ds_held := ?h\<rparr>) = ?w" using I by (simp add: idle_home_def pick_worker_def ds_load_def bq_count_def Let_def)
  then have di: "dispatch a d = (True, d\<lparr>ds_held := ?h, ds_queues := (ds_queues d)[?w := (ds_queues d ! ?w)\<lparr>bq_items := [a]\<rparr>],
      ds_semas := (ds_semas d)[?w := ds_semas d ! ?w + 1], ds_pending := ds_pending d + 1\<rparr>)"
    using I by (simp add: idle_home_def dispatch_def enqueue_entry_def bq_push_def release_sema_def Let_def)
  have q: "(ds_queues d)[?w := (ds_queues d ! ?w)\<lparr>bq_items := []\<rparr>] = ds_queues d"
    using I by (simp add: idle_home_def list_update_same_conv)
  show ?thesis using I w k q
    by (simp add: busy_round_def di acquire_first_def try_acquire_own_def bq_pop_def set_backoff_def release_in_flight_def
        retire_pending_def Let_def idle_home_def)
qed

theorem permits_outlive_entries:
  assumes "idle_home a d"
  shows "idle_home a ((busy_round a ^^ n) d) \<and>
    ds_semas ((busy_round a ^^ n) d) ! (a mod ds_workers d) = ds_semas d ! (a mod ds_workers d) + n"
proof -
  have "idle_home a ((busy_round a ^^ n) d) \<and> ds_workers ((busy_round a ^^ n) d) = ds_workers d \<and>
      ds_semas ((busy_round a ^^ n) d) ! (a mod ds_workers d) = ds_semas d ! (a mod ds_workers d) + n"
  proof (induction n)
    case (Suc n)
    then show ?case using busy_round_ok[of a "(busy_round a ^^ n) d"] by simp
  qed (use assms in simp)
  then show ?thesis by simp
qed

text \<open>While a permit is left, a worker with an empty queue does not look at the queues of the others.\<close>

lemma permit_delays_stealing:
  assumes "0 < ds_semas d ! w" and "w < length (ds_semas d)" and "bq_items (ds_queues d ! w) = []" and "ds_running d" and "\<not> ds_draining d"
  shows "acquire_round False w d = (Again, d\<lparr>ds_semas := (ds_semas d)[w := ds_semas d ! w - 1]\<rparr>)"
  using assms by (simp add: acquire_round_def try_acquire_own_def bq_pop_def)

end
